(* ===== verification/Prelude.thy ===== *)
theory Prelude
  imports Main "HOL-Library.Word" "HOL-Library.Code_Target_Nat"
begin

text \<open>
  Shared vocabulary of the development: the machine integer types of the Rust sources, the
  result type and its error-propagating bind (Rust's \<^verbatim>\<open>?\<close> operator), saturating and
  checked arithmetic, big-endian byte encodings, and generic facts on lists that several
  components use.  The collections \<open>result_simps\<close> and \<open>bytes_simps\<close> carry the
  automation of the component proofs.
\<close>

unbundle bit_operations_syntax

named_theorems result_simps \<open>equations of the result monad\<close>
named_theorems bytes_simps \<open>lengths and slices of encoded byte strings\<close>

type_synonym u8 = "8 word"
type_synonym u16 = "16 word"
type_synonym u32 = "32 word"
type_synonym u64 = "64 word"
type_synonym bytes = "8 word list"

section \<open>Results and error propagation\<close>

text \<open>A Rust \<^verbatim>\<open>Result<A, E>\<close> is \<open>'e + 'a\<close>: \<open>Inl\<close> is \<^verbatim>\<open>Err\<close>, \<open>Inr\<close> is \<^verbatim>\<open>Ok\<close>.\<close>

type_synonym ('a, 'e) result = "'e + 'a"

definition and_then :: "'e + 'a \<Rightarrow> ('a \<Rightarrow> 'e + 'b) \<Rightarrow> 'e + 'b" where
  "and_then r f = (case r of Inl e \<Rightarrow> Inl e | Inr a \<Rightarrow> f a)"

definition map_err :: "('e \<Rightarrow> 'f) \<Rightarrow> 'e + 'a \<Rightarrow> 'f + 'a" where
  "map_err f r = (case r of Inl e \<Rightarrow> Inl (f e) | Inr a \<Rightarrow> Inr a)"

definition ok_or :: "'e \<Rightarrow> 'a option \<Rightarrow> 'e + 'a" where
  "ok_or e x = (case x of None \<Rightarrow> Inl e | Some a \<Rightarrow> Inr a)"

definition is_ok :: "'e + 'a \<Rightarrow> bool" where
  "is_ok r = (case r of Inl _ \<Rightarrow> False | Inr _ \<Rightarrow> True)"

lemma and_then_simps [simp, result_simps]:
  "and_then (Inl e) f = Inl e"
  "and_then (Inr a) f = f a"
  by (simp_all add: and_then_def)

lemma map_err_simps [simp, result_simps]:
  "map_err g (Inl e) = Inl (g e)"
  "map_err g (Inr a) = Inr a"
  by (simp_all add: map_err_def)

lemma ok_or_simps [simp, result_simps]:
  "ok_or e None = Inl e"
  "ok_or e (Some a) = Inr a"
  by (simp_all add: ok_or_def)

lemma is_ok_simps [simp, result_simps]:
  "\<not> is_ok (Inl e)"
  "is_ok (Inr a)"
  by (simp_all add: is_ok_def)

lemma and_then_eq_Inr: "and_then r f = Inr b \<longleftrightarrow> (\<exists>a. r = Inr a \<and> f a = Inr b)"
  by (cases r) auto

lemma and_then_eq_Inl:
  "and_then r f = Inl e \<longleftrightarrow> r = Inl e \<or> (\<exists>a. r = Inr a \<and> f a = Inl e)"
  by (cases r) auto

lemma map_err_eq_Inr [simp, result_simps]: "map_err g r = Inr a \<longleftrightarrow> r = Inr a"
  by (cases r) auto

lemma ok_or_eq_Inr [simp, result_simps]: "ok_or e x = Inr a \<longleftrightarrow> x = Some a"
  by (cases x) auto

text \<open>Rust's \<^verbatim>\<open>iter().map(f).collect::<Result<Vec<_>, _>>()\<close>: the first error wins.\<close>

fun try_map :: "('a \<Rightarrow> 'e + 'b) \<Rightarrow> 'a list \<Rightarrow> 'e + 'b list" where
  "try_map f [] = Inr []"
| "try_map f (x # xs) = and_then (f x) (\<lambda>y. and_then (try_map f xs) (\<lambda>ys. Inr (y # ys)))"

lemma try_map_Inr: "try_map f xs = Inr ys \<longleftrightarrow> list_all2 (\<lambda>x y. f x = Inr y) xs ys"
  by (induction xs arbitrary: ys) (auto simp: and_then_eq_Inr list_all2_Cons1)

lemma try_map_mem: "try_map f xs = Inr ys \<Longrightarrow> y \<in> set ys \<Longrightarrow> \<exists>x \<in> set xs. f x = Inr y"
  by (induction xs arbitrary: ys) (auto simp: and_then_eq_Inr)

section \<open>Bounded arithmetic\<close>

definition saturating_add :: "nat \<Rightarrow> nat \<Rightarrow> nat \<Rightarrow> nat" where
  "saturating_add w a b = min (a + b) (2 ^ w - 1)"

definition saturating_mul :: "nat \<Rightarrow> nat \<Rightarrow> nat \<Rightarrow> nat" where
  "saturating_mul w a b = min (a * b) (2 ^ w - 1)"

definition checked_add :: "nat \<Rightarrow> nat \<Rightarrow> nat \<Rightarrow> nat option" where
  "checked_add w a b = (if a + b < 2 ^ w then Some (a + b) else None)"

definition checked_mul :: "nat \<Rightarrow> nat \<Rightarrow> nat \<Rightarrow> nat option" where
  "checked_mul w a b = (if a * b < 2 ^ w then Some (a * b) else None)"

definition checked_sub :: "nat \<Rightarrow> nat \<Rightarrow> nat option" where
  "checked_sub a b = (if b \<le> a then Some (a - b) else None)"

definition clamp :: "'a::linorder \<Rightarrow> 'a \<Rightarrow> 'a \<Rightarrow> 'a" where
  "clamp lo hi x = (if x < lo then lo else if hi < x then hi else x)"

definition div_ceil :: "nat \<Rightarrow> nat \<Rightarrow> nat" where
  "div_ceil a b = (a + b - 1) div b"

definition next_multiple_of :: "nat \<Rightarrow> nat \<Rightarrow> nat" where
  "next_multiple_of x m = (if x mod m = 0 then x else x + (m - x mod m))"

text \<open>\<^verbatim>\<open>u64\<close> arithmetic of a release build, where overflow wraps.\<close>

definition wadd :: "nat \<Rightarrow> nat \<Rightarrow> nat" where "wadd a b = (a + b) mod 2 ^ 64"
definition wmul :: "nat \<Rightarrow> nat \<Rightarrow> nat" where "wmul a b = (a * b) mod 2 ^ 64"
definition wsub :: "nat \<Rightarrow> nat \<Rightarrow> nat" where "wsub a b = (a + (2 ^ 64 - b)) mod 2 ^ 64"

lemma wadd_exact: "a + b < 2 ^ 64 \<Longrightarrow> wadd a b = a + b"
  by (simp add: wadd_def)

lemma wmul_exact: "a * b < 2 ^ 64 \<Longrightarrow> wmul a b = a * b"
  by (simp add: wmul_def)

lemma wsub_exact: "b \<le> a \<Longrightarrow> a < 2 ^ 64 \<Longrightarrow> wsub a b = a - b"
proof -
  assume ab: "b \<le> a" "a < 2 ^ 64"
  then have "a + (2 ^ 64 - b) = (a - b) + 2 ^ 64" by simp
  moreover have "a - b < 2 ^ 64" using ab by simp
  ultimately show ?thesis unfolding wsub_def by (metis mod_add_self2 mod_less)
qed

lemma clamp_bounds: "lo \<le> hi \<Longrightarrow> lo \<le> clamp lo hi x \<and> clamp lo hi x \<le> hi"
  by (auto simp: clamp_def)

lemma div_ceil_mult_ge: "0 < b \<Longrightarrow> a \<le> div_ceil a b * b"
proof -
  assume b: "0 < b"
  have "(a + b - 1) mod b < b" using b by simp
  moreover have "(a + b - 1) div b * b + (a + b - 1) mod b = a + b - 1" by simp
  ultimately show ?thesis using b unfolding div_ceil_def by linarith
qed

lemma add_to_multiple:
  assumes "0 < (m::nat)" shows "x + (m - x mod m) = m * (x div m + 1)"
proof -
  have "x mod m < m" using assms by simp
  then have "x + (m - x mod m) = (x - x mod m) + m" by simp
  also have "x - x mod m = m * (x div m)" by (rule minus_mod_eq_mult_div)
  finally show ?thesis by simp
qed

lemma next_multiple_of_dvd: "0 < m \<Longrightarrow> m dvd next_multiple_of x m"
proof (cases "x mod m = 0")
  case True
  then show ?thesis by (simp add: next_multiple_of_def mod_eq_0_iff_dvd)
next
  case False
  assume "0 < m"
  then show ?thesis using False by (simp only: next_multiple_of_def add_to_multiple if_False dvd_triv_left)
qed

lemma next_multiple_of_ge: "x \<le> next_multiple_of x m"
  by (simp add: next_multiple_of_def)

lemma next_multiple_of_le:
  assumes "0 < m" "m dvd y" "x \<le> y" shows "next_multiple_of x m \<le> y"
proof (cases "x mod m = 0")
  case True
  then show ?thesis using assms by (simp add: next_multiple_of_def)
next
  case False
  obtain k where k: "y = m * k" using assms(2) by (elim dvdE)
  have "x < y" using assms k False by (metis le_neq_implies_less mod_mult_self1_is_0)
  then have "x div m < k" using assms(1) k by (simp add: less_mult_imp_div_less mult.commute)
  then have "m * (x div m + 1) \<le> m * k" by (intro mult_le_mono2) simp
  then show ?thesis using False assms(1) k by (simp only: next_multiple_of_def add_to_multiple if_False)
qed

lemma next_multiple_of_idem: "m dvd x \<Longrightarrow> next_multiple_of x m = x"
  by (simp add: next_multiple_of_def)

section \<open>Big-endian bytes\<close>

fun nat_to_be :: "nat \<Rightarrow> nat \<Rightarrow> bytes" where
  "nat_to_be 0 x = []"
| "nat_to_be (Suc k) x = of_nat (x div 256 ^ k) # nat_to_be k x"

definition be_to_nat :: "bytes \<Rightarrow> nat" where
  "be_to_nat bs = foldl (\<lambda>acc b. 256 * acc + unat b) 0 bs"

lemma length_nat_to_be [simp, bytes_simps]: "length (nat_to_be k x) = k"
  by (induction k) auto

lemma foldl_be: "foldl (\<lambda>acc b. 256 * acc + unat (b :: u8)) a bs = a * 256 ^ length bs + be_to_nat bs"
  unfolding be_to_nat_def
proof (induction bs arbitrary: a)
  case Nil
  then show ?case by simp
next
  case (Cons b bs)
  show ?case
    using Cons [of "256 * a + unat b"] Cons [of "unat b"] by (simp add: algebra_simps)
qed

lemma be_to_nat_Cons [bytes_simps]: "be_to_nat (b # bs) = unat b * 256 ^ length bs + be_to_nat bs"
  using foldl_be [of "unat b" bs] by (simp add: be_to_nat_def)

lemma be_to_nat_Nil [simp, bytes_simps]: "be_to_nat [] = 0"
  by (simp add: be_to_nat_def)

lemma be_to_nat_nat_to_be: "be_to_nat (nat_to_be k x) = x mod 256 ^ k"
proof (induction k)
  case 0
  then show ?case by simp
next
  case (Suc k)
  have "x mod (256 ^ k * 256) = 256 ^ k * (x div 256 ^ k mod 256) + x mod 256 ^ k"
    by (rule mod_mult2_eq)
  then show ?case
    using Suc by (simp add: be_to_nat_Cons unat_of_nat algebra_simps)
qed

lemma be_to_nat_less: "be_to_nat bs < 256 ^ length bs"
proof (induction bs)
  case Nil
  then show ?case by simp
next
  case (Cons b bs)
  have "unat b < 256" using unsigned_less [of b, where ?'a = nat] by simp
  then have "unat b * 256 ^ length bs \<le> 255 * 256 ^ length bs"
    by (intro mult_le_mono1) simp
  then have "unat b * 256 ^ length bs + be_to_nat bs < 256 * 256 ^ length bs"
    using Cons by linarith
  then show ?case by (simp add: be_to_nat_Cons)
qed

section \<open>Lists\<close>

lemma take_append_length [simp, bytes_simps]: "length xs = n \<Longrightarrow> take n (xs @ ys) = xs"
  by auto

lemma drop_append_length [simp, bytes_simps]: "length xs = n \<Longrightarrow> drop n (xs @ ys) = ys"
  by auto

lemma nth_list_update_if:
  "xs[i := x] ! j = (if i = j \<and> j < length xs then x else xs ! j)"
  by (cases "i = j"; cases "j < length xs") (auto simp: list_update_beyond)

end
