(* ===== verification/Framing.thy ===== *)
theory Framing
  imports Prelude
begin

text \<open>
  What the two wire protocols share: the 14-byte frame header (payload length as u32, flags,
  message type, request id as u64, all big-endian), byte streams and their exact reads, and the
  zstd compressor, which is third-party code and therefore a parameter.

  A byte stream is what the peer will send before it closes.  The blocking and the buffered
  readers differ in how they see it: \<open>read_exact\<close> takes the bytes at once, while
  \<open>fill\<close> receives them in segments of arbitrary sizes, as socket reads deliver them.

  The locale \<open>message_codes\<close> is the contract of a message-type registry; each protocol
  interprets it on its own enumeration.
\<close>

section \<open>Parameters: the zstd library\<close>

datatype io_error = UnexpectedEof | OtherIo string

text \<open>
  \<open>encode_all\<close> is \<^verbatim>\<open>zstd::stream::encode_all\<close>; \<open>decode_take src n\<close> is
  \<^verbatim>\<open>Decoder::new(src)?.take(n).read_to_end(..)\<close>; \<open>bulk_compress src cap\<close> and
  \<open>bulk_decompress src cap\<close> are \<^verbatim>\<open>compress_to_buffer\<close> and \<^verbatim>\<open>decompress_to_buffer\<close> on a
  destination of \<open>cap\<close> bytes.
\<close>

record zstd =
  encode_all :: "bytes \<Rightarrow> io_error + bytes"
  decode_take :: "bytes \<Rightarrow> nat \<Rightarrow> io_error + bytes"
  bulk_compress :: "bytes \<Rightarrow> nat \<Rightarrow> string + bytes"
  bulk_decompress :: "bytes \<Rightarrow> nat \<Rightarrow> string + bytes"

text \<open>Documented behaviour: decompression inverts compression, incrementally.\<close>

definition zstd_inverts :: "zstd \<Rightarrow> bool" where
  "zstd_inverts z \<longleftrightarrow>
     (\<forall>raw. \<exists>c. encode_all z raw = Inr c \<and> (\<forall>n. decode_take z c n = Inr (take n raw)))"

text \<open>
  Documented behaviour for the output of either compressor: both decompressors give back what was compressed, the
  bulk one only into a destination that holds it.  Of other bytes nothing is assumed.
\<close>

definition zstd_output :: "zstd \<Rightarrow> bytes \<Rightarrow> bytes \<Rightarrow> bool" where
  "zstd_output z raw c \<longleftrightarrow> encode_all z raw = Inr c \<or> (\<exists>cap. bulk_compress z raw cap = Inr c)"

definition zstd_decodes :: "zstd \<Rightarrow> bool" where
  "zstd_decodes z \<longleftrightarrow>
     (\<forall>raw c. zstd_output z raw c \<longrightarrow>
        (\<forall>n. decode_take z c n = Inr (take n raw))
        \<and> (\<forall>cap out. bulk_decompress z c cap = Inr out \<longrightarrow> out = raw \<and> length raw \<le> cap))"

text \<open>A concrete instance of the parameter: the store-only codec.\<close>

definition stored_zstd :: zstd where
  "stored_zstd = \<lparr>encode_all = Inr, decode_take = (\<lambda>c n. Inr (take n c)),
     bulk_compress = (\<lambda>c cap. if length c \<le> cap then Inr c else Inl ''dst too small''),
     bulk_decompress = (\<lambda>c cap. if length c \<le> cap then Inr c else Inl ''dst too small'')\<rparr>"

section \<open>Frame header\<close>

definition HEADER_LEN :: nat where "HEADER_LEN = 14"
definition MAX_PAYLOAD :: nat where "MAX_PAYLOAD = 8 * 1024 * 1024"
definition COMPRESSION_THRESHOLD :: nat where "COMPRESSION_THRESHOLD = 256"
definition FLAG_ZSTD :: u8 where "FLAG_ZSTD = 1"

text \<open>\<open>len as u32\<close> truncates, so the length field is taken modulo \<open>2 ^ 32\<close>.\<close>

definition header :: "nat \<Rightarrow> u8 \<Rightarrow> u8 \<Rightarrow> u64 \<Rightarrow> bytes" where
  "header len flags ty rid = nat_to_be 4 (len mod 2 ^ 32) @ [flags, ty] @ nat_to_be 8 (unat rid)"

definition header_len :: "bytes \<Rightarrow> nat" where
  "header_len h = be_to_nat (take 4 h)"

definition header_flags :: "bytes \<Rightarrow> u8" where
  "header_flags h = h ! 4"

definition header_type :: "bytes \<Rightarrow> u8" where
  "header_type h = h ! 5"

definition header_id :: "bytes \<Rightarrow> u64" where
  "header_id h = of_nat (be_to_nat (take 8 (drop 6 h)))"

section \<open>Exact reads\<close>

definition read_exact :: "nat \<Rightarrow> bytes \<Rightarrow> io_error + bytes \<times> bytes" where
  "read_exact n s = (if length s < n then Inl UnexpectedEof else Inr (take n s, drop n s))"

text \<open>The loop \<^verbatim>\<open>while buf.len() < len { reader.take(len - buf.len()).read_buf(buf) }\<close>.\<close>

function fill :: "nat \<Rightarrow> bytes list \<Rightarrow> bytes \<Rightarrow> io_error + bytes \<times> bytes list" where
  "fill len segs buf =
     (if length buf < len then
        (case segs of
           [] \<Rightarrow> Inl UnexpectedEof
         | s # rest \<Rightarrow>
             let remaining = len - length buf; got = take remaining s; left = drop remaining s in
             if got = [] then Inl UnexpectedEof
             else fill len (if left = [] then rest else left # rest) (buf @ got))
      else Inr (buf, segs))"
  by pat_completeness auto
termination
  by (relation "measure (\<lambda>(len, segs, buf). len - length buf)")
    (auto simp: min_def length_greater_0_conv [symmetric] simp del: length_greater_0_conv)

declare fill.simps [simp del]

section \<open>Lemmas\<close>

lemma stored_zstd_laws [simp]: "zstd_inverts stored_zstd" "zstd_decodes stored_zstd"
  by (auto simp: zstd_inverts_def zstd_decodes_def zstd_output_def stored_zstd_def split: if_splits)

lemma length_header [simp, bytes_simps]: "length (header len flags ty rid) = HEADER_LEN"
  by (simp add: header_def HEADER_LEN_def)

lemma header_not_Nil [simp]: "header len flags ty rid \<noteq> []" "[] \<noteq> header len flags ty rid"
  by (simp_all add: header_def)

lemma header_fields:
  "header_len (header len flags ty rid) = len mod 2 ^ 32"
  "header_flags (header len flags ty rid) = flags"
  "header_type (header len flags ty rid) = ty"
  "header_id (header len flags ty rid) = rid"
proof -
  have "unat rid < 256 ^ 8" using unsigned_less [of rid, where ?'a = nat] by simp
  then show "header_id (header len flags ty rid) = rid"
    by (simp add: header_id_def header_def be_to_nat_nat_to_be)
qed (simp_all add: header_len_def header_flags_def header_type_def header_def nth_append
       be_to_nat_nat_to_be)

lemma MAX_PAYLOAD_fits: "n \<le> MAX_PAYLOAD \<Longrightarrow> n mod 2 ^ 32 = n"
  by (simp add: MAX_PAYLOAD_def)

lemma read_exact_append [simp]: "length xs = n \<Longrightarrow> read_exact n (xs @ ys) = Inr (xs, ys)"
  by (simp add: read_exact_def)

lemma read_exact_Inr:
  "read_exact n s = Inr (a, b) \<longleftrightarrow> s = a @ b \<and> length a = n"
  by (auto simp: read_exact_def)

text \<open>However the stream is segmented, filling a buffer is an exact read of its content.\<close>

lemma fill_spec:
  assumes "[] \<notin> set segs" "length buf \<le> len"
  shows "(\<exists>rest. fill len segs buf = Inr (buf @ take (len - length buf) (concat segs), rest) \<and>
            concat rest = drop (len - length buf) (concat segs) \<and> [] \<notin> set rest \<and>
            len - length buf \<le> length (concat segs)) \<or>
         fill len segs buf = Inl UnexpectedEof \<and> length (concat segs) < len - length buf"
  using assms
proof (induction len segs buf rule: fill.induct)
  case (1 len segs buf)
  show ?case
  proof (cases "length buf < len")
    case False
    then show ?thesis using 1 by (simp add: fill.simps [of len segs buf])
  next
    case more: True
    show ?thesis
    proof (cases segs)
      case Nil
      then show ?thesis using more by (simp add: fill.simps [of len "[]" buf])
    next
      case (Cons s rest)
      define k where "k = len - length buf"
      define next_segs where "next_segs = (if drop k s = [] then rest else drop k s # rest)"
      have s: "s \<noteq> []" "0 < k" using 1(2) Cons more by (auto simp: k_def)
      then have got: "take k s \<noteq> []" by simp
      have step: "fill len segs buf = fill len next_segs (buf @ take k s)"
        using more Cons got by (simp add: fill.simps [of len "s # rest" buf] k_def next_segs_def Let_def)
      have IH: "(\<exists>r. fill len next_segs (buf @ take k s) =
             Inr ((buf @ take k s) @ take (len - length (buf @ take k s)) (concat next_segs), r) \<and>
            concat r = drop (len - length (buf @ take k s)) (concat next_segs) \<and> [] \<notin> set r \<and>
            len - length (buf @ take k s) \<le> length (concat next_segs)) \<or>
         fill len next_segs (buf @ take k s) = Inl UnexpectedEof \<and>
            length (concat next_segs) < len - length (buf @ take k s)"
        unfolding next_segs_def k_def
        by (rule 1(1)) (use more Cons got 1(2,3) s in \<open>auto simp: k_def\<close>)
      have cat: "concat segs = take k s @ concat next_segs"
        by (simp add: Cons next_segs_def)
      have kk: "len - length (buf @ take k s) = k - length (take k s)"
        by (simp add: k_def)
      have tk: "take k (concat segs) = take k s @ take (k - length (take k s)) (concat next_segs)"
        unfolding cat by (auto simp: min_def)
      have dk: "drop k (concat segs) = drop (k - length (take k s)) (concat next_segs)"
        unfolding cat by (auto simp: min_def)
      have lk: "length (concat segs) = length (take k s) + length (concat next_segs)"
        unfolding cat by simp
      have le: "length (take k s) \<le> k" by simp
      show ?thesis
        using IH le unfolding step kk k_def [symmetric] tk dk lk by auto
    qed
  qed
qed

lemma fill_read_exact:
  assumes "[] \<notin> set segs"
  shows "(case fill n segs [] of Inl e \<Rightarrow> read_exact n (concat segs) = Inl e
          | Inr (buf, rest) \<Rightarrow> read_exact n (concat segs) = Inr (buf, concat rest) \<and> [] \<notin> set rest)"
  using fill_spec [OF assms, of "[]" n] by (auto simp: read_exact_def)

section \<open>The contract of a message-type registry\<close>

locale message_codes =
  fixes code :: "'t \<Rightarrow> u8" and try_from :: "u8 \<Rightarrow> 't option"
  assumes try_from_code: "try_from (code t) = Some t"
    and code_try_from: "try_from b = Some t \<Longrightarrow> code t = b"
begin

lemma code_inject: "code s = code t \<longleftrightarrow> s = t"
  using try_from_code by (metis option.inject)

lemma header_type_code: "try_from (header_type (header len flags (code t) rid)) = Some t"
  by (simp add: header_fields try_from_code)

lemma header_unique:
  assumes "header len flags (code t) rid = header len' flags' (code t') rid'"
    and "len \<le> MAX_PAYLOAD" "len' \<le> MAX_PAYLOAD"
  shows "len = len' \<and> flags = flags' \<and> t = t' \<and> rid = rid'"
proof -
  have "len mod 2 ^ 32 = len' mod 2 ^ 32" "flags = flags'" "code t = code t'" "rid = rid'"
    using assms(1) header_fields by metis+
  then show ?thesis using assms(2,3) by (simp only: MAX_PAYLOAD_fits code_inject)
qed

lemma parsed_type_code: "try_from (header_type h) = Some t \<Longrightarrow> header_type h = code t"
  using code_try_from by force

end

end
