(* ===== verification/Wire.thy ===== *)
theory Wire
  imports Framing
begin

text \<open>
  The client protocol of \<^verbatim>\<open>chatty-protocol\<close> (\<^verbatim>\<open>src/frame.rs\<close>, \<^verbatim>\<open>src/error.rs\<close>): message types,
  frames, the free functions \<open>write_payload\<close> and \<open>read_frame\<close>, and the
  per-connection \<open>ProtocolCodec\<close> with its reused scratch buffers.  A writer is modelled by
  the bytes it receives, a reader by the bytes (or segments) it delivers.  bincode and zstd are
  parameters.
\<close>

section \<open>Data\<close>

datatype message_type =
  Handshake | Request | Response | Delta | StreamChunk | StreamEnd | Error | Cancel

datatype protocol_error = Io io_error | Invalid string | Codec string

record frame =
  compressed :: bool
  message_type :: message_type
  request_id :: u64
  payload :: bytes

fun message_code :: "message_type \<Rightarrow> u8" where
  "message_code Handshake = 1"
| "message_code Request = 2"
| "message_code Response = 3"
| "message_code Delta = 4"
| "message_code StreamChunk = 5"
| "message_code StreamEnd = 6"
| "message_code Error = 7"
| "message_code Cancel = 8"

definition message_try_from :: "u8 \<Rightarrow> message_type option" where
  "message_try_from value =
     (if value = 1 then Some Handshake
      else if value = 2 then Some Request
      else if value = 3 then Some Response
      else if value = 4 then Some Delta
      else if value = 5 then Some StreamChunk
      else if value = 6 then Some StreamEnd
      else if value = 7 then Some Error
      else if value = 8 then Some Cancel
      else None)"

section \<open>Values and payloads\<close>

text \<open>bincode: a serializer, and a decoder that also reports how many bytes it consumed.\<close>

definition encode :: "('a \<Rightarrow> string + bytes) \<Rightarrow> 'a \<Rightarrow> protocol_error + bytes" where
  "encode ser value = map_err Codec (ser value)"

definition decode :: "(bytes \<Rightarrow> string + 'a \<times> nat) \<Rightarrow> bytes \<Rightarrow> protocol_error + 'a" where
  "decode de bs = map_err Codec (and_then (de bs) (\<lambda>(value, used). Inr value))"

section \<open>Free functions\<close>

definition must_compress :: "message_type \<Rightarrow> bool" where
  "must_compress ty \<longleftrightarrow> ty = StreamChunk \<or> ty = Delta"

definition write_payload ::
    "zstd \<Rightarrow> message_type \<Rightarrow> u64 \<Rightarrow> bytes \<Rightarrow> protocol_error + bytes" where
  "write_payload z ty rid raw =
     and_then
       (if must_compress ty \<or> COMPRESSION_THRESHOLD \<le> length raw
        then map_err Io (and_then (encode_all z raw) (\<lambda>p. Inr (FLAG_ZSTD, p)))
        else Inr (0, raw))
       (\<lambda>(flags, payload).
          if MAX_PAYLOAD < length payload then Inl (Invalid ''payload too large'')
          else Inr (header (length payload) flags (message_code ty) rid @ payload))"

definition write_message ::
    "zstd \<Rightarrow> ('a \<Rightarrow> string + bytes) \<Rightarrow> message_type \<Rightarrow> u64 \<Rightarrow> 'a \<Rightarrow> protocol_error + bytes" where
  "write_message z ser ty rid value = and_then (encode ser value) (write_payload z ty rid)"

text \<open>The checks on a header, in the order of the source: message type, length, flags.\<close>

definition check_header :: "bytes \<Rightarrow> protocol_error + nat \<times> bool \<times> message_type \<times> u64" where
  "check_header h =
     and_then (ok_or (Invalid ''unknown message type'') (message_try_from (header_type h))) (\<lambda>ty.
     if MAX_PAYLOAD < header_len h then Inl (Invalid ''payload too large'')
     else if header_flags h AND NOT FLAG_ZSTD \<noteq> 0 then Inl (Invalid ''unknown compression flag'')
     else Inr (header_len h, header_flags h AND FLAG_ZSTD \<noteq> 0, ty, header_id h))"

definition decompress_stream :: "zstd \<Rightarrow> bytes \<Rightarrow> protocol_error + bytes" where
  "decompress_stream z src =
     and_then (map_err Io (decode_take z src (MAX_PAYLOAD + 1))) (\<lambda>decoded.
     if MAX_PAYLOAD < length decoded then Inl (Invalid ''decompressed payload too large'')
     else Inr decoded)"

definition read_frame :: "zstd \<Rightarrow> bytes \<Rightarrow> protocol_error + frame \<times> bytes" where
  "read_frame z stream =
     and_then (map_err Io (read_exact HEADER_LEN stream)) (\<lambda>(h, s1).
     and_then (check_header h) (\<lambda>(len, zipped, ty, rid).
     and_then (map_err Io (read_exact len s1)) (\<lambda>(body, s2).
     and_then (if zipped then decompress_stream z body else Inr body) (\<lambda>payload.
     Inr (\<lparr>compressed = zipped, message_type = ty, request_id = rid, payload = payload\<rparr>, s2)))))"

section \<open>The reusable codec\<close>

record protocol_codec =
  tx_scratch :: bytes
  compress_scratch :: bytes
  decompress_scratch :: bytes
  rx_scratch :: bytes

definition codec_new :: protocol_codec where
  "codec_new = \<lparr>tx_scratch = [], compress_scratch = [], decompress_scratch = [], rx_scratch = []\<rparr>"

definition COMPRESS_BOUND_SLACK :: nat where "COMPRESS_BOUND_SLACK = 1024"

definition resize :: "bytes \<Rightarrow> nat \<Rightarrow> bytes" where
  "resize buf n = take n buf @ replicate (n - length buf) 0"

definition overwrite :: "bytes \<Rightarrow> bytes \<Rightarrow> bytes" where
  "overwrite out buf = out @ drop (length out) buf"

definition codec_write_payload ::
    "zstd \<Rightarrow> protocol_codec \<Rightarrow> message_type \<Rightarrow> u64 \<Rightarrow> bytes \<Rightarrow>
       (protocol_error + bytes) \<times> protocol_codec" where
  "codec_write_payload z c ty rid raw =
     (let c = c\<lparr>tx_scratch := []\<rparr> in
      if must_compress ty \<or> COMPRESSION_THRESHOLD \<le> length raw then
        let bound = length raw + length raw div 8 + COMPRESS_BOUND_SLACK;
            scratch = resize (compress_scratch c) bound
        in case bulk_compress z raw (length scratch) of
             Inl e \<Rightarrow> (Inl (Codec e), c\<lparr>compress_scratch := scratch\<rparr>)
           | Inr out \<Rightarrow>
               let scratch = overwrite out scratch;
                   c = c\<lparr>compress_scratch := scratch\<rparr>;
                   written = length out
               in if MAX_PAYLOAD < written then (Inl (Invalid ''payload too large''), c)
                  else let tx = header written FLAG_ZSTD (message_code ty) rid @ take written scratch
                       in (Inr tx, c\<lparr>tx_scratch := tx\<rparr>)
      else if MAX_PAYLOAD < length raw then (Inl (Invalid ''payload too large''), c)
      else let tx = header (length raw) 0 (message_code ty) rid @ raw
           in (Inr tx, c\<lparr>tx_scratch := tx\<rparr>))"

text \<open>Two bulk attempts with growing destinations, then the streaming decoder.\<close>

fun decompress_attempts :: "zstd \<Rightarrow> bytes \<Rightarrow> bytes \<Rightarrow> nat list \<Rightarrow> bytes option \<times> bytes" where
  "decompress_attempts z src scratch [] = (None, scratch)"
| "decompress_attempts z src scratch (cap # caps) =
     (let scratch = resize scratch cap in
      case bulk_decompress z src cap of
        Inr out \<Rightarrow> (Some (take (length out) (overwrite out scratch)), overwrite out scratch)
      | Inl e \<Rightarrow> decompress_attempts z src scratch caps)"

definition decompress_via :: "zstd \<Rightarrow> bytes \<Rightarrow> bytes \<Rightarrow> (protocol_error + bytes) \<times> bytes" where
  "decompress_via z scratch src =
     (let first_guess = clamp COMPRESSION_THRESHOLD MAX_PAYLOAD (saturating_mul 64 (length src) 6)
      in case decompress_attempts z src scratch [first_guess, MAX_PAYLOAD] of
           (Some out, scratch) \<Rightarrow> (Inr out, scratch)
         | (None, scratch) \<Rightarrow> (decompress_stream z src, scratch))"

definition codec_read_frame ::
    "zstd \<Rightarrow> protocol_codec \<Rightarrow> bytes list \<Rightarrow>
       (protocol_error + frame \<times> bytes list) \<times> protocol_codec" where
  "codec_read_frame z c segs =
     (case fill HEADER_LEN segs [] of
        Inl e \<Rightarrow> (Inl (Io e), c)
      | Inr (h, s1) \<Rightarrow>
      case check_header h of
        Inl e \<Rightarrow> (Inl e, c)
      | Inr (len, zipped, ty, rid) \<Rightarrow>
      case fill len s1 [] of
        Inl e \<Rightarrow> (Inl (Io e), c\<lparr>rx_scratch := []\<rparr>)
      | Inr (rx, s2) \<Rightarrow>
          let c = c\<lparr>rx_scratch := rx\<rparr>;
              (result, scratch) =
                (if zipped then decompress_via z (decompress_scratch c) (take len rx)
                 else (Inr (take len rx), decompress_scratch c));
              c = c\<lparr>decompress_scratch := scratch\<rparr>
          in (and_then result (\<lambda>payload.
                Inr (\<lparr>compressed = zipped, message_type = ty, request_id = rid, payload = payload\<rparr>,
                     s2)), c))"

section \<open>The message registry\<close>

lemma message_try_from_code: "message_try_from (message_code t) = Some t"
  by (cases t) (simp_all add: message_try_from_def)

lemma message_code_try_from: "message_try_from b = Some t \<Longrightarrow> message_code t = b"
  by (auto simp: message_try_from_def split: if_splits)

interpretation msg: message_codes message_code message_try_from
  by unfold_locales (simp_all add: message_try_from_code message_code_try_from)

section \<open>Header checks\<close>

lemma flags_known [simp]:
  "FLAG_ZSTD AND NOT FLAG_ZSTD = 0" "(0 :: u8) AND NOT FLAG_ZSTD = 0"
  "FLAG_ZSTD AND FLAG_ZSTD \<noteq> 0" "(0 :: u8) AND FLAG_ZSTD = 0"
  by (simp_all add: FLAG_ZSTD_def)

lemma check_header_written:
  assumes "n \<le> MAX_PAYLOAD" "flags = FLAG_ZSTD \<or> flags = 0"
  shows "check_header (header n flags (message_code ty) rid) = Inr (n, flags = FLAG_ZSTD, ty, rid)"
  using assms MAX_PAYLOAD_fits [OF assms(1)]
  by (auto simp: check_header_def header_fields message_try_from_code FLAG_ZSTD_def)

lemma check_header_bound: "check_header h = Inr (n, b, ty, rid) \<Longrightarrow> n \<le> MAX_PAYLOAD"
  by (auto simp: check_header_def and_then_eq_Inr split: if_splits)

lemma read_frame_header:
  assumes "n \<le> MAX_PAYLOAD" "flags = FLAG_ZSTD \<or> flags = 0" "length body = n"
  shows "read_frame z (header n flags (message_code ty) rid @ body @ rest) =
     and_then (if flags = FLAG_ZSTD then decompress_stream z body else Inr body)
       (\<lambda>p. Inr (\<lparr>compressed = (flags = FLAG_ZSTD), message_type = ty, request_id = rid,
                  payload = p\<rparr>, rest))"
  using assms by (simp add: read_frame_def check_header_written)

lemma zstd_invertsD:
  assumes "zstd_inverts z" and "encode_all z raw = Inr c"
  shows "decode_take z c n = Inr (take n raw)"
  using assms unfolding zstd_inverts_def by (metis sum.inject(2))

lemma decompress_stream_of:
  assumes "\<And>n. decode_take z c n = Inr (take n raw)"
  shows "decompress_stream z c =
    (if length raw \<le> MAX_PAYLOAD then Inr raw
     else Inl (Invalid ''decompressed payload too large''))"
  by (simp add: decompress_stream_def assms)

text \<open>What a successful write puts on the wire.\<close>

lemma write_payload_Inr:
  assumes "write_payload z ty rid raw = Inr out"
  obtains (zipped) c where "must_compress ty \<or> COMPRESSION_THRESHOLD \<le> length raw"
      "encode_all z raw = Inr c" "length c \<le> MAX_PAYLOAD"
      "out = header (length c) FLAG_ZSTD (message_code ty) rid @ c"
  | (plain) "\<not> (must_compress ty \<or> COMPRESSION_THRESHOLD \<le> length raw)"
      "length raw \<le> MAX_PAYLOAD" "out = header (length raw) 0 (message_code ty) rid @ raw"
  using assms
  by (cases "encode_all z raw")
    (auto simp: write_payload_def and_then_eq_Inr split: if_splits)

section \<open>Properties\<close>

text \<open>
  C24: what \<open>write_payload\<close> puts on the wire is read back by \<open>read_frame\<close>, for every payload the writer accepts and every
  compressor whose decoder inverts it: a payload of at most \<open>MAX_PAYLOAD\<close> bytes unchanged, with its type and request id,
  marked compressed exactly when the writer's rule says so and with nothing consumed after it; a longer one, which the
  writer accepts when it compresses well enough, is refused by the reader.
\<close>

theorem frame_roundtrip:
  assumes "zstd_inverts z" and "write_payload z ty rid raw = Inr out"
  shows "read_frame z (out @ rest) =
    (if length raw \<le> MAX_PAYLOAD
     then Inr (\<lparr>compressed = (must_compress ty \<or> COMPRESSION_THRESHOLD \<le> length raw),
                message_type = ty, request_id = rid, payload = raw\<rparr>, rest)
     else Inl (Invalid ''decompressed payload too large''))"
  using assms(2)
proof (cases rule: write_payload_Inr)
  case (zipped c)
  have "decompress_stream z c = (if length raw \<le> MAX_PAYLOAD then Inr raw else Inl (Invalid ''decompressed payload too large''))"
    by (rule decompress_stream_of [OF zstd_invertsD [OF assms(1) zipped(2)]])
  then show ?thesis using zipped(1,3,4) by (simp add: read_frame_header)
next
  case plain
  then show ?thesis by (simp add: read_frame_header FLAG_ZSTD_def)
qed

theorem frame_roundtrip_witness:
  "read_frame stored_zstd ((header 3 1 5 7 @ [1, 2, 3]) @ [9]) =
    Inr (\<lparr>compressed = True, message_type = StreamChunk, request_id = 7, payload = [1, 2, 3]\<rparr>, [9])"
proof -
  have "write_payload stored_zstd StreamChunk 7 [1, 2, 3] = Inr (header 3 1 5 7 @ [1, 2, 3])"
    by (simp add: write_payload_def must_compress_def stored_zstd_def FLAG_ZSTD_def MAX_PAYLOAD_def
        numeral_3_eq_3)
  from frame_roundtrip [OF _ this, of "[9]"] show ?thesis by (simp add: MAX_PAYLOAD_def must_compress_def)
qed

text \<open>
  C25: whatever bytes a peer sends, a frame that is accepted has a payload of at most
  \<open>MAX_PAYLOAD\<close> bytes (compressed or not), and the reader consumed exactly a header and
  the announced body, itself at most \<open>MAX_PAYLOAD\<close> bytes.
\<close>

theorem read_frame_bounded:
  assumes "read_frame z stream = Inr (f, rest)"
  shows "length (payload f) \<le> MAX_PAYLOAD \<and>
    (\<exists>h body. stream = h @ body @ rest \<and> length h = HEADER_LEN \<and> length body \<le> MAX_PAYLOAD \<and>
       header_len h = length body)"
proof -
  obtain h s1 len zipped ty rid body p where
    *: "read_exact HEADER_LEN stream = Inr (h, s1)" "check_header h = Inr (len, zipped, ty, rid)"
      "read_exact len s1 = Inr (body, rest)"
      "(if zipped then decompress_stream z body else Inr body) = Inr p" "payload f = p"
    using assms unfolding read_frame_def by (auto simp: and_then_eq_Inr split: if_splits)
  have len: "len \<le> MAX_PAYLOAD" "header_len h = len"
    using *(2) by (auto simp: check_header_def and_then_eq_Inr split: if_splits)
  have "length p \<le> MAX_PAYLOAD"
    using *(3,4) len
    by (auto simp: read_exact_Inr decompress_stream_def and_then_eq_Inr split: if_splits)
  moreover have "stream = h @ body @ rest \<and> length h = HEADER_LEN \<and> length body \<le> MAX_PAYLOAD \<and>
      header_len h = length body"
    using *(1,3) len by (auto simp: read_exact_Inr)
  ultimately show ?thesis using *(5) by blast
qed

theorem read_frame_bounded_witness:
  "length (payload (\<lparr>compressed = False, message_type = Cancel, request_id = 1, payload = [42]\<rparr>))
     \<le> MAX_PAYLOAD \<and>
   (\<exists>h body. header 1 0 8 1 @ [42, 43] = h @ body @ [43] \<and> length h = HEADER_LEN \<and>
      length body \<le> MAX_PAYLOAD \<and> header_len h = length body)"
proof (rule read_frame_bounded [where z = stored_zstd])
  have "1 \<le> MAX_PAYLOAD" by (simp add: MAX_PAYLOAD_def)
  then show "read_frame stored_zstd (header 1 0 8 1 @ [42, 43]) =
      Inr (\<lparr>compressed = False, message_type = Cancel, request_id = 1, payload = [42]\<rparr>, [43])"
    using read_frame_header [of 1 0 "[42]" stored_zstd Cancel 1 "[43]"]
    by (simp add: FLAG_ZSTD_def)
qed

lemma take_length_overwrite [simp]: "take (length out) (overwrite out buf) = out"
  by (simp add: overwrite_def)

lemma decompress_attempts_agree:
  assumes "zstd_decodes z" "zstd_output z raw src" "\<forall>cap \<in> set caps. cap \<le> MAX_PAYLOAD"
    and "decompress_attempts z src scratch caps = (Some out, scratch')"
  shows "out = raw \<and> length raw \<le> MAX_PAYLOAD"
  using assms(3,4)
proof (induction caps arbitrary: scratch)
  case Nil
  then show ?case by simp
next
  case (Cons cap caps)
  show ?case
  proof (cases "bulk_decompress z src cap")
    case (Inl e)
    then show ?thesis using Cons by (auto simp: Let_def)
  next
    case (Inr x)
    then have "x = raw" "length raw \<le> cap" using assms(1,2) unfolding zstd_decodes_def by blast+
    then show ?thesis using Inr Cons.prems by (auto simp: Let_def)
  qed
qed

lemma decompress_via_stream:
  assumes "zstd_decodes z" "zstd_output z raw src"
  shows "fst (decompress_via z scratch src) = decompress_stream z src"
proof -
  let ?guess = "clamp COMPRESSION_THRESHOLD MAX_PAYLOAD (saturating_mul 64 (length src) 6)"
  have "?guess \<le> MAX_PAYLOAD"
    using clamp_bounds [of COMPRESSION_THRESHOLD MAX_PAYLOAD]
    by (simp add: COMPRESSION_THRESHOLD_def MAX_PAYLOAD_def)
  then have caps: "\<forall>cap \<in> set [?guess, MAX_PAYLOAD]. cap \<le> MAX_PAYLOAD" by simp
  have stream: "decompress_stream z src = (if length raw \<le> MAX_PAYLOAD then Inr raw else Inl (Invalid ''decompressed payload too large''))"
    using assms unfolding zstd_decodes_def by (intro decompress_stream_of) blast
  show ?thesis
    using decompress_attempts_agree [OF assms caps] stream
    by (auto simp: decompress_via_def Let_def simp del: decompress_attempts.simps
        split: prod.split option.split)
qed

text \<open>The first frame of a stream is compressed only if its body came out of a compressor.\<close>

definition sent_by_peer :: "zstd \<Rightarrow> bytes \<Rightarrow> bool" where
  "sent_by_peer z stream \<longleftrightarrow>
     (\<forall>h s1 len ty rid body s2. read_exact HEADER_LEN stream = Inr (h, s1) \<longrightarrow> check_header h = Inr (len, True, ty, rid) \<longrightarrow>
        read_exact len s1 = Inr (body, s2) \<longrightarrow> (\<exists>raw. zstd_output z raw body))"

text \<open>
  C26: the buffered \<open>ProtocolCodec::read_frame\<close> is equivalent to the free \<open>read_frame\<close> on every stream whose compressed
  bodies came out of a compressor: for every way the network segments it, whatever the scratch buffers still hold from
  earlier frames and whatever the sizes of the frame and its content, it returns the same frame or the same error, and
  leaves the same unread bytes (in particular it never consumes a byte of the next frame).
\<close>

theorem codec_read_frame_equiv:
  assumes "zstd_decodes z" and "[] \<notin> set segs" and "sent_by_peer z (concat segs)"
  shows "(case fst (codec_read_frame z c segs) of
            Inl e \<Rightarrow> read_frame z (concat segs) = Inl e
          | Inr (f, rest) \<Rightarrow> read_frame z (concat segs) = Inr (f, concat rest) \<and> [] \<notin> set rest)"
proof (cases "fill HEADER_LEN segs []")
  case (Inl e)
  then show ?thesis
    using fill_read_exact [OF assms(2), of HEADER_LEN] by (simp add: codec_read_frame_def read_frame_def)
next
  case (Inr p)
  obtain h s1 where p: "p = (h, s1)" by (cases p)
  have h: "read_exact HEADER_LEN (concat segs) = Inr (h, concat s1)" "[] \<notin> set s1"
    using fill_read_exact [OF assms(2), of HEADER_LEN] Inr p by auto
  show ?thesis
  proof (cases "check_header h")
    case (Inl e)
    then show ?thesis using h Inr p by (simp add: codec_read_frame_def read_frame_def)
  next
    case ok: (Inr q)
    obtain len zipped ty rid where q: "q = (len, zipped, ty, rid)" by (cases q) auto
    show ?thesis
    proof (cases "fill len s1 []")
      case (Inl e)
      then show ?thesis
        using fill_read_exact [OF h(2), of len] h Inr p ok q
        by (simp add: codec_read_frame_def read_frame_def)
    next
      case body: (Inr r)
      obtain rx s2 where r: "r = (rx, s2)" by (cases r)
      have b: "read_exact len (concat s1) = Inr (rx, concat s2)" "[] \<notin> set s2"
        using fill_read_exact [OF h(2), of len] body r by auto
      then have [simp]: "take len rx = rx" by (auto simp: read_exact_Inr)
      have "\<exists>raw. zstd_output z raw rx" if z: "zipped"
      proof -
        have "check_header h = Inr (len, True, ty, rid)" using ok q z by simp
        then show ?thesis using assms(3) h(1) b(1) unfolding sent_by_peer_def by blast
      qed
      then have "zipped \<Longrightarrow> fst (decompress_via z (decompress_scratch c) rx) = decompress_stream z rx"
        using decompress_via_stream [OF assms(1)] by blast
      then show ?thesis
        using h b Inr p ok q body r
        by (cases zipped; cases "decompress_stream z rx")
          (simp_all add: codec_read_frame_def read_frame_def Let_def case_prod_beta)
    qed
  qed
qed

definition split_frame :: "bytes list" where
  "split_frame = [header 3 1 5 7, [1, 2], [3, 9]]"

theorem codec_read_frame_equiv_witness:
  "case fst (codec_read_frame stored_zstd codec_new split_frame) of
      Inl e \<Rightarrow> read_frame stored_zstd (concat split_frame) = Inl e
    | Inr (f, rest) \<Rightarrow> read_frame stored_zstd (concat split_frame) = Inr (f, concat rest) \<and> [] \<notin> set rest"
proof (rule codec_read_frame_equiv)
  show "[] \<notin> set split_frame" by (simp add: split_frame_def header_def)
  show "sent_by_peer stored_zstd (concat split_frame)" by (auto simp: sent_by_peer_def zstd_output_def stored_zstd_def)
qed simp

end
