(* ===== verification/MetalWire.thy ===== *)
theory MetalWire
  imports Complex_Main Framing
begin

text \<open>
  The private contract between the broker and the appliance (\<^verbatim>\<open>chatty-metal-protocol/src/lib.rs\<close>):
  message types, hello, sampling and generate requests with their validation, and the framing.
  The blocking and the async functions of that file have the same bodies; one definition models
  both.  A finite \<^verbatim>\<open>f32\<close> is the rational number it denotes.
\<close>

section \<open>Data\<close>

datatype metal_error = MIo io_error | MCodec string | MInvalid string

datatype metal_message_type =
  Hello | HelloAck | StatusRequest | Status | Generate | Chunk | Done | MCancel | MError

datatype server_state = Loading | Ready | Failed

datatype finish_reason = EndOfSentence | Length | Cancelled

datatype metal_error_code =
  ProtocolCode | Unsupported | NotReady | InvalidRequest | ContextExceeded | Internal | CancelledCode

datatype marker =
  BeginOfSentence | User | Assistant | EndOfSentenceMarker | ThoughtEnd

datatype piece = Marker marker | Text string

datatype f32 = NaN | Infinite bool | Finite rat

record hello =
  version :: nat
  client :: string

record sampling =
  temperature :: f32
  top_p :: f32
  top_k :: nat
  seed :: u64

record generate =
  prompt :: "piece list"
  sampling :: sampling
  max_tokens :: nat

record metal_frame =
  m_message_type :: metal_message_type
  m_request_id :: u64
  m_compressed :: bool
  m_payload :: bytes

definition PROTOCOL_VERSION :: nat where "PROTOCOL_VERSION = 1"
definition MAX_CLIENT_BYTES :: nat where "MAX_CLIENT_BYTES = 64"
definition MAX_PROMPT_BYTES :: nat where "MAX_PROMPT_BYTES = 4 * 1024 * 1024"
definition MAX_PROMPT_PIECES :: nat where "MAX_PROMPT_PIECES = 1024"
definition MAX_OUTPUT_TOKENS :: nat where "MAX_OUTPUT_TOKENS = 32 * 1024"

fun metal_code :: "metal_message_type \<Rightarrow> u8" where
  "metal_code Hello = 1"
| "metal_code HelloAck = 2"
| "metal_code StatusRequest = 3"
| "metal_code Status = 4"
| "metal_code Generate = 5"
| "metal_code Chunk = 6"
| "metal_code Done = 7"
| "metal_code MCancel = 8"
| "metal_code MError = 9"

definition metal_try_from :: "u8 \<Rightarrow> metal_message_type option" where
  "metal_try_from value =
     (if value = 1 then Some Hello
      else if value = 2 then Some HelloAck
      else if value = 3 then Some StatusRequest
      else if value = 4 then Some Status
      else if value = 5 then Some Generate
      else if value = 6 then Some Chunk
      else if value = 7 then Some Done
      else if value = 8 then Some MCancel
      else if value = 9 then Some MError
      else None)"

section \<open>Validation\<close>

text \<open>The message embeds the rejected version; its text is not modelled.\<close>

definition hello_new :: "string \<Rightarrow> hello" where
  "hello_new c = \<lparr>version = PROTOCOL_VERSION, client = c\<rparr>"

definition hello_validate :: "hello \<Rightarrow> metal_error + unit" where
  "hello_validate h =
     (if version h \<noteq> PROTOCOL_VERSION then Inl (MInvalid ''unsupported protocol version'')
      else if MAX_CLIENT_BYTES < length (client h) then Inl (MInvalid ''client name is too long'')
      else Inr ())"

fun is_finite :: "f32 \<Rightarrow> bool" where
  "is_finite (Finite r) = True"
| "is_finite _ = False"

text \<open>\<^verbatim>\<open>(lo..=hi).contains(&x)\<close> with IEEE comparisons: a NaN is in no range.\<close>

fun in_range :: "rat \<Rightarrow> rat \<Rightarrow> f32 \<Rightarrow> bool" where
  "in_range lo hi (Finite r) = (lo \<le> r \<and> r \<le> hi)"
| "in_range lo hi _ = False"

definition sampling_validate :: "sampling \<Rightarrow> metal_error + unit" where
  "sampling_validate s =
     (if \<not> is_finite (temperature s) \<or> \<not> in_range 0 4 (temperature s)
      then Inl (MInvalid ''temperature must be finite and between 0 and 4'')
      else if \<not> is_finite (top_p s) \<or> \<not> in_range 0 1 (top_p s)
      then Inl (MInvalid ''top_p must be finite and between 0 and 1'')
      else if 1024 < top_k s then Inl (MInvalid ''top_k is too large'')
      else Inr ())"

text \<open>The \<^verbatim>\<open>f32\<close> values nearest to 0.8 and 0.95.\<close>

definition sampling_default :: sampling where
  "sampling_default = \<lparr>temperature = Finite (13421773 / 16777216), top_p = Finite (15938355 / 16777216), top_k = 40, seed = 0\<rparr>"

fun prompt_bytes :: "nat \<Rightarrow> piece list \<Rightarrow> nat" where
  "prompt_bytes acc [] = acc"
| "prompt_bytes acc (Text t # ps) = prompt_bytes (saturating_add 64 acc (length t)) ps"
| "prompt_bytes acc (Marker m # ps) = prompt_bytes acc ps"

definition generate_validate :: "generate \<Rightarrow> metal_error + unit" where
  "generate_validate g =
     (if prompt g = [] then Inl (MInvalid ''prompt is empty'')
      else if MAX_PROMPT_PIECES < length (prompt g)
      then Inl (MInvalid ''prompt has too many pieces'')
      else if MAX_PROMPT_BYTES < prompt_bytes 0 (prompt g)
      then Inl (MInvalid ''prompt is too large'')
      else if max_tokens g = 0 \<or> MAX_OUTPUT_TOKENS < max_tokens g
      then Inl (MInvalid ''max_tokens is outside the supported range'')
      else sampling_validate (sampling g))"

section \<open>Framing\<close>

definition metal_encode :: "('a \<Rightarrow> string + bytes) \<Rightarrow> 'a \<Rightarrow> metal_error + bytes" where
  "metal_encode ser value = map_err MCodec (ser value)"

definition metal_decode :: "(bytes \<Rightarrow> string + 'a \<times> nat) \<Rightarrow> bytes \<Rightarrow> metal_error + 'a" where
  "metal_decode de bs =
     and_then (map_err MCodec (de bs)) (\<lambda>(value, used).
     if used \<noteq> length bs then Inl (MInvalid ''payload has trailing bytes'') else Inr value)"

definition metal_compress :: "zstd \<Rightarrow> bytes \<Rightarrow> metal_error + bytes" where
  "metal_compress z raw = map_err MIo (encode_all z raw)"

definition metal_decompress :: "zstd \<Rightarrow> bytes \<Rightarrow> metal_error + bytes" where
  "metal_decompress z src =
     and_then (map_err MIo (decode_take z src (MAX_PAYLOAD + 1))) (\<lambda>decoded.
     if MAX_PAYLOAD < length decoded then Inl (MInvalid ''decompressed payload is too large'')
     else Inr decoded)"

definition metal_write_payload ::
    "zstd \<Rightarrow> metal_message_type \<Rightarrow> u64 \<Rightarrow> bytes \<Rightarrow> metal_error + bytes" where
  "metal_write_payload z ty rid raw =
     and_then
       (if COMPRESSION_THRESHOLD \<le> length raw
        then and_then (metal_compress z raw) (\<lambda>p. Inr (FLAG_ZSTD, p))
        else Inr (0, raw))
       (\<lambda>(flags, body).
          if MAX_PAYLOAD < length body then Inl (MInvalid ''payload is too large'')
          else Inr (header (length body) flags (metal_code ty) rid @ body))"

definition metal_read_frame :: "zstd \<Rightarrow> bytes \<Rightarrow> metal_error + metal_frame \<times> bytes" where
  "metal_read_frame z stream =
     and_then (map_err MIo (read_exact HEADER_LEN stream)) (\<lambda>(h, s1).
     and_then (ok_or (MInvalid ''unknown message type'') (metal_try_from (header_type h))) (\<lambda>ty.
     if MAX_PAYLOAD < header_len h then Inl (MInvalid ''payload is too large'')
     else if header_flags h AND NOT FLAG_ZSTD \<noteq> 0 then Inl (MInvalid ''unknown frame flags'')
     else
       and_then (map_err MIo (read_exact (header_len h) s1)) (\<lambda>(body, s2).
       let zipped = header_flags h AND FLAG_ZSTD \<noteq> 0 in
       and_then (if zipped then metal_decompress z body else Inr body) (\<lambda>raw.
       Inr (\<lparr>m_message_type = ty, m_request_id = header_id h, m_compressed = zipped,
             m_payload = raw\<rparr>, s2)))))"

definition metal_write_message ::
    "zstd \<Rightarrow> ('a \<Rightarrow> string + bytes) \<Rightarrow> metal_message_type \<Rightarrow> u64 \<Rightarrow> 'a \<Rightarrow> metal_error + bytes" where
  "metal_write_message z ser ty rid value =
     and_then (metal_encode ser value) (metal_write_payload z ty rid)"

definition metal_read_message ::
    "zstd \<Rightarrow> (bytes \<Rightarrow> string + 'a \<times> nat) \<Rightarrow> bytes \<Rightarrow>
       metal_error + (metal_message_type \<times> u64 \<times> 'a) \<times> bytes" where
  "metal_read_message z de stream =
     and_then (metal_read_frame z stream) (\<lambda>(f, rest).
     and_then (metal_decode de (m_payload f)) (\<lambda>value.
     Inr ((m_message_type f, m_request_id f, value), rest)))"

section \<open>Lemmas\<close>

lemma metal_try_from_code: "metal_try_from (metal_code t) = Some t"
  by (cases t) (simp_all add: metal_try_from_def)

lemma metal_code_try_from: "metal_try_from b = Some t \<Longrightarrow> metal_code t = b"
  by (auto simp: metal_try_from_def split: if_splits)

interpretation metal_msg: message_codes metal_code metal_try_from
  by unfold_locales (simp_all add: metal_try_from_code metal_code_try_from)

lemma metal_flags [simp]:
  "FLAG_ZSTD AND NOT FLAG_ZSTD = 0" "FLAG_ZSTD AND FLAG_ZSTD \<noteq> 0" "FLAG_ZSTD \<noteq> 0"
  by (simp_all add: FLAG_ZSTD_def)

lemma metal_read_frame_header:
  assumes "length body \<le> MAX_PAYLOAD" "flags = FLAG_ZSTD \<or> flags = 0"
  shows "metal_read_frame z (header (length body) flags (metal_code ty) rid @ body @ rest) =
     and_then (if flags = FLAG_ZSTD then metal_decompress z body else Inr body)
       (\<lambda>raw. Inr (\<lparr>m_message_type = ty, m_request_id = rid, m_compressed = (flags = FLAG_ZSTD),
                    m_payload = raw\<rparr>, rest))"
  using assms MAX_PAYLOAD_fits [OF assms(1)]
  by (auto simp: metal_read_frame_def header_fields metal_msg.try_from_code)

lemma prompt_bytes_sum:
  "acc < 2 ^ 64 \<Longrightarrow> prompt_bytes acc ps =
     min (2 ^ 64 - 1) (acc + (\<Sum>p\<leftarrow>ps. case p of Text t \<Rightarrow> length t | Marker _ \<Rightarrow> 0))"
proof (induction acc ps rule: prompt_bytes.induct)
  case (2 acc t ps)
  have "saturating_add 64 acc (length t) < 2 ^ 64" by (simp add: saturating_add_def)
  from 2(1) [OF this] show ?case by (simp add: saturating_add_def min_def)
qed auto

section \<open>Properties\<close>

text \<open>
  the appliance protocol round-trips whole messages: what \<open>write_message\<close> puts on the
  wire, \<open>read_message\<close> returns with the same type, id and value, leaving the rest of the
  stream, provided bincode decodes what it encoded and consumes all of it.
\<close>

theorem metal_message_roundtrip:
  assumes "zstd_inverts z"
    and "ser value = Inr raw" and "de raw = Inr (value, length raw)" and "length raw \<le> MAX_PAYLOAD"
    and "metal_write_message z ser ty rid value = Inr out"
  shows "metal_read_message z de (out @ rest) = Inr ((ty, rid, value), rest)"
proof -
  have w: "metal_write_payload z ty rid raw = Inr out"
    using assms(2,5) by (simp add: metal_write_message_def metal_encode_def)
  have "\<exists>b. metal_read_frame z (out @ rest) =
    Inr (\<lparr>m_message_type = ty, m_request_id = rid, m_compressed = b, m_payload = raw\<rparr>, rest)"
  proof (cases "COMPRESSION_THRESHOLD \<le> length raw")
    case True
    obtain c where c: "encode_all z raw = Inr c" "\<And>n. decode_take z c n = Inr (take n raw)"
      using assms(1) unfolding zstd_inverts_def by meson
    then have "metal_decompress z c = Inr raw" "length c \<le> MAX_PAYLOAD"
      "out = header (length c) FLAG_ZSTD (metal_code ty) rid @ c"
      using w True assms(4)
      by (auto simp: metal_write_payload_def metal_compress_def metal_decompress_def split: if_splits)
    then show ?thesis by (auto simp: metal_read_frame_header)
  next
    case False
    then have "out = header (length raw) 0 (metal_code ty) rid @ raw"
      using w by (auto simp: metal_write_payload_def split: if_splits)
    then show ?thesis using assms(4) metal_flags(3) by (auto simp: metal_read_frame_header)
  qed
  then show ?thesis using assms(3) by (auto simp: metal_read_message_def metal_decode_def)
qed

theorem metal_message_roundtrip_witness:
  "metal_read_message stored_zstd (\<lambda>bs. Inr (hd bs, length bs)) ((header 1 0 8 3 @ [77]) @ [5]) =
     Inr ((MCancel, 3, 77), [5])"
proof (rule metal_message_roundtrip [where raw = "[77]"])
  show "metal_write_message stored_zstd (\<lambda>b. Inr [b]) MCancel 3 77 = Inr (header 1 0 8 3 @ [77])"
    by (simp add: metal_write_message_def metal_encode_def metal_write_payload_def MAX_PAYLOAD_def
        COMPRESSION_THRESHOLD_def)
qed (simp_all add: MAX_PAYLOAD_def)

text \<open>
  An accepted generate request is within every limit the appliance relies on: between 1 and
  1024 pieces, at most 4 MiB of prompt text in total, between 1 and 32768 output tokens, a finite
  temperature between 0 and 4, a finite top-p between 0 and 1 and a top-k of at most 1024; and
  every request within these limits is accepted.
\<close>

theorem generate_validate_iff:
  "generate_validate g = Inr () \<longleftrightarrow>
     1 \<le> length (prompt g) \<and> length (prompt g) \<le> 1024 \<and>
     (\<Sum>p\<leftarrow>prompt g. case p of Text t \<Rightarrow> length t | Marker _ \<Rightarrow> 0) \<le> 4 * 1024 * 1024 \<and>
     1 \<le> max_tokens g \<and> max_tokens g \<le> 32 * 1024 \<and>
     (\<exists>t. temperature (sampling g) = Finite t \<and> 0 \<le> t \<and> t \<le> 4) \<and>
     (\<exists>p. top_p (sampling g) = Finite p \<and> 0 \<le> p \<and> p \<le> 1) \<and> top_k (sampling g) \<le> 1024"
proof -
  let ?sum = "\<Sum>p\<leftarrow>prompt g. case p of Text t \<Rightarrow> length t | Marker _ \<Rightarrow> 0"
  have bytes: "MAX_PROMPT_BYTES < prompt_bytes 0 (prompt g) \<longleftrightarrow> MAX_PROMPT_BYTES < ?sum"
    by (auto simp: prompt_bytes_sum MAX_PROMPT_BYTES_def)
  have finite: "is_finite x \<and> in_range lo hi x \<longleftrightarrow> (\<exists>r. x = Finite r \<and> lo \<le> r \<and> r \<le> hi)"
    for x :: f32 and lo hi by (cases x) auto
  have samp: "sampling_validate s = Inr () \<longleftrightarrow>
      (\<exists>t. temperature s = Finite t \<and> 0 \<le> t \<and> t \<le> 4) \<and>
      (\<exists>p. top_p s = Finite p \<and> 0 \<le> p \<and> p \<le> 1) \<and> top_k s \<le> 1024" for s
    unfolding finite [symmetric] sampling_validate_def by auto
  have head: "generate_validate g = Inr () \<longleftrightarrow>
      prompt g \<noteq> [] \<and> length (prompt g) \<le> MAX_PROMPT_PIECES \<and> ?sum \<le> MAX_PROMPT_BYTES \<and>
      0 < max_tokens g \<and> max_tokens g \<le> MAX_OUTPUT_TOKENS \<and> sampling_validate (sampling g) = Inr ()"
    unfolding generate_validate_def bytes by auto
  show ?thesis
    unfolding head samp
    by (auto simp: MAX_PROMPT_PIECES_def MAX_PROMPT_BYTES_def MAX_OUTPUT_TOKENS_def Suc_le_eq)
qed

end
