(* ===== verification/Workload.thy ===== *)
theory Workload
  imports Prelude
begin

text \<open>
  The gate of \<^verbatim>\<open>chatty-broker/src/workload.rs\<close> that keeps text and image models from occupying one
  GPU host at once.  \<open>gate_state\<close> is the state behind the mutex; \<open>try_admit\<close> is one
  iteration of the loop in \<open>admit\<close>, which holds the lock throughout; \<open>switched\<close>,
  \<open>drop_guard\<close> and \<open>drop_waiting\<close> are the other critical sections.

  Tasks interleave at the granularity of these sections.  \<open>gate_step\<close> is the step relation of
  any number of tasks over one gate; a queued task carries the flag that its \<^verbatim>\<open>notified()\<close>
  future, which is registered before the lock is taken, has been woken by
  \<^verbatim>\<open>notify_waiters\<close> since its last failed attempt.
\<close>

section \<open>The gate\<close>

datatype workload = Text | Image

fun other :: "workload \<Rightarrow> workload" where
  "other Text = Image"
| "other Image = Text"

record gate_state =
  loaded :: "workload option"
  active :: nat
  waiting :: "workload \<Rightarrow> nat"
  switching :: bool

definition gate_default :: gate_state where
  "gate_default = \<lparr>loaded = None, active = 0, waiting = (\<lambda>_. 0), switching = False\<rparr>"

definition admissible :: "gate_state \<Rightarrow> workload \<Rightarrow> bool" where
  "admissible g k \<longleftrightarrow>
     (let other_waiting = 0 < waiting g (other k); same = (loaded g = Some k) in
      \<not> switching g \<and>
      (if active g = 0 then \<not> (same \<and> other_waiting) else same \<and> \<not> other_waiting))"

text \<open>
  The result is \<open>Some must_switch\<close> when the caller is admitted and \<open>None\<close> when it is
  (still) counted as waiting; \<open>counted\<close> says whether it was counted before.
\<close>

definition try_admit :: "workload \<Rightarrow> bool \<Rightarrow> gate_state \<Rightarrow> gate_state \<times> bool option" where
  "try_admit k counted g =
     (if admissible g k then
        let same = (loaded g = Some k);
            w = (if counted then (waiting g)(k := waiting g k - 1) else waiting g)
        in (g\<lparr>waiting := w, loaded := Some k, active := active g + 1, switching := \<not> same\<rparr>,
            Some (\<not> same))
      else
        (if counted then g else g\<lparr>waiting := (waiting g)(k := waiting g k + 1)\<rparr>, None))"

definition drop_waiting :: "workload \<Rightarrow> gate_state \<Rightarrow> gate_state" where
  "drop_waiting k g = g\<lparr>waiting := (waiting g)(k := waiting g k - 1)\<rparr>"

definition switched :: "gate_state \<Rightarrow> gate_state" where
  "switched g = g\<lparr>switching := False\<rparr>"

definition drop_guard :: "gate_state \<Rightarrow> gate_state" where
  "drop_guard g =
     (let g = g\<lparr>active := active g - 1\<rparr> in
      if switching g then g\<lparr>switching := False, loaded := None\<rparr> else g)"

section \<open>Tasks over the gate\<close>

text \<open>\<open>Queued k woken\<close> waits for admission; \<open>Holding k must_switch\<close> holds a guard.\<close>

datatype task = Idle | Queued workload bool | Holding workload bool

record system =
  gate :: gate_state
  tasks :: "nat \<Rightarrow> task"

fun wake :: "task \<Rightarrow> task" where
  "wake (Queued k _) = Queued k True"
| "wake t = t"

definition notify_waiters :: "(nat \<Rightarrow> task) \<Rightarrow> nat \<Rightarrow> task" where
  "notify_waiters ts = (\<lambda>i. wake (ts i))"

definition after_attempt :: "workload \<Rightarrow> bool option \<Rightarrow> task" where
  "after_attempt k r = (case r of None \<Rightarrow> Queued k False | Some must_switch \<Rightarrow> Holding k must_switch)"

definition init_system :: system where
  "init_system = \<lparr>gate = gate_default, tasks = (\<lambda>_. Idle)\<rparr>"

inductive gate_step :: "system \<Rightarrow> system \<Rightarrow> bool" where
  arrive: "tasks s i = Idle \<Longrightarrow> try_admit k False (gate s) = (g, r) \<Longrightarrow>
     gate_step s (s\<lparr>gate := g, tasks := (tasks s)(i := after_attempt k r)\<rparr>)"
| retry: "tasks s i = Queued k True \<Longrightarrow> try_admit k True (gate s) = (g, r) \<Longrightarrow>
     gate_step s (s\<lparr>gate := g, tasks := (tasks s)(i := after_attempt k r)\<rparr>)"
| cancel: "tasks s i = Queued k woken \<Longrightarrow>
     gate_step s (s\<lparr>gate := drop_waiting k (gate s),
                    tasks := notify_waiters ((tasks s)(i := Idle))\<rparr>)"
| unloaded: "tasks s i = Holding k True \<Longrightarrow>
     gate_step s (s\<lparr>gate := switched (gate s),
                    tasks := notify_waiters ((tasks s)(i := Holding k False))\<rparr>)"
| release: "tasks s i = Holding k must_switch \<Longrightarrow>
     gate_step s (s\<lparr>gate := drop_guard (gate s),
                    tasks := notify_waiters ((tasks s)(i := Idle))\<rparr>)"

inductive gate_reachable :: "system \<Rightarrow> bool" where
  start: "gate_reachable init_system"
| step: "gate_reachable s \<Longrightarrow> gate_step s t \<Longrightarrow> gate_reachable t"

section \<open>The invariant\<close>

definition holders :: "system \<Rightarrow> nat set" where
  "holders s = {i. \<exists>k b. tasks s i = Holding k b}"

definition queued :: "system \<Rightarrow> workload \<Rightarrow> nat set" where
  "queued s k = {i. \<exists>w. tasks s i = Queued k w}"

definition gate_counts :: "system \<Rightarrow> bool" where
  "gate_counts s \<longleftrightarrow>
     finite (holders s) \<and> active (gate s) = card (holders s) \<and>
     (\<forall>k. finite (queued s k) \<and> waiting (gate s) k = card (queued s k))"

definition gate_exclusive :: "system \<Rightarrow> bool" where
  "gate_exclusive s \<longleftrightarrow>
     (\<forall>i k b. tasks s i = Holding k b \<longrightarrow> loaded (gate s) = Some k) \<and>
     (switching (gate s) \<longrightarrow>
        (\<exists>i k. tasks s i = Holding k True \<and> (\<forall>j k' b. tasks s j = Holding k' b \<longrightarrow> j = i))) \<and>
     (\<forall>i k. tasks s i = Holding k True \<longrightarrow> switching (gate s))"

definition no_lost_wakeup :: "system \<Rightarrow> bool" where
  "no_lost_wakeup s \<longleftrightarrow> (\<forall>i k. tasks s i = Queued k False \<longrightarrow> \<not> admissible (gate s) k)"

definition gate_inv :: "system \<Rightarrow> bool" where
  "gate_inv s \<longleftrightarrow> gate_counts s \<and> gate_exclusive s \<and> no_lost_wakeup s"

section \<open>Lemmas\<close>

lemma other_simps [simp]: "other (other k) = k" "other k \<noteq> k" "k \<noteq> other k"
  by (cases k; simp)+

lemma neq_other: "j \<noteq> k \<longleftrightarrow> j = other k"
  by (cases j; cases k) auto

lemma wake_simps [simp]:
  "wake t = Holding k b \<longleftrightarrow> t = Holding k b"
  "wake t = Idle \<longleftrightarrow> t = Idle"
  "wake t = Queued k w \<longleftrightarrow> w \<and> (\<exists>w'. t = Queued k w')"
  by (cases t; auto)+

lemma holders_update [simp]:
  "holders (s\<lparr>gate := g, tasks := (tasks s)(i := t)\<rparr>) =
     (if \<exists>k b. t = Holding k b then insert i (holders s) else holders s - {i})"
  by (auto simp: holders_def)

lemma queued_update [simp]:
  "queued (s\<lparr>gate := g, tasks := (tasks s)(i := t)\<rparr>) k =
     (if \<exists>w. t = Queued k w then insert i (queued s k) else queued s k - {i})"
  by (auto simp: queued_def)

lemma notify_sets [simp]:
  "holders (s\<lparr>gate := g, tasks := notify_waiters ts\<rparr>) = holders (s\<lparr>gate := g, tasks := ts\<rparr>)"
  "queued (s\<lparr>gate := g, tasks := notify_waiters ts\<rparr>) k = queued (s\<lparr>gate := g, tasks := ts\<rparr>) k"
  by (auto simp: holders_def queued_def notify_waiters_def)

lemma member_sets:
  "i \<in> holders s \<longleftrightarrow> (\<exists>k b. tasks s i = Holding k b)"
  "i \<in> queued s k \<longleftrightarrow> (\<exists>w. tasks s i = Queued k w)"
  by (auto simp: holders_def queued_def)

lemma try_admit_cases:
  assumes "try_admit k counted g = (g', r)"
  obtains (admitted) "admissible g k" "r = Some (loaded g \<noteq> Some k)"
      "g' = g\<lparr>waiting := (if counted then (waiting g)(k := waiting g k - 1) else waiting g),
              loaded := Some k, active := active g + 1, switching := loaded g \<noteq> Some k\<rparr>"
  | (refused) "\<not> admissible g k" "r = None"
      "g' = (if counted then g else g\<lparr>waiting := (waiting g)(k := waiting g k + 1)\<rparr>)"
  using assms by (auto simp: try_admit_def Let_def split: if_splits)

text \<open>Whoever is admitted joins holders of its own kind or finds the gate empty.\<close>

lemma admissible_free: "admissible g k \<Longrightarrow> active g = 0 \<or> loaded g = Some k"
  by (auto simp: admissible_def Let_def split: if_splits)

lemma counts_attempt:
  assumes "gate_counts s" and "try_admit k counted (gate s) = (g, r)"
    and "tasks s i = (if counted then Queued k True else Idle)"
  shows "gate_counts (s\<lparr>gate := g, tasks := (tasks s)(i := after_attempt k r)\<rparr>)"
proof -
  have i: "i \<notin> holders s" "\<And>j. i \<in> queued s j \<longleftrightarrow> counted \<and> j = k"
    using assms(3) by (auto simp: member_sets)
  show ?thesis
    using assms(2)
  proof (cases rule: try_admit_cases)
    case admitted
    then show ?thesis
      using assms(1) i unfolding gate_counts_def
      by (auto simp: after_attempt_def card_insert_if card_Diff_singleton_if)
  next
    case refused
    then show ?thesis
      using assms(1) i unfolding gate_counts_def
      by (auto simp: after_attempt_def card_insert_if insert_absorb card_Diff_singleton_if)
  qed
qed

lemma counts_leave:
  assumes "gate_counts s" and "tasks s i \<noteq> Idle"
    and "t = Idle \<or> (\<exists>k b b'. tasks s i = Holding k b \<and> t = Holding k b')"
    and "active g = (if t = Idle \<and> i \<in> holders s then active (gate s) - 1 else active (gate s))"
    and "\<And>k. waiting g k = (if i \<in> queued s k then waiting (gate s) k - 1 else waiting (gate s) k)"
  shows "gate_counts (s\<lparr>gate := g, tasks := notify_waiters ((tasks s)(i := t))\<rparr>)"
  using assms unfolding gate_counts_def
  by (auto simp: card_Diff_singleton_if insert_absorb member_sets)

lemma step_counts:
  assumes "gate_step s t" "gate_counts s" shows "gate_counts t"
  using assms
proof (induction rule: gate_step.induct)
  case (arrive s i k g r)
  then show ?case using counts_attempt [of s k False g r i] by simp
next
  case (retry s i k g r)
  then show ?case using counts_attempt [of s k True g r i] by simp
next
  case (cancel s i k woken)
  then show ?case by (intro counts_leave) (auto simp: drop_waiting_def member_sets)
next
  case (unloaded s i k)
  then show ?case by (intro counts_leave) (auto simp: switched_def member_sets)
next
  case (release s i k b)
  then show ?case by (intro counts_leave) (auto simp: drop_guard_def Let_def member_sets)
qed

lemma exclusive_attempt:
  assumes "gate_counts s" "gate_exclusive s" and "try_admit k counted (gate s) = (g, r)"
    and "tasks s i = (if counted then Queued k True else Idle)"
  shows "gate_exclusive (s\<lparr>gate := g, tasks := (tasks s)(i := after_attempt k r)\<rparr>)"
  using assms(3)
proof (cases rule: try_admit_cases)
  case admitted
  have i: "tasks s i \<noteq> Holding k' b" for k' b using assms(4) by auto
  have sw: "\<not> switching (gate s)" using admitted(1) by (simp add: admissible_def Let_def)
  show ?thesis
  proof (cases "loaded (gate s) = Some k")
    case True
    then show ?thesis
      using admitted(2,3) i sw assms(2) unfolding gate_exclusive_def by (auto simp: after_attempt_def)
  next
    case False
    then have "holders s = {}"
      using admissible_free [OF admitted(1)] assms(1) by (auto simp: gate_counts_def)
    then have "tasks s j \<noteq> Holding k' b" for j k' b by (auto simp: holders_def)
    then show ?thesis
      using admitted(2,3) False unfolding gate_exclusive_def by (auto simp: after_attempt_def)
  qed
next
  case refused
  have i: "tasks s i \<noteq> Holding k' b" for k' b using assms(4) by auto
  then have other: "j \<noteq> i" if "tasks s j = Holding k' b" for j k' b using that by auto
  show ?thesis
    using refused(2,3) assms(2) other unfolding gate_exclusive_def
    by (auto simp: after_attempt_def) blast+
qed

lemma exclusive_leave:
  assumes "gate_exclusive s" and "t = Idle \<or> (\<exists>k. t = Holding k False \<and> tasks s i = Holding k True)"
    and "switching g \<Longrightarrow> switching (gate s) \<and> (\<forall>k b. tasks s i \<noteq> Holding k b)"
    and "\<And>j k. j \<noteq> i \<Longrightarrow> tasks s j = Holding k True \<Longrightarrow> switching g"
    and "\<And>j k b. ((tasks s)(i := t)) j = Holding k b \<Longrightarrow> loaded g = loaded (gate s)"
  shows "gate_exclusive (s\<lparr>gate := g, tasks := notify_waiters ((tasks s)(i := t))\<rparr>)"
  unfolding gate_exclusive_def
proof (intro conjI allI impI)
  let ?s = "s\<lparr>gate := g, tasks := notify_waiters ((tasks s)(i := t))\<rparr>"
  have task: "tasks ?s j = Holding k b \<longleftrightarrow> ((tasks s)(i := t)) j = Holding k b" for j k b
    by (simp add: notify_waiters_def)
  show "loaded (gate ?s) = Some k" if "tasks ?s j = Holding k b" for j k b
    using that assms(1,2) assms(5) [of j k b] unfolding task gate_exclusive_def by (auto split: if_splits)
  show "switching (gate ?s)" if "tasks ?s j = Holding k True" for j k
    using that assms(2,4) unfolding task by (auto split: if_splits)
  show "\<exists>j k. tasks ?s j = Holding k True \<and> (\<forall>l k' b. tasks ?s l = Holding k' b \<longrightarrow> l = j)"
    if "switching (gate ?s)"
  proof -
    have i: "switching (gate s)" "\<And>k b. tasks s i \<noteq> Holding k b" using that assms(3) by auto
    then obtain j k where j: "tasks s j = Holding k True"
        "\<And>l k' b. l \<noteq> j \<Longrightarrow> tasks s l \<noteq> Holding k' b"
      using assms(1) unfolding gate_exclusive_def by metis
    from j(1) i(2) have "j \<noteq> i" by metis
    moreover from i(2) assms(2) have "t = Idle" by metis
    ultimately show ?thesis using j unfolding task by (intro exI [of _ j] exI [of _ k]) auto
  qed
qed

lemma switching_sole_holder:
  assumes "gate_exclusive s" "switching (gate s)" "tasks s i = Holding k b"
    and "tasks s j = Holding k' b'"
  shows "j = i"
  using assms unfolding gate_exclusive_def by metis

lemma step_exclusive:
  assumes "gate_step s t" "gate_counts s" "gate_exclusive s" shows "gate_exclusive t"
  using assms
proof (induction rule: gate_step.induct)
  case (arrive s i k g r)
  then show ?case using exclusive_attempt [of s k False g r i] by simp
next
  case (retry s i k g r)
  then show ?case using exclusive_attempt [of s k True g r i] by simp
next
  case (cancel s i k woken)
  then show ?case
    by (intro exclusive_leave) (auto simp: drop_waiting_def gate_exclusive_def)
next
  case (unloaded s i k)
  then have "switching (gate s)" by (auto simp: gate_exclusive_def)
  then have "\<And>j k' b'. j \<noteq> i \<Longrightarrow> tasks s j \<noteq> Holding k' b'"
    using switching_sole_holder unloaded by blast
  then show ?case
    using unloaded(1,3) by (intro exclusive_leave) (auto simp: switched_def)
next
  case (release s i k b)
  show ?case
  proof (cases "switching (gate s)")
    case True
    then have "\<And>j k' b'. j \<noteq> i \<Longrightarrow> tasks s j \<noteq> Holding k' b'"
      using switching_sole_holder release by blast
    then show ?thesis
      using release True by (intro exclusive_leave) (auto simp: drop_guard_def Let_def split: if_splits)
  next
    case False
    then have "\<And>j k'. tasks s j \<noteq> Holding k' True"
      using release unfolding gate_exclusive_def by blast
    then show ?thesis
      using release False by (intro exclusive_leave) (auto simp: drop_guard_def Let_def)
  qed
qed

text \<open>Admitting a task, or counting one more waiter, makes no one admissible who was not.\<close>

lemma admissible_after_attempt:
  assumes "try_admit k counted g = (g', r)" and "admissible g' j"
  shows "admissible g j"
  using assms(1)
proof (cases rule: try_admit_cases)
  case admitted
  then show ?thesis using assms(2)
    by (cases "j = k") (auto simp: admissible_def Let_def neq_other split: if_splits)
next
  case refused
  then show ?thesis using assms(2)
    by (cases "j = k") (auto simp: admissible_def Let_def neq_other split: if_splits)
qed

lemma attempt_out_not_admissible:
  assumes "try_admit k counted g = (g', None)" shows "\<not> admissible g' k"
  using assms by (cases rule: try_admit_cases) (auto simp: admissible_def Let_def)

lemma step_wakeup:
  assumes "gate_step s t" "no_lost_wakeup s" shows "no_lost_wakeup t"
  using assms
proof (induction rule: gate_step.induct)
  case (arrive s i k g r)
  then show ?case
    using admissible_after_attempt [of k False "gate s" g r] attempt_out_not_admissible [of k False "gate s" g]
    unfolding no_lost_wakeup_def by (auto simp: after_attempt_def split: option.splits if_splits)
next
  case (retry s i k g r)
  then show ?case
    using admissible_after_attempt [of k True "gate s" g r] attempt_out_not_admissible [of k True "gate s" g]
    unfolding no_lost_wakeup_def by (auto simp: after_attempt_def split: option.splits if_splits)
qed (auto simp: no_lost_wakeup_def notify_waiters_def)

lemma init_inv: "gate_inv init_system"
  by (auto simp: gate_inv_def gate_counts_def gate_exclusive_def no_lost_wakeup_def init_system_def
      gate_default_def holders_def queued_def)

lemma reachable_inv: "gate_reachable s \<Longrightarrow> gate_inv s"
proof (induction rule: gate_reachable.induct)
  case start
  show ?case by (rule init_inv)
next
  case (step s t)
  then show ?case
    unfolding gate_inv_def using step_counts step_exclusive step_wakeup by blast
qed

text \<open>A run used by the witnesses: text is admitted and unloads, an image job queues, text leaves.\<close>

definition run_text :: system where
  "run_text = init_system\<lparr>gate := fst (try_admit Text False (gate init_system)),
     tasks := (tasks init_system)(0 := after_attempt Text (Some True))\<rparr>"

definition run_text_loaded :: system where
  "run_text_loaded = run_text\<lparr>gate := switched (gate run_text),
     tasks := notify_waiters ((tasks run_text)(0 := Holding Text False))\<rparr>"

definition run_image_queued :: system where
  "run_image_queued = run_text_loaded\<lparr>gate := fst (try_admit Image False (gate run_text_loaded)),
     tasks := (tasks run_text_loaded)(1 := after_attempt Image None)\<rparr>"

definition run_text_done :: system where
  "run_text_done = run_image_queued\<lparr>gate := drop_guard (gate run_image_queued),
     tasks := notify_waiters ((tasks run_image_queued)(0 := Idle))\<rparr>"

lemmas run_defs = run_text_def run_text_loaded_def run_image_queued_def run_text_done_def
  init_system_def gate_default_def try_admit_def admissible_def Let_def after_attempt_def
  switched_def drop_guard_def notify_waiters_def

lemma run_text_reachable: "gate_reachable run_text"
  unfolding run_text_def
  by (rule gate_reachable.step [OF gate_reachable.start], rule gate_step.arrive)
    (simp_all add: run_defs)

lemma run_text_loaded_reachable: "gate_reachable run_text_loaded"
  unfolding run_text_loaded_def
  by (rule gate_reachable.step [OF run_text_reachable], rule gate_step.unloaded)
    (simp_all add: run_defs)

lemma run_image_queued_reachable: "gate_reachable run_image_queued"
  unfolding run_image_queued_def
  by (rule gate_reachable.step [OF run_text_loaded_reachable], rule gate_step.arrive)
    (simp_all add: run_defs)

lemma run_text_done_reachable: "gate_reachable run_text_done"
  unfolding run_text_done_def
  by (rule gate_reachable.step [OF run_image_queued_reachable], rule gate_step.release [where k = Text and must_switch = False])
    (simp_all add: run_defs)

section \<open>Properties\<close>

text \<open>
  C3: text and image work never overlap: in every state any interleaving of arrivals, retries,
  cancellations, unloads and releases can reach, all guards in existence are for one kind, the kind
  recorded as loaded, and while a holder is still unloading the other kind it is the only holder.
\<close>

theorem gate_mutual_exclusion:
  assumes "gate_reachable s"
    and "tasks s i = Holding k b" and "tasks s j = Holding k' b'"
  shows "k = k' \<and> loaded (gate s) = Some k \<and> (b \<longrightarrow> i = j)"
proof -
  have inv: "gate_exclusive s" using reachable_inv [OF assms(1)] by (simp add: gate_inv_def)
  then have "loaded (gate s) = Some k" "loaded (gate s) = Some k'"
    using assms(2,3) by (auto simp: gate_exclusive_def)
  moreover have "j = i" if b
  proof -
    have "switching (gate s)" using inv assms(2) that by (auto simp: gate_exclusive_def)
    then show ?thesis using switching_sole_holder inv assms(2,3) by blast
  qed
  ultimately show ?thesis by auto
qed

theorem gate_mutual_exclusion_witness:
  "tasks run_text 0 = Holding Text True \<and> loaded (gate run_text) = Some Text"
proof
  show held: "tasks run_text 0 = Holding Text True" by (simp add: run_defs)
  show "loaded (gate run_text) = Some Text"
    using gate_mutual_exclusion [OF run_text_reachable held held] by simp
qed

text \<open>
  C4: the gate cannot deadlock or lose a wake-up: in every reachable state with a queued task and
  no guard in existence, some queued task has been woken and its next attempt is admitted; and in
  every reachable state a queued task that has not been woken could not be admitted.
\<close>

theorem gate_progress:
  assumes "gate_reachable s"
  shows "(\<forall>i k. tasks s i = Queued k False \<longrightarrow> \<not> admissible (gate s) k) \<and>
    ((\<forall>j k b. tasks s j \<noteq> Holding k b) \<longrightarrow> (\<exists>i k w. tasks s i = Queued k w) \<longrightarrow>
      (\<exists>i k g must_switch. tasks s i = Queued k True \<and>
         try_admit k True (gate s) = (g, Some must_switch)))"
proof (intro conjI impI)
  have inv: "gate_counts s" "gate_exclusive s" "no_lost_wakeup s"
    using reachable_inv [OF assms] by (auto simp: gate_inv_def)
  show wake: "\<forall>i k. tasks s i = Queued k False \<longrightarrow> \<not> admissible (gate s) k"
    using inv(3) by (simp add: no_lost_wakeup_def)
  assume free: "\<forall>j k b. tasks s j \<noteq> Holding k b" and "\<exists>i k w. tasks s i = Queued k w"
  then obtain i k w where i: "tasks s i = Queued k w" by blast
  have "active (gate s) = 0" using free inv(1) by (simp add: gate_counts_def holders_def)
  moreover have "\<not> switching (gate s)" using free inv(2) by (auto simp: gate_exclusive_def)
  ultimately have adm: "admissible (gate s) j \<longleftrightarrow>
      \<not> (loaded (gate s) = Some j \<and> 0 < waiting (gate s) (other j))" for j
    by (simp add: admissible_def Let_def)
  have "\<exists>i k w. tasks s i = Queued k w \<and> admissible (gate s) k"
  proof (cases "admissible (gate s) k")
    case True
    then show ?thesis using i by blast
  next
    case False
    then have "queued s (other k) \<noteq> {}" "loaded (gate s) = Some k"
      using adm inv(1) by (auto simp: gate_counts_def)
    then obtain i' w' where "tasks s i' = Queued (other k) w'" by (auto simp: queued_def)
    moreover have "admissible (gate s) (other k)"
      using adm \<open>loaded (gate s) = Some k\<close> by simp
    ultimately show ?thesis by blast
  qed
  then obtain i k w where *: "tasks s i = Queued k w" "admissible (gate s) k" by blast
  then have w using wake by (cases w) auto
  then show "\<exists>i k g must_switch. tasks s i = Queued k True \<and>
      try_admit k True (gate s) = (g, Some must_switch)"
    using * by (auto simp: try_admit_def Let_def)
qed

theorem gate_progress_witness:
  "tasks run_text_done 1 = Queued Image True \<and>
   (\<exists>i k g must_switch. tasks run_text_done i = Queued k True \<and>
      try_admit k True (gate run_text_done) = (g, Some must_switch))"
proof -
  have q: "tasks run_text_done 1 = Queued Image True" by (simp add: run_defs)
  have free: "\<forall>j k b. tasks run_text_done j \<noteq> Holding k b" by (auto simp: run_defs)
  show ?thesis using q free gate_progress [OF run_text_done_reachable] by blast
qed

text \<open>
  the counters of the gate are exact, so none of its decrements can underflow: the number of
  active guards and, for each kind, of waiters equals the number of tasks in that state; and a
  new arrival of the loaded kind is refused while a task of the other kind waits, so neither kind
  can starve the other.
\<close>

theorem gate_counters_exact:
  assumes "gate_reachable s"
  shows "active (gate s) = card {i. \<exists>k b. tasks s i = Holding k b} \<and>
    waiting (gate s) k = card {i. \<exists>w. tasks s i = Queued k w} \<and>
    (\<forall>i k b. tasks s i = Holding k b \<longrightarrow> 1 \<le> active (gate s)) \<and>
    (\<forall>i k w. tasks s i = Queued k w \<longrightarrow> 1 \<le> waiting (gate s) k) \<and>
    (\<forall>i w k. tasks s i = Queued (other k) w \<longrightarrow> loaded (gate s) = Some k \<longrightarrow>
       snd (try_admit k False (gate s)) = None)"
proof (intro conjI allI impI)
  have inv: "gate_counts s" using reachable_inv [OF assms] by (simp add: gate_inv_def)
  show "active (gate s) = card {i. \<exists>k b. tasks s i = Holding k b}"
    using inv by (simp add: gate_counts_def holders_def)
  show "waiting (gate s) k = card {i. \<exists>w. tasks s i = Queued k w}"
    using inv by (simp add: gate_counts_def queued_def)
  show "1 \<le> active (gate s)" if "tasks s i = Holding k b" for i k b
    using inv that member_sets(1) [of i s] by (auto simp: gate_counts_def Suc_le_eq card_gt_0_iff)
  show waits: "1 \<le> waiting (gate s) k" if "tasks s i = Queued k w" for i k w
    using inv that member_sets(2) [of i s k] by (auto simp: gate_counts_def Suc_le_eq card_gt_0_iff)
  show "snd (try_admit k False (gate s)) = None"
    if "tasks s i = Queued (other k) w" "loaded (gate s) = Some k" for i w k
    using waits [OF that(1)] that(2) by (auto simp: try_admit_def admissible_def Let_def)
qed

theorem gate_counters_exact_witness:
  "active (gate run_image_queued) = card {i. \<exists>k b. tasks run_image_queued i = Holding k b} \<and>
   waiting (gate run_image_queued) Image = card {i. \<exists>w. tasks run_image_queued i = Queued Image w} \<and>
   snd (try_admit Text False (gate run_image_queued)) = None"
proof -
  have "tasks run_image_queued 1 = Queued (other Text) False" "loaded (gate run_image_queued) = Some Text"
    by (simp_all add: run_defs)
  then show ?thesis using gate_counters_exact [OF run_image_queued_reachable, of Image] by blast
qed

end
