(* ===== verification/RustStr.thy ===== *)
theory RustStr
  imports Prelude "HOL-Library.Sublist"
begin

text \<open>
  Rust's \<^verbatim>\<open>str\<close> as the sources use it.  A string is its UTF-8 encoding, a list of bytes
  (Isabelle's \<open>char\<close> is a byte), so \<^verbatim>\<open>len()\<close> is \<open>length\<close> and slices are
  \<open>take\<close>/\<open>drop\<close>.  \<open>chars\<close> groups the bytes into characters, each given by its
  encoding.  Unicode case folding is a table of the standard library; functions that use it take
  it as an argument \<open>lower\<close>.
\<close>

section \<open>Characters\<close>

definition is_cont :: "char \<Rightarrow> bool" where
  "is_cont c \<longleftrightarrow> 128 \<le> (of_char c :: nat) \<and> (of_char c :: nat) < 192"

function chars :: "string \<Rightarrow> string list" where
  "chars [] = []"
| "chars (c # cs) = (c # takeWhile is_cont cs) # chars (dropWhile is_cont cs)"
  by pat_completeness auto
termination
  by (relation "measure length") (auto simp: le_imp_less_Suc length_dropWhile_le)

text \<open>Well-formed encodings of one character (RFC 3629, table of well-formed byte sequences).\<close>

fun utf8_char :: "nat list \<Rightarrow> bool" where
  "utf8_char [a] = (a < 128)"
| "utf8_char [a, b] = (194 \<le> a \<and> a < 224 \<and> 128 \<le> b \<and> b < 192)"
| "utf8_char [a, b, c] =
     (224 \<le> a \<and> a < 240 \<and> (if a = 224 then 160 else 128) \<le> b \<and>
      b < (if a = 237 then 160 else 192) \<and> 128 \<le> c \<and> c < 192)"
| "utf8_char [a, b, c, d] =
     (240 \<le> a \<and> a < 245 \<and> (if a = 240 then 144 else 128) \<le> b \<and>
      b < (if a = 244 then 144 else 192) \<and> 128 \<le> c \<and> c < 192 \<and> 128 \<le> d \<and> d < 192)"
| "utf8_char _ = False"

definition utf8 :: "string \<Rightarrow> bool" where
  "utf8 s \<longleftrightarrow> list_all (\<lambda>c. utf8_char (map of_char c)) (chars s)"

definition is_char_boundary :: "string \<Rightarrow> nat \<Rightarrow> bool" where
  "is_char_boundary s i \<longleftrightarrow> i = 0 \<or> i = length s \<or> (i < length s \<and> \<not> is_cont (s ! i))"

text \<open>The loop \<^verbatim>\<open>while end > 0 && !s.is_char_boundary(end) { end -= 1 }\<close>.\<close>

fun floor_boundary :: "string \<Rightarrow> nat \<Rightarrow> nat" where
  "floor_boundary s n = (if 0 < n \<and> \<not> is_char_boundary s n then floor_boundary s (n - 1) else n)"

declare floor_boundary.simps [simp del]

text \<open>\<open>clip\<close> of \<^verbatim>\<open>chatty-broker/src/utils.rs\<close>: the first \<open>n\<close> characters.\<close>

definition clip :: "string \<Rightarrow> nat \<Rightarrow> string" where
  "clip s n = concat (take n (chars s))"

section \<open>Searching and trimming\<close>

definition nl :: string where "nl = [CHR 0x0A]"

definition strip_prefix :: "string \<Rightarrow> string \<Rightarrow> string option" where
  "strip_prefix p s = (if take (length p) s = p then Some (drop (length p) s) else None)"

definition strip_suffix :: "string \<Rightarrow> string \<Rightarrow> string option" where
  "strip_suffix p s = map_option rev (strip_prefix (rev p) (rev s))"

definition starts_with :: "string \<Rightarrow> string \<Rightarrow> bool" where
  "starts_with p s \<longleftrightarrow> take (length p) s = p"

text \<open>Byte offset of the first occurrence.\<close>

fun find_str :: "string \<Rightarrow> string \<Rightarrow> nat option" where
  "find_str p [] = (if p = [] then Some 0 else None)"
| "find_str p (c # cs) =
     (if starts_with p (c # cs) then Some 0 else map_option Suc (find_str p cs))"

definition contains :: "string \<Rightarrow> string \<Rightarrow> bool" where
  "contains p s \<longleftrightarrow> find_str p s \<noteq> None"

text \<open>The characters of Unicode's \<^verbatim>\<open>White_Space\<close> property, by their encodings.\<close>

definition is_whitespace :: "string \<Rightarrow> bool" where
  "is_whitespace c \<longleftrightarrow>
     c \<in> set [[CHR 0x09], [CHR 0x0A], [CHR 0x0B], [CHR 0x0C], [CHR 0x0D], [CHR 0x20],
       [CHR 0xC2, CHR 0x85], [CHR 0xC2, CHR 0xA0], [CHR 0xE1, CHR 0x9A, CHR 0x80],
       [CHR 0xE2, CHR 0x80, CHR 0x80], [CHR 0xE2, CHR 0x80, CHR 0x81],
       [CHR 0xE2, CHR 0x80, CHR 0x82], [CHR 0xE2, CHR 0x80, CHR 0x83],
       [CHR 0xE2, CHR 0x80, CHR 0x84], [CHR 0xE2, CHR 0x80, CHR 0x85],
       [CHR 0xE2, CHR 0x80, CHR 0x86], [CHR 0xE2, CHR 0x80, CHR 0x87],
       [CHR 0xE2, CHR 0x80, CHR 0x88], [CHR 0xE2, CHR 0x80, CHR 0x89],
       [CHR 0xE2, CHR 0x80, CHR 0x8A], [CHR 0xE2, CHR 0x80, CHR 0xA8],
       [CHR 0xE2, CHR 0x80, CHR 0xA9], [CHR 0xE2, CHR 0x80, CHR 0xAF],
       [CHR 0xE2, CHR 0x81, CHR 0x9F], [CHR 0xE3, CHR 0x80, CHR 0x80]]"

definition trim_by :: "(string \<Rightarrow> bool) \<Rightarrow> string \<Rightarrow> string" where
  "trim_by p s = concat (rev (dropWhile p (rev (dropWhile p (chars s)))))"

definition trim :: "string \<Rightarrow> string" where
  "trim s = trim_by is_whitespace s"

text \<open>Maximal runs of characters that do not satisfy \<open>p\<close>: \<^verbatim>\<open>split(p)\<close> without empty pieces.\<close>

fun split_runs :: "(string \<Rightarrow> bool) \<Rightarrow> string list \<Rightarrow> string \<Rightarrow> string list" where
  "split_runs p [] acc = (if acc = [] then [] else [acc])"
| "split_runs p (c # cs) acc =
     (if p c then (if acc = [] then [] else [acc]) @ split_runs p cs [] else split_runs p cs (acc @ c))"

definition split_whitespace :: "string \<Rightarrow> string list" where
  "split_whitespace s = split_runs is_whitespace (chars s) []"

fun join :: "string \<Rightarrow> string list \<Rightarrow> string" where
  "join sep [] = []"
| "join sep [x] = x"
| "join sep (x # xs) = x @ sep @ join sep xs"

definition ascii_lower :: "char \<Rightarrow> char" where
  "ascii_lower c =
     (if 65 \<le> (of_char c :: nat) \<and> (of_char c :: nat) \<le> 90 then char_of (of_char c + 32 :: nat) else c)"

definition eq_ignore_ascii_case :: "string \<Rightarrow> string \<Rightarrow> bool" where
  "eq_ignore_ascii_case a b \<longleftrightarrow> map ascii_lower a = map ascii_lower b"

text \<open>A number in a \<^verbatim>\<open>format!\<close> string.\<close>

fun show_nat :: "nat \<Rightarrow> string" where
  "show_nat n = (if n < 10 then [] else show_nat (n div 10)) @ [char_of (48 + n mod 10)]"

declare show_nat.simps [simp del]

section \<open>Lemmas\<close>

lemma concat_chars [simp]: "concat (chars s) = s"
  by (induction s rule: chars.induct) auto

lemma chars_append:
  assumes "ys = [] \<or> \<not> is_cont (hd ys)"
  shows "chars (xs @ ys) = chars xs @ chars ys"
proof (induction xs rule: chars.induct)
  case 1
  then show ?case by simp
next
  case (2 c cs)
  have tw: "takeWhile is_cont ys = []" "dropWhile is_cont ys = ys"
    using assms by (cases ys; simp)+
  have "takeWhile is_cont (cs @ ys) = takeWhile is_cont cs"
    using tw by (auto simp: takeWhile_append simp flip: takeWhile_eq_all_conv)
  moreover have "dropWhile is_cont (cs @ ys) = dropWhile is_cont cs @ ys"
    using tw by (cases "\<forall>x \<in> set cs. is_cont x") (auto simp: dropWhile_append)
  ultimately show ?case using 2 by simp
qed

lemma boundary_hd:
  "is_char_boundary s i \<Longrightarrow> i = 0 \<or> drop i s = [] \<or> \<not> is_cont (hd (drop i s))"
  by (auto simp: is_char_boundary_def hd_drop_conv_nth)

lemma chars_split:
  assumes "is_char_boundary s i"
  shows "chars s = chars (take i s) @ chars (drop i s)"
proof (cases "i = 0")
  case False
  then have "drop i s = [] \<or> \<not> is_cont (hd (drop i s))" using boundary_hd [OF assms] by blast
  from chars_append [OF this, of "take i s"] show ?thesis by simp
qed simp

lemma utf8_take: "utf8 s \<Longrightarrow> is_char_boundary s i \<Longrightarrow> utf8 (take i s)"
  by (simp add: utf8_def chars_split [of s i])

lemma utf8_char_length: "utf8_char xs \<Longrightarrow> length xs \<le> 4"
  by (cases xs rule: utf8_char.cases) auto

lemma floor_boundary_le: "floor_boundary s n \<le> n"
proof (induction s n rule: floor_boundary.induct)
  case (1 s n)
  then show ?case by (subst floor_boundary.simps) (auto intro: le_trans)
qed

lemma floor_boundary_boundary: "is_char_boundary s (floor_boundary s n)"
proof (induction s n rule: floor_boundary.induct)
  case (1 s n)
  then show ?case by (subst floor_boundary.simps) (auto simp: is_char_boundary_def)
qed

lemma floor_boundary_greatest:
  "floor_boundary s n < i \<Longrightarrow> i \<le> n \<Longrightarrow> \<not> is_char_boundary s i"
proof (induction s n rule: floor_boundary.induct)
  case (1 s n)
  show ?case
  proof (cases "0 < n \<and> \<not> is_char_boundary s n")
    case True
    then have eq: "floor_boundary s n = floor_boundary s (n - 1)"
      by (simp add: floor_boundary.simps [of s n])
    show ?thesis
    proof (cases "i = n")
      case False
      then show ?thesis using 1 True eq by simp
    qed (use True in simp)
  next
    case False
    then have "floor_boundary s n = n" by (subst floor_boundary.simps) auto
    then show ?thesis using 1 by simp
  qed
qed

text \<open>A character has at most four bytes, so rounding down loses at most three.\<close>

lemma floor_boundary_loss:
  assumes "utf8 s" "n \<le> length s"
  shows "n \<le> floor_boundary s n + 3"
proof (rule ccontr)
  assume far: "\<not> n \<le> floor_boundary s n + 3"
  define r where "r = floor_boundary s n"
  have r: "is_char_boundary s r" "r + 4 \<le> n" "r < length s"
    using far assms(2) floor_boundary_boundary unfolding r_def by auto
  have cont: "is_cont (s ! (r + k))" if "0 < k" "k \<le> 4" "r + k < length s" for k
    using floor_boundary_greatest [of s n "r + k"] that far
    by (auto simp: r_def is_char_boundary_def)
  have four: "r + 4 < length s"
    using floor_boundary_greatest [of s n "r + 4"] r far assms(2)
    by (auto simp: r_def is_char_boundary_def)
  obtain c cs where d: "drop r s = c # cs" using r(3) by (cases "drop r s") auto
  have nth: "cs ! k = s ! (r + Suc k)" for k
  proof -
    have "cs ! k = drop r s ! Suc k" by (simp add: d)
    also have "\<dots> = s ! (r + Suc k)" using r(3) by (intro nth_drop) simp
    finally show ?thesis .
  qed
  have len: "length cs = length s - r - 1" using arg_cong [OF d, of length] by simp
  have "\<forall>x \<in> set (take 4 cs). is_cont x"
    using four len cont [of "Suc _"] by (auto simp: in_set_conv_nth nth)
  then have "takeWhile is_cont cs = take 4 cs @ takeWhile is_cont (drop 4 cs)"
    using takeWhile_append2 [of "take 4 cs" is_cont "drop 4 cs"] by simp
  then have "5 \<le> length (c # takeWhile is_cont cs)" using four len by simp
  moreover have "c # takeWhile is_cont cs \<in> set (chars s)"
    unfolding chars_split [OF r(1)] d by simp
  then have "length (c # takeWhile is_cont cs) \<le> 4"
    using assms(1) utf8_char_length unfolding utf8_def list_all_iff by fastforce
  ultimately show False by simp
qed

lemma clip_prefix: "prefix (clip s n) s"
proof -
  have "s = concat (take n (chars s)) @ concat (drop n (chars s))"
    by (metis append_take_drop_id concat_append concat_chars)
  then show ?thesis unfolding clip_def by (metis prefixI)
qed

lemma length_chars_le: "length (chars s) \<le> length s"
proof (induction s rule: chars.induct)
  case (2 c cs)
  then show ?case using length_dropWhile_le [of is_cont cs] by simp
qed simp

end
