(* ===== verification/Prompt.thy ===== *)
theory Prompt
  imports RustStr MetalWire
begin

text \<open>
  The prompt budgeter of the broker (\<^verbatim>\<open>chatty-broker/src/systems/inference.rs\<close>): how a system
  prompt, the selected long-term memory and the conversation history are fitted into the model's
  context window.  Byte lengths are natural numbers: all of them are lengths of strings in memory
  and every product is bounded by three times the 32-bit context length.
\<close>

section \<open>Broker configuration\<close>

text \<open>The fields of \<^verbatim>\<open>BrokerConfig\<close> are those of \<^verbatim>\<open>chatty-protocol/src/admin.rs\<close>.\<close>

datatype reasoning_level = Default | Off | Low | Medium | High

definition reasoning_all :: "reasoning_level list" where
  "reasoning_all = [Default, Off, Low, Medium, High]"

fun reasoning_as_str :: "reasoning_level \<Rightarrow> string" where
  "reasoning_as_str Default = ''default''"
| "reasoning_as_str Off = ''off''"
| "reasoning_as_str Low = ''low''"
| "reasoning_as_str Medium = ''medium''"
| "reasoning_as_str High = ''high''"

definition reasoning_from_name :: "string \<Rightarrow> reasoning_level option" where
  "reasoning_from_name s = find (\<lambda>l. reasoning_as_str l = s) reasoning_all"

record image_config =
  img_enabled :: bool
  img_url :: string
  img_plugin :: string
  img_model :: string
  img_width :: u32
  img_height :: u32
  img_steps :: u32
  img_guidance :: f32
  img_negative_prompt :: string
  img_workflow :: string

definition image_config_default :: image_config where
  "image_config_default =
     \<lparr> img_enabled = False, img_url = ''http://127.0.0.1:8188'', img_plugin = ''comfyui'',
       img_model = [], img_width = 1024, img_height = 1024, img_steps = 25,
       img_guidance = Finite 7, img_negative_prompt = [], img_workflow = [] \<rparr>"

record broker_config =
  cfg_adapter_enabled :: bool
  cfg_adapter_url :: string
  cfg_adapter_plugin :: string
  cfg_use_ollama_api :: bool
  cfg_model :: string
  cfg_temperature :: f32
  cfg_top_p :: f32
  cfg_top_k :: u32
  cfg_num_ctx :: u32
  cfg_num_predict :: "32 word"
  cfg_repeat_penalty :: f32
  cfg_seed :: "64 word"
  cfg_keep_alive :: string
  cfg_allow_public_characters :: bool
  cfg_allow_self_registration :: bool
  cfg_image :: image_config
  cfg_emotion_model :: string
  cfg_memory_model :: string
  cfg_reasoning :: reasoning_level

definition adapter_plugin_id :: "broker_config \<Rightarrow> string" where
  "adapter_plugin_id c =
     (if cfg_adapter_plugin c = [] then
        if cfg_use_ollama_api c then ''ollama'' else ''openai-compatible''
      else cfg_adapter_plugin c)"

section \<open>Token estimates and clipping\<close>

definition MESSAGE_OVERHEAD_TOKENS :: nat where "MESSAGE_OVERHEAD_TOKENS = 4"
definition VERBATIM_HISTORY_MESSAGES :: nat where "VERBATIM_HISTORY_MESSAGES = 3"
definition COMPACTED_HISTORY_MESSAGES :: nat where "COMPACTED_HISTORY_MESSAGES = 20"
definition COMPACTED_MESSAGE_CHARS :: nat where "COMPACTED_MESSAGE_CHARS = 512"

definition estimated_message_tokens :: "string \<Rightarrow> nat" where
  "estimated_message_tokens content = div_ceil (length content) 3 + MESSAGE_OVERHEAD_TOKENS"

definition clip_to_byte_budget :: "string \<Rightarrow> nat \<Rightarrow> string" where
  "clip_to_byte_budget content max_bytes =
     (if length content \<le> max_bytes then content
      else take (floor_boundary content (min max_bytes (length content))) content)"

definition clip_to_token_budget :: "string \<Rightarrow> nat \<Rightarrow> string" where
  "clip_to_token_budget content tokens =
     (let max_bytes = (tokens - MESSAGE_OVERHEAD_TOKENS) * 3 in
      if max_bytes = 0 then []
      else if length content \<le> max_bytes then content
      else take (floor_boundary content (min max_bytes (length content))) content)"

definition SEPARATOR :: string where
  "SEPARATOR = nl @ ''[Additional character context clipped to fit the model window]'' @ nl"

definition budget_system_prompt :: "string \<Rightarrow> string \<Rightarrow> nat \<Rightarrow> string" where
  "budget_system_prompt sys priority_context tokens =
     (let max_bytes = (tokens - MESSAGE_OVERHEAD_TOKENS) * 3 in
      if max_bytes = 0 then []
      else if length sys + length priority_context < max_bytes then sys @ nl @ priority_context
      else
        let priority_cap = saturating_mul 64 max_bytes 2 div 3;
            priority = clip_to_byte_budget priority_context priority_cap;
            separator =
              (if length sys > max_bytes - (length priority + 1) \<and>
                  length priority + length SEPARATOR \<le> max_bytes
               then SEPARATOR else nl);
            system_cap = max_bytes - (length priority + length separator)
        in clip_to_byte_budget sys system_cap @ separator @ priority)"

definition prompt_input_budget :: "broker_config \<Rightarrow> nat" where
  "prompt_input_budget config =
     (let context = unat (cfg_num_ctx config);
          requested_output = nat (sint (cfg_num_predict config));
          output_reserve =
            (if requested_output > 0 then min requested_output (context div 2)
             else min (max (context div 4) 32) (context div 2))
      in context - output_reserve)"

definition compact_history_content :: "string \<Rightarrow> string" where
  "compact_history_content content =
     ''[Earlier turn, compacted] '' @
     clip (join '' '' (split_whitespace content)) COMPACTED_MESSAGE_CHARS"

section \<open>Messages\<close>

text \<open>The part of \<^verbatim>\<open>AdapterMessage\<close> the budgeter sets (\<^verbatim>\<open>AdapterMessage::new\<close>).\<close>

record adapter_message =
  msg_role :: string
  msg_content :: string

definition adapter_message_new :: "string \<Rightarrow> string \<Rightarrow> adapter_message" where
  "adapter_message_new r c = \<lparr> msg_role = r, msg_content = c \<rparr>"

datatype prompt_error = LatestMessagesExceedWindow

text \<open>The loop over the earlier turns, newest first.\<close>

fun compact_loop :: "(string \<times> string) list \<Rightarrow> nat \<Rightarrow> adapter_message list" where
  "compact_loop [] remaining = []"
| "compact_loop ((role, content) # rest) remaining =
     (if remaining \<le> MESSAGE_OVERHEAD_TOKENS then []
      else
        let content = compact_history_content content;
            tks = estimated_message_tokens content
        in if tks \<le> remaining
           then adapter_message_new role content # compact_loop rest (remaining - tks)
           else
             let content = clip_to_token_budget content remaining
             in if content \<noteq> [] then [adapter_message_new role content] else [])"

definition budget_chat_messages ::
  "string \<Rightarrow> string \<Rightarrow> (string \<times> string) list \<Rightarrow> nat \<Rightarrow> prompt_error + adapter_message list" where
  "budget_chat_messages sys priority_context hist input_budget =
     (let hist = take (VERBATIM_HISTORY_MESSAGES + COMPACTED_HISTORY_MESSAGES) hist;
          recent_history = take VERBATIM_HISTORY_MESSAGES hist;
          recent_tokens = sum_list (map (\<lambda>(_, c). estimated_message_tokens c) recent_history)
      in if recent_tokens + MESSAGE_OVERHEAD_TOKENS > input_budget
         then Inl LatestMessagesExceedWindow
         else
           let system_budget =
                 max (min (input_budget div 2) (input_budget - recent_tokens)) MESSAGE_OVERHEAD_TOKENS;
               sys = budget_system_prompt sys priority_context system_budget;
               remaining = input_budget - estimated_message_tokens sys - recent_tokens;
               recent = rev (map (\<lambda>(r, c). adapter_message_new r c) recent_history);
               compacted = rev (compact_loop
                 (take COMPACTED_HISTORY_MESSAGES (drop VERBATIM_HISTORY_MESSAGES hist)) remaining)
           in Inr (adapter_message_new ''system'' sys # compacted @ recent))"

definition message_tokens :: "adapter_message list \<Rightarrow> nat" where
  "message_tokens ms = sum_list (map (estimated_message_tokens \<circ> msg_content) ms)"

section \<open>Clipping\<close>

lemma overhead [simp]: "MESSAGE_OVERHEAD_TOKENS = 4"
  by (simp add: MESSAGE_OVERHEAD_TOKENS_def)

lemma clip_to_byte_budget_le: "length (clip_to_byte_budget s n) \<le> n"
  using floor_boundary_le [of s "min n (length s)"] by (auto simp: clip_to_byte_budget_def)

lemma clip_to_byte_budget_prefix: "prefix (clip_to_byte_budget s n) s"
  by (simp add: clip_to_byte_budget_def take_is_prefix)

lemma clip_to_byte_budget_utf8: "utf8 s \<Longrightarrow> utf8 (clip_to_byte_budget s n)"
  by (simp add: clip_to_byte_budget_def utf8_take floor_boundary_boundary)

lemma clip_to_byte_budget_loss:
  assumes "utf8 s" shows "min (length s) n \<le> length (clip_to_byte_budget s n) + 3"
proof (cases "length s \<le> n")
  case False
  have "floor_boundary s n \<le> length s" using floor_boundary_le [of s n] False by simp
  then show ?thesis
    using floor_boundary_loss [OF assms, of n] False by (simp add: clip_to_byte_budget_def min_def)
qed (simp add: clip_to_byte_budget_def)

lemma clip_to_token_budget_as_bytes:
  "clip_to_token_budget s t = (if t \<le> 4 then [] else clip_to_byte_budget s ((t - 4) * 3))"
  by (simp add: clip_to_token_budget_def clip_to_byte_budget_def Let_def)

lemma div_ceil_le_3: "n \<le> 3 * k \<Longrightarrow> div_ceil n 3 \<le> k"
  unfolding div_ceil_def by linarith

lemma estimated_le: "length s \<le> (t - 4) * 3 \<Longrightarrow> 4 \<le> t \<Longrightarrow> estimated_message_tokens s \<le> t"
  using div_ceil_le_3 [of "length s" "t - 4"] by (simp add: estimated_message_tokens_def)

lemma clip_to_token_budget_fits:
  "4 \<le> t \<Longrightarrow> estimated_message_tokens (clip_to_token_budget s t) \<le> t"
  using clip_to_byte_budget_le [of s "(t - 4) * 3"]
  by (intro estimated_le) (auto simp: clip_to_token_budget_as_bytes)

section \<open>The system prompt\<close>

lemma length_nl [simp]: "length nl = 1" by (simp add: nl_def)

lemma budget_system_prompt_length:
  "length (budget_system_prompt sys prio t) \<le> (t - 4) * 3"
proof -
  define mx where "mx = (t - 4) * 3"
  define p where "p = clip_to_byte_budget prio (saturating_mul 64 mx 2 div 3)"
  define sep where "sep = (if length sys > mx - (length p + 1) \<and> length p + length SEPARATOR \<le> mx
    then SEPARATOR else nl)"
  have "length p \<le> mx * 2 div 3"
    using clip_to_byte_budget_le [of prio "saturating_mul 64 mx 2 div 3"]
    unfolding p_def saturating_mul_def by (meson div_le_mono le_trans min.cobounded1)
  also have "\<dots> = (t - 4) * 2" by (simp add: mx_def)
  finally have "mx \<noteq> 0 \<Longrightarrow> length p + length sep \<le> mx"
    by (auto simp: sep_def mx_def)
  then have "mx \<noteq> 0 \<Longrightarrow>
      length (clip_to_byte_budget sys (mx - (length p + length sep)) @ sep @ p) \<le> mx"
    using clip_to_byte_budget_le [of sys "mx - (length p + length sep)"] by simp
  then show ?thesis
    unfolding budget_system_prompt_def Let_def overhead
    by (fold mx_def) (simp add: p_def sep_def)
qed

lemma budget_system_prompt_fits:
  "4 \<le> t \<Longrightarrow> estimated_message_tokens (budget_system_prompt sys prio t) \<le> t"
  using budget_system_prompt_length by (rule estimated_le)

section \<open>The message list\<close>

lemma message_tokens_simps [simp]:
  "message_tokens [] = 0"
  "message_tokens (m # ms) = estimated_message_tokens (msg_content m) + message_tokens ms"
  "message_tokens (ms @ ns) = message_tokens ms + message_tokens ns"
  "message_tokens (rev ms) = message_tokens ms"
  by (auto simp: message_tokens_def rev_map simp flip: rev_map)

lemma adapter_message_new_sel [simp]:
  "msg_role (adapter_message_new r c) = r"
  "msg_content (adapter_message_new r c) = c"
  by (simp_all add: adapter_message_new_def)

lemma compact_loop_fits: "message_tokens (compact_loop h remaining) \<le> remaining"
proof (induction h remaining rule: compact_loop.induct)
  case (2 role content rest remaining)
  let ?c = "compact_history_content content"
  show ?case
  proof (cases "4 < remaining \<and> estimated_message_tokens ?c \<le> remaining")
    case True
    then have "message_tokens (compact_loop rest (remaining - estimated_message_tokens ?c))
        \<le> remaining - estimated_message_tokens ?c"
      using 2 by simp
    then show ?thesis using True by (simp add: Let_def le_diff_conv2 add.commute)
  next
    case False
    then show ?thesis using clip_to_token_budget_fits [of remaining ?c] by (simp add: Let_def)
  qed
qed simp

lemma message_tokens_recent:
  "message_tokens (map (\<lambda>(r, c). adapter_message_new r c) h) =
   sum_list (map (\<lambda>(_, c). estimated_message_tokens c) h)"
  by (induction h) auto

lemma compact_loop_length: "length (compact_loop h remaining) \<le> length h"
  by (induction h remaining rule: compact_loop.induct) (auto simp: Let_def)

text \<open>The roles of the compacted turns are those of the newest earlier turns, in order.\<close>

lemma compact_loop_roles: "prefix (map msg_role (compact_loop h remaining)) (map fst h)"
  by (induction h remaining rule: compact_loop.induct) (auto simp: Let_def)

lemma compact_loop_contents:
  "i < length (compact_loop h remaining) \<Longrightarrow>
   prefix (msg_content (compact_loop h remaining ! i)) (compact_history_content (snd (h ! i)))"
proof (induction h remaining arbitrary: i rule: compact_loop.induct)
  case (2 role content rest remaining)
  then show ?case
    by (cases i) (auto simp: Let_def clip_to_token_budget_as_bytes clip_to_byte_budget_prefix
      split: if_splits)
qed simp

section \<open>Properties\<close>

definition recent_tokens :: "(string \<times> string) list \<Rightarrow> nat" where
  "recent_tokens h = sum_list (map (estimated_message_tokens \<circ> snd) (take 3 h))"

lemma recent_tokens_eq:
  "sum_list (map (\<lambda>(_, c). estimated_message_tokens c)
     (take VERBATIM_HISTORY_MESSAGES (take (VERBATIM_HISTORY_MESSAGES + COMPACTED_HISTORY_MESSAGES) h)))
   = recent_tokens h"
  by (simp add: recent_tokens_def VERBATIM_HISTORY_MESSAGES_def COMPACTED_HISTORY_MESSAGES_def
      comp_def case_prod_unfold)

lemmas history_sizes = VERBATIM_HISTORY_MESSAGES_def COMPACTED_HISTORY_MESSAGES_def

lemma budget_chat_messages_shape:
  assumes "budget_chat_messages sys prio hist b = Inr ms"
  obtains sb where "recent_tokens hist + 4 \<le> b" "4 \<le> sb" "sb \<le> b - recent_tokens hist"
    "ms = adapter_message_new ''system'' (budget_system_prompt sys prio sb) #
      rev (compact_loop (take 20 (drop 3 hist))
        (b - estimated_message_tokens (budget_system_prompt sys prio sb) - recent_tokens hist)) @
      rev (map (\<lambda>(r, c). adapter_message_new r c) (take 3 hist))"
proof
  let ?sb = "max (min (b div 2) (b - recent_tokens hist)) 4"
  show le: "recent_tokens hist + 4 \<le> b" and
    "ms = adapter_message_new ''system'' (budget_system_prompt sys prio ?sb) #
      rev (compact_loop (take 20 (drop 3 hist))
        (b - estimated_message_tokens (budget_system_prompt sys prio ?sb) - recent_tokens hist)) @
      rev (map (\<lambda>(r, c). adapter_message_new r c) (take 3 hist))"
    using assms unfolding budget_chat_messages_def Let_def recent_tokens_eq
    by (auto simp: history_sizes drop_take split: if_splits)
  show "4 \<le> ?sb" "?sb \<le> b - recent_tokens hist" using le by auto
qed

lemma budget_chat_messages_sound:
  assumes "budget_chat_messages sys prio hist b = Inr ms"
  shows "message_tokens ms \<le> b \<and>
    (\<exists>s earlier. ms = adapter_message_new ''system'' s # rev earlier @
         rev (map (\<lambda>(r, c). adapter_message_new r c) (take 3 hist)) \<and>
       length earlier \<le> 20 \<and>
       prefix (map msg_role earlier) (map fst (drop 3 hist)) \<and>
       (\<forall>i < length earlier.
          prefix (msg_content (earlier ! i)) (compact_history_content (snd (drop 3 hist ! i)))))"
proof -
  obtain sb where sb: "recent_tokens hist + 4 \<le> b" "4 \<le> sb" "sb \<le> b - recent_tokens hist"
    and ms: "ms = adapter_message_new ''system'' (budget_system_prompt sys prio sb) #
      rev (compact_loop (take 20 (drop 3 hist))
        (b - estimated_message_tokens (budget_system_prompt sys prio sb) - recent_tokens hist)) @
      rev (map (\<lambda>(r, c). adapter_message_new r c) (take 3 hist))"
    using assms by (rule budget_chat_messages_shape)
  let ?s = "budget_system_prompt sys prio sb" and ?h = "take 20 (drop 3 hist)"
  let ?e = "compact_loop ?h (b - estimated_message_tokens ?s - recent_tokens hist)"
  have "estimated_message_tokens ?s \<le> b - recent_tokens hist"
    using budget_system_prompt_fits [OF sb(2)] sb(3) by (rule le_trans)
  moreover have "message_tokens ms = estimated_message_tokens ?s + message_tokens ?e + recent_tokens hist"
    unfolding ms by (simp add: message_tokens_recent recent_tokens_def comp_def)
      (simp add: case_prod_unfold)
  ultimately have fits: "message_tokens ms \<le> b"
    using compact_loop_fits [of ?h "b - estimated_message_tokens ?s - recent_tokens hist"] sb(1) by linarith
  have len: "length ?e \<le> length ?h" by (rule compact_loop_length)
  moreover have "prefix (map msg_role ?e) (map fst (drop 3 hist))"
    by (rule prefix_order.trans [OF compact_loop_roles map_mono_prefix [OF take_is_prefix]])
  moreover have "prefix (msg_content (?e ! i)) (compact_history_content (snd (drop 3 hist ! i)))"
    if "i < length ?e" for i
    using compact_loop_contents [OF that] that len by simp
  ultimately show ?thesis using fits ms by (intro conjI exI [of _ ?s] exI [of _ ?e]) auto
qed

text \<open>
  C27: The list that \<^verbatim>\<open>budget_chat_messages\<close> returns fits the input budget by the broker's own
  token estimate; it starts with the one system message, ends with the three newest turns
  verbatim in chronological order, and between them has at most twenty earlier turns, in
  chronological order, the newest first choice, each a prefix of its compacted text.
\<close>

theorem budget_chat_messages_fits:
  assumes "budget_chat_messages sys prio hist b = Inr ms"
  shows "message_tokens ms \<le> b \<and>
    (\<exists>s earlier. ms = adapter_message_new ''system'' s # rev earlier @
         rev (map (\<lambda>(r, c). adapter_message_new r c) (take 3 hist)) \<and>
       length earlier \<le> 20 \<and>
       prefix (map msg_role earlier) (map fst (drop 3 hist)) \<and>
       (\<forall>i < length earlier.
          prefix (msg_content (earlier ! i)) (compact_history_content (snd (drop 3 hist ! i)))))"
  by (rule budget_chat_messages_sound [OF assms])

lemma budget_chat_messages_fits_witness:
  "message_tokens [adapter_message_new ''system'' ([CHR ''S''] @ nl @ [CHR ''M'']),
     adapter_message_new ''user'' ''hello''] \<le> 100"
proof -
  have "budget_chat_messages ''S'' ''M'' [(''user'', ''hello'')] 100 =
    Inr [adapter_message_new ''system'' ([CHR ''S''] @ nl @ [CHR ''M'']),
     adapter_message_new ''user'' ''hello'']"
    by (simp add: budget_chat_messages_def budget_system_prompt_def history_sizes
        estimated_message_tokens_def div_ceil_def nl_def Let_def)
  from budget_chat_messages_fits [OF this] show ?thesis by blast
qed

text \<open>
  \<^verbatim>\<open>budget_chat_messages\<close> fails exactly when the three newest turns and one message's
  overhead do not fit; the system prompt and the older turns never cause a failure.
\<close>

theorem budget_chat_messages_error_iff:
  "(\<exists>e. budget_chat_messages sys prio hist b = Inl e) \<longleftrightarrow> b < recent_tokens hist + 4"
  unfolding budget_chat_messages_def Let_def recent_tokens_eq by auto

lemma priority_share:
  assumes "t \<le> 2 ^ 32"
  shows "saturating_mul 64 ((t - 4) * 3) 2 div 3 = (t - 4) * 2"
  using assms by (simp add: saturating_mul_def min_def)

lemma budget_system_prompt_suffix:
  assumes "4 < t" "t \<le> 2 ^ 32"
  shows "suffix (clip_to_byte_budget prio ((t - 4) * 2)) (budget_system_prompt sys prio t) \<or>
         suffix prio (budget_system_prompt sys prio t)"
  using assms unfolding budget_system_prompt_def Let_def overhead
  by (auto simp: priority_share suffix_def)

text \<open>
  Two thirds of the system message are protected for long-term memory: whatever the size
  of the system text, the prompt ends with the memory, whole when it fits that share, and
  otherwise cut to at most three bytes below it at a character boundary.
\<close>

theorem budget_system_prompt_keeps_memory:
  assumes "4 < t" "t \<le> 2 ^ 32" "utf8 prio"
  shows "\<exists>m. suffix m (budget_system_prompt sys prio t) \<and> prefix m prio \<and> utf8 m \<and>
           min (length prio) ((t - 4) * 2) \<le> length m + 3 \<and>
           (length prio \<le> (t - 4) * 2 \<longrightarrow> m = prio)"
proof -
  let ?m = "clip_to_byte_budget prio ((t - 4) * 2)"
  from budget_system_prompt_suffix [OF assms(1,2), of prio sys] show ?thesis
  proof
    assume "suffix ?m (budget_system_prompt sys prio t)"
    then show ?thesis
      using clip_to_byte_budget_prefix clip_to_byte_budget_utf8 [OF assms(3)]
        clip_to_byte_budget_loss [OF assms(3)]
      by (intro exI [of _ ?m]) (simp add: clip_to_byte_budget_def)
  next
    assume "suffix prio (budget_system_prompt sys prio t)"
    then show ?thesis using assms(3) by (intro exI [of _ prio]) simp
  qed
qed

lemma budget_system_prompt_keeps_memory_witness:
  "suffix ''memory'' (budget_system_prompt (replicate 400 CHR ''x'') ''memory'' 10)"
proof -
  have "utf8 ''memory''" by (simp add: utf8_def is_cont_def)
  from budget_system_prompt_keeps_memory [OF _ _ this, of 10] show ?thesis by auto
qed

text \<open>
  At least half of the context window, and never more than it, is left for the prompt;
  a requested output of at most half the window is reserved in full.
\<close>

theorem prompt_input_budget_bounds:
  "unat (cfg_num_ctx c) - unat (cfg_num_ctx c) div 2 \<le> prompt_input_budget c \<and>
   prompt_input_budget c \<le> unat (cfg_num_ctx c) \<and>
   (0 < sint (cfg_num_predict c) \<and> sint (cfg_num_predict c) \<le> int (unat (cfg_num_ctx c) div 2) \<longrightarrow>
      int (prompt_input_budget c) + sint (cfg_num_predict c) = int (unat (cfg_num_ctx c)))"
proof -
  let ?n = "unat (cfg_num_ctx c)" and ?p = "nat (sint (cfg_num_predict c))"
  have "int (?n - min ?p (?n div 2)) + sint (cfg_num_predict c) = int ?n"
    if "0 < sint (cfg_num_predict c)" "sint (cfg_num_predict c) \<le> int (?n div 2)"
  proof -
    have "?p \<le> ?n div 2" using that by (simp only: nat_le_iff)
    moreover have "int ?p = sint (cfg_num_predict c)" using that by simp
    ultimately show ?thesis by linarith
  qed
  then show ?thesis unfolding prompt_input_budget_def Let_def by auto
qed

end
