(* ===== verification/Catalog.thy ===== *)
theory Catalog
  imports RustStr "HOL-Library.List_Lexorder"
begin

text \<open>
  The read-only weight index of the metal server (\<^verbatim>\<open>chatty-metal/src/catalog.rs\<close>): safetensors
  headers are untrusted input and every extent is checked against its file before use.  Files are
  byte strings by name, and the JSON parser is a parameter (\<open>parse_header\<close>).  \<^verbatim>\<open>u64\<close> products
  and sums of untrusted numbers, also the slot size, wrap as they do in a release build.
\<close>

section \<open>Data\<close>

definition MAX_JSON_BYTES :: nat where "MAX_JSON_BYTES = 64 * 2 ^ 20"
definition EXPERT_EXTENTS :: nat where "EXPERT_EXTENTS = 6"

record model_config =
  n_layers :: nat
  n_routed_experts :: nat
  n_activated_experts :: nat
  head_dim :: nat
  index_head_dim :: nat
  rope_head_dim :: nat
  kv_source_layers :: "nat list"
  compress_ratios :: "nat list"
  engram_layer_ids :: "nat list"
  engram_num_embeddings :: "nat list"
  engram_head_dim :: nat

record extent =
  shard :: nat
  offset :: nat
  len :: nat

record engram_table =
  tbl_layer :: nat
  tbl_rows :: nat
  tbl_weight :: extent
  tbl_scale :: extent

definition row_extent :: "extent \<Rightarrow> nat \<Rightarrow> nat \<Rightarrow> extent" where
  "row_extent table rows row =
     (let l = len table div rows in
      \<lparr> shard = shard table, offset = (offset table + row * l) mod 2 ^ 64, len = l \<rparr>)"

definition table_row :: "engram_table \<Rightarrow> nat \<Rightarrow> (extent \<times> extent) option" where
  "table_row t row =
     (if row < tbl_rows t
      then Some (row_extent (tbl_weight t) (tbl_rows t) row, row_extent (tbl_scale t) (tbl_rows t) row)
      else None)"

datatype dtype = Bf16 | F32 | F8E4m3 | F8E8m0 | I8

definition dtype_parse :: "string \<Rightarrow> dtype option" where
  "dtype_parse s =
     (if s = ''BF16'' then Some Bf16 else if s = ''F32'' then Some F32
      else if s = ''F8_E4M3'' then Some F8E4m3 else if s = ''F8_E8M0'' then Some F8E8m0
      else if s = ''I8'' then Some I8 else None)"

fun dtype_bytes :: "dtype \<Rightarrow> nat" where
  "dtype_bytes Bf16 = 2"
| "dtype_bytes F32 = 4"
| "dtype_bytes F8E4m3 = 1"
| "dtype_bytes F8E8m0 = 1"
| "dtype_bytes I8 = 1"

record core_tensor =
  ct_dtype :: dtype
  ct_shape :: "nat list"
  ct_extent :: extent

record sizes =
  sz_core :: nat
  sz_experts :: nat
  sz_engram :: nat
  sz_mtp :: nat
  sz_vision :: nat

record tensor_entry =
  te_dtype :: string
  te_shape :: "nat list"
  te_begin :: nat
  te_end :: nat

record catalog =
  cat_config :: model_config
  cat_shards :: "string list"
  cat_sizes :: sizes
  expert_slot :: nat
  cat_core :: "string \<rightharpoonup> core_tensor"
  cat_engram :: "engram_table list"
  cat_experts :: "extent list list"

record build =
  b_sizes :: sizes
  b_core :: "string \<rightharpoonup> core_tensor"
  b_experts :: "extent option list list"
  b_engram :: "nat \<rightharpoonup> (extent \<times> nat) option \<times> (extent \<times> nat) option"
  b_seen :: nat

text \<open>Errors: \<^verbatim>\<open>Error::Invalid\<close>, \<^verbatim>\<open>Error::Io\<close>, and a panic (indexing out of bounds).\<close>

datatype store_error = EInvalid string | EIo string | EPanic string

section \<open>Parsing tensor names\<close>

definition digit_val :: "char \<Rightarrow> nat option" where
  "digit_val c = (let n = of_char c :: nat in if 48 \<le> n \<and> n \<le> 57 then Some (n - 48) else None)"

fun digits_val :: "nat \<Rightarrow> string \<Rightarrow> nat option" where
  "digits_val acc [] = Some acc"
| "digits_val acc (c # cs) =
     (case digit_val c of None \<Rightarrow> None | Some d \<Rightarrow> digits_val (10 * acc + d) cs)"

text \<open>\<^verbatim>\<open>str::parse::<usize>\<close>: an optional plus sign, then digits, below \<open>2 ^ 64\<close>.\<close>

definition parse_usize :: "string \<Rightarrow> nat option" where
  "parse_usize s =
     (let ds = (case s of c # cs \<Rightarrow> if c = CHR ''+'' then cs else s | [] \<Rightarrow> []) in
      if ds = [] then None
      else case digits_val 0 ds of
             Some n \<Rightarrow> if n < 2 ^ 64 then Some n else None
           | None \<Rightarrow> None)"

fun split_at :: "char \<Rightarrow> string \<Rightarrow> string list" where
  "split_at sep [] = [[]]"
| "split_at sep (c # cs) =
     (if c = sep then [] # split_at sep cs
      else case split_at sep cs of p # ps \<Rightarrow> (c # p) # ps | [] \<Rightarrow> [[c]])"

definition matrix_index :: "string \<Rightarrow> nat option" where
  "matrix_index s =
     (if s = ''w1'' then Some 0 else if s = ''w2'' then Some 1 else if s = ''w3'' then Some 2 else None)"

definition kind_index :: "string \<Rightarrow> nat option" where
  "kind_index s = (if s = ''weight'' then Some 0 else if s = ''scale'' then Some 1 else None)"

definition parse_expert :: "string \<Rightarrow> (nat \<times> nat \<times> nat) option" where
  "parse_expert name =
     (case split_at CHR ''.'' name of
        [a, l, b, c, e, m, k] \<Rightarrow>
          (if a = ''layers'' \<and> b = ''ffn'' \<and> c = ''experts'' then
             (case (parse_usize l, parse_usize e, matrix_index m, kind_index k) of
                (Some layer, Some expert, Some matrix, Some kind) \<Rightarrow>
                  Some (layer, expert, matrix * 2 + kind)
              | _ \<Rightarrow> None)
           else None)
      | _ \<Rightarrow> None)"

definition split_once :: "string \<Rightarrow> string \<Rightarrow> (string \<times> string) option" where
  "split_once sep s =
     map_option (\<lambda>i. (take i s, drop (i + length sep) s)) (find_str sep s)"

definition parse_engram_table :: "string \<Rightarrow> (nat \<times> nat) option" where
  "parse_engram_table name =
     (case strip_prefix ''layers.'' name of
        None \<Rightarrow> None
      | Some rest \<Rightarrow>
          (case split_once ''.engram.embed.'' rest of
             None \<Rightarrow> None
           | Some (layer, table) \<Rightarrow>
               (case kind_index table of
                  None \<Rightarrow> None
                | Some kind \<Rightarrow> map_option (\<lambda>l. (l, kind)) (parse_usize layer))))"

section \<open>Checking one tensor\<close>

fun checked_product :: "nat \<Rightarrow> nat list \<Rightarrow> nat option" where
  "checked_product acc [] = Some acc"
| "checked_product acc (d # ds) =
     (case checked_mul 64 acc d of None \<Rightarrow> None | Some p \<Rightarrow> checked_product p ds)"

definition check_extent :: "nat \<Rightarrow> tensor_entry \<Rightarrow> nat \<Rightarrow> nat \<Rightarrow> store_error + dtype \<times> extent" where
  "check_extent sh entry data_start file_len =
     (case dtype_parse (te_dtype entry) of
        None \<Rightarrow> Inl (EInvalid ''unsupported dtype'')
      | Some dt \<Rightarrow>
          (let expected = checked_product (dtype_bytes dt) (te_shape entry) in
           if te_end entry < te_begin entry \<or> expected \<noteq> Some (te_end entry - te_begin entry)
           then Inl (EInvalid ''offsets do not match dtype and shape'')
           else
             (case checked_add 64 data_start (te_end entry) of
                None \<Rightarrow> Inl (EInvalid ''data runs past end of file'')
              | Some absolute \<Rightarrow>
                  if absolute > file_len then Inl (EInvalid ''data runs past end of file'')
                  else
                    (case checked_add 64 data_start (te_begin entry) of
                       None \<Rightarrow> Inl (EInvalid ''offset overflow'')
                     | Some off \<Rightarrow>
                         Inr (dt, \<lparr> shard = sh, offset = off,
                           len = te_end entry - te_begin entry \<rparr>)))))"

section \<open>Building the index\<close>

definition expert_index :: "model_config \<Rightarrow> nat \<Rightarrow> nat \<Rightarrow> nat" where
  "expert_index cfg layer expert = (layer * n_routed_experts cfg + expert) mod 2 ^ 64"

text \<open>\<open>Build::place\<close>: the tensor goes to the part of the model its name says.\<close>

definition place_expert :: "model_config \<Rightarrow> string \<Rightarrow> extent \<Rightarrow> build \<Rightarrow> store_error + build" where
  "place_expert cfg name ext b =
     (case parse_expert name of
        None \<Rightarrow> Inl (EInvalid ''unexpected expert tensor'')
      | Some (layer, expert, slot) \<Rightarrow>
          (if layer \<ge> n_layers cfg \<or> expert \<ge> n_routed_experts cfg
           then Inl (EInvalid ''outside the configured model'')
           else
             let i = expert_index cfg layer expert in
             if length (b_experts b) \<le> i then Inl (EPanic ''index out of bounds'')
             else if b_experts b ! i ! slot \<noteq> None then Inl (EInvalid ''duplicate tensor'')
             else Inr (b\<lparr> b_experts := (b_experts b)[i := (b_experts b ! i)[slot := Some ext]],
                         b_sizes := (b_sizes b)\<lparr> sz_experts := sz_experts (b_sizes b) + len ext \<rparr> \<rparr>)))"

definition place_engram :: "nat \<Rightarrow> nat \<Rightarrow> extent \<Rightarrow> tensor_entry \<Rightarrow> build \<Rightarrow> store_error + build" where
  "place_engram layer kind ext entry b =
     (let rows = (case te_shape entry of [] \<Rightarrow> 0 | r # _ \<Rightarrow> r);
          (w, s) = (case b_engram b layer of None \<Rightarrow> (None, None) | Some p \<Rightarrow> p);
          b' = b\<lparr> b_sizes := (b_sizes b)\<lparr> sz_engram := sz_engram (b_sizes b) + len ext \<rparr> \<rparr>
      in if kind = 0
         then if w \<noteq> None then Inl (EInvalid ''duplicate tensor'')
              else Inr (b'\<lparr> b_engram := (b_engram b)(layer \<mapsto> (Some (ext, rows), s)) \<rparr>)
         else if s \<noteq> None then Inl (EInvalid ''duplicate tensor'')
              else Inr (b'\<lparr> b_engram := (b_engram b)(layer \<mapsto> (w, Some (ext, rows))) \<rparr>))"

definition place :: "model_config \<Rightarrow> string \<Rightarrow> dtype \<Rightarrow> tensor_entry \<Rightarrow> extent \<Rightarrow> build \<Rightarrow> store_error + build" where
  "place cfg name dt entry ext b =
     (if starts_with ''mtp.'' name
      then Inr (b\<lparr> b_sizes := (b_sizes b)\<lparr> sz_mtp := sz_mtp (b_sizes b) + len ext \<rparr> \<rparr>)
      else if starts_with ''vision.'' name \<or> starts_with ''aligner.'' name \<or> starts_with ''image_'' name
      then Inr (b\<lparr> b_sizes := (b_sizes b)\<lparr> sz_vision := sz_vision (b_sizes b) + len ext \<rparr> \<rparr>)
      else if contains ''.ffn.experts.'' name then place_expert cfg name ext b
      else
        (case parse_engram_table name of
           Some (layer, kind) \<Rightarrow> place_engram layer kind ext entry b
         | None \<Rightarrow>
             (if b_core b name \<noteq> None then Inl (EInvalid ''duplicate tensor'')
              else Inr (b\<lparr> b_sizes := (b_sizes b)\<lparr> sz_core := sz_core (b_sizes b) + len ext \<rparr>,
                b_core := (b_core b)(name \<mapsto> \<lparr> ct_dtype = dt, ct_shape = te_shape entry, ct_extent = ext \<rparr>) \<rparr>))))"

text \<open>The loop of \<open>Build::shard\<close> over the header's tensors; \<open>None\<close> is a value that is not a
  tensor entry.\<close>

fun place_all ::
  "model_config \<Rightarrow> (string \<rightharpoonup> string) \<Rightarrow> nat \<Rightarrow> string \<Rightarrow> nat \<Rightarrow> nat \<Rightarrow>
     (string \<times> tensor_entry option) list \<Rightarrow> build \<Rightarrow> store_error + build" where
  "place_all cfg wm sh name data_start file_len [] b = Inr b"
| "place_all cfg wm sh name data_start file_len ((tensor, value) # rest) b =
     (if tensor = ''__metadata__'' then place_all cfg wm sh name data_start file_len rest b
      else
        (case value of
           None \<Rightarrow> Inl (EInvalid ''not a tensor entry'')
         | Some entry \<Rightarrow>
             (if wm tensor \<noteq> Some name then Inl (EInvalid ''the index does not name this shard'')
              else
                and_then (check_extent sh entry data_start file_len) (\<lambda>(dt, ext).
                and_then (place cfg tensor dt entry ext (b\<lparr> b_seen := b_seen b + 1 \<rparr>)) (\<lambda>b.
                place_all cfg wm sh name data_start file_len rest b)))))"

definition le_to_nat :: "bytes \<Rightarrow> nat" where
  "le_to_nat bs = be_to_nat (rev bs)"

definition build_shard ::
  "(bytes \<Rightarrow> (string \<times> tensor_entry option) list option) \<Rightarrow> (string \<rightharpoonup> bytes) \<Rightarrow>
     model_config \<Rightarrow> (string \<rightharpoonup> string) \<Rightarrow> nat \<Rightarrow> string \<Rightarrow> build \<Rightarrow> store_error + build" where
  "build_shard parse_header files cfg wm sh name b =
     (case files name of
        None \<Rightarrow> Inl (EIo ''open'')
      | Some content \<Rightarrow>
          (if length content < 8 then Inl (EIo ''read'')
           else
             let header_len = le_to_nat (take 8 content) in
             if header_len > MAX_JSON_BYTES then Inl (EInvalid ''header exceeds limit'')
             else if 8 + header_len > length content then Inl (EInvalid ''header runs past end of file'')
             else
               (case parse_header (take header_len (drop 8 content)) of
                  None \<Rightarrow> Inl (EInvalid ''json'')
                | Some tensors \<Rightarrow>
                    place_all cfg wm sh name (8 + header_len) (length content) tensors b)))"

definition unsafe_shard_name :: "string \<Rightarrow> bool" where
  "unsafe_shard_name name \<longleftrightarrow>
     name = [] \<or> CHR ''/'' \<in> set name \<or> CHR 0x5C \<in> set name \<or> name = ''..'' \<or> name = ''.''"

fun build_shards ::
  "(bytes \<Rightarrow> (string \<times> tensor_entry option) list option) \<Rightarrow> (string \<rightharpoonup> bytes) \<Rightarrow>
     model_config \<Rightarrow> (string \<rightharpoonup> string) \<Rightarrow> (nat \<times> string) list \<Rightarrow> build \<Rightarrow> store_error + build" where
  "build_shards parse_header files cfg wm [] b = Inr b"
| "build_shards parse_header files cfg wm ((sh, name) # rest) b =
     (if unsafe_shard_name name then Inl (EInvalid ''unsafe shard name'')
      else and_then (build_shard parse_header files cfg wm sh name b)
             (build_shards parse_header files cfg wm rest))"

definition finish_expert :: "extent option list \<Rightarrow> store_error + extent list" where
  "finish_expert slots = try_map (ok_or (EInvalid ''expert is missing a weight'')) slots"

definition finish_engram :: "model_config \<Rightarrow> build \<Rightarrow> nat \<times> nat \<Rightarrow> store_error + engram_table" where
  "finish_engram cfg b = (\<lambda>(layer, rows).
     (case b_engram b layer of
        Some (Some (w, w_rows), Some (s, s_rows)) \<Rightarrow>
          (if rows = 0 \<or> w_rows \<noteq> rows \<or> s_rows \<noteq> rows
           then Inl (EInvalid ''engram table does not have the configured rows'')
           else if len w \<noteq> rows * engram_head_dim cfg mod 2 ^ 64
           then Inl (EInvalid ''engram rows are not engram_head_dim wide'')
           else Inr \<lparr> tbl_layer = layer, tbl_rows = rows, tbl_weight = w, tbl_scale = s \<rparr>)
      | _ \<Rightarrow> Inl (EInvalid ''layer is missing its engram table'')))"

definition initial_build :: "model_config \<Rightarrow> build" where
  "initial_build cfg =
     \<lparr> b_sizes = \<lparr> sz_core = 0, sz_experts = 0, sz_engram = 0, sz_mtp = 0, sz_vision = 0 \<rparr>,
       b_core = Map.empty,
       b_experts = replicate (n_layers cfg * n_routed_experts cfg mod 2 ^ 64) (replicate EXPERT_EXTENTS None),
       b_engram = Map.empty, b_seen = 0 \<rparr>"

text \<open>
  \<open>Catalog::open\<close> after both JSON files are parsed; \<open>weight_map\<close> is the index in key order, so its
  sorted distinct values are the shard names in the order of the \<^verbatim>\<open>BTreeSet\<close>.
\<close>

text \<open>The \<^verbatim>\<open>u64\<close> sum of an expert's extents, which wraps in a release build.\<close>

definition slot_len :: "extent list \<Rightarrow> nat" where
  "slot_len es = fold (\<lambda>e n. wadd n (len e)) es 0"

definition catalog_open ::
  "(bytes \<Rightarrow> (string \<times> tensor_entry option) list option) \<Rightarrow> (string \<rightharpoonup> bytes) \<Rightarrow>
     model_config \<Rightarrow> (string \<times> string) list \<Rightarrow> store_error + catalog" where
  "catalog_open parse_header files cfg weight_map =
     (if length (engram_layer_ids cfg) \<noteq> length (engram_num_embeddings cfg)
      then Inl (EInvalid ''engram_layer_ids and engram_num_embeddings differ in length'')
      else
        let names = sort_key (map of_char :: string \<Rightarrow> nat list) (remdups (map snd weight_map)) in
        if length names > 65535 then Inl (EInvalid ''too many shards'')
        else
          and_then (build_shards parse_header files cfg (map_of weight_map)
                     (enumerate 0 names) (initial_build cfg)) (\<lambda>b.
          if b_seen b \<noteq> length weight_map then Inl (EInvalid ''tensor count'')
          else
            and_then (try_map finish_expert (b_experts b)) (\<lambda>experts.
            and_then (try_map (finish_engram cfg b)
                       (zip (engram_layer_ids cfg) (engram_num_embeddings cfg))) (\<lambda>engram.
            Inr \<lparr> cat_config = cfg, cat_shards = names, cat_sizes = b_sizes b,
                  expert_slot = fold max (map slot_len experts) 0,
                  cat_core = b_core b, cat_engram = engram, cat_experts = experts \<rparr>))))"

definition catalog_expert :: "catalog \<Rightarrow> nat \<Rightarrow> nat \<Rightarrow> extent list option" where
  "catalog_expert c layer expert =
     (if expert \<ge> n_routed_experts (cat_config c) then None
      else case checked_mul 64 layer (n_routed_experts (cat_config c)) of
             None \<Rightarrow> None
           | Some base \<Rightarrow>
               let i = (base + expert) mod 2 ^ 64 in
               if i < length (cat_experts c) then Some (cat_experts c ! i) else None)"


section \<open>Every extent of a catalog lies in its file\<close>

definition extent_ok :: "(string \<rightharpoonup> bytes) \<Rightarrow> string list \<Rightarrow> extent \<Rightarrow> bool" where
  "extent_ok files names e \<longleftrightarrow>
     shard e < length names \<and> offset e + len e < 2 ^ 64 \<and>
     (\<exists>content. files (names ! shard e) = Some content \<and> offset e + len e \<le> length content)"

definition build_ok :: "(extent \<Rightarrow> bool) \<Rightarrow> nat \<Rightarrow> build \<Rightarrow> bool" where
  "build_ok P n b \<longleftrightarrow>
     length (b_experts b) = n \<and>
     (\<forall>i < n. length (b_experts b ! i) = EXPERT_EXTENTS \<and>
        (\<forall>k < EXPERT_EXTENTS. pred_option P (b_experts b ! i ! k))) \<and>
     (\<forall>name. pred_option (P \<circ> ct_extent) (b_core b name)) \<and>
     (\<forall>layer w s. b_engram b layer = Some (w, s) \<longrightarrow>
        pred_option (P \<circ> fst) w \<and> pred_option (P \<circ> fst) s)"

lemma check_extent_ok:
  assumes "check_extent sh entry data_start file_len = Inr (dt, e)"
  shows "shard e = sh \<and> offset e + len e < 2 ^ 64 \<and> offset e + len e \<le> file_len \<and>
    checked_product (dtype_bytes dt) (te_shape entry) = Some (len e)"
  using assms unfolding check_extent_def checked_add_def Let_def
  by (auto split: option.splits if_splits)

lemma build_ok_expert:
  "build_ok P n b \<Longrightarrow> P e \<Longrightarrow>
   build_ok P n (b\<lparr> b_experts := (b_experts b)[i := (b_experts b ! i)[slot := Some e]] \<rparr>)"
  by (auto simp: build_ok_def nth_list_update_if)

lemma build_ok_engram:
  "build_ok P n b \<Longrightarrow> pred_option (P \<circ> fst) w \<Longrightarrow> pred_option (P \<circ> fst) s \<Longrightarrow>
   build_ok P n (b\<lparr> b_sizes := z, b_engram := (b_engram b)(l \<mapsto> (w, s)) \<rparr>)"
  by (simp add: build_ok_def)

lemma build_ok_core:
  "build_ok P n b \<Longrightarrow> P (ct_extent t) \<Longrightarrow>
   build_ok P n (b\<lparr> b_sizes := z, b_core := (b_core b)(name \<mapsto> t) \<rparr>)"
  by (simp add: build_ok_def)

lemma build_ok_ignores [simp]:
  "build_ok P n (b\<lparr> b_sizes := z \<rparr>) = build_ok P n b"
  "build_ok P n (b\<lparr> b_seen := k \<rparr>) = build_ok P n b"
  by (simp_all add: build_ok_def)

lemma place_expert_ok:
  "place_expert cfg name e b = Inr b' \<Longrightarrow> build_ok P n b \<Longrightarrow> P e \<Longrightarrow> build_ok P n b'"
  unfolding place_expert_def
  by (auto simp: Let_def build_ok_expert split: option.splits prod.splits if_splits)

lemma place_engram_ok:
  assumes "place_engram layer kind e entry b = Inr b'" "build_ok P n b" "P e"
  shows "build_ok P n b'"
proof -
  obtain w s where ws: "(case b_engram b layer of None \<Rightarrow> (None, None) | Some p \<Rightarrow> p) = (w, s)"
    by fastforce
  have "pred_option (P \<circ> fst) w" "pred_option (P \<circ> fst) s"
    using assms(2) ws by (auto simp: build_ok_def split: option.splits)
  then show ?thesis
    using assms unfolding place_engram_def Let_def ws
    by (auto split: if_splits intro!: build_ok_engram)
qed

lemma place_ok:
  assumes "place cfg name dt entry e b = Inr b'" "build_ok P n b" "P e"
  shows "build_ok P n b'"
proof -
  consider (sizes) z where "b' = b\<lparr> b_sizes := z \<rparr>"
    | (expert) "place_expert cfg name e b = Inr b'"
    | (engram) layer kind where "place_engram layer kind e entry b = Inr b'"
    | (core) z t where "b' = b\<lparr> b_sizes := z, b_core := (b_core b)(name \<mapsto> t) \<rparr>" "ct_extent t = e"
    using assms(1) unfolding place_def
    by (simp split: if_splits option.splits prod.splits) (metis core_tensor.select_convs(3))+
  then show ?thesis
    using assms(2,3) by cases (auto intro: place_expert_ok place_engram_ok build_ok_core)
qed

lemma place_all_ok:
  assumes "\<And>e. shard e = sh \<Longrightarrow> offset e + len e < 2 ^ 64 \<Longrightarrow> offset e + len e \<le> file_len \<Longrightarrow> P e"
  shows "place_all cfg wm sh name data_start file_len ts b = Inr b' \<Longrightarrow> build_ok P n b \<Longrightarrow> build_ok P n b'"
proof (induction ts arbitrary: b)
  case (Cons t rest)
  obtain tensor v where t: "t = (tensor, v)" by fastforce
  show ?case
  proof (cases "tensor = ''__metadata__''")
    case True
    then show ?thesis using Cons t by simp
  next
    case False
    then obtain entry dt e b1 where *: "v = Some entry"
      "check_extent sh entry data_start file_len = Inr (dt, e)"
      "place cfg tensor dt entry e (b\<lparr> b_seen := b_seen b + 1 \<rparr>) = Inr b1"
      "place_all cfg wm sh name data_start file_len rest b1 = Inr b'"
      using Cons.prems(1) t by (auto simp: and_then_eq_Inr split: option.splits if_splits)
    have "P e" using check_extent_ok [OF *(2)] assms by simp
    then have "build_ok P n b1" using place_ok [OF *(3), of P n] Cons.prems(2) by simp
    then show ?thesis using Cons.IH *(4) by blast
  qed
qed simp

lemma build_shard_ok:
  assumes "build_shard ph files cfg wm sh name b = Inr b'" "build_ok (extent_ok files names) n b"
    and "sh < length names" "names ! sh = name"
  shows "build_ok (extent_ok files names) n b'"
proof -
  obtain content ds ts where *: "files name = Some content"
    "place_all cfg wm sh name ds (length content) ts b = Inr b'"
    using assms(1) unfolding build_shard_def Let_def by (auto split: option.splits if_splits)
  have "extent_ok files names e"
    if "shard e = sh" "offset e + len e < 2 ^ 64" "offset e + len e \<le> length content" for e
    using that assms(3,4) *(1) by (simp add: extent_ok_def)
  then show ?thesis using place_all_ok [OF _ *(2)] assms(2) by blast
qed

lemma build_shards_ok:
  assumes "build_shards ph files cfg wm ns b = Inr b'" "build_ok (extent_ok files names) n b"
    and "\<forall>(i, name) \<in> set ns. i < length names \<and> names ! i = name"
  shows "build_ok (extent_ok files names) n b' \<and> (\<forall>(i, name) \<in> set ns. \<not> unsafe_shard_name name)"
  using assms
proof (induction ns arbitrary: b)
  case (Cons x ns)
  obtain i name where x: "x = (i, name)" by fastforce
  from Cons.prems(1) obtain b1 where b1: "build_shard ph files cfg wm i name b = Inr b1"
    "build_shards ph files cfg wm ns b1 = Inr b'" "\<not> unsafe_shard_name name"
    by (auto simp: x and_then_eq_Inr split: if_splits)
  have "build_ok (extent_ok files names) n b1"
    using build_shard_ok [OF b1(1)] Cons.prems x by simp
  then show ?case using Cons.IH [OF b1(2)] Cons.prems(3) b1(3) x by simp
qed simp

lemma initial_build_ok: "build_ok P (n_layers cfg * n_routed_experts cfg mod 2 ^ 64) (initial_build cfg)"
  by (simp add: build_ok_def initial_build_def)

lemma finish_expert_ok:
  "finish_expert slots = Inr es \<Longrightarrow> slots = map Some es"
  unfolding finish_expert_def try_map_Inr
  by (auto simp: list_all2_conv_all_nth intro: nth_equalityI)

lemma le_fold_max: "x \<in> set xs \<Longrightarrow> x \<le> fold max xs (m :: nat)"
proof (induction xs arbitrary: m)
  case (Cons y xs)
  have "k \<le> fold max xs k" for k :: nat
    by (induction xs arbitrary: k) (auto intro: le_trans [OF max.cobounded2])
  then show ?case using Cons by (auto intro: le_trans [OF max.cobounded1])
qed simp

text \<open>What \<open>Catalog::open\<close> has built when it succeeds.\<close>

lemma slot_len_mod: "slot_len es = sum_list (map len es) mod 2 ^ 64"
proof -
  have "fold (\<lambda>e n. wadd n (len e)) es n = (n + sum_list (map len es)) mod 2 ^ 64" if "n < 2 ^ 64" for n
    using that
  proof (induction es arbitrary: n)
    case (Cons e es)
    have "fold (\<lambda>e n. wadd n (len e)) es (wadd n (len e)) = (wadd n (len e) + sum_list (map len es)) mod 2 ^ 64"
      by (rule Cons.IH) (simp add: wadd_def)
    then show ?case by (simp add: wadd_def mod_add_left_eq add.assoc)
  qed simp
  then show ?thesis by (simp add: slot_len_def)
qed

lemma slot_len_exact: "sum_list (map len es) < 2 ^ 64 \<Longrightarrow> slot_len es = sum_list (map len es)"
  by (simp add: slot_len_mod)

lemma catalog_open_build:
  assumes "catalog_open ph files cfg wm = Inr c"
  obtains b where
    "build_ok (extent_ok files (cat_shards c)) (n_layers cfg * n_routed_experts cfg mod 2 ^ 64) b"
    "cat_core c = b_core b" "b_experts b = map (map Some) (cat_experts c)"
    "try_map (finish_engram cfg b) (zip (engram_layer_ids cfg) (engram_num_embeddings cfg)) = Inr (cat_engram c)"
    "cat_config c = cfg" "b_seen b = length wm" "\<forall>n \<in> set (cat_shards c). \<not> unsafe_shard_name n"
    "\<forall>es \<in> set (cat_experts c). slot_len es \<le> expert_slot c"
proof -
  let ?names = "sort_key (map of_char :: string \<Rightarrow> nat list) (remdups (map snd wm))"
  from assms obtain b experts where b: "build_shards ph files cfg (map_of wm) (enumerate 0 ?names)
      (initial_build cfg) = Inr b" "b_seen b = length wm" "cat_shards c = ?names"
    "try_map finish_expert (b_experts b) = Inr experts" "cat_experts c = experts"
    "try_map (finish_engram cfg b) (zip (engram_layer_ids cfg) (engram_num_embeddings cfg)) = Inr (cat_engram c)"
    "cat_config c = cfg" "cat_core c = b_core b"
    "expert_slot c = fold max (map slot_len experts) 0"
    unfolding catalog_open_def Let_def by (auto simp: and_then_eq_Inr split: if_splits)
  have all: "\<forall>(i, name) \<in> set (enumerate 0 ?names). i < length ?names \<and> ?names ! i = name"
    by (auto simp: in_set_enumerate_eq)
  note ok = build_shards_ok [OF b(1) initial_build_ok all]
  have "\<forall>n \<in> set ?names. \<not> unsafe_shard_name n"
  proof
    fix n assume "n \<in> set ?names"
    then have "n \<in> snd ` set (enumerate 0 ?names)"
      by (simp only: list.set_map [symmetric] map_snd_enumerate)
    then obtain i where "(i, n) \<in> set (enumerate 0 ?names)" by force
    then show "\<not> unsafe_shard_name n" using ok by auto
  qed
  moreover have "b_experts b = map (map Some) experts"
    using b(4) finish_expert_ok unfolding try_map_Inr
    by (auto simp: list_all2_conv_all_nth intro: nth_equalityI)
  moreover have "\<forall>es \<in> set experts. slot_len es \<le> expert_slot c"
    unfolding b(9) by (auto intro!: le_fold_max)
  ultimately show ?thesis using that [of b] ok b by simp
qed

lemma row_extent_inside:
  assumes "row < rows" "offset t + len t < 2 ^ 64"
  shows "offset t \<le> offset (row_extent t rows row) \<and>
    offset (row_extent t rows row) + len (row_extent t rows row) \<le> offset t + len t \<and>
    offset (row_extent t rows row) = offset t + row * (len t div rows)"
proof -
  have "(row + 1) * (len t div rows) \<le> rows * (len t div rows)" using assms by (intro mult_le_mono1) simp
  also have "\<dots> \<le> len t" by simp
  finally have le: "row * (len t div rows) + len t div rows \<le> len t" by simp
  then have "offset t + row * (len t div rows) < 2 ^ 64" using assms by linarith
  then show ?thesis using le by (simp add: row_extent_def Let_def)
qed

lemma row_extent_ok:
  "row < rows \<Longrightarrow> extent_ok files names t \<Longrightarrow> extent_ok files names (row_extent t rows row)"
  using row_extent_inside [of row rows t]
  by (auto simp: extent_ok_def row_extent_def Let_def intro: le_trans)

lemma finish_engram_ok:
  assumes "finish_engram cfg b (layer, rows) = Inr t" "build_ok P n b"
  shows "P (tbl_weight t) \<and> P (tbl_scale t) \<and> tbl_layer t = layer \<and> tbl_rows t = rows \<and> 0 < rows \<and>
    len (tbl_weight t) = rows * engram_head_dim cfg mod 2 ^ 64"
proof -
  obtain w s where *: "b_engram b layer = Some (Some (w, rows), Some (s, rows))" "0 < rows"
    "t = \<lparr> tbl_layer = layer, tbl_rows = rows, tbl_weight = w, tbl_scale = s \<rparr>"
    "len w = rows * engram_head_dim cfg mod 2 ^ 64"
    using assms(1) unfolding finish_engram_def by (auto split: option.splits if_splits)
  moreover have "pred_option (P \<circ> fst) (Some (w, rows)) \<and> pred_option (P \<circ> fst) (Some (s, rows))"
    using assms(2) *(1) unfolding build_ok_def by blast
  ultimately show ?thesis by simp
qed

section \<open>Properties\<close>

text \<open>
  C28: A catalog that opens is safe to read from, whatever the model directory held: every extent
  of every expert, core tensor and engram row lies inside the file of its shard without wrapping,
  every expert has its six extents, and no shard name leaves the directory.  An expert fits the slot size when the
  lengths of its extents add up to less than \<open>2 ^ 64\<close>; the code's sum wraps, and nothing else bounds it.
\<close>

theorem catalog_open_sound:
  assumes "catalog_open ph files cfg wm = Inr c"
  shows "(\<forall>es \<in> set (cat_experts c). length es = EXPERT_EXTENTS \<and>
            (sum_list (map len es) < 2 ^ 64 \<longrightarrow> sum_list (map len es) \<le> expert_slot c) \<and>
            (\<forall>e \<in> set es. extent_ok files (cat_shards c) e)) \<and>
    (\<forall>name t. cat_core c name = Some t \<longrightarrow> extent_ok files (cat_shards c) (ct_extent t)) \<and>
    (\<forall>t \<in> set (cat_engram c). \<forall>row w s. table_row t row = Some (w, s) \<longrightarrow>
       extent_ok files (cat_shards c) w \<and> extent_ok files (cat_shards c) s) \<and>
    (\<forall>n \<in> set (cat_shards c). \<not> unsafe_shard_name n)"
proof -
  let ?P = "extent_ok files (cat_shards c)"
  obtain b where b: "build_ok ?P (n_layers cfg * n_routed_experts cfg mod 2 ^ 64) b"
    "cat_core c = b_core b" "b_experts b = map (map Some) (cat_experts c)"
    "try_map (finish_engram cfg b) (zip (engram_layer_ids cfg) (engram_num_embeddings cfg)) = Inr (cat_engram c)"
    "\<forall>n \<in> set (cat_shards c). \<not> unsafe_shard_name n"
    "\<forall>es \<in> set (cat_experts c). slot_len es \<le> expert_slot c"
    using assms by (rule catalog_open_build)
  have "length es = EXPERT_EXTENTS \<and> (\<forall>e \<in> set es. ?P e)" if es: "es \<in> set (cat_experts c)" for es
  proof -
    obtain i where i: "i < length (cat_experts c)" "es = cat_experts c ! i"
      using es by (auto simp: in_set_conv_nth)
    then have "length es = EXPERT_EXTENTS \<and> (\<forall>k < EXPERT_EXTENTS. pred_option ?P (map Some es ! k))"
      using b(1,3) by (auto simp: build_ok_def)
    then show ?thesis by (auto simp: in_set_conv_nth)
  qed
  moreover have "?P (ct_extent t)" if "cat_core c name = Some t" for name t
    using b(1,2) that unfolding build_ok_def by (metis comp_apply option.pred_inject(2))
  moreover have "?P w \<and> ?P s" if t: "t \<in> set (cat_engram c)" and r: "table_row t row = Some (w, s)" for t row w s
  proof -
    obtain layer rows where "finish_engram cfg b (layer, rows) = Inr t"
      using try_map_mem [OF b(4) t] by auto
    from finish_engram_ok [OF this b(1)] show ?thesis
      using r by (auto simp: table_row_def row_extent_ok split: if_splits)
  qed
  ultimately show ?thesis using b(5,6) slot_len_exact by metis
qed

text \<open>A model of one layer and one expert, in one shard with an empty header and twelve bytes of data.\<close>

definition tiny_config :: model_config where
  "tiny_config = \<lparr> n_layers = 1, n_routed_experts = 1, n_activated_experts = 1, head_dim = 8,
     index_head_dim = 4, rope_head_dim = 4, kv_source_layers = [], compress_ratios = [],
     engram_layer_ids = [], engram_num_embeddings = [], engram_head_dim = 4 \<rparr>"

definition tiny_tensor :: "string \<Rightarrow> string \<Rightarrow> nat \<Rightarrow> string \<times> tensor_entry option" where
  "tiny_tensor m k i = (''layers.0.ffn.experts.0.'' @ m @ ''.'' @ k,
     Some \<lparr> te_dtype = ''I8'', te_shape = [2], te_begin = 2 * i, te_end = 2 * i + 2 \<rparr>)"

definition tiny_header :: "(string \<times> tensor_entry option) list" where
  "tiny_header = [tiny_tensor ''w1'' ''weight'' 0, tiny_tensor ''w1'' ''scale'' 1,
     tiny_tensor ''w2'' ''weight'' 2, tiny_tensor ''w2'' ''scale'' 3,
     tiny_tensor ''w3'' ''weight'' 4, tiny_tensor ''w3'' ''scale'' 5]"

definition tiny_files :: "string \<rightharpoonup> bytes" where
  "tiny_files = [''m'' \<mapsto> replicate 20 0]"

definition tiny_catalog :: "store_error + catalog" where
  "tiny_catalog = catalog_open (\<lambda>_. Some tiny_header) tiny_files tiny_config
     (map (\<lambda>(n, _). (n, ''m'')) tiny_header)"

lemma tiny_catalog_opens:
  "\<exists>c. tiny_catalog = Inr c \<and> cat_experts c \<noteq> [] \<and> (\<forall>es \<in> set (cat_experts c). sum_list (map len es) < 2 ^ 64)"
proof -
  have "case_sum (\<lambda>_. False) (\<lambda>c. cat_experts c \<noteq> [] \<and> list_all (\<lambda>es. sum_list (map len es) < 2 ^ 64) (cat_experts c)) tiny_catalog"
    by code_simp
  then show ?thesis by (auto simp: list_all_iff split: sum.splits)
qed

lemma catalog_open_sound_witness:
  "\<exists>c es. tiny_catalog = Inr c \<and> es \<in> set (cat_experts c) \<and> length es = EXPERT_EXTENTS \<and>
     sum_list (map len es) \<le> expert_slot c \<and> extent_ok tiny_files (cat_shards c) (hd es)"
proof -
  obtain c where c: "tiny_catalog = Inr c" "cat_experts c \<noteq> []" "\<forall>es \<in> set (cat_experts c). sum_list (map len es) < 2 ^ 64"
    using tiny_catalog_opens by blast
  then have mem: "hd (cat_experts c) \<in> set (cat_experts c)" by simp
  note sound = catalog_open_sound [OF c(1) [unfolded tiny_catalog_def]]
  then have six: "length (hd (cat_experts c)) = EXPERT_EXTENTS" using mem by blast
  then have "hd (hd (cat_experts c)) \<in> set (hd (cat_experts c))"
    by (intro hd_in_set) (auto simp: EXPERT_EXTENTS_def)
  then show ?thesis using c(1,3) mem sound six by blast
qed

text \<open>
  The expert directory is complete: when the configured expert count fits in 64 bits, the
  catalog has an entry for every configured expert and for nothing else, at the index that orders
  the experts by layer.
\<close>

theorem catalog_expert_total:
  assumes "catalog_open ph files cfg wm = Inr c" "n_layers cfg * n_routed_experts cfg < 2 ^ 64"
    and "(layer + 1) * n_routed_experts cfg \<le> 2 ^ 64"
  shows "length (cat_experts c) = n_layers cfg * n_routed_experts cfg \<and>
    catalog_expert c layer expert =
      (if layer < n_layers cfg \<and> expert < n_routed_experts cfg
       then Some (cat_experts c ! (layer * n_routed_experts cfg + expert)) else None)"
proof -
  let ?m = "n_routed_experts cfg"
  obtain b where b: "build_ok (extent_ok files (cat_shards c)) (n_layers cfg * ?m mod 2 ^ 64) b"
    "b_experts b = map (map Some) (cat_experts c)" "cat_config c = cfg"
    using assms(1) by (rule catalog_open_build)
  have n: "length (cat_experts c) = n_layers cfg * ?m" using b assms(2) by (simp add: build_ok_def)
  have "layer * ?m + expert < n_layers cfg * ?m \<longleftrightarrow> layer < n_layers cfg" if "expert < ?m"
  proof
    assume "layer < n_layers cfg"
    then have "(layer + 1) * ?m \<le> n_layers cfg * ?m" by (intro mult_le_mono1) simp
    then show "layer * ?m + expert < n_layers cfg * ?m" using that by simp
  next
    assume "layer * ?m + expert < n_layers cfg * ?m"
    then have "layer * ?m < n_layers cfg * ?m" by linarith
    then show "layer < n_layers cfg" by simp
  qed
  moreover have "layer * ?m + expert < 2 ^ 64" if "expert < ?m" using assms(3) that by simp
  ultimately show ?thesis
    using n b(3) by (auto simp: catalog_expert_def checked_mul_def Let_def)
qed

lemma catalog_expert_total_witness:
  "\<exists>c. tiny_catalog = Inr c \<and> catalog_expert c 0 0 = Some (cat_experts c ! 0)"
proof -
  obtain c where c: "tiny_catalog = Inr c" using tiny_catalog_opens by blast
  have "n_layers tiny_config = 1" "n_routed_experts tiny_config = 1" by (simp_all add: tiny_config_def)
  then show ?thesis
    using c catalog_expert_total [OF c [unfolded tiny_catalog_def], of 0 0] by auto
qed

end
