(* ===== verification/Plan.thy ===== *)
theory Plan
  imports Catalog
begin

text \<open>
  The fixed memory layout in front of the model drive (\<^verbatim>\<open>chatty-metal/src/plan.rs\<close>): KV cache
  size, VRAM and RAM expert slots.  The configuration is untrusted, so the \<^verbatim>\<open>u64\<close> sums and
  products of the source are written with their wrap-around.
\<close>

definition GIB :: nat where "GIB = 2 ^ 30"
definition MAX_CONTEXT :: nat where "MAX_CONTEXT = 2 ^ 20"
definition KV_ELEMENT_BYTES :: nat where "KV_ELEMENT_BYTES = 2"
definition TOKEN_CACHE_BYTES :: nat where "TOKEN_CACHE_BYTES = 8"
definition ROPE_ELEMENT_BYTES :: nat where "ROPE_ELEMENT_BYTES = 8"


record budget =
  bud_vram :: nat
  bud_ram :: nat
  vram_reserved :: nat
  ram_reserved :: nat
  bud_engram_ram :: nat
  bud_context :: nat

definition budget_default :: budget where
  "budget_default =
     \<lparr> bud_vram = 25753026560, bud_ram = 62 * GIB, vram_reserved = GIB, ram_reserved = 4 * GIB,
       bud_engram_ram = 12 * GIB, bud_context = MAX_CONTEXT \<rparr>"

record plan =
  pl_core :: nat
  pl_kv :: nat
  vram_expert_slots :: nat
  ram_expert_slots :: nat
  pl_engram_ram :: nat
  pl_expert_total :: nat
  pl_engram_total :: nat
  pl_drive_total :: nat

text \<open>The loop over the KV source layers of \<^verbatim>\<open>kv_bytes\<close>; \<^verbatim>\<open>get(layer)\<close> is \<open>None\<close> past the end.\<close>

fun kv_layers :: "model_config \<Rightarrow> nat \<Rightarrow> nat list \<Rightarrow> nat \<Rightarrow> store_error + nat" where
  "kv_layers cfg context [] tot = Inr tot"
| "kv_layers cfg context (layer # rest) tot =
     (let ratio = (if layer < length (compress_ratios cfg) then compress_ratios cfg ! layer else 0) in
      if ratio = 0 then Inl (EInvalid ''KV source layer has no compression ratio'')
      else kv_layers cfg context rest
        (wadd tot (wmul (wmul (context div ratio) (wadd (head_dim cfg) (index_head_dim cfg))) KV_ELEMENT_BYTES)))"

definition kv_bytes :: "model_config \<Rightarrow> nat \<Rightarrow> store_error + nat" where
  "kv_bytes cfg context =
     kv_layers cfg context (kv_source_layers cfg)
       (wadd (wmul context TOKEN_CACHE_BYTES)
             (wmul (wmul context (rope_head_dim cfg div 2)) ROPE_ELEMENT_BYTES))"

definition plan_new :: "catalog \<Rightarrow> budget \<Rightarrow> store_error + plan" where
  "plan_new c b =
     (if bud_context b = 0 \<or> bud_context b > MAX_CONTEXT then Inl (EInvalid ''context'')
      else if expert_slot c = 0 then Inl (EInvalid ''model has no routed experts'')
      else
        let sz = cat_sizes c in
        and_then (kv_bytes (cat_config c) (bud_context b)) (\<lambda>kv.
        let needed = wadd (wadd (sz_core sz) kv) (vram_reserved b) in
        and_then (ok_or (EInvalid ''bytes of VRAM'') (checked_sub (bud_vram b) needed)) (\<lambda>vram_free.
        let needed = wadd (ram_reserved b) (bud_engram_ram b) in
        and_then (ok_or (EInvalid ''bytes of RAM'') (checked_sub (bud_ram b) needed)) (\<lambda>ram_free.
        let expert_total = length (cat_experts c);
            vram_slots = min (vram_free div expert_slot c) expert_total;
            ram_slots = min (ram_free div expert_slot c) (expert_total - vram_slots)
        in Inr \<lparr> pl_core = sz_core sz, pl_kv = kv, vram_expert_slots = vram_slots,
                 ram_expert_slots = ram_slots, pl_engram_ram = min (bud_engram_ram b) (sz_engram sz),
                 pl_expert_total = expert_total, pl_engram_total = sz_engram sz,
                 pl_drive_total = wadd (wadd (wadd (wadd (sz_core sz) (sz_experts sz)) (sz_engram sz))
                   (sz_mtp sz)) (sz_vision sz) \<rparr>))))"

lemma plan_new_cases:
  assumes "plan_new c b = Inr p"
  obtains "0 < bud_context b" "bud_context b \<le> MAX_CONTEXT" "0 < expert_slot c"
    "kv_bytes (cat_config c) (bud_context b) = Inr (pl_kv p)" "pl_core p = sz_core (cat_sizes c)"
    "wadd (wadd (pl_core p) (pl_kv p)) (vram_reserved b) \<le> bud_vram b"
    "wadd (ram_reserved b) (bud_engram_ram b) \<le> bud_ram b"
    "vram_expert_slots p = min ((bud_vram b - wadd (wadd (pl_core p) (pl_kv p)) (vram_reserved b)) div expert_slot c)
       (length (cat_experts c))"
    "ram_expert_slots p = min ((bud_ram b - wadd (ram_reserved b) (bud_engram_ram b)) div expert_slot c)
       (length (cat_experts c) - vram_expert_slots p)"
    "pl_engram_ram p \<le> bud_engram_ram b"
  using assms unfolding plan_new_def Let_def checked_sub_def
  by (auto simp: and_then_eq_Inr split: if_splits)

lemma div_mult_le_sub: "needed \<le> tot \<Longrightarrow> (tot - needed) div k * k + needed \<le> (tot :: nat)"
  using div_times_less_eq_dividend [of "tot - needed" k] by linarith

lemma min_div_mult_le: "min (a div k) n * k \<le> (a :: nat)"
  using div_times_less_eq_dividend [of a k] by (metis le_trans min.cobounded1 mult_le_mono1)

text \<open>
  A plan never over-commits: core weights, KV cache, the reserve and all VRAM expert slots
  together fit the VRAM budget, the RAM slots with their reserves fit the RAM budget, and the two
  tiers together never hold more slots than there are experts.
\<close>

theorem plan_no_overcommit:
  assumes "plan_new c b = Inr p"
    and "pl_core p + pl_kv p + vram_reserved b < 2 ^ 64" "ram_reserved b + bud_engram_ram b < 2 ^ 64"
  shows "pl_core p + pl_kv p + vram_reserved b + vram_expert_slots p * expert_slot c \<le> bud_vram b \<and>
    ram_reserved b + pl_engram_ram p + ram_expert_slots p * expert_slot c \<le> bud_ram b \<and>
    vram_expert_slots p + ram_expert_slots p \<le> length (cat_experts c)"
  using assms(1)
proof (rule plan_new_cases)
  let ?v = "pl_core p + pl_kv p + vram_reserved b" and ?r = "ram_reserved b + bud_engram_ram b"
  assume *: "wadd (wadd (pl_core p) (pl_kv p)) (vram_reserved b) \<le> bud_vram b"
    "wadd (ram_reserved b) (bud_engram_ram b) \<le> bud_ram b"
    "vram_expert_slots p = min ((bud_vram b - wadd (wadd (pl_core p) (pl_kv p)) (vram_reserved b)) div expert_slot c)
       (length (cat_experts c))"
    "ram_expert_slots p = min ((bud_ram b - wadd (ram_reserved b) (bud_engram_ram b)) div expert_slot c)
       (length (cat_experts c) - vram_expert_slots p)"
    "pl_engram_ram p \<le> bud_engram_ram b"
  have w: "wadd (wadd (pl_core p) (pl_kv p)) (vram_reserved b) = ?v" "wadd (ram_reserved b) (bud_engram_ram b) = ?r"
    using assms(2,3) by (simp_all add: wadd_def)
  have "vram_expert_slots p * expert_slot c \<le> bud_vram b - ?v"
    "ram_expert_slots p * expert_slot c \<le> bud_ram b - ?r"
    using *(3,4) min_div_mult_le unfolding w by metis+
  then show ?thesis using * unfolding w by linarith
qed

lemma plan_no_overcommit_witness:
  "\<exists>c p. tiny_catalog = Inr c \<and> plan_new c budget_default = Inr p \<and>
     vram_expert_slots p + ram_expert_slots p \<le> length (cat_experts c)"
proof -
  obtain c where c: "tiny_catalog = Inr c" using tiny_catalog_opens by blast
  have "case tiny_catalog of Inl _ \<Rightarrow> False | Inr c \<Rightarrow>
      (case plan_new c budget_default of Inl _ \<Rightarrow> False
       | Inr p \<Rightarrow> pl_core p + pl_kv p + vram_reserved budget_default < 2 ^ 64 \<and>
           ram_reserved budget_default + bud_engram_ram budget_default < 2 ^ 64)"
    by code_simp
  then obtain p where "plan_new c budget_default = Inr p"
    "pl_core p + pl_kv p + vram_reserved budget_default < 2 ^ 64"
    "ram_reserved budget_default + bud_engram_ram budget_default < 2 ^ 64"
    unfolding c by (auto split: sum.splits)
  then show ?thesis using c plan_no_overcommit by blast
qed

end
