(* ===== verification/ExpertCache.thy ===== *)
theory ExpertCache
  imports Plan
begin

text \<open>
  The exclusive two-tier cache of routed experts (\<^verbatim>\<open>ExpertCache\<close> of \<^verbatim>\<open>chatty-metal/src/store.rs\<close>).
  The fields the code never changes after \<^verbatim>\<open>build\<close> are the record \<open>expert_geometry\<close>, the others
  \<open>expert_cache\<close>.  Memory is modelled slot by slot: \<open>vram_mem\<close>, \<open>ram_mem\<close> and
  \<open>host_mem\<close> hold the bytes of each slot, and \<open>unflushed\<close> the VRAM slots the CPU has written
  since the last HDP flush.  The drive and the DMA engine are parameters: \<open>rd_data\<close> gives the bytes
  of an extent, \<open>rd_fault\<close> says after how many of the requested reads the batch failed (if it
  did), and \<open>dma_ok\<close> whether a device copy of a slot succeeds.  A failed assertion, \<^verbatim>\<open>expect\<close> or
  index is the error \<open>EPanic\<close>.
\<close>

section \<open>State\<close>

definition SLOT_ALIGN :: nat where "SLOT_ALIGN = 256"
definition STAGING_SLOTS :: nat where "STAGING_SLOTS = 17"
definition PROMOTE_MIN_HITS :: nat where "PROMOTE_MIN_HITS = 2"

datatype expert_source =
  VramHit | RamPromotedToVram | RamSwappedToVram | RamStagedToHost | ColdToVram | ColdToRamAndHost |
  ColdStagedToHost

datatype expert_tier = TierVram | TierRam | TierCold

datatype residency = Cold | Ram nat | Vram nat

record expert_view =
  view_layer :: nat
  view_expert :: nat
  base_va :: nat
  view_tensors :: "nat list"
  view_source :: expert_source

record expert_stats =
  st_vram_hits :: nat
  st_ram_hits :: nat
  st_cold_misses :: nat
  st_promotions :: nat
  st_demotions :: nat
  st_bytes_read :: nat

record expert_geometry =
  geo_layers :: nat
  geo_routed :: nat
  slot_bytes :: nat
  slot_stride :: nat
  geo_extents :: "extent list list"
  sub_offsets :: "nat list list"
  vram_base_va :: nat
  vram_capacity :: nat
  ram_capacity :: nat
  host_base_va :: nat
  host_slots :: nat

record expert_cache =
  directory :: "residency list"
  routing_counts :: "nat list"
  pinned :: "bool list"
  vram_owners :: "nat option list"
  vram_ref :: "bool list"
  vram_free :: "nat list"
  vram_hand :: nat
  ram_owners :: "nat option list"
  ram_ref :: "bool list"
  ram_hits :: "nat list"
  ram_free :: "nat list"
  ram_hand :: nat
  stats :: expert_stats
  vram_mem :: "bytes list"
  ram_mem :: "bytes list"
  host_mem :: "bytes list"
  unflushed :: "nat list"

datatype slot_place = PVram nat | PRam nat | PHost nat

datatype cold_target = TVram nat | TRamAndHost nat nat | THostOnly nat

type_synonym read_op = "extent \<times> slot_place \<times> nat"

record device =
  rd_data :: "extent \<Rightarrow> bytes"
  rd_fault :: "read_op list \<Rightarrow> nat option"
  dma_ok :: "nat \<Rightarrow> nat \<Rightarrow> bool"

section \<open>Construction\<close>

fun running_offsets :: "nat \<Rightarrow> extent list \<Rightarrow> nat list" where
  "running_offsets cur [] = []"
| "running_offsets cur (e # es) = cur # running_offsets (cur + len e) es"

definition expert_geometry_new :: "catalog \<Rightarrow> plan \<Rightarrow> nat \<Rightarrow> nat \<Rightarrow> expert_geometry" where
  "expert_geometry_new c p vram_va host_va =
     \<lparr> geo_layers = n_layers (cat_config c), geo_routed = n_routed_experts (cat_config c),
       slot_bytes = expert_slot c, slot_stride = next_multiple_of (expert_slot c) SLOT_ALIGN,
       geo_extents = cat_experts c, sub_offsets = map (running_offsets 0) (cat_experts c),
       vram_base_va = vram_va, vram_capacity = vram_expert_slots p,
       ram_capacity = ram_expert_slots p, host_base_va = host_va, host_slots = STAGING_SLOTS \<rparr>"

definition expert_cache_new :: "expert_geometry \<Rightarrow> expert_cache" where
  "expert_cache_new g =
     (let n = length (geo_extents g) in
      \<lparr> directory = replicate n Cold, routing_counts = replicate n 0, pinned = replicate n False,
        vram_owners = replicate (vram_capacity g) None, vram_ref = replicate (vram_capacity g) False,
        vram_free = rev [0..<vram_capacity g], vram_hand = 0,
        ram_owners = replicate (ram_capacity g) None, ram_ref = replicate (ram_capacity g) False,
        ram_hits = replicate (ram_capacity g) 0, ram_free = rev [0..<ram_capacity g], ram_hand = 0,
        stats = \<lparr> st_vram_hits = 0, st_ram_hits = 0, st_cold_misses = 0, st_promotions = 0,
                  st_demotions = 0, st_bytes_read = 0 \<rparr>,
        vram_mem = replicate (vram_capacity g) (replicate (slot_bytes g) 0),
        ram_mem = replicate (ram_capacity g) (replicate (slot_bytes g) 0),
        host_mem = replicate (host_slots g) (replicate (slot_bytes g) 0),
        unflushed = [] \<rparr>)"

section \<open>Addresses, memory and views\<close>

definition expert_id :: "expert_geometry \<Rightarrow> nat \<Rightarrow> nat \<Rightarrow> store_error + nat" where
  "expert_id g layer expert =
     (if layer \<ge> geo_layers g \<or> expert \<ge> geo_routed g then Inl (EInvalid ''expert outside'')
      else Inr (layer * geo_routed g + expert))"

definition expert_bytes :: "expert_geometry \<Rightarrow> nat \<Rightarrow> nat" where
  "expert_bytes g eid =
     sub_offsets g ! eid ! (EXPERT_EXTENTS - 1) + len (geo_extents g ! eid ! (EXPERT_EXTENTS - 1))"

definition vram_slot_va :: "expert_geometry \<Rightarrow> nat \<Rightarrow> nat" where
  "vram_slot_va g slot = vram_base_va g + slot * slot_stride g"

definition host_slot_va :: "expert_geometry \<Rightarrow> nat \<Rightarrow> store_error + nat" where
  "host_slot_va g slot =
     (if slot < host_slots g then Inr (host_base_va g + slot * slot_stride g)
      else Inl (EPanic ''slot < self.host_slots''))"

definition make_view :: "expert_geometry \<Rightarrow> nat \<Rightarrow> nat \<Rightarrow> nat \<Rightarrow> nat \<Rightarrow> expert_source \<Rightarrow> expert_view" where
  "make_view g layer expert eid va src =
     \<lparr> view_layer = layer, view_expert = expert, base_va = va,
       view_tensors = map (\<lambda>i. va + sub_offsets g ! eid ! i) [0..<EXPERT_EXTENTS], view_source = src \<rparr>"

definition write_at :: "nat \<Rightarrow> bytes \<Rightarrow> bytes \<Rightarrow> bytes" where
  "write_at off bs buf = take off buf @ bs @ drop (off + length bs) buf"

fun mem_at :: "expert_cache \<Rightarrow> slot_place \<Rightarrow> bytes" where
  "mem_at c (PVram s) = vram_mem c ! s"
| "mem_at c (PRam s) = ram_mem c ! s"
| "mem_at c (PHost s) = host_mem c ! s"

fun write_place :: "slot_place \<Rightarrow> nat \<Rightarrow> bytes \<Rightarrow> expert_cache \<Rightarrow> expert_cache" where
  "write_place (PVram s) off bs c =
     c\<lparr> vram_mem := (vram_mem c)[s := write_at off bs (vram_mem c ! s)], unflushed := s # unflushed c \<rparr>"
| "write_place (PRam s) off bs c = c\<lparr> ram_mem := (ram_mem c)[s := write_at off bs (ram_mem c ! s)] \<rparr>"
| "write_place (PHost s) off bs c = c\<lparr> host_mem := (host_mem c)[s := write_at off bs (host_mem c ! s)] \<rparr>"

definition copy_slot :: "slot_place \<Rightarrow> slot_place \<Rightarrow> nat \<Rightarrow> expert_cache \<Rightarrow> expert_cache" where
  "copy_slot src dst n c = write_place dst 0 (take n (mem_at c src)) c"

definition push_expert_read_ops :: "expert_geometry \<Rightarrow> nat \<Rightarrow> slot_place \<Rightarrow> read_op list" where
  "push_expert_read_ops g eid pl =
     map (\<lambda>i. (geo_extents g ! eid ! i, pl, sub_offsets g ! eid ! i)) [0..<EXPERT_EXTENTS]"

definition run_op :: "device \<Rightarrow> read_op \<Rightarrow> expert_cache \<Rightarrow> expert_cache" where
  "run_op d = (\<lambda>(e, pl, off). write_place pl off (rd_data d e))"

text \<open>A failed batch leaves a prefix of its operations written; the pool may leave other parts of them, in slots that no
  expert owns.\<close>

definition read_raw :: "device \<Rightarrow> read_op list \<Rightarrow> expert_cache \<Rightarrow> (store_error + unit) \<times> expert_cache" where
  "read_raw d ops c =
     (case rd_fault d ops of
        None \<Rightarrow> (Inr (), fold (run_op d) ops c)
      | Some k \<Rightarrow> (Inl (EIo ''read''), fold (run_op d) (take k ops) c))"

definition flush_cpu_writes :: "expert_cache \<Rightarrow> expert_cache" where
  "flush_cpu_writes c = c\<lparr> unflushed := [] \<rparr>"

section \<open>Slots\<close>

definition bind_vram :: "nat \<Rightarrow> nat \<Rightarrow> expert_cache \<Rightarrow> expert_cache" where
  "bind_vram slot eid c =
     c\<lparr> vram_owners := (vram_owners c)[slot := Some eid], vram_ref := (vram_ref c)[slot := True],
        directory := (directory c)[eid := Vram slot] \<rparr>"

definition bind_ram :: "nat \<Rightarrow> nat \<Rightarrow> expert_cache \<Rightarrow> expert_cache" where
  "bind_ram slot eid c =
     c\<lparr> ram_owners := (ram_owners c)[slot := Some eid], ram_ref := (ram_ref c)[slot := True],
        ram_hits := (ram_hits c)[slot := 0], directory := (directory c)[eid := Ram slot] \<rparr>"

definition vacate_ram_slot :: "nat \<Rightarrow> expert_cache \<Rightarrow> expert_cache" where
  "vacate_ram_slot slot c =
     c\<lparr> ram_owners := (ram_owners c)[slot := None], ram_ref := (ram_ref c)[slot := False],
        ram_hits := (ram_hits c)[slot := 0], ram_free := ram_free c @ [slot] \<rparr>"

definition pop :: "nat list \<Rightarrow> (nat \<times> nat list) option" where
  "pop xs = (if xs = [] then None else Some (last xs, butlast xs))"

text \<open>
  The second-chance sweep that \<^verbatim>\<open>alloc_ram_slot\<close>, \<^verbatim>\<open>evict_vram_slot\<close> and
  \<^verbatim>\<open>select_promotable_vram_victim\<close> share: at most \<open>n\<close> probes from the hand; an unowned slot is
  returned at once, pinned owners are skipped, a reference bit is cleared and skipped, and an owner
  that \<open>accept\<close> admits is the victim.
\<close>

fun sweep ::
  "nat \<Rightarrow> nat \<Rightarrow> nat option list \<Rightarrow> bool list \<Rightarrow> (nat \<Rightarrow> bool) \<Rightarrow> bool list \<Rightarrow> nat \<Rightarrow> nat option \<times> bool list \<times> nat" where
  "sweep 0 cap owners pins accept refs hand = (None, refs, hand)"
| "sweep (Suc n) cap owners pins accept refs hand =
     (let s = hand; hand = (hand + 1) mod cap in
      case owners ! s of
        None \<Rightarrow> (Some s, refs, hand)
      | Some own \<Rightarrow>
          if pins ! own then sweep n cap owners pins accept refs hand
          else if refs ! s then sweep n cap owners pins accept (refs[s := False]) hand
          else if accept own then (Some s, refs, hand)
          else sweep n cap owners pins accept refs hand)"

definition alloc_ram_slot :: "expert_geometry \<Rightarrow> expert_cache \<Rightarrow> (store_error + nat) \<times> expert_cache" where
  "alloc_ram_slot g c =
     (case pop (ram_free c) of
        Some (slot, rest) \<Rightarrow> (Inr slot, c\<lparr> ram_free := rest \<rparr>)
      | None \<Rightarrow>
          (case sweep (ram_capacity g * 2 + 1) (ram_capacity g) (ram_owners c) (pinned c) (\<lambda>_. True)
                  (ram_ref c) (ram_hand c) of
             (None, refs, hand) \<Rightarrow>
               (Inl (EInvalid ''all RAM expert slots are pinned by the current layer''),
                c\<lparr> ram_ref := refs, ram_hand := hand \<rparr>)
           | (Some s, refs, hand) \<Rightarrow>
               let c = c\<lparr> ram_ref := refs, ram_hand := hand \<rparr> in
               (case ram_owners c ! s of
                  None \<Rightarrow> (Inr s, c)
                | Some own \<Rightarrow>
                    (Inr s, c\<lparr> directory := (directory c)[own := Cold],
                      ram_owners := (ram_owners c)[s := None], ram_hits := (ram_hits c)[s := 0] \<rparr>))))"

definition evict_vram_slot :: "expert_geometry \<Rightarrow> expert_cache \<Rightarrow> (store_error + nat) \<times> expert_cache" where
  "evict_vram_slot g c =
     (case sweep (vram_capacity g * 2 + 1) (vram_capacity g) (vram_owners c) (pinned c) (\<lambda>_. True)
             (vram_ref c) (vram_hand c) of
        (None, refs, hand) \<Rightarrow>
          (Inl (EInvalid ''all VRAM expert slots are pinned by the current layer''),
           c\<lparr> vram_ref := refs, vram_hand := hand \<rparr>)
      | (Some s, refs, hand) \<Rightarrow>
          let c = c\<lparr> vram_ref := refs, vram_hand := hand \<rparr> in
          (case vram_owners c ! s of
             None \<Rightarrow> (Inr s, c)
           | Some own \<Rightarrow>
               (Inr s, c\<lparr> directory := (directory c)[own := Cold],
                 vram_owners := (vram_owners c)[s := None] \<rparr>)))"

definition select_promotable_vram_victim ::
  "expert_geometry \<Rightarrow> nat \<Rightarrow> nat \<Rightarrow> expert_cache \<Rightarrow> nat option \<times> expert_cache" where
  "select_promotable_vram_victim g hot_id ram_slot c =
     (if vram_capacity g = 0 \<or> ram_hits c ! ram_slot < PROMOTE_MIN_HITS then (None, c)
      else
        let hot_score = routing_counts c ! hot_id;
            probes = min (vram_capacity g * 2) 32
        in case sweep probes (vram_capacity g) (vram_owners c) (pinned c)
                  (\<lambda>own. hot_score > routing_counts c ! own) (vram_ref c) (vram_hand c) of
             (r, refs, hand) \<Rightarrow> (r, c\<lparr> vram_ref := refs, vram_hand := hand \<rparr>))"

definition check_exclusivity_invariant :: "expert_cache \<Rightarrow> bool" where
  "check_exclusivity_invariant c \<longleftrightarrow>
     list_all (\<lambda>(v, own). case own of None \<Rightarrow> True | Some eid \<Rightarrow> directory c ! eid = Vram v)
       (enumerate 0 (vram_owners c)) \<and>
     list_all (\<lambda>(r, own). case own of None \<Rightarrow> True | Some eid \<Rightarrow> directory c ! eid = Ram r)
       (enumerate 0 (ram_owners c))"

section \<open>Acquiring the experts of a layer\<close>

text \<open>Phase 1: a destination for every cold expert.\<close>

definition count_cold_miss :: "expert_geometry \<Rightarrow> nat \<Rightarrow> expert_cache \<Rightarrow> expert_cache" where
  "count_cold_miss g eid c =
     c\<lparr> stats := (stats c)\<lparr> st_cold_misses := st_cold_misses (stats c) + 1,
          st_bytes_read := st_bytes_read (stats c) + expert_bytes g eid \<rparr> \<rparr>"

definition pick_target ::
  "expert_geometry \<Rightarrow> nat \<Rightarrow> expert_cache \<Rightarrow> (store_error + cold_target \<times> nat) \<times> expert_cache" where
  "pick_target g stage c =
     (case pop (vram_free c) of
        Some (slot, rest) \<Rightarrow> (Inr (TVram slot, stage), c\<lparr> vram_free := rest \<rparr>)
      | None \<Rightarrow>
          if ram_capacity g > 0 then
            (case alloc_ram_slot g c of
               (Inl e, c) \<Rightarrow> (Inl e, c)
             | (Inr r, c) \<Rightarrow>
                 if r < ram_capacity g then (Inr (TRamAndHost r stage, stage + 1), c)
                 else (Inl (EPanic ''slot < self.ram_capacity''), c))
          else if vram_capacity g > 0 then
            (case evict_vram_slot g c of
               (Inl e, c) \<Rightarrow> (Inl e, c)
             | (Inr s, c) \<Rightarrow> (Inr (TVram s, stage), c))
          else
            (case host_slot_va g stage of
               Inl e \<Rightarrow> (Inl e, c)
             | Inr _ \<Rightarrow> (Inr (THostOnly stage, stage + 1), c)))"

fun target_place :: "cold_target \<Rightarrow> slot_place" where
  "target_place (TVram s) = PVram s"
| "target_place (TRamAndHost r _) = PRam r"
| "target_place (THostOnly st) = PHost st"

fun cold_targets ::
  "expert_geometry \<Rightarrow> (nat \<times> nat) list \<Rightarrow> nat \<Rightarrow> expert_cache \<Rightarrow>
     (store_error + (nat \<times> nat \<times> cold_target) list \<times> nat) \<times> expert_cache" where
  "cold_targets g [] stage c = (Inr ([], stage), c)"
| "cold_targets g ((expert, eid) # rest) stage c =
     (if directory c ! eid \<noteq> Cold then cold_targets g rest stage c
      else
        (case pick_target g stage (count_cold_miss g eid c) of
           (Inl e, c) \<Rightarrow> (Inl e, c)
         | (Inr (t, stage), c) \<Rightarrow>
             (case cold_targets g rest stage c of
                (Inl e, c) \<Rightarrow> (Inl e, c)
              | (Inr (l, stage), c) \<Rightarrow> (Inr ((expert, eid, t) # l, stage), c))))"

definition cold_read_ops :: "expert_geometry \<Rightarrow> (nat \<times> nat \<times> cold_target) list \<Rightarrow> read_op list" where
  "cold_read_ops g l = concat (map (\<lambda>(_, eid, t). push_expert_read_ops g eid (target_place t)) l)"

fun is_vram_target :: "cold_target \<Rightarrow> bool" where
  "is_vram_target (TVram _) = True"
| "is_vram_target _ = False"

text \<open>After the read: bind every destination and stage what goes through host memory.\<close>

definition bind_cold_one ::
  "expert_geometry \<Rightarrow> nat \<Rightarrow> nat \<times> nat \<times> cold_target \<Rightarrow> expert_cache \<Rightarrow> (store_error + expert_view) \<times> expert_cache" where
  "bind_cold_one g layer = (\<lambda>(expert, eid, t) c.
     case t of
       TVram s \<Rightarrow> (Inr (make_view g layer expert eid (vram_slot_va g s) ColdToVram), bind_vram s eid c)
     | TRamAndHost r st \<Rightarrow>
         let c = bind_ram r eid c in
         (case host_slot_va g st of
            Inl e \<Rightarrow> (Inl e, c)
          | Inr va \<Rightarrow>
              (Inr (make_view g layer expert eid va ColdToRamAndHost),
               copy_slot (PRam r) (PHost st) (expert_bytes g eid) c))
     | THostOnly st \<Rightarrow>
         (case host_slot_va g st of
            Inl e \<Rightarrow> (Inl e, c)
          | Inr va \<Rightarrow> (Inr (make_view g layer expert eid va ColdStagedToHost), c)))"

type_synonym resolved_views = "nat \<rightharpoonup> expert_view"

fun bind_cold ::
  "expert_geometry \<Rightarrow> nat \<Rightarrow> (nat \<times> nat \<times> cold_target) list \<Rightarrow> resolved_views \<Rightarrow> expert_cache \<Rightarrow>
     (store_error + resolved_views) \<times> expert_cache" where
  "bind_cold g layer [] res c = (Inr res, c)"
| "bind_cold g layer (x # xs) res c =
     (case bind_cold_one g layer x c of
        (Inl e, c) \<Rightarrow> (Inl e, c)
      | (Inr v, c) \<Rightarrow> bind_cold g layer xs (res(fst (snd x) \<mapsto> v)) c)"

text \<open>Phase 2: VRAM and RAM hits.\<close>

definition count_ram_hit :: "nat \<Rightarrow> expert_cache \<Rightarrow> expert_cache" where
  "count_ram_hit r c =
     c\<lparr> stats := (stats c)\<lparr> st_ram_hits := st_ram_hits (stats c) + 1 \<rparr>,
        ram_ref := (ram_ref c)[r := True],
        ram_hits := (ram_hits c)[r := saturating_add 32 (ram_hits c ! r) 1] \<rparr>"

definition promote ::
  "expert_geometry \<Rightarrow> nat \<Rightarrow> nat \<Rightarrow> nat \<Rightarrow> expert_cache \<Rightarrow> expert_cache" where
  "promote g eid r s c =
     (let c = copy_slot (PRam r) (PVram s) (expert_bytes g eid) c;
          c = bind_vram s eid (vacate_ram_slot r c)
      in c\<lparr> stats := (stats c)\<lparr> st_promotions := st_promotions (stats c) + 1 \<rparr> \<rparr>)"

definition swap_in ::
  "expert_geometry \<Rightarrow> nat \<Rightarrow> nat \<Rightarrow> nat \<Rightarrow> nat \<Rightarrow> expert_cache \<Rightarrow> expert_cache" where
  "swap_in g eid r s victim c =
     (let c = copy_slot (PVram s) (PHost 0) (expert_bytes g victim) c;
          c = copy_slot (PRam r) (PVram s) (expert_bytes g eid) c;
          c = copy_slot (PHost 0) (PRam r) (expert_bytes g victim) c;
          c = bind_ram r victim (bind_vram s eid c);
          c = c\<lparr> ram_ref := (ram_ref c)[r := False] \<rparr>
      in c\<lparr> stats := (stats c)\<lparr> st_promotions := st_promotions (stats c) + 1,
                                st_demotions := st_demotions (stats c) + 1 \<rparr> \<rparr>)"

definition resolve_ram_hit ::
  "expert_geometry \<Rightarrow> device \<Rightarrow> nat \<Rightarrow> nat \<Rightarrow> nat \<Rightarrow> nat \<Rightarrow> bool \<Rightarrow> nat \<Rightarrow> expert_cache \<Rightarrow>
     (store_error + expert_view \<times> bool \<times> nat) \<times> expert_cache" where
  "resolve_ram_hit g d layer expert eid r need_flush stage c =
     (let c = count_ram_hit r c in
      case pop (vram_free c) of
        Some (s, rest) \<Rightarrow>
          (Inr (make_view g layer expert eid (vram_slot_va g s) RamPromotedToVram, True, stage),
           promote g eid r s (c\<lparr> vram_free := rest \<rparr>))
      | None \<Rightarrow>
          (case select_promotable_vram_victim g eid r c of
             (Some s, c) \<Rightarrow>
               (case vram_owners c ! s of
                  None \<Rightarrow> (Inl (EPanic ''selected VRAM slot must have an owner''), c)
                | Some victim \<Rightarrow>
                    let c = (if need_flush then flush_cpu_writes c else c) in
                    if host_slots g = 0 then (Inl (EPanic ''slot < self.host_slots''), c)
                    else if \<not> dma_ok d s (expert_bytes g victim) then (Inl (EIo ''dma''), c)
                    else
                      (Inr (make_view g layer expert eid (vram_slot_va g s) RamSwappedToVram, True, stage),
                       swap_in g eid r s victim c))
           | (None, c) \<Rightarrow>
               (case host_slot_va g stage of
                  Inl e \<Rightarrow> (Inl e, c)
                | Inr va \<Rightarrow>
                    (Inr (make_view g layer expert eid va RamStagedToHost, need_flush, stage + 1),
                     copy_slot (PRam r) (PHost stage) (expert_bytes g eid) c))))"

definition resolve_one ::
  "expert_geometry \<Rightarrow> device \<Rightarrow> nat \<Rightarrow> nat \<Rightarrow> nat \<Rightarrow> bool \<Rightarrow> nat \<Rightarrow> expert_cache \<Rightarrow>
     (store_error + expert_view \<times> bool \<times> nat) \<times> expert_cache" where
  "resolve_one g d layer expert eid need_flush stage c =
     (case directory c ! eid of
        Vram s \<Rightarrow>
          (Inr (make_view g layer expert eid (vram_slot_va g s) VramHit, need_flush, stage),
           c\<lparr> stats := (stats c)\<lparr> st_vram_hits := st_vram_hits (stats c) + 1 \<rparr>,
              vram_ref := (vram_ref c)[s := True] \<rparr>)
      | Ram r \<Rightarrow> resolve_ram_hit g d layer expert eid r need_flush stage c
      | Cold \<Rightarrow> (Inl (EPanic ''cold misses were resolved in phase 1''), c))"

fun resolve_hits ::
  "expert_geometry \<Rightarrow> device \<Rightarrow> nat \<Rightarrow> (nat \<times> nat) list \<Rightarrow> resolved_views \<Rightarrow> bool \<Rightarrow> nat \<Rightarrow> expert_cache \<Rightarrow>
     (store_error + resolved_views \<times> bool) \<times> expert_cache" where
  "resolve_hits g d layer [] res need_flush stage c = (Inr (res, need_flush), c)"
| "resolve_hits g d layer ((expert, eid) # rest) res need_flush stage c =
     (if res eid \<noteq> None then resolve_hits g d layer rest res need_flush stage c
      else
        (case resolve_one g d layer expert eid need_flush stage c of
           (Inl e, c) \<Rightarrow> (Inl e, c)
         | (Inr (v, need_flush, stage), c) \<Rightarrow>
             resolve_hits g d layer rest (res(eid \<mapsto> v)) need_flush stage c))"

text \<open>
  \<open>acquire_pinned\<close> is a chain of fallible steps; each step of the chain takes the result and
  state of the one before and returns its error unchanged.
\<close>

fun acquire_finish ::
  "expert_geometry \<Rightarrow> nat \<Rightarrow> nat list \<Rightarrow> (store_error + resolved_views \<times> bool) \<times> expert_cache \<Rightarrow>
     (store_error + expert_view list) \<times> expert_cache" where
  "acquire_finish g layer experts (Inl e, c) = (Inl e, c)"
| "acquire_finish g layer experts (Inr (res, need_flush), c) =
     (try_map (\<lambda>expert. ok_or (EPanic ''no entry found for key'')
        (res (layer * geo_routed g + expert))) experts,
      if need_flush then flush_cpu_writes c else c)"

fun acquire_hits ::
  "expert_geometry \<Rightarrow> device \<Rightarrow> nat \<Rightarrow> nat list \<Rightarrow> (nat \<times> nat) list \<Rightarrow> bool \<Rightarrow> nat \<Rightarrow>
     (store_error + resolved_views) \<times> expert_cache \<Rightarrow> (store_error + expert_view list) \<times> expert_cache" where
  "acquire_hits g d layer experts us need_flush stage (Inl e, c) = (Inl e, c)"
| "acquire_hits g d layer experts us need_flush stage (Inr res, c) =
     acquire_finish g layer experts (resolve_hits g d layer us res need_flush stage c)"

fun acquire_bind ::
  "expert_geometry \<Rightarrow> device \<Rightarrow> nat \<Rightarrow> nat list \<Rightarrow> (nat \<times> nat) list \<Rightarrow> (nat \<times> nat \<times> cold_target) list \<Rightarrow> nat \<Rightarrow>
     (store_error + unit) \<times> expert_cache \<Rightarrow> (store_error + expert_view list) \<times> expert_cache" where
  "acquire_bind g d layer experts us cold stage (Inl e, c) = (Inl e, c)"
| "acquire_bind g d layer experts us cold stage (Inr _, c) =
     acquire_hits g d layer experts us (list_ex (\<lambda>(_, _, t). is_vram_target t) cold) stage
       (bind_cold g layer cold Map.empty c)"

fun acquire_read ::
  "expert_geometry \<Rightarrow> device \<Rightarrow> nat \<Rightarrow> nat list \<Rightarrow> (nat \<times> nat) list \<Rightarrow>
     (store_error + (nat \<times> nat \<times> cold_target) list \<times> nat) \<times> expert_cache \<Rightarrow>
     (store_error + expert_view list) \<times> expert_cache" where
  "acquire_read g d layer experts us (Inl e, c) = (Inl e, c)"
| "acquire_read g d layer experts us (Inr (cold, stage), c) =
     acquire_bind g d layer experts us cold stage
       (if cold_read_ops g cold = [] then (Inr (), c) else read_raw d (cold_read_ops g cold) c)"

definition acquire_pinned ::
  "expert_geometry \<Rightarrow> device \<Rightarrow> nat \<Rightarrow> nat list \<Rightarrow> (nat \<times> nat) list \<Rightarrow> expert_cache \<Rightarrow>
     (store_error + expert_view list) \<times> expert_cache" where
  "acquire_pinned g d layer experts unique_ids c =
     acquire_read g d layer experts unique_ids (cold_targets g unique_ids 1 c)"

fun pin_experts ::
  "expert_geometry \<Rightarrow> nat \<Rightarrow> nat list \<Rightarrow> expert_cache \<Rightarrow> (store_error + (nat \<times> nat) list) \<times> expert_cache" where
  "pin_experts g layer [] c = (Inr [], c)"
| "pin_experts g layer (expert # rest) c =
     (case expert_id g layer expert of
        Inl e \<Rightarrow> (Inl e, c)
      | Inr eid \<Rightarrow>
          let c = c\<lparr> routing_counts := (routing_counts c)[eid := routing_counts c ! eid + 1] \<rparr> in
          if pinned c ! eid then pin_experts g layer rest c
          else
            (case pin_experts g layer rest (c\<lparr> pinned := (pinned c)[eid := True] \<rparr>) of
               (Inl e, c) \<Rightarrow> (Inl e, c)
             | (Inr us, c) \<Rightarrow> (Inr ((expert, eid) # us), c)))"

definition unpin :: "(nat \<times> nat) list \<Rightarrow> expert_cache \<Rightarrow> expert_cache" where
  "unpin us c = fold (\<lambda>(_, eid) c. c\<lparr> pinned := (pinned c)[eid := False] \<rparr>) us c"

definition acquire_layer ::
  "expert_geometry \<Rightarrow> device \<Rightarrow> nat \<Rightarrow> nat list \<Rightarrow> expert_cache \<Rightarrow>
     (store_error + expert_view list) \<times> expert_cache" where
  "acquire_layer g d layer experts c =
     (if layer \<ge> geo_layers g then (Inl (EInvalid ''layer out of range''), c)
      else
        (case pin_experts g layer experts c of
           (Inl e, c) \<Rightarrow> (Inl e, c)
         | (Inr us, c) \<Rightarrow>
             if length us > host_slots g - 1
             then (Inl (EInvalid ''exceeding host staging slots''), unpin us c)
             else (case acquire_pinned g d layer experts us c of (r, c) \<Rightarrow> (r, unpin us c))))"

definition tier_of :: "expert_geometry \<Rightarrow> expert_cache \<Rightarrow> nat \<Rightarrow> nat \<Rightarrow> expert_tier option" where
  "tier_of g c layer expert =
     (case expert_id g layer expert of
        Inl _ \<Rightarrow> None
      | Inr eid \<Rightarrow> Some (case directory c ! eid of Vram _ \<Rightarrow> TierVram | Ram _ \<Rightarrow> TierRam | Cold \<Rightarrow> TierCold))"

end
