(* ===== verification/ExpertCacheInv.thy ===== *)
theory ExpertCacheInv
  imports ExpertCache
begin

text \<open>
  Correctness of the expert cache: the exclusivity invariant between the directory and the slot
  owners of both tiers, the bytes every resident expert has in its slot, and what
  \<^verbatim>\<open>acquire_layer\<close> returns.
\<close>

section \<open>Geometry and memory\<close>

definition expert_image :: "expert_geometry \<Rightarrow> device \<Rightarrow> nat \<Rightarrow> bytes" where
  "expert_image g d eid = concat (map (rd_data d) (geo_extents g ! eid))"

definition geometry_ok :: "expert_geometry \<Rightarrow> device \<Rightarrow> bool" where
  "geometry_ok g d \<longleftrightarrow>
     0 < host_slots g \<and> length (geo_extents g) = geo_layers g * geo_routed g \<and>
     (\<forall>eid < length (geo_extents g). length (geo_extents g ! eid) = EXPERT_EXTENTS \<and>
        sub_offsets g ! eid = running_offsets 0 (geo_extents g ! eid) \<and>
        sum_list (map len (geo_extents g ! eid)) \<le> slot_bytes g) \<and>
     (\<forall>e. length (rd_data d e) = len e)"

lemma length_running_offsets [simp]: "length (running_offsets k es) = length es"
  by (induction k es rule: running_offsets.induct) auto

lemma running_offsets_last:
  "es \<noteq> [] \<Longrightarrow> last (running_offsets k es) + len (last es) = k + sum_list (map len es)"
proof (induction k es rule: running_offsets.induct)
  case (2 cur e es)
  then show ?case by (cases es) auto
qed simp

lemma expert_bytes_sum:
  assumes "geometry_ok g d" "eid < length (geo_extents g)"
  shows "expert_bytes g eid = sum_list (map len (geo_extents g ! eid))"
proof -
  have six: "length (geo_extents g ! eid) = 6"
    "sub_offsets g ! eid = running_offsets 0 (geo_extents g ! eid)"
    using assms by (auto simp: geometry_ok_def EXPERT_EXTENTS_def)
  then have ne: "geo_extents g ! eid \<noteq> []" "running_offsets 0 (geo_extents g ! eid) \<noteq> []"
    by (metis list.size(3) zero_neq_numeral length_running_offsets)+
  then show ?thesis
    using running_offsets_last [OF ne(1), of 0] six
    by (simp add: expert_bytes_def EXPERT_EXTENTS_def last_conv_nth)
qed

lemma length_expert_image:
  assumes "geometry_ok g d" "eid < length (geo_extents g)"
  shows "length (expert_image g d eid) = expert_bytes g eid"
  using assms expert_bytes_sum [OF assms]
  by (simp add: expert_image_def length_concat comp_def geometry_ok_def)

lemma expert_bytes_le_slot:
  "geometry_ok g d \<Longrightarrow> eid < length (geo_extents g) \<Longrightarrow> expert_bytes g eid \<le> slot_bytes g"
  using expert_bytes_sum [of g d eid] by (simp add: geometry_ok_def)

lemma length_write_at [simp]:
  "off + length bs \<le> length buf \<Longrightarrow> length (write_at off bs buf) = length buf"
  by (simp add: write_at_def)

lemma take_write_at_0 [simp]: "take (length bs) (write_at 0 bs buf) = bs"
  by (simp add: write_at_def)

lemma write_at_run:
  assumes "\<forall>e. length (rd e) = len e" "k + sum_list (map len es) \<le> length buf"
  shows "fold (\<lambda>(e, off). write_at off (rd e)) (zip es (running_offsets k es)) buf =
    take k buf @ concat (map rd es) @ drop (k + sum_list (map len es)) buf"
  using assms(2)
proof (induction k es arbitrary: buf rule: running_offsets.induct)
  case (2 k e es)
  have len: "length (rd e) = len e" using assms(1) by simp
  have "fold (\<lambda>(e, off). write_at off (rd e)) (zip es (running_offsets (k + len e) es)) (write_at k (rd e) buf)
    = take (k + len e) (write_at k (rd e) buf) @ concat (map rd es) @
      drop (k + len e + sum_list (map len es)) (write_at k (rd e) buf)"
    using 2 by (intro 2) (simp add: write_at_def len)
  moreover have "take (k + len e) (write_at k (rd e) buf) = take k buf @ rd e"
    using 2 by (simp add: write_at_def len)
  moreover have "drop (k + len e + sum_list (map len es)) (write_at k (rd e) buf) =
      drop (k + len e + sum_list (map len es)) buf"
    using 2 by (simp add: write_at_def len add.commute add.left_commute)
  ultimately show ?case by (simp add: add.assoc)
qed simp

text \<open>Everything but the slot contents.\<close>

definition ctl :: "expert_cache \<Rightarrow> expert_cache" where
  "ctl c = c\<lparr> vram_mem := [], ram_mem := [], host_mem := [], unflushed := [] \<rparr>"

lemma ctl_eqD:
  assumes "ctl c' = ctl c"
  shows "directory c' = directory c" "pinned c' = pinned c" "routing_counts c' = routing_counts c"
    "vram_owners c' = vram_owners c" "vram_free c' = vram_free c" "vram_hand c' = vram_hand c"
    "ram_owners c' = ram_owners c" "ram_free c' = ram_free c" "ram_hand c' = ram_hand c"
  using arg_cong [OF assms, of directory] arg_cong [OF assms, of pinned]
    arg_cong [OF assms, of routing_counts] arg_cong [OF assms, of vram_owners]
    arg_cong [OF assms, of vram_free] arg_cong [OF assms, of vram_hand]
    arg_cong [OF assms, of ram_owners] arg_cong [OF assms, of ram_free]
    arg_cong [OF assms, of ram_hand]
  by (simp_all add: ctl_def)

definition bufs_ok :: "expert_geometry \<Rightarrow> expert_cache \<Rightarrow> bool" where
  "bufs_ok g c \<longleftrightarrow>
     map length (vram_mem c) = replicate (vram_capacity g) (slot_bytes g) \<and>
     map length (ram_mem c) = replicate (ram_capacity g) (slot_bytes g) \<and>
     map length (host_mem c) = replicate (host_slots g) (slot_bytes g)"

fun place_ok :: "expert_geometry \<Rightarrow> slot_place \<Rightarrow> bool" where
  "place_ok g (PVram s) = (s < vram_capacity g)"
| "place_ok g (PRam s) = (s < ram_capacity g)"
| "place_ok g (PHost s) = (s < host_slots g)"

lemma map_length_replicateD:
  assumes "map length xs = replicate n k"
  shows "length xs = n \<and> (\<forall>i < n. length (xs ! i) = k)"
proof -
  have "length xs = n" using arg_cong [OF assms, of length] by simp
  then show ?thesis using assms by (metis length_map nth_map nth_replicate)
qed

lemma bufs_okD:
  "bufs_ok g c \<Longrightarrow> place_ok g pl \<Longrightarrow> length (mem_at c pl) = slot_bytes g"
  by (cases pl) (auto simp: bufs_ok_def dest!: map_length_replicateD)

lemma write_place_ctl [simp]: "ctl (write_place pl off bs c) = ctl c"
  by (cases pl) (simp_all add: ctl_def)

lemma mem_at_write_place:
  "bufs_ok g c \<Longrightarrow> place_ok g pl \<Longrightarrow>
   mem_at (write_place pl off bs c) pl' = (if pl = pl' then write_at off bs (mem_at c pl) else mem_at c pl')"
  by (cases pl; cases pl') (auto simp: bufs_ok_def nth_list_update_if dest!: map_length_replicateD)

lemma map_length_update:
  "map length xs = replicate n k \<Longrightarrow> length y = k \<Longrightarrow> map length (xs[i := y]) = replicate n k"
  by (simp add: map_update) (metis list_update_id list_update_beyond nth_replicate length_replicate not_le)

lemma bufs_ok_write_place:
  assumes "bufs_ok g c" "place_ok g pl" "off + length bs \<le> slot_bytes g"
  shows "bufs_ok g (write_place pl off bs c)"
proof -
  have "length (write_at off bs (mem_at c pl)) = slot_bytes g"
    using assms bufs_okD [OF assms(1,2)] by simp
  then show ?thesis using assms(1) by (cases pl) (simp_all add: bufs_ok_def map_length_update)
qed

section \<open>A tier of the cache\<close>

text \<open>
  A tier is given by the constructor \<open>mk\<close> of its directory entries.  The owners of its slots and
  the directory agree in both directions.
\<close>

definition own_at :: "nat option list \<Rightarrow> nat \<Rightarrow> nat option" where
  "own_at owners s = (if s < length owners then owners ! s else None)"

definition dir_at :: "residency list \<Rightarrow> nat \<Rightarrow> residency" where
  "dir_at dir eid = (if eid < length dir then dir ! eid else Cold)"

definition tier_ok :: "(nat \<Rightarrow> residency) \<Rightarrow> nat option list \<Rightarrow> residency list \<Rightarrow> bool" where
  "tier_ok mk owners dir \<longleftrightarrow> (\<forall>s eid. own_at owners s = Some eid \<longleftrightarrow> dir_at dir eid = mk s)"

lemma own_at_update:
  "own_at (owners[s := x]) t = (if t = s \<and> s < length owners then x else own_at owners t)"
  by (auto simp: own_at_def nth_list_update_if)

lemma dir_at_update:
  "dir_at (dir[e := x]) f = (if f = e \<and> e < length dir then x else dir_at dir f)"
  by (auto simp: dir_at_def nth_list_update_if)

definition free_ok :: "nat option list \<Rightarrow> nat list \<Rightarrow> bool" where
  "free_ok owners free \<longleftrightarrow> distinct free \<and> (\<forall>s \<in> set free. s < length owners \<and> owners ! s = None)"

definition holds ::
  "(nat \<Rightarrow> residency) \<Rightarrow> expert_geometry \<Rightarrow> device \<Rightarrow> residency list \<Rightarrow> bytes list \<Rightarrow> bool" where
  "holds mk g d dir mem \<longleftrightarrow>
     (\<forall>eid s. dir_at dir eid = mk s \<longrightarrow> take (expert_bytes g eid) (mem ! s) = expert_image g d eid)"

lemma free_ok_pop: "free_ok owners free \<Longrightarrow> pop free = Some (s, rest) \<Longrightarrow>
    free_ok owners rest \<and> s < length owners \<and> owners ! s = None \<and> s \<notin> set rest \<and> set rest \<subseteq> set free"
  unfolding pop_def free_ok_def
  by (cases free rule: rev_cases) auto

lemma free_ok_release: "free_ok owners free \<Longrightarrow> free_ok (owners[s := None]) free"
  by (auto simp: free_ok_def nth_list_update_if)

lemma free_ok_bind: "free_ok owners free \<Longrightarrow> s \<notin> set free \<Longrightarrow> free_ok (owners[s := Some eid]) free"
  by (auto simp: free_ok_def nth_list_update_if)

lemma free_ok_push:
  "free_ok owners free \<Longrightarrow> s \<notin> set free \<Longrightarrow> s < length owners \<Longrightarrow> free_ok (owners[s := None]) (free @ [s])"
  by (auto simp: free_ok_def nth_list_update_if)

locale exclusive_tier =
  fixes mk :: "nat \<Rightarrow> residency"
  assumes mk_inj: "mk a = mk b \<longleftrightarrow> a = b"
    and mk_not_cold: "mk a \<noteq> Cold"
begin

lemma tier_frame:
  assumes "tier_ok mk owners dir" "\<forall>s. x \<noteq> mk s" "\<forall>s. dir_at dir eid \<noteq> mk s"
  shows "tier_ok mk owners (dir[eid := x])"
  using assms unfolding tier_ok_def dir_at_update by metis

lemma tier_release:
  assumes "tier_ok mk owners dir" "own_at owners s = Some own" "\<forall>s. x \<noteq> mk s"
  shows "tier_ok mk (owners[s := None]) (dir[own := x])"
proof -
  have own: "dir_at dir own = mk s" using assms by (simp add: tier_ok_def)
  then have "own < length dir" "s < length owners"
    using assms(2) mk_not_cold [of s] by (auto simp: dir_at_def own_at_def split: if_splits)
  moreover have "own_at owners t = Some own \<longleftrightarrow> t = s" for t
    using assms(1) own mk_inj by (auto simp: tier_ok_def)
  moreover have "dir_at dir e = mk t \<longleftrightarrow> own_at owners t = Some e" for t e
    using assms(1) by (simp add: tier_ok_def)
  moreover have "own_at owners s = Some e \<longleftrightarrow> e = own" for e using assms(2) by auto
  ultimately show ?thesis
    using assms(3) unfolding tier_ok_def own_at_update dir_at_update by auto
qed

lemma tier_bind:
  assumes "tier_ok mk owners dir" "s < length owners" "own_at owners s = None" "eid < length dir"
    "\<forall>s. dir_at dir eid \<noteq> mk s"
  shows "tier_ok mk (owners[s := Some eid]) (dir[eid := mk s])"
proof -
  have "own_at owners t \<noteq> Some eid" "dir_at dir e \<noteq> mk s" for t e
    using assms(1,3,5) unfolding tier_ok_def by (metis option.distinct(1))+
  then show ?thesis
    using assms(1,2,4) unfolding tier_ok_def own_at_update dir_at_update by (metis mk_inj option.inject)
qed

lemma holds_drop:
  assumes "holds mk g d dir mem" "\<forall>s. x \<noteq> mk s"
  shows "holds mk g d (dir[eid := x]) mem"
  using assms unfolding holds_def dir_at_update by metis

lemma holds_bind:
  assumes "holds mk g d dir mem" "take (expert_bytes g eid) (mem ! s) = expert_image g d eid"
  shows "holds mk g d (dir[eid := mk s]) mem"
  using assms unfolding holds_def dir_at_update by (metis mk_inj)

lemma holds_write_free:
  assumes "holds mk g d dir mem" "tier_ok mk owners dir" "own_at owners s = None"
  shows "holds mk g d dir (mem[s := buf])"
proof -
  have "dir_at dir eid \<noteq> mk s" for eid
    using assms(2,3) unfolding tier_ok_def by (metis option.distinct(1))
  then show ?thesis using assms(1) unfolding holds_def by (metis nth_list_update_neq)
qed

end

interpretation vram: exclusive_tier Vram
  by unfold_locales auto

interpretation ram: exclusive_tier Ram
  by unfold_locales auto

section \<open>The invariant\<close>

definition cache_inv :: "expert_geometry \<Rightarrow> device \<Rightarrow> expert_cache \<Rightarrow> bool" where
  "cache_inv g d c \<longleftrightarrow>
     length (directory c) = length (geo_extents g) \<and> length (pinned c) = length (geo_extents g) \<and>
     length (routing_counts c) = length (geo_extents g) \<and>
     length (vram_owners c) = vram_capacity g \<and> length (ram_owners c) = ram_capacity g \<and>
     tier_ok Vram (vram_owners c) (directory c) \<and> tier_ok Ram (ram_owners c) (directory c) \<and>
     free_ok (vram_owners c) (vram_free c) \<and> free_ok (ram_owners c) (ram_free c) \<and>
     (0 < vram_capacity g \<longrightarrow> vram_hand c < vram_capacity g) \<and>
     (0 < ram_capacity g \<longrightarrow> ram_hand c < ram_capacity g) \<and>
     bufs_ok g c \<and>
     holds Vram g d (directory c) (vram_mem c) \<and> holds Ram g d (directory c) (ram_mem c)"

lemma cache_inv_new: "cache_inv g d (expert_cache_new g)"
  by (simp add: cache_inv_def expert_cache_new_def Let_def tier_ok_def free_ok_def bufs_ok_def holds_def
      own_at_def dir_at_def)

lemma cache_inv_bufs [simp]: "cache_inv g d c \<Longrightarrow> bufs_ok g c"
  by (simp add: cache_inv_def)

text \<open>Fields the invariant does not constrain.\<close>

lemma cache_inv_ignores [simp]:
  "cache_inv g d (c\<lparr> stats := x \<rparr>) = cache_inv g d c"
  "cache_inv g d (c\<lparr> vram_ref := y \<rparr>) = cache_inv g d c"
  "cache_inv g d (c\<lparr> ram_ref := y \<rparr>) = cache_inv g d c"
  "cache_inv g d (c\<lparr> ram_hits := z \<rparr>) = cache_inv g d c"
  "cache_inv g d (c\<lparr> unflushed := u \<rparr>) = cache_inv g d c"
  by (simp_all add: cache_inv_def bufs_ok_def)

definition victim_ok :: "nat \<Rightarrow> nat option list \<Rightarrow> bool list \<Rightarrow> (nat \<Rightarrow> bool) \<Rightarrow> nat \<Rightarrow> bool" where
  "victim_ok cap owners pins accept s \<longleftrightarrow>
     s < cap \<and> (\<forall>own. owners ! s = Some own \<longrightarrow> \<not> pins ! own \<and> accept own)"

lemma sweep_result:
  assumes "sweep n cap owners pins accept refs hand = (r, refs', hand')" "hand < cap"
  shows "hand' < cap \<and> pred_option (victim_ok cap owners pins accept) r"
  using assms
proof (induction n arbitrary: refs hand)
  case (Suc n)
  have hand: "(hand + 1) mod cap < cap" using Suc.prems(2) by simp
  from Suc.prems(1) consider
      (stop) "r = Some hand" "hand' = (hand + 1) mod cap" "victim_ok cap owners pins accept hand"
    | (go) refs2 where "sweep n cap owners pins accept refs2 ((hand + 1) mod cap) = (r, refs', hand')"
    using Suc.prems(2)
    by (cases "owners ! hand") (auto simp: Let_def victim_ok_def split: if_splits)
  then show ?case
  proof cases
    case stop
    then show ?thesis using hand by simp
  next
    case go
    then show ?thesis using Suc.IH [OF _ hand] by blast
  qed
qed auto

declare sweep.simps [simp del]

text \<open>A place no expert owns may be overwritten.\<close>

fun place_unowned :: "expert_cache \<Rightarrow> slot_place \<Rightarrow> bool" where
  "place_unowned c (PVram s) = (own_at (vram_owners c) s = None)"
| "place_unowned c (PRam s) = (own_at (ram_owners c) s = None)"
| "place_unowned c (PHost s) = True"

lemma cache_inv_write:
  assumes "cache_inv g d c" "place_ok g pl" "place_unowned c pl" "off + length bs \<le> slot_bytes g"
  shows "cache_inv g d (write_place pl off bs c)"
proof -
  have b: "bufs_ok g (write_place pl off bs c)" using assms by (simp add: bufs_ok_write_place)
  show ?thesis
  proof (cases pl)
    case (PVram s)
    then have "holds Vram g d (directory c) ((vram_mem c)[s := write_at off bs (vram_mem c ! s)])"
      using assms by (intro vram.holds_write_free) (auto simp: cache_inv_def)
    then show ?thesis using assms(1) b PVram by (simp add: cache_inv_def)
  next
    case (PRam s)
    then have "holds Ram g d (directory c) ((ram_mem c)[s := write_at off bs (ram_mem c ! s)])"
      using assms by (intro ram.holds_write_free) (auto simp: cache_inv_def)
    then show ?thesis using assms(1) b PRam by (simp add: cache_inv_def)
  next
    case (PHost s)
    then show ?thesis using assms(1) b by (simp add: cache_inv_def)
  qed
qed

section \<open>Phase 1: choosing destinations\<close>

definition pin_at :: "expert_cache \<Rightarrow> nat \<Rightarrow> bool" where
  "pin_at c eid \<longleftrightarrow> eid < length (pinned c) \<and> pinned c ! eid"

text \<open>What choosing destinations leaves alone: memory, pins, the residency of pinned experts; slots
  that are unowned stay so and no slot becomes free.\<close>

definition keep :: "expert_cache \<Rightarrow> expert_cache \<Rightarrow> bool" where
  "keep c c' \<longleftrightarrow>
     pinned c' = pinned c \<and> routing_counts c' = routing_counts c \<and> vram_mem c' = vram_mem c \<and>
     ram_mem c' = ram_mem c \<and> host_mem c' = host_mem c \<and> unflushed c' = unflushed c \<and>
     length (directory c') = length (directory c) \<and>
     (\<forall>eid. pin_at c eid \<longrightarrow> dir_at (directory c') eid = dir_at (directory c) eid) \<and>
     (\<forall>s. own_at (vram_owners c) s = None \<longrightarrow> own_at (vram_owners c') s = None) \<and>
     (\<forall>s. own_at (ram_owners c) s = None \<longrightarrow> own_at (ram_owners c') s = None) \<and>
     set (vram_free c') \<subseteq> set (vram_free c) \<and> set (ram_free c') \<subseteq> set (ram_free c)"

lemma keep_refl [simp]: "keep c c"
  by (simp add: keep_def)

lemma keep_trans: "keep a b \<Longrightarrow> keep b c \<Longrightarrow> keep a c"
  unfolding keep_def pin_at_def by (metis subset_trans)

fun target_free :: "expert_geometry \<Rightarrow> expert_cache \<Rightarrow> cold_target \<Rightarrow> bool" where
  "target_free g c (TVram s) =
     (s < vram_capacity g \<and> own_at (vram_owners c) s = None \<and> s \<notin> set (vram_free c))"
| "target_free g c (TRamAndHost r st) =
     (r < ram_capacity g \<and> own_at (ram_owners c) r = None \<and> r \<notin> set (ram_free c))"
| "target_free g c (THostOnly st) = (st < host_slots g)"

lemma keep_target_free: "keep c c' \<Longrightarrow> target_free g c t \<Longrightarrow> target_free g c' t"
  by (cases t) (auto simp: keep_def)

lemma cache_inv_evict_ram:
  assumes "cache_inv g d c" "own_at (ram_owners c) s = Some own"
  shows "cache_inv g d (c\<lparr> directory := (directory c)[own := Cold], ram_owners := (ram_owners c)[s := None] \<rparr>)"
proof -
  have "dir_at (directory c) own = Ram s" using assms by (auto simp: cache_inv_def tier_ok_def)
  then show ?thesis
    using assms
    by (simp add: cache_inv_def ram.tier_release vram.tier_frame free_ok_release bufs_ok_def
        vram.holds_drop ram.holds_drop)
qed

lemma cache_inv_evict_vram:
  assumes "cache_inv g d c" "own_at (vram_owners c) s = Some own"
  shows "cache_inv g d (c\<lparr> directory := (directory c)[own := Cold], vram_owners := (vram_owners c)[s := None] \<rparr>)"
proof -
  have "dir_at (directory c) own = Vram s" using assms by (auto simp: cache_inv_def tier_ok_def)
  then show ?thesis
    using assms
    by (simp add: cache_inv_def vram.tier_release ram.tier_frame free_ok_release bufs_ok_def
        vram.holds_drop ram.holds_drop)
qed

lemma cache_inv_hands:
  "cache_inv g d c \<Longrightarrow> h < ram_capacity g \<Longrightarrow> cache_inv g d (c\<lparr> ram_hand := h \<rparr>)"
  "cache_inv g d c \<Longrightarrow> h < vram_capacity g \<Longrightarrow> cache_inv g d (c\<lparr> vram_hand := h \<rparr>)"
  by (simp_all add: cache_inv_def bufs_ok_def)

lemma cache_inv_free:
  "cache_inv g d c \<Longrightarrow> free_ok (ram_owners c) f \<Longrightarrow> cache_inv g d (c\<lparr> ram_free := f \<rparr>)"
  "cache_inv g d c \<Longrightarrow> free_ok (vram_owners c) f \<Longrightarrow> cache_inv g d (c\<lparr> vram_free := f \<rparr>)"
  by (simp_all add: cache_inv_def bufs_ok_def)

lemma free_not_owned: "free_ok owners free \<Longrightarrow> own_at owners s = Some own \<Longrightarrow> s \<notin> set free"
  by (auto simp: free_ok_def own_at_def split: if_splits)

lemma own_at_nth: "s < length owners \<Longrightarrow> owners ! s = own_at owners s"
  by (simp add: own_at_def)

lemma alloc_ram_slot_ok:
  assumes inv: "cache_inv g d c" and cap: "0 < ram_capacity g" and run: "alloc_ram_slot g c = (r, c')"
  shows "cache_inv g d c' \<and> keep c c' \<and>
    (case r of Inl e \<Rightarrow> (\<exists>m. e = EInvalid m) | Inr s \<Rightarrow> target_free g c' (TRamAndHost s st))"
proof (cases "pop (ram_free c)")
  case (Some p)
  obtain s rest where p: "p = (s, rest)" by fastforce
  have "free_ok (ram_owners c) (ram_free c)" "length (ram_owners c) = ram_capacity g"
    using inv by (auto simp: cache_inv_def)
  note f = free_ok_pop [OF this(1) Some [unfolded p]] this(2)
  show ?thesis
    using run Some p f inv by (auto simp: alloc_ram_slot_def keep_def cache_inv_free own_at_def)
next
  case None
  obtain v refs hand where sw: "sweep (ram_capacity g * 2 + 1) (ram_capacity g) (ram_owners c) (pinned c)
      (\<lambda>_. True) (ram_ref c) (ram_hand c) = (v, refs, hand)" by (metis prod_cases3)
  have free: "ram_free c = []" using None by (simp add: pop_def split: if_splits)
  have h: "hand < ram_capacity g" "pred_option (victim_ok (ram_capacity g) (ram_owners c) (pinned c) (\<lambda>_. True)) v"
    using sweep_result [OF sw] inv cap by (auto simp: cache_inv_def)
  let ?c = "c\<lparr> ram_ref := refs, ram_hand := hand \<rparr>"
  have inv': "cache_inv g d ?c" using cache_inv_hands(1) [of g d "c\<lparr> ram_ref := refs \<rparr>"] inv h(1) by simp
  show ?thesis
  proof (cases v)
    case None
    then show ?thesis using run \<open>pop (ram_free c) = None\<close> sw inv' by (auto simp: alloc_ram_slot_def keep_def)
  next
    case (Some s)
    have s: "s < length (ram_owners c)" using h(2) Some inv by (simp add: victim_ok_def cache_inv_def)
    show ?thesis
    proof (cases "ram_owners c ! s")
      case None
      then show ?thesis
        using run \<open>pop (ram_free c) = None\<close> sw inv' Some s free h(2)
        by (auto simp: alloc_ram_slot_def keep_def own_at_def victim_ok_def)
    next
      case own: (Some own)
      then have o: "own_at (ram_owners c) s = Some own" using s by (simp add: own_at_def)
      have unpinned: "\<not> pin_at c own" using h(2) Some own by (simp add: victim_ok_def pin_at_def)
      have c': "c' = ?c\<lparr> directory := (directory c)[own := Cold], ram_owners := (ram_owners c)[s := None],
          ram_hits := (ram_hits c)[s := 0] \<rparr>" "r = Inr s"
        using run \<open>pop (ram_free c) = None\<close> sw Some own by (auto simp: alloc_ram_slot_def Let_def)
      have "cache_inv g d c'" unfolding c' using cache_inv_evict_ram [OF inv', of s own] o by simp
      moreover have "keep c c'"
        using unpinned by (auto simp: c' keep_def dir_at_update own_at_update)
      ultimately show ?thesis
        using c' s free h(2) Some by (simp add: own_at_update victim_ok_def)
    qed
  qed
qed

lemma vram_sweep_ok:
  assumes inv: "cache_inv g d c" and cap: "0 < vram_capacity g"
    and sw: "sweep n (vram_capacity g) (vram_owners c) (pinned c) accept (vram_ref c) (vram_hand c) = (v, refs, hand)"
  shows "cache_inv g d (c\<lparr> vram_ref := refs, vram_hand := hand \<rparr>) \<and>
    pred_option (victim_ok (vram_capacity g) (vram_owners c) (pinned c) accept) v"
proof -
  have "hand < vram_capacity g" "pred_option (victim_ok (vram_capacity g) (vram_owners c) (pinned c) accept) v"
    using sweep_result [OF sw] inv cap by (auto simp: cache_inv_def)
  then show ?thesis using cache_inv_hands(2) [of g d "c\<lparr> vram_ref := refs \<rparr>"] inv by simp
qed

lemma evict_vram_slot_ok:
  assumes inv: "cache_inv g d c" and cap: "0 < vram_capacity g" and none: "vram_free c = []"
    and run: "evict_vram_slot g c = (r, c')"
  shows "cache_inv g d c' \<and> keep c c' \<and>
    (case r of Inl e \<Rightarrow> (\<exists>m. e = EInvalid m) | Inr s \<Rightarrow> target_free g c' (TVram s))"
proof -
  obtain v refs hand where sw: "sweep (vram_capacity g * 2 + 1) (vram_capacity g) (vram_owners c) (pinned c)
      (\<lambda>_. True) (vram_ref c) (vram_hand c) = (v, refs, hand)" by (metis prod_cases3)
  let ?c = "c\<lparr> vram_ref := refs, vram_hand := hand \<rparr>"
  have inv': "cache_inv g d ?c"
    and h: "pred_option (victim_ok (vram_capacity g) (vram_owners c) (pinned c) (\<lambda>_. True)) v"
    using vram_sweep_ok [OF inv cap sw] by auto
  show ?thesis
  proof (cases v)
    case None
    then show ?thesis using run sw inv' by (auto simp: evict_vram_slot_def keep_def)
  next
    case (Some s)
    have s: "s < length (vram_owners c)" using h Some inv by (simp add: victim_ok_def cache_inv_def)
    show ?thesis
    proof (cases "vram_owners c ! s")
      case None
      then show ?thesis
        using run sw inv' Some s none h by (auto simp: evict_vram_slot_def keep_def own_at_def victim_ok_def)
    next
      case own: (Some own)
      then have o: "own_at (vram_owners c) s = Some own" using s by (simp add: own_at_def)
      have unpinned: "\<not> pin_at c own" using h Some own by (simp add: victim_ok_def pin_at_def)
      have c': "c' = ?c\<lparr> directory := (directory c)[own := Cold], vram_owners := (vram_owners c)[s := None] \<rparr>"
        "r = Inr s"
        using run sw Some own by (auto simp: evict_vram_slot_def Let_def)
      have "cache_inv g d c'" unfolding c' using cache_inv_evict_vram [OF inv', of s own] o by simp
      moreover have "keep c c'"
        using unpinned by (auto simp: c' keep_def dir_at_update own_at_update)
      ultimately show ?thesis
        using c' s none h Some by (simp add: own_at_update victim_ok_def)
    qed
  qed
qed

fun target_stage :: "cold_target \<Rightarrow> nat list" where
  "target_stage (TVram _) = []"
| "target_stage (TRamAndHost _ st) = [st]"
| "target_stage (THostOnly st) = [st]"

lemma pick_target_ok:
  assumes inv: "cache_inv g d c" and run: "pick_target g stage c = (r, c')" and st: "stage < host_slots g"
  shows "cache_inv g d c' \<and> keep c c' \<and>
    (case r of
       Inl e \<Rightarrow> \<exists>m. e = EInvalid m
     | Inr (t, stage') \<Rightarrow> target_free g c' t \<and> target_stage t = [stage..<stage'] \<and> stage \<le> stage' \<and> stage' \<le> stage + 1)"
proof (cases "pop (vram_free c)")
  case (Some p)
  obtain s rest where p: "p = (s, rest)" by fastforce
  have "free_ok (vram_owners c) (vram_free c)" "length (vram_owners c) = vram_capacity g"
    using inv by (auto simp: cache_inv_def)
  note f = free_ok_pop [OF this(1) Some [unfolded p]] this(2)
  show ?thesis
    using run Some p f inv by (auto simp: pick_target_def keep_def cache_inv_free own_at_def)
next
  case None
  then have none: "vram_free c = []" by (simp add: pop_def split: if_splits)
  consider (ram) "0 < ram_capacity g" | (vram) "ram_capacity g = 0" "0 < vram_capacity g"
    | (host) "ram_capacity g = 0" "vram_capacity g = 0" by blast
  then show ?thesis
  proof cases
    case ram
    obtain q c1 where a: "alloc_ram_slot g c = (q, c1)" by fastforce
    note ok = alloc_ram_slot_ok [OF inv ram a, of stage]
    show ?thesis
    proof (cases q)
      case (Inl e)
      then show ?thesis using run None ram a ok by (auto simp: pick_target_def)
    next
      case (Inr s)
      then show ?thesis using run None ram a ok by (auto simp: pick_target_def)
    qed
  next
    case vram
    obtain q c1 where a: "evict_vram_slot g c = (q, c1)" by fastforce
    show ?thesis
      using run None vram a evict_vram_slot_ok [OF inv vram(2) none a]
      by (cases q) (auto simp: pick_target_def)
  next
    case host
    then show ?thesis
      using run None st inv by (auto simp: pick_target_def host_slot_va_def)
  qed
qed

lemma count_cold_miss_ok [simp]:
  "cache_inv g d (count_cold_miss g eid c) = cache_inv g d c"
  "keep c (count_cold_miss g eid c)"
  by (simp_all add: count_cold_miss_def keep_def)

text \<open>All destinations of a batch: each is unowned and reserved, the stage slots are consecutive,
  and the batch holds exactly the cold experts of the request.\<close>

lemma cold_targets_ok:
  assumes "cache_inv g d c" "cold_targets g us stage c = (r, c')" "stage + length us \<le> host_slots g"
    and "\<forall>(x, eid) \<in> set us. pin_at c eid"
  shows "cache_inv g d c' \<and> keep c c' \<and>
    (case r of
       Inl e \<Rightarrow> \<exists>m. e = EInvalid m
     | Inr (l, stage') \<Rightarrow>
         (\<forall>(x, eid, t) \<in> set l. target_free g c' t) \<and>
         concat (map (\<lambda>(x, eid, t). target_stage t) l) = [stage..<stage'] \<and>
         stage \<le> stage' \<and> stage' \<le> stage + length l \<and>
         map (\<lambda>(x, eid, t). (x, eid)) l = filter (\<lambda>(x, eid). dir_at (directory c) eid = Cold) us)"
  using assms
proof (induction us arbitrary: stage c r c')
  case (Cons u us)
  obtain x eid where u: "u = (x, eid)" by fastforce
  have pin: "pin_at c eid" using Cons.prems(4) u by simp
  have dir: "directory c ! eid = dir_at (directory c) eid"
    using pin Cons.prems(1) by (simp add: pin_at_def dir_at_def cache_inv_def)
  show ?case
  proof (cases "dir_at (directory c) eid = Cold")
    case False
    then have "filter (\<lambda>(x, eid). dir_at (directory c) eid = Cold) (u # us) =
        filter (\<lambda>(x, eid). dir_at (directory c) eid = Cold) us" using u by simp
    then show ?thesis
      unfolding \<open>filter _ (u # us) = _\<close> using Cons.IH [of c stage r c'] Cons.prems u dir False by simp
  next
    case cold: True
    let ?c = "count_cold_miss g eid c"
    obtain q c1 where p: "pick_target g stage ?c = (q, c1)" by fastforce
    have ok: "cache_inv g d c1" "keep c c1"
      "case q of Inl e \<Rightarrow> \<exists>m. e = EInvalid m
       | Inr (t, stage') \<Rightarrow> target_free g c1 t \<and> target_stage t = [stage..<stage'] \<and> stage \<le> stage' \<and> stage' \<le> stage + 1"
      using pick_target_ok [OF _ p, of d] Cons.prems keep_trans [of c ?c c1] by auto
    show ?thesis
    proof (cases q)
      case (Inl e)
      then show ?thesis using Cons.prems(2) p ok cold dir u by auto
    next
      case (Inr ts)
      obtain t stage1 where ts: "ts = (t, stage1)" by fastforce
      have t: "target_free g c1 t" "target_stage t = [stage..<stage1]" "stage1 \<le> stage + 1" "stage \<le> stage1"
        using ok(3) Inr ts by auto
      obtain q2 c2 where rest: "cold_targets g us stage1 c1 = (q2, c2)" by fastforce
      have pins: "\<forall>(x, eid) \<in> set us. pin_at c1 eid"
        using Cons.prems(4) ok(2) by (auto simp: keep_def pin_at_def)
      have same: "filter (\<lambda>(x, eid). dir_at (directory c1) eid = Cold) us =
          filter (\<lambda>(x, eid). dir_at (directory c) eid = Cold) us"
        using Cons.prems(4) ok(2) by (intro filter_cong) (auto simp: keep_def)
      note IH = Cons.IH [OF ok(1) rest _ pins, unfolded same]
      show ?thesis
      proof (cases q2)
        case (Inl e)
        then show ?thesis
          using IH Cons.prems(2,3) t(3) p Inr ts rest cold dir u ok(2) keep_trans by auto
      next
        case q2: (Inr ls)
        obtain l stage2 where ls: "ls = (l, stage2)" by fastforce
        have c': "c' = c2" "r = Inr ((x, eid, t) # l, stage2)"
          using Cons.prems(2) p Inr ts rest q2 ls cold dir u by auto
        have 1: "cache_inv g d c2" "keep c1 c2" "\<forall>(x, eid, t) \<in> set l. target_free g c2 t"
          "concat (map (\<lambda>(x, eid, t). target_stage t) l) = [stage1..<stage2]"
          "stage1 \<le> stage2" "stage2 \<le> stage1 + length l"
          "map (\<lambda>(x, eid, t). (x, eid)) l = filter (\<lambda>(x, eid). dir_at (directory c) eid = Cold) us"
          using IH Cons.prems(3) t(3) q2 ls by auto
        have "[stage..<stage2] = [stage..<stage1] @ [stage1..<stage2]"
          using 1(5) t(4) upt_add_eq_append [of stage stage1 "stage2 - stage1"] by simp
        then show ?thesis
          using c' 1 t keep_trans [OF ok(2) 1(2)] keep_target_free [OF 1(2) t(1)] cold u
          by simp
      qed
    qed
  qed
qed auto

section \<open>Reading the batch\<close>

definition op_ok :: "expert_geometry \<Rightarrow> expert_cache \<Rightarrow> read_op \<Rightarrow> bool" where
  "op_ok g c = (\<lambda>(e, pl, off). place_ok g pl \<and> place_unowned c pl \<and> off + len e \<le> slot_bytes g)"

lemma place_unowned_ctl: "ctl c' = ctl c \<Longrightarrow> place_unowned c' pl = place_unowned c pl"
  using ctl_eqD(4,7) [of c' c] by (cases pl) simp_all

lemma run_op_ok:
  assumes "geometry_ok g d" "cache_inv g d c" "op_ok g c (e, pl, off)"
  shows "cache_inv g d (run_op d (e, pl, off) c) \<and> ctl (run_op d (e, pl, off) c) = ctl c \<and>
    (\<forall>pl'. mem_at (run_op d (e, pl, off) c) pl' =
       (if pl' = pl then write_at off (rd_data d e) (mem_at c pl) else mem_at c pl')) \<and>
    set (unflushed (run_op d (e, pl, off) c)) \<subseteq> set (unflushed c) \<union> {s. PVram s = pl}"
proof -
  have "off + length (rd_data d e) \<le> slot_bytes g" "place_ok g pl" "place_unowned c pl"
    using assms by (auto simp: op_ok_def geometry_ok_def)
  moreover have "set (unflushed (write_place pl off bs c)) \<subseteq> set (unflushed c) \<union> {s. PVram s = pl}" for bs
    by (cases pl) auto
  ultimately show ?thesis
    using cache_inv_write [OF assms(2)] mem_at_write_place [OF cache_inv_bufs [OF assms(2)]]
    by (auto simp: run_op_def)
qed

lemma run_ops_ok:
  assumes "geometry_ok g d" "cache_inv g d c" "\<forall>op \<in> set ops. op_ok g c op"
  shows "cache_inv g d (fold (run_op d) ops c) \<and> ctl (fold (run_op d) ops c) = ctl c \<and>
    (\<forall>pl. pl \<notin> (fst \<circ> snd) ` set ops \<longrightarrow> mem_at (fold (run_op d) ops c) pl = mem_at c pl) \<and>
    set (unflushed (fold (run_op d) ops c)) \<subseteq> set (unflushed c) \<union> {s. PVram s \<in> (fst \<circ> snd) ` set ops}"
  using assms(2,3)
proof (induction ops arbitrary: c)
  case (Cons op ops)
  obtain e pl off where op: "op = (e, pl, off)" by (metis prod_cases3)
  let ?c = "run_op d op c"
  have 1: "cache_inv g d ?c" "ctl ?c = ctl c" "\<And>pl'. pl' \<noteq> pl \<Longrightarrow> mem_at ?c pl' = mem_at c pl'"
    "set (unflushed ?c) \<subseteq> set (unflushed c) \<union> {s. PVram s = pl}"
    using run_op_ok [OF assms(1) Cons.prems(1)] Cons.prems(2) op by auto
  have "\<forall>op \<in> set ops. op_ok g ?c op"
    using Cons.prems(2) place_unowned_ctl [OF 1(2)] by (auto simp: op_ok_def)
  from Cons.IH [OF 1(1) this] show ?case using 1 op by auto
qed simp

lemma running_offsets_bound:
  "(e, off) \<in> set (zip es (running_offsets k es)) \<Longrightarrow> off + len e \<le> k + sum_list (map len es)"
  by (induction k es rule: running_offsets.induct) fastforce+

lemma push_expert_read_ops_zip:
  assumes "geometry_ok g d" "eid < length (geo_extents g)"
  shows "push_expert_read_ops g eid pl =
    map (\<lambda>(e, off). (e, pl, off)) (zip (geo_extents g ! eid) (running_offsets 0 (geo_extents g ! eid)))"
proof -
  have "length (geo_extents g ! eid) = EXPERT_EXTENTS"
    "sub_offsets g ! eid = running_offsets 0 (geo_extents g ! eid)"
    using assms by (auto simp: geometry_ok_def)
  then show ?thesis
    unfolding push_expert_read_ops_def by (intro nth_equalityI) auto
qed

lemma fold_run_op_place:
  assumes "geometry_ok g d" "cache_inv g d c"
    and "\<forall>(e, off) \<in> set zs. op_ok g c (e, pl, off)"
  shows "mem_at (fold (run_op d) (map (\<lambda>(e, off). (e, pl, off)) zs) c) pl =
    fold (\<lambda>(e, off). write_at off (rd_data d e)) zs (mem_at c pl)"
  using assms(2,3)
proof (induction zs arbitrary: c)
  case (Cons z zs)
  obtain e off where z: "z = (e, off)" by fastforce
  let ?c = "run_op d (e, pl, off) c"
  have 1: "cache_inv g d ?c" "ctl ?c = ctl c" "mem_at ?c pl = write_at off (rd_data d e) (mem_at c pl)"
    using run_op_ok [OF assms(1) Cons.prems(1), of e pl off] Cons.prems(2) z by auto
  have "\<forall>(e, off) \<in> set zs. op_ok g ?c (e, pl, off)"
    using Cons.prems(2) place_unowned_ctl [OF 1(2)] by (auto simp: op_ok_def)
  from Cons.IH [OF 1(1) this] show ?case using 1(3) z by simp
qed simp

lemma expert_ops_ok:
  assumes "geometry_ok g d" "eid < length (geo_extents g)" "place_ok g pl" "place_unowned c pl"
  shows "\<forall>op \<in> set (push_expert_read_ops g eid pl). op_ok g c op \<and> fst (snd op) = pl"
proof -
  have "sum_list (map len (geo_extents g ! eid)) \<le> slot_bytes g"
    using assms by (auto simp: geometry_ok_def)
  then show ?thesis
    using assms(3,4) running_offsets_bound [of _ _ "geo_extents g ! eid" 0]
    unfolding push_expert_read_ops_zip [OF assms(1,2)] by (fastforce simp: op_ok_def)
qed

text \<open>The six reads of an expert leave its image in the slot.\<close>

lemma expert_ops_image:
  assumes "geometry_ok g d" "cache_inv g d c" "eid < length (geo_extents g)" "place_ok g pl" "place_unowned c pl"
  shows "take (expert_bytes g eid) (mem_at (fold (run_op d) (push_expert_read_ops g eid pl) c) pl) =
    expert_image g d eid"
proof -
  let ?es = "geo_extents g ! eid"
  have sum: "sum_list (map len ?es) \<le> length (mem_at c pl)"
    using assms bufs_okD [of g c pl] by (auto simp: geometry_ok_def)
  have ok: "\<forall>(e, off) \<in> set (zip ?es (running_offsets 0 ?es)). op_ok g c (e, pl, off)"
    using expert_ops_ok [OF assms(1,3,4,5)] unfolding push_expert_read_ops_zip [OF assms(1,3)] by auto
  have "mem_at (fold (run_op d) (push_expert_read_ops g eid pl) c) pl =
      concat (map (rd_data d) ?es) @ drop (sum_list (map len ?es)) (mem_at c pl)"
    unfolding push_expert_read_ops_zip [OF assms(1,3)] fold_run_op_place [OF assms(1,2) ok]
    using write_at_run [of "rd_data d" 0 ?es] sum assms(1) by (simp add: geometry_ok_def)
  moreover have "length (concat (map (rd_data d) ?es)) = expert_bytes g eid"
    using length_expert_image [OF assms(1,3)] by (simp add: expert_image_def)
  ultimately show ?thesis by (simp add: expert_image_def)
qed

definition cold_item_ok :: "expert_geometry \<Rightarrow> expert_cache \<Rightarrow> nat \<times> nat \<times> cold_target \<Rightarrow> bool" where
  "cold_item_ok g c = (\<lambda>(x, eid, t). eid < length (geo_extents g) \<and> place_ok g (target_place t) \<and>
     place_unowned c (target_place t))"

definition item_place :: "nat \<times> nat \<times> cold_target \<Rightarrow> slot_place" where
  "item_place = (\<lambda>(x, eid, t). target_place t)"

lemma cold_read_ops_Cons:
  "cold_read_ops g (x # l) = push_expert_read_ops g (fst (snd x)) (item_place x) @ cold_read_ops g l"
  by (simp add: cold_read_ops_def item_place_def case_prod_unfold)

lemma cold_read_ops_ok:
  assumes "geometry_ok g d" "\<forall>x \<in> set l. cold_item_ok g c x"
  shows "\<forall>op \<in> set (cold_read_ops g l). op_ok g c op \<and> fst (snd op) \<in> item_place ` set l"
  using assms(2)
proof (induction l)
  case (Cons x l)
  have "\<forall>op \<in> set (push_expert_read_ops g (fst (snd x)) (item_place x)). op_ok g c op \<and> fst (snd op) = item_place x"
    using Cons.prems by (intro expert_ops_ok [OF assms(1)]) (auto simp: cold_item_ok_def item_place_def)
  then show ?case using Cons unfolding cold_read_ops_Cons by auto
qed (simp add: cold_read_ops_def)

text \<open>With pairwise distinct destinations every cold expert's image is in its slot after the batch.\<close>

lemma cold_read_ops_images:
  assumes "geometry_ok g d" "cache_inv g d c" "\<forall>x \<in> set l. cold_item_ok g c x" "distinct (map item_place l)"
  shows "\<forall>(x, eid, t) \<in> set l. take (expert_bytes g eid)
    (mem_at (fold (run_op d) (cold_read_ops g l) c) (target_place t)) = expert_image g d eid"
  using assms(2-4)
proof (induction l arbitrary: c)
  case (Cons y l)
  obtain x eid t where y: "y = (x, eid, t)" by (metis prod_cases3)
  let ?pl = "target_place t" and ?c = "fold (run_op d) (push_expert_read_ops g eid (target_place t)) c"
  have item: "eid < length (geo_extents g)" "place_ok g ?pl" "place_unowned c ?pl"
    using Cons.prems(2) y by (auto simp: cold_item_ok_def)
  note ops = expert_ops_ok [OF assms(1) item]
  have 1: "cache_inv g d ?c" "ctl ?c = ctl c"
    using run_ops_ok [OF assms(1) Cons.prems(1)] ops by blast+
  have l: "\<forall>x \<in> set l. cold_item_ok g ?c x"
    using Cons.prems(2) place_unowned_ctl [OF 1(2)] by (auto simp: cold_item_ok_def)
  have notin: "?pl \<notin> item_place ` set l" using Cons.prems(3) y by (auto simp: item_place_def)
  have "mem_at (fold (run_op d) (cold_read_ops g l) ?c) ?pl = mem_at ?c ?pl"
    using run_ops_ok [OF assms(1) 1(1)] cold_read_ops_ok [OF assms(1) l] notin by fastforce
  then have "take (expert_bytes g eid) (mem_at (fold (run_op d) (cold_read_ops g l) ?c) ?pl) = expert_image g d eid"
    using expert_ops_image [OF assms(1) Cons.prems(1) item] by simp
  moreover have "fold (run_op d) (cold_read_ops g (y # l)) c = fold (run_op d) (cold_read_ops g l) ?c"
    unfolding cold_read_ops_Cons by (simp add: y item_place_def)
  ultimately show ?case using Cons.IH [OF 1(1) l] Cons.prems(3) y by simp
qed simp

section \<open>Binding and views\<close>

lemma cache_inv_bind_vram:
  assumes "cache_inv g d c" "target_free g c (TVram s)" "eid < length (geo_extents g)"
    "dir_at (directory c) eid = Cold" "take (expert_bytes g eid) (vram_mem c ! s) = expert_image g d eid"
  shows "cache_inv g d (bind_vram s eid c)"
  using assms
  by (simp add: cache_inv_def bind_vram_def bufs_ok_def vram.tier_bind ram.tier_frame free_ok_bind
      vram.holds_bind ram.holds_drop)

lemma cache_inv_bind_ram:
  assumes "cache_inv g d c" "target_free g c (TRamAndHost r st)" "eid < length (geo_extents g)"
    "dir_at (directory c) eid = Cold" "take (expert_bytes g eid) (ram_mem c ! r) = expert_image g d eid"
  shows "cache_inv g d (bind_ram r eid c)"
  using assms
  by (simp add: cache_inv_def bind_ram_def bufs_ok_def ram.tier_bind vram.tier_frame free_ok_bind
      ram.holds_bind vram.holds_drop)

text \<open>
  A view is good when it has the tensor addresses of its expert and its base is a slot that holds the
  expert's bytes: a VRAM slot the expert owns, or one of the staging slots \<open>S\<close>.
\<close>

definition view_ok :: "expert_geometry \<Rightarrow> device \<Rightarrow> nat \<Rightarrow> nat set \<Rightarrow> expert_cache \<Rightarrow> nat \<Rightarrow> expert_view \<Rightarrow> bool" where
  "view_ok g d layer S c eid v \<longleftrightarrow>
     eid < length (geo_extents g) \<and>
     (\<exists>x src. eid = layer * geo_routed g + x \<and> v = make_view g layer x eid (base_va v) src) \<and>
     ((\<exists>s. base_va v = vram_slot_va g s \<and> own_at (vram_owners c) s = Some eid) \<or>
      (\<exists>st \<in> S. 0 < st \<and> host_slot_va g st = Inr (base_va v) \<and>
         take (expert_bytes g eid) (host_mem c ! st) = expert_image g d eid))"

lemma view_ok_mono:
  assumes "view_ok g d layer S c eid v" "S \<subseteq> S'"
    and "\<And>s. own_at (vram_owners c) s = Some eid \<Longrightarrow> own_at (vram_owners c') s = Some eid"
    and "\<And>st. st \<in> S \<Longrightarrow> 0 < st \<Longrightarrow> host_mem c' ! st = host_mem c ! st"
  shows "view_ok g d layer S' c' eid v"
proof -
  from assms(1) consider
      (vram) s where "base_va v = vram_slot_va g s" "own_at (vram_owners c) s = Some eid"
    | (host) st where "st \<in> S" "0 < st" "host_slot_va g st = Inr (base_va v)"
      "take (expert_bytes g eid) (host_mem c ! st) = expert_image g d eid"
    unfolding view_ok_def by blast
  then show ?thesis
  proof cases
    case vram
    then show ?thesis using assms(1) assms(3) [of s] unfolding view_ok_def by blast
  next
    case host
    then have "take (expert_bytes g eid) (host_mem c' ! st) = expert_image g d eid" "st \<in> S'"
      using assms(2) assms(4) [of st] by auto
    then show ?thesis using assms(1) host unfolding view_ok_def by blast
  qed
qed

definition views_ok :: "expert_geometry \<Rightarrow> device \<Rightarrow> nat \<Rightarrow> nat set \<Rightarrow> expert_cache \<Rightarrow> resolved_views \<Rightarrow> bool" where
  "views_ok g d layer S c res \<longleftrightarrow> (\<forall>eid v. res eid = Some v \<longrightarrow> view_ok g d layer S c eid v)"

lemma views_ok_insert:
  assumes "views_ok g d layer S c res" "view_ok g d layer S' c' eid v" "S \<subseteq> S'"
    and "\<And>s e. res e \<noteq> None \<Longrightarrow> own_at (vram_owners c) s = Some e \<Longrightarrow> own_at (vram_owners c') s = Some e"
    and "\<And>st. st \<in> S \<Longrightarrow> 0 < st \<Longrightarrow> host_mem c' ! st = host_mem c ! st"
  shows "views_ok g d layer S' c' (res(eid \<mapsto> v))"
  unfolding views_ok_def
proof (intro allI impI)
  fix e w assume "(res(eid \<mapsto> v)) e = Some w"
  then consider "e = eid" "w = v" | "res e = Some w" by (cases "e = eid") auto
  then show "view_ok g d layer S' c' e w"
  proof cases
    case 2
    then have "view_ok g d layer S c e w" using assms(1) by (simp add: views_ok_def)
    then show ?thesis by (rule view_ok_mono) (use 2 assms in auto)
  qed (use assms(2) in simp)
qed

definition bind_ready :: "expert_geometry \<Rightarrow> device \<Rightarrow> nat \<Rightarrow> expert_cache \<Rightarrow> nat \<times> nat \<times> cold_target \<Rightarrow> bool" where
  "bind_ready g d layer c = (\<lambda>(x, eid, t).
     eid < length (geo_extents g) \<and> eid = layer * geo_routed g + x \<and> dir_at (directory c) eid = Cold \<and>
     target_free g c t \<and> (\<forall>st \<in> set (target_stage t). 0 < st \<and> st < host_slots g) \<and>
     take (expert_bytes g eid) (mem_at c (target_place t)) = expert_image g d eid)"

text \<open>What binding one cold expert establishes, and what it leaves to the rest of the batch.\<close>

definition bound_after :: "expert_geometry \<Rightarrow> expert_cache \<Rightarrow> nat \<times> nat \<times> cold_target \<Rightarrow> expert_cache \<Rightarrow> bool" where
  "bound_after g c = (\<lambda>(x, eid, t) c'.
     pinned c' = pinned c \<and> unflushed c' = unflushed c \<and> routing_counts c' = routing_counts c \<and>
     vram_free c' = vram_free c \<and> ram_free c' = ram_free c \<and>
     length (directory c') = length (directory c) \<and>
     (\<forall>e. e \<noteq> eid \<longrightarrow> dir_at (directory c') e = dir_at (directory c) e) \<and>
     (\<forall>s. PVram s \<noteq> target_place t \<longrightarrow> own_at (vram_owners c') s = own_at (vram_owners c) s) \<and>
     (\<forall>r. PRam r \<noteq> target_place t \<longrightarrow> own_at (ram_owners c') r = own_at (ram_owners c) r) \<and>
     vram_mem c' = vram_mem c \<and> ram_mem c' = ram_mem c \<and>
     (\<forall>st. st \<notin> set (target_stage t) \<longrightarrow> host_mem c' ! st = host_mem c ! st))"

lemma copy_slot_frame:
  "directory (copy_slot src (PHost st) n c) = directory c" "pinned (copy_slot src (PHost st) n c) = pinned c"
  "vram_owners (copy_slot src (PHost st) n c) = vram_owners c" "ram_owners (copy_slot src (PHost st) n c) = ram_owners c"
  "vram_free (copy_slot src (PHost st) n c) = vram_free c" "ram_free (copy_slot src (PHost st) n c) = ram_free c"
  "vram_mem (copy_slot src (PHost st) n c) = vram_mem c" "ram_mem (copy_slot src (PHost st) n c) = ram_mem c"
  "unflushed (copy_slot src (PHost st) n c) = unflushed c"
  "routing_counts (copy_slot src (PHost st) n c) = routing_counts c"
  "st' \<noteq> st \<Longrightarrow> host_mem (copy_slot src (PHost st) n c) ! st' = host_mem c ! st'"
  by (simp_all add: copy_slot_def)

lemma copy_slot_image:
  assumes "geometry_ok g d" "cache_inv g d c" "eid < length (geo_extents g)" "place_ok g src" "place_ok g dst"
    and "take (expert_bytes g eid) (mem_at c src) = expert_image g d eid"
  shows "take (expert_bytes g eid) (mem_at (copy_slot src dst (expert_bytes g eid) c) dst) = expert_image g d eid"
  using assms mem_at_write_place [OF cache_inv_bufs [OF assms(2)] assms(5), of 0]
    length_expert_image [OF assms(1,3)]
  by (simp add: copy_slot_def) (metis take_write_at_0)

lemma copy_slot_host_inv:
  assumes "geometry_ok g d" "cache_inv g d c" "eid < length (geo_extents g)" "st < host_slots g"
  shows "cache_inv g d (copy_slot src (PHost st) (expert_bytes g eid) c)"
  unfolding copy_slot_def
  using expert_bytes_le_slot [OF assms(1,3)] assms
  by (intro cache_inv_write) (auto intro: le_trans [OF min.cobounded2])

lemma base_va_make_view [simp]: "base_va (make_view g layer x eid va src) = va"
  by (simp add: make_view_def)

lemma bind_cold_one_ok:
  assumes g: "geometry_ok g d" and inv: "cache_inv g d c" and ready: "bind_ready g d layer c (x, eid, t)"
    and run: "bind_cold_one g layer (x, eid, t) c = (r, c')"
  shows "\<exists>v. r = Inr v \<and> cache_inv g d c' \<and> bound_after g c (x, eid, t) c' \<and>
    view_ok g d layer (set (target_stage t)) c' eid v"
proof -
  have eid: "eid < length (geo_extents g)" "eid = layer * geo_routed g + x" "dir_at (directory c) eid = Cold"
    "target_free g c t" "take (expert_bytes g eid) (mem_at c (target_place t)) = expert_image g d eid"
    using ready by (auto simp: bind_ready_def)
  show ?thesis
  proof (cases t)
    case (TVram s)
    then have c': "c' = bind_vram s eid c" "r = Inr (make_view g layer x eid (vram_slot_va g s) ColdToVram)"
      using run by (auto simp: bind_cold_one_def)
    have "cache_inv g d c'"
      unfolding c' using cache_inv_bind_vram [OF inv] eid TVram by simp
    moreover have "bound_after g c (x, eid, t) c'"
      unfolding c' by (auto simp: bound_after_def bind_vram_def TVram dir_at_update own_at_update)
    moreover have "own_at (vram_owners c') s = Some eid"
      unfolding c' using eid(4) TVram inv by (simp add: bind_vram_def own_at_update cache_inv_def)
    ultimately show ?thesis using eid c'(2) by (auto simp: view_ok_def)
  next
    case (TRamAndHost q st)
    have st: "0 < st" "st < host_slots g" using ready TRamAndHost by (auto simp: bind_ready_def)
    let ?c = "bind_ram q eid c"
    have c': "c' = copy_slot (PRam q) (PHost st) (expert_bytes g eid) ?c"
      "r = Inr (make_view g layer x eid (host_base_va g + st * slot_stride g) ColdToRamAndHost)"
      using run st by (auto simp: bind_cold_one_def TRamAndHost host_slot_va_def Let_def)
    have inv1: "cache_inv g d ?c" using cache_inv_bind_ram [OF inv] eid TRamAndHost by simp
    have "take (expert_bytes g eid) (mem_at ?c (PRam q)) = expert_image g d eid"
      using eid(5) TRamAndHost by (simp add: bind_ram_def)
    then have img: "take (expert_bytes g eid) (mem_at c' (PHost st)) = expert_image g d eid"
      unfolding c' using eid(4) TRamAndHost st by (intro copy_slot_image [OF g inv1 eid(1)]) simp_all
    have "cache_inv g d c'" unfolding c' by (rule copy_slot_host_inv [OF g inv1 eid(1) st(2)])
    moreover have "bound_after g c (x, eid, t) c'"
      unfolding c'
      by (auto simp: bound_after_def copy_slot_frame bind_ram_def TRamAndHost dir_at_update own_at_update)
    ultimately show ?thesis
      using eid c'(2) img st TRamAndHost by (auto simp: view_ok_def host_slot_va_def)
  next
    case (THostOnly st)
    have st: "0 < st" "st < host_slots g" using ready THostOnly by (auto simp: bind_ready_def)
    then have c': "c' = c" "r = Inr (make_view g layer x eid (host_base_va g + st * slot_stride g) ColdStagedToHost)"
      using run by (auto simp: bind_cold_one_def THostOnly host_slot_va_def)
    then show ?thesis
      using inv eid st THostOnly by (auto simp: view_ok_def host_slot_va_def bound_after_def)
  qed
qed

lemma bind_ready_after:
  assumes "bind_ready g d layer c (x', eid', t')" "bound_after g c (x, eid, t) c'" "eid' \<noteq> eid"
    and "target_place t' \<noteq> target_place t" "set (target_stage t') \<inter> set (target_stage t) = {}"
  shows "bind_ready g d layer c' (x', eid', t')"
  using assms by (cases t') (auto simp: bind_ready_def bound_after_def)

lemma bind_cold_ok:
  assumes "geometry_ok g d" "cache_inv g d c" "\<forall>y \<in> set l. bind_ready g d layer c y"
    and "distinct (map item_place l)" "distinct (map (fst \<circ> snd) l)"
    and "distinct (concat (map (target_stage \<circ> snd \<circ> snd) l))"
    and "views_ok g d layer S c res" "S \<inter> set (concat (map (target_stage \<circ> snd \<circ> snd) l)) = {}"
    and "bind_cold g layer l res c = (r, c')"
  shows "\<exists>res'. r = Inr res' \<and> cache_inv g d c' \<and> pinned c' = pinned c \<and> unflushed c' = unflushed c \<and>
    routing_counts c' = routing_counts c \<and> vram_free c' = vram_free c \<and> ram_free c' = ram_free c \<and>
    views_ok g d layer (S \<union> set (concat (map (target_stage \<circ> snd \<circ> snd) l))) c' res' \<and>
    dom res' = dom res \<union> (fst \<circ> snd) ` set l \<and>
    (\<forall>e. e \<notin> (fst \<circ> snd) ` set l \<longrightarrow> dir_at (directory c') e = dir_at (directory c) e) \<and>
    (\<forall>s e. own_at (vram_owners c') s = Some e \<longrightarrow> own_at (vram_owners c) s = Some e \<or> PVram s \<in> item_place ` set l)"
  using assms(2-)
proof (induction l arbitrary: c res S)
  case Nil
  then show ?case by auto
next
  case (Cons y l)
  obtain x eid t where y: "y = (x, eid, t)" by (metis prod_cases3)
  obtain q c1 where one: "bind_cold_one g layer y c = (q, c1)" by fastforce
  have "bind_ready g d layer c (x, eid, t)" using Cons.prems(2) y by simp
  from bind_cold_one_ok [OF assms(1) Cons.prems(1) this, of q c1] obtain v where
    v: "q = Inr v" "cache_inv g d c1" "bound_after g c (x, eid, t) c1"
      "view_ok g d layer (set (target_stage t)) c1 eid v"
    using one y by auto
  let ?S = "S \<union> set (target_stage t)"
  have free: "target_free g c t" using Cons.prems(2) y by (auto simp: bind_ready_def)
  have ready: "\<forall>y \<in> set l. bind_ready g d layer c1 y"
  proof
    fix z assume z: "z \<in> set l"
    obtain x' e' t' where z': "z = (x', e', t')" by (metis prod_cases3)
    have "bind_ready g d layer c (x', e', t')" using Cons.prems(2) z z' by auto
    then show "bind_ready g d layer c1 z"
      unfolding z' using v(3)
      by (rule bind_ready_after) (use Cons.prems(3,4,5) z z' y in \<open>force simp: item_place_def\<close>)+
  qed
  have own: "own_at (vram_owners c1) s = Some e" if "own_at (vram_owners c) s = Some e" for s e
  proof -
    have "PVram s \<noteq> target_place t" using free that by (cases t) auto
    then show ?thesis using v(3) that by (simp add: bound_after_def)
  qed
  have views: "views_ok g d layer ?S c1 (res(eid \<mapsto> v))"
  proof (rule views_ok_insert [OF Cons.prems(6)])
    show "view_ok g d layer ?S c1 eid v" by (rule view_ok_mono [OF v(4)]) auto
    show "host_mem c1 ! st = host_mem c ! st" if "st \<in> S" "0 < st" for st
      using that v(3) Cons.prems(7) y by (auto simp: bound_after_def)
  qed (use own in auto)
  have rest: "bind_cold g layer l (res(eid \<mapsto> v)) c1 = (r, c')" using Cons.prems(8) one v(1) y by simp
  have dist: "distinct (map item_place l)" "distinct (map (fst \<circ> snd) l)"
    "distinct (concat (map (target_stage \<circ> snd \<circ> snd) l))"
    "?S \<inter> set (concat (map (target_stage \<circ> snd \<circ> snd) l)) = {}"
    using Cons.prems(3,4,5,7) y by (auto simp: comp_def)
  obtain res' where
    IH: "r = Inr res'" "cache_inv g d c'" "pinned c' = pinned c1" "unflushed c' = unflushed c1"
    "routing_counts c' = routing_counts c1" "vram_free c' = vram_free c1" "ram_free c' = ram_free c1"
    "views_ok g d layer (?S \<union> set (concat (map (target_stage \<circ> snd \<circ> snd) l))) c' res'"
    "dom res' = dom (res(eid \<mapsto> v)) \<union> (fst \<circ> snd) ` set l"
    "\<forall>e. e \<notin> (fst \<circ> snd) ` set l \<longrightarrow> dir_at (directory c') e = dir_at (directory c1) e"
    "\<forall>s e. own_at (vram_owners c') s = Some e \<longrightarrow> own_at (vram_owners c1) s = Some e \<or> PVram s \<in> item_place ` set l"
    using Cons.IH [OF v(2) ready dist(1,2,3) views dist(4) rest] by blast
  have own_before: "own_at (vram_owners c) s = Some e \<or> PVram s = item_place y"
    if "own_at (vram_owners c1) s = Some e" for s e
    using that v(3) y by (auto simp: bound_after_def item_place_def)
  have "own_at (vram_owners c) s = Some e \<or> PVram s \<in> item_place ` set (y # l)"
    if "own_at (vram_owners c') s = Some e" for s e
    using IH(11) own_before [of s e] that by auto
  then show ?case
    using IH(1-10) v(3) y by (auto simp: bound_after_def Un_assoc)
qed

end
