(* ===== verification/ExpertCacheAcquire.thy ===== *)
theory ExpertCacheAcquire
  imports ExpertCacheInv
begin

text \<open>
  The second phase of \<^verbatim>\<open>acquire_pinned\<close> (hits, promotions and swaps) and the properties of
  \<^verbatim>\<open>acquire_layer\<close>.
\<close>

section \<open>Promotion and swap\<close>

lemma copy_slot_ok:
  assumes "geometry_ok g d" "cache_inv g d c" "eid < length (geo_extents g)"
    and "place_ok g src" "place_ok g dst" "place_unowned c dst"
  shows "cache_inv g d (copy_slot src dst (expert_bytes g eid) c)"
    "ctl (copy_slot src dst (expert_bytes g eid) c) = ctl c"
    "pl \<noteq> dst \<Longrightarrow> mem_at (copy_slot src dst (expert_bytes g eid) c) pl = mem_at c pl"
    "take (expert_bytes g eid) (mem_at c src) = expert_image g d eid \<Longrightarrow>
     take (expert_bytes g eid) (mem_at (copy_slot src dst (expert_bytes g eid) c) dst) = expert_image g d eid"
proof -
  have "0 + length (take (expert_bytes g eid) (mem_at c src)) \<le> slot_bytes g"
    using expert_bytes_le_slot [OF assms(1,3)] by simp
  then show "cache_inv g d (copy_slot src dst (expert_bytes g eid) c)"
    unfolding copy_slot_def by (rule cache_inv_write [OF assms(2,5,6)])
  show "ctl (copy_slot src dst (expert_bytes g eid) c) = ctl c" by (simp add: copy_slot_def)
  show "mem_at (copy_slot src dst (expert_bytes g eid) c) pl = mem_at c pl" if "pl \<noteq> dst"
    using that mem_at_write_place [OF cache_inv_bufs [OF assms(2)] assms(5)] by (simp add: copy_slot_def)
qed (rule copy_slot_image [OF assms(1,2,3,4,5)])

lemma resident_vram:
  assumes "cache_inv g d c" "own_at (vram_owners c) s = Some eid"
  shows "dir_at (directory c) eid = Vram s" "s < vram_capacity g" "eid < length (geo_extents g)"
    "take (expert_bytes g eid) (vram_mem c ! s) = expert_image g d eid" "s \<notin> set (vram_free c)"
proof -
  show dir: "dir_at (directory c) eid = Vram s" using assms by (simp add: cache_inv_def tier_ok_def)
  show "s < vram_capacity g" using assms by (auto simp: cache_inv_def own_at_def split: if_splits)
  show "eid < length (geo_extents g)"
    using dir assms(1) by (auto simp: cache_inv_def dir_at_def split: if_splits)
  show "take (expert_bytes g eid) (vram_mem c ! s) = expert_image g d eid"
    using dir assms(1) by (simp add: cache_inv_def holds_def)
  show "s \<notin> set (vram_free c)" using assms free_not_owned by (auto simp: cache_inv_def)
qed

lemma resident_ram:
  assumes "cache_inv g d c" "dir_at (directory c) eid = Ram r"
  shows "own_at (ram_owners c) r = Some eid" "r < ram_capacity g" "eid < length (geo_extents g)"
    "take (expert_bytes g eid) (ram_mem c ! r) = expert_image g d eid" "r \<notin> set (ram_free c)"
proof -
  show own: "own_at (ram_owners c) r = Some eid" using assms by (simp add: cache_inv_def tier_ok_def)
  then show "r < ram_capacity g" using assms by (auto simp: cache_inv_def own_at_def split: if_splits)
  show "eid < length (geo_extents g)"
    using assms by (auto simp: cache_inv_def dir_at_def split: if_splits)
  show "take (expert_bytes g eid) (ram_mem c ! r) = expert_image g d eid"
    using assms by (simp add: cache_inv_def holds_def)
  show "r \<notin> set (ram_free c)" using own assms free_not_owned by (auto simp: cache_inv_def)
qed

lemma count_ram_hit_ok [simp]:
  "cache_inv g d (count_ram_hit r c) = cache_inv g d c"
  "directory (count_ram_hit r c) = directory c" "pinned (count_ram_hit r c) = pinned c"
  "vram_owners (count_ram_hit r c) = vram_owners c" "vram_free (count_ram_hit r c) = vram_free c"
  "host_mem (count_ram_hit r c) = host_mem c" "unflushed (count_ram_hit r c) = unflushed c"
  "routing_counts (count_ram_hit r c) = routing_counts c"
  by (simp_all add: count_ram_hit_def)

text \<open>Promotion into a free VRAM slot.\<close>

lemma promote_ok:
  assumes g: "geometry_ok g d" and inv: "cache_inv g d c" and ram: "dir_at (directory c) eid = Ram r"
    and free: "target_free g c (TVram s)"
  shows "cache_inv g d (promote g eid r s c)"
    "own_at (vram_owners (promote g eid r s c)) t = (if t = s then Some eid else own_at (vram_owners c) t)"
    "dir_at (directory (promote g eid r s c)) e = (if e = eid then Vram s else dir_at (directory c) e)"
    "pinned (promote g eid r s c) = pinned c" "host_mem (promote g eid r s c) = host_mem c"
    "routing_counts (promote g eid r s c) = routing_counts c"
    "vram_free (promote g eid r s c) = vram_free c"
proof -
  note res = resident_ram [OF inv ram]
  let ?c1 = "copy_slot (PRam r) (PVram s) (expert_bytes g eid) c"
  have pl: "place_ok g (PRam r)" "place_ok g (PVram s)" "place_unowned c (PVram s)"
    using res(2) free by simp_all
  note copy = copy_slot_ok [OF g inv res(3) pl]
  note ctl = ctl_eqD [OF copy(2)]
  let ?c2 = "?c1\<lparr> directory := (directory c)[eid := Cold], ram_owners := (ram_owners c)[r := None] \<rparr>"
  have inv2: "cache_inv g d ?c2" using cache_inv_evict_ram [OF copy(1), of r eid] res(1) ctl by simp
  have "free_ok (ram_owners ?c2) (ram_free c @ [r])"
    using inv res by (auto simp: cache_inv_def intro: free_ok_push)
  then have inv3: "cache_inv g d (?c2\<lparr> ram_free := ram_free c @ [r] \<rparr>)"
    using cache_inv_free(1) [OF inv2] by simp
  have "take (expert_bytes g eid) (vram_mem ?c1 ! s) = expert_image g d eid" using copy(4) res(4) by simp
  then have inv4: "cache_inv g d (bind_vram s eid (?c2\<lparr> ram_free := ram_free c @ [r] \<rparr>))"
    using free res(3) ctl inv
    by (intro cache_inv_bind_vram [OF inv3]) (auto simp: dir_at_update cache_inv_def)
  have shape: "promote g eid r s c =
      (bind_vram s eid (?c2\<lparr> ram_free := ram_free c @ [r] \<rparr>))
        \<lparr> ram_ref := (ram_ref ?c1)[r := False], ram_hits := (ram_hits ?c1)[r := 0],
           stats := (stats ?c1)\<lparr> st_promotions := st_promotions (stats ?c1) + 1 \<rparr> \<rparr>"
    by (simp add: promote_def vacate_ram_slot_def bind_vram_def Let_def ctl)
  show "cache_inv g d (promote g eid r s c)" unfolding shape using inv4 by simp
  show "own_at (vram_owners (promote g eid r s c)) t = (if t = s then Some eid else own_at (vram_owners c) t)"
    unfolding shape using free inv by (simp add: bind_vram_def ctl own_at_update cache_inv_def)
  show "dir_at (directory (promote g eid r s c)) e = (if e = eid then Vram s else dir_at (directory c) e)"
    unfolding shape using res(3) inv by (simp add: bind_vram_def ctl dir_at_update cache_inv_def)
  show "pinned (promote g eid r s c) = pinned c" "host_mem (promote g eid r s c) = host_mem c"
    "routing_counts (promote g eid r s c) = routing_counts c" "vram_free (promote g eid r s c) = vram_free c"
    unfolding shape by (simp_all add: bind_vram_def ctl copy_slot_def)
qed

text \<open>Swap of a hot RAM expert with a VRAM victim through staging slot 0.\<close>

lemma swap_in_ok:
  assumes g: "geometry_ok g d" and inv: "cache_inv g d c" and ram: "dir_at (directory c) eid = Ram r"
    and vic: "own_at (vram_owners c) s = Some victim" and host: "0 < host_slots g"
  shows "cache_inv g d (swap_in g eid r s victim c)"
    "own_at (vram_owners (swap_in g eid r s victim c)) t = (if t = s then Some eid else own_at (vram_owners c) t)"
    "dir_at (directory (swap_in g eid r s victim c)) e =
       (if e = eid then Vram s else if e = victim then Ram r else dir_at (directory c) e)"
    "pinned (swap_in g eid r s victim c) = pinned c"
    "st \<noteq> 0 \<Longrightarrow> host_mem (swap_in g eid r s victim c) ! st = host_mem c ! st"
    "routing_counts (swap_in g eid r s victim c) = routing_counts c"
    "vram_free (swap_in g eid r s victim c) = vram_free c"
proof -
  note hot = resident_ram [OF inv ram] and cold = resident_vram [OF inv vic]
  have ne: "victim \<noteq> eid" using ram cold(1) by auto
  let ?cv = "c\<lparr> directory := (directory c)[victim := Cold], vram_owners := (vram_owners c)[s := None] \<rparr>"
  have invv: "cache_inv g d ?cv" by (rule cache_inv_evict_vram [OF inv vic])
  let ?c0 = "?cv\<lparr> directory := (directory ?cv)[eid := Cold], ram_owners := (ram_owners c)[r := None] \<rparr>"
  have inv0: "cache_inv g d ?c0" using cache_inv_evict_ram [OF invv, of r eid] hot(1) by simp
  let ?v = "expert_bytes g victim" and ?h = "expert_bytes g eid"
  let ?c1 = "copy_slot (PVram s) (PHost 0) ?v ?c0"
  let ?c2 = "copy_slot (PRam r) (PVram s) ?h ?c1"
  let ?c3 = "copy_slot (PHost 0) (PRam r) ?v ?c2"
  have pl: "place_ok g (PVram s)" "place_ok g (PRam r)" "place_ok g (PHost 0)"
    using hot(2) cold(2) host by simp_all
  have lens: "length (vram_owners c) = vram_capacity g" "length (ram_owners c) = ram_capacity g"
    "length (directory c) = length (geo_extents g)"
    using inv by (auto simp: cache_inv_def)
  have un: "place_unowned ?c0 (PVram s)" "place_unowned ?c0 (PRam r)"
    using hot(2) cold(2) lens by (simp_all add: own_at_update)
  note 1 = copy_slot_ok [OF g inv0 cold(3) pl(1,3)]
  have c1: "cache_inv g d ?c1" "ctl ?c1 = ctl ?c0" "take ?v (mem_at ?c1 (PHost 0)) = expert_image g d victim"
    "mem_at ?c1 (PRam r) = ram_mem c ! r"
    using 1(1,2,4) 1(3) [of "PRam r"] cold(4) by simp_all
  note 2 = copy_slot_ok [OF g c1(1) hot(3) pl(2,1) place_unowned_ctl [OF c1(2), THEN iffD2, OF un(1)]]
  have c2: "cache_inv g d ?c2" "ctl ?c2 = ctl ?c0" "take ?h (mem_at ?c2 (PVram s)) = expert_image g d eid"
    "mem_at ?c2 (PHost 0) = mem_at ?c1 (PHost 0)"
    using 2(1,2,4) 2(3) [of "PHost 0"] c1(2,4) hot(4) by simp_all
  note 3 = copy_slot_ok [OF g c2(1) cold(3) pl(3,2) place_unowned_ctl [OF c2(2), THEN iffD2, OF un(2)]]
  have c3: "cache_inv g d ?c3" "ctl ?c3 = ctl ?c0" "take ?v (ram_mem ?c3 ! r) = expert_image g d victim"
    "vram_mem ?c3 ! s = vram_mem ?c2 ! s"
    using 3(1,2,4) c1(3) c2(2,4) 3(3) [of "PVram s"] by simp_all
  note ctl = ctl_eqD [OF c3(2)]
  have inv4: "cache_inv g d (bind_vram s eid ?c3)"
    using cold(2,5) hot(3) c2(3) c3(4) lens ctl
    by (intro cache_inv_bind_vram [OF c3(1)]) (simp_all add: own_at_update dir_at_update)
  have "ram_mem (bind_vram s eid ?c3) = ram_mem ?c3" "ram_owners (bind_vram s eid ?c3) = ram_owners ?c3"
    "ram_free (bind_vram s eid ?c3) = ram_free ?c3"
    "directory (bind_vram s eid ?c3) = (directory ?c3)[eid := Vram s]"
    by (simp_all add: bind_vram_def)
  then have inv5: "cache_inv g d (bind_ram r victim (bind_vram s eid ?c3))"
    using cold(3) hot(2,5) c3(3) lens ctl ne
    by (intro cache_inv_bind_ram [OF inv4, where st = 0]) (simp_all add: own_at_update dir_at_update)
  let ?f = "bind_ram r victim (bind_vram s eid ?c3)"
  have dirs: "(directory c)[victim := Cold, eid := Vram s, victim := Ram r] =
      (directory c)[eid := Vram s, victim := Ram r]"
    by (rule nth_equalityI) (simp_all add: nth_list_update_if)
  have shape: "swap_in g eid r s victim c =
      ?f\<lparr> ram_ref := (ram_ref ?f)[r := False],
         stats := (stats ?f)\<lparr> st_promotions := st_promotions (stats ?f) + 1,
                             st_demotions := st_demotions (stats ?f) + 1 \<rparr> \<rparr>"
    by (simp add: swap_in_def copy_slot_def bind_ram_def bind_vram_def Let_def dirs)
  show "cache_inv g d (swap_in g eid r s victim c)" unfolding shape using inv5 by simp
  show "own_at (vram_owners (swap_in g eid r s victim c)) t = (if t = s then Some eid else own_at (vram_owners c) t)"
    using cold(2) lens by (simp add: swap_in_def copy_slot_def bind_ram_def bind_vram_def Let_def own_at_update)
  show "dir_at (directory (swap_in g eid r s victim c)) e =
       (if e = eid then Vram s else if e = victim then Ram r else dir_at (directory c) e)"
    using hot(3) cold(3) lens ne
    by (simp add: swap_in_def copy_slot_def bind_ram_def bind_vram_def Let_def dir_at_update)
  show "host_mem (swap_in g eid r s victim c) ! st = host_mem c ! st" if "st \<noteq> 0"
    using that by (simp add: swap_in_def copy_slot_def bind_ram_def bind_vram_def Let_def)
  show "pinned (swap_in g eid r s victim c) = pinned c"
    "routing_counts (swap_in g eid r s victim c) = routing_counts c"
    "vram_free (swap_in g eid r s victim c) = vram_free c"
    by (simp_all add: swap_in_def copy_slot_def bind_ram_def bind_vram_def Let_def)
qed

section \<open>Phase 2: hits\<close>

definition no_leak :: "expert_geometry \<Rightarrow> expert_cache \<Rightarrow> bool" where
  "no_leak g c \<longleftrightarrow> (\<forall>s < vram_capacity g. own_at (vram_owners c) s = None \<longrightarrow> s \<in> set (vram_free c))"

text \<open>No slot an expert owns has CPU writes the GPU may not see yet.\<close>

definition flush_ok :: "expert_cache \<Rightarrow> bool" where
  "flush_ok c \<longleftrightarrow> (\<forall>s \<in> set (unflushed c). own_at (vram_owners c) s = None)"

lemma flush_cpu_writes_ok [simp]:
  "cache_inv g d (flush_cpu_writes c) = cache_inv g d c" "flush_ok (flush_cpu_writes c)"
  "pinned (flush_cpu_writes c) = pinned c" "directory (flush_cpu_writes c) = directory c"
  "vram_owners (flush_cpu_writes c) = vram_owners c" "host_mem (flush_cpu_writes c) = host_mem c"
  "vram_free (flush_cpu_writes c) = vram_free c" "routing_counts (flush_cpu_writes c) = routing_counts c"
  by (simp_all add: flush_cpu_writes_def flush_ok_def)

lemma select_victim_ok:
  assumes inv: "cache_inv g d c" and leak: "no_leak g c" and none: "vram_free c = []"
    and run: "select_promotable_vram_victim g eid r c = (v, c')"
  shows "cache_inv g d c'" "pinned c' = pinned c" "directory c' = directory c" "vram_owners c' = vram_owners c"
    "host_mem c' = host_mem c" "vram_free c' = vram_free c" "unflushed c' = unflushed c"
    "routing_counts c' = routing_counts c"
    "v = Some s \<Longrightarrow> \<exists>victim. own_at (vram_owners c) s = Some victim \<and> \<not> pin_at c victim \<and>
       routing_counts c ! victim < routing_counts c ! eid \<and> s < vram_capacity g"
proof -
  have all: "cache_inv g d c' \<and> pinned c' = pinned c \<and> directory c' = directory c \<and>
    vram_owners c' = vram_owners c \<and> host_mem c' = host_mem c \<and> vram_free c' = vram_free c \<and>
    unflushed c' = unflushed c \<and> routing_counts c' = routing_counts c \<and>
    (v = Some s \<longrightarrow> (\<exists>victim. own_at (vram_owners c) s = Some victim \<and> \<not> pin_at c victim \<and>
       routing_counts c ! victim < routing_counts c ! eid \<and> s < vram_capacity g))"
  proof (cases "vram_capacity g = 0 \<or> ram_hits c ! r < PROMOTE_MIN_HITS")
    case True
    then show ?thesis using run inv by (auto simp: select_promotable_vram_victim_def)
  next
    case False
    obtain w refs hand where sw: "sweep (min (vram_capacity g * 2) 32) (vram_capacity g) (vram_owners c) (pinned c)
        (\<lambda>own. routing_counts c ! own < routing_counts c ! eid) (vram_ref c) (vram_hand c) = (w, refs, hand)"
      by (metis prod_cases3)
    have c': "c' = c\<lparr> vram_ref := refs, vram_hand := hand \<rparr>" "v = w"
      using run False sw by (auto simp: select_promotable_vram_victim_def Let_def)
    note ok = vram_sweep_ok [OF inv _ sw]
    have "\<exists>victim. own_at (vram_owners c) s = Some victim \<and> \<not> pin_at c victim \<and>
       routing_counts c ! victim < routing_counts c ! eid \<and> s < vram_capacity g" if v: "v = Some s"
    proof -
      have s: "victim_ok (vram_capacity g) (vram_owners c) (pinned c)
          (\<lambda>own. routing_counts c ! own < routing_counts c ! eid) s"
        using ok False c' v by auto
      then obtain victim where "own_at (vram_owners c) s = Some victim"
        using leak none by (auto simp: no_leak_def victim_ok_def)
      then show ?thesis
        using s by (auto simp: victim_ok_def pin_at_def own_at_def split: if_splits)
    qed
    then show ?thesis using ok c' False by auto
  qed
  then show "cache_inv g d c'" "pinned c' = pinned c" "directory c' = directory c" "vram_owners c' = vram_owners c"
    "host_mem c' = host_mem c" "vram_free c' = vram_free c" "unflushed c' = unflushed c"
    "routing_counts c' = routing_counts c"
    "v = Some s \<Longrightarrow> \<exists>victim. own_at (vram_owners c) s = Some victim \<and> \<not> pin_at c victim \<and>
       routing_counts c ! victim < routing_counts c ! eid \<and> s < vram_capacity g"
    by blast+
qed

text \<open>The state between two hits.\<close>

definition phase2 :: "expert_geometry \<Rightarrow> device \<Rightarrow> nat \<Rightarrow> resolved_views \<Rightarrow> bool \<Rightarrow> nat \<Rightarrow> expert_cache \<Rightarrow> bool" where
  "phase2 g d layer res nf stage c \<longleftrightarrow>
     cache_inv g d c \<and> no_leak g c \<and> views_ok g d layer {1..<stage} c res \<and>
     (\<forall>e \<in> dom res. pin_at c e) \<and> (nf \<or> flush_ok c) \<and> 0 < stage"

text \<open>What a hit leaves alone, for the pinned experts of the batch.\<close>

definition hit_frame :: "expert_cache \<Rightarrow> expert_cache \<Rightarrow> bool" where
  "hit_frame c c' \<longleftrightarrow> pinned c' = pinned c \<and> routing_counts c' = routing_counts c \<and>
     (\<forall>e. pin_at c e \<longrightarrow> dir_at (directory c) e \<noteq> Cold \<longrightarrow> dir_at (directory c') e \<noteq> Cold)"

lemma phase2_insert:
  assumes "phase2 g d layer res nf stage c" "cache_inv g d c'" "no_leak g c'" "pinned c' = pinned c"
    and "view_ok g d layer {1..<stage'} c' eid v" "pin_at c eid" "stage \<le> stage'" "nf' \<or> flush_ok c'"
    and "\<And>s e. pin_at c e \<Longrightarrow> own_at (vram_owners c) s = Some e \<Longrightarrow> own_at (vram_owners c') s = Some e"
    and "\<And>st. 0 < st \<Longrightarrow> st < stage \<Longrightarrow> host_mem c' ! st = host_mem c ! st"
  shows "phase2 g d layer (res(eid \<mapsto> v)) nf' stage' c'"
proof -
  have "views_ok g d layer {1..<stage'} c' (res(eid \<mapsto> v))"
  proof (rule views_ok_insert [where S = "{1..<stage}" and c = c])
    show "own_at (vram_owners c') s = Some e" if "res e \<noteq> None" "own_at (vram_owners c) s = Some e" for s e
      using that assms(1) by (intro assms(9)) (auto simp: phase2_def dom_def)
  qed (use assms in \<open>auto simp: phase2_def\<close>)
  then show ?thesis using assms by (auto simp: phase2_def pin_at_def)
qed

lemma resolve_ram_hit_ok:
  assumes g: "geometry_ok g d" and ph: "phase2 g d layer res nf stage c" and pin: "pin_at c eid"
    and eid: "eid = layer * geo_routed g + x" and ram: "dir_at (directory c) eid = Ram r"
    and st: "stage < host_slots g" and run: "resolve_ram_hit g d layer x eid r nf stage c = (q, c')"
  shows "hit_frame c c' \<and>
    (case q of Inl e \<Rightarrow> e = EIo ''dma'' \<and> cache_inv g d c' \<and> flush_ok c'
     | Inr (v, nf', stage') \<Rightarrow> phase2 g d layer (res(eid \<mapsto> v)) nf' stage' c' \<and> stage' \<le> stage + 1)"
proof -
  let ?c = "count_ram_hit r c"
  have inv: "cache_inv g d c" and leak: "no_leak g c" and fl: "nf \<or> flush_ok c"
    using ph by (auto simp: phase2_def)
  have inv1: "cache_inv g d ?c" and leak1: "no_leak g ?c" using inv leak by (simp_all add: no_leak_def)
  have n: "eid < length (geo_extents g)" using resident_ram [OF inv ram] by simp
  have ram1: "dir_at (directory ?c) eid = Ram r" using ram by simp
  show ?thesis
  proof (cases "pop (vram_free c)")
    case (Some p)
    obtain s rest where p: "p = (s, rest)" by fastforce
    have "free_ok (vram_owners c) (vram_free c)" "length (vram_owners c) = vram_capacity g"
      using inv by (auto simp: cache_inv_def)
    note f = free_ok_pop [OF this(1) Some [unfolded p]] this(2)
    let ?c1 = "?c\<lparr> vram_free := rest \<rparr>"
    have inv2: "cache_inv g d ?c1" using cache_inv_free(2) [OF inv1] f by simp
    have tf: "target_free g ?c1 (TVram s)" using f by (simp add: own_at_def)
    note pr = promote_ok [OF g inv2 _ tf, of eid r, simplified, OF ram]
    have out: "q = Inr (make_view g layer x eid (vram_slot_va g s) RamPromotedToVram, True, stage)"
      "c' = promote g eid r s ?c1"
      using run Some p by (auto simp: resolve_ram_hit_def Let_def)
    have "set (vram_free c) = insert s (set rest)"
      using Some p by (cases "vram_free c" rule: rev_cases) (auto simp: pop_def)
    then have "no_leak g c'"
      using leak by (auto simp: no_leak_def out(2) pr)
    then have "phase2 g d layer (res(eid \<mapsto> make_view g layer x eid (vram_slot_va g s) RamPromotedToVram)) True stage c'"
      by (intro phase2_insert [OF ph])
        (use pin pr n eid f out in \<open>auto simp: view_ok_def own_at_def split: if_splits\<close>)
    then show ?thesis using out pr by (auto simp: hit_frame_def)
  next
    case None
    then have none: "vram_free ?c = []" by (simp add: pop_def split: if_splits)
    obtain v c1 where sel: "select_promotable_vram_victim g eid r ?c = (v, c1)" by fastforce
    note sv = select_victim_ok [OF inv1 leak1 none sel]
    show ?thesis
    proof (cases v)
      case (Some s)
      from sv(9) [OF this] obtain victim where
        vic: "own_at (vram_owners c) s = Some victim" "\<not> pin_at c victim" "s < vram_capacity g"
        by (auto simp: pin_at_def)
      have nth: "vram_owners c1 ! s = Some victim"
        using vic inv sv(4) by (simp add: own_at_def cache_inv_def split: if_splits)
      let ?c2 = "if nf then flush_cpu_writes c1 else c1"
      have fl2: "flush_ok ?c2" using fl sv by (cases nf) (auto simp: flush_ok_def flush_cpu_writes_def)
      have inv2: "cache_inv g d ?c2" using sv(1) by simp
      show ?thesis
      proof (cases "dma_ok d s (expert_bytes g victim)")
        case False
        then have "q = Inl (EIo ''dma'')" "c' = ?c2"
          using run None sel Some nth st by (auto simp: resolve_ram_hit_def Let_def)
        then show ?thesis using inv2 fl2 sv by (auto simp: hit_frame_def)
      next
        case True
        then have out: "q = Inr (make_view g layer x eid (vram_slot_va g s) RamSwappedToVram, True, stage)"
          "c' = swap_in g eid r s victim ?c2"
          using run None sel Some nth st by (auto simp: resolve_ram_hit_def Let_def)
        have pre: "dir_at (directory ?c2) eid = Ram r" "own_at (vram_owners ?c2) s = Some victim" "0 < host_slots g"
          using ram vic sv st by auto
        note sw = swap_in_ok [OF g inv2 pre]
        have same: "pinned c' = pinned c" "vram_free c' = vram_free c"
          "\<And>t. own_at (vram_owners c') t = (if t = s then Some eid else own_at (vram_owners c) t)"
          "\<And>st. st \<noteq> 0 \<Longrightarrow> host_mem c' ! st = host_mem c ! st" "routing_counts c' = routing_counts c"
          "\<And>e. dir_at (directory c') e = (if e = eid then Vram s else if e = victim then Ram r else dir_at (directory c) e)"
          unfolding out(2) using sw(2-7) sv by auto
        have "phase2 g d layer (res(eid \<mapsto> make_view g layer x eid (vram_slot_va g s) RamSwappedToVram)) True stage c'"
        proof (rule phase2_insert [OF ph])
          show "cache_inv g d c'" unfolding out(2) by (rule sw(1))
          show "no_leak g c'" using leak by (simp add: no_leak_def same)
          show "own_at (vram_owners c') t = Some e" if "pin_at c e" "own_at (vram_owners c) t = Some e" for t e
            using that vic by (auto simp: same)
        qed (use pin n eid same in \<open>auto simp: view_ok_def\<close>)
        then show ?thesis using out same by (auto simp: hit_frame_def)
      qed
    next
      case none': None
      have out: "q = Inr (make_view g layer x eid (host_base_va g + stage * slot_stride g) RamStagedToHost, nf, stage + 1)"
        "c' = copy_slot (PRam r) (PHost stage) (expert_bytes g eid) c1"
        using run None sel none' st by (auto simp: resolve_ram_hit_def Let_def host_slot_va_def)
      note res = resident_ram [OF sv(1), of eid r]
      have pl: "place_ok g (PRam r)" "place_ok g (PHost stage)" "place_unowned c1 (PHost stage)"
        using res(2) ram sv(3) st by auto
      note copy = copy_slot_ok [OF g sv(1) n pl]
      have "take (expert_bytes g eid) (host_mem c' ! stage) = expert_image g d eid"
        using copy(4) res(4) ram sv(3) by (simp add: out(2))
      then have "phase2 g d layer (res(eid \<mapsto> make_view g layer x eid (host_base_va g + stage * slot_stride g)
          RamStagedToHost)) nf (stage + 1) c'"
        using copy(1) leak fl pin n eid st ph sv
        by (intro phase2_insert [OF ph])
          (auto simp: out(2) copy_slot_frame view_ok_def host_slot_va_def no_leak_def flush_ok_def phase2_def)
      then show ?thesis using out sv by (auto simp: hit_frame_def copy_slot_frame)
    qed
  qed
qed

lemma resolve_one_ok:
  assumes g: "geometry_ok g d" and ph: "phase2 g d layer res nf stage c" and pin: "pin_at c eid"
    and eid: "eid = layer * geo_routed g + x" and hit: "dir_at (directory c) eid \<noteq> Cold"
    and st: "stage < host_slots g" and run: "resolve_one g d layer x eid nf stage c = (q, c')"
  shows "hit_frame c c' \<and>
    (case q of Inl e \<Rightarrow> e = EIo ''dma'' \<and> cache_inv g d c' \<and> flush_ok c'
     | Inr (v, nf', stage') \<Rightarrow> phase2 g d layer (res(eid \<mapsto> v)) nf' stage' c' \<and> stage' \<le> stage + 1)"
proof -
  have inv: "cache_inv g d c" using ph by (simp add: phase2_def)
  have n: "eid < length (geo_extents g)" using pin inv by (simp add: pin_at_def cache_inv_def)
  then have nth: "directory c ! eid = dir_at (directory c) eid" using inv by (simp add: dir_at_def cache_inv_def)
  show ?thesis
  proof (cases "dir_at (directory c) eid")
    case Cold
    then show ?thesis using hit by simp
  next
    case (Ram r)
    then show ?thesis
      using resolve_ram_hit_ok [OF g ph pin eid Ram st] run nth by (simp add: resolve_one_def)
  next
    case (Vram s)
    then have own: "own_at (vram_owners c) s = Some eid" using inv by (simp add: cache_inv_def tier_ok_def)
    have out: "q = Inr (make_view g layer x eid (vram_slot_va g s) VramHit, nf, stage)"
      "c' = c\<lparr> stats := (stats c)\<lparr> st_vram_hits := st_vram_hits (stats c) + 1 \<rparr>, vram_ref := (vram_ref c)[s := True] \<rparr>"
      using run nth Vram by (auto simp: resolve_one_def)
    have "phase2 g d layer (res(eid \<mapsto> make_view g layer x eid (vram_slot_va g s) VramHit)) nf stage c'"
      using inv ph n eid own pin
      by (intro phase2_insert [OF ph]) (auto simp: out(2) view_ok_def no_leak_def flush_ok_def phase2_def)
    then show ?thesis using out by (auto simp: hit_frame_def)
  qed
qed

lemma resolve_hits_ok:
  assumes g: "geometry_ok g d"
    and "phase2 g d layer res nf stage c" "\<forall>(x, eid) \<in> set us. pin_at c eid \<and> eid = layer * geo_routed g + x"
    and "\<forall>(x, eid) \<in> set us. res eid = None \<longrightarrow> dir_at (directory c) eid \<noteq> Cold"
    and "stage + length (filter (\<lambda>(x, eid). res eid = None) us) \<le> host_slots g"
    and "resolve_hits g d layer us res nf stage c = (q, c')"
  shows "pinned c' = pinned c \<and> routing_counts c' = routing_counts c \<and> cache_inv g d c' \<and>
    (case q of Inl e \<Rightarrow> e = EIo ''dma'' \<and> flush_ok c'
     | Inr (res', nf') \<Rightarrow> \<exists>stage'. phase2 g d layer res' nf' stage' c' \<and> stage' \<le> host_slots g \<and>
         dom res' = dom res \<union> snd ` set us)"
  using assms(2-)
proof (induction us arbitrary: res nf stage c)
  case Nil
  then show ?case by (auto simp: phase2_def)
next
  case (Cons u us)
  obtain x eid where u: "u = (x, eid)" by fastforce
  show ?case
  proof (cases "res eid")
    case (Some w)
    then have "resolve_hits g d layer us res nf stage c = (q, c')" using Cons.prems(5) u by simp
    moreover have dom: "dom res \<union> snd ` set (u # us) = dom res \<union> snd ` set us" using Some u by auto
    ultimately show ?thesis
      unfolding dom using Cons.prems u Some by (intro Cons.IH [OF Cons.prems(1)]) auto
  next
    case None
    obtain p c1 where one: "resolve_one g d layer x eid nf stage c = (p, c1)" by fastforce
    have pre: "pin_at c eid" "eid = layer * geo_routed g + x" "dir_at (directory c) eid \<noteq> Cold" "stage < host_slots g"
      using Cons.prems(2,3,4) u None by auto
    note ok = resolve_one_ok [OF g Cons.prems(1) pre one]
    show ?thesis
    proof (cases p)
      case (Inl e)
      then show ?thesis using Cons.prems(5) u None one ok by (auto simp: hit_frame_def)
    next
      case (Inr t)
      obtain v nf1 stage1 where t: "t = (v, nf1, stage1)" by (metis prod_cases3)
      have ph: "phase2 g d layer (res(eid \<mapsto> v)) nf1 stage1 c1" "stage1 \<le> stage + 1" "hit_frame c c1"
        using ok Inr t by auto
      have rest: "resolve_hits g d layer us (res(eid \<mapsto> v)) nf1 stage1 c1 = (q, c')"
        using Cons.prems(5) u None one Inr t by simp
      have pins: "\<forall>(x, eid) \<in> set us. pin_at c1 eid \<and> eid = layer * geo_routed g + x"
        using Cons.prems(2) ph(3) by (auto simp: hit_frame_def pin_at_def)
      have hits: "\<forall>(y, e) \<in> set us. (res(eid \<mapsto> v)) e = None \<longrightarrow> dir_at (directory c1) e \<noteq> Cold"
        using Cons.prems(2,3) ph(3) by (auto simp: hit_frame_def)
      have "length (filter (\<lambda>(x, e). (res(eid \<mapsto> v)) e = None) us) \<le> length (filter (\<lambda>(x, e). res e = None) us)"
        by (induction us) (auto split: if_splits)
      then have len: "stage1 + length (filter (\<lambda>(x, e). (res(eid \<mapsto> v)) e = None) us) \<le> host_slots g"
        using Cons.prems(4) u None ph(2) by simp
      have dom: "dom (res(eid \<mapsto> v)) \<union> snd ` set us = dom res \<union> snd ` set (u # us)" using u by auto
      show ?thesis
        using Cons.IH [OF ph(1) pins hits len rest, unfolded dom] ph(3) by (simp add: hit_frame_def)
    qed
  qed
qed

section \<open>Slots that leave the free list\<close>

definition leaked :: "expert_geometry \<Rightarrow> expert_cache \<Rightarrow> nat set" where
  "leaked g c = {s. s < vram_capacity g \<and> own_at (vram_owners c) s = None \<and> s \<notin> set (vram_free c)}"

lemma no_leak_iff: "no_leak g c \<longleftrightarrow> leaked g c = {}"
  by (auto simp: no_leak_def leaked_def)

lemma pick_target_leaked:
  assumes "pick_target g stage c = (Inr (t, stage'), c')"
  shows "{s. s \<in> leaked g c' \<and> PVram s \<noteq> target_place t} \<subseteq> leaked g c"
proof (cases "pop (vram_free c)")
  case (Some p)
  then show ?thesis
    using assms by (cases "vram_free c" rule: rev_cases) (auto simp: pick_target_def pop_def leaked_def)
next
  case None
  have ram: "vram_owners c1 = vram_owners c \<and> vram_free c1 = vram_free c" if "alloc_ram_slot g c = (q, c1)" for q c1
    using that unfolding alloc_ram_slot_def Let_def by (auto split: option.splits prod.splits)
  have vram: "vram_free c1 = vram_free c \<and> (\<exists>x. vram_owners c1 = (vram_owners c)[s := x])"
    if "evict_vram_slot g c = (Inr s, c1)" for s c1
    using that unfolding evict_vram_slot_def Let_def
    by (auto split: option.splits prod.splits) (metis list_update_id)
  show ?thesis
  proof (cases "0 < ram_capacity g")
    case True
    then show ?thesis
      using assms None ram by (auto simp: pick_target_def leaked_def split: prod.splits sum.splits if_splits)
  next
    case False
    then show ?thesis
      using assms None vram
      by (fastforce simp: pick_target_def leaked_def own_at_update host_slot_va_def split: prod.splits sum.splits if_splits)
  qed
qed

lemma cold_targets_leaked:
  "cold_targets g us stage c = (Inr (l, stage'), c') \<Longrightarrow>
   {s. s \<in> leaked g c' \<and> PVram s \<notin> item_place ` set l} \<subseteq> leaked g c"
proof (induction us arbitrary: stage c l)
  case (Cons u us)
  obtain x eid where u: "u = (x, eid)" by fastforce
  show ?case
  proof (cases "directory c ! eid = Cold")
    case False
    then show ?thesis using Cons u by simp
  next
    case True
    obtain t stage1 c1 l1 where 1: "pick_target g stage (count_cold_miss g eid c) = (Inr (t, stage1), c1)"
      "cold_targets g us stage1 c1 = (Inr (l1, stage'), c')" "l = (x, eid, t) # l1"
      using Cons.prems True u by (auto split: prod.splits sum.splits)
    have "leaked g (count_cold_miss g eid c) = leaked g c" by (simp add: leaked_def count_cold_miss_def)
    then have "{s. s \<in> leaked g c1 \<and> PVram s \<noteq> target_place t} \<subseteq> leaked g c"
      using pick_target_leaked [OF 1(1)] by simp
    moreover have "{s. s \<in> leaked g c' \<and> PVram s \<notin> item_place ` set l1} \<subseteq> leaked g c1" by (rule Cons.IH [OF 1(2)])
    ultimately show ?thesis unfolding 1(3) by (auto simp: item_place_def)
  qed
qed simp

lemma bind_cold_one_owned:
  assumes "bind_cold_one g layer y c = (Inr v, c')" "length (vram_owners c) = vram_capacity g"
  shows "vram_free c' = vram_free c \<and> length (vram_owners c') = vram_capacity g \<and>
    leaked g c' \<subseteq> {s. s \<in> leaked g c \<and> PVram s \<noteq> item_place y}"
proof -
  obtain x eid t where y: "y = (x, eid, t)" by (metis prod_cases3)
  show ?thesis
    using assms unfolding y
    by (cases t) (auto simp: bind_cold_one_def Let_def bind_vram_def bind_ram_def copy_slot_frame
        item_place_def leaked_def own_at_update split: sum.splits if_splits)
qed

lemma bind_cold_owned:
  "bind_cold g layer l res c = (Inr res', c') \<Longrightarrow> length (vram_owners c) = vram_capacity g \<Longrightarrow>
   leaked g c' \<subseteq> {s. s \<in> leaked g c \<and> PVram s \<notin> item_place ` set l}"
proof (induction l arbitrary: res c)
  case (Cons y l)
  obtain v c1 where 1: "bind_cold_one g layer y c = (Inr v, c1)"
    "bind_cold g layer l (res(fst (snd y) \<mapsto> v)) c1 = (Inr res', c')"
    using Cons.prems(1) by (auto split: prod.splits sum.splits)
  show ?case
    using Cons.IH [OF 1(2)] bind_cold_one_owned [OF 1(1) Cons.prems(2)] by auto
qed simp

section \<open>Pins\<close>

lemma cache_inv_pins:
  "cache_inv g d c \<Longrightarrow> length ps = length (pinned c) \<Longrightarrow> cache_inv g d (c\<lparr> pinned := ps \<rparr>)"
  "cache_inv g d c \<Longrightarrow> length rc = length (routing_counts c) \<Longrightarrow> cache_inv g d (c\<lparr> routing_counts := rc \<rparr>)"
  by (simp_all add: cache_inv_def bufs_ok_def)

lemma pin_experts_ok:
  assumes "pin_experts g layer experts c = (r, c')" "cache_inv g d c" "geometry_ok g d"
  shows "cache_inv g d c' \<and>
    c' = c\<lparr> routing_counts := routing_counts c', pinned := pinned c' \<rparr> \<and>
    (case r of Inl e \<Rightarrow> e = EInvalid ''expert outside''
     | Inr us \<Rightarrow> (\<forall>e. pin_at c' e \<longleftrightarrow> pin_at c e \<or> e \<in> snd ` set us) \<and>
         distinct (map snd us) \<and> (\<forall>e \<in> snd ` set us. \<not> pin_at c e) \<and>
         (\<forall>(x, e) \<in> set us. e = layer * geo_routed g + x) \<and>
         (\<forall>x \<in> set experts. pin_at c' (layer * geo_routed g + x)))"
  using assms(1,2)
proof (induction experts arbitrary: c r c')
  case (Cons x experts)
  show ?case
  proof (cases "layer \<ge> geo_layers g \<or> x \<ge> geo_routed g")
    case True
    then show ?thesis using Cons.prems by (auto simp: expert_id_def)
  next
    case False
    let ?e = "layer * geo_routed g + x"
    have "?e < (layer + 1) * geo_routed g" using False by simp
    also have "\<dots> \<le> geo_layers g * geo_routed g" using False by (intro mult_le_mono1) simp
    finally have e: "?e < length (pinned c)" using assms(3) Cons.prems(2) by (simp add: geometry_ok_def cache_inv_def)
    let ?c = "c\<lparr> routing_counts := (routing_counts c)[?e := routing_counts c ! ?e + 1] \<rparr>"
    have inv: "cache_inv g d ?c" using cache_inv_pins(2) [OF Cons.prems(2)] by simp
    show ?thesis
    proof (cases "pinned c ! ?e")
      case True
      then have run: "pin_experts g layer experts ?c = (r, c')" using Cons.prems(1) False by (simp add: expert_id_def)
      have "pin_at c' ?e" if "\<forall>e. pin_at c' e \<longleftrightarrow> pin_at ?c e \<or> e \<in> X" for X
        using that True e by (simp add: pin_at_def)
      then show ?thesis using Cons.IH [OF run inv] by (auto simp: pin_at_def split: sum.splits)
    next
      case not: False
      let ?d = "?c\<lparr> pinned := (pinned c)[?e := True] \<rparr>"
      obtain q c1 where run: "pin_experts g layer experts ?d = (q, c1)" by fastforce
      have "cache_inv g d ?d" using cache_inv_pins(1) [OF inv] by simp
      note IH = Cons.IH [OF run this]
      have c1: "c' = c1" "r = map_sum id ((#) (x, ?e)) q"
        using Cons.prems(1) False not run by (auto simp: expert_id_def split: sum.splits)
      have p: "pin_at ?d e \<longleftrightarrow> pin_at c e \<or> e = ?e" for e
        using e by (auto simp: pin_at_def nth_list_update_if)
      have "\<not> pin_at c ?e" using not by (simp add: pin_at_def)
      then show ?thesis using IH unfolding c1 p by (cases q) (auto simp: id_def)
    qed
  qed
qed auto

lemma unpin_eq: "unpin us c = c\<lparr> pinned := fold (\<lambda>(_, e) p. p[e := False]) us (pinned c) \<rparr>"
  unfolding unpin_def by (induction us arbitrary: c) (simp_all add: case_prod_unfold)

lemma fold_unset:
  "length (fold (\<lambda>(_, e) p. p[e := False]) us ps) = length ps"
  "e < length ps \<Longrightarrow> fold (\<lambda>(_, e) p. p[e := False]) us ps ! e \<longleftrightarrow> ps ! e \<and> e \<notin> snd ` set us"
  by (induction us arbitrary: ps) (auto simp: case_prod_unfold nth_list_update_if)

lemma unpin_ok:
  "cache_inv g d c \<Longrightarrow> cache_inv g d (unpin us c)"
  "pin_at (unpin us c) e \<longleftrightarrow> pin_at c e \<and> e \<notin> snd ` set us"
proof -
  show "cache_inv g d c \<Longrightarrow> cache_inv g d (unpin us c)"
    unfolding unpin_eq by (rule cache_inv_pins) (simp_all add: fold_unset)
  show "pin_at (unpin us c) e \<longleftrightarrow> pin_at c e \<and> e \<notin> snd ` set us"
    using fold_unset(2) [of e "pinned c" us] by (auto simp: unpin_eq pin_at_def fold_unset(1))
qed

section \<open>Acquiring\<close>

lemma view_ok_content:
  assumes "view_ok g d layer S c eid v" "cache_inv g d c"
  shows "(\<exists>s < vram_capacity g. base_va v = vram_slot_va g s \<and> own_at (vram_owners c) s = Some eid \<and>
       take (expert_bytes g eid) (vram_mem c ! s) = expert_image g d eid) \<or>
    (\<exists>st. 0 < st \<and> st < host_slots g \<and> base_va v = host_base_va g + st * slot_stride g \<and>
       take (expert_bytes g eid) (host_mem c ! st) = expert_image g d eid)"
proof -
  from assms(1) consider s where "base_va v = vram_slot_va g s" "own_at (vram_owners c) s = Some eid"
    | st where "0 < st" "host_slot_va g st = Inr (base_va v)"
      "take (expert_bytes g eid) (host_mem c ! st) = expert_image g d eid"
    unfolding view_ok_def by blast
  then show ?thesis
  proof cases
    case 1
    then show ?thesis using resident_vram [OF assms(2) 1(2)] by blast
  next
    case 2
    then show ?thesis by (auto simp: host_slot_va_def split: if_splits)
  qed
qed

lemma target_free_place: "target_free g c t \<Longrightarrow> place_ok g (target_place t) \<and> place_unowned c (target_place t)"
  by (cases t) auto

lemma list_ex_vram: "list_ex (\<lambda>(_, _, t). is_vram_target t) l \<longleftrightarrow> (\<exists>s. PVram s \<in> item_place ` set l)"
proof -
  have "is_vram_target t \<longleftrightarrow> (\<exists>s. PVram s = target_place t)" for t by (cases t) auto
  then have "list_ex (\<lambda>y. is_vram_target (snd (snd y))) l \<longleftrightarrow> (\<exists>s. PVram s \<in> item_place ` set l)"
    by (auto simp: list_ex_iff item_place_def image_iff case_prod_unfold)
  then show ?thesis by (simp add: case_prod_unfold)
qed

text \<open>Everything up to the reads.\<close>

definition batch_ready :: "expert_geometry \<Rightarrow> device \<Rightarrow> nat \<Rightarrow> (nat \<times> nat) list \<Rightarrow> expert_cache \<Rightarrow> bool" where
  "batch_ready g d layer us c \<longleftrightarrow>
     geometry_ok g d \<and> cache_inv g d c \<and> no_leak g c \<and> flush_ok c \<and> length us + 1 \<le> host_slots g \<and>
     distinct (map snd us) \<and> (\<forall>(x, e) \<in> set us. pin_at c e \<and> e = layer * geo_routed g + x)"

lemma cold_batch_ok:
  assumes "batch_ready g d layer us c" "cold_targets g us 1 c = (Inr (l, stage), c1)"
  shows "cache_inv g d c1" "keep c c1" "\<forall>y \<in> set l. cold_item_ok g c1 y"
    "distinct (map (fst \<circ> snd) l)" "distinct (concat (map (target_stage \<circ> snd \<circ> snd) l))"
    "\<forall>y \<in> set l. target_free g c1 (snd (snd y)) \<and> dir_at (directory c1) (fst (snd y)) = Cold \<and>
       fst (snd y) = layer * geo_routed g + fst y \<and> (\<forall>st \<in> set (target_stage (snd (snd y))). 0 < st \<and> st < host_slots g)"
    "set (concat (map (target_stage \<circ> snd \<circ> snd) l)) = {1..<stage}" "1 \<le> stage" "stage \<le> 1 + length l"
    "(fst \<circ> snd) ` set l = {e \<in> snd ` set us. dir_at (directory c) e = Cold}"
    "length l = length (filter (\<lambda>(x, e). dir_at (directory c) e = Cold) us)"
    "{s. s \<in> leaked g c1 \<and> PVram s \<notin> item_place ` set l} = {}"
proof -
  note b = assms(1) [unfolded batch_ready_def]
  have ok: "cache_inv g d c1" "keep c c1" "\<forall>(x, eid, t) \<in> set l. target_free g c1 t"
    "concat (map (\<lambda>(x, eid, t). target_stage t) l) = [1..<stage]" "1 \<le> stage" "stage \<le> 1 + length l"
    "map (\<lambda>(x, eid, t). (x, eid)) l = filter (\<lambda>(x, eid). dir_at (directory c) eid = Cold) us"
  proof -
    have "\<forall>(x, eid) \<in> set us. pin_at c eid" using b by auto
    from cold_targets_ok [OF _ assms(2) _ this, of d] b
    show "cache_inv g d c1" "keep c c1" "\<forall>(x, eid, t) \<in> set l. target_free g c1 t"
      "concat (map (\<lambda>(x, eid, t). target_stage t) l) = [1..<stage]" "1 \<le> stage" "stage \<le> 1 + length l"
      "map (\<lambda>(x, eid, t). (x, eid)) l = filter (\<lambda>(x, eid). dir_at (directory c) eid = Cold) us"
      by simp_all
  qed
  have stages: "concat (map (target_stage \<circ> snd \<circ> snd) l) = [1..<stage]"
    using ok(4) by (simp add: comp_def case_prod_unfold)
  have ids: "map (fst \<circ> snd) l = map snd (filter (\<lambda>(x, eid). dir_at (directory c) eid = Cold) us)"
    unfolding ok(7) [symmetric] by (simp add: comp_def case_prod_unfold)
  have mem: "(fst y, fst (snd y)) \<in> set us \<and> dir_at (directory c) (fst (snd y)) = Cold" if y: "y \<in> set l" for y
  proof -
    have "(\<lambda>(x, eid, t). (x, eid)) y \<in> set (map (\<lambda>(x, eid, t). (x, eid)) l)" using y by auto
    then show ?thesis unfolding ok(7) by (auto simp: case_prod_unfold)
  qed
  show "cache_inv g d c1" "keep c c1" "1 \<le> stage" "stage \<le> 1 + length l" by (fact ok)+
  show len: "length l = length (filter (\<lambda>(x, e). dir_at (directory c) e = Cold) us)"
    using ok(7) by (metis length_map)
  have "length l \<le> length us" unfolding len by (rule length_filter_le)
  then have bound: "stage \<le> host_slots g" using ok(6) b by simp
  show "distinct (concat (map (target_stage \<circ> snd \<circ> snd) l))"
    "set (concat (map (target_stage \<circ> snd \<circ> snd) l)) = {1..<stage}"
    unfolding stages by auto
  show "distinct (map (fst \<circ> snd) l)" unfolding ids using b by (simp add: distinct_map_filter)
  have "set (map (fst \<circ> snd) l) = {e \<in> snd ` set us. dir_at (directory c) e = Cold}" unfolding ids by force
  then show "(fst \<circ> snd) ` set l = {e \<in> snd ` set us. dir_at (directory c) e = Cold}" by simp
  show "\<forall>y \<in> set l. cold_item_ok g c1 y"
    using ok(3) mem b target_free_place
    by (fastforce simp: cold_item_ok_def pin_at_def cache_inv_def)
  show "{s. s \<in> leaked g c1 \<and> PVram s \<notin> item_place ` set l} = {}"
    using cold_targets_leaked [OF assms(2)] b by (simp add: no_leak_iff)
  show "\<forall>y \<in> set l. target_free g c1 (snd (snd y)) \<and> dir_at (directory c1) (fst (snd y)) = Cold \<and>
       fst (snd y) = layer * geo_routed g + fst y \<and> (\<forall>st \<in> set (target_stage (snd (snd y))). 0 < st \<and> st < host_slots g)"
  proof
    fix y assume y: "y \<in> set l"
    have "pin_at c (fst (snd y))" "fst (snd y) = layer * geo_routed g + fst y" using mem [OF y] b by auto
    moreover have "st \<in> set [1..<stage]" if "st \<in> set (target_stage (snd (snd y)))" for st
      unfolding stages [symmetric] using that y by auto
    ultimately show "target_free g c1 (snd (snd y)) \<and> dir_at (directory c1) (fst (snd y)) = Cold \<and>
       fst (snd y) = layer * geo_routed g + fst y \<and> (\<forall>st \<in> set (target_stage (snd (snd y))). 0 < st \<and> st < host_slots g)"
      using ok(2,3) y mem [OF y] bound by (fastforce simp: keep_def)
  qed
qed

lemma keep_flush_ok: "keep c c' \<Longrightarrow> flush_ok c \<Longrightarrow> flush_ok c'"
  by (auto simp: keep_def flush_ok_def)

lemma ctl_leaked: "ctl c' = ctl c \<Longrightarrow> leaked g c' = leaked g c"
  using ctl_eqD(4,5) [of c' c] by (simp add: leaked_def)

text \<open>The reads of a batch, whether they succeed or not.\<close>

lemma batch_read_ok:
  assumes b: "batch_ready g d layer us c" and cold: "cold_targets g us 1 c = (Inr (l, stage), c1)"
    and pre: "c2 = fold (run_op d) (take k (cold_read_ops g l)) c1"
  shows "cache_inv g d c2" "ctl c2 = ctl c1" "flush_ok c2"
proof -
  note cb = cold_batch_ok [OF b cold]
  have g: "geometry_ok g d" using b by (simp add: batch_ready_def)
  have "\<forall>op \<in> set (take k (cold_read_ops g l)). op_ok g c1 op \<and> fst (snd op) \<in> item_place ` set l"
    using cold_read_ops_ok [OF g cb(3)] by (meson in_set_takeD)
  then have ok: "cache_inv g d c2" "ctl c2 = ctl c1"
      "set (unflushed c2) \<subseteq> set (unflushed c1) \<union> {s. PVram s \<in> item_place ` set l}"
    using run_ops_ok [OF g cb(1), of "take k (cold_read_ops g l)"] unfolding pre by fastforce+
  then show "cache_inv g d c2" "ctl c2 = ctl c1" by simp_all
  have "own_at (vram_owners c1) s = None" if pl: "PVram s \<in> item_place ` set l" for s
  proof -
    obtain y where "y \<in> set l" "PVram s = item_place y" using pl by auto
    then have "place_unowned c1 (PVram s)"
      using cb(3) by (cases y) (auto simp: cold_item_ok_def item_place_def)
    then show ?thesis by simp
  qed
  moreover have "flush_ok c1" using keep_flush_ok [OF cb(2)] b by (simp add: batch_ready_def)
  ultimately show "flush_ok c2" using ok(3) ctl_eqD(4) [OF ok(2)] by (auto simp: flush_ok_def)
qed

text \<open>After a successful batch read with distinct destinations, binding leads to the hit phase.\<close>

lemma batch_bind_ok:
  assumes b: "batch_ready g d layer us c" and cold: "cold_targets g us 1 c = (Inr (l, stage), c1)"
    and dist: "distinct (map item_place l)"
    and c2: "c2 = fold (run_op d) (cold_read_ops g l) c1"
    and run: "bind_cold g layer l Map.empty c2 = (r, c3)"
  shows "\<exists>res. r = Inr res \<and> pinned c3 = pinned c \<and> routing_counts c3 = routing_counts c \<and>
    phase2 g d layer res (list_ex (\<lambda>(_, _, t). is_vram_target t) l) stage c3 \<and>
    dom res = {e \<in> snd ` set us. dir_at (directory c) e = Cold} \<and>
    (\<forall>e. pin_at c e \<longrightarrow> e \<notin> dom res \<longrightarrow> dir_at (directory c3) e = dir_at (directory c) e)"
proof -
  note cb = cold_batch_ok [OF b cold]
  have g: "geometry_ok g d" using b by (simp add: batch_ready_def)
  have "c2 = fold (run_op d) (take (length (cold_read_ops g l)) (cold_read_ops g l)) c1" using c2 by simp
  note rd = batch_read_ok [OF b cold this]
  note same = ctl_eqD [OF rd(2)]
  have img: "\<forall>(x, eid, t) \<in> set l. take (expert_bytes g eid) (mem_at c2 (target_place t)) = expert_image g d eid"
    unfolding c2 by (rule cold_read_ops_images [OF g cb(1,3) dist])
  have tf: "target_free g c2 t = target_free g c1 t" for t by (cases t) (simp_all add: same)
  have ready: "\<forall>y \<in> set l. bind_ready g d layer c2 y"
    using cb(3,6) img same by (fastforce simp: bind_ready_def cold_item_ok_def tf)
  have "views_ok g d layer {} c2 Map.empty" by (simp add: views_ok_def)
  from bind_cold_ok [OF g rd(1) ready dist cb(4,5) this _ run] obtain res where
    res: "r = Inr res" "cache_inv g d c3" "pinned c3 = pinned c2" "unflushed c3 = unflushed c2"
    "routing_counts c3 = routing_counts c2"
    "views_ok g d layer (set (concat (map (target_stage \<circ> snd \<circ> snd) l))) c3 res"
    "dom res = (fst \<circ> snd) ` set l"
    "\<forall>e. e \<notin> (fst \<circ> snd) ` set l \<longrightarrow> dir_at (directory c3) e = dir_at (directory c2) e"
    "\<forall>s e. own_at (vram_owners c3) s = Some e \<longrightarrow> own_at (vram_owners c2) s = Some e \<or> PVram s \<in> item_place ` set l"
    by auto
  have nf: "list_ex (\<lambda>(_, _, t). is_vram_target t) l \<or> flush_ok c3"
    using rd(3) res(4,9) unfolding list_ex_vram flush_ok_def by (metis option.exhaust)
  have "length (vram_owners c2) = vram_capacity g" using rd(1) by (simp add: cache_inv_def)
  from bind_cold_owned [OF run [unfolded res(1)] this] have "no_leak g c3"
    using cb(12) ctl_leaked [OF rd(2)] by (auto simp: no_leak_iff)
  moreover have "\<forall>e \<in> dom res. pin_at c3 e"
  proof
    fix e assume "e \<in> dom res"
    then have "e \<in> snd ` set us" unfolding res(7) cb(10) by simp
    then have "pin_at c e" using b by (auto simp: batch_ready_def)
    then show "pin_at c3 e" using res(3) same(2) cb(2) by (simp add: keep_def pin_at_def)
  qed
  ultimately have "phase2 g d layer res (list_ex (\<lambda>(_, _, t). is_vram_target t) l) stage c3"
    using res(2,6) nf cb(7,8) by (simp add: phase2_def)
  moreover have "dir_at (directory c3) e = dir_at (directory c) e" if "pin_at c e" "e \<notin> dom res" for e
    using that res(7,8) same cb(2) by (simp add: keep_def)
  ultimately show ?thesis using res(1,3,5,7) cb(2,10) same by (auto simp: keep_def)
qed

definition distinct_cold_slots :: "expert_geometry \<Rightarrow> (nat \<times> nat) list \<Rightarrow> expert_cache \<Rightarrow> bool" where
  "distinct_cold_slots g us c \<longleftrightarrow>
     (case cold_targets g us 1 c of
        (Inr (l, _), _) \<Rightarrow> distinct (map (\<lambda>(_, _, t). target_place t) l)
      | _ \<Rightarrow> True)"

lemma acquire_pinned_ok:
  assumes b: "batch_ready g d layer us c" and dist: "distinct_cold_slots g us c"
    and ex: "\<forall>x \<in> set experts. layer * geo_routed g + x \<in> snd ` set us"
    and run: "acquire_pinned g d layer experts us c = (r, c')"
  shows "cache_inv g d c' \<and> pinned c' = pinned c \<and> flush_ok c' \<and>
    (case r of
       Inl e \<Rightarrow> \<forall>m. e \<noteq> EPanic m
     | Inr vs \<Rightarrow> no_leak g c' \<and>
         list_all2 (\<lambda>x v. view_ok g d layer {1..<host_slots g} c' (layer * geo_routed g + x) v) experts vs)"
proof -
  note b' = b [unfolded batch_ready_def]
  have pins: "\<forall>(x, eid) \<in> set us. pin_at c eid" using b' by auto
  obtain q c1 where cold: "cold_targets g us 1 c = (q, c1)" by fastforce
  have ph1: "cache_inv g d c1" "keep c c1" "flush_ok c1" "pinned c1 = pinned c"
    using cold_targets_ok [OF _ cold _ pins, of d] b' keep_flush_ok by (auto simp: keep_def)
  show ?thesis
  proof (cases q)
    case (Inl e)
    then have "\<exists>m. e = EInvalid m" using cold_targets_ok [OF _ cold _ pins, of d] b' by auto
    then show ?thesis using run cold Inl ph1 by (auto simp: acquire_pinned_def)
  next
    case (Inr p)
    obtain l stage where p: "p = (l, stage)" by fastforce
    note cold' = cold [unfolded Inr p]
    let ?ops = "cold_read_ops g l" and ?nf = "list_ex (\<lambda>(_, _, t). is_vram_target t) l"
    obtain rr c2 where read: "(if ?ops = [] then (Inr (), c1) else read_raw d ?ops c1) = (rr, c2)" by fastforce
    have rd: "cache_inv g d c2 \<and> ctl c2 = ctl c1 \<and> flush_ok c2 \<and>
        (case rr of Inl e \<Rightarrow> e = EIo ''read'' | Inr _ \<Rightarrow> c2 = fold (run_op d) ?ops c1)"
    proof (cases rr)
      case (Inl e)
      then obtain k where "c2 = fold (run_op d) (take k ?ops) c1" "e = EIo ''read''"
        using read by (auto simp: read_raw_def split: if_splits option.splits)
      then show ?thesis using batch_read_ok [OF b cold'] Inl by simp
    next
      case (Inr u)
      then have "c2 = fold (run_op d) ?ops c1"
        using read by (auto simp: read_raw_def split: if_splits option.splits)
      then have "c2 = fold (run_op d) (take (length ?ops) ?ops) c1" by simp
      from batch_read_ok [OF b cold' this] show ?thesis using Inr \<open>c2 = fold (run_op d) ?ops c1\<close> by simp
    qed
    show ?thesis
    proof (cases rr)
      case (Inl e)
      then show ?thesis
        using run cold' read rd ph1(4) ctl_eqD(2) [of c2 c1] by (auto simp: acquire_pinned_def Let_def)
    next
      case rr: (Inr u)
      have dist': "distinct (map item_place l)"
        using dist cold' by (simp add: distinct_cold_slots_def item_place_def)
      obtain br c3 where bind: "bind_cold g layer l Map.empty c2 = (br, c3)" by fastforce
      obtain res where res: "br = Inr res" "pinned c3 = pinned c" "phase2 g d layer res ?nf stage c3"
        "dom res = {e \<in> snd ` set us. dir_at (directory c) e = Cold}"
        "\<forall>e. pin_at c e \<longrightarrow> e \<notin> dom res \<longrightarrow> dir_at (directory c3) e = dir_at (directory c) e"
        using batch_bind_ok [OF b cold' dist' _ bind] rd rr by auto
      obtain hq c4 where hits: "resolve_hits g d layer us res ?nf stage c3 = (hq, c4)" by fastforce
      note cb = cold_batch_ok [OF b cold']
      have sum: "length (filter (\<lambda>(x, e). res e = None) us) + length l = length us"
      proof -
        have "filter (\<lambda>(x, e). res e = None) us = filter (\<lambda>z. \<not> (case z of (x, e) \<Rightarrow> dir_at (directory c) e = Cold)) us"
          using res(4) by (intro filter_cong) (force simp: dom_def)+
        then show ?thesis
          using cb(11) sum_length_filter_compl [of "\<lambda>(x, e). dir_at (directory c) e = Cold" us] by simp
      qed
      have h: "pinned c4 = pinned c3 \<and> cache_inv g d c4 \<and>
        (case hq of Inl e \<Rightarrow> e = EIo ''dma'' \<and> flush_ok c4
         | Inr (res', nf') \<Rightarrow> \<exists>stage'. phase2 g d layer res' nf' stage' c4 \<and> stage' \<le> host_slots g \<and>
             dom res' = dom res \<union> snd ` set us)"
      proof -
        have us: "\<forall>(x, eid) \<in> set us. pin_at c3 eid \<and> eid = layer * geo_routed g + x"
          using b' res(2) by (auto simp: pin_at_def)
        have warm: "\<forall>(x, eid) \<in> set us. res eid = None \<longrightarrow> dir_at (directory c3) eid \<noteq> Cold"
        proof clarify
          fix x e assume xe: "(x, e) \<in> set us" "res e = None" "dir_at (directory c3) e = Cold"
          then have out: "e \<notin> dom res" by auto
          moreover have "pin_at c e" using b' xe(1) by auto
          ultimately have "dir_at (directory c) e = Cold" using res(5) xe(3) by auto
          then show False using out xe(1) unfolding res(4) by force
        qed
        have "stage + length (filter (\<lambda>(x, eid). res eid = None) us) \<le> host_slots g"
          using cb(9) sum b' by linarith
        from resolve_hits_ok [OF _ res(3) us warm this hits] b' show ?thesis by simp
      qed
      show ?thesis
      proof (cases hq)
        case (Inl e)
        then show ?thesis
          using run cold' read rr bind res(1,2) hits h by (auto simp: acquire_pinned_def Let_def)
      next
        case hq: (Inr t)
        obtain res' nf' where t: "t = (res', nf')" by fastforce
        obtain stage' where ph: "phase2 g d layer res' nf' stage' c4" "stage' \<le> host_slots g"
          "snd ` set us \<subseteq> dom res'"
          using h hq t by auto
        let ?c5 = "if nf' then flush_cpu_writes c4 else c4"
        have out: "r = try_map (\<lambda>x. ok_or (EPanic ''no entry found for key'') (res' (layer * geo_routed g + x))) experts"
          "c' = ?c5"
          using run cold' read rr bind res(1) hits hq t by (auto simp: acquire_pinned_def Let_def)
        have c5: "cache_inv g d ?c5" "flush_ok ?c5" "no_leak g ?c5" "pinned ?c5 = pinned c"
        proof -
          have "cache_inv g d c4" "no_leak g c4" "nf' \<or> flush_ok c4" "pinned c4 = pinned c"
            using ph(1) h res(2) by (auto simp: phase2_def)
          then show "cache_inv g d ?c5" "flush_ok ?c5" "no_leak g ?c5" "pinned ?c5 = pinned c"
            by (auto simp: no_leak_def)
        qed
        have view: "\<exists>v. res' (layer * geo_routed g + x) = Some v \<and>
            view_ok g d layer {1..<host_slots g} ?c5 (layer * geo_routed g + x) v" if xin: "x \<in> set experts" for x
        proof -
          obtain v where v: "res' (layer * geo_routed g + x) = Some v" using ex ph(3) xin by blast
          then have "view_ok g d layer {1..<stage'} c4 (layer * geo_routed g + x) v"
            using ph(1) by (simp add: phase2_def views_ok_def)
          then have "view_ok g d layer {1..<host_slots g} ?c5 (layer * geo_routed g + x) v"
            by (rule view_ok_mono) (use ph(2) in auto)
          then show ?thesis using v by blast
        qed
        have "\<exists>vs. try_map (\<lambda>x. ok_or (EPanic ''no entry found for key'') (res' (layer * geo_routed g + x))) es = Inr vs \<and>
            list_all2 (\<lambda>x v. view_ok g d layer {1..<host_slots g} ?c5 (layer * geo_routed g + x) v) es vs"
          if "set es \<subseteq> set experts" for es
          using that
        proof (induction es)
          case (Cons a es)
          then show ?case using view [of a] by force
        qed simp
        from this [of experts] show ?thesis using out c5 by auto
      qed
    qed
  qed
qed

lemma acquire_layer_ok:
  assumes g: "geometry_ok g d" and inv: "cache_inv g d c" "no_leak g c" "flush_ok c" "\<forall>e. \<not> pin_at c e"
    and dist: "\<forall>us c1. pin_experts g layer experts c = (Inr us, c1) \<longrightarrow> distinct_cold_slots g us c1"
    and run: "acquire_layer g d layer experts c = (r, c')"
  shows "cache_inv g d c' \<and> flush_ok c' \<and>
    (case r of
       Inl e \<Rightarrow> \<forall>m. e \<noteq> EPanic m
     | Inr vs \<Rightarrow> no_leak g c' \<and> (\<forall>e. \<not> pin_at c' e) \<and>
         list_all2 (\<lambda>x v. view_ok g d layer {1..<host_slots g} c' (layer * geo_routed g + x) v) experts vs)"
proof (cases "layer \<ge> geo_layers g")
  case True
  then show ?thesis using run inv by (auto simp: acquire_layer_def)
next
  case False
  obtain q c1 where pin: "pin_experts g layer experts c = (q, c1)" by fastforce
  note pk = pin_experts_ok [OF pin inv(1) g]
  have frame: "vram_owners c1 = vram_owners c" "vram_free c1 = vram_free c" "unflushed c1 = unflushed c"
  proof -
    have eq: "c1 = c\<lparr> routing_counts := routing_counts c1, pinned := pinned c1 \<rparr>" using pk by blast
    show "vram_owners c1 = vram_owners c" "vram_free c1 = vram_free c" "unflushed c1 = unflushed c"
      using arg_cong [OF eq, of vram_owners] arg_cong [OF eq, of vram_free] arg_cong [OF eq, of unflushed]
      by simp_all
  qed
  then have c1: "flush_ok c1" "no_leak g c1" using inv by (simp_all add: flush_ok_def no_leak_def)
  show ?thesis
  proof (cases q)
    case (Inl e)
    then show ?thesis using run False pin pk c1 by (auto simp: acquire_layer_def)
  next
    case (Inr us)
    have us: "\<forall>e. pin_at c1 e \<longleftrightarrow> e \<in> snd ` set us" "distinct (map snd us)"
      "\<forall>(x, e) \<in> set us. e = layer * geo_routed g + x"
      "\<forall>x \<in> set experts. pin_at c1 (layer * geo_routed g + x)"
      using pk Inr inv(4) by auto
    have unpinned: "\<not> pin_at (unpin us c2) e" if "pinned c2 = pinned c1" for c2 e
    proof -
      have "pin_at c2 e \<longleftrightarrow> e \<in> snd ` set us" using us(1) that by (simp add: pin_at_def)
      then show ?thesis using unpin_ok(2) [of us c2 e] by simp
    qed
    have un: "flush_ok (unpin us c2) = flush_ok c2" "no_leak g (unpin us c2) = no_leak g c2"
      "view_ok g d layer S (unpin us c2) = view_ok g d layer S c2" for c2 S
      by (simp_all add: unpin_eq flush_ok_def no_leak_def view_ok_def fun_eq_iff)
    show ?thesis
    proof (cases "length us > host_slots g - 1")
      case True
      then show ?thesis
        using run False pin Inr pk c1 by (auto simp: acquire_layer_def un intro: unpin_ok)
    next
      case small: False
      have "\<forall>(x, e) \<in> set us. pin_at c1 e \<and> e = layer * geo_routed g + x"
        using us(1,3) by force
      moreover have "length us + 1 \<le> host_slots g" using small g by (auto simp: geometry_ok_def)
      ultimately have "batch_ready g d layer us c1"
        using g pk c1 us(2) by (simp add: batch_ready_def)
      moreover have "distinct_cold_slots g us c1" using dist pin Inr by simp
      moreover have "\<forall>x \<in> set experts. layer * geo_routed g + x \<in> snd ` set us" using us(1,4) by simp
      moreover obtain p c2 where acq: "acquire_pinned g d layer experts us c1 = (p, c2)" by fastforce
      ultimately have ok: "cache_inv g d c2 \<and> pinned c2 = pinned c1 \<and> flush_ok c2 \<and>
        (case p of Inl e \<Rightarrow> \<forall>m. e \<noteq> EPanic m
         | Inr vs \<Rightarrow> no_leak g c2 \<and>
           list_all2 (\<lambda>x v. view_ok g d layer {1..<host_slots g} c2 (layer * geo_routed g + x) v) experts vs)"
        by (rule acquire_pinned_ok)
      have out: "r = p" "c' = unpin us c2" using run False pin Inr small acq by (auto simp: acquire_layer_def)
      show ?thesis
        unfolding out using ok unpinned by (cases p) (auto simp: un intro: unpin_ok)
    qed
  qed
qed

section \<open>Distinct destinations\<close>

text \<open>While the batch is served from the free lists, its destinations are distinct.\<close>

definition free_places :: "expert_cache \<Rightarrow> slot_place set" where
  "free_places c = PVram ` set (vram_free c) \<union> PRam ` set (ram_free c)"

lemma pick_target_room:
  assumes inv: "cache_inv g d c" and run: "pick_target g stage c = (Inr (t, stage'), c')"
    and room: "0 < length (vram_free c) + length (ram_free c)"
  shows "target_place t \<in> free_places c \<and> free_places c' \<subseteq> free_places c - {target_place t} \<and>
    length (vram_free c) + length (ram_free c) = Suc (length (vram_free c') + length (ram_free c'))"
proof (cases "vram_free c" rule: rev_cases)
  case (snoc fs s)
  then have "t = TVram s" "c' = c\<lparr> vram_free := fs \<rparr>" using run by (auto simp: pick_target_def pop_def)
  moreover have "s \<notin> set fs" using inv snoc by (auto simp: cache_inv_def free_ok_def)
  ultimately show ?thesis using snoc by (auto simp: free_places_def)
next
  case Nil
  then obtain fs r where rf: "ram_free c = fs @ [r]" using room by (cases "ram_free c" rule: rev_cases) auto
  have f: "free_ok (ram_owners c) (ram_free c)" "length (ram_owners c) = ram_capacity g"
    using inv by (auto simp: cache_inv_def)
  then have "r < ram_capacity g" "r \<notin> set fs" using rf by (auto simp: free_ok_def)
  then have "t = TRamAndHost r stage" "c' = c\<lparr> ram_free := fs \<rparr>"
    using run Nil rf by (auto simp: pick_target_def alloc_ram_slot_def pop_def)
  then show ?thesis using Nil rf \<open>r \<notin> set fs\<close> by (auto simp: free_places_def)
qed

lemma cold_targets_room:
  assumes "cache_inv g d c" "cold_targets g us stage c = (Inr (l, stage'), c')" "stage + length us \<le> host_slots g"
    and "\<forall>(x, eid) \<in> set us. pin_at c eid"
    and "length (filter (\<lambda>(x, eid). dir_at (directory c) eid = Cold) us) \<le> length (vram_free c) + length (ram_free c)"
  shows "distinct (map item_place l) \<and> item_place ` set l \<subseteq> free_places c"
  using assms
proof (induction us arbitrary: stage c l)
  case (Cons u us)
  obtain x eid where u: "u = (x, eid)" by fastforce
  have dir: "directory c ! eid = dir_at (directory c) eid"
    using Cons.prems(1,4) u by (simp add: pin_at_def dir_at_def cache_inv_def)
  show ?case
  proof (cases "dir_at (directory c) eid = Cold")
    case False
    then show ?thesis using Cons dir u by simp
  next
    case True
    let ?c = "count_cold_miss g eid c"
    obtain t stage1 c1 l1 where 1: "pick_target g stage ?c = (Inr (t, stage1), c1)"
      "cold_targets g us stage1 c1 = (Inr (l1, stage'), c')" "l = (x, eid, t) # l1"
      using Cons.prems(2) True dir u by (auto split: prod.splits sum.splits)
    have same: "free_places ?c = free_places c" "vram_free ?c = vram_free c" "ram_free ?c = ram_free c"
      by (simp_all add: free_places_def count_cold_miss_def)
    have pk: "cache_inv g d c1" "keep c c1" "stage1 \<le> stage + 1"
      using pick_target_ok [OF _ 1(1), of d] Cons.prems(1,3) keep_trans [of c ?c c1] by auto
    have room: "target_place t \<in> free_places c" "free_places c1 \<subseteq> free_places c - {target_place t}"
      "length (vram_free c) + length (ram_free c) = Suc (length (vram_free c1) + length (ram_free c1))"
    proof -
      have "Suc 0 \<le> length (vram_free c) + length (ram_free c)"
        using Cons.prems(5) True u by (intro le_trans [OF _ Cons.prems(5)]) simp
      then have "0 < length (vram_free c) + length (ram_free c)" by linarith
      then show "target_place t \<in> free_places c" "free_places c1 \<subseteq> free_places c - {target_place t}"
        "length (vram_free c) + length (ram_free c) = Suc (length (vram_free c1) + length (ram_free c1))"
        using pick_target_room [OF _ 1(1), of d, unfolded same] Cons.prems(1) by simp_all
    qed
    have "filter (\<lambda>(x, eid). dir_at (directory c1) eid = Cold) us = filter (\<lambda>(x, eid). dir_at (directory c) eid = Cold) us"
      using Cons.prems(4) pk(2) by (intro filter_cong) (auto simp: keep_def)
    then have "length (filter (\<lambda>(x, eid). dir_at (directory c1) eid = Cold) us) \<le> length (vram_free c1) + length (ram_free c1)"
      using Cons.prems(5) True u room(3) by simp
    moreover have "\<forall>(x, eid) \<in> set us. pin_at c1 eid" using Cons.prems(4) pk(2) by (auto simp: keep_def pin_at_def)
    ultimately have "distinct (map item_place l1) \<and> item_place ` set l1 \<subseteq> free_places c1"
      using Cons.IH [OF pk(1) 1(2)] Cons.prems(3) pk(3) by simp
    moreover have "item_place (x, eid, t) = target_place t" by (simp add: item_place_def)
    ultimately show ?thesis unfolding 1(3) using room by auto
  qed
qed simp

end
