(* ===== verification/ExpertCacheProps.thy ===== *)
theory ExpertCacheProps
  imports ExpertCacheAcquire
begin

text \<open>
  The properties of the expert cache, over the lemmas of \<open>ExpertCacheAcquire\<close>, and concrete runs
  that show what happens outside their hypotheses.
\<close>

section \<open>Statements\<close>

text \<open>A cache between two calls: consistent, nothing leaked, nothing unflushed, nothing pinned.\<close>

definition cache_ok :: "expert_geometry \<Rightarrow> device \<Rightarrow> expert_cache \<Rightarrow> bool" where
  "cache_ok g d c \<longleftrightarrow> cache_inv g d c \<and> no_leak g c \<and> flush_ok c \<and> (\<forall>e. \<not> pin_at c e)"

text \<open>The request's cold experts get pairwise distinct destinations.\<close>

definition distinct_request :: "expert_geometry \<Rightarrow> nat \<Rightarrow> nat list \<Rightarrow> expert_cache \<Rightarrow> bool" where
  "distinct_request g layer experts c \<longleftrightarrow>
     (case pin_experts g layer experts c of (Inr us, c1) \<Rightarrow> distinct_cold_slots g us c1 | _ \<Rightarrow> True)"

text \<open>The bytes the GPU reads at the view: its address is a flushed VRAM slot the expert owns, or a
  staging slot, and the slot starts with the expert's bytes on the drive.\<close>

definition view_serves :: "expert_geometry \<Rightarrow> device \<Rightarrow> expert_cache \<Rightarrow> nat \<Rightarrow> expert_view \<Rightarrow> bool" where
  "view_serves g d c eid v \<longleftrightarrow>
     view_tensors v = map (\<lambda>k. base_va v + sub_offsets g ! eid ! k) [0..<EXPERT_EXTENTS] \<and>
     ((\<exists>s < vram_capacity g. base_va v = vram_slot_va g s \<and> vram_owners c ! s = Some eid \<and>
         s \<notin> set (unflushed c) \<and> take (expert_bytes g eid) (vram_mem c ! s) = expert_image g d eid) \<or>
      (\<exists>st < host_slots g. 0 < st \<and> base_va v = host_base_va g + st * slot_stride g \<and>
         take (expert_bytes g eid) (host_mem c ! st) = expert_image g d eid))"

lemma view_ok_serves:
  assumes "view_ok g d layer S c eid v" "cache_inv g d c" "flush_ok c"
  shows "view_serves g d c eid v"
proof -
  obtain x src where v: "v = make_view g layer x eid (base_va v) src" using assms(1) by (auto simp: view_ok_def)
  have "view_tensors v = map (\<lambda>k. base_va v + sub_offsets g ! eid ! k) [0..<EXPERT_EXTENTS]"
    by (subst v) (simp add: make_view_def)
  then show ?thesis
    using view_ok_content [OF assms(1,2)] assms(3)
    by (auto simp: view_serves_def flush_ok_def own_at_def split: if_splits)
qed

lemma cache_inv_exclusive:
  assumes "cache_inv g d c" shows "check_exclusivity_invariant c"
proof -
  have nth: "dir_at (directory c) e = r \<Longrightarrow> r \<noteq> Cold \<Longrightarrow> directory c ! e = r" for e r
    by (auto simp: dir_at_def split: if_splits)
  have ok: "tier_ok Vram (vram_owners c) (directory c)" "tier_ok Ram (ram_owners c) (directory c)"
    using assms by (auto simp: cache_inv_def)
  have v: "directory c ! e = Vram s" if "s < length (vram_owners c)" "vram_owners c ! s = Some e" for s e
  proof (rule nth)
    have "own_at (vram_owners c) s = Some e" using that by (simp add: own_at_def)
    then show "dir_at (directory c) e = Vram s" using ok(1) unfolding tier_ok_def by blast
  qed simp
  have r: "directory c ! e = Ram s" if "s < length (ram_owners c)" "ram_owners c ! s = Some e" for s e
  proof (rule nth)
    have "own_at (ram_owners c) s = Some e" using that by (simp add: own_at_def)
    then show "dir_at (directory c) e = Ram s" using ok(2) unfolding tier_ok_def by blast
  qed simp
  show ?thesis
    unfolding check_exclusivity_invariant_def list_all_iff
    using v r by (force simp: in_set_enumerate_eq split: option.splits)
qed

lemma request_hyp:
  "distinct_request g layer experts c \<Longrightarrow>
   \<forall>us c1. pin_experts g layer experts c = (Inr us, c1) \<longrightarrow> distinct_cold_slots g us c1"
  by (auto simp: distinct_request_def)

section \<open>Properties\<close>

text \<open>
  C1: What \<^verbatim>\<open>acquire_layer\<close> returns is what the drive holds: when the cold experts of the request
  get distinct slots, every returned view has the tensor addresses of its expert and points at
  memory that starts with exactly that expert's bytes (in VRAM: flushed and owned by it), and
  the cache is consistent again for the next call, whatever was promoted, swapped or evicted.
\<close>

theorem acquire_layer_serves:
  assumes "geometry_ok g d" "cache_ok g d c" "distinct_request g layer experts c"
    and "acquire_layer g d layer experts c = (Inr vs, c')"
  shows "cache_ok g d c' \<and> length vs = length experts \<and>
    (\<forall>i < length experts. view_serves g d c' (layer * geo_routed g + experts ! i) (vs ! i))"
proof -
  have "cache_inv g d c'" "flush_ok c'" "no_leak g c'" "\<forall>e. \<not> pin_at c' e"
    "list_all2 (\<lambda>x v. view_ok g d layer {1..<host_slots g} c' (layer * geo_routed g + x) v) experts vs"
    using acquire_layer_ok [OF assms(1) _ _ _ _ request_hyp [OF assms(3)] assms(4)] assms(2)
    by (auto simp: cache_ok_def)
  then show ?thesis
    using view_ok_serves by (auto simp: cache_ok_def list_all2_conv_all_nth)
qed

text \<open>
  C2: Under the same hypotheses \<^verbatim>\<open>acquire_layer\<close> never panics, and on every outcome, errors
  included, the directory and the slot owners agree, every resident expert's bytes are intact and
  no owned VRAM slot has unflushed writes; so the debug assertion on exclusivity holds.
\<close>

theorem acquire_layer_never_panics:
  assumes "geometry_ok g d" "cache_ok g d c" "distinct_request g layer experts c"
  shows "fst (acquire_layer g d layer experts c) \<noteq> Inl (EPanic m) \<and>
    cache_inv g d (snd (acquire_layer g d layer experts c)) \<and>
    flush_ok (snd (acquire_layer g d layer experts c)) \<and>
    check_exclusivity_invariant (snd (acquire_layer g d layer experts c))"
proof -
  obtain r c' where run: "acquire_layer g d layer experts c = (r, c')" by fastforce
  have "cache_inv g d c' \<and> flush_ok c' \<and> (case r of Inl e \<Rightarrow> \<forall>m. e \<noteq> EPanic m | Inr vs \<Rightarrow> True)"
    using acquire_layer_ok [OF assms(1) _ _ _ _ request_hyp [OF assms(3)] run] assms(2)
    by (auto simp: cache_ok_def split: sum.splits)
  then show ?thesis using cache_inv_exclusive run by (auto split: sum.splits)
qed

text \<open>
  While the cold experts of a request fit in the free slots of the two tiers, their
  destinations are distinct.
\<close>

theorem distinct_request_when_room:
  assumes "geometry_ok g d" "cache_ok g d c"
    and "\<forall>us c1. pin_experts g layer experts c = (Inr us, c1) \<longrightarrow> length us < host_slots g \<and>
      length (filter (\<lambda>(x, eid). dir_at (directory c) eid = Cold) us) \<le> length (vram_free c) + length (ram_free c)"
  shows "distinct_request g layer experts c"
proof -
  obtain q c1 where pin: "pin_experts g layer experts c = (q, c1)" by fastforce
  show ?thesis
  proof (cases q)
    case (Inl e)
    then show ?thesis using pin by (simp add: distinct_request_def)
  next
    case (Inr us)
    have inv: "cache_inv g d c" "\<forall>e. \<not> pin_at c e" using assms(2) by (auto simp: cache_ok_def)
    note pk = pin_experts_ok [OF pin inv(1) assms(1), unfolded Inr sum.case]
    then have eq: "c1 = c\<lparr> routing_counts := routing_counts c1, pinned := pinned c1 \<rparr>" by blast
    have same: "directory c1 = directory c" "vram_free c1 = vram_free c" "ram_free c1 = ram_free c"
      using arg_cong [OF eq, of directory] arg_cong [OF eq, of vram_free] arg_cong [OF eq, of ram_free] by simp_all
    have room: "1 + length us \<le> host_slots g"
      "length (filter (\<lambda>(x, eid). dir_at (directory c1) eid = Cold) us) \<le> length (vram_free c1) + length (ram_free c1)"
      using assms(3) pin Inr by (auto simp: same)
    have pins: "\<forall>(x, eid) \<in> set us. pin_at c1 eid" using pk by force
    obtain p c2 where cold: "cold_targets g us 1 c1 = (p, c2)" by fastforce
    have "distinct (map item_place l)" if "p = Inr (l, st)" for l st
      using cold_targets_room [OF _ cold [unfolded that] room(1) pins room(2), of d] pk by blast
    then show ?thesis
      using pin Inr cold
      by (auto simp: distinct_request_def distinct_cold_slots_def item_place_def split: sum.splits)
  qed
qed

text \<open>
  A catalog that opened gives the cache its layout: six extents per expert at running offsets
  that fit one slot, and an entry for every layer and expert, so the properties above apply to the
  cache built from it.
\<close>

theorem geometry_from_catalog:
  assumes "catalog_open ph files cfg wm = Inr c" "n_layers cfg * n_routed_experts cfg < 2 ^ 64"
    and "\<forall>e. length (rd_data d e) = len e" "\<forall>es \<in> set (cat_experts c). sum_list (map len es) < 2 ^ 64"
  shows "geometry_ok (expert_geometry_new c p vram_va host_va) d"
proof -
  obtain b where b: "build_ok (extent_ok files (cat_shards c)) (n_layers cfg * n_routed_experts cfg mod 2 ^ 64) b"
    "b_experts b = map (map Some) (cat_experts c)" "cat_config c = cfg"
    "\<forall>es \<in> set (cat_experts c). slot_len es \<le> expert_slot c"
    using assms(1) by (rule catalog_open_build)
  have slots: "\<forall>es \<in> set (cat_experts c). sum_list (map len es) \<le> expert_slot c"
    using b(4) assms(4) slot_len_exact by metis
  have n: "length (cat_experts c) = n_layers cfg * n_routed_experts cfg"
    using b(1,2) assms(2) by (simp add: build_ok_def)
  have "length (cat_experts c ! i) = EXPERT_EXTENTS" if i: "i < length (cat_experts c)" for i
  proof -
    have "length (b_experts b ! i) = EXPERT_EXTENTS" using b(1) i n assms(2) by (simp add: build_ok_def)
    then show ?thesis using b(2) i by simp
  qed
  then show ?thesis
    using n b(3) slots assms(3) by (simp add: geometry_ok_def expert_geometry_new_def STAGING_SLOTS_def)
qed

section \<open>A small instance\<close>

definition demo_extents :: "nat \<Rightarrow> extent list" where
  "demo_extents i = map (\<lambda>k. \<lparr> shard = 0, offset = 6 * i + k, len = 1 \<rparr>) [0..<6]"

definition demo_geometry :: "nat \<Rightarrow> nat \<Rightarrow> nat \<Rightarrow> expert_geometry" where
  "demo_geometry n v r =
     \<lparr> geo_layers = 1, geo_routed = n, slot_bytes = 6, slot_stride = 256,
       geo_extents = map demo_extents [0..<n], sub_offsets = map (running_offsets 0 \<circ> demo_extents) [0..<n],
       vram_base_va = 0, vram_capacity = v, ram_capacity = r, host_base_va = 100000,
       host_slots = STAGING_SLOTS \<rparr>"

definition demo_data :: "extent \<Rightarrow> bytes" where
  "demo_data e = replicate (len e) (of_nat (offset e))"

definition no_fault :: "read_op list \<Rightarrow> nat option" where
  "no_fault ops = None"

definition first_read_fails :: "read_op list \<Rightarrow> nat option" where
  "first_read_fails ops = Some 0"

definition dma_works :: "nat \<Rightarrow> nat \<Rightarrow> bool" where
  "dma_works s n \<longleftrightarrow> True"

definition demo_device :: device where
  "demo_device = \<lparr> rd_data = demo_data, rd_fault = no_fault, dma_ok = dma_works \<rparr>"

text \<open>The same device with a drive whose next batch fails.\<close>

definition faulty_device :: device where
  "faulty_device = demo_device\<lparr> rd_fault := first_read_fails \<rparr>"

definition acquire_all :: "expert_geometry \<Rightarrow> (device \<times> nat list) list \<Rightarrow> expert_cache \<Rightarrow> expert_cache" where
  "acquire_all g = fold (\<lambda>(d, experts) c. snd (acquire_layer g d 0 experts c))"

lemma demo_geometry_ok: "geometry_ok (demo_geometry n v r) demo_device"
proof -
  have "sum_list (map len (demo_extents i)) = 6" for i by (simp add: demo_extents_def upt_rec)
  moreover have "length (demo_extents i) = 6" for i by (simp add: demo_extents_def)
  ultimately show ?thesis
    by (simp add: geometry_ok_def demo_geometry_def demo_device_def demo_data_def STAGING_SLOTS_def EXPERT_EXTENTS_def)
qed

lemma new_cache_ok: "cache_ok g d (expert_cache_new g)"
proof -
  have "no_leak g (expert_cache_new g)" "flush_ok (expert_cache_new g)" "\<not> pin_at (expert_cache_new g) e" for e
    by (auto simp: no_leak_def flush_ok_def pin_at_def expert_cache_new_def Let_def)
  then show ?thesis using cache_inv_new by (auto simp: cache_ok_def)
qed

abbreviation demo_cache :: expert_cache where
  "demo_cache \<equiv> expert_cache_new (demo_geometry 4 2 2)"

lemma demo_request: "distinct_request (demo_geometry 4 2 2) 0 [1, 3] demo_cache"
  by code_simp

theorem acquire_layer_serves_witness:
  "\<exists>vs c'. acquire_layer (demo_geometry 4 2 2) demo_device 0 [1, 3] demo_cache = (Inr vs, c') \<and>
     view_serves (demo_geometry 4 2 2) demo_device c' 3 (vs ! 1)"
proof -
  let ?A = "acquire_layer (demo_geometry 4 2 2) demo_device 0 [1, 3] demo_cache"
  have "is_ok (fst ?A)" by code_simp
  then obtain vs where "fst ?A = Inr vs" unfolding is_ok_def by (cases "fst ?A") auto
  then have run: "?A = (Inr vs, snd ?A)" by (metis prod.collapse)
  have "\<forall>i < length [1, 3 :: nat]. view_serves (demo_geometry 4 2 2) demo_device (snd ?A)
      (0 * geo_routed (demo_geometry 4 2 2) + [1, 3] ! i) (vs ! i)"
    using acquire_layer_serves [OF demo_geometry_ok new_cache_ok demo_request run] by blast
  from this [rule_format, of 1] have "view_serves (demo_geometry 4 2 2) demo_device (snd ?A) 3 (vs ! 1)" by simp
  then show ?thesis using run by blast
qed

theorem acquire_layer_never_panics_witness:
  "fst (acquire_layer (demo_geometry 4 2 2) demo_device 0 [1, 3] demo_cache) \<noteq> Inl (EPanic [])"
  using acquire_layer_never_panics [OF demo_geometry_ok new_cache_ok demo_request] by blast

theorem geometry_from_catalog_witness:
  "\<exists>c. tiny_catalog = Inr c \<and> geometry_ok (expert_geometry_new c
     \<lparr> pl_core = 0, pl_kv = 0, vram_expert_slots = 1, ram_expert_slots = 0, pl_engram_ram = 0,
        pl_expert_total = 1, pl_engram_total = 0, pl_drive_total = 12 \<rparr> 0 4096) demo_device"
proof -
  obtain c where c: "tiny_catalog = Inr c" "\<forall>es \<in> set (cat_experts c). sum_list (map len es) < 2 ^ 64"
    using tiny_catalog_opens by blast
  have "n_layers tiny_config * n_routed_experts tiny_config < 2 ^ 64" "\<forall>e. length (rd_data demo_device e) = len e"
    by (simp_all add: tiny_config_def demo_device_def demo_data_def)
  from geometry_from_catalog [OF c(1) [unfolded tiny_catalog_def] this c(2)] show ?thesis using c(1) by blast
qed

theorem distinct_request_when_room_witness: "distinct_request (demo_geometry 4 2 2) 0 [1, 3] demo_cache"
proof (rule distinct_request_when_room [OF demo_geometry_ok new_cache_ok], intro allI impI)
  fix us c1 assume *: "pin_experts (demo_geometry 4 2 2) 0 [1, 3] demo_cache = (Inr us, c1)"
  have "case_sum (\<lambda>_. False) (\<lambda>us. length us = 2) (fst (pin_experts (demo_geometry 4 2 2) 0 [1, 3] demo_cache))"
    by code_simp
  then have "length us = 2" using * by simp
  then show "length us < host_slots (demo_geometry 4 2 2) \<and>
      length (filter (\<lambda>(x, eid). dir_at (directory demo_cache) eid = Cold) us) \<le>
      length (vram_free demo_cache) + length (ram_free demo_cache)"
    using length_filter_le [of "\<lambda>(x, eid). dir_at (directory demo_cache) eid = Cold" us]
    by (simp add: demo_geometry_def expert_cache_new_def STAGING_SLOTS_def Let_def)
qed

section \<open>Outside the hypotheses\<close>

text \<open>
  Distinctness can fail in an ordinary run: with ten experts, one VRAM slot and three RAM slots,
  after experts 0 to 5 were requested one at a time, a request for the two cold experts 6 and 7
  gives both the same RAM slot.  The call succeeds, the exclusivity check does not notice, and the
  view returned for expert 6 points at expert 7's bytes.
\<close>

theorem cold_batch_collision:
  "let g = demo_geometry 10 1 3;
       c = acquire_all g (map (\<lambda>e. (demo_device, [e])) [0, 1, 2, 3, 4, 5]) (expert_cache_new g);
       (r, c') = acquire_layer g demo_device 0 [6, 7] c
   in (case r of
         Inl _ \<Rightarrow> False
       | Inr vs \<Rightarrow>
           directory c' ! 6 = directory c' ! 7 \<and> check_exclusivity_invariant c' \<and>
           base_va (vs ! 0) = host_base_va g + 1 * slot_stride g \<and>
           host_mem c' ! 1 = expert_image g demo_device 7 \<and>
           expert_image g demo_device 6 \<noteq> expert_image g demo_device 7)"
  by code_simp

text \<open>
  A failed batch read leaks the VRAM slot it had taken from the free list: it has no owner and is
  not free.  A later promotion selects it as its victim and panics.
\<close>

theorem read_failure_panics_later:
  "let g = demo_geometry 4 2 2;
       c = acquire_all g ([(demo_device, [0]), (faulty_device, [1])] @
             map (\<lambda>e. (demo_device, [e])) [1, 2, 1, 1, 1, 0, 0]) (expert_cache_new g)
   in fst (acquire_layer g demo_device 0 [0] c) = Inl (EPanic ''selected VRAM slot must have an owner'')"
  by code_simp

text \<open>
  A request that names an expert outside the model returns an error but leaves the experts before
  it pinned; the next valid request for one of them panics instead of being served.
\<close>

theorem rejected_request_leaks_pin:
  "let g = demo_geometry 4 2 2;
       c = acquire_all g [(demo_device, [0, 99])] (expert_cache_new g)
   in fst (acquire_layer g demo_device 0 [0, 99] (expert_cache_new g)) = Inl (EInvalid ''expert outside'') \<and>
      pin_at c 0 \<and> fst (acquire_layer g demo_device 0 [0] c) = Inl (EPanic ''no entry found for key'')"
  by code_simp

end
