(* ===== verification/ReadPlan.thy ===== *)
theory ReadPlan
  imports Catalog "HOL-Library.Product_Lexorder" "HOL-Library.Multiset"
begin

text \<open>
  Planning of weight reads (\<^verbatim>\<open>chatty-metal/src/store.rs\<close>, \<^verbatim>\<open>plan_read_tasks\<close> and
  \<^verbatim>\<open>finish_chunk\<close>): requested extents are split at 4 MiB file boundaries, sorted, and
  coalesced into aligned chunk tasks that fit one bounce buffer.  \<^verbatim>\<open>u64\<close> arithmetic wraps as in
  a release build, and the splitting loop is a partial function: not returning is \<open>None\<close>.
  \<^verbatim>\<open>sort_unstable_by_key\<close> leaves the order of equal keys open, so the sort is an argument
  of which only \<open>sorts_ops\<close> is known.
\<close>

section \<open>Data\<close>

definition DIRECT_ALIGN :: nat where "DIRECT_ALIGN = 4096"
definition CHUNK_BYTES :: nat where "CHUNK_BYTES = 4 * 2 ^ 20"
definition COALESCE_GAP :: nat where "COALESCE_GAP = 64 * 2 ^ 10"

record sub_read_op =
  op_shard :: nat
  op_offset :: nat
  op_len :: nat
  op_dst :: nat

record chunk_task =
  task_shard :: nat
  aligned_offset :: nat
  aligned_len :: nat
  required_len :: nat
  task_ops :: "nat \<times> nat"

record open_span =
  group_start :: nat
  cur_shard :: nat
  span_start :: nat
  span_end :: nat

section \<open>Planning\<close>

text \<open>\<^verbatim>\<open>x & !(DIRECT_ALIGN - 1)\<close> and \<^verbatim>\<open>x.next_multiple_of(DIRECT_ALIGN)\<close> on \<^verbatim>\<open>u64\<close>.\<close>

definition align_down :: "nat \<Rightarrow> nat" where
  "align_down x = x - x mod DIRECT_ALIGN"

definition align_up :: "nat \<Rightarrow> nat" where
  "align_up x = next_multiple_of x DIRECT_ALIGN mod 2 ^ 64"

definition finish_chunk :: "nat \<Rightarrow> nat \<Rightarrow> nat \<Rightarrow> nat \<times> nat \<Rightarrow> chunk_task" where
  "finish_chunk sh start fin ops =
     \<lparr> task_shard = sh, aligned_offset = align_down start,
       aligned_len = wsub (align_up fin) (align_down start),
       required_len = wsub fin (align_down start), task_ops = ops \<rparr>"

partial_function (option) split_extent ::
  "nat \<Rightarrow> nat \<Rightarrow> nat \<Rightarrow> nat \<Rightarrow> sub_read_op list \<Rightarrow> sub_read_op list option" where
  "split_extent sh off fin cur_dst acc =
     (if off < fin then
        (let window_end = wmul (wadd (off div CHUNK_BYTES) 1) CHUNK_BYTES;
             piece_end = min fin window_end;
             piece_len = wsub piece_end off in
         split_extent sh piece_end fin (wadd cur_dst piece_len)
           (acc @ [\<lparr> op_shard = sh, op_offset = off, op_len = piece_len, op_dst = cur_dst \<rparr>]))
      else Some acc)"

declare split_extent.simps [code]

fun collect_sub_ops ::
  "nat \<Rightarrow> (extent \<times> nat) list \<Rightarrow> sub_read_op list \<Rightarrow> (store_error + sub_read_op list) option" where
  "collect_sub_ops n [] acc = Some (Inr acc)"
| "collect_sub_ops n ((e, dst) # ops) acc =
     (if len e = 0 then collect_sub_ops n ops acc
      else if n \<le> shard e then Some (Inl (EInvalid ''extent shard exceeds shard count''))
      else (case checked_add 64 (offset e) (len e) of
              None \<Rightarrow> Some (Inl (EInvalid ''extent offset overflow''))
            | Some fin \<Rightarrow>
                (case split_extent (shard e) (offset e) fin dst acc of
                   None \<Rightarrow> None
                 | Some acc' \<Rightarrow> collect_sub_ops n ops acc')))"

definition can_coalesce :: "open_span \<Rightarrow> sub_read_op \<Rightarrow> bool" where
  "can_coalesce sp op =
     (let merged_end = max (span_end sp) (wadd (op_offset op) (op_len op)) in
      op_shard op = cur_shard sp
      \<and> op_offset op \<le> wadd (span_end sp) COALESCE_GAP
      \<and> wsub (align_up merged_end) (align_down (span_start sp)) \<le> CHUNK_BYTES)"

definition close_span :: "open_span \<Rightarrow> nat \<Rightarrow> chunk_task" where
  "close_span sp idx = finish_chunk (cur_shard sp) (span_start sp) (span_end sp) (group_start sp, idx)"

definition start_span :: "nat \<Rightarrow> sub_read_op \<Rightarrow> open_span" where
  "start_span idx op =
     \<lparr> group_start = idx, cur_shard = op_shard op, span_start = op_offset op,
       span_end = wadd (op_offset op) (op_len op) \<rparr>"

fun group_ops :: "nat \<Rightarrow> sub_read_op list \<Rightarrow> open_span \<Rightarrow> chunk_task list" where
  "group_ops idx [] sp = [close_span sp idx]"
| "group_ops idx (op # ops) sp =
     (if can_coalesce sp op
      then group_ops (Suc idx) ops (sp\<lparr> span_end := max (span_end sp) (wadd (op_offset op) (op_len op)) \<rparr>)
      else close_span sp idx # group_ops (Suc idx) ops (start_span idx op))"

definition plan_read_tasks ::
  "(sub_read_op list \<Rightarrow> sub_read_op list) \<Rightarrow> (extent \<times> nat) list \<Rightarrow> nat
   \<Rightarrow> (store_error + sub_read_op list \<times> chunk_task list) option" where
  "plan_read_tasks sort_ops ops n =
     (case collect_sub_ops n ops [] of
        None \<Rightarrow> None
      | Some (Inl e) \<Rightarrow> Some (Inl e)
      | Some (Inr subs) \<Rightarrow>
          (case sort_ops subs of
             [] \<Rightarrow> Some (Inr ([], []))
           | op # rest \<Rightarrow> Some (Inr (op # rest, group_ops 1 rest (start_span 0 op)))))"

text \<open>What \<^verbatim>\<open>sort_unstable_by_key\<close> promises, and one sort that keeps it.\<close>

definition op_key :: "sub_read_op \<Rightarrow> nat \<times> nat" where
  "op_key op = (op_shard op, op_offset op)"

definition sorts_ops :: "(sub_read_op list \<Rightarrow> sub_read_op list) \<Rightarrow> bool" where
  "sorts_ops f \<longleftrightarrow> (\<forall>xs. mset (f xs) = mset xs \<and> sorted (map op_key (f xs)))"

lemma sort_key_sorts: "sorts_ops (sort_key op_key)"
  by (simp add: sorts_ops_def)

section \<open>Alignment\<close>

text \<open>File offsets stay within a signed 64-bit \<^verbatim>\<open>off_t\<close>.\<close>

definition FILE_LIMIT :: nat where "FILE_LIMIT = 2 ^ 63"

lemma align_down_mult: "align_down x = DIRECT_ALIGN * (x div DIRECT_ALIGN)"
  by (simp add: align_down_def minus_mod_eq_mult_div)

lemma align_down_le [simp]: "align_down x \<le> x"
  by (simp add: align_down_def)

lemma align_down_dvd: "DIRECT_ALIGN dvd align_down x"
  by (simp add: align_down_mult)

lemma align_down_ge: "DIRECT_ALIGN dvd y \<Longrightarrow> y \<le> x \<Longrightarrow> y \<le> align_down x"
  by (metis align_down_mult div_le_mono dvd_mult_div_cancel mult_le_mono2)

lemma align_up_eq:
  assumes "x \<le> FILE_LIMIT" shows "align_up x = next_multiple_of x DIRECT_ALIGN"
proof -
  have "next_multiple_of x DIRECT_ALIGN \<le> FILE_LIMIT"
    using assms by (intro next_multiple_of_le) (simp_all add: DIRECT_ALIGN_def FILE_LIMIT_def)
  then show ?thesis by (simp add: align_up_def FILE_LIMIT_def)
qed

lemma align_up_facts:
  assumes "x \<le> FILE_LIMIT"
  shows "x \<le> align_up x" "DIRECT_ALIGN dvd align_up x" "align_up x \<le> FILE_LIMIT"
  using assms next_multiple_of_le [of DIRECT_ALIGN FILE_LIMIT x]
  by (simp_all add: align_up_eq next_multiple_of_ge next_multiple_of_dvd DIRECT_ALIGN_def FILE_LIMIT_def)

lemma align_up_le:
  "x \<le> FILE_LIMIT \<Longrightarrow> DIRECT_ALIGN dvd y \<Longrightarrow> x \<le> y \<Longrightarrow> align_up x \<le> y"
  by (simp add: align_up_eq next_multiple_of_le DIRECT_ALIGN_def)

lemma file_limit_lt [simp]: "x \<le> FILE_LIMIT \<Longrightarrow> x < 18446744073709551616"
  by (simp add: FILE_LIMIT_def)

lemma chunk_align_dvd: "DIRECT_ALIGN dvd k * CHUNK_BYTES"
  by (simp add: DIRECT_ALIGN_def CHUNK_BYTES_def dvd_mult)

section \<open>Splitting an extent\<close>

text \<open>The bytes an operation moves: shard, file position and destination address of each.\<close>

definition op_bytes :: "sub_read_op \<Rightarrow> (nat \<times> nat \<times> nat) list" where
  "op_bytes op = map (\<lambda>i. (op_shard op, op_offset op + i, op_dst op + i)) [0..<op_len op]"

definition extent_bytes :: "extent \<times> nat \<Rightarrow> (nat \<times> nat \<times> nat) list" where
  "extent_bytes = (\<lambda>(e, dst). map (\<lambda>i. (shard e, offset e + i, dst + i)) [0..<len e])"

text \<open>A piece is non-empty, inside the file limit and inside one 4 MiB window.\<close>

definition op_end :: "sub_read_op \<Rightarrow> nat" where
  "op_end op = op_offset op + op_len op"

definition piece_ok :: "nat \<Rightarrow> sub_read_op \<Rightarrow> bool" where
  "piece_ok n op \<longleftrightarrow> 0 < op_len op \<and> op_end op \<le> FILE_LIMIT \<and> op_shard op < n
     \<and> op_end op \<le> (op_offset op div CHUNK_BYTES + 1) * CHUNK_BYTES"

lemma window_end_gt: "off < (off div CHUNK_BYTES + 1) * CHUNK_BYTES"
proof -
  have "off = off div CHUNK_BYTES * CHUNK_BYTES + off mod CHUNK_BYTES" by simp
  moreover have "off mod CHUNK_BYTES < CHUNK_BYTES" by (simp add: CHUNK_BYTES_def)
  ultimately show ?thesis by (simp only: distrib_right mult_1)
qed

lemma window_end_exact:
  assumes "off < 2 ^ 64 - CHUNK_BYTES"
  shows "wmul (wadd (off div CHUNK_BYTES) 1) CHUNK_BYTES = (off div CHUNK_BYTES + 1) * CHUNK_BYTES"
proof -
  have "off div CHUNK_BYTES * CHUNK_BYTES \<le> off" by simp
  then have "(off div CHUNK_BYTES + 1) * CHUNK_BYTES < 2 ^ 64"
    using assms by (simp add: CHUNK_BYTES_def)
  moreover have "off div CHUNK_BYTES + 1 < 2 ^ 64" using assms by (simp add: CHUNK_BYTES_def)
  ultimately show ?thesis by (simp only: wadd_exact wmul_exact)
qed

lemma upt_shift_append:
  assumes "m \<le> n"
  shows "map f [0..<m] @ map (\<lambda>i. f (m + i)) [0..<n - m] = map f [0..<n::nat]"
proof -
  have "map (\<lambda>i. f (m + i)) [0..<n - m] = map f (map (\<lambda>i. i + m) [0..<n - m])"
    by (simp add: add.commute)
  also have "map (\<lambda>i. i + m) [0..<n - m] = [m..<n]"
    using assms by (simp only: map_add_upt) simp
  finally have "map (\<lambda>i. f (m + i)) [0..<n - m] = map f [m..<n]" .
  moreover have "[0..<n] = [0..<m] @ [m..<n]"
    using assms upt_add_eq_append [of 0 m "n - m"] by simp
  ultimately show ?thesis by simp
qed

lemma split_extent_tiles:
  assumes "off \<le> fin" "fin \<le> FILE_LIMIT" "dst + (fin - off) < 2 ^ 64" "sh < n"
  shows "\<exists>ps. split_extent sh off fin dst acc = Some (acc @ ps)
    \<and> concat (map op_bytes ps) = map (\<lambda>i. (sh, off + i, dst + i)) [0..<fin - off]
    \<and> (\<forall>p \<in> set ps. piece_ok n p)"
  using assms
proof (induction "fin - off" arbitrary: off dst acc rule: less_induct)
  case less
  show ?case
  proof (cases "off < fin")
    case False
    then show ?thesis using less.prems by (intro exI [of _ "[]"]) (simp add: split_extent.simps)
  next
    case True
    define w where "w = (off div CHUNK_BYTES + 1) * CHUNK_BYTES"
    define e where "e = min fin w"
    have off: "off < 2 ^ 64 - CHUNK_BYTES"
      using True less.prems(2) by (simp add: FILE_LIMIT_def CHUNK_BYTES_def)
    have w: "off < w" unfolding w_def by (rule window_end_gt)
    have e: "off < e" "e \<le> fin" using True w by (simp_all add: e_def)
    have m: "min fin (wmul (wadd (off div CHUNK_BYTES) 1) CHUNK_BYTES) = e"
      by (simp only: window_end_exact [OF off] e_def w_def)
    have pl: "wsub e off = e - off" using e less.prems(2) by (simp add: wsub_exact FILE_LIMIT_def)
    have d: "wadd dst (e - off) = dst + (e - off)" using e less.prems(3) by (intro wadd_exact) simp
    let ?p = "\<lparr> op_shard = sh, op_offset = off, op_len = e - off, op_dst = dst \<rparr>"
    have lt: "fin - e < fin - off" and room: "dst + (e - off) + (fin - e) < 2 ^ 64"
      using e less.prems(3) by simp_all
    obtain ps where ps: "split_extent sh e fin (dst + (e - off)) (acc @ [?p]) = Some ((acc @ [?p]) @ ps)"
      "concat (map op_bytes ps) = map (\<lambda>i. (sh, e + i, dst + (e - off) + i)) [0..<fin - e]"
      "\<forall>p \<in> set ps. piece_ok n p"
      using less.hyps [OF lt e(2) less.prems(2) room less.prems(4), of "acc @ [?p]"] by blast
    have "split_extent sh off fin dst acc = Some (acc @ ?p # ps)"
      using True ps(1) by (subst split_extent.simps) (simp add: Let_def m pl d del: One_nat_def)
    moreover have "piece_ok n ?p"
      using e less.prems by (simp add: piece_ok_def op_end_def e_def w_def)
    moreover have "concat (map op_bytes (?p # ps)) = map (\<lambda>i. (sh, off + i, dst + i)) [0..<fin - off]"
    proof -
      have "[0..<fin - e] = [0..<(fin - off) - (e - off)]" using e by simp
      moreover have "e + i = off + (e - off + i)" for i using e by simp
      ultimately show ?thesis
        using upt_shift_append [of "e - off" "fin - off" "\<lambda>i. (sh, off + i, dst + i)"] e
        by (simp add: ps(2) op_bytes_def add.assoc)
    qed
    ultimately show ?thesis using ps(3) by (intro exI [of _ "?p # ps"]) simp
  qed
qed

lemma window_end_below:
  "wmul k CHUNK_BYTES \<le> 2 ^ 64 - CHUNK_BYTES"
proof -
  have c: "CHUNK_BYTES dvd 2 ^ 64" by (simp add: CHUNK_BYTES_def)
  then have dv: "CHUNK_BYTES dvd wmul k CHUNK_BYTES" unfolding wmul_def by (simp add: dvd_mod)
  have lt: "wmul k CHUNK_BYTES < 2 ^ 64" by (simp add: wmul_def)
  then have "CHUNK_BYTES dvd 2 ^ 64 - wmul k CHUNK_BYTES" using dv c by (intro dvd_diff_nat) simp_all
  then have "CHUNK_BYTES \<le> 2 ^ 64 - wmul k CHUNK_BYTES" using lt by (intro dvd_imp_le) simp_all
  then show ?thesis using lt by (metis diff_diff_cancel diff_le_mono2 less_imp_le)
qed

lemma split_extent_diverges:
  assumes "off < fin" "2 ^ 64 - CHUNK_BYTES < fin"
  shows "split_extent sh off fin dst acc = None"
proof (rule ccontr)
  assume "split_extent sh off fin dst acc \<noteq> None"
  then obtain r where r: "split_extent sh off fin dst acc = Some r" by blast
  have below: "min f (wmul k CHUNK_BYTES) < f" if "2 ^ 64 - CHUNK_BYTES < f" for f k
    using window_end_below [of k] that by (meson le_less_trans min_less_iff_disj)
  have "off < fin \<longrightarrow> fin \<le> 2 ^ 64 - CHUNK_BYTES"
    by (rule split_extent.raw_induct [where P = "\<lambda>_ off fin _ _ _. off < fin \<longrightarrow> fin \<le> 2 ^ 64 - CHUNK_BYTES",
        OF _ r]) (metis below not_le option.distinct(1))
  then show False using assms by simp
qed

lemma split_extent_returns:
  "fin \<le> 2 ^ 64 - CHUNK_BYTES \<Longrightarrow> \<exists>r. split_extent sh off fin dst acc = Some r"
proof (induction "fin - off" arbitrary: off dst acc rule: less_induct)
  case less
  show ?case
  proof (cases "off < fin")
    case True
    then have off: "off < 2 ^ 64 - CHUNK_BYTES" using less.prems by simp
    let ?e = "min fin (wmul (wadd (off div CHUNK_BYTES) 1) CHUNK_BYTES)"
    have "off < ?e" using True window_end_gt [of off] by (simp only: window_end_exact [OF off] min_less_iff_conj)
    then have "fin - ?e < fin - off" using True by linarith
    from less.hyps [OF this less.prems] show ?thesis
      using True by (subst split_extent.simps) (simp add: Let_def)
  qed (simp add: split_extent.simps)
qed

section \<open>Collecting the pieces\<close>

definition requests_ok :: "(extent \<times> nat) list \<Rightarrow> bool" where
  "requests_ok ops \<longleftrightarrow>
     (\<forall>(e, dst) \<in> set ops. offset e + len e \<le> FILE_LIMIT \<and> dst + len e < 2 ^ 64)"

lemma requests_ok_Cons [simp]:
  "requests_ok ((e, dst) # ops)
   \<longleftrightarrow> offset e + len e \<le> FILE_LIMIT \<and> dst + len e < 2 ^ 64 \<and> requests_ok ops"
  by (auto simp: requests_ok_def)

definition bad_shard :: "nat \<Rightarrow> (extent \<times> nat) list \<Rightarrow> bool" where
  "bad_shard n ops \<longleftrightarrow> (\<exists>(e, dst) \<in> set ops. 0 < len e \<and> n \<le> shard e)"

lemma bad_shard_Cons [simp]:
  "bad_shard n ((e, dst) # ops) \<longleftrightarrow> 0 < len e \<and> n \<le> shard e \<or> bad_shard n ops"
  by (auto simp: bad_shard_def)

lemma collect_sub_ops_ok:
  assumes "requests_ok ops"
  shows "if bad_shard n ops
    then collect_sub_ops n ops acc = Some (Inl (EInvalid ''extent shard exceeds shard count''))
    else \<exists>ps. collect_sub_ops n ops acc = Some (Inr (acc @ ps))
      \<and> concat (map op_bytes ps) = concat (map extent_bytes ops) \<and> (\<forall>p \<in> set ps. piece_ok n p)"
  using assms
proof (induction ops arbitrary: acc)
  case Nil
  then show ?case by (simp add: bad_shard_def)
next
  case (Cons op ops)
  obtain e dst where op: "op = (e, dst)" by (cases op)
  have reqs: "offset e + len e \<le> FILE_LIMIT" "dst + len e < 2 ^ 64" "requests_ok ops"
    using Cons.prems by (simp_all add: op)
  show ?case
  proof (cases "0 < len e \<and> shard e < n")
    case True
    have ca: "checked_add 64 (offset e) (len e) = Some (offset e + len e)"
      using reqs(1) by (simp add: checked_add_def)
    obtain ps where ps: "split_extent (shard e) (offset e) (offset e + len e) dst acc = Some (acc @ ps)"
      "concat (map op_bytes ps) = extent_bytes (e, dst)" "\<forall>p \<in> set ps. piece_ok n p"
      using split_extent_tiles [of "offset e" "offset e + len e" dst "shard e" n acc] reqs True
      by (auto simp: extent_bytes_def)
    show ?thesis
    proof (cases "bad_shard n ops")
      case bad: True
      then show ?thesis using True ps(1) ca Cons.IH [OF reqs(3), of "acc @ ps"] by (simp add: op)
    next
      case False
      then obtain qs where "collect_sub_ops n ops (acc @ ps) = Some (Inr ((acc @ ps) @ qs))"
        "concat (map op_bytes qs) = concat (map extent_bytes ops)" "\<forall>p \<in> set qs. piece_ok n p"
        using Cons.IH [OF reqs(3), of "acc @ ps"] by auto
      then show ?thesis using True False ps ca by (auto simp: op intro!: exI [of _ "ps @ qs"])
    qed
  next
    case False
    then show ?thesis using Cons.IH [OF reqs(3), of acc] by (auto simp: op extent_bytes_def)
  qed
qed

section \<open>Grouping\<close>

definition span_ok :: "sub_read_op list \<Rightarrow> nat \<Rightarrow> open_span \<Rightarrow> bool" where
  "span_ok ops idx sp \<longleftrightarrow> group_start sp < idx \<and> idx \<le> length ops
     \<and> op_key (ops ! group_start sp) = (cur_shard sp, span_start sp)
     \<and> (\<forall>i. group_start sp \<le> i \<and> i < idx \<longrightarrow> op_shard (ops ! i) = cur_shard sp
          \<and> span_start sp \<le> op_offset (ops ! i) \<and> op_end (ops ! i) \<le> span_end sp)
     \<and> (\<exists>i. group_start sp \<le> i \<and> i < idx \<and> 0 < op_len (ops ! i) \<and> op_end (ops ! i) = span_end sp)
     \<and> span_start sp < span_end sp \<and> span_end sp \<le> FILE_LIMIT
     \<and> align_up (span_end sp) - align_down (span_start sp) \<le> CHUNK_BYTES"

text \<open>A task is usable: aligned, no longer than a bounce buffer, and its required prefix holds
  every operation of its range and ends with the last of them.\<close>

definition task_ok :: "sub_read_op list \<Rightarrow> chunk_task \<Rightarrow> bool" where
  "task_ok ops t \<longleftrightarrow> DIRECT_ALIGN dvd aligned_offset t \<and> DIRECT_ALIGN dvd aligned_len t
     \<and> 0 < required_len t \<and> required_len t \<le> aligned_len t \<and> aligned_len t \<le> CHUNK_BYTES
     \<and> aligned_offset t + aligned_len t \<le> FILE_LIMIT
     \<and> fst (task_ops t) < snd (task_ops t) \<and> snd (task_ops t) \<le> length ops
     \<and> (\<forall>i. fst (task_ops t) \<le> i \<and> i < snd (task_ops t) \<longrightarrow> op_shard (ops ! i) = task_shard t
          \<and> aligned_offset t \<le> op_offset (ops ! i)
          \<and> op_end (ops ! i) \<le> aligned_offset t + required_len t)
     \<and> (\<exists>i. fst (task_ops t) \<le> i \<and> i < snd (task_ops t) \<and> 0 < op_len (ops ! i)
          \<and> op_end (ops ! i) = aligned_offset t + required_len t)"

lemma start_span_ok:
  assumes "piece_ok n (ops ! idx)" "idx < length ops"
  shows "span_ok ops (Suc idx) (start_span idx (ops ! idx))"
proof -
  let ?op = "ops ! idx" and ?k = "op_offset (ops ! idx) div CHUNK_BYTES"
  have p: "0 < op_len ?op" "op_end ?op \<le> FILE_LIMIT" "op_end ?op \<le> (?k + 1) * CHUNK_BYTES"
    using assms(1) by (simp_all add: piece_ok_def)
  have "wadd (op_offset ?op) (op_len ?op) = op_end ?op"
    using p(2) by (simp add: wadd_exact op_end_def)
  moreover have "align_up (op_end ?op) \<le> (?k + 1) * CHUNK_BYTES"
    using p by (intro align_up_le chunk_align_dvd)
  moreover have "?k * CHUNK_BYTES \<le> align_down (op_offset ?op)"
    by (intro align_down_ge chunk_align_dvd) simp
  ultimately show ?thesis
    using p assms(2) by (auto simp: span_ok_def start_span_def op_key_def op_end_def less_Suc_eq)
qed

lemma close_span_ok:
  assumes "span_ok ops idx sp" shows "task_ok ops (close_span sp idx)"
proof -
  have sp: "span_start sp < span_end sp" "span_end sp \<le> FILE_LIMIT"
    "align_up (span_end sp) - align_down (span_start sp) \<le> CHUNK_BYTES"
    "group_start sp < idx" "idx \<le> length ops"
    "\<exists>i. group_start sp \<le> i \<and> i < idx \<and> 0 < op_len (ops ! i) \<and> op_end (ops ! i) = span_end sp"
    "\<And>i. group_start sp \<le> i \<Longrightarrow> i < idx \<Longrightarrow> op_shard (ops ! i) = cur_shard sp
          \<and> span_start sp \<le> op_offset (ops ! i) \<and> op_end (ops ! i) \<le> span_end sp"
    using assms unfolding span_ok_def by blast+
  note up = align_up_facts [OF sp(2)]
  have ad: "align_down (span_start sp) \<le> span_start sp" by simp
  have le: "align_down (span_start sp) \<le> span_end sp" "align_down (span_start sp) \<le> align_up (span_end sp)"
    using ad sp(1) up(1) by linarith+
  have lt3: "align_down (span_start sp) < span_end sp" using ad sp(1) by linarith
  have lt: "span_end sp < 2 ^ 64" "align_up (span_end sp) < 2 ^ 64"
    using sp(2) up(3) by simp_all
  have "wsub (align_up (span_end sp)) (align_down (span_start sp)) = align_up (span_end sp) - align_down (span_start sp)"
    "wsub (span_end sp) (align_down (span_start sp)) = span_end sp - align_down (span_start sp)"
    using le lt by (blast intro: wsub_exact)+
  moreover have "op_shard (ops ! i) = cur_shard sp \<and> align_down (span_start sp) \<le> op_offset (ops ! i)
      \<and> op_end (ops ! i) \<le> align_down (span_start sp) + (span_end sp - align_down (span_start sp))"
    if "group_start sp \<le> i" "i < idx" for i
    using sp(7) [OF that] ad sp(1) by linarith
  ultimately show ?thesis
    using sp(1-6) le lt3 up
    by (simp add: task_ok_def close_span_def finish_chunk_def align_down_dvd dvd_diff_nat diff_le_mono)
qed

lemma span_shard:
  assumes "span_ok ops idx sp" "\<forall>op \<in> set ops. piece_ok n op"
  shows "cur_shard sp < n"
proof -
  have "ops ! group_start sp \<in> set ops" "op_shard (ops ! group_start sp) = cur_shard sp"
    using assms(1) by (simp_all add: span_ok_def op_key_def)
  then show ?thesis using assms(2) by (metis piece_ok_def)
qed

lemma group_ops_ok:
  assumes "span_ok ops idx sp" "rest = drop idx ops" "sorted (map op_key ops)"
    "\<forall>op \<in> set ops. piece_ok n op"
  shows "(\<forall>t \<in> set (group_ops idx rest sp). task_ok ops t \<and> task_shard t < n)
    \<and> concat (map (\<lambda>t. [fst (task_ops t)..<snd (task_ops t)]) (group_ops idx rest sp))
      = [group_start sp..<length ops]"
  using assms(1,2)
proof (induction rest arbitrary: idx sp)
  case Nil
  show ?case
    using Nil close_span_ok [OF Nil.prems(1)] span_shard [OF Nil.prems(1) assms(4)]
    by (auto simp: span_ok_def close_span_def finish_chunk_def)
next
  case (Cons op rest)
  have idx: "idx < length ops" "op = ops ! idx" "rest = drop (Suc idx) ops"
    using Cons.prems(2) by (metis drop_eq_Nil list.distinct(1) not_le, metis drop_eq_Nil hd_drop_conv_nth list.distinct(1) list.sel(1) not_le, metis drop_Suc list.sel(3) tl_drop)
  have pk: "piece_ok n op" using assms(4) idx by simp
  have we: "wadd (op_offset op) (op_len op) = op_end op"
    using pk by (simp add: wadd_exact op_end_def piece_ok_def)
  have sp: "span_ok ops idx sp" by (rule Cons.prems(1))
  have g: "group_start sp < idx" using sp by (simp add: span_ok_def)
  show ?case
  proof (cases "can_coalesce sp op")
    case True
    let ?sp = "sp\<lparr> span_end := max (span_end sp) (op_end op) \<rparr>"
    have "op_key (ops ! group_start sp) \<le> op_key op"
      using assms(3) g idx sorted_nth_mono [of "map op_key ops" "group_start sp" idx] by simp
    then have "span_start sp \<le> op_offset op"
      using True sp by (auto simp: span_ok_def op_key_def can_coalesce_def Let_def less_eq_prod_def)
    moreover have "align_up (max (span_end sp) (op_end op)) - align_down (span_start sp) \<le> CHUNK_BYTES"
    proof -
      let ?m = "max (span_end sp) (op_end op)"
      have m: "?m \<le> FILE_LIMIT" "span_end sp \<le> ?m" using sp pk by (auto simp: span_ok_def piece_ok_def)
      have "align_down (span_start sp) \<le> span_start sp" "span_start sp < span_end sp"
        using sp by (simp_all add: span_ok_def)
      then have "wsub (align_up ?m) (align_down (span_start sp)) = align_up ?m - align_down (span_start sp)"
        using align_up_facts [OF m(1)] m by (intro wsub_exact) (linarith, simp)
      then show ?thesis using True by (simp add: can_coalesce_def Let_def we)
    qed
    moreover have "\<exists>i. group_start sp \<le> i \<and> i < Suc idx \<and> 0 < op_len (ops ! i)
        \<and> op_end (ops ! i) = max (span_end sp) (op_end op)"
    proof (cases "span_end sp \<le> op_end op")
      case le: True
      then show ?thesis using g pk idx by (intro exI [of _ idx]) (simp add: piece_ok_def max_def)
    next
      case False
      then show ?thesis using sp by (auto simp: span_ok_def intro: less_SucI)
    qed
    moreover have "op_shard (ops ! i) = cur_shard sp \<and> span_start sp \<le> op_offset (ops ! i)
        \<and> op_end (ops ! i) \<le> max (span_end sp) (op_end op)" if "group_start sp \<le> i" "i < Suc idx" for i
      using that sp True calculation(1) idx(2)
      by (cases "i = idx") (auto simp: span_ok_def can_coalesce_def Let_def le_max_iff_disj less_Suc_eq)
    moreover have "span_start sp < max (span_end sp) (op_end op)" "max (span_end sp) (op_end op) \<le> FILE_LIMIT"
      using sp pk by (auto simp: span_ok_def piece_ok_def)
    ultimately have "span_ok ops (Suc idx) ?sp"
      using sp g idx by (simp add: span_ok_def)
    from Cons.IH [OF this idx(3)] show ?thesis using True by (simp add: we)
  next
    case False
    have st: "span_ok ops (Suc idx) (start_span idx op)"
      using start_span_ok pk idx by simp
    have "task_ok ops (close_span sp idx) \<and> task_shard (close_span sp idx) < n"
      using close_span_ok [OF sp] span_shard [OF sp assms(4)] by (simp add: close_span_def finish_chunk_def)
    moreover have "[group_start sp..<idx] @ [idx..<length ops] = [group_start sp..<length ops]"
      using g idx upt_add_eq_append [of "group_start sp" idx "length ops - idx"] by simp
    ultimately show ?thesis using False Cons.IH [OF st idx(3)]
      by (simp add: close_span_def finish_chunk_def) (simp add: start_span_def)
  qed
qed

section \<open>The plan as a whole\<close>

text \<open>A plan for a request: its operations move exactly the requested bytes, its tasks partition
  them, and every task is usable.\<close>

definition plan_ok ::
  "nat \<Rightarrow> (extent \<times> nat) list \<Rightarrow> sub_read_op list \<times> chunk_task list \<Rightarrow> bool" where
  "plan_ok n ops = (\<lambda>(subs, tasks).
     mset (concat (map op_bytes subs)) = mset (concat (map extent_bytes ops))
     \<and> concat (map (\<lambda>t. [fst (task_ops t)..<snd (task_ops t)]) tasks) = [0..<length subs]
     \<and> (\<forall>t \<in> set tasks. task_ok subs t \<and> task_shard t < n))"

lemma mset_concat_map: "mset xs = mset ys \<Longrightarrow> mset (concat (map f xs)) = mset (concat (map f ys))"
proof -
  assume eq: "mset xs = mset ys"
  have "mset (concat (map f zs)) = \<Sum>\<^sub># (image_mset (\<lambda>z. mset (f z)) (mset zs))" for zs
    by (induction zs) simp_all
  then show ?thesis using eq by simp
qed

lemma plan_read_tasks_good:
  assumes "sorts_ops srt" "requests_ok ops" "\<not> bad_shard n ops"
  shows "\<exists>pl. plan_read_tasks srt ops n = Some (Inr pl) \<and> plan_ok n ops pl"
proof -
  obtain ps where ps: "collect_sub_ops n ops [] = Some (Inr ps)"
    "concat (map op_bytes ps) = concat (map extent_bytes ops)" "\<forall>p \<in> set ps. piece_ok n p"
    using collect_sub_ops_ok [OF assms(2), of n "[]"] assms(3) by auto
  define qs where "qs = srt ps"
  have q: "mset qs = mset ps" "sorted (map op_key qs)"
    using assms(1) by (simp_all add: sorts_ops_def qs_def)
  have bytes: "mset (concat (map op_bytes qs)) = mset (concat (map extent_bytes ops))"
    using mset_concat_map [OF q(1), of op_bytes] ps(2) by simp
  have pk: "\<forall>p \<in> set qs. piece_ok n p" using ps(3) q(1) by (metis set_mset_mset)
  show ?thesis
  proof (cases qs)
    case Nil
    then show ?thesis using ps(1) bytes by (simp add: plan_read_tasks_def qs_def [symmetric] plan_ok_def)
  next
    case (Cons op rest)
    have "span_ok qs 1 (start_span 0 op)"
      using start_span_ok [of n qs 0] pk Cons by simp
    from group_ops_ok [OF this _ q(2) pk] have
      "plan_ok n ops (qs, group_ops 1 rest (start_span 0 op))"
      using Cons bytes by (simp add: plan_ok_def) (simp add: start_span_def)
    then show ?thesis using Cons ps(1) by (simp add: plan_read_tasks_def qs_def [symmetric])
  qed
qed

lemma plan_read_tasks_bad:
  assumes "requests_ok ops" "bad_shard n ops"
  shows "plan_read_tasks srt ops n = Some (Inl (EInvalid ''extent shard exceeds shard count''))"
  using collect_sub_ops_ok [OF assms(1), of n "[]"] assms(2) by (simp add: plan_read_tasks_def)

text \<open>C23: Planning a batch of reads returns for every request whose extents lie within the file
  size limit and whose destinations lie in the address space.  It is refused exactly when a
  non-empty extent names a shard that does not exist.  Otherwise the planned operations move
  exactly the requested bytes (as a multiset of shard, file position and destination address), the
  tasks partition the operations in order, and every task is aligned for direct I/O, fits one
  4 MiB bounce buffer, and covers each of its operations with the bytes it insists on reading.\<close>

theorem plan_read_tasks_sound:
  assumes "sorts_ops srt" "requests_ok ops"
  shows "case plan_read_tasks srt ops n of
      None \<Rightarrow> False
    | Some (Inl e) \<Rightarrow> bad_shard n ops \<and> e = EInvalid ''extent shard exceeds shard count''
    | Some (Inr (subs, tasks)) \<Rightarrow> \<not> bad_shard n ops
        \<and> mset (concat (map op_bytes subs)) = mset (concat (map extent_bytes ops))
        \<and> concat (map (\<lambda>t. [fst (task_ops t)..<snd (task_ops t)]) tasks) = [0..<length subs]
        \<and> (\<forall>t \<in> set tasks. task_ok subs t \<and> task_shard t < n)"
proof (cases "bad_shard n ops")
  case True
  then show ?thesis by (simp add: plan_read_tasks_bad [OF assms(2)])
next
  case False
  from plan_read_tasks_good [OF assms False] show ?thesis using False by (auto simp: plan_ok_def)
qed

text \<open>Two neighbouring extents and one across a window boundary, on one shard.\<close>

definition sample_requests :: "(extent \<times> nat) list" where
  "sample_requests =
     [(\<lparr> shard = 0, offset = 4194300, len = 8 \<rparr>, 1000), (\<lparr> shard = 0, offset = 100, len = 4 \<rparr>, 2000),
      (\<lparr> shard = 0, offset = 50, len = 10 \<rparr>, 3000)]"

lemma sample_requests_ok: "requests_ok sample_requests"
  by (simp add: sample_requests_def requests_ok_def FILE_LIMIT_def)

lemma sample_plan:
  "plan_read_tasks (sort_key op_key) sample_requests 1 =
     Some (Inr
       ([\<lparr> op_shard = 0, op_offset = 50, op_len = 10, op_dst = 3000 \<rparr>,
         \<lparr> op_shard = 0, op_offset = 100, op_len = 4, op_dst = 2000 \<rparr>,
         \<lparr> op_shard = 0, op_offset = 4194300, op_len = 4, op_dst = 1000 \<rparr>,
         \<lparr> op_shard = 0, op_offset = 4194304, op_len = 4, op_dst = 1004 \<rparr>],
        [\<lparr> task_shard = 0, aligned_offset = 0, aligned_len = 4096, required_len = 104, task_ops = (0, 2) \<rparr>,
         \<lparr> task_shard = 0, aligned_offset = 4190208, aligned_len = 8192, required_len = 4100,
           task_ops = (2, 4) \<rparr>]))"
  by code_simp

theorem plan_read_tasks_sound_witness:
  "case plan_read_tasks (sort_key op_key) sample_requests 1 of
      None \<Rightarrow> False
    | Some (Inl e) \<Rightarrow> False
    | Some (Inr (subs, tasks)) \<Rightarrow> length tasks = 2
        \<and> mset (concat (map op_bytes subs)) = mset (concat (map extent_bytes sample_requests))
        \<and> task_ok subs (tasks ! 1)"
  using plan_read_tasks_sound [OF sort_key_sorts sample_requests_ok, of 1]
  unfolding sample_plan by simp

text \<open>The loop that splits an extent at 4 MiB boundaries returns exactly when the extent is
  empty or ends at or below the start of the last 4 MiB window of the \<^verbatim>\<open>u64\<close> range.  The guard of
  the code only rejects extents whose end overflows; in the last window the computed boundary
  wraps to zero and the loop starts over.\<close>

theorem split_extent_terminates_iff:
  "(\<exists>subs. split_extent sh off fin dst acc = Some subs) \<longleftrightarrow> fin \<le> off \<or> fin \<le> 2 ^ 64 - CHUNK_BYTES"
proof (cases "fin \<le> 2 ^ 64 - CHUNK_BYTES")
  case True
  then show ?thesis using split_extent_returns by blast
next
  case False
  then show ?thesis using split_extent_diverges [of off fin sh dst acc]
    by (cases "off < fin") (simp_all add: split_extent.simps)
qed

end
