(* ===== verification/ReaderPool.thy ===== *)
theory ReaderPool
  imports ReadPlan
begin

text \<open>
  The parallel reader of weight shards (\<^verbatim>\<open>chatty-metal/src/store.rs\<close>, \<^verbatim>\<open>ShardHandle::execute\<close>,
  \<^verbatim>\<open>pread_until\<close>, \<^verbatim>\<open>PoolShared::drain_tasks\<close>, \<^verbatim>\<open>Reader::read_raw\<close>, \<^verbatim>\<open>worker_loop\<close> and the
  reader's \<^verbatim>\<open>drop\<close>).  Memory is a map from addresses to bytes.  A file handle is its
  \<^verbatim>\<open>read_at\<close> function, which may return short counts and errors; \<open>reads_file\<close> is what a
  regular file promises.  The caller and the background threads take one step at a time: claiming a
  task from the shared cursor, executing it, publishing a batch, reporting under the lock, and
  returning are separate steps, so every interleaving of them is a run.  The two condition
  variables are waits for the condition their loops test.
\<close>

section \<open>Files\<close>

datatype read_error = Einval | ShortRead | OsError string

type_synonym read_at = "nat \<Rightarrow> nat \<Rightarrow> read_error + bytes"

record shard_handle =
  direct :: "read_at option"
  buffered :: read_at

type_synonym memory = "nat \<Rightarrow> u8"

definition fill_at :: "bytes \<Rightarrow> nat \<Rightarrow> bytes \<Rightarrow> bytes" where
  "fill_at buf i bs = take i buf @ bs @ drop (i + length bs) buf"

lemma length_fill_at: "i \<le> length buf \<Longrightarrow> length (fill_at buf i bs) = max (length buf) (i + length bs)"
  by (simp add: fill_at_def)

function pread_loop :: "read_at \<Rightarrow> bytes \<Rightarrow> nat \<Rightarrow> nat \<Rightarrow> (read_error + nat) \<times> bytes" where
  "pread_loop rd buf off don =
     (if don < length buf then
        (case rd (wadd off don) (length buf - don) of
           Inl e \<Rightarrow> (Inl e, buf)
         | Inr bs \<Rightarrow> if bs = [] then (Inr don, buf)
                    else pread_loop rd (fill_at buf don bs) off (don + length bs))
      else (Inr don, buf))"
  by pat_completeness auto
termination
  by (relation "measure (\<lambda>(rd, buf, off, don). length buf - don)") (auto simp: length_fill_at max_def simp flip: length_greater_0_conv)

declare pread_loop.simps [simp del]

definition pread_until :: "read_at \<Rightarrow> bytes \<Rightarrow> nat \<Rightarrow> nat \<Rightarrow> (read_error + unit) \<times> bytes" where
  "pread_until rd buf off required =
     (case pread_loop rd buf off 0 of
        (Inl e, b) \<Rightarrow> (Inl e, b)
      | (Inr don, b) \<Rightarrow> (if don < required then Inl ShortRead else Inr (), b))"

section \<open>Executing a chunk task\<close>

definition copy_in :: "nat \<Rightarrow> bytes \<Rightarrow> memory \<Rightarrow> memory" where
  "copy_in dst bs m = (\<lambda>a. if dst \<le> a \<and> a < dst + length bs then bs ! (a - dst) else m a)"

text \<open>The copy out of the bounce buffer is unchecked in the code; reading outside the buffer is the
  error \<open>EPanic\<close> here, and so is slicing out of range.\<close>

fun copy_ops :: "bytes \<Rightarrow> nat \<Rightarrow> sub_read_op list \<Rightarrow> memory \<Rightarrow> (store_error + unit) \<times> memory" where
  "copy_ops buf base [] m = (Inr (), m)"
| "copy_ops buf base (op # ops) m =
     (let rel = wsub (op_offset op) base in
      if rel + op_len op \<le> length buf
      then copy_ops buf base ops (copy_in (op_dst op) (take (op_len op) (drop rel buf)) m)
      else (Inl (EPanic ''copy outside the bounce buffer''), m))"

definition slice_ops :: "sub_read_op list \<Rightarrow> nat \<times> nat \<Rightarrow> sub_read_op list" where
  "slice_ops subs r = take (snd r - fst r) (drop (fst r) subs)"

definition deliver :: "chunk_task \<Rightarrow> sub_read_op list \<Rightarrow> bytes \<Rightarrow> memory \<Rightarrow> (store_error + unit) \<times> memory" where
  "deliver t subs buf m =
     (if fst (task_ops t) \<le> snd (task_ops t) \<and> snd (task_ops t) \<le> length subs
      then copy_ops buf (aligned_offset t) (slice_ops subs (task_ops t)) m
      else (Inl (EPanic ''slice of operations''), m))"

definition execute_buffered ::
  "shard_handle \<Rightarrow> chunk_task \<Rightarrow> sub_read_op list \<Rightarrow> bytes \<Rightarrow> memory
   \<Rightarrow> (store_error + unit) \<times> bytes \<times> memory" where
  "execute_buffered h t subs buf m =
     (if length buf < required_len t then (Inl (EPanic ''slice of the bounce buffer''), buf, m)
      else (case pread_until (buffered h) (take (required_len t) buf) (aligned_offset t) (required_len t) of
              (Inl e, b) \<Rightarrow> (Inl (EIo ''read''), b @ drop (required_len t) buf, m)
            | (Inr _, b) \<Rightarrow>
                (let buf' = b @ drop (required_len t) buf in
                 case deliver t subs buf' m of (r, m') \<Rightarrow> (r, buf', m'))))"

definition execute_aligned ::
  "shard_handle \<Rightarrow> chunk_task \<Rightarrow> sub_read_op list \<Rightarrow> bytes \<Rightarrow> memory
   \<Rightarrow> (store_error + unit) \<times> bytes \<times> memory" where
  "execute_aligned h t subs buf m =
     (case direct h of
        None \<Rightarrow> execute_buffered h t subs buf m
      | Some d \<Rightarrow>
          (case pread_until d buf (aligned_offset t) (required_len t) of
             (Inr _, b) \<Rightarrow> (case deliver t subs b m of (r, m') \<Rightarrow> (r, b, m'))
           | (Inl Einval, b) \<Rightarrow> execute_buffered h t subs b m
           | (Inl e, b) \<Rightarrow> (Inl (EIo ''read''), b, m)))"

definition execute ::
  "shard_handle \<Rightarrow> chunk_task \<Rightarrow> sub_read_op list \<Rightarrow> bytes \<Rightarrow> memory
   \<Rightarrow> (store_error + unit) \<times> bytes \<times> memory" where
  "execute h t subs bounce m =
     (if length bounce < aligned_len t then (Inl (EPanic ''slice of the bounce buffer''), bounce, m)
      else (case execute_aligned h t subs (take (aligned_len t) bounce) m of
              (r, b, m') \<Rightarrow> (r, b @ drop (aligned_len t) bounce, m')))"

section \<open>The pool\<close>

record read_job =
  job_ops :: "(extent \<times> nat) list"
  job_tasks :: "chunk_task list"
  job_subs :: "sub_read_op list"
  job_pooled :: bool
  job_entry :: memory

record active_batch =
  generation :: nat
  batch_tasks :: "chunk_task list"
  batch_subs :: "sub_read_op list"
  remaining_workers :: nat
  first_error :: "store_error option"

datatype drain_pc = Draining | Executing nat | Drained "store_error + unit"

datatype worker_pc =
    WWaiting nat
  | WWorking nat "chunk_task list" "sub_read_op list" drain_pc
  | WExited

datatype caller_pc =
    CIdle
  | CBusy read_job drain_pc
  | CReturned "(extent \<times> nat) list" memory "store_error + unit"
  | CDropped

record reader =
  cursor :: nat
  batch :: "active_batch option"
  shutdown :: bool
  next_generation :: nat
  memory :: memory
  bounces :: "nat \<Rightarrow> bytes"
  caller :: caller_pc
  workers :: "worker_pc list"

text \<open>\<^verbatim>\<open>Reader::open\<close>: one bounce buffer of \<^verbatim>\<open>CHUNK_BYTES\<close> zero bytes per thread.\<close>

definition reader_open :: "nat \<Rightarrow> memory \<Rightarrow> reader" where
  "reader_open n m =
     \<lparr> cursor = 0, batch = None, shutdown = False, next_generation = 1, memory = m,
       bounces = (\<lambda>_. replicate CHUNK_BYTES 0), caller = CIdle,
       workers = replicate (max n 1 - 1) (WWaiting 0) \<rparr>"

text \<open>\<^verbatim>\<open>drain_tasks\<close>: one claim from the cursor, or the execution of the claimed task.  Thread \<open>0\<close>
  is the caller and thread \<open>i + 1\<close> the background worker \<open>i\<close>.\<close>

definition drain_claim :: "shard_handle list \<Rightarrow> chunk_task list \<Rightarrow> reader \<Rightarrow> drain_pc \<times> reader" where
  "drain_claim shards tasks s =
     (let idx = cursor s; s' = s\<lparr> cursor := idx + 1 \<rparr> in
      if length tasks \<le> idx then (Drained (Inr ()), s')
      else if length shards \<le> task_shard (tasks ! idx)
        then (Drained (Inl (EInvalid ''shard out of range'')), s')
      else (Executing idx, s'))"

definition drain_execute ::
  "shard_handle list \<Rightarrow> chunk_task list \<Rightarrow> sub_read_op list \<Rightarrow> nat \<Rightarrow> nat \<Rightarrow> reader \<Rightarrow> drain_pc \<times> reader" where
  "drain_execute shards tasks subs k idx s =
     (let t = tasks ! idx in
      case execute (shards ! task_shard t) t subs (bounces s k) (memory s) of
        (r, b, m) \<Rightarrow>
          (case r of Inr _ \<Rightarrow> Draining | Inl e \<Rightarrow> Drained (Inl e),
           s\<lparr> memory := m, bounces := (bounces s)(k := b) \<rparr>))"

fun drain_step ::
  "shard_handle list \<Rightarrow> chunk_task list \<Rightarrow> sub_read_op list \<Rightarrow> nat \<Rightarrow> drain_pc \<Rightarrow> reader \<Rightarrow> drain_pc \<times> reader" where
  "drain_step shards tasks subs k Draining s = drain_claim shards tasks s"
| "drain_step shards tasks subs k (Executing idx) s = drain_execute shards tasks subs k idx s"
| "drain_step shards tasks subs k (Drained r) s = (Drained r, s)"

text \<open>\<^verbatim>\<open>read_raw\<close> up to its first call of \<^verbatim>\<open>drain_tasks\<close>; \<open>None\<close> when planning does not return.\<close>

definition publish :: "read_job \<Rightarrow> reader \<Rightarrow> reader" where
  "publish j s =
     s\<lparr> cursor := 0, next_generation := next_generation s + 1,
        batch := Some \<lparr> generation = next_generation s, batch_tasks = job_tasks j,
          batch_subs = job_subs j, remaining_workers = length (workers s), first_error = None \<rparr>,
        caller := CBusy j Draining \<rparr>"

definition start_job :: "(extent \<times> nat) list \<Rightarrow> sub_read_op list \<Rightarrow> chunk_task list \<Rightarrow> reader \<Rightarrow> reader" where
  "start_job ops subs tasks s =
     (let j = \<lparr> job_ops = ops, job_tasks = tasks, job_subs = subs,
                job_pooled = (length tasks \<noteq> 1 \<and> workers s \<noteq> []), job_entry = memory s \<rparr> in
      if tasks = [] then s\<lparr> caller := CReturned ops (memory s) (Inr ()) \<rparr>
      else if job_pooled j then publish j s
      else s\<lparr> cursor := 0, caller := CBusy j Draining \<rparr>)"

definition read_start ::
  "(sub_read_op list \<Rightarrow> sub_read_op list) \<Rightarrow> nat \<Rightarrow> (extent \<times> nat) list \<Rightarrow> reader \<Rightarrow> reader option" where
  "read_start srt n ops s =
     (case plan_read_tasks srt ops n of
        None \<Rightarrow> None
      | Some (Inl e) \<Rightarrow> Some (s\<lparr> caller := CReturned ops (memory s) (Inl e) \<rparr>)
      | Some (Inr (subs, tasks)) \<Rightarrow> Some (start_job ops subs tasks s))"

text \<open>\<^verbatim>\<open>read_raw\<close> after the caller drained: the pooled path waits for every worker, takes the batch,
  and reports the caller's own error before the workers' first one.\<close>

definition read_finish :: "read_job \<Rightarrow> store_error + unit \<Rightarrow> reader \<Rightarrow> reader option" where
  "read_finish j r s =
     (if \<not> job_pooled j then Some (s\<lparr> caller := CReturned (job_ops j) (job_entry j) r \<rparr>)
      else (case batch s of
              None \<Rightarrow> Some (s\<lparr> caller := CReturned (job_ops j) (job_entry j) r \<rparr>)
            | Some b \<Rightarrow>
                if 0 < remaining_workers b then None
                else Some (s\<lparr> batch := None, caller := CReturned (job_ops j) (job_entry j)
                  (case r of Inl e \<Rightarrow> Inl e
                   | Inr _ \<Rightarrow> (case first_error b of Some e \<Rightarrow> Inl e | None \<Rightarrow> Inr ())) \<rparr>)))"

text \<open>\<^verbatim>\<open>worker_loop\<close>: waiting under the lock, and reporting under the lock.\<close>

definition worker_wake :: "nat \<Rightarrow> reader \<Rightarrow> worker_pc" where
  "worker_wake seen s =
     (if shutdown s then WExited
      else (case batch s of
              None \<Rightarrow> WWaiting seen
            | Some b \<Rightarrow>
                if generation b \<noteq> seen
                then WWorking (generation b) (batch_tasks b) (batch_subs b) Draining
                else WWaiting seen))"

definition worker_report :: "nat \<Rightarrow> store_error + unit \<Rightarrow> reader \<Rightarrow> reader" where
  "worker_report seen r s =
     (case batch s of
        None \<Rightarrow> s
      | Some b \<Rightarrow>
          if generation b = seen
          then s\<lparr> batch := Some (b\<lparr> first_error :=
                 (case r of Inl e \<Rightarrow> if first_error b = None then Some e else first_error b
                  | Inr _ \<Rightarrow> first_error b),
               remaining_workers := wsub (remaining_workers b) 1 \<rparr>) \<rparr>
          else s)"

text \<open>\<^verbatim>\<open>read_extent\<close> and \<^verbatim>\<open>read_extents\<close> check each destination slice (address and length) against
  its extent before handing the operations to \<^verbatim>\<open>read_raw\<close>.\<close>

definition read_extent_op :: "extent \<Rightarrow> nat \<Rightarrow> nat \<Rightarrow> store_error + extent \<times> nat" where
  "read_extent_op e dst n =
     (if n \<noteq> len e then Inl (EInvalid ''buffer length does not match extent length'') else Inr (e, dst))"

definition read_extents_ops :: "(extent \<times> nat \<times> nat) list \<Rightarrow> store_error + (extent \<times> nat) list" where
  "read_extents_ops items = try_map (\<lambda>(e, dst, n). read_extent_op e dst n) items"

text \<open>The destinations of a request: valid and disjoint, as \<^verbatim>\<open>read_raw\<close>'s callers must ensure.\<close>

definition dests :: "(nat \<times> nat \<times> nat) list \<Rightarrow> nat list" where
  "dests = map (\<lambda>(_, _, a). a)"

definition valid_request :: "(extent \<times> nat) list \<Rightarrow> bool" where
  "valid_request ops \<longleftrightarrow> requests_ok ops \<and> distinct (dests (concat (map extent_bytes ops)))"

inductive pool_step ::
  "(sub_read_op list \<Rightarrow> sub_read_op list) \<Rightarrow> shard_handle list \<Rightarrow> reader \<Rightarrow> reader \<Rightarrow> bool"
  for srt :: "sub_read_op list \<Rightarrow> sub_read_op list" and shards :: "shard_handle list" where
  start: "caller s = CIdle \<or> caller s = CReturned ops0 m0 r0 \<Longrightarrow> valid_request ops
    \<Longrightarrow> read_start srt (length shards) ops s = Some s' \<Longrightarrow> pool_step srt shards s s'"
| caller_drain: "caller s = CBusy j pc \<Longrightarrow> \<forall>r. pc \<noteq> Drained r
    \<Longrightarrow> drain_step shards (job_tasks j) (job_subs j) 0 pc s = (pc', s')
    \<Longrightarrow> pool_step srt shards s (s'\<lparr> caller := CBusy j pc' \<rparr>)"
| caller_finish: "caller s = CBusy j (Drained r) \<Longrightarrow> read_finish j r s = Some s'
    \<Longrightarrow> pool_step srt shards s s'"
| worker_wakes: "i < length (workers s) \<Longrightarrow> workers s ! i = WWaiting seen
    \<Longrightarrow> worker_wake seen s \<noteq> WWaiting seen
    \<Longrightarrow> pool_step srt shards s (s\<lparr> workers := (workers s)[i := worker_wake seen s] \<rparr>)"
| worker_drain: "i < length (workers s) \<Longrightarrow> workers s ! i = WWorking seen tasks subs pc
    \<Longrightarrow> \<forall>r. pc \<noteq> Drained r \<Longrightarrow> drain_step shards tasks subs (i + 1) pc s = (pc', s')
    \<Longrightarrow> pool_step srt shards s (s'\<lparr> workers := (workers s)[i := WWorking seen tasks subs pc'] \<rparr>)"
| worker_reports: "i < length (workers s) \<Longrightarrow> workers s ! i = WWorking seen tasks subs (Drained r)
    \<Longrightarrow> pool_step srt shards s
          ((worker_report seen r s)\<lparr> workers := (workers s)[i := WWaiting seen] \<rparr>)"
| drop_reader: "caller s = CIdle \<or> caller s = CReturned ops0 m0 r0
    \<Longrightarrow> pool_step srt shards s (s\<lparr> shutdown := True, caller := CDropped \<rparr>)"

inductive pool_reach ::
  "(sub_read_op list \<Rightarrow> sub_read_op list) \<Rightarrow> shard_handle list \<Rightarrow> reader \<Rightarrow> bool"
  for srt :: "sub_read_op list \<Rightarrow> sub_read_op list" and shards :: "shard_handle list" where
  pool_init: "n < 2 ^ 64 \<Longrightarrow> pool_reach srt shards (reader_open n m)"
| pool_more: "pool_reach srt shards s \<Longrightarrow> pool_step srt shards s s' \<Longrightarrow> pool_reach srt shards s'"

section \<open>What files promise\<close>

definition reads_file :: "bytes \<Rightarrow> read_at \<Rightarrow> bool" where
  "reads_file content rd \<longleftrightarrow> (\<forall>off n bs. rd off n = Inr bs
     \<longrightarrow> length bs \<le> n \<and> bs = take (length bs) (drop off content)
       \<and> (bs = [] \<longrightarrow> n = 0 \<or> length content \<le> off))"

definition handle_ok :: "bytes \<Rightarrow> shard_handle \<Rightarrow> bool" where
  "handle_ok content h \<longleftrightarrow> reads_file content (buffered h)
     \<and> (case direct h of None \<Rightarrow> True | Some d \<Rightarrow> reads_file content d)"

definition handles_ok :: "bytes list \<Rightarrow> shard_handle list \<Rightarrow> bool" where
  "handles_ok files shards \<longleftrightarrow> list_all2 handle_ok files shards"

section \<open>Reading a chunk\<close>

lemma fill_at_prefix:
  assumes "take don buf = take don (drop off content)" "don \<le> length buf"
    "don = length (take don (drop off content))" "bs = take (length bs) (drop (off + don) content)"
  shows "take (don + length bs) (fill_at buf don bs) = take (don + length bs) (drop off content)"
proof -
  have "take (don + length bs) (fill_at buf don bs) = take don buf @ bs"
    using assms(2) by (simp add: fill_at_def)
  also have "\<dots> = take don (drop off content) @ take (length bs) (drop (off + don) content)"
    using assms(1,4) by simp
  also have "\<dots> = take (don + length bs) (drop off content)"
    by (simp add: take_add add.commute)
  finally show ?thesis .
qed

text \<open>The buffer's first \<open>n\<close> bytes are the file's bytes from \<open>off\<close> on.\<close>

definition holds :: "bytes \<Rightarrow> nat \<Rightarrow> bytes \<Rightarrow> nat \<Rightarrow> bool" where
  "holds content off buf n \<longleftrightarrow>
     n \<le> length buf \<and> take n buf = take n (drop off content) \<and> n \<le> length (drop off content)"

lemma pread_loop_ok:
  assumes "reads_file content rd" "holds content off buf don" "off + length buf < 2 ^ 64"
  shows "length (snd (pread_loop rd buf off don)) = length buf
    \<and> (\<forall>n. fst (pread_loop rd buf off don) = Inr n \<longrightarrow> don \<le> n
         \<and> holds content off (snd (pread_loop rd buf off don)) n
         \<and> (n < length buf \<longrightarrow> length content \<le> off + n))"
  using assms(2,3)
proof (induction "length buf - don" arbitrary: buf don rule: less_induct)
  case less
  have h: "don \<le> length buf" "take don buf = take don (drop off content)" "don \<le> length (drop off content)"
    using less.prems by (simp_all add: holds_def)
  show ?case
  proof (cases "don < length buf")
    case False
    then show ?thesis using less.prems h by (simp add: pread_loop.simps)
  next
    case True
    have w: "wadd off don = off + don" using True less.prems(2) by (intro wadd_exact) linarith
    show ?thesis
    proof (cases "rd (off + don) (length buf - don)")
      case (Inl e)
      then show ?thesis using True w by (simp add: pread_loop.simps)
    next
      case (Inr bs)
      have bs: "length bs \<le> length buf - don" "bs = take (length bs) (drop (off + don) content)"
        "bs = [] \<longrightarrow> length content \<le> off + don"
        using assms(1) [unfolded reads_file_def, rule_format, OF Inr] True by simp_all
      show ?thesis
      proof (cases "bs = []")
        case nil: True
        then show ?thesis using True w Inr bs less.prems(1) by (simp add: pread_loop.simps)
      next
        case False
        let ?buf = "fill_at buf don bs"
        have len: "length ?buf = length buf" using True bs(1) by (simp add: length_fill_at)
        have "length bs \<le> length (drop (off + don) content)" using bs(2) by (metis length_take min.cobounded1 min_def)
        then have "holds content off ?buf (don + length bs)"
          using fill_at_prefix [OF h(2,1) _ bs(2)] h(3) True bs(1) len by (simp add: holds_def) linarith
        from less.hyps [OF _ this] show ?thesis
          using True w Inr False bs(1) len less.prems(2)
          by (subst (1 2 3) pread_loop.simps) (auto simp: diff_less_mono2)
      qed
    qed
  qed
qed

lemma pread_until_ok:
  assumes "reads_file content rd" "off + length buf < 2 ^ 64"
  shows "length (snd (pread_until rd buf off required)) = length buf"
    and "fst (pread_until rd buf off required) = Inr u
      \<Longrightarrow> required \<le> length buf \<longrightarrow> holds content off (snd (pread_until rd buf off required)) required"
proof -
  have h0: "holds content off buf 0" by (simp add: holds_def)
  obtain r b where rb: "pread_loop rd buf off 0 = (r, b)" by fastforce
  note ok = pread_loop_ok [OF assms(1) h0 assms(2), unfolded rb fst_conv snd_conv]
  show "length (snd (pread_until rd buf off required)) = length buf"
    using ok by (cases r) (simp_all add: pread_until_def rb)
  assume "fst (pread_until rd buf off required) = Inr u"
  then obtain n where n: "r = Inr n" "required \<le> n"
    by (cases r) (auto simp: pread_until_def rb split: if_splits)
  have snd: "snd (pread_until rd buf off required) = b" using n by (simp add: pread_until_def rb)
  have hn: "holds content off b n" using ok n by simp
  then have "take required (take n b) = take required (take n (drop off content))"
    by (simp add: holds_def)
  then have "take required b = take required (drop off content)" using n(2) by (simp add: min_def)
  then have "holds content off b required" using hn n(2) by (simp add: holds_def)
  then show "required \<le> length buf \<longrightarrow> holds content off (snd (pread_until rd buf off required)) required"
    using snd by simp
qed

lemma pread_loop_error:
  "fst (pread_loop rd buf off don) = Inl e \<Longrightarrow> \<exists>p n. rd p n = Inl e"
proof (induction rd buf off don rule: pread_loop.induct)
  case (1 rd buf off don)
  then show ?case
    by (subst (asm) (2) pread_loop.simps) (auto split: if_splits sum.splits)
qed

lemma pread_until_error:
  assumes "reads_file content rd" "off + length buf < 2 ^ 64" "required \<le> length buf"
    "off + required \<le> length content" "fst (pread_until rd buf off required) = Inl e"
  shows "\<exists>p n. rd p n = Inl e"
proof (cases "fst (pread_loop rd buf off 0)")
  case (Inl e')
  then have "e' = e" using assms(5) by (auto simp: pread_until_def split: prod.splits)
  then show ?thesis using pread_loop_error Inl by blast
next
  case (Inr n)
  have "holds content off buf 0" by (simp add: holds_def)
  from pread_loop_ok [OF assms(1) this assms(2)] Inr have "n < length buf \<longrightarrow> length content \<le> off + n" by simp
  then have "required \<le> n" using assms(3,4) by linarith
  then show ?thesis using assms(5) Inr by (auto simp: pread_until_def split: prod.splits)
qed

section \<open>Delivering the operations of a task\<close>

text \<open>Every byte of a list of transfers has arrived; nothing outside their destinations changed.\<close>

definition arrived :: "bytes list \<Rightarrow> (nat \<times> nat \<times> nat) list \<Rightarrow> memory \<Rightarrow> bool" where
  "arrived files bs m = list_all (\<lambda>(sh, p, a). p < length (files ! sh) \<and> m a = files ! sh ! p) bs"

definition untouched :: "(nat \<times> nat \<times> nat) list \<Rightarrow> memory \<Rightarrow> memory \<Rightarrow> bool" where
  "untouched bs m m' \<longleftrightarrow> (\<forall>a. a \<notin> set (dests bs) \<longrightarrow> m' a = m a)"

lemma untouched_refl [simp]: "untouched bs m m"
  by (simp add: untouched_def)

lemma dests_append [simp]: "dests (xs @ ys) = dests xs @ dests ys"
  by (simp add: dests_def)

lemma arrived_iff:
  "arrived files bs m
   \<longleftrightarrow> (\<forall>sh p a. (sh, p, a) \<in> set bs \<longrightarrow> p < length (files ! sh) \<and> m a = files ! sh ! p)"
  by (auto simp: arrived_def list_all_iff)

lemma arrived_append [simp]: "arrived files (xs @ ys) m \<longleftrightarrow> arrived files xs m \<and> arrived files ys m"
  by (simp add: arrived_def)

lemma arrived_Nil [simp]: "arrived files [] m" "dests [] = []"
  by (simp_all add: arrived_def dests_def)

lemma arrived_mono: "arrived files bs m \<Longrightarrow> set cs \<subseteq> set bs \<Longrightarrow> arrived files cs m"
  by (auto simp: arrived_iff)

lemma arrived_frame:
  assumes "arrived files bs m" "untouched cs m m'" "set (dests bs) \<inter> set (dests cs) = {}"
  shows "arrived files bs m'"
proof -
  have "m' a = m a" if "(sh, p, a) \<in> set bs" for sh p a
    using that assms(2,3) by (force simp: untouched_def dests_def)
  then show ?thesis using assms(1) by (fastforce simp: arrived_iff)
qed

lemma dests_op_bytes: "dests (op_bytes op) = map (\<lambda>i. op_dst op + i) [0..<op_len op]"
  by (simp add: dests_def op_bytes_def comp_def)

lemma copy_in_op:
  assumes "holds content base buf n" "base \<le> op_offset op" "op_end op \<le> base + n"
    "content = files ! op_shard op"
  shows "arrived files (op_bytes op)
      (copy_in (op_dst op) (take (op_len op) (drop (op_offset op - base) buf)) m)"
    and "untouched (op_bytes op) m
      (copy_in (op_dst op) (take (op_len op) (drop (op_offset op - base) buf)) m)"
proof -
  let ?r = "op_offset op - base"
  have n: "n \<le> length buf" "take n buf = take n (drop base content)" "n \<le> length content - base"
    using assms(1) by (simp_all add: holds_def)
  have r: "?r + op_len op \<le> n" using assms(2,3) by (simp add: op_end_def)
  have b: "buf ! (?r + i) = content ! (op_offset op + i)" "op_offset op + i < length content"
    if "i < op_len op" for i
  proof -
    have i: "?r + i < n" using that r by linarith
    then have "buf ! (?r + i) = take n buf ! (?r + i)" by simp
    also have "\<dots> = drop base content ! (?r + i)" using n(2) i by simp
    also have "\<dots> = content ! (op_offset op + i)"
      using i n(3) assms(2) by (subst nth_drop) (simp_all add: ac_simps)
    finally show "buf ! (?r + i) = content ! (op_offset op + i)" .
    show "op_offset op + i < length content" using i n(3) assms(2) by linarith
  qed
  have len: "length (take (op_len op) (drop ?r buf)) = op_len op" using r n(1) by simp
  show "arrived files (op_bytes op) (copy_in (op_dst op) (take (op_len op) (drop ?r buf)) m)"
    using b r n(1) assms(4) by (auto simp: arrived_iff op_bytes_def copy_in_def len)
  show "untouched (op_bytes op) m (copy_in (op_dst op) (take (op_len op) (drop ?r buf)) m)"
    unfolding untouched_def dests_op_bytes copy_in_def len
    by (auto simp: image_iff)
qed

lemma copy_ops_ok:
  assumes "holds content base buf n" "\<forall>op \<in> set ops. content = files ! op_shard op \<and> base \<le> op_offset op
      \<and> op_end op \<le> base + n \<and> op_end op \<le> FILE_LIMIT"
    "distinct (dests (concat (map op_bytes ops)))"
  shows "fst (copy_ops buf base ops m) = Inr ()
    \<and> arrived files (concat (map op_bytes ops)) (snd (copy_ops buf base ops m))
    \<and> untouched (concat (map op_bytes ops)) m (snd (copy_ops buf base ops m))"
  using assms(2,3)
proof (induction ops arbitrary: m)
  case Nil
  then show ?case by simp
next
  case (Cons op ops)
  let ?m = "copy_in (op_dst op) (take (op_len op) (drop (op_offset op - base) buf)) m"
  have op: "content = files ! op_shard op" "base \<le> op_offset op" "op_end op \<le> base + n"
    "op_end op \<le> FILE_LIMIT" using Cons.prems(1) by simp_all
  have "op_offset op < 2 ^ 64" using op(4) by (simp add: op_end_def FILE_LIMIT_def)
  then have w: "wsub (op_offset op) base = op_offset op - base" using op(2) by (intro wsub_exact)
  have fits: "op_offset op - base + op_len op \<le> length buf"
    using op(2,3) assms(1) by (simp add: holds_def op_end_def) linarith
  note c = copy_in_op [OF assms(1) op(2,3,1), where m = m]
  have IH: "fst (copy_ops buf base ops ?m) = Inr ()"
    "arrived files (concat (map op_bytes ops)) (snd (copy_ops buf base ops ?m))"
    "untouched (concat (map op_bytes ops)) ?m (snd (copy_ops buf base ops ?m))"
    using Cons.IH [of ?m] Cons.prems by simp_all
  have "arrived files (op_bytes op) (snd (copy_ops buf base ops ?m))"
    using arrived_frame [OF c(1) IH(3)] Cons.prems(2) by simp
  moreover have "untouched (concat (map op_bytes (op # ops))) m (snd (copy_ops buf base ops ?m))"
    using c(2) IH(3) by (simp add: untouched_def)
  ultimately show ?case using IH w fits by (simp add: Let_def)
qed

definition task_bytes :: "sub_read_op list \<Rightarrow> chunk_task \<Rightarrow> (nat \<times> nat \<times> nat) list" where
  "task_bytes subs t = concat (map op_bytes (slice_ops subs (task_ops t)))"

lemma slice_ops_nth:
  assumes "task_ok subs t" "op \<in> set (slice_ops subs (task_ops t))"
  shows "op_shard op = task_shard t \<and> aligned_offset t \<le> op_offset op
    \<and> op_end op \<le> aligned_offset t + required_len t \<and> op_end op \<le> FILE_LIMIT"
proof -
  obtain k where k: "k < snd (task_ops t) - fst (task_ops t)" "fst (task_ops t) + k < length subs"
    "op = subs ! (fst (task_ops t) + k)"
    using assms(2) by (auto simp: slice_ops_def in_set_conv_nth)
  let ?i = "fst (task_ops t) + k"
  have "op_shard (subs ! ?i) = task_shard t \<and> aligned_offset t \<le> op_offset (subs ! ?i)
      \<and> op_end (subs ! ?i) \<le> aligned_offset t + required_len t"
    using assms(1) k(1) unfolding task_ok_def by simp
  moreover have "aligned_offset t + required_len t \<le> FILE_LIMIT"
    using assms(1) unfolding task_ok_def by linarith
  ultimately show ?thesis unfolding k(3) by linarith
qed

lemma slice_ops_set: "set (slice_ops subs r) \<subseteq> set subs"
  unfolding slice_ops_def using set_take_subset set_drop_subset by fast

lemma dests_task_bytes: "set (dests (task_bytes subs t)) \<subseteq> set (dests (concat (map op_bytes subs)))"
proof -
  have "set (task_bytes subs t) \<subseteq> set (concat (map op_bytes subs))"
    using slice_ops_set [of subs "task_ops t"] by (auto simp: task_bytes_def)
  then show ?thesis unfolding dests_def by (simp only: set_map image_mono)
qed

lemma distinct_task_bytes:
  assumes "distinct (dests (concat (map op_bytes subs)))"
  shows "distinct (dests (task_bytes subs t))"
proof -
  let ?f = "\<lambda>xs. dests (concat (map op_bytes xs))"
  obtain a b where ab: "fst (task_ops t) = a" "snd (task_ops t) - fst (task_ops t) = b" by blast
  have "?f subs = ?f (take a subs) @ ?f (take b (drop a subs)) @ ?f (drop b (drop a subs))"
    by (metis append_take_drop_id concat_append dests_append map_append)
  then show ?thesis using assms ab by (auto simp: task_bytes_def slice_ops_def)
qed

lemma deliver_ok:
  assumes "task_ok subs t" "distinct (dests (concat (map op_bytes subs)))"
    "holds (files ! task_shard t) (aligned_offset t) buf (required_len t)"
  shows "fst (deliver t subs buf m) = Inr ()
    \<and> arrived files (task_bytes subs t) (snd (deliver t subs buf m))
    \<and> untouched (task_bytes subs t) m (snd (deliver t subs buf m))"
proof -
  have "deliver t subs buf m = copy_ops buf (aligned_offset t) (slice_ops subs (task_ops t)) m"
    using assms(1) by (simp add: deliver_def task_ok_def)
  moreover have "\<forall>op \<in> set (slice_ops subs (task_ops t)). files ! task_shard t = files ! op_shard op
      \<and> aligned_offset t \<le> op_offset op \<and> op_end op \<le> aligned_offset t + required_len t \<and> op_end op \<le> FILE_LIMIT"
    using slice_ops_nth [OF assms(1)] by simp
  ultimately show ?thesis
    using copy_ops_ok [OF assms(3), of "slice_ops subs (task_ops t)" files m]
      distinct_task_bytes [OF assms(2), of t] by (simp add: task_bytes_def)
qed

text \<open>How the execution of a task may end: done, or a read error with memory unchanged.  A handle is
  \<open>reliable\<close> when its buffered reads never fail and its direct reads fail only as unsupported; then
  a task inside the file succeeds.\<close>

definition reliable :: "shard_handle \<Rightarrow> bool" where
  "reliable h \<longleftrightarrow> (\<forall>off n e. buffered h off n \<noteq> Inl e)
     \<and> (case direct h of None \<Rightarrow> True | Some d \<Rightarrow> \<forall>off n e. d off n = Inl e \<longrightarrow> e = Einval)"

definition task_readable :: "bytes list \<Rightarrow> shard_handle \<Rightarrow> chunk_task \<Rightarrow> bool" where
  "task_readable files h t \<longleftrightarrow>
     reliable h \<and> aligned_offset t + required_len t \<le> length (files ! task_shard t)"

definition exec_outcome ::
  "bytes list \<Rightarrow> shard_handle \<Rightarrow> sub_read_op list \<Rightarrow> chunk_task \<Rightarrow> nat \<Rightarrow> memory
   \<Rightarrow> (store_error + unit) \<times> bytes \<times> memory \<Rightarrow> bool" where
  "exec_outcome files h subs t n m = (\<lambda>(r, b, m').
     length b = n \<and> (r = Inr () \<and> arrived files (task_bytes subs t) m' \<and> untouched (task_bytes subs t) m m'
       \<or> r = Inl (EIo ''read'') \<and> m' = m \<and> \<not> task_readable files h t))"

lemma task_window: "task_ok subs t \<Longrightarrow> aligned_offset t + aligned_len t < 2 ^ 64"
  by (simp add: task_ok_def)

lemma holds_append: "holds content off b n \<Longrightarrow> holds content off (b @ c) n"
  by (simp add: holds_def)

lemma execute_buffered_ok:
  assumes "task_ok subs t" "distinct (dests (concat (map op_bytes subs)))"
    "handle_ok (files ! task_shard t) h" "length buf = aligned_len t"
  shows "exec_outcome files h subs t (aligned_len t) m (execute_buffered h t subs buf m)"
proof -
  let ?n = "required_len t" and ?off = "aligned_offset t"
  have n: "?n \<le> aligned_len t" using assms(1) by (simp add: task_ok_def)
  obtain r b where rb: "pread_until (buffered h) (take ?n buf) ?off ?n = (r, b)" by fastforce
  have rf: "reads_file (files ! task_shard t) (buffered h)" using assms(3) by (simp add: handle_ok_def)
  have w: "?off + length (take ?n buf) < 2 ^ 64" using task_window [OF assms(1)] n assms(4) by simp
  note pu = pread_until_ok [OF rf w, of ?n, unfolded rb fst_conv snd_conv]
  have lb: "length b = ?n" using pu(1) n assms(4) by simp
  show ?thesis
  proof (cases r)
    case (Inl e)
    have "\<not> task_readable files h t"
      using pread_until_error [OF rf w, of ?n e] rb Inl n assms(4) by (auto simp: task_readable_def reliable_def)
    then show ?thesis using Inl lb n assms(4) by (simp add: execute_buffered_def rb exec_outcome_def)
  next
    case (Inr u)
    have "holds (files ! task_shard t) ?off (b @ drop ?n buf) ?n"
      using pu(2) [of u] Inr lb n assms(4) by (simp add: holds_append)
    from deliver_ok [OF assms(1,2) this, of m] show ?thesis
      using Inr lb n assms(4) by (simp add: execute_buffered_def rb exec_outcome_def Let_def case_prod_beta)
  qed
qed

lemma execute_aligned_ok:
  assumes "task_ok subs t" "distinct (dests (concat (map op_bytes subs)))"
    "handle_ok (files ! task_shard t) h" "length buf = aligned_len t"
  shows "exec_outcome files h subs t (aligned_len t) m (execute_aligned h t subs buf m)"
proof (cases "direct h")
  case None
  then show ?thesis using execute_buffered_ok [OF assms] by (simp add: execute_aligned_def)
next
  case (Some d)
  let ?n = "required_len t" and ?off = "aligned_offset t"
  obtain r b where rb: "pread_until d buf ?off ?n = (r, b)" by fastforce
  have rf: "reads_file (files ! task_shard t) d" using assms(3) Some by (simp add: handle_ok_def)
  have w: "?off + length buf < 2 ^ 64" using task_window [OF assms(1)] assms(4) by simp
  note pu = pread_until_ok [OF rf w, of ?n, unfolded rb fst_conv snd_conv]
  show ?thesis
  proof (cases r)
    case (Inl e)
    have "\<not> task_readable files h t" if "e \<noteq> Einval"
      using pread_until_error [OF rf w, of ?n e] rb Inl assms(1,4) Some that
      by (auto simp: task_readable_def reliable_def task_ok_def)
    then show ?thesis
      using Some rb Inl pu(1) assms(4) execute_buffered_ok [OF assms(1-3), of b m]
      by (cases e) (simp_all add: execute_aligned_def exec_outcome_def)
  next
    case (Inr u)
    have "holds (files ! task_shard t) ?off b ?n"
      using pu(2) [of u] Inr assms(1,4) by (simp add: task_ok_def)
    from deliver_ok [OF assms(1,2) this, of m] show ?thesis
      using Some Inr rb pu(1) assms(4) by (simp add: execute_aligned_def exec_outcome_def case_prod_beta)
  qed
qed

lemma execute_ok:
  assumes "task_ok subs t" "distinct (dests (concat (map op_bytes subs)))"
    "handle_ok (files ! task_shard t) h" "length bounce = CHUNK_BYTES"
  shows "exec_outcome files h subs t CHUNK_BYTES m (execute h t subs bounce m)"
proof -
  have n: "aligned_len t \<le> CHUNK_BYTES" using assms(1) by (simp add: task_ok_def)
  then have "length (take (aligned_len t) bounce) = aligned_len t" using assms(4) by simp
  from execute_aligned_ok [OF assms(1-3) this, of m] show ?thesis
    using n assms(4) by (auto simp: execute_def exec_outcome_def)
qed

end
