(* ===== verification/ReaderPoolInv.thy ===== *)
theory ReaderPoolInv
  imports ReaderPool
begin

text \<open>
  Correctness of the parallel reader under every interleaving: an invariant that ties the caller,
  the published batch and the workers together, and from it that \<^verbatim>\<open>read_raw\<close> delivers exactly the
  requested bytes when it reports success, that workers only ever touch the vectors of a caller that
  is still waiting for them, and that every call ends.
\<close>

section \<open>The invariant\<close>

fun pending :: "nat \<Rightarrow> worker_pc \<Rightarrow> bool" where
  "pending g (WWaiting seen) = (seen \<noteq> g)"
| "pending g (WWorking seen ts ss pc) = True"
| "pending g WExited = False"

fun worker_ok :: "reader \<Rightarrow> worker_pc \<Rightarrow> bool" where
  "worker_ok s (WWaiting seen) = (seen < next_generation s)"
| "worker_ok s (WWorking seen ts ss pc) =
     (case batch s of None \<Rightarrow> False
      | Some b \<Rightarrow> generation b = seen \<and> batch_tasks b = ts \<and> batch_subs b = ss)"
| "worker_ok s WExited = shutdown s"

definition batch_ok :: "reader \<Rightarrow> active_batch \<Rightarrow> bool" where
  "batch_ok s b \<longleftrightarrow> (\<exists>j pc. caller s = CBusy j pc \<and> job_pooled j \<and> batch_tasks b = job_tasks j
       \<and> batch_subs b = job_subs j)
     \<and> generation b < next_generation s
     \<and> remaining_workers b = length (filter (pending (generation b)) (workers s))"

definition shape_ok :: "reader \<Rightarrow> bool" where
  "shape_ok s \<longleftrightarrow> length (workers s) < 2 ^ 64
     \<and> (\<forall>w \<in> set (workers s). worker_ok s w)
     \<and> (\<forall>b. batch s = Some b \<longrightarrow> batch_ok s b)
     \<and> (\<forall>j pc. caller s = CBusy j pc \<longrightarrow> job_pooled j \<longrightarrow> batch s \<noteq> None)
     \<and> (shutdown s \<longleftrightarrow> caller s = CDropped)
     \<and> (\<forall>k. length (bounces s k) = CHUNK_BYTES)"

text \<open>The program counters of the threads at work on the current job, and the errors they know of.\<close>

definition caller_pcs :: "caller_pc \<Rightarrow> drain_pc set" where
  "caller_pcs c = (case c of CBusy j pc \<Rightarrow> {pc} | _ \<Rightarrow> {})"

definition worker_pcs :: "worker_pc list \<Rightarrow> drain_pc set" where
  "worker_pcs ws = {pc. \<exists>g ts ss. WWorking g ts ss pc \<in> set ws}"

definition active :: "reader \<Rightarrow> drain_pc set" where
  "active s = caller_pcs (caller s) \<union> worker_pcs (workers s)"

definition recorded :: "reader \<Rightarrow> store_error option" where
  "recorded s = (case batch s of None \<Rightarrow> None | Some b \<Rightarrow> first_error b)"

definition job_ok :: "nat \<Rightarrow> read_job \<Rightarrow> bool" where
  "job_ok n j \<longleftrightarrow> valid_request (job_ops j) \<and> plan_ok n (job_ops j) (job_subs j, job_tasks j)"

text \<open>A request none of whose reads can fail: reliable handles and extents inside existing files.\<close>

definition healthy :: "bytes list \<Rightarrow> shard_handle list \<Rightarrow> (extent \<times> nat) list \<Rightarrow> bool" where
  "healthy files shards ops \<longleftrightarrow> (\<forall>h \<in> set shards. reliable h)
     \<and> (\<forall>(e, dst) \<in> set ops. shard e < length shards \<and> offset e + len e \<le> length (files ! shard e))"

definition progress ::
  "bytes list \<Rightarrow> shard_handle list \<Rightarrow> read_job \<Rightarrow> drain_pc set \<Rightarrow> nat \<Rightarrow> memory \<Rightarrow> store_error option \<Rightarrow> bool" where
  "progress files shards j A c m err \<longleftrightarrow>
     (\<forall>idx. idx < length (job_tasks j) \<and> idx < c \<longrightarrow>
        arrived files (task_bytes (job_subs j) (job_tasks j ! idx)) m
        \<or> Executing idx \<in> A \<or> (\<exists>e. Drained (Inl e) \<in> A) \<or> err \<noteq> None)
     \<and> (\<forall>idx. Executing idx \<in> A \<longrightarrow> idx < length (job_tasks j))
     \<and> (Drained (Inr ()) \<in> A \<longrightarrow> length (job_tasks j) \<le> c)
     \<and> (\<forall>e. Drained (Inl e) \<in> A \<longrightarrow> e = EIo ''read'' \<and> \<not> healthy files shards (job_ops j))
     \<and> (err = None \<or> err = Some (EIo ''read'') \<and> \<not> healthy files shards (job_ops j))
     \<and> untouched (concat (map extent_bytes (job_ops j))) (job_entry j) m"

definition returned_ok :: "bytes list \<Rightarrow> shard_handle list \<Rightarrow> (extent \<times> nat) list \<Rightarrow> memory \<Rightarrow> store_error + unit \<Rightarrow> memory \<Rightarrow> bool" where
  "returned_ok files shards ops m0 r m \<longleftrightarrow> untouched (concat (map extent_bytes ops)) m0 m
     \<and> (r = Inr () \<longrightarrow> arrived files (concat (map extent_bytes ops)) m)
     \<and> (healthy files shards ops \<longrightarrow> r = Inr ())
     \<and> (\<forall>p. r \<noteq> Inl (EPanic p))"

definition work_ok :: "bytes list \<Rightarrow> shard_handle list \<Rightarrow> reader \<Rightarrow> bool" where
  "work_ok files shards s \<longleftrightarrow>
     (\<forall>j pc. caller s = CBusy j pc \<longrightarrow>
        job_ok (length shards) j \<and> progress files shards j (active s) (cursor s) (memory s) (recorded s))
     \<and> (\<forall>ops m0 r. caller s = CReturned ops m0 r \<longrightarrow> returned_ok files shards ops m0 r (memory s))"

definition pool_inv :: "bytes list \<Rightarrow> shard_handle list \<Rightarrow> reader \<Rightarrow> bool" where
  "pool_inv files shards s \<longleftrightarrow> shape_ok s \<and> work_ok files shards s"

section \<open>Counting workers\<close>

lemma length_filter_update:
  "i < length xs \<Longrightarrow>
   length (filter P (xs[i := y])) + (if P (xs ! i) then 1 else 0)
   = length (filter P xs) + (if P y then 1 else 0)"
proof (induction xs arbitrary: i)
  case (Cons x xs)
  then show ?case by (cases i) auto
qed simp

lemma filter_update_same:
  "i < length xs \<Longrightarrow> P (xs ! i) = P y \<Longrightarrow> length (filter P (xs[i := y])) = length (filter P xs)"
  using length_filter_update [of i xs P y] by (auto split: if_splits)

lemma worker_pcs_update:
  assumes "i < length ws"
  shows "worker_pcs (ws[i := w]) \<subseteq> worker_pcs ws \<union> worker_pcs [w]"
    and "worker_pcs ws \<subseteq> worker_pcs (ws[i := w]) \<union> worker_pcs [ws ! i]"
proof -
  show "worker_pcs (ws[i := w]) \<subseteq> worker_pcs ws \<union> worker_pcs [w]"
    using set_update_subset_insert [of ws i w] unfolding worker_pcs_def by fastforce
  have "x \<in> set (ws[i := w]) \<or> x = ws ! i" if xs: "x \<in> set ws" for x
  proof -
    obtain k where k: "k < length ws" "x = ws ! k" using xs by (auto simp: in_set_conv_nth)
    show ?thesis
    proof (cases "k = i")
      case False
      then have "ws[i := w] ! k = x" using k by simp
      then show ?thesis using k by (metis length_list_update nth_mem)
    qed (use k in simp)
  qed
  then show "worker_pcs ws \<subseteq> worker_pcs (ws[i := w]) \<union> worker_pcs [ws ! i]"
    by (fastforce simp: worker_pcs_def)
qed

lemma worker_pcs_single [simp]:
  "worker_pcs [WWorking g ts ss pc] = {pc}" "worker_pcs [WWaiting g] = {}" "worker_pcs [WExited] = {}"
  by (auto simp: worker_pcs_def)

lemma worker_pcs_mem: "i < length ws \<Longrightarrow> ws ! i = WWorking g ts ss pc \<Longrightarrow> pc \<in> worker_pcs ws"
  by (auto simp: worker_pcs_def in_set_conv_nth)

section \<open>Progress of a drain step\<close>

lemma job_distinct: "job_ok n j \<Longrightarrow> distinct (dests (concat (map op_bytes (job_subs j))))"
  unfolding job_ok_def valid_request_def plan_ok_def dests_def
  by (metis (mono_tags, lifting) case_prodD mset_eq_imp_distinct_iff mset_map)

lemma job_dests:
  "job_ok n j \<Longrightarrow> set (dests (concat (map op_bytes (job_subs j)))) = set (dests (concat (map extent_bytes (job_ops j))))"
  unfolding job_ok_def plan_ok_def dests_def by (metis (mono_tags, lifting) case_prodD mset_eq_setD set_map)

lemma job_task:
  "job_ok n j \<Longrightarrow> idx < length (job_tasks j)
   \<Longrightarrow> task_ok (job_subs j) (job_tasks j ! idx) \<and> task_shard (job_tasks j ! idx) < n"
  by (simp add: job_ok_def plan_ok_def)

text \<open>Tasks other than the executed one keep their bytes: overlapping destinations would be
  duplicates, and the executed task rewrites its own bytes with the same values.\<close>

lemma arrived_other_task:
  assumes "job_ok n j" "idx < length (job_tasks j)" "k < length (job_tasks j)"
    "arrived files (task_bytes (job_subs j) (job_tasks j ! k)) m"
    "arrived files (task_bytes (job_subs j) (job_tasks j ! idx)) m'"
    "untouched (task_bytes (job_subs j) (job_tasks j ! idx)) m m'"
  shows "arrived files (task_bytes (job_subs j) (job_tasks j ! k)) m'"
proof -
  let ?all = "concat (map op_bytes (job_subs j))"
  have sub: "set (task_bytes (job_subs j) t) \<subseteq> set ?all" for t
    using slice_ops_set [of "job_subs j" "task_ops t"] by (auto simp: task_bytes_def)
  have "inj_on (\<lambda>(_, _, a). a) (set ?all)"
    using job_distinct [OF assms(1)] unfolding dests_def by (rule distinct_map [THEN iffD1, THEN conjunct2])
  note inj = inj_onD [OF this]
  show ?thesis unfolding arrived_iff
  proof (intro allI impI)
    fix sh p a assume mem: "(sh, p, a) \<in> set (task_bytes (job_subs j) (job_tasks j ! k))"
    show "p < length (files ! sh) \<and> m' a = files ! sh ! p"
    proof (cases "a \<in> set (dests (task_bytes (job_subs j) (job_tasks j ! idx)))")
      case True
      then obtain sh' p' where q: "(sh', p', a) \<in> set (task_bytes (job_subs j) (job_tasks j ! idx))"
        by (auto simp: dests_def)
      have "(sh, p, a) = (sh', p', a)"
        using subsetD [OF sub mem] subsetD [OF sub q] by (intro inj) simp_all
      then show ?thesis using q assms(5) by (auto simp: arrived_iff)
    next
      case False
      then show ?thesis using mem assms(4,6) by (auto simp: arrived_iff untouched_def)
    qed
  qed
qed


lemma healthy_task:
  assumes "job_ok (length shards) j" "idx < length (job_tasks j)" "healthy files shards (job_ops j)"
  shows "task_readable files (shards ! task_shard (job_tasks j ! idx)) (job_tasks j ! idx)"
proof -
  let ?t = "job_tasks j ! idx"
  note t = job_task [OF assms(1,2)]
  obtain i where i: "fst (task_ops ?t) \<le> i" "i < snd (task_ops ?t)" "0 < op_len (job_subs j ! i)"
    "op_end (job_subs j ! i) = aligned_offset ?t + required_len ?t"
    using t unfolding task_ok_def by blast
  have sh: "op_shard (job_subs j ! i) = task_shard ?t" "i < length (job_subs j)"
    using t i(1,2) unfolding task_ok_def by auto
  let ?op = "job_subs j ! i"
  have "(op_shard ?op, op_offset ?op + (op_len ?op - 1), op_dst ?op + (op_len ?op - 1)) \<in> set (op_bytes ?op)"
    using i(3) by (auto simp: op_bytes_def intro!: image_eqI [of _ _ "op_len ?op - 1"])
  then have "(op_shard ?op, op_offset ?op + (op_len ?op - 1), op_dst ?op + (op_len ?op - 1))
      \<in> set (concat (map op_bytes (job_subs j)))" using sh(2) by (auto intro: nth_mem)
  also have "set (concat (map op_bytes (job_subs j))) = set (concat (map extent_bytes (job_ops j)))"
    using assms(1) by (intro mset_eq_setD) (simp add: job_ok_def plan_ok_def)
  finally obtain e dst where e: "(e, dst) \<in> set (job_ops j)" "shard e = op_shard ?op"
    "op_offset ?op + (op_len ?op - 1) < offset e + len e"
    by (auto simp: extent_bytes_def)
  have "offset e + len e \<le> length (files ! shard e)" using assms(3) e(1) by (auto simp: healthy_def)
  then have "op_end ?op \<le> length (files ! task_shard ?t)"
    using e(2,3) sh(1) i(3) by (simp add: op_end_def)
  moreover have "reliable (shards ! task_shard ?t)" using assms(3) t by (simp add: healthy_def)
  ultimately show ?thesis using i(4) by (simp add: task_readable_def)
qed

lemma progressI:
  assumes "\<And>idx. idx < length (job_tasks j) \<Longrightarrow> idx < c \<Longrightarrow>
      arrived files (task_bytes (job_subs j) (job_tasks j ! idx)) m
      \<or> Executing idx \<in> A \<or> (\<exists>e. Drained (Inl e) \<in> A) \<or> err \<noteq> None"
    and "\<And>idx. Executing idx \<in> A \<Longrightarrow> idx < length (job_tasks j)"
    and "Drained (Inr ()) \<in> A \<Longrightarrow> length (job_tasks j) \<le> c"
    and "\<And>e. Drained (Inl e) \<in> A \<Longrightarrow> e = EIo ''read'' \<and> \<not> healthy files shards (job_ops j)"
    and "err = None \<or> err = Some (EIo ''read'') \<and> \<not> healthy files shards (job_ops j)"
    and "untouched (concat (map extent_bytes (job_ops j))) (job_entry j) m"
  shows "progress files shards j A c m err"
  using assms unfolding progress_def by blast

lemma progressD:
  assumes "progress files shards j A c m err"
  shows "idx < length (job_tasks j) \<Longrightarrow> idx < c \<Longrightarrow>
      arrived files (task_bytes (job_subs j) (job_tasks j ! idx)) m
      \<or> Executing idx \<in> A \<or> (\<exists>e. Drained (Inl e) \<in> A) \<or> err \<noteq> None"
    and "Executing idx \<in> A \<Longrightarrow> idx < length (job_tasks j)"
    and "Drained (Inr ()) \<in> A \<Longrightarrow> length (job_tasks j) \<le> c"
    and "Drained (Inl e) \<in> A \<Longrightarrow> e = EIo ''read'' \<and> \<not> healthy files shards (job_ops j)"
    and "err = None \<or> err = Some (EIo ''read'') \<and> \<not> healthy files shards (job_ops j)"
    and "untouched (concat (map extent_bytes (job_ops j))) (job_entry j) m"
  using assms unfolding progress_def by blast+

lemma progress_claim:
  assumes "progress files shards j A c m err" "job_ok (length shards) j" "cursor s = c"
    "drain_claim shards (job_tasks j) s = (pc', s')"
    "pc' \<in> A'" "A - {Draining} \<subseteq> A'" "A' \<subseteq> insert pc' A"
  shows "progress files shards j A' (cursor s') m err"
proof -
  have cur: "cursor s' = Suc c"
    using assms(3,4) by (auto simp: drain_claim_def Let_def split: if_splits)
  have pc: "pc' = (if length (job_tasks j) \<le> c then Drained (Inr ()) else Executing c)"
    using assms(3,4) job_task [OF assms(2), of c] by (auto simp: drain_claim_def Let_def split: if_splits)
  have keep: "x \<in> A'" if "x \<in> A" "x \<noteq> Draining" for x using that assms(6) by blast
  have new: "x \<in> A" if "x \<in> A'" "x \<noteq> pc'" for x using that assms(7) by blast
  note D = progressD [OF assms(1)]
  show ?thesis unfolding cur
  proof (rule progressI)
    fix idx assume i: "idx < length (job_tasks j)" "idx < Suc c"
    show "arrived files (task_bytes (job_subs j) (job_tasks j ! idx)) m
      \<or> Executing idx \<in> A' \<or> (\<exists>e. Drained (Inl e) \<in> A') \<or> err \<noteq> None"
    proof (cases "idx = c")
      case True
      then show ?thesis using i pc assms(5) by simp
    next
      case False
      then have "idx < c" using i by simp
      then show ?thesis using D(1) [OF i(1)] keep by blast
    qed
  next
    show "idx < length (job_tasks j)" if "Executing idx \<in> A'" for idx
      using that new [of "Executing idx"] D(2) [of idx] pc by (cases "idx = c") (auto split: if_splits)
    show "length (job_tasks j) \<le> Suc c" if dr: "Drained (Inr ()) \<in> A'"
    proof (cases "length (job_tasks j) \<le> c")
      case False
      then have "pc' = Executing c" using pc by simp
      then show ?thesis using new [OF dr] D(3) by simp
    qed simp
    show "e = EIo ''read'' \<and> \<not> healthy files shards (job_ops j)" if dr: "Drained (Inl e) \<in> A'" for e
    proof (rule D(4), rule new [OF dr])
      show "Drained (Inl e) \<noteq> pc'" using pc by simp
    qed
  qed (rule D(5,6))+
qed

lemma progress_execute:
  assumes "progress files shards j A (cursor s) (memory s) err" "job_ok (length shards) j" "handles_ok files shards"
    "Executing idx \<in> A" "length (bounces s k) = CHUNK_BYTES"
    "drain_execute shards (job_tasks j) (job_subs j) k idx s = (pc', s')"
    "pc' \<in> A'" "A - {Executing idx} \<subseteq> A'" "A' \<subseteq> insert pc' A"
  shows "progress files shards j A' (cursor s') (memory s') err \<and> (\<forall>k. length (bounces s k) = CHUNK_BYTES \<longrightarrow> length (bounces s' k) = CHUNK_BYTES)"
proof -
  let ?t = "job_tasks j ! idx"
  have idx: "idx < length (job_tasks j)" using assms(1,4) by (simp add: progress_def)
  note t = job_task [OF assms(2) idx]
  have "handle_ok (files ! task_shard ?t) (shards ! task_shard ?t)"
    using assms(3) t by (simp add: handles_ok_def list_all2_conv_all_nth)
  note eo = execute_ok [OF conjunct1 [OF t] job_distinct [OF assms(2)] this assms(5), of "memory s"]
  obtain r b m where rbm: "execute (shards ! task_shard ?t) ?t (job_subs j) (bounces s k) (memory s) = (r, b, m)"
    by (metis prod_cases3)
  have s': "s' = s\<lparr> memory := m, bounces := (bounces s)(k := b) \<rparr>"
    and pc': "pc' = (case r of Inr _ \<Rightarrow> Draining | Inl e \<Rightarrow> Drained (Inl e))"
    using assms(6) rbm by (simp_all add: drain_execute_def Let_def)
  have b: "length b = CHUNK_BYTES" using eo rbm by (simp add: exec_outcome_def)
  have keep: "x \<in> A'" if "x \<in> A" "x \<noteq> Executing idx" for x using that assms(8) by blast
  have new: "x \<in> A" if "x \<in> A'" "x \<noteq> pc'" for x using that assms(9) by blast
  note D = progressD [OF assms(1)]
  have "progress files shards j A' (cursor s) m err"
  proof (cases r)
    case (Inl e)
    then have e: "e = EIo ''read'' \<and> \<not> healthy files shards (job_ops j)" "m = memory s" "pc' = Drained (Inl e)"
      using eo rbm pc' healthy_task [OF assms(2) idx] by (auto simp: exec_outcome_def)
    have "Drained (Inl e) \<in> A'" using assms(7) e(3) by simp
    show ?thesis
    proof (rule progressI)
      show "e' = EIo ''read'' \<and> \<not> healthy files shards (job_ops j)" if "Drained (Inl e') \<in> A'" for e'
        using that new [of "Drained (Inl e')"] D(4) e by auto
      show "length (job_tasks j) \<le> cursor s" if "Drained (Inr ()) \<in> A'"
        using that new [of "Drained (Inr ())"] D(3) e by simp
      show "i < length (job_tasks j)" if "Executing i \<in> A'" for i
        using that new [of "Executing i"] D(2) e by simp
    qed (use D(5,6) e \<open>Drained (Inl e) \<in> A'\<close> in \<open>blast+\<close>)
  next
    case (Inr u)
    have m: "arrived files (task_bytes (job_subs j) ?t) m" "untouched (task_bytes (job_subs j) ?t) (memory s) m"
      using eo rbm Inr by (simp_all add: exec_outcome_def)
    have un: "untouched (concat (map extent_bytes (job_ops j))) (job_entry j) m"
      using m(2) D(6) dests_task_bytes [of "job_subs j" ?t] job_dests [OF assms(2)]
      unfolding untouched_def by (metis subsetD)
    have arr: "arrived files (task_bytes (job_subs j) (job_tasks j ! i)) m
        \<or> Executing i \<in> A' \<or> (\<exists>e. Drained (Inl e) \<in> A') \<or> err \<noteq> None"
      if i: "i < length (job_tasks j)" "i < cursor s" for i
    proof (cases "i = idx")
      case False
      have "arrived files (task_bytes (job_subs j) (job_tasks j ! i)) (memory s)
        \<or> Executing i \<in> A \<or> (\<exists>e. Drained (Inl e) \<in> A) \<or> err \<noteq> None"
        using D(1) i by blast
      then show ?thesis
        using arrived_other_task [OF assms(2) idx i(1) _ m] keep False by blast
    qed (use m in simp)
    show ?thesis
    proof (rule progressI)
      show "e' = EIo ''read'' \<and> \<not> healthy files shards (job_ops j)" if "Drained (Inl e') \<in> A'" for e'
        using that new [of "Drained (Inl e')"] D(4) pc' Inr by simp
      show "length (job_tasks j) \<le> cursor s" if "Drained (Inr ()) \<in> A'"
        using that new [of "Drained (Inr ())"] D(3) pc' Inr by simp
      show "i < length (job_tasks j)" if "Executing i \<in> A'" for i
        using that new [of "Executing i"] D(2) pc' Inr by simp
    qed (use arr un D(5) in blast)+
  qed
  then show ?thesis using s' b by simp
qed

lemma drain_step_frame:
  "drain_step shards tasks subs k pc s = (pc', s')
   \<Longrightarrow> batch s' = batch s \<and> shutdown s' = shutdown s \<and> next_generation s' = next_generation s
     \<and> caller s' = caller s \<and> workers s' = workers s"
  by (cases pc) (auto simp: drain_claim_def drain_execute_def Let_def split: if_splits prod.splits)

lemma progress_drain:
  assumes "progress files shards j A (cursor s) (memory s) err" "job_ok (length shards) j" "handles_ok files shards"
    "pc \<in> A" "\<forall>k. length (bounces s k) = CHUNK_BYTES" "\<forall>r. pc \<noteq> Drained r"
    "drain_step shards (job_tasks j) (job_subs j) k pc s = (pc', s')"
    "pc' \<in> A'" "A - {pc} \<subseteq> A'" "A' \<subseteq> insert pc' A"
  shows "progress files shards j A' (cursor s') (memory s') err \<and> (\<forall>k. length (bounces s' k) = CHUNK_BYTES)"
proof (cases pc)
  case Draining
  have c: "drain_claim shards (job_tasks j) s = (pc', s')" using assms(7) Draining by simp
  have "memory s' = memory s \<and> bounces s' = bounces s"
    using c by (auto simp: drain_claim_def Let_def split: if_splits)
  then show ?thesis
    using progress_claim [OF assms(1,2) refl c assms(8)] assms(5,9,10) Draining by simp
next
  case (Executing idx)
  have "drain_execute shards (job_tasks j) (job_subs j) k idx s = (pc', s')" using assms(7) Executing by simp
  from progress_execute [OF assms(1-3) _ _ this assms(8)] show ?thesis
    using assms(4,5,9,10) Executing by simp
qed (use assms(6) in simp)

section \<open>Every step keeps the invariant\<close>

lemma shapeD:
  assumes "shape_ok s"
  shows "length (workers s) < 2 ^ 64" "\<And>w. w \<in> set (workers s) \<Longrightarrow> worker_ok s w"
    "\<And>b. batch s = Some b \<Longrightarrow> batch_ok s b"
    "\<And>j pc. caller s = CBusy j pc \<Longrightarrow> job_pooled j \<Longrightarrow> batch s \<noteq> None"
    "shutdown s \<longleftrightarrow> caller s = CDropped" "\<And>k. length (bounces s k) = CHUNK_BYTES"
  using assms unfolding shape_ok_def by blast+

lemma no_batch:
  assumes "shape_ok s" "\<And>j pc. caller s \<noteq> CBusy j pc"
  shows "batch s = None" "worker_pcs (workers s) = {}"
    "\<not> shutdown s \<Longrightarrow> w \<in> set (workers s) \<Longrightarrow> \<exists>g. w = WWaiting g \<and> g < next_generation s"
proof -
  show b: "batch s = None"
    using shapeD(3) [OF assms(1)] assms(2) by (cases "batch s") (auto simp: batch_ok_def)
  have w: "worker_ok s w" if "w \<in> set (workers s)" for w using shapeD(2) [OF assms(1) that] .
  show "worker_pcs (workers s) = {}" using w b by (force simp: worker_pcs_def)
  show "\<exists>g. w = WWaiting g \<and> g < next_generation s" if "\<not> shutdown s" "w \<in> set (workers s)"
    using w [OF that(2)] b that(1) by (cases w) auto
qed

lemma inv_init: "n < 2 ^ 64 \<Longrightarrow> pool_inv files shards (reader_open n m)"
  by (auto simp: pool_inv_def shape_ok_def work_ok_def reader_open_def)

lemma inv_returned:
  assumes "pool_inv files shards s" "\<And>j pc. caller s \<noteq> CBusy j pc" "caller s \<noteq> CDropped"
    "returned_ok files shards ops (memory s) r (memory s)"
  shows "pool_inv files shards (s\<lparr> caller := CReturned ops (memory s) r \<rparr>)"
proof -
  have sh: "shape_ok s" using assms(1) by (simp add: pool_inv_def)
  note nb = no_batch [OF sh assms(2)]
  have "worker_ok (s\<lparr> caller := CReturned ops (memory s) r \<rparr>) w" if "w \<in> set (workers s)" for w
    using shapeD(2) [OF sh that] by (cases w) auto
  then show ?thesis
    using nb shapeD [OF sh] assms(3,4) by (simp add: pool_inv_def shape_ok_def work_ok_def)
qed

lemma progress_start:
  "progress files shards j {Draining} 0 (job_entry j) None"
  by (rule progressI) simp_all

lemma inv_start_job:
  assumes "pool_inv files shards s" "\<And>j pc. caller s \<noteq> CBusy j pc" "caller s \<noteq> CDropped"
    "valid_request ops" "plan_ok (length shards) ops (subs, tasks)"
  shows "pool_inv files shards (start_job ops subs tasks s)"
proof -
  have sh: "shape_ok s" using assms(1) by (simp add: pool_inv_def)
  note nb = no_batch [OF sh assms(2)]
  have nsd: "\<not> shutdown s" using shapeD(5) [OF sh] assms(3) by simp
  note ws = nb(3) [OF nsd]
  let ?j = "\<lparr> job_ops = ops, job_tasks = tasks, job_subs = subs,
                job_pooled = (length tasks \<noteq> 1 \<and> workers s \<noteq> []), job_entry = memory s \<rparr>"
  have j: "job_ok (length shards) ?j" using assms(4,5) by (simp add: job_ok_def)
  have pr: "progress files shards ?j {Draining} 0 (memory s) None"
    using progress_start [of files shards ?j] by simp
  consider "tasks = []" | "tasks \<noteq> []" "job_pooled ?j" | "tasks \<noteq> []" "\<not> job_pooled ?j" by blast
  then show ?thesis
  proof cases
    case 1
    then have "[0..<length subs] = []" using assms(5) by (simp add: plan_ok_def)
    then have "subs = []" by simp
    then have "concat (map extent_bytes ops) = []" using assms(5) by (simp add: plan_ok_def)
    then have "returned_ok files shards ops (memory s) (Inr ()) (memory s)"
      unfolding returned_ok_def by (simp only: arrived_Nil) simp
    then show ?thesis using 1 inv_returned [OF assms(1-3)] by (simp add: start_job_def Let_def)
  next
    case 2
    have eq: "start_job ops subs tasks s = publish ?j s" using 2 by (simp add: start_job_def Let_def)
    have "worker_ok (publish ?j s) w \<and> pending (next_generation s) w" if "w \<in> set (workers s)" for w
      using ws [OF that] by (auto simp: publish_def)
    moreover from this have "filter (pending (next_generation s)) (workers s) = workers s"
      by (simp add: filter_id_conv)
    ultimately have "shape_ok (publish ?j s)"
      using shapeD [OF sh] 2(2) nsd by (auto simp: shape_ok_def batch_ok_def publish_def)
    then show ?thesis
      unfolding eq using j pr nb(2)
      by (simp add: pool_inv_def work_ok_def publish_def active_def caller_pcs_def recorded_def)
  next
    case 3
    let ?s = "s\<lparr> cursor := 0, caller := CBusy ?j Draining \<rparr>"
    have eq: "start_job ops subs tasks s = ?s" using 3 by (auto simp: start_job_def Let_def)
    have "worker_ok ?s w" if "w \<in> set (workers s)" for w using ws [OF that] by auto
    then have "shape_ok ?s"
      using shapeD [OF sh] 3(2) nb(1) nsd by (simp add: shape_ok_def)
    then show ?thesis
      unfolding eq using j pr nb
      by (simp add: pool_inv_def work_ok_def active_def caller_pcs_def recorded_def)
  qed
qed

lemma inv_start:
  assumes "pool_inv files shards s" "caller s = CIdle \<or> caller s = CReturned ops0 m0 r0"
    "valid_request ops" "sorts_ops srt" "read_start srt (length shards) ops s = Some s'"
  shows "pool_inv files shards s'"
proof -
  have ok: "requests_ok ops" using assms(3) by (simp add: valid_request_def)
  have nb: "\<And>j pc. caller s \<noteq> CBusy j pc" "caller s \<noteq> CDropped" using assms(2) by auto
  show ?thesis
  proof (cases "bad_shard (length shards) ops")
    case True
    then have "\<not> healthy files shards ops" by (fastforce simp: healthy_def bad_shard_def)
    then have "returned_ok files shards ops (memory s) (Inl (EInvalid ''extent shard exceeds shard count'')) (memory s)"
      by (simp add: returned_ok_def)
    then show ?thesis
      using assms(5) True inv_returned [OF assms(1) nb]
      by (auto simp: read_start_def plan_read_tasks_bad [OF ok])
  next
    case False
    from plan_read_tasks_good [OF assms(4) ok False] obtain subs tasks where
      "plan_read_tasks srt ops (length shards) = Some (Inr (subs, tasks))"
      "plan_ok (length shards) ops (subs, tasks)" by auto
    then show ?thesis using assms(5) inv_start_job [OF assms(1) nb assms(3)] by (auto simp: read_start_def)
  qed
qed

lemma drain_shape:
  assumes "drain_step shards ts ss k pc s = (pc', s')" "worker_ok s w"
  shows "worker_ok (s'\<lparr> caller := c \<rparr>) w \<and> worker_ok (s'\<lparr> workers := ws \<rparr>) w"
  using drain_step_frame [OF assms(1)] assms(2) by (cases w) auto

lemma inv_caller_drain:
  assumes "pool_inv files shards s" "handles_ok files shards" "caller s = CBusy j pc"
    "\<forall>r. pc \<noteq> Drained r" "drain_step shards (job_tasks j) (job_subs j) 0 pc s = (pc', s')"
  shows "pool_inv files shards (s'\<lparr> caller := CBusy j pc' \<rparr>)"
proof -
  have sh: "shape_ok s" and wk: "work_ok files shards s" using assms(1) by (simp_all add: pool_inv_def)
  have j: "job_ok (length shards) j" "progress files shards j (active s) (cursor s) (memory s) (recorded s)"
    using wk assms(3) by (simp_all add: work_ok_def)
  note fr = drain_step_frame [OF assms(5)]
  let ?s = "s'\<lparr> caller := CBusy j pc' \<rparr>"
  have act: "active s = insert pc (worker_pcs (workers s))" "active ?s = insert pc' (worker_pcs (workers s))"
    using assms(3) fr by (simp_all add: active_def caller_pcs_def)
  have pr: "progress files shards j (active ?s) (cursor s') (memory s') (recorded s)"
    and bn: "\<forall>k. length (bounces s' k) = CHUNK_BYTES"
    using progress_drain [OF j(2,1) assms(2) _ _ assms(4,5), of "active ?s"] shapeD(6) [OF sh] act by auto
  have "shape_ok ?s"
    using shapeD [OF sh] fr bn drain_shape [OF assms(5)] assms(3)
    by (auto simp: shape_ok_def batch_ok_def)
  moreover have "work_ok files shards ?s"
    using j(1) pr fr by (simp add: work_ok_def recorded_def)
  ultimately show ?thesis by (simp add: pool_inv_def)
qed

lemma worker_on_batch:
  assumes "shape_ok s" "i < length (workers s)" "workers s ! i = WWorking g ts ss pc"
  obtains b j cpc where "batch s = Some b" "generation b = g" "caller s = CBusy j cpc" "job_pooled j"
    "ts = job_tasks j" "ss = job_subs j"
    "remaining_workers b = length (filter (pending g) (workers s))"
proof -
  have "worker_ok s (workers s ! i)" using shapeD(2) [OF assms(1)] assms(2) by simp
  then obtain b where b: "batch s = Some b" "generation b = g" "batch_tasks b = ts" "batch_subs b = ss"
    using assms(3) by (auto split: option.splits)
  then show ?thesis using shapeD(3) [OF assms(1) b(1)] that by (auto simp: batch_ok_def)
qed

lemma inv_worker_drain:
  assumes "pool_inv files shards s" "handles_ok files shards" "i < length (workers s)"
    "workers s ! i = WWorking g ts ss pc"
    "\<forall>r. pc \<noteq> Drained r" "drain_step shards ts ss k pc s = (pc', s')"
  shows "pool_inv files shards (s'\<lparr> workers := (workers s)[i := WWorking g ts ss pc'] \<rparr>)"
proof -
  have sh: "shape_ok s" and wk: "work_ok files shards s" using assms(1) by (simp_all add: pool_inv_def)
  obtain b j cpc where b: "batch s = Some b" "generation b = g" "caller s = CBusy j cpc" "job_pooled j"
    "ts = job_tasks j" "ss = job_subs j" "remaining_workers b = length (filter (pending g) (workers s))"
    by (rule worker_on_batch [OF sh assms(3,4)])
  have j: "job_ok (length shards) j" "progress files shards j (active s) (cursor s) (memory s) (recorded s)"
    using wk b(3) by (simp_all add: work_ok_def)
  note fr = drain_step_frame [OF assms(6)]
  let ?ws = "(workers s)[i := WWorking g ts ss pc']" and ?s = "s'\<lparr> workers := (workers s)[i := WWorking g ts ss pc'] \<rparr>"
  have act: "active s = insert cpc (worker_pcs (workers s))" "active ?s = insert cpc (worker_pcs ?ws)"
    using b(3) fr by (simp_all add: active_def caller_pcs_def)
  note up = worker_pcs_update [OF assms(3), of "WWorking g ts ss pc'", unfolded assms(4) worker_pcs_single]
  have pcs: "pc \<in> active s" "pc' \<in> active ?s" "active s - {pc} \<subseteq> active ?s" "active ?s \<subseteq> insert pc' (active s)"
    using worker_pcs_mem [OF assms(3,4)] worker_pcs_mem [of i ?ws g ts ss pc'] assms(3) up
    unfolding act by auto
  have pr: "progress files shards j (active ?s) (cursor s') (memory s') (recorded s)"
    and bn: "\<forall>k. length (bounces s' k) = CHUNK_BYTES"
    using progress_drain [OF j(2,1) assms(2) pcs(1) _ assms(5) _ pcs(2-4)] assms(6) b(5,6) shapeD(6) [OF sh]
    by blast+
  have wok: "worker_ok ?s w" if "w \<in> set ?ws" for w
  proof -
    have "w = WWorking g ts ss pc' \<or> w \<in> set (workers s)"
      using that set_update_subset_insert [of "workers s" i] by fastforce
    moreover have "worker_ok s (WWorking g ts ss pc')"
      using shapeD(2) [OF sh nth_mem [OF assms(3)]] assms(4) by (simp split: option.splits)
    ultimately have "worker_ok s w" using shapeD(2) [OF sh] by auto
    then show ?thesis using drain_shape [OF assms(6)] by simp
  qed
  have "length (filter (pending g) ?ws) = length (filter (pending g) (workers s))"
    using assms(3,4) by (intro filter_update_same) simp_all
  then have "shape_ok ?s"
    using shapeD [OF sh] fr bn wok b shapeD(3) [OF sh b(1)]
    by (auto simp: shape_ok_def batch_ok_def)
  moreover have "work_ok files shards ?s"
    using j(1) pr fr b(3) by (simp add: work_ok_def recorded_def)
  ultimately show ?thesis by (simp add: pool_inv_def)
qed

lemma inv_worker_wakes:
  assumes "pool_inv files shards s" "i < length (workers s)" "workers s ! i = WWaiting seen"
    "worker_wake seen s \<noteq> WWaiting seen"
  shows "pool_inv files shards (s\<lparr> workers := (workers s)[i := worker_wake seen s] \<rparr>)"
proof -
  have sh: "shape_ok s" and wk: "work_ok files shards s" using assms(1) by (simp_all add: pool_inv_def)
  let ?w = "worker_wake seen s"
  let ?ws = "(workers s)[i := ?w]" and ?s = "s\<lparr> workers := (workers s)[i := worker_wake seen s] \<rparr>"
  have new: "worker_ok s ?w" "batch s = Some b \<Longrightarrow> pending (generation b) ?w \<and> seen \<noteq> generation b"
    "worker_pcs [?w] \<subseteq> {Draining}" for b
    using assms(4) shapeD(3) [OF sh] shapeD(5) [OF sh]
    by (auto simp: worker_wake_def batch_ok_def split: if_splits option.splits)
  have wok: "worker_ok ?s w" if "w \<in> set ?ws" for w
  proof -
    have "worker_ok s w"
      using that set_update_subset_insert [of "workers s" i ?w] new(1) shapeD(2) [OF sh] by fastforce
    then show ?thesis by (cases w) auto
  qed
  have cnt: "length (filter (pending (generation b)) ?ws) = length (filter (pending (generation b)) (workers s))"
    if "batch s = Some b" for b
    using assms(2,3) new(2) [OF that] by (intro filter_update_same) simp_all
  have "shape_ok ?s"
    using shapeD [OF sh] wok cnt by (auto simp: shape_ok_def batch_ok_def)
  moreover have "progress files shards j (active ?s) (cursor s) (memory s) (recorded s)"
    if pr: "progress files shards j (active s) (cursor s) (memory s) (recorded s)" for j
  proof -
    have sub: "active s \<subseteq> active ?s" "active ?s \<subseteq> insert Draining (active s)"
      using worker_pcs_update [OF assms(2), of ?w, unfolded assms(3) worker_pcs_single] new(3)
      by (auto simp: active_def)
    note D = progressD [OF pr]
    show ?thesis
    proof (rule progressI)
      fix idx assume "idx < length (job_tasks j)" "idx < cursor s"
      from D(1) [OF this] show "arrived files (task_bytes (job_subs j) (job_tasks j ! idx)) (memory s)
        \<or> Executing idx \<in> active ?s \<or> (\<exists>e. Drained (Inl e) \<in> active ?s) \<or> recorded s \<noteq> None"
        using sub(1) by blast
    qed (use sub(2) D(2-6) in blast)+
  qed
  ultimately show ?thesis using wk by (simp add: pool_inv_def work_ok_def recorded_def)
qed

lemma inv_worker_reports:
  assumes "pool_inv files shards s" "i < length (workers s)" "workers s ! i = WWorking g ts ss (Drained r)"
  shows "pool_inv files shards ((worker_report g r s)\<lparr> workers := (workers s)[i := WWaiting g] \<rparr>)"
proof -
  have sh: "shape_ok s" and wk: "work_ok files shards s" using assms(1) by (simp_all add: pool_inv_def)
  obtain b j cpc where b: "batch s = Some b" "generation b = g" "caller s = CBusy j cpc" "job_pooled j"
    "ts = job_tasks j" "ss = job_subs j" "remaining_workers b = length (filter (pending g) (workers s))"
    by (rule worker_on_batch [OF sh assms(2,3)])
  have j: "job_ok (length shards) j" "progress files shards j (active s) (cursor s) (memory s) (recorded s)"
    using wk b(3) by (simp_all add: work_ok_def)
  note D = progressD [OF j(2)]
  let ?ws = "(workers s)[i := WWaiting g]"
  let ?s = "(worker_report g r s)\<lparr> workers := (workers s)[i := WWaiting g] \<rparr>"
  define err where "err = (case r of Inl e \<Rightarrow> if first_error b = None then Some e else first_error b
                  | Inr _ \<Rightarrow> first_error b)"
  have cnt: "length (filter (pending g) ?ws) + 1 = length (filter (pending g) (workers s))"
    using length_filter_update [OF assms(2), of "pending g" "WWaiting g"] assms(3) by simp
  have "remaining_workers b < 2 ^ 64"
    using le_less_trans [OF length_filter_le shapeD(1) [OF sh]] b(7) by simp
  then have rem: "wsub (remaining_workers b) 1 = length (filter (pending g) ?ws)"
    using b(7) cnt by (subst wsub_exact) simp_all
  have s: "?s = s\<lparr> batch := Some (b\<lparr> first_error := err, remaining_workers := length (filter (pending g) ?ws) \<rparr>),
      workers := ?ws \<rparr>"
    using b(1,2) by (simp only: worker_report_def option.case if_True rem err_def) simp
  have wok: "worker_ok ?s w" if "w \<in> set ?ws" for w
  proof -
    have "worker_ok s (WWaiting g)" using shapeD(3) [OF sh b(1)] b(2) by (simp add: batch_ok_def)
    then have "worker_ok s w"
      using that set_update_subset_insert [of "workers s" i] shapeD(2) [OF sh] by fastforce
    then show ?thesis unfolding s using b(1) by (cases w) auto
  qed
  have shp: "shape_ok ?s"
    using shapeD [OF sh] wok b shapeD(3) [OF sh b(1)] unfolding s by (auto simp: shape_ok_def batch_ok_def)
  have dr: "Drained r \<in> active s" using worker_pcs_mem [OF assms(2,3)] by (simp add: active_def)
  have rec: "recorded s = first_error b" using b(1) by (simp add: recorded_def)
  have keep: "x \<in> active ?s" if "x \<in> active s" "x \<noteq> Drained r" for x
    using that worker_pcs_update(2) [OF assms(2), of "WWaiting g", unfolded assms(3) worker_pcs_single]
    unfolding s active_def by auto
  have sub: "active ?s \<subseteq> active s"
    using worker_pcs_update(1) [OF assms(2), of "WWaiting g"] unfolding s active_def by auto
  have "progress files shards j (active ?s) (cursor s) (memory s) err"
  proof (rule progressI)
    show "err = None \<or> err = Some (EIo ''read'') \<and> \<not> healthy files shards (job_ops j)"
      using D(4) [of "projl r"] D(5) dr rec by (cases r) (auto simp: err_def)
    show "arrived files (task_bytes (job_subs j) (job_tasks j ! idx)) (memory s)
        \<or> Executing idx \<in> active ?s \<or> (\<exists>e. Drained (Inl e) \<in> active ?s) \<or> err \<noteq> None"
      if "idx < length (job_tasks j)" "idx < cursor s" for idx
      using D(1) [OF that] keep rec by (cases r) (auto simp: err_def)
  qed (use sub D in \<open>blast+\<close>)
  then have "work_ok files shards ?s" using j(1) b(3) unfolding s by (simp add: work_ok_def recorded_def)
  then show ?thesis using shp by (simp add: pool_inv_def)
qed

lemma progress_complete:
  assumes "progress files shards j {Drained (Inr ())} c m None" "job_ok (length shards) j"
  shows "arrived files (concat (map extent_bytes (job_ops j))) m"
proof -
  note D = progressD [OF assms(1)]
  have tk: "arrived files (task_bytes (job_subs j) t) m" if "t \<in> set (job_tasks j)" for t
    using D(1) D(3) that by (fastforce simp: in_set_conv_nth)
  have pl: "concat (map (\<lambda>t. [fst (task_ops t)..<snd (task_ops t)]) (job_tasks j)) = [0..<length (job_subs j)]"
    "mset (concat (map op_bytes (job_subs j))) = mset (concat (map extent_bytes (job_ops j)))"
    "\<forall>t \<in> set (job_tasks j). task_ok (job_subs j) t"
    using assms(2) by (auto simp: job_ok_def plan_ok_def)
  have "arrived files (op_bytes (job_subs j ! i)) m" if i: "i < length (job_subs j)" for i
  proof -
    have "i \<in> set (concat (map (\<lambda>t. [fst (task_ops t)..<snd (task_ops t)]) (job_tasks j)))"
      unfolding pl(1) using i by simp
    then obtain t where t: "t \<in> set (job_tasks j)" "fst (task_ops t) \<le> i" "i < snd (task_ops t)" by auto
    have "job_subs j ! i = slice_ops (job_subs j) (task_ops t) ! (i - fst (task_ops t))"
      "i - fst (task_ops t) < length (slice_ops (job_subs j) (task_ops t))"
      using t(2,3) i by (simp_all add: slice_ops_def diff_less_mono)
    then have "job_subs j ! i \<in> set (slice_ops (job_subs j) (task_ops t))" by simp
    then show ?thesis by (intro arrived_mono [OF tk [OF t(1)]]) (auto simp: task_bytes_def)
  qed
  then have "arrived files (concat (map op_bytes (job_subs j))) m"
    by (fastforce simp: arrived_iff in_set_conv_nth)
  then show ?thesis using pl(2) by (metis arrived_mono mset_eq_setD order_refl)
qed

lemma inv_caller_finish:
  assumes "pool_inv files shards s" "caller s = CBusy j (Drained r)" "read_finish j r s = Some s'"
  shows "pool_inv files shards s'"
proof -
  have sh: "shape_ok s" and wk: "work_ok files shards s" using assms(1) by (simp_all add: pool_inv_def)
  have j: "job_ok (length shards) j" "progress files shards j (active s) (cursor s) (memory s) (recorded s)"
    using wk assms(2) by (simp_all add: work_ok_def)
  note D = progressD [OF j(2)]
  define res where "res = (case r of Inl e \<Rightarrow> Inl e
    | Inr _ \<Rightarrow> (case recorded s of Some e \<Rightarrow> Inl e | None \<Rightarrow> Inr ()))"
  have nosd: "\<not> shutdown s" using shapeD(5) [OF sh] assms(2) by simp
  have nw: "worker_pcs (workers s) = {}" "job_pooled j \<longleftrightarrow> batch s \<noteq> None"
    and s': "s' = s\<lparr> batch := None, caller := CReturned (job_ops j) (job_entry j) res \<rparr>"
  proof -
    show pooled: "job_pooled j \<longleftrightarrow> batch s \<noteq> None"
      using shapeD(3,4) [OF sh] assms(2) by (auto simp: batch_ok_def)
    have "\<not> pending (generation b) w" if "batch s = Some b" "w \<in> set (workers s)" for b w
      using assms(3) shapeD(3) [OF sh that(1)] that pooled
      by (auto simp: read_finish_def batch_ok_def filter_empty_conv split: if_splits)
    then show "worker_pcs (workers s) = {}"
      using shapeD(2) [OF sh] by (force simp: worker_pcs_def split: option.splits)
    show "s' = s\<lparr> batch := None, caller := CReturned (job_ops j) (job_entry j) res \<rparr>"
    proof (cases "batch s")
      case None
      then have "s' = s\<lparr> caller := CReturned (job_ops j) (job_entry j) r \<rparr>"
        using assms(3) pooled by (simp add: read_finish_def)
      moreover have "r = res" using None by (cases r) (simp_all add: res_def recorded_def)
      ultimately show ?thesis using None by simp
    next
      case (Some b)
      have "recorded s = first_error b" using Some by (simp add: recorded_def)
      then show ?thesis using Some assms(3) pooled
        by (cases r) (auto simp: read_finish_def res_def split: if_splits)
    qed
  qed
  have act: "active s = {Drained r}" using nw assms(2) by (simp add: active_def caller_pcs_def)
  have "worker_ok s' w" if "w \<in> set (workers s)" for w
    using shapeD(2) [OF sh that] nw(1) nosd that unfolding s' by (cases w) (auto simp: worker_pcs_def)
  then have "shape_ok s'"
    using shapeD [OF sh] nosd unfolding s' by (simp add: shape_ok_def)
  moreover have "returned_ok files shards (job_ops j) (job_entry j) res (memory s)"
  proof -
    have "res \<noteq> Inl (EPanic p)" for p
      using D(4,5) act by (auto simp: res_def split: sum.splits option.splits)
    moreover have "healthy files shards (job_ops j) \<longrightarrow> res = Inr ()"
      using D(4,5) act by (auto simp: res_def split: sum.splits option.splits)
    moreover have "arrived files (concat (map extent_bytes (job_ops j))) (memory s)" if "res = Inr ()"
    proof -
      have "r = Inr ()" "recorded s = None"
        using that by (auto simp: res_def split: sum.splits option.splits)
      then show ?thesis using progress_complete [OF _ j(1)] j(2) act by simp
    qed
    ultimately show ?thesis using D(6) by (simp add: returned_ok_def)
  qed
  ultimately show ?thesis unfolding s' by (simp add: pool_inv_def work_ok_def)
qed

lemma inv_drop:
  assumes "pool_inv files shards s" "caller s = CIdle \<or> caller s = CReturned ops0 m0 r0"
  shows "pool_inv files shards (s\<lparr> shutdown := True, caller := CDropped \<rparr>)"
proof -
  have sh: "shape_ok s" using assms(1) by (simp add: pool_inv_def)
  have nb: "batch s = None" using no_batch(1) [OF sh] assms(2) by auto
  have "worker_ok (s\<lparr> shutdown := True, caller := CDropped \<rparr>) w" if "w \<in> set (workers s)" for w
    using shapeD(2) [OF sh that] by (cases w) auto
  then show ?thesis using shapeD [OF sh] nb by (simp add: pool_inv_def shape_ok_def work_ok_def)
qed

lemma pool_step_inv:
  assumes "pool_step srt shards s s'" "pool_inv files shards s" "sorts_ops srt" "handles_ok files shards"
  shows "pool_inv files shards s'"
  using assms(1,2)
proof cases
  case (start ops0 m0 r0 ops)
  then show ?thesis using inv_start [OF assms(2)] assms(3) by blast
next
  case (caller_drain j pc pc' s'')
  then show ?thesis using inv_caller_drain [OF assms(2,4)] by blast
next
  case (caller_finish j r)
  then show ?thesis using inv_caller_finish [OF assms(2)] by blast
next
  case (worker_wakes i seen)
  then show ?thesis using inv_worker_wakes [OF assms(2)] by blast
next
  case (worker_drain i seen tasks subs pc pc' s'')
  then show ?thesis using inv_worker_drain [OF assms(2,4)] by blast
next
  case (worker_reports i seen tasks subs r)
  then show ?thesis using inv_worker_reports [OF assms(2)] by blast
next
  case (drop_reader ops0 m0 r0)
  then show ?thesis using inv_drop [OF assms(2)] by blast
qed

lemma pool_reach_inv:
  "pool_reach srt shards s \<Longrightarrow> sorts_ops srt \<Longrightarrow> handles_ok files shards \<Longrightarrow> pool_inv files shards s"
  by (induction rule: pool_reach.induct) (simp_all add: inv_init pool_step_inv)

section \<open>Every call ends\<close>

fun pc_rank :: "drain_pc \<Rightarrow> nat" where
  "pc_rank Draining = 3"
| "pc_rank (Executing idx) = 4"
| "pc_rank (Drained r) = 2"

fun worker_rank :: "active_batch option \<Rightarrow> worker_pc \<Rightarrow> nat" where
  "worker_rank (Some b) (WWaiting seen) = (if seen \<noteq> generation b then 4 else 0)"
| "worker_rank bo (WWorking seen ts ss pc) = pc_rank pc"
| "worker_rank bo w = 0"

text \<open>An upper bound on the steps until the current call of \<^verbatim>\<open>read_raw\<close> returns.\<close>

definition work_left :: "reader \<Rightarrow> nat" where
  "work_left s =
     (case caller s of
        CBusy j pc \<Rightarrow> 3 * (length (job_tasks j) - cursor s) + pc_rank pc
          + sum_list (map (worker_rank (batch s)) (workers s))
      | _ \<Rightarrow> 0)"

lemma sum_list_update_nat:
  "i < length xs \<Longrightarrow> sum_list (map f (xs[i := y])) + f (xs ! i) = sum_list (map f xs) + (f y :: nat)"
proof (induction xs arbitrary: i)
  case (Cons x xs)
  then show ?case by (cases i) (auto simp: algebra_simps)
qed simp

lemma drain_step_rank:
  assumes "drain_step shards (job_tasks j) ss k pc s = (pc', s')" "\<forall>r. pc \<noteq> Drained r"
  shows "3 * (length (job_tasks j) - cursor s') + pc_rank pc' < 3 * (length (job_tasks j) - cursor s) + pc_rank pc"
proof (cases pc)
  case Draining
  then show ?thesis using assms(1) by (auto simp: drain_claim_def Let_def split: if_splits)
next
  case (Executing idx)
  then show ?thesis
    using assms(1) by (auto simp: drain_execute_def Let_def split: prod.splits sum.splits)
qed (use assms(2) in simp)

lemma worker_rank_batch:
  "generation b = generation b' \<Longrightarrow> worker_rank (Some b) w = worker_rank (Some b') w"
  by (cases w) simp_all

lemma work_left_decreases:
  assumes "pool_step srt shards s s'" "pool_inv files shards s" "caller s = CBusy j pc"
  shows "work_left s' < work_left s"
  using assms(1)
proof cases
  case (caller_drain j2 pc2 pc' s2)
  have "j2 = j" "pc2 = pc" using caller_drain(2) assms(3) by auto
  then show ?thesis
    using caller_drain drain_step_frame [OF caller_drain(4)] drain_step_rank [of shards j "job_subs j" 0 pc s pc' s2] assms(3)
    by (simp add: work_left_def)
next
  case (caller_finish j2 r)
  then have "\<exists>m r'. caller s' = CReturned (job_ops j2) m r'"
    by (auto simp: read_finish_def split: if_splits option.splits)
  then show ?thesis using caller_finish assms(3) by (auto simp: work_left_def)
next
  case (worker_wakes i seen)
  have sh: "shape_ok s" using assms(2) by (simp add: pool_inv_def)
  have "\<not> shutdown s" using shapeD(5) [OF sh] assms(3) by simp
  then obtain b where "batch s = Some b" "generation b \<noteq> seen"
      "worker_wake seen s = WWorking (generation b) (batch_tasks b) (batch_subs b) Draining"
    using worker_wakes(4) by (auto simp: worker_wake_def split: option.splits if_splits)
  then show ?thesis
    using worker_wakes(1-3) assms(3) sum_list_update_nat [of i "workers s" "worker_rank (batch s)" "worker_wake seen s"]
    by (simp add: work_left_def)
next
  case (worker_drain i seen tasks subs pc2 pc' s2)
  have sh: "shape_ok s" using assms(2) by (simp add: pool_inv_def)
  obtain cj cpc where "caller s = CBusy cj cpc" "tasks = job_tasks cj"
    by (rule worker_on_batch [OF sh worker_drain(2,3)])
  then have ts: "tasks = job_tasks j" using assms(3) by simp
  have "3 * (length (job_tasks j) - cursor s2) + pc_rank pc' < 3 * (length (job_tasks j) - cursor s) + pc_rank pc2"
    using drain_step_rank [of shards j subs "i + 1" pc2 s pc' s2] worker_drain(4,5) ts by simp
  moreover have "sum_list (map (worker_rank (batch s)) ((workers s)[i := WWorking seen tasks subs pc'])) + pc_rank pc2
      = sum_list (map (worker_rank (batch s)) (workers s)) + pc_rank pc'"
    using sum_list_update_nat [OF worker_drain(2), of "worker_rank (batch s)" "WWorking seen tasks subs pc'"] worker_drain(3) by simp
  ultimately show ?thesis
    using worker_drain(1) drain_step_frame [OF worker_drain(5)] assms(3) by (simp add: work_left_def)
next
  case (worker_reports i seen tasks subs r)
  have sh: "shape_ok s" using assms(2) by (simp add: pool_inv_def)
  obtain b where b: "batch s = Some b" "generation b = seen"
    by (rule worker_on_batch [OF sh worker_reports(2,3)])
  have fr: "caller s' = caller s" "cursor s' = cursor s" "workers s' = (workers s)[i := WWaiting seen]"
    using worker_reports(1) b by (simp_all add: worker_report_def)
  obtain b' where b': "batch s' = Some b'" "generation b' = generation b"
    using worker_reports(1) b by (simp add: worker_report_def)
  then have "worker_rank (batch s') = worker_rank (batch s)"
    using worker_rank_batch [OF b'(2)] b(1) by (simp add: fun_eq_iff)
  then have "sum_list (map (worker_rank (batch s')) (workers s'))
      = sum_list (map (worker_rank (batch s)) ((workers s)[i := WWaiting seen]))"
    using fr(3) by presburger
  then show ?thesis
    using sum_list_update_nat [OF worker_reports(2), of "worker_rank (batch s)" "WWaiting seen"] worker_reports(3) b fr(1,2) assms(3)
    by (simp add: work_left_def)
qed (use assms(3) in auto)

lemma busy_can_step:
  assumes "pool_inv files shards s" "caller s = CBusy j pc"
  shows "\<exists>s'. pool_step srt shards s s'"
proof (cases "\<exists>r. pc = Drained r")
  case False
  then show ?thesis using caller_drain [OF assms(2)] by (metis surj_pair)
next
  case True
  then obtain r where r: "pc = Drained r" by blast
  have sh: "shape_ok s" using assms(1) by (simp add: pool_inv_def)
  show ?thesis
  proof (cases "read_finish j r s")
    case (Some s')
    then show ?thesis using caller_finish assms(2) r by blast
  next
    case None
    then obtain b where b: "batch s = Some b" "0 < remaining_workers b"
      by (auto simp: read_finish_def split: if_splits option.splits)
    then have "filter (pending (generation b)) (workers s) \<noteq> []"
      using shapeD(3) [OF sh b(1)] by (auto simp: batch_ok_def)
    then obtain i where i: "i < length (workers s)" "pending (generation b) (workers s ! i)"
      by (auto simp: filter_empty_conv in_set_conv_nth)
    have nosd: "\<not> shutdown s" using shapeD(5) [OF sh] assms(2) by simp
    show ?thesis
    proof (cases "workers s ! i")
      case (WWaiting seen)
      then have "worker_wake seen s \<noteq> WWaiting seen" using i(2) b(1) nosd by (simp add: worker_wake_def)
      then show ?thesis using worker_wakes i(1) WWaiting by blast
    next
      case (WWorking seen ts ss wpc)
      then show ?thesis using worker_drain [OF i(1) WWorking] worker_reports [OF i(1)] by (metis surj_pair)
    next
      case WExited
      then show ?thesis using i(2) by simp
    qed
  qed
qed

end
