(* ===== verification/ReaderPoolProps.thy ===== *)
theory ReaderPoolProps
  imports ReaderPoolInv
begin

text \<open>
  The properties of the parallel reader, and a concrete reader on two small shards at which they
  apply.
\<close>

section \<open>Runs to completion\<close>

lemma busy_step_job:
  assumes "pool_step srt shards s s'" "caller s = CBusy j pc"
  shows "(\<exists>pc'. caller s' = CBusy j pc') \<or> (\<exists>r. caller s' = CReturned (job_ops j) (job_entry j) r)"
  using assms(1)
proof cases
  case (worker_drain i seen tasks subs pc2 pc' s2)
  then show ?thesis using drain_step_frame [OF worker_drain(5)] assms(2) by simp
next
  case (worker_reports i seen tasks subs r)
  then show ?thesis using assms(2) by (simp add: worker_report_def split: option.splits)
qed (use assms(2) in \<open>auto simp: read_finish_def split: if_splits option.splits\<close>)

lemma busy_runs_to_end:
  assumes "pool_reach srt shards s" "sorts_ops srt" "handles_ok files shards" "caller s = CBusy j pc"
  shows "\<exists>s' r. pool_reach srt shards s' \<and> caller s' = CReturned (job_ops j) (job_entry j) r"
  using assms(1,4)
proof (induction "work_left s" arbitrary: s pc rule: less_induct)
  case less
  have inv: "pool_inv files shards s" by (rule pool_reach_inv [OF less.prems(1) assms(2,3)])
  obtain s' where step: "pool_step srt shards s s'"
    using busy_can_step [OF inv less.prems(2)] by blast
  have reach: "pool_reach srt shards s'" by (rule pool_more [OF less.prems(1) step])
  from busy_step_job [OF step less.prems(2)] show ?case
  proof (elim disjE exE)
    fix pc' assume "caller s' = CBusy j pc'"
    then show ?thesis using less.hyps [OF work_left_decreases [OF step inv less.prems(2)] reach] by blast
  next
    fix r assume "caller s' = CReturned (job_ops j) (job_entry j) r"
    then show ?thesis using reach by blast
  qed
qed

lemma request_runs_to_end:
  assumes "pool_reach srt shards s" "sorts_ops srt" "handles_ok files shards"
    "caller s = CIdle \<or> caller s = CReturned ops0 m0 r0" "valid_request ops"
  shows "\<exists>s' r. pool_reach srt shards s' \<and> caller s' = CReturned ops (memory s) r"
proof -
  have ok: "requests_ok ops" using assms(5) by (simp add: valid_request_def)
  obtain s1 where s1: "read_start srt (length shards) ops s = Some s1"
    "(\<exists>r. caller s1 = CReturned ops (memory s) r)
     \<or> (\<exists>j pc. caller s1 = CBusy j pc \<and> job_ops j = ops \<and> job_entry j = memory s)"
  proof (cases "bad_shard (length shards) ops")
    case True
    then show thesis using that by (simp add: read_start_def plan_read_tasks_bad [OF ok])
  next
    case False
    from plan_read_tasks_good [OF assms(2) ok False] obtain subs tasks where
      "plan_read_tasks srt ops (length shards) = Some (Inr (subs, tasks))" by auto
    then show thesis using that by (simp add: read_start_def start_job_def publish_def Let_def)
  qed
  have reach: "pool_reach srt shards s1" by (rule pool_more [OF assms(1) start [OF assms(4,5) s1(1)]])
  from s1(2) show ?thesis
  proof (elim disjE exE conjE)
    fix r assume "caller s1 = CReturned ops (memory s) r"
    then show ?thesis using reach by blast
  next
    fix j pc assume "caller s1 = CBusy j pc" "job_ops j = ops" "job_entry j = memory s"
    then show ?thesis using busy_runs_to_end [OF reach assms(2,3), of j pc] by simp
  qed
qed

section \<open>A reader on two shards\<close>

definition plain_handle :: "bytes \<Rightarrow> shard_handle" where
  "plain_handle f = \<lparr> direct = None, buffered = (\<lambda>off n. Inr (take n (drop off f))) \<rparr>"

lemma plain_handle_ok: "handle_ok f (plain_handle f)" "reliable (plain_handle f)"
  by (auto simp: handle_ok_def reads_file_def plain_handle_def reliable_def min_def)

definition two_files :: "bytes list" where "two_files = [[10, 20, 30, 40], [50, 60]]"

definition two_shards :: "shard_handle list" where "two_shards = map plain_handle two_files"

lemma two_shards_ok: "handles_ok two_files two_shards"
  by (simp add: handles_ok_def two_shards_def list_all2_map2 plain_handle_ok list_all2_same)

definition two_reads :: "(extent \<times> nat) list" where
  "two_reads = [(\<lparr> shard = 0, offset = 1, len = 2 \<rparr>, 100), (\<lparr> shard = 1, offset = 0, len = 2 \<rparr>, 200)]"

lemma two_reads_valid: "valid_request two_reads"
  by (simp add: valid_request_def two_reads_def requests_ok_def extent_bytes_def dests_def FILE_LIMIT_def
      upt_conv_Cons)

lemma two_reads_healthy: "healthy two_files two_shards two_reads"
  by (auto simp: healthy_def two_reads_def two_shards_def two_files_def plain_handle_ok)

lemma two_reads_plan: "length two_shards = 2" by (simp add: two_shards_def two_files_def)

definition blank :: memory where "blank = (\<lambda>_. 0)"

definition two_start :: reader where
  "two_start = the (read_start (sort_key op_key) 2 two_reads (reader_open 3 blank))"

lemma two_plan:
  obtains subs tasks where "plan_read_tasks (sort_key op_key) two_reads 2 = Some (Inr (subs, tasks))"
    "length tasks = 2"
proof -
  have bad: "\<not> bad_shard 2 two_reads" by (simp add: bad_shard_def two_reads_def)
  have plan: "map (\<lambda>t. task_shard t) (snd (projr (the (plan_read_tasks (sort_key op_key) two_reads 2)))) = [0, 1]"
    by code_simp
  obtain subs tasks where pl: "plan_read_tasks (sort_key op_key) two_reads 2 = Some (Inr (subs, tasks))"
    using plan_read_tasks_good [OF sort_key_sorts _ bad] two_reads_valid by (auto simp: valid_request_def)
  then show thesis using that arg_cong [OF plan, of length] by simp
qed

lemma two_start_reach: "pool_reach (sort_key op_key) two_shards two_start"
  and two_start_pooled: "\<exists>j. caller two_start = CBusy j Draining \<and> job_pooled j \<and> job_ops j = two_reads"
proof -
  obtain subs tasks where pl: "plan_read_tasks (sort_key op_key) two_reads 2 = Some (Inr (subs, tasks))"
    and len: "length tasks = 2" by (rule two_plan)
  have st: "read_start (sort_key op_key) 2 two_reads (reader_open 3 blank) = Some two_start"
    by (simp add: two_start_def read_start_def pl)
  have "caller (reader_open 3 blank) = CIdle \<or> caller (reader_open 3 blank) = CReturned [] blank (Inr ())"
    by (simp add: reader_open_def)
  from start [OF this two_reads_valid, of "sort_key op_key" two_shards] st
  show "pool_reach (sort_key op_key) two_shards two_start"
    by (intro pool_more [OF pool_init [of 3]]) (auto simp: two_reads_plan)
  show "\<exists>j. caller two_start = CBusy j Draining \<and> job_pooled j \<and> job_ops j = two_reads"
    using len by (auto simp: two_start_def read_start_def pl start_job_def publish_def reader_open_def Let_def)
qed

lemma two_reads_end:
  obtains s where "pool_reach (sort_key op_key) two_shards s" "caller s = CReturned two_reads blank (Inr ())"
proof -
  have r0: "pool_reach (sort_key op_key) two_shards (reader_open 3 blank)" by (rule pool_init) simp
  obtain s r where s: "pool_reach (sort_key op_key) two_shards s" "caller s = CReturned two_reads blank r"
    using request_runs_to_end [OF r0 sort_key_sorts two_shards_ok _ two_reads_valid]
    by (auto simp: reader_open_def)
  have "work_ok two_files two_shards s"
    using pool_reach_inv [OF s(1) sort_key_sorts two_shards_ok] by (simp add: pool_inv_def)
  then have "r = Inr ()" using s(2) two_reads_healthy by (simp add: work_ok_def returned_ok_def)
  then show thesis using s that by simp
qed

section \<open>Properties\<close>

text \<open>C7: When \<^verbatim>\<open>read_raw\<close> reports success, in any interleaving of the caller and the background
  workers, every requested byte is at its destination, and no address outside the destinations has
  changed since the call began.\<close>

theorem read_raw_delivers:
  assumes "pool_reach srt shards s" "sorts_ops srt" "handles_ok files shards"
    "caller s = CReturned ops m0 (Inr ())"
  shows "(\<forall>e dst i. (e, dst) \<in> set ops \<and> i < len e \<longrightarrow>
      offset e + i < length (files ! shard e) \<and> memory s (dst + i) = files ! shard e ! (offset e + i))
    \<and> (\<forall>a. (\<forall>e dst i. (e, dst) \<in> set ops \<and> i < len e \<longrightarrow> a \<noteq> dst + i) \<longrightarrow> memory s a = m0 a)"
proof -
  have "work_ok files shards s" using pool_reach_inv [OF assms(1-3)] by (simp add: pool_inv_def)
  then have r: "returned_ok files shards ops m0 (Inr ()) (memory s)" using assms(4) by (simp add: work_ok_def)
  have mem: "(shard e, offset e + i, dst + i) \<in> set (concat (map extent_bytes ops))"
    if "(e, dst) \<in> set ops" "i < len e" for e dst i
    using that by (auto simp: extent_bytes_def intro!: bexI [of _ "(e, dst)"])
  have out: "\<exists>e dst i. (e, dst) \<in> set ops \<and> i < len e \<and> a = dst + i"
    if "a \<in> set (dests (concat (map extent_bytes ops)))" for a
    using that by (auto simp: dests_def extent_bytes_def) blast
  show ?thesis
  proof (intro conjI allI impI)
    fix e dst i assume "(e, dst) \<in> set ops \<and> i < len e"
    then show "offset e + i < length (files ! shard e)" "memory s (dst + i) = files ! shard e ! (offset e + i)"
      using r mem [of e dst i] unfolding returned_ok_def arrived_iff by blast+
  next
    fix a assume "\<forall>e dst i. (e, dst) \<in> set ops \<and> i < len e \<longrightarrow> a \<noteq> dst + i"
    then have "a \<notin> set (dests (concat (map extent_bytes ops)))" using out by blast
    then show "memory s a = m0 a" using r unfolding returned_ok_def untouched_def by blast
  qed
qed

theorem read_raw_delivers_witness:
  "\<exists>s. pool_reach (sort_key op_key) two_shards s \<and> caller s = CReturned two_reads blank (Inr ())
     \<and> memory s 101 = 30 \<and> memory s 200 = 50 \<and> memory s 300 = 0"
proof -
  obtain s where s: "pool_reach (sort_key op_key) two_shards s" "caller s = CReturned two_reads blank (Inr ())"
    by (rule two_reads_end)
  note d = read_raw_delivers [OF s(1) sort_key_sorts two_shards_ok s(2)]
  have "memory s (100 + 1) = two_files ! 0 ! (1 + 1)" "memory s (200 + 0) = two_files ! 1 ! (0 + 0)"
    using d [THEN conjunct1, rule_format, of "\<lparr> shard = 0, offset = 1, len = 2 \<rparr>" 100 1]
      d [THEN conjunct1, rule_format, of "\<lparr> shard = 1, offset = 0, len = 2 \<rparr>" 200 0]
    by (simp_all add: two_reads_def)
  moreover have "\<forall>e dst i. (e, dst) \<in> set two_reads \<and> i < len e \<longrightarrow> 300 \<noteq> dst + i"
    by (auto simp: two_reads_def)
  then have "memory s 300 = 0" using d by (simp add: blank_def)
  ultimately have "memory s 101 = 30" "memory s 200 = 50" "memory s 300 = 0"
    by (simp_all add: two_files_def)
  then show ?thesis using s by blast
qed

text \<open>\<^verbatim>\<open>read_raw\<close> never panics, on success or failure changes nothing outside the requested
  destinations, and succeeds whenever the handles are reliable and the extents lie inside existing
  shards: errors come only from the drive or from an unknown shard.\<close>

theorem read_raw_outcome:
  assumes "pool_reach srt shards s" "sorts_ops srt" "handles_ok files shards"
    "caller s = CReturned ops m0 r"
  shows "(\<forall>p. r \<noteq> Inl (EPanic p)) \<and> (healthy files shards ops \<longrightarrow> r = Inr ())
    \<and> (\<forall>a. a \<notin> set (dests (concat (map extent_bytes ops))) \<longrightarrow> memory s a = m0 a)"
proof -
  have "work_ok files shards s" using pool_reach_inv [OF assms(1-3)] by (simp add: pool_inv_def)
  then show ?thesis using assms(4) by (simp add: work_ok_def returned_ok_def untouched_def)
qed

theorem read_raw_outcome_witness:
  "\<exists>s. pool_reach (sort_key op_key) two_shards s \<and> caller s = CReturned two_reads blank (Inr ())
     \<and> memory s 102 = 0"
proof -
  obtain s where s: "pool_reach (sort_key op_key) two_shards s" "caller s = CReturned two_reads blank (Inr ())"
    by (rule two_reads_end)
  have "102 \<notin> set (dests (concat (map extent_bytes two_reads)))"
    by (simp add: two_reads_def extent_bytes_def dests_def upt_conv_Cons)
  then have "memory s 102 = 0"
    using read_raw_outcome [OF s(1) sort_key_sorts two_shards_ok s(2)] by (simp add: blank_def)
  then show ?thesis using s by blast
qed

text \<open>C8: A background worker that holds the raw pointers of a batch holds those of a caller that is
  still inside \<^verbatim>\<open>read_raw\<close>, and that caller cannot return yet: the task and operation vectors outlive
  every use of them.\<close>

theorem worker_pointers_valid:
  assumes "pool_reach srt shards s" "sorts_ops srt" "handles_ok files shards"
    "WWorking g tasks subs pc \<in> set (workers s)"
  shows "\<exists>j cpc. caller s = CBusy j cpc \<and> tasks = job_tasks j \<and> subs = job_subs j
    \<and> (\<forall>r. read_finish j r s = None)"
proof -
  have sh: "shape_ok s" using pool_reach_inv [OF assms(1-3)] by (simp add: pool_inv_def)
  obtain i where i: "i < length (workers s)" "workers s ! i = WWorking g tasks subs pc"
    using assms(4) by (auto simp: in_set_conv_nth)
  obtain b j cpc where b: "batch s = Some b" "generation b = g" "caller s = CBusy j cpc" "job_pooled j"
    "tasks = job_tasks j" "subs = job_subs j" "remaining_workers b = length (filter (pending g) (workers s))"
    by (rule worker_on_batch [OF sh i])
  have "WWorking g tasks subs pc \<in> set (filter (pending g) (workers s))" using assms(4) by simp
  then have "0 < remaining_workers b" unfolding b(7) by (rule length_pos_if_in_set)
  then show ?thesis using b by (simp add: read_finish_def)
qed

text \<open>A worker of the demonstration reader that has picked up the batch.\<close>

lemma two_worker_busy:
  "\<exists>s. pool_reach (sort_key op_key) two_shards s
     \<and> (\<exists>g tasks subs. WWorking g tasks subs Draining \<in> set (workers s))"
proof -
  obtain j where j: "caller two_start = CBusy j Draining" "job_pooled j" using two_start_pooled by blast
  have sh: "shape_ok two_start"
    using pool_reach_inv [OF two_start_reach sort_key_sorts two_shards_ok] by (simp add: pool_inv_def)
  obtain subs tasks where pl: "plan_read_tasks (sort_key op_key) two_reads 2 = Some (Inr (subs, tasks))"
    and len: "length tasks = 2" by (rule two_plan)
  obtain b where b: "batch two_start = Some b" using shapeD(4) [OF sh j] by blast
  have ws: "workers two_start = [WWaiting 0, WWaiting 0]" "generation b = 1"
    using b pl len by (auto simp: two_start_def read_start_def start_job_def publish_def reader_open_def Let_def
        numeral_2_eq_2 replicate_Suc split: if_splits)
  have sd: "\<not> shutdown two_start" using shapeD(5) [OF sh] j by simp
  have "worker_wake 0 two_start = WWorking 1 (batch_tasks b) (batch_subs b) Draining"
    using b ws sd by (simp add: worker_wake_def)
  then have "pool_step (sort_key op_key) two_shards two_start
      (two_start\<lparr> workers := (workers two_start)[0 := WWorking 1 (batch_tasks b) (batch_subs b) Draining] \<rparr>)"
    using worker_wakes [of 0 two_start 0] ws by simp
  from pool_more [OF two_start_reach this] show ?thesis using ws(1)
    by (intro exI [of _ "two_start\<lparr> workers := (workers two_start)[0 := WWorking 1 (batch_tasks b) (batch_subs b) Draining] \<rparr>"]) auto
qed

theorem worker_pointers_valid_witness:
  "\<exists>s j cpc. pool_reach (sort_key op_key) two_shards s \<and> caller s = CBusy j cpc
     \<and> read_finish j (Inr ()) s = None"
proof -
  obtain s g tasks subs where s: "pool_reach (sort_key op_key) two_shards s"
    "WWorking g tasks subs Draining \<in> set (workers s)" using two_worker_busy by blast
  from worker_pointers_valid [OF s(1) sort_key_sorts two_shards_ok s(2)] show ?thesis using s(1) by blast
qed

text \<open>C9: A call of \<^verbatim>\<open>read_raw\<close> that has started always ends: as long as it has not returned some
  thread can take a step, and every step brings \<open>work_left\<close> down, so no schedule keeps it
  running for more steps than that.\<close>

theorem read_raw_ends:
  assumes "pool_reach srt shards s" "sorts_ops srt" "handles_ok files shards" "caller s = CBusy j pc"
  shows "(\<exists>s'. pool_step srt shards s s') \<and> (\<forall>s'. pool_step srt shards s s' \<longrightarrow>
    work_left s' < work_left s
    \<and> ((\<exists>pc'. caller s' = CBusy j pc') \<or> (\<exists>r. caller s' = CReturned (job_ops j) (job_entry j) r)))"
proof -
  have inv: "pool_inv files shards s" by (rule pool_reach_inv [OF assms(1-3)])
  show ?thesis
    using busy_can_step [OF inv assms(4)] work_left_decreases [OF _ inv assms(4)] busy_step_job [OF _ assms(4)]
    by blast
qed

theorem read_raw_ends_witness:
  "\<exists>s'. pool_step (sort_key op_key) two_shards two_start s' \<and> work_left s' < work_left two_start"
proof -
  obtain j where j: "caller two_start = CBusy j Draining" using two_start_pooled by blast
  from read_raw_ends [OF two_start_reach sort_key_sorts two_shards_ok j] show ?thesis by blast
qed

end
