(* ===== verification/Residency.thy ===== *)
theory Residency
  imports Catalog
begin

text \<open>
  Background expert residency (\<^verbatim>\<open>chatty-metal/src/residency.rs\<close>): which routed experts live in VRAM
  and RAM, demand-driven eviction, and the fetch and copy workers that fill slots while layers run.
  A vector of fixed length is a function on its indices, and \<open>res_id\<close> is the index check of
  every public operation (\<open>None\<close> is an out-of-range panic).  The sentinel \<^verbatim>\<open>NONE\<close> is the option's
  \<open>None\<close>.  Channels are the lists of undelivered messages.  Slots are numbered, an address is
  \<open>arena_slot\<close> of its number, and memory is the byte content per slot.  The main thread's blocking
  calls (\<^verbatim>\<open>load_now\<close>, \<^verbatim>\<open>preload\<close>) are program counters that wait on the channel of finished work.
  An owner entry is the expert's number as a u32, which is the number itself for models of fewer than
  \<open>2 ^ 32 - 1\<close> experts.  \<^verbatim>\<open>preload\<close> is a step for a list of distinct experts that nothing is known of yet, as at boot.
\<close>

section \<open>Data\<close>

definition DECAY_TICKS :: nat where "DECAY_TICKS = 256 * 40"
definition PROMOTE_AFTER :: nat where "PROMOTE_AFTER = 2"
definition MAX_QUEUED :: nat where "MAX_QUEUED = 16"
definition PRELOAD_DEMAND_CAP :: nat where "PRELOAD_DEMAND_CAP = 32"
definition U32_MAX :: nat where "U32_MAX = 2 ^ 32 - 1"

datatype res_tier = InVram | InRam

record res_counters =
  n_fetched :: nat
  n_promoted :: nat
  n_evicted_vram :: nat
  n_blocking_loads :: nat

record fetch_job =
  fj_id :: nat
  fj_slot :: nat

record copy_job =
  cj_id :: nat
  cj_src :: nat
  cj_dst :: nat
  cj_bytes :: nat

datatype done_msg = Fetched nat | Copied nat

text \<open>What is fixed at construction: sizes, per-expert layout, and the two arenas.\<close>

record arena =
  ar_va :: nat
  ar_stride :: nat
  ar_slots :: nat

record res_config =
  rc_experts :: nat
  rc_count :: nat
  rc_offsets :: "nat list list"
  rc_bytes :: "nat list"
  rc_vram :: arena
  rc_ram :: arena

text \<open>Where a call of \<^verbatim>\<open>preload\<close> is: the experts still to load into VRAM, the one being loaded or
  copied, the experts still to load into RAM, and the final wait.\<close>

datatype preload_pc =
    PreVram "(nat \<times> nat) list" "(nat \<times> nat) list"
  | PreLoad nat "(nat \<times> nat) list" "(nat \<times> nat) list"
  | PreDrain nat "(nat \<times> nat) list" "(nat \<times> nat) list"
  | PreRam "(nat \<times> nat) list"
  | PreFinal

datatype main_pc = MIdle | MLoad nat | MPre preload_pc

record resid =
  in_vram :: "nat \<Rightarrow> nat option"
  in_ram :: "nat \<Rightarrow> nat option"
  vram_owner :: "nat \<Rightarrow> nat option"
  ram_owner :: "nat \<Rightarrow> nat option"
  vfree :: "nat list"
  rfree :: "nat list"
  demand :: "nat \<Rightarrow> nat"
  busy :: "nat \<Rightarrow> bool"
  used :: "nat \<Rightarrow> nat"
  tick :: nat
  n_queued :: nat
  fetch_ch :: "fetch_job list"
  copy_ch :: "copy_job list"
  done_ch :: "done_msg list"
  counters :: res_counters
  fetching :: "fetch_job option"
  copying :: "copy_job option"
  lost :: "nat list"
  vram_bytes :: "nat \<Rightarrow> bytes"
  ram_bytes :: "nat \<Rightarrow> bytes"
  main :: main_pc

section \<open>Construction\<close>

definition arena_slot :: "arena \<Rightarrow> nat \<Rightarrow> nat" where
  "arena_slot a slot = ar_va a + slot * ar_stride a"

fun layout_from :: "nat \<Rightarrow> extent list \<Rightarrow> nat list \<times> nat" where
  "layout_from at [] = ([], at)"
| "layout_from at (e # es) =
     (case layout_from ((at + len e mod 2 ^ 32) mod 2 ^ 32) es of (os, tot) \<Rightarrow> (at # os, tot))"

definition res_config_new :: "catalog \<Rightarrow> nat \<Rightarrow> nat \<Rightarrow> nat \<Rightarrow> nat \<Rightarrow> store_error + res_config" where
  "res_config_new c vram_va ram_va vram_slots ram_slots =
     (let n = n_routed_experts (cat_config c); count = length (cat_experts c);
          stride = next_multiple_of (expert_slot c) 4096 in
      and_then (try_map (\<lambda>i. ok_or (EInvalid ''no expert'') (catalog_expert c (i div n) (i mod n))) [0..<count])
        (\<lambda>es. Inr \<lparr> rc_experts = n, rc_count = count,
           rc_offsets = map (fst \<circ> layout_from 0) es, rc_bytes = map (snd \<circ> layout_from 0) es,
           rc_vram = \<lparr> ar_va = vram_va, ar_stride = stride, ar_slots = vram_slots \<rparr>,
           rc_ram = \<lparr> ar_va = ram_va, ar_stride = stride, ar_slots = ram_slots \<rparr> \<rparr>))"

definition residency_new :: "res_config \<Rightarrow> (nat \<Rightarrow> bytes) \<Rightarrow> (nat \<Rightarrow> bytes) \<Rightarrow> resid" where
  "residency_new cfg vm rm =
     \<lparr> in_vram = (\<lambda>_. None), in_ram = (\<lambda>_. None), vram_owner = (\<lambda>_. None), ram_owner = (\<lambda>_. None),
       vfree = rev [0..<ar_slots (rc_vram cfg)], rfree = rev [0..<ar_slots (rc_ram cfg)],
       demand = (\<lambda>_. 0), busy = (\<lambda>_. False), used = (\<lambda>_. 0), tick = 1, n_queued = 0,
       fetch_ch = [], copy_ch = [], done_ch = [],
       counters = \<lparr> n_fetched = 0, n_promoted = 0, n_evicted_vram = 0, n_blocking_loads = 0 \<rparr>,
       fetching = None, copying = None, lost = [], vram_bytes = vm, ram_bytes = rm, main = MIdle \<rparr>"

section \<open>Operations of the main thread\<close>

definition res_id :: "res_config \<Rightarrow> nat \<Rightarrow> nat \<Rightarrow> nat option" where
  "res_id cfg layer expert =
     (let i = layer * rc_experts cfg + expert in if i < rc_count cfg then Some i else None)"

definition begin_layer :: "resid \<Rightarrow> resid" where
  "begin_layer s =
     (let t = wadd (tick s) 1 in
      s\<lparr> tick := t,
         demand := (if t mod DECAY_TICKS = 0 then (\<lambda>i. demand s i div 2) else demand s) \<rparr>)"

definition res_tier_of :: "resid \<Rightarrow> nat \<Rightarrow> res_tier option" where
  "res_tier_of s i =
     (if in_vram s i \<noteq> None then Some InVram else if in_ram s i \<noteq> None then Some InRam else None)"

definition note_demand :: "nat \<Rightarrow> resid \<Rightarrow> resid" where
  "note_demand i s = s\<lparr> demand := (demand s)(i := saturating_add 32 (demand s i) 1) \<rparr>"

definition claim :: "res_config \<Rightarrow> nat \<Rightarrow> resid \<Rightarrow> (res_tier \<times> nat list) option \<times> resid" where
  "claim cfg i s =
     (let found = (case in_vram s i of
            Some slot \<Rightarrow> Some (InVram, arena_slot (rc_vram cfg) slot)
          | None \<Rightarrow> (case in_ram s i of
                Some slot \<Rightarrow> Some (InRam, arena_slot (rc_ram cfg) slot)
              | None \<Rightarrow> None)) in
      case found of
        None \<Rightarrow> (None, s)
      | Some (tier, base) \<Rightarrow>
          (Some (tier, map (\<lambda>off. base + off) (rc_offsets cfg ! i)), s\<lparr> used := (used s)(i := tick s) \<rparr>))"

text \<open>\<^verbatim>\<open>ram_tensors\<close>: the slices of the slot between consecutive offsets.\<close>

definition tensor_slice :: "nat list \<Rightarrow> nat \<Rightarrow> bytes \<Rightarrow> nat \<Rightarrow> bytes" where
  "tensor_slice offs tot m k =
     (let start = offs ! k; fin = (if k + 1 < length offs then offs ! (k + 1) else tot) in
      take (fin - start) (drop start m))"

definition ram_tensors :: "res_config \<Rightarrow> nat \<Rightarrow> resid \<Rightarrow> bytes list option" where
  "ram_tensors cfg i s =
     (case in_ram s i of
        None \<Rightarrow> None
      | Some slot \<Rightarrow> Some (map (tensor_slice (rc_offsets cfg ! i) (rc_bytes cfg ! i) (ram_bytes s slot))
                            [0..<EXPERT_EXTENTS]))"

text \<open>The scans of \<^verbatim>\<open>take_vram_slot\<close> and \<^verbatim>\<open>take_ram_slot\<close>: the first slot of least cost among those
  whose owner may leave (\<open>cost\<close> is \<open>None\<close> for an owner that is busy or in use).\<close>

fun scan_slots :: "(nat \<Rightarrow> nat option) \<Rightarrow> nat \<Rightarrow> nat option list \<Rightarrow> (nat \<times> nat \<times> nat) option
    \<Rightarrow> (nat \<times> nat \<times> nat) option" where
  "scan_slots cost slot [] best = best"
| "scan_slots cost slot (None # os) best = scan_slots cost (Suc slot) os best"
| "scan_slots cost slot (Some w # os) best =
     scan_slots cost (Suc slot) os
       (case cost w of
          None \<Rightarrow> best
        | Some c \<Rightarrow> (case best of
              None \<Rightarrow> Some (c, slot, w)
            | Some (d, s, v) \<Rightarrow> if c < d then Some (c, slot, w) else best))"

definition may_leave :: "resid \<Rightarrow> nat \<Rightarrow> bool" where
  "may_leave s w \<longleftrightarrow> \<not> busy s w \<and> used s w \<noteq> tick s"

definition vram_cost :: "resid \<Rightarrow> nat \<Rightarrow> nat option" where
  "vram_cost s w = (if may_leave s w then Some (demand s w) else None)"

definition ram_cost :: "resid \<Rightarrow> nat \<Rightarrow> nat option" where
  "ram_cost s w =
     (if may_leave s w
      then Some (if in_vram s w \<noteq> None then 0 else saturating_add 32 (demand s w) 1) else None)"

definition take_vram_slot :: "res_config \<Rightarrow> nat \<Rightarrow> resid \<Rightarrow> nat option \<times> resid" where
  "take_vram_slot cfg d s =
     (if vfree s \<noteq> [] then (Some (last (vfree s)), s\<lparr> vfree := butlast (vfree s) \<rparr>)
      else (case scan_slots (vram_cost s) 0 (map (vram_owner s) [0..<ar_slots (rc_vram cfg)]) None of
              None \<Rightarrow> (None, s)
            | Some (victim, slot, w) \<Rightarrow>
                if d \<le> victim then (None, s)
                else (Some slot, s\<lparr> in_vram := (in_vram s)(w := None),
                        vram_owner := (vram_owner s)(slot := None),
                        counters := (counters s)\<lparr> n_evicted_vram := n_evicted_vram (counters s) + 1 \<rparr> \<rparr>)))"

definition take_ram_slot :: "res_config \<Rightarrow> nat \<Rightarrow> resid \<Rightarrow> nat option \<times> resid" where
  "take_ram_slot cfg d s =
     (if rfree s \<noteq> [] then (Some (last (rfree s)), s\<lparr> rfree := butlast (rfree s) \<rparr>)
      else (case scan_slots (ram_cost s) 0 (map (ram_owner s) [0..<ar_slots (rc_ram cfg)]) None of
              None \<Rightarrow> (None, s)
            | Some (victim, slot, w) \<Rightarrow>
                if d < victim then (None, s)
                else (Some slot, s\<lparr> in_ram := (in_ram s)(w := None),
                        ram_owner := (ram_owner s)(slot := None) \<rparr>)))"

definition start_fetch :: "res_config \<Rightarrow> nat \<Rightarrow> nat \<Rightarrow> resid \<Rightarrow> bool \<times> resid" where
  "start_fetch cfg i d s =
     (case take_ram_slot cfg d s of
        (None, s1) \<Rightarrow> (False, s1)
      | (Some slot, s1) \<Rightarrow>
          (True, s1\<lparr> ram_owner := (ram_owner s1)(slot := Some i), busy := (busy s1)(i := True),
                     n_queued := n_queued s1 + 1,
                     fetch_ch := fetch_ch s1 @ [\<lparr> fj_id = i, fj_slot = slot \<rparr>] \<rparr>))"

text \<open>\<^verbatim>\<open>start_promote\<close> reads \<^verbatim>\<open>in_ram[id]\<close> without a check; a missing RAM copy would make the source
  address garbage, and is slot \<open>U32_MAX\<close> here as the sentinel is in the code.\<close>

definition start_promote :: "res_config \<Rightarrow> nat \<Rightarrow> resid \<Rightarrow> resid" where
  "start_promote cfg i s =
     (case take_vram_slot cfg (demand s i) s of
        (None, s1) \<Rightarrow> s1
      | (Some slot, s1) \<Rightarrow>
          s1\<lparr> vram_owner := (vram_owner s1)(slot := Some i), busy := (busy s1)(i := True),
              n_queued := n_queued s1 + 1,
              copy_ch := copy_ch s1 @ [\<lparr> cj_id = i,
                cj_src = (case in_ram s1 i of Some r \<Rightarrow> r | None \<Rightarrow> U32_MAX),
                cj_dst = slot, cj_bytes = rc_bytes cfg ! i \<rparr>] \<rparr>)"

definition request :: "res_config \<Rightarrow> nat \<Rightarrow> resid \<Rightarrow> (store_error + unit) \<times> resid" where
  "request cfg i s =
     (let s1 = s\<lparr> used := (used s)(i := tick s) \<rparr> in
      if in_ram s1 i = None \<and> in_vram s1 i = None \<and> \<not> busy s1 i
      then (case start_fetch cfg i U32_MAX s1 of
              (True, s2) \<Rightarrow> (Inr (), s2)
            | (False, s2) \<Rightarrow> (Inl (EInvalid ''no RAM slot is free''), s2))
      else (Inr (), s1))"

definition want :: "res_config \<Rightarrow> nat \<Rightarrow> resid \<Rightarrow> resid" where
  "want cfg i s =
     (if busy s i \<or> in_vram s i \<noteq> None \<or> MAX_QUEUED \<le> n_queued s then s
      else if in_ram s i = None then snd (start_fetch cfg i (demand s i) s)
      else if PROMOTE_AFTER \<le> demand s i then start_promote cfg i s
      else s)"

text \<open>\<^verbatim>\<open>iter().position(..)\<close> over the owners.\<close>

definition owned_slot :: "(nat \<Rightarrow> nat option) \<Rightarrow> nat \<Rightarrow> nat \<Rightarrow> nat option" where
  "owned_slot owner n i = List.find (\<lambda>slot. owner slot = Some i) [0..<n]"

definition adopt :: "res_config \<Rightarrow> done_msg \<Rightarrow> resid \<Rightarrow> resid" where
  "adopt cfg d s =
     (let s1 = s\<lparr> n_queued := wsub (n_queued s) 1 \<rparr> in
      case d of
        Fetched i \<Rightarrow>
          s1\<lparr> in_ram := (in_ram s1)(i := owned_slot (ram_owner s1) (ar_slots (rc_ram cfg)) i),
              busy := (busy s1)(i := False),
              counters := (counters s1)\<lparr> n_fetched := n_fetched (counters s1) + 1 \<rparr> \<rparr>
      | Copied i \<Rightarrow>
          s1\<lparr> in_vram := (in_vram s1)(i := owned_slot (vram_owner s1) (ar_slots (rc_vram cfg)) i),
              busy := (busy s1)(i := False),
              counters := (counters s1)\<lparr> n_promoted := n_promoted (counters s1) + 1 \<rparr> \<rparr>)"

text \<open>Receiving one message of the channel of finished work; \<open>None\<close> when there is none yet.\<close>

definition recv_done :: "res_config \<Rightarrow> resid \<Rightarrow> resid option" where
  "recv_done cfg s =
     (case done_ch s of [] \<Rightarrow> None | d # ds \<Rightarrow> Some (adopt cfg d (s\<lparr> done_ch := ds \<rparr>)))"

fun poll_msgs :: "res_config \<Rightarrow> done_msg list \<Rightarrow> resid \<Rightarrow> resid" where
  "poll_msgs cfg [] s = s"
| "poll_msgs cfg (d # ds) s = poll_msgs cfg ds (adopt cfg d (s\<lparr> done_ch := ds \<rparr>))"

definition poll :: "res_config \<Rightarrow> resid \<Rightarrow> bool \<times> resid" where
  "poll cfg s = (done_ch s \<noteq> [], poll_msgs cfg (done_ch s) s)"

definition resident :: "resid \<Rightarrow> nat \<Rightarrow> bool" where
  "resident s i \<longleftrightarrow> in_ram s i \<noteq> None \<or> in_vram s i \<noteq> None"

text \<open>\<^verbatim>\<open>load_now\<close> up to its waiting loop.\<close>

definition load_begin :: "res_config \<Rightarrow> nat \<Rightarrow> resid \<Rightarrow> bool \<times> resid" where
  "load_begin cfg i s =
     (if in_ram s i = None \<and> in_vram s i = None \<and> \<not> busy s i
      then start_fetch cfg i U32_MAX
             (s\<lparr> counters := (counters s)\<lparr> n_blocking_loads := n_blocking_loads (counters s) + 1 \<rparr> \<rparr>)
      else (True, s))"

definition set_demand :: "nat \<Rightarrow> nat \<Rightarrow> resid \<Rightarrow> resid" where
  "set_demand i uses s = s\<lparr> demand := (demand s)(i := min uses PRELOAD_DEMAND_CAP) \<rparr>"

definition preload_begin :: "res_config \<Rightarrow> (nat \<times> nat) list \<Rightarrow> resid \<Rightarrow> resid" where
  "preload_begin cfg hot s =
     (let n = min (ar_slots (rc_vram cfg)) (length hot) in
      s\<lparr> main := MPre (PreVram (take n hot) (drop n hot)) \<rparr>)"

fun preload_step :: "res_config \<Rightarrow> preload_pc \<Rightarrow> resid \<Rightarrow> resid option" where
  "preload_step cfg (PreVram [] rl) s = Some (s\<lparr> main := MPre (PreRam rl) \<rparr>)"
| "preload_step cfg (PreVram ((i, uses) # vl) rl) s =
     (case load_begin cfg i (set_demand i uses s) of
        (True, s1) \<Rightarrow> Some (s1\<lparr> main := MPre (PreLoad i vl rl) \<rparr>)
      | (False, s1) \<Rightarrow> Some (s1\<lparr> main := MIdle \<rparr>))"
| "preload_step cfg (PreLoad i vl rl) s =
     (if resident s i then Some ((start_promote cfg i s)\<lparr> main := MPre (PreDrain i vl rl) \<rparr>)
      else recv_done cfg s)"
| "preload_step cfg (PreDrain i vl rl) s =
     (if busy s i then recv_done cfg s else Some (s\<lparr> main := MPre (PreVram vl rl) \<rparr>))"
| "preload_step cfg (PreRam []) s = Some (s\<lparr> main := MPre PreFinal \<rparr>)"
| "preload_step cfg (PreRam ((i, uses) # rl)) s =
     (let s1 = set_demand i uses s in
      if MAX_QUEUED \<le> n_queued s1 then recv_done cfg s1
      else (case start_fetch cfg i U32_MAX s1 of
              (True, s2) \<Rightarrow> Some (s2\<lparr> main := MPre (PreRam rl) \<rparr>)
            | (False, s2) \<Rightarrow> Some (s2\<lparr> main := MPre PreFinal \<rparr>)))"
| "preload_step cfg PreFinal s =
     (if 0 < n_queued s then recv_done cfg s else Some (s\<lparr> main := MIdle \<rparr>))"

fun main_wait :: "res_config \<Rightarrow> main_pc \<Rightarrow> resid \<Rightarrow> resid option" where
  "main_wait cfg MIdle s = None"
| "main_wait cfg (MLoad i) s = (if resident s i then Some (s\<lparr> main := MIdle \<rparr>) else recv_done cfg s)"
| "main_wait cfg (MPre p) s = preload_step cfg p s"

text \<open>\<^verbatim>\<open>hottest\<close>, with the sort of equal demands fixed to the stable one.\<close>

definition hottest :: "res_config \<Rightarrow> nat \<Rightarrow> resid \<Rightarrow> (nat \<times> nat \<times> nat) list" where
  "hottest cfg limit s =
     (let order = rev (sort_key (demand s) (rev (filter (\<lambda>i. 0 < demand s i) [0..<rc_count cfg]))) in
      map (\<lambda>i. (i div rc_experts cfg, i mod rc_experts cfg, demand s i)) (take limit order))"

section \<open>Runs\<close>

text \<open>The bytes of an expert, by its identifier, come from the drive: an argument.  A taken fetch may
  leave anything in its slot until it is finished, and a failed one sends no message.  The ghost
  field \<open>lost\<close> remembers failed fetches.\<close>

definition fresh :: "resid \<Rightarrow> nat \<Rightarrow> bool" where
  "fresh s i \<longleftrightarrow> in_ram s i = None \<and> in_vram s i = None \<and> \<not> busy s i"

definition fetch_take :: "bytes \<Rightarrow> resid \<Rightarrow> resid" where
  "fetch_take junk s =
     (let j = hd (fetch_ch s) in
      s\<lparr> fetch_ch := tl (fetch_ch s), fetching := Some j, ram_bytes := (ram_bytes s)(fj_slot j := junk) \<rparr>)"

definition fetch_finish :: "(nat \<Rightarrow> bytes) \<Rightarrow> fetch_job \<Rightarrow> resid \<Rightarrow> resid" where
  "fetch_finish data j s =
     s\<lparr> fetching := None, done_ch := done_ch s @ [Fetched (fj_id j)],
        ram_bytes := (ram_bytes s)(fj_slot j := data (fj_id j)
          @ drop (length (data (fj_id j))) (ram_bytes s (fj_slot j))) \<rparr>"

definition fetch_fail :: "fetch_job \<Rightarrow> resid \<Rightarrow> resid" where
  "fetch_fail j s = s\<lparr> fetching := None, lost := lost s @ [fj_id j] \<rparr>"

definition copy_take :: "bytes \<Rightarrow> resid \<Rightarrow> resid" where
  "copy_take junk s =
     (let j = hd (copy_ch s) in
      s\<lparr> copy_ch := tl (copy_ch s), copying := Some j, vram_bytes := (vram_bytes s)(cj_dst j := junk) \<rparr>)"

definition copy_finish :: "copy_job \<Rightarrow> resid \<Rightarrow> resid" where
  "copy_finish j s =
     s\<lparr> copying := None, done_ch := done_ch s @ [Copied (cj_id j)],
        vram_bytes := (vram_bytes s)(cj_dst j := take (cj_bytes j) (ram_bytes s (cj_src j))
          @ drop (cj_bytes j) (vram_bytes s (cj_dst j))) \<rparr>"

inductive res_step :: "res_config \<Rightarrow> (nat \<Rightarrow> bytes) \<Rightarrow> resid \<Rightarrow> resid \<Rightarrow> bool"
  for cfg :: res_config and data :: "nat \<Rightarrow> bytes" where
  st_begin: "main s = MIdle \<Longrightarrow> res_step cfg data s (begin_layer s)"
| st_note: "main s = MIdle \<Longrightarrow> res_id cfg layer expert = Some i \<Longrightarrow> res_step cfg data s (note_demand i s)"
| st_claim: "main s = MIdle \<Longrightarrow> res_id cfg layer expert = Some i \<Longrightarrow> res_step cfg data s (snd (claim cfg i s))"
| st_request: "main s = MIdle \<Longrightarrow> res_id cfg layer expert = Some i \<Longrightarrow> res_step cfg data s (snd (request cfg i s))"
| st_want: "main s = MIdle \<Longrightarrow> res_id cfg layer expert = Some i \<Longrightarrow> res_step cfg data s (want cfg i s)"
| st_poll: "main s = MIdle \<Longrightarrow> res_step cfg data s (snd (poll cfg s))"
| st_load: "main s = MIdle \<Longrightarrow> res_id cfg layer expert = Some i \<Longrightarrow> load_begin cfg i s = (ok, s1)
    \<Longrightarrow> res_step cfg data s (s1\<lparr> main := (if ok then MLoad i else MIdle) \<rparr>)"
| st_preload: "main s = MIdle \<Longrightarrow> distinct (map fst hot)
    \<Longrightarrow> \<forall>i \<in> fst ` set hot. i < rc_count cfg \<and> fresh s i
    \<Longrightarrow> res_step cfg data s (preload_begin cfg hot s)"
| st_wait: "main_wait cfg (main s) s = Some s' \<Longrightarrow> res_step cfg data s s'"
| st_fetch_take: "fetching s = None \<Longrightarrow> fetch_ch s \<noteq> [] \<Longrightarrow> res_step cfg data s (fetch_take junk s)"
| st_fetch_finish: "fetching s = Some j \<Longrightarrow> res_step cfg data s (fetch_finish data j s)"
| st_fetch_fail: "fetching s = Some j \<Longrightarrow> res_step cfg data s (fetch_fail j s)"
| st_copy_take: "copying s = None \<Longrightarrow> copy_ch s \<noteq> [] \<Longrightarrow> res_step cfg data s (copy_take junk s)"
| st_copy_finish: "copying s = Some j \<Longrightarrow> res_step cfg data s (copy_finish j s)"

inductive res_reach :: "res_config \<Rightarrow> (nat \<Rightarrow> bytes) \<Rightarrow> resid \<Rightarrow> bool"
  for cfg :: res_config and data :: "nat \<Rightarrow> bytes" where
  res_init: "res_reach cfg data (residency_new cfg vm rm)"
| res_more: "res_reach cfg data s \<Longrightarrow> res_step cfg data s s' \<Longrightarrow> res_reach cfg data s'"

end
