(* ===== verification/ResidencyInv.thy ===== *)
theory ResidencyInv
  imports Residency "HOL-Library.Multiset"
begin

text \<open>
  The invariant of background residency.  RAM and VRAM are two instances of one slot table; its
  operations (taking a free slot, evicting, handing a slot to a job, adopting finished work, writing
  an unmapped slot) are proved once for both.
\<close>

section \<open>Slot tables\<close>

definition holds_data :: "bytes \<Rightarrow> bytes \<Rightarrow> bool" where
  "holds_data m d \<longleftrightarrow> take (length d) m = d"

definition table_ok ::
  "nat \<Rightarrow> nat \<Rightarrow> (nat \<Rightarrow> bytes) \<Rightarrow> (nat \<Rightarrow> bool) \<Rightarrow> (nat \<Rightarrow> nat option) \<Rightarrow> (nat \<Rightarrow> nat option)
   \<Rightarrow> nat list \<Rightarrow> (nat \<Rightarrow> bytes) \<Rightarrow> bool" where
  "table_ok n cnt data bz whr own fr mem \<longleftrightarrow>
     (\<forall>i r. whr i = Some r \<longrightarrow> own r = Some i \<and> holds_data (mem r) (data i))
     \<and> (\<forall>r i. own r = Some i \<longrightarrow> r < n \<and> i < cnt \<and> (whr i = Some r \<or> whr i = None \<and> bz i))
     \<and> (\<forall>r r' i. own r = Some i \<and> own r' = Some i \<longrightarrow> r = r')
     \<and> distinct fr \<and> (\<forall>r \<in> set fr. r < n \<and> own r = None)"

lemma tableD:
  assumes "table_ok n cnt data bz whr own fr mem"
  shows "\<And>i r. whr i = Some r \<Longrightarrow> own r = Some i \<and> holds_data (mem r) (data i)"
    "\<And>r i. own r = Some i \<Longrightarrow> r < n \<and> i < cnt \<and> (whr i = Some r \<or> whr i = None \<and> bz i)"
    "\<And>r r' i. own r = Some i \<Longrightarrow> own r' = Some i \<Longrightarrow> r = r'"
    "distinct fr" "\<And>r. r \<in> set fr \<Longrightarrow> r < n \<and> own r = None"
  using assms unfolding table_ok_def by blast+

lemma tableI:
  assumes "\<And>i r. whr i = Some r \<Longrightarrow> own r = Some i \<and> holds_data (mem r) (data i)"
    "\<And>r i. own r = Some i \<Longrightarrow> r < n \<and> i < cnt \<and> (whr i = Some r \<or> whr i = None \<and> bz i)"
    "\<And>r r' i. own r = Some i \<Longrightarrow> own r' = Some i \<Longrightarrow> r = r'"
    "distinct fr" "\<And>r. r \<in> set fr \<Longrightarrow> r < n \<and> own r = None"
  shows "table_ok n cnt data bz whr own fr mem"
  using assms unfolding table_ok_def by blast

lemma table_pop:
  assumes "table_ok n cnt data bz whr own fr mem" "fr \<noteq> []"
  shows "table_ok n cnt data bz whr own (butlast fr) mem"
    and "last fr < n \<and> own (last fr) = None \<and> last fr \<notin> set (butlast fr)"
proof -
  note D = tableD [OF assms(1)]
  have fr: "fr = butlast fr @ [last fr]" using assms(2) by simp
  show "table_ok n cnt data bz whr own (butlast fr) mem"
    using D by (intro tableI) (auto simp: distinct_butlast dest: in_set_butlastD)
  have "distinct (butlast fr @ [last fr])" using D(4) fr by simp
  moreover have "last fr \<in> set fr" using assms(2) by simp
  ultimately show "last fr < n \<and> own (last fr) = None \<and> last fr \<notin> set (butlast fr)"
    using D(5) by simp
qed

lemma table_evict:
  assumes "table_ok n cnt data bz whr own fr mem" "own r = Some w" "\<not> bz w"
  shows "table_ok n cnt data bz (whr(w := None)) (own(r := None)) fr mem"
    and "r < n" "r \<notin> set fr" "whr w = Some r"
proof -
  note D = tableD [OF assms(1)]
  show w: "whr w = Some r" "r < n" using D(2) [OF assms(2)] assms(3) by auto
  show "r \<notin> set fr" using D(5) assms(2) by auto
  show "table_ok n cnt data bz (whr(w := None)) (own(r := None)) fr mem"
  proof (rule tableI)
    fix i r' assume "(whr(w := None)) i = Some r'"
    then have "i \<noteq> w" "whr i = Some r'" by (auto split: if_splits)
    then show "(own(r := None)) r' = Some i \<and> holds_data (mem r') (data i)"
      using D(1) [of i r'] assms(2) by auto
  next
    fix r' i assume "(own(r := None)) r' = Some i"
    then have r': "r' \<noteq> r" "own r' = Some i" by (auto split: if_splits)
    then have "i \<noteq> w" using D(3) assms(2) by blast
    then show "r' < n \<and> i < cnt \<and> ((whr(w := None)) i = Some r' \<or> (whr(w := None)) i = None \<and> bz i)"
      using D(2) [OF r'(2)] by simp
  qed (use D(3-5) in \<open>auto split: if_splits\<close>)
qed

lemma table_busy:
  assumes "table_ok n cnt data bz whr own fr mem"
  shows "table_ok n cnt data (bz(i := True)) whr own fr mem"
  using tableD [OF assms] by (intro tableI) auto

lemma table_unbusy:
  assumes "table_ok n cnt data bz whr own fr mem" "whr i \<noteq> None \<or> (\<forall>r. own r \<noteq> Some i)"
  shows "table_ok n cnt data (bz(i := False)) whr own fr mem"
proof (rule tableI)
  note D = tableD [OF assms(1)]
  fix r k assume k: "own r = Some k"
  then show "r < n \<and> k < cnt \<and> (whr k = Some r \<or> whr k = None \<and> (bz(i := False)) k)"
    using D(2) [OF k] assms(2) by (cases "k = i") auto
qed (use tableD [OF assms(1)] in auto)

lemma table_assign:
  assumes "table_ok n cnt data bz whr own fr mem" "own r = None" "r < n" "r \<notin> set fr" "i < cnt"
    "whr i = None" "\<forall>r'. own r' \<noteq> Some i"
  shows "table_ok n cnt data (bz(i := True)) whr (own(r := Some i)) fr mem"
proof (rule tableI)
  note D = tableD [OF assms(1)]
  show "(own(r := Some i)) r' = Some k \<and> holds_data (mem r') (data k)" if "whr k = Some r'" for k r'
    using D(1) [OF that] assms(2) by auto
  show "r1 = r2" if "(own(r := Some i)) r1 = Some k" "(own(r := Some i)) r2 = Some k" for r1 r2 k
    using that D(3) assms(7) by (auto split: if_splits)
  show "r' < n \<and> k < cnt \<and> (whr k = Some r' \<or> whr k = None \<and> (bz(i := True)) k)"
    if "(own(r := Some i)) r' = Some k" for r' k
    using that D(2) [of r' k] assms(3,5,6) by (auto split: if_splits)
qed (use tableD [OF assms(1)] assms(4) in auto)

lemma table_adopt:
  assumes "table_ok n cnt data bz whr own fr mem" "own r = Some i" "whr i = None"
    "holds_data (mem r) (data i)"
  shows "table_ok n cnt data (bz(i := False)) (whr(i := Some r)) own fr mem"
proof (rule tableI)
  note D = tableD [OF assms(1)]
  show "own r' = Some k \<and> holds_data (mem r') (data k)" if "(whr(i := Some r)) k = Some r'" for k r'
    using that D(1) [of k r'] assms(2,4) by (auto split: if_splits)
  show "r' < n \<and> k < cnt \<and> ((whr(i := Some r)) k = Some r' \<or> (whr(i := Some r)) k = None \<and> (bz(i := False)) k)"
    if "own r' = Some k" for r' k
    using D(2) [OF that] D(3) [OF that, of r] assms(2) by auto
qed (use tableD [OF assms(1)] in auto)

lemma table_write:
  assumes "table_ok n cnt data bz whr own fr mem" "\<forall>i. whr i \<noteq> Some r"
  shows "table_ok n cnt data bz whr own fr (mem(r := x))"
  using tableD [OF assms(1)] assms(2) by (intro tableI) auto

lemma owned_slot_eq:
  assumes "table_ok n cnt data bz whr own fr mem" "own r = Some i"
  shows "owned_slot own n i = Some r"
proof -
  have r: "r < n" using tableD(2) [OF assms(1,2)] by simp
  have "List.find (\<lambda>slot. own slot = Some i) [0..<n] \<noteq> None"
    using r assms(2) by (auto simp: find_None_iff)
  then obtain q where q: "List.find (\<lambda>slot. own slot = Some i) [0..<n] = Some q" by blast
  then have "own q = Some i" by (auto simp: find_Some_iff)
  then have "q = r" using tableD(3) [OF assms(1)] assms(2) by blast
  then show ?thesis using q by (simp add: owned_slot_def)
qed

section \<open>Scans\<close>

text \<open>The scan returns a slot whose owner may leave, and none of the slots it looked at has a
  cheaper one.\<close>

lemma scan_slots_sound:
  assumes "scan_slots cost k os best = Some (c, r, w)"
    "\<And>c r w. best = Some (c, r, w) \<Longrightarrow> P r w \<and> cost w = Some c"
    "\<And>j w. j < length os \<Longrightarrow> os ! j = Some w \<Longrightarrow> P (k + j) w"
  shows "P r w \<and> cost w = Some c"
  using assms
proof (induction cost k os best rule: scan_slots.induct)
  case (1 cost k best)
  then show ?case by simp
next
  case (2 cost k os best)
  have "P (Suc k + j) v" if "j < length os" "os ! j = Some v" for j v
    using "2.prems"(3) [of "Suc j" v] that by simp
  then show ?case using 2 by simp
next
  case (3 cost k x os best)
  have head: "P k x" using "3.prems"(3) [of 0 x] by simp
  have tl: "P (Suc k + j) v" if "j < length os" "os ! j = Some v" for j v
    using "3.prems"(3) [of "Suc j" v] that by simp
  show ?case
  proof (rule "3.IH" [OF _ _ tl])
    show "scan_slots cost (Suc k) os (case cost x of None \<Rightarrow> best
        | Some c \<Rightarrow> (case best of None \<Rightarrow> Some (c, k, x)
            | Some (d, s, v) \<Rightarrow> if c < d then Some (c, k, x) else best)) = Some (c, r, w)"
      using "3.prems"(1) by simp
  next
    fix c' r' w'
    assume new: "(case cost x of None \<Rightarrow> best
        | Some c \<Rightarrow> (case best of None \<Rightarrow> Some (c, k, x)
            | Some (d, s, v) \<Rightarrow> if c < d then Some (c, k, x) else best)) = Some (c', r', w')"
    show "P r' w' \<and> cost w' = Some c'"
    proof (cases "best = Some (c', r', w')")
      case True
      then show ?thesis by (rule "3.prems"(2))
    next
      case False
      then have "cost x = Some c' \<and> r' = k \<and> w' = x"
        using new by (cases "cost x"; cases best) (auto split: if_splits)
      then show ?thesis using head by simp
    qed
  qed
qed

lemma scan_slots_min:
  assumes "scan_slots cost k os best = Some (c, r, w)"
  shows "(\<forall>v \<in> set os. \<forall>x d. v = Some x \<and> cost x = Some d \<longrightarrow> c \<le> d)
    \<and> (\<forall>d r' w'. best = Some (d, r', w') \<longrightarrow> c \<le> d)"
  using assms
proof (induction cost k os best rule: scan_slots.induct)
  case (3 cost k x os best)
  have IH: "\<forall>v \<in> set os. \<forall>y d. v = Some y \<and> cost y = Some d \<longrightarrow> c \<le> d"
    "\<And>d r' w'. (case cost x of None \<Rightarrow> best
        | Some c \<Rightarrow> (case best of None \<Rightarrow> Some (c, k, x)
            | Some (d, s, v) \<Rightarrow> if c < d then Some (c, k, x) else best)) = Some (d, r', w') \<Longrightarrow> c \<le> d"
    using "3.IH" "3.prems" by auto
  show ?case
  proof (cases "cost x")
    case None
    then show ?thesis using IH by auto
  next
    case (Some e)
    then show ?thesis using IH by (cases best) (fastforce split: if_splits)+
  qed
qed auto

lemma scan_owner:
  assumes "scan_slots cost 0 (map own [0..<n]) None = Some (c, r, w)"
  shows "r < n \<and> own r = Some w \<and> cost w = Some c
    \<and> (\<forall>r' < n. \<forall>x d. own r' = Some x \<and> cost x = Some d \<longrightarrow> c \<le> d)"
proof -
  have "(r < n \<and> own r = Some w) \<and> cost w = Some c"
    by (rule scan_slots_sound [where P = "\<lambda>r w. r < n \<and> own r = Some w", OF assms]) auto
  moreover have "c \<le> d" if "r' < n" "own r' = Some x" "cost x = Some d" for r' x d
  proof -
    have "Some x \<in> set (map own [0..<n])" using that by force
    then show ?thesis using scan_slots_min [OF assms] that by blast
  qed
  ultimately show ?thesis by blast
qed

section \<open>The invariant\<close>

definition fjobs :: "resid \<Rightarrow> fetch_job list" where
  "fjobs s = (case fetching s of None \<Rightarrow> [] | Some j \<Rightarrow> [j]) @ fetch_ch s"

definition cjobs :: "resid \<Rightarrow> copy_job list" where
  "cjobs s = (case copying s of None \<Rightarrow> [] | Some j \<Rightarrow> [j]) @ copy_ch s"

fun msg_id :: "done_msg \<Rightarrow> nat" where
  "msg_id (Fetched i) = i"
| "msg_id (Copied i) = i"

text \<open>The experts with unfinished work: queued, running, finished but not adopted, or lost.\<close>

definition out_ids :: "resid \<Rightarrow> nat list" where
  "out_ids s = map fj_id (fjobs s) @ map cj_id (cjobs s) @ map msg_id (done_ch s) @ lost s"

definition cold :: "resid \<Rightarrow> nat \<Rightarrow> bool" where
  "cold s i \<longleftrightarrow> in_ram s i = None \<and> in_vram s i = None \<and> (\<forall>r. vram_owner s r \<noteq> Some i)"

definition ram_ok :: "res_config \<Rightarrow> (nat \<Rightarrow> bytes) \<Rightarrow> resid \<Rightarrow> bool" where
  "ram_ok cfg data s =
     table_ok (ar_slots (rc_ram cfg)) (rc_count cfg) data (busy s) (in_ram s) (ram_owner s) (rfree s) (ram_bytes s)"

definition vram_ok :: "res_config \<Rightarrow> (nat \<Rightarrow> bytes) \<Rightarrow> resid \<Rightarrow> bool" where
  "vram_ok cfg data s =
     table_ok (ar_slots (rc_vram cfg)) (rc_count cfg) data (busy s) (in_vram s) (vram_owner s) (vfree s) (vram_bytes s)"

definition book_ok :: "res_config \<Rightarrow> resid \<Rightarrow> bool" where
  "book_ok cfg s \<longleftrightarrow> distinct (out_ids s) \<and> (\<forall>i. busy s i \<longleftrightarrow> i \<in> set (out_ids s))
     \<and> n_queued s = length (out_ids s) \<and> (\<forall>i \<in> set (out_ids s). i < rc_count cfg)"

definition fjob_ok :: "resid \<Rightarrow> fetch_job \<Rightarrow> bool" where
  "fjob_ok s j \<longleftrightarrow> cold s (fj_id j) \<and> ram_owner s (fj_slot j) = Some (fj_id j)"

definition cjob_ok :: "res_config \<Rightarrow> resid \<Rightarrow> copy_job \<Rightarrow> bool" where
  "cjob_ok cfg s j \<longleftrightarrow> in_ram s (cj_id j) = Some (cj_src j) \<and> in_vram s (cj_id j) = None
     \<and> vram_owner s (cj_dst j) = Some (cj_id j) \<and> cj_bytes j = rc_bytes cfg ! cj_id j"

fun msg_ok :: "(nat \<Rightarrow> bytes) \<Rightarrow> resid \<Rightarrow> done_msg \<Rightarrow> bool" where
  "msg_ok data s (Fetched i) =
     (cold s i \<and> (\<exists>r. ram_owner s r = Some i \<and> holds_data (ram_bytes s r) (data i)))"
| "msg_ok data s (Copied i) =
     (in_vram s i = None \<and> in_ram s i \<noteq> None
      \<and> (\<exists>r. vram_owner s r = Some i \<and> holds_data (vram_bytes s r) (data i)))"

definition jobs_ok :: "res_config \<Rightarrow> (nat \<Rightarrow> bytes) \<Rightarrow> resid \<Rightarrow> bool" where
  "jobs_ok cfg data s \<longleftrightarrow> (\<forall>j \<in> set (fjobs s). fjob_ok s j) \<and> (\<forall>j \<in> set (cjobs s). cjob_ok cfg s j)
     \<and> (\<forall>d \<in> set (done_ch s). msg_ok data s d) \<and> (\<forall>i \<in> set (lost s). cold s i)"

definition core_inv :: "res_config \<Rightarrow> (nat \<Rightarrow> bytes) \<Rightarrow> resid \<Rightarrow> bool" where
  "core_inv cfg data s \<longleftrightarrow> ram_ok cfg data s \<and> vram_ok cfg data s \<and> book_ok cfg s \<and> jobs_ok cfg data s"

text \<open>Hypotheses on the constants: identifiers fit a machine word, and the byte counts are those of
  the experts.\<close>

definition cfg_ok :: "res_config \<Rightarrow> (nat \<Rightarrow> bytes) \<Rightarrow> bool" where
  "cfg_ok cfg data \<longleftrightarrow> rc_count cfg < 2 ^ 64 \<and> (\<forall>i < rc_count cfg. length (data i) = rc_bytes cfg ! i)"

lemma book_frame:
  "book_ok cfg s \<Longrightarrow> out_ids s' = out_ids s \<Longrightarrow> busy s' = busy s \<Longrightarrow> n_queued s' = n_queued s \<Longrightarrow> book_ok cfg s'"
  by (simp add: book_ok_def)

section \<open>Taking a slot\<close>

lemma busy_out: "core_inv cfg data s \<Longrightarrow> busy s i \<longleftrightarrow> i \<in> set (out_ids s)"
  by (simp add: core_inv_def book_ok_def)

lemma take_ram_slot_cases:
  assumes "ram_ok cfg data s" "take_ram_slot cfg d s = (res, s1)"
  obtains (none) "res = None" "s1 = s"
  | (free) "rfree s \<noteq> []" "res = Some (last (rfree s))" "s1 = s\<lparr> rfree := butlast (rfree s) \<rparr>"
  | (evict) w r where "res = Some r" "ram_owner s r = Some w" "in_ram s w = Some r" "may_leave s w" "rfree s = []"
      "s1 = s\<lparr> in_ram := (in_ram s)(w := None), ram_owner := (ram_owner s)(r := None) \<rparr>"
proof (cases "rfree s = []")
  case False
  then show thesis using assms(2) free by (auto simp: take_ram_slot_def)
next
  case True
  show thesis
  proof (cases "scan_slots (ram_cost s) 0 (map (ram_owner s) [0..<ar_slots (rc_ram cfg)]) None")
    case None
    then show thesis using assms(2) True none by (simp add: take_ram_slot_def)
  next
    case (Some a)
    obtain c r w where a: "a = (c, r, w)" by (metis prod_cases3)
    have sc: "ram_owner s r = Some w" "may_leave s w"
      using scan_owner [OF Some [unfolded a]] by (auto simp: ram_cost_def split: if_splits)
    then have w: "in_ram s w = Some r"
      using tableD(2) [OF assms(1) [unfolded ram_ok_def] sc(1)] by (auto simp: may_leave_def)
    have "(res, s1) = (if d < c then (None, s) else (Some r,
        s\<lparr> in_ram := (in_ram s)(w := None), ram_owner := (ram_owner s)(r := None) \<rparr>))"
      using assms(2) True Some a by (simp add: take_ram_slot_def)
    then show thesis using none evict [OF _ sc(1) w sc(2) True] by (cases "d < c") simp_all
  qed
qed

lemma take_vram_slot_cases:
  assumes "vram_ok cfg data s" "take_vram_slot cfg d s = (res, s1)"
  obtains (none) "res = None" "s1 = s"
  | (free) "vfree s \<noteq> []" "res = Some (last (vfree s))" "s1 = s\<lparr> vfree := butlast (vfree s) \<rparr>"
  | (evict) w r c where "res = Some r" "vram_owner s r = Some w" "in_vram s w = Some r" "may_leave s w" "vfree s = []"
      "s1 = s\<lparr> in_vram := (in_vram s)(w := None), vram_owner := (vram_owner s)(r := None), counters := c \<rparr>"
proof (cases "vfree s = []")
  case False
  then show thesis using assms(2) free by (auto simp: take_vram_slot_def)
next
  case True
  show thesis
  proof (cases "scan_slots (vram_cost s) 0 (map (vram_owner s) [0..<ar_slots (rc_vram cfg)]) None")
    case None
    then show thesis using assms(2) True none by (simp add: take_vram_slot_def)
  next
    case (Some a)
    obtain c r w where a: "a = (c, r, w)" by (metis prod_cases3)
    have sc: "vram_owner s r = Some w" "may_leave s w"
      using scan_owner [OF Some [unfolded a]] by (auto simp: vram_cost_def split: if_splits)
    then have w: "in_vram s w = Some r"
      using tableD(2) [OF assms(1) [unfolded vram_ok_def] sc(1)] by (auto simp: may_leave_def)
    have "(res, s1) = (if d \<le> c then (None, s) else (Some r,
        s\<lparr> in_vram := (in_vram s)(w := None), vram_owner := (vram_owner s)(r := None),
           counters := (counters s)\<lparr> n_evicted_vram := n_evicted_vram (counters s) + 1 \<rparr> \<rparr>))"
      using assms(2) True Some a by (simp add: take_vram_slot_def)
    then consider "res = None" "s1 = s" | "res = Some r"
        "s1 = s\<lparr> in_vram := (in_vram s)(w := None), vram_owner := (vram_owner s)(r := None),
           counters := (counters s)\<lparr> n_evicted_vram := n_evicted_vram (counters s) + 1 \<rparr> \<rparr>"
      by (cases "d \<le> c") simp_all
    then show thesis
    proof cases
      case 1
      then show thesis by (rule none)
    next
      case 2
      show thesis by (rule evict [OF 2(1) sc(1) w sc(2) True 2(2)])
    qed
  qed
qed

text \<open>Evicting an idle expert from a table disturbs no job, message or lost fetch.\<close>

lemma jobs_ok_ids:
  "jobs_ok cfg data s \<Longrightarrow> j \<in> set (fjobs s) \<Longrightarrow> fj_id j \<in> set (out_ids s)"
  "jobs_ok cfg data s \<Longrightarrow> c \<in> set (cjobs s) \<Longrightarrow> cj_id c \<in> set (out_ids s)"
  "jobs_ok cfg data s \<Longrightarrow> d \<in> set (done_ch s) \<Longrightarrow> msg_id d \<in> set (out_ids s)"
  "jobs_ok cfg data s \<Longrightarrow> i \<in> set (lost s) \<Longrightarrow> i \<in> set (out_ids s)"
  by (auto simp: out_ids_def)

definition keeps :: "resid \<Rightarrow> resid \<Rightarrow> nat \<Rightarrow> bool" where
  "keeps s s' i \<longleftrightarrow> in_ram s' i = in_ram s i \<and> in_vram s' i = in_vram s i
     \<and> (\<forall>r. ram_owner s' r = Some i \<longleftrightarrow> ram_owner s r = Some i)
     \<and> (\<forall>r. vram_owner s' r = Some i \<longleftrightarrow> vram_owner s r = Some i)"

definition keeps_bytes :: "resid \<Rightarrow> resid \<Rightarrow> nat \<Rightarrow> bool" where
  "keeps_bytes s s' i \<longleftrightarrow> (\<forall>r. ram_owner s r = Some i \<longrightarrow> ram_bytes s' r = ram_bytes s r)
     \<and> (\<forall>r. vram_owner s r = Some i \<longrightarrow> vram_bytes s' r = vram_bytes s r)"

lemma keeps_cold: "keeps s s' i \<Longrightarrow> cold s' i = cold s i"
  by (simp add: keeps_def cold_def)

lemma keeps_msg:
  assumes "keeps s s' (msg_id d)" "keeps_bytes s s' (msg_id d)" "msg_ok data s d"
  shows "msg_ok data s' d"
proof (cases d)
  case (Fetched i)
  then show ?thesis using assms keeps_cold [of s s' i] by (auto simp: keeps_def keeps_bytes_def)
next
  case (Copied i)
  then show ?thesis using assms by (auto simp: keeps_def keeps_bytes_def)
qed

lemma jobs_change:
  assumes "jobs_ok cfg data s"
    and f: "\<And>j. j \<in> set (fjobs s') \<Longrightarrow> j \<in> set (fjobs s) \<and> keeps s s' (fj_id j) \<or> fjob_ok s' j"
    and c: "\<And>j. j \<in> set (cjobs s') \<Longrightarrow> j \<in> set (cjobs s) \<and> keeps s s' (cj_id j) \<or> cjob_ok cfg s' j"
    and d: "\<And>d. d \<in> set (done_ch s') \<Longrightarrow>
        d \<in> set (done_ch s) \<and> keeps s s' (msg_id d) \<and> keeps_bytes s s' (msg_id d) \<or> msg_ok data s' d"
    and l: "\<And>i. i \<in> set (lost s') \<Longrightarrow> i \<in> set (lost s) \<and> keeps s s' i \<or> cold s' i"
  shows "jobs_ok cfg data s'"
  unfolding jobs_ok_def
proof (intro conjI ballI)
  fix j assume "j \<in> set (fjobs s')"
  then show "fjob_ok s' j"
    using f [of j] assms(1) keeps_cold [of s s' "fj_id j"] by (auto simp: jobs_ok_def fjob_ok_def keeps_def)
next
  fix j assume "j \<in> set (cjobs s')"
  then show "cjob_ok cfg s' j"
    using c [of j] assms(1) by (auto simp: jobs_ok_def cjob_ok_def keeps_def)
next
  fix m assume "m \<in> set (done_ch s')"
  then show "msg_ok data s' m" using d [of m] assms(1) keeps_msg [of s s' m data] by (auto simp: jobs_ok_def)
next
  fix i assume "i \<in> set (lost s')"
  then show "cold s' i" using l [of i] assms(1) keeps_cold [of s s' i] by (auto simp: jobs_ok_def)
qed

lemma jobs_frame:
  assumes "jobs_ok cfg data s"
    "fetching s' = fetching s" "fetch_ch s' = fetch_ch s" "copying s' = copying s" "copy_ch s' = copy_ch s"
    "done_ch s' = done_ch s" "lost s' = lost s" "ram_bytes s' = ram_bytes s" "vram_bytes s' = vram_bytes s"
    "\<And>i. i \<in> set (out_ids s) \<Longrightarrow> keeps s s' i"
  shows "jobs_ok cfg data s'"
proof -
  have eq: "fjobs s' = fjobs s" "cjobs s' = cjobs s" using assms(2-5) by (simp_all add: fjobs_def cjobs_def)
  note ids = jobs_ok_ids [OF assms(1)]
  show ?thesis
    by (rule jobs_change [OF assms(1)])
      (use assms(6-10) eq ids in \<open>simp_all add: keeps_bytes_def\<close>)
qed

lemma take_ram_slot_ok:
  assumes "core_inv cfg data s" "take_ram_slot cfg d s = (res, s1)"
  shows "core_inv cfg data s1" "main s1 = main s" "busy s1 = busy s" "used s1 = used s" "tick s1 = tick s"
    "in_vram s1 = in_vram s" "vram_owner s1 = vram_owner s" "out_ids s1 = out_ids s" "demand s1 = demand s"
    "\<And>i. in_ram s1 i = in_ram s i \<or> in_ram s1 i = None \<and> may_leave s i"
    "\<And>r. res = Some r \<Longrightarrow> r < ar_slots (rc_ram cfg) \<and> ram_owner s1 r = None \<and> r \<notin> set (rfree s1)"
proof -
  have ok: "ram_ok cfg data s" "vram_ok cfg data s" "book_ok cfg s" "jobs_ok cfg data s"
    using assms(1) by (simp_all add: core_inv_def)
  note rt = ok(1) [unfolded ram_ok_def]
  have "core_inv cfg data s1 \<and> main s1 = main s \<and> busy s1 = busy s \<and> used s1 = used s \<and> tick s1 = tick s
    \<and> in_vram s1 = in_vram s \<and> vram_owner s1 = vram_owner s \<and> out_ids s1 = out_ids s \<and> demand s1 = demand s
    \<and> (\<forall>i. in_ram s1 i = in_ram s i \<or> in_ram s1 i = None \<and> may_leave s i)
    \<and> (\<forall>r. res = Some r \<longrightarrow> r < ar_slots (rc_ram cfg) \<and> ram_owner s1 r = None \<and> r \<notin> set (rfree s1))"
  proof (cases rule: take_ram_slot_cases [OF ok(1) assms(2)])
    case 1
    then show ?thesis using assms(1) by simp
  next
    case 2
    have out: "out_ids s1 = out_ids s" using 2 by (simp add: out_ids_def fjobs_def cjobs_def)
    have "jobs_ok cfg data s1" by (rule jobs_frame [OF ok(4)]) (simp_all add: 2 keeps_def)
    moreover have "book_ok cfg s1" by (rule book_frame [OF ok(3) out]) (simp_all add: 2)
    ultimately show ?thesis
      using 2 ok table_pop [OF rt 2(1)] out
      by (simp add: core_inv_def ram_ok_def vram_ok_def)
  next
    case (3 w r)
    have nb: "\<not> busy s w" using 3(4) by (simp add: may_leave_def)
    have out: "out_ids s1 = out_ids s" using 3 by (simp add: out_ids_def fjobs_def cjobs_def)
    have "w \<notin> set (out_ids s)" using nb ok(3) by (simp add: book_ok_def)
    then have "jobs_ok cfg data s1" using 3(2) by (intro jobs_frame [OF ok(4)]) (auto simp: 3 keeps_def)
    moreover have "book_ok cfg s1" by (rule book_frame [OF ok(3) out]) (simp_all add: 3)
    ultimately show ?thesis
      using 3 ok table_evict [OF rt 3(2) nb] out
      by (simp add: core_inv_def ram_ok_def vram_ok_def)
  qed
  then show "core_inv cfg data s1" "main s1 = main s" "busy s1 = busy s" "used s1 = used s" "tick s1 = tick s"
    "in_vram s1 = in_vram s" "vram_owner s1 = vram_owner s" "out_ids s1 = out_ids s" "demand s1 = demand s"
    "\<And>i. in_ram s1 i = in_ram s i \<or> in_ram s1 i = None \<and> may_leave s i"
    "\<And>r. res = Some r \<Longrightarrow> r < ar_slots (rc_ram cfg) \<and> ram_owner s1 r = None \<and> r \<notin> set (rfree s1)"
    by blast+
qed

lemma take_vram_slot_ok:
  assumes "core_inv cfg data s" "take_vram_slot cfg d s = (res, s1)"
  shows "core_inv cfg data s1" "main s1 = main s" "busy s1 = busy s" "used s1 = used s" "tick s1 = tick s"
    "in_ram s1 = in_ram s" "ram_owner s1 = ram_owner s" "out_ids s1 = out_ids s" "demand s1 = demand s"
    "\<And>i. in_vram s1 i = in_vram s i \<or> in_vram s1 i = None \<and> may_leave s i"
    "\<And>r. res = Some r \<Longrightarrow> r < ar_slots (rc_vram cfg) \<and> vram_owner s1 r = None \<and> r \<notin> set (vfree s1)"
    "\<And>i r. vram_owner s1 r = Some i \<Longrightarrow> vram_owner s r = Some i"
proof -
  have ok: "ram_ok cfg data s" "vram_ok cfg data s" "book_ok cfg s" "jobs_ok cfg data s"
    using assms(1) by (simp_all add: core_inv_def)
  note vt = ok(2) [unfolded vram_ok_def]
  have "core_inv cfg data s1 \<and> main s1 = main s \<and> busy s1 = busy s \<and> used s1 = used s \<and> tick s1 = tick s
    \<and> in_ram s1 = in_ram s \<and> ram_owner s1 = ram_owner s \<and> out_ids s1 = out_ids s \<and> demand s1 = demand s
    \<and> (\<forall>i. in_vram s1 i = in_vram s i \<or> in_vram s1 i = None \<and> may_leave s i)
    \<and> (\<forall>r. res = Some r \<longrightarrow> r < ar_slots (rc_vram cfg) \<and> vram_owner s1 r = None \<and> r \<notin> set (vfree s1))
    \<and> (\<forall>i r. vram_owner s1 r = Some i \<longrightarrow> vram_owner s r = Some i)"
  proof (cases rule: take_vram_slot_cases [OF ok(2) assms(2)])
    case 1
    then show ?thesis using assms(1) by simp
  next
    case 2
    have out: "out_ids s1 = out_ids s" using 2 by (simp add: out_ids_def fjobs_def cjobs_def)
    have "jobs_ok cfg data s1" by (rule jobs_frame [OF ok(4)]) (simp_all add: 2 keeps_def)
    moreover have "book_ok cfg s1" by (rule book_frame [OF ok(3) out]) (simp_all add: 2)
    ultimately show ?thesis
      using 2 ok table_pop [OF vt 2(1)] out
      by (simp add: core_inv_def ram_ok_def vram_ok_def)
  next
    case (3 w r c)
    have nb: "\<not> busy s w" using 3(4) by (simp add: may_leave_def)
    have out: "out_ids s1 = out_ids s" using 3 by (simp add: out_ids_def fjobs_def cjobs_def)
    have "w \<notin> set (out_ids s)" using nb ok(3) by (simp add: book_ok_def)
    then have "jobs_ok cfg data s1" using 3(2) by (intro jobs_frame [OF ok(4)]) (auto simp: 3 keeps_def)
    moreover have "book_ok cfg s1" by (rule book_frame [OF ok(3) out]) (simp_all add: 3)
    ultimately show ?thesis
      using 3 ok table_evict [OF vt 3(2) nb] out
      by (simp add: core_inv_def ram_ok_def vram_ok_def)
  qed
  then show "core_inv cfg data s1" "main s1 = main s" "busy s1 = busy s" "used s1 = used s" "tick s1 = tick s"
    "in_ram s1 = in_ram s" "ram_owner s1 = ram_owner s" "out_ids s1 = out_ids s" "demand s1 = demand s"
    "\<And>i. in_vram s1 i = in_vram s i \<or> in_vram s1 i = None \<and> may_leave s i"
    "\<And>r. res = Some r \<Longrightarrow> r < ar_slots (rc_vram cfg) \<and> vram_owner s1 r = None \<and> r \<notin> set (vfree s1)"
    "\<And>i r. vram_owner s1 r = Some i \<Longrightarrow> vram_owner s r = Some i"
    by blast+
qed

section \<open>Handing slots to the workers\<close>

text \<open>What an operation on expert \<open>i\<close> leaves alone: the program counter, the clock, and every
  other expert except that idle, unclaimed ones may be evicted.\<close>

definition calm :: "nat \<Rightarrow> resid \<Rightarrow> resid \<Rightarrow> bool" where
  "calm i s s' \<longleftrightarrow> main s' = main s \<and> tick s' = tick s \<and> used s' = used s \<and> lost s' = lost s
     \<and> (\<forall>k. k \<noteq> i \<longrightarrow> busy s' k = busy s k)
     \<and> (\<forall>k. in_ram s' k = in_ram s k \<or> in_ram s' k = None \<and> may_leave s k)
     \<and> (\<forall>k. in_vram s' k = in_vram s k \<or> in_vram s' k = None \<and> may_leave s k)"

lemma calm_fresh: "calm i s s' \<Longrightarrow> fresh s k \<Longrightarrow> k \<noteq> i \<Longrightarrow> fresh s' k"
  unfolding calm_def fresh_def by metis

lemma fresh_not_owner:
  assumes "core_inv cfg data s" "\<not> busy s i" "in_vram s i = None"
  shows "vram_owner s r \<noteq> Some i"
  using tableD(2) [OF assms(1) [unfolded core_inv_def vram_ok_def, THEN conjunct2, THEN conjunct1]] assms(2,3)
  by force

lemma fresh_not_ram_owner:
  assumes "core_inv cfg data s" "\<not> busy s i" "in_ram s i = None"
  shows "ram_owner s r \<noteq> Some i"
  using tableD(2) [OF assms(1) [unfolded core_inv_def ram_ok_def, THEN conjunct1]] assms(2,3)
  by force

lemma out_ids_queue:
  "out_ids (s\<lparr> ram_owner := ro, busy := b, n_queued := q, fetch_ch := fetch_ch s @ [j] \<rparr>)
   = map fj_id (fjobs s) @ [fj_id j] @ map cj_id (cjobs s) @ map msg_id (done_ch s) @ lost s"
  "out_ids (s\<lparr> vram_owner := ro, busy := b, n_queued := q, copy_ch := copy_ch s @ [c] \<rparr>)
   = map fj_id (fjobs s) @ map cj_id (cjobs s) @ [cj_id c] @ map msg_id (done_ch s) @ lost s"
  by (simp_all add: out_ids_def fjobs_def cjobs_def)

lemma start_fetch_ok:
  assumes "core_inv cfg data s" "i < rc_count cfg" "fresh s i" "start_fetch cfg i d s = (ok, s1)"
  shows "core_inv cfg data s1" "calm i s s1" "in_ram s1 i = None" "in_vram s1 = in_vram s"
    "vram_owner s1 = vram_owner s" "busy s1 i = ok"
proof -
  obtain res s0 where t: "take_ram_slot cfg d s = (res, s0)" by fastforce
  note tk = take_ram_slot_ok [OF assms(1) t]
  have fr: "in_ram s i = None" "in_vram s i = None" "\<not> busy s i" using assms(3) by (simp_all add: fresh_def)
  have i0: "in_ram s0 i = None" using tk(10) [of i] fr by auto
  have lost0: "lost s0 = lost s"
    using take_ram_slot_cases [OF _ t, of data] assms(1) by (fastforce simp: core_inv_def)
  have "core_inv cfg data s1 \<and> calm i s s1 \<and> in_ram s1 i = None \<and> in_vram s1 = in_vram s
    \<and> vram_owner s1 = vram_owner s \<and> busy s1 i = ok"
  proof (cases res)
    case None
    then have "s1 = s0" "\<not> ok" using assms(4) t by (simp_all add: start_fetch_def)
    then show ?thesis using tk i0 fr lost0 by (simp add: calm_def)
  next
    case (Some slot)
    let ?j = "\<lparr> fj_id = i, fj_slot = slot \<rparr>"
    have s1: "s1 = s0\<lparr> ram_owner := (ram_owner s0)(slot := Some i), busy := (busy s0)(i := True),
        n_queued := n_queued s0 + 1, fetch_ch := fetch_ch s0 @ [?j] \<rparr>" "ok"
      using assms(4) t Some by (simp_all add: start_fetch_def)
    have ok0: "ram_ok cfg data s0" "vram_ok cfg data s0" "book_ok cfg s0" "jobs_ok cfg data s0"
      using tk(1) by (simp_all add: core_inv_def)
    have nb: "\<not> busy s0 i" using tk(3) fr by simp
    have noown: "\<forall>r. ram_owner s0 r \<noteq> Some i" using fresh_not_ram_owner [OF tk(1) nb i0] by blast
    have slot: "ram_owner s0 slot = None" "slot < ar_slots (rc_ram cfg)" "slot \<notin> set (rfree s0)"
      using tk(11) [OF Some] by simp_all
    have nout: "i \<notin> set (out_ids s0)" using nb ok0(3) by (simp add: book_ok_def)
    have out: "set (out_ids s1) = insert i (set (out_ids s0))" "length (out_ids s1) = Suc (length (out_ids s0))"
      "distinct (out_ids s1)"
      using nout ok0(3) unfolding s1(1) out_ids_queue by (auto simp: book_ok_def out_ids_def)
    have "ram_ok cfg data s1"
      using table_assign [OF ok0(1) [unfolded ram_ok_def] slot assms(2) i0 noown] by (simp add: ram_ok_def s1(1))
    moreover have "vram_ok cfg data s1"
      using table_busy [OF ok0(2) [unfolded vram_ok_def]] by (simp add: vram_ok_def s1(1))
    moreover have "book_ok cfg s1"
      using ok0(3) out assms(2) by (auto simp: book_ok_def s1(1))
    moreover have "jobs_ok cfg data s1"
    proof -
      have cold: "cold s0 i" using i0 fr tk(6,7) fresh_not_owner [OF assms(1) fr(3,2)] by (simp add: cold_def)
      have new: "fjob_ok s1 ?j" using cold by (simp add: fjob_ok_def cold_def s1(1))
      have keep: "keeps s0 s1 k" if "k \<in> set (out_ids s0)" for k
        using that nout slot(1) by (auto simp: keeps_def s1(1))
      have eq: "fjobs s1 = fjobs s0 @ [?j]" "cjobs s1 = cjobs s0" "done_ch s1 = done_ch s0" "lost s1 = lost s0"
        "ram_bytes s1 = ram_bytes s0" "vram_bytes s1 = vram_bytes s0"
        by (simp_all add: s1(1) fjobs_def cjobs_def)
      note ids = jobs_ok_ids [OF ok0(4)]
      show ?thesis
        by (rule jobs_change [OF ok0(4)]) (use eq new keep ids in \<open>auto simp: keeps_bytes_def\<close>)
    qed
    ultimately show ?thesis using s1 tk i0 fr lost0 by (auto simp: core_inv_def calm_def)
  qed
  then show "core_inv cfg data s1" "calm i s s1" "in_ram s1 i = None" "in_vram s1 = in_vram s"
    "vram_owner s1 = vram_owner s" "busy s1 i = ok" by blast+
qed

lemma start_promote_ok:
  assumes "core_inv cfg data s" "i < rc_count cfg" "in_ram s i \<noteq> None" "in_vram s i = None" "\<not> busy s i"
  shows "core_inv cfg data (start_promote cfg i s)" "calm i s (start_promote cfg i s)"
    "in_ram (start_promote cfg i s) = in_ram s"
proof -
  obtain res s0 where t: "take_vram_slot cfg (demand s i) s = (res, s0)" by fastforce
  note tk = take_vram_slot_ok [OF assms(1) t]
  let ?s = "start_promote cfg i s"
  have i0: "in_vram s0 i = None" using tk(10) [of i] assms(4) by auto
  have lost0: "lost s0 = lost s"
    using take_vram_slot_cases [OF _ t, of data] assms(1) by (fastforce simp: core_inv_def)
  have "core_inv cfg data ?s \<and> calm i s ?s \<and> in_ram ?s = in_ram s"
  proof (cases res)
    case None
    then have "?s = s0" using t by (simp add: start_promote_def)
    then show ?thesis using tk lost0 by (simp add: calm_def)
  next
    case (Some slot)
    obtain q where q: "in_ram s i = Some q" using assms(3) by blast
    let ?j = "\<lparr> cj_id = i, cj_src = q, cj_dst = slot, cj_bytes = rc_bytes cfg ! i \<rparr>"
    have s1: "?s = s0\<lparr> vram_owner := (vram_owner s0)(slot := Some i), busy := (busy s0)(i := True),
        n_queued := n_queued s0 + 1, copy_ch := copy_ch s0 @ [?j] \<rparr>"
      using t Some q tk(6) by (simp add: start_promote_def)
    have ok0: "ram_ok cfg data s0" "vram_ok cfg data s0" "book_ok cfg s0" "jobs_ok cfg data s0"
      using tk(1) by (simp_all add: core_inv_def)
    have nb: "\<not> busy s0 i" using tk(3) assms(5) by simp
    have noown: "\<forall>r. vram_owner s0 r \<noteq> Some i" using fresh_not_owner [OF tk(1) nb i0] by blast
    have slot: "vram_owner s0 slot = None" "slot < ar_slots (rc_vram cfg)" "slot \<notin> set (vfree s0)"
      using tk(11) [OF Some] by simp_all
    have nout: "i \<notin> set (out_ids s0)" using nb ok0(3) by (simp add: book_ok_def)
    have out: "set (out_ids ?s) = insert i (set (out_ids s0))" "length (out_ids ?s) = Suc (length (out_ids s0))"
      "distinct (out_ids ?s)"
      using nout ok0(3) unfolding s1 out_ids_queue by (auto simp: book_ok_def out_ids_def)
    have "vram_ok cfg data ?s"
      using table_assign [OF ok0(2) [unfolded vram_ok_def] slot assms(2) i0 noown] by (simp add: vram_ok_def s1)
    moreover have "ram_ok cfg data ?s"
      using table_busy [OF ok0(1) [unfolded ram_ok_def]] by (simp add: ram_ok_def s1)
    moreover have "book_ok cfg ?s"
      using ok0(3) out assms(2) by (auto simp: book_ok_def s1)
    moreover have "jobs_ok cfg data ?s"
    proof -
      have new: "cjob_ok cfg ?s ?j" using q tk(6) i0 by (simp add: cjob_ok_def s1)
      have keep: "keeps s0 ?s k" if "k \<in> set (out_ids s0)" for k
        using that nout slot(1) by (auto simp: keeps_def s1)
      have eq: "fjobs ?s = fjobs s0" "cjobs ?s = cjobs s0 @ [?j]" "done_ch ?s = done_ch s0" "lost ?s = lost s0"
        "ram_bytes ?s = ram_bytes s0" "vram_bytes ?s = vram_bytes s0"
        by (simp_all add: s1 fjobs_def cjobs_def)
      note ids = jobs_ok_ids [OF ok0(4)]
      show ?thesis
        by (rule jobs_change [OF ok0(4)]) (use eq new keep ids in \<open>auto simp: keeps_bytes_def\<close>)
    qed
    ultimately show ?thesis using s1 tk lost0 by (auto simp: core_inv_def calm_def)
  qed
  then show "core_inv cfg data ?s" "calm i s ?s" "in_ram ?s = in_ram s" by blast+
qed

section \<open>Adopting finished work\<close>

lemma adopt_ok:
  assumes "core_inv cfg data s" "cfg_ok cfg data" "done_ch s = d # ds" "s0 = s\<lparr> done_ch := ds \<rparr>"
  shows "core_inv cfg data (adopt cfg d s0)" "main (adopt cfg d s0) = main s" "tick (adopt cfg d s0) = tick s"
    "used (adopt cfg d s0) = used s" "done_ch (adopt cfg d s0) = ds" "lost (adopt cfg d s0) = lost s"
    "busy (adopt cfg d s0) = (busy s)(msg_id d := False)" "busy s (msg_id d)"
    "\<And>k. k \<noteq> msg_id d \<or> in_ram s k \<noteq> None \<Longrightarrow> in_ram (adopt cfg d s0) k = in_ram s k"
    "\<And>k. k \<noteq> msg_id d \<or> in_vram s k \<noteq> None \<Longrightarrow> in_vram (adopt cfg d s0) k = in_vram s k"
    "in_ram s (msg_id d) = None \<Longrightarrow> in_ram (adopt cfg d s0) (msg_id d) \<noteq> None
       \<and> in_vram (adopt cfg d s0) (msg_id d) = in_vram s (msg_id d)"
    "vram_owner (adopt cfg d s0) = vram_owner s"
proof -
  let ?i = "msg_id d" and ?s = "adopt cfg d s0"
  have ok: "ram_ok cfg data s" "vram_ok cfg data s" "book_ok cfg s" "jobs_ok cfg data s"
    using assms(1) by (simp_all add: core_inv_def)
  have m: "msg_ok data s d" using ok(4) assms(3) by (simp add: jobs_ok_def)
  have outs: "out_ids s = map fj_id (fjobs s) @ map cj_id (cjobs s) @ ?i # map msg_id ds @ lost s"
    by (simp add: out_ids_def assms(3))
  have b: "busy s ?i" "distinct (out_ids s)" "n_queued s = length (out_ids s)"
    using ok(3) outs by (simp_all add: book_ok_def)
  have "length (out_ids s) \<le> rc_count cfg"
  proof -
    have "set (out_ids s) \<subseteq> {..<rc_count cfg}" using ok(3) by (auto simp: book_ok_def)
    then have "card (set (out_ids s)) \<le> card {..<rc_count cfg}" by (intro card_mono) simp_all
    then show ?thesis using b(2) by (simp add: distinct_card)
  qed
  then have q: "wsub (n_queued s) 1 = length (out_ids s) - 1"
    using b(3) assms(2) outs by (subst wsub_exact) (auto simp: cfg_ok_def)
  have "core_inv cfg data ?s \<and> main ?s = main s \<and> tick ?s = tick s \<and> used ?s = used s \<and> done_ch ?s = ds
    \<and> lost ?s = lost s \<and> busy ?s = (busy s)(?i := False) \<and> vram_owner ?s = vram_owner s
    \<and> (\<forall>k. k \<noteq> ?i \<or> in_ram s k \<noteq> None \<longrightarrow> in_ram ?s k = in_ram s k)
    \<and> (\<forall>k. k \<noteq> ?i \<or> in_vram s k \<noteq> None \<longrightarrow> in_vram ?s k = in_vram s k)
    \<and> (in_ram s ?i = None \<longrightarrow> in_ram ?s ?i \<noteq> None \<and> in_vram ?s ?i = in_vram s ?i)"
  proof -
    have fr: "fjobs ?s = fjobs s" "cjobs ?s = cjobs s" "done_ch ?s = ds" "lost ?s = lost s"
      "busy ?s = (busy s)(?i := False)" "n_queued ?s = length (out_ids s) - 1"
      "ram_owner ?s = ram_owner s" "vram_owner ?s = vram_owner s" "ram_bytes ?s = ram_bytes s"
      "vram_bytes ?s = vram_bytes s" "rfree ?s = rfree s" "vfree ?s = vfree s"
      "main ?s = main s" "tick ?s = tick s" "used ?s = used s"
      using q by (cases d; simp add: adopt_def Let_def assms(4) fjobs_def cjobs_def)+
    have outs': "out_ids ?s = map fj_id (fjobs s) @ map cj_id (cjobs s) @ map msg_id ds @ lost s"
      by (simp add: out_ids_def fr)
    have bk: "book_ok cfg ?s"
      using ok(3) outs unfolding book_ok_def fr(5,6) outs' by auto
    have notin: "k \<noteq> ?i" if "k \<in> set (out_ids ?s)" for k
      using that b(2) unfolding outs outs' by auto
    have tables: "ram_ok cfg data ?s \<and> vram_ok cfg data ?s
      \<and> (\<forall>k. k \<noteq> ?i \<or> in_ram s k \<noteq> None \<longrightarrow> in_ram ?s k = in_ram s k)
      \<and> (\<forall>k. k \<noteq> ?i \<or> in_vram s k \<noteq> None \<longrightarrow> in_vram ?s k = in_vram s k)
      \<and> (in_ram s ?i = None \<longrightarrow> in_ram ?s ?i \<noteq> None \<and> in_vram ?s ?i = in_vram s ?i)"
    proof (cases d)
      case (Fetched i)
      obtain r where r: "ram_owner s r = Some i" "holds_data (ram_bytes s r) (data i)" and cold: "cold s i"
        using m Fetched by auto
      have os: "owned_slot (ram_owner s) (ar_slots (rc_ram cfg)) i = Some r"
        by (rule owned_slot_eq [OF ok(1) [unfolded ram_ok_def] r(1)])
      have "in_ram ?s = (in_ram s)(i := Some r)" "in_vram ?s = in_vram s"
        using os by (simp_all add: adopt_def Let_def assms(4) Fetched)
      then show ?thesis
        using table_adopt [OF ok(1) [unfolded ram_ok_def] r(1) _ r(2)]
          table_unbusy [OF ok(2) [unfolded vram_ok_def], of i] cold Fetched fr
        by (auto simp: ram_ok_def vram_ok_def cold_def)
    next
      case (Copied i)
      obtain r where r: "vram_owner s r = Some i" "holds_data (vram_bytes s r) (data i)"
        and iv: "in_vram s i = None" "in_ram s i \<noteq> None"
        using m Copied by auto
      have os: "owned_slot (vram_owner s) (ar_slots (rc_vram cfg)) i = Some r"
        by (rule owned_slot_eq [OF ok(2) [unfolded vram_ok_def] r(1)])
      have "in_vram ?s = (in_vram s)(i := Some r)" "in_ram ?s = in_ram s"
        using os by (simp_all add: adopt_def Let_def assms(4) Copied)
      then show ?thesis
        using table_adopt [OF ok(2) [unfolded vram_ok_def] r(1) iv(1) r(2)]
          table_unbusy [OF ok(1) [unfolded ram_ok_def], of i] iv Copied fr
        by (auto simp: ram_ok_def vram_ok_def)
    qed
    have keep: "keeps s ?s k" if "k \<in> set (out_ids ?s)" for k
      using tables notin [OF that] fr(7,8) by (simp add: keeps_def)
    have "jobs_ok cfg data ?s"
    proof (rule jobs_change [OF ok(4)])
      show "j \<in> set (fjobs s) \<and> keeps s ?s (fj_id j) \<or> fjob_ok ?s j" if "j \<in> set (fjobs ?s)" for j
        using that keep fr(1) outs' by auto
      show "j \<in> set (cjobs s) \<and> keeps s ?s (cj_id j) \<or> cjob_ok cfg ?s j" if "j \<in> set (cjobs ?s)" for j
        using that keep fr(2) outs' by auto
      show "k \<in> set (done_ch s) \<and> keeps s ?s (msg_id k) \<and> keeps_bytes s ?s (msg_id k) \<or> msg_ok data ?s k"
        if "k \<in> set (done_ch ?s)" for k
        using that keep fr(3,9,10) outs' assms(3) by (auto simp: keeps_bytes_def)
      show "k \<in> set (lost s) \<and> keeps s ?s k \<or> cold ?s k" if "k \<in> set (lost ?s)" for k
        using that keep fr(4) outs' by auto
    qed
    then show ?thesis using tables bk fr by (simp add: core_inv_def)
  qed
  then show "core_inv cfg data ?s" "main ?s = main s" "tick ?s = tick s"
    "used ?s = used s" "done_ch ?s = ds" "lost ?s = lost s"
    "busy ?s = (busy s)(?i := False)" "busy s ?i"
    "\<And>k. k \<noteq> ?i \<or> in_ram s k \<noteq> None \<Longrightarrow> in_ram ?s k = in_ram s k"
    "\<And>k. k \<noteq> ?i \<or> in_vram s k \<noteq> None \<Longrightarrow> in_vram ?s k = in_vram s k"
    "in_ram s ?i = None \<Longrightarrow> in_ram ?s ?i \<noteq> None \<and> in_vram ?s ?i = in_vram s ?i"
    "vram_owner ?s = vram_owner s"
    using b(1) by blast+
qed

end
