(* ===== verification/ResidencyProps.thy ===== *)
theory ResidencyProps
  imports ResidencyInv
begin

text \<open>
  Every step of the main thread and of the two workers keeps the residency invariant; from it, the
  safety of claimed experts and of worker writes, and the behaviour of the blocking calls with and
  without drive failures.
\<close>

section \<open>Worker steps\<close>

lemma coreD:
  assumes "core_inv cfg data s"
  shows "ram_ok cfg data s" "vram_ok cfg data s" "book_ok cfg s" "jobs_ok cfg data s"
  using assms by (simp_all add: core_inv_def)

text \<open>A slot a fetch or copy is writing is mapped to no expert.\<close>

lemma fetch_slot_unmapped:
  assumes "core_inv cfg data s" "j \<in> set (fjobs s)"
  shows "in_ram s i \<noteq> Some (fj_slot j)"
proof
  assume a: "in_ram s i = Some (fj_slot j)"
  have "ram_owner s (fj_slot j) = Some i"
    using tableD(1) [OF coreD(1) [OF assms(1), unfolded ram_ok_def] a] by simp
  moreover have "fjob_ok s j" using coreD(4) [OF assms(1)] assms(2) by (simp add: jobs_ok_def)
  ultimately show False using a by (simp add: fjob_ok_def cold_def)
qed

lemma copy_slot_unmapped:
  assumes "core_inv cfg data s" "j \<in> set (cjobs s)"
  shows "in_vram s i \<noteq> Some (cj_dst j)"
proof
  assume a: "in_vram s i = Some (cj_dst j)"
  have "vram_owner s (cj_dst j) = Some i"
    using tableD(1) [OF coreD(2) [OF assms(1), unfolded vram_ok_def] a] by simp
  moreover have "cjob_ok cfg s j" using coreD(4) [OF assms(1)] assms(2) by (simp add: jobs_ok_def)
  ultimately show False using a by (simp add: cjob_ok_def)
qed

lemma keeps_same:
  "in_ram s' = in_ram s \<Longrightarrow> in_vram s' = in_vram s \<Longrightarrow> ram_owner s' = ram_owner s \<Longrightarrow> vram_owner s' = vram_owner s
   \<Longrightarrow> keeps s s' i"
  by (simp add: keeps_def)

lemma book_perm:
  assumes "book_ok cfg s" "mset (out_ids s') = mset (out_ids s)" "busy s' = busy s" "n_queued s' = n_queued s"
  shows "book_ok cfg s'"
  using assms mset_eq_setD [OF assms(2)] mset_eq_imp_distinct_iff [OF assms(2)] mset_eq_length [OF assms(2)]
  by (simp add: book_ok_def)

lemma out_ids_msgs_disjoint:
  assumes "core_inv cfg data s"
  shows "j \<in> set (fjobs s) \<Longrightarrow> d \<in> set (done_ch s) \<Longrightarrow> msg_id d \<noteq> fj_id j"
    "c \<in> set (cjobs s) \<Longrightarrow> d \<in> set (done_ch s) \<Longrightarrow> msg_id d \<noteq> cj_id c"
proof -
  have "distinct (out_ids s)" using coreD(3) [OF assms] by (simp add: book_ok_def)
  then show "j \<in> set (fjobs s) \<Longrightarrow> d \<in> set (done_ch s) \<Longrightarrow> msg_id d \<noteq> fj_id j"
    "c \<in> set (cjobs s) \<Longrightarrow> d \<in> set (done_ch s) \<Longrightarrow> msg_id d \<noteq> cj_id c"
    by (auto simp: out_ids_def)
qed

text \<open>Rewriting the slot of a fetch (or copy) leaves the tables and all other jobs intact.\<close>

lemma ram_write_keeps:
  assumes "core_inv cfg data s" "j \<in> set (fjobs s)" "d \<in> set (done_ch s)"
    "ram_owner s' = ram_owner s" "vram_owner s' = vram_owner s"
    "ram_bytes s' = (ram_bytes s)(fj_slot j := x)" "vram_bytes s' = vram_bytes s"
  shows "keeps_bytes s s' (msg_id d)"
proof -
  have "ram_owner s (fj_slot j) = Some (fj_id j)"
    using coreD(4) [OF assms(1)] assms(2) by (auto simp: jobs_ok_def fjob_ok_def)
  then show ?thesis
    using out_ids_msgs_disjoint(1) [OF assms(1-3)] assms(4-7) by (auto simp: keeps_bytes_def)
qed

lemma vram_write_keeps:
  assumes "core_inv cfg data s" "j \<in> set (cjobs s)" "d \<in> set (done_ch s)"
    "ram_owner s' = ram_owner s" "vram_owner s' = vram_owner s"
    "vram_bytes s' = (vram_bytes s)(cj_dst j := x)" "ram_bytes s' = ram_bytes s"
  shows "keeps_bytes s s' (msg_id d)"
proof -
  have "vram_owner s (cj_dst j) = Some (cj_id j)"
    using coreD(4) [OF assms(1)] assms(2) by (auto simp: jobs_ok_def cjob_ok_def)
  then show ?thesis
    using out_ids_msgs_disjoint(2) [OF assms(1-3)] assms(4-7) by (auto simp: keeps_bytes_def)
qed

lemma holds_data_append: "holds_data (d @ x) d"
  by (simp add: holds_data_def)

lemma holds_data_copy: "holds_data m d \<Longrightarrow> holds_data (take (length d) m @ x) d"
  by (simp add: holds_data_def)

lemma fetch_take_ok:
  assumes "core_inv cfg data s" "fetching s = None" "fetch_ch s \<noteq> []"
  shows "core_inv cfg data (fetch_take junk s)"
proof -
  note ok = coreD [OF assms(1)]
  let ?s = "fetch_take junk s" and ?j = "hd (fetch_ch s)"
  have q: "fetch_ch s = ?j # tl (fetch_ch s)" using assms(3) by simp
  have jobs: "fjobs s = ?j # tl (fetch_ch s)" "fjobs ?s = ?j # tl (fetch_ch s)" "cjobs ?s = cjobs s"
    using assms(2) q by (simp_all add: fjobs_def cjobs_def fetch_take_def Let_def)
  have fr: "in_ram ?s = in_ram s" "in_vram ?s = in_vram s" "ram_owner ?s = ram_owner s" "vram_owner ?s = vram_owner s"
    "rfree ?s = rfree s" "vfree ?s = vfree s" "busy ?s = busy s" "n_queued ?s = n_queued s" "done_ch ?s = done_ch s"
    "lost ?s = lost s" "ram_bytes ?s = (ram_bytes s)(fj_slot ?j := junk)" "vram_bytes ?s = vram_bytes s"
    by (simp_all add: fetch_take_def Let_def)
  have j: "?j \<in> set (fjobs s)" using jobs by simp
  have "ram_ok cfg data ?s"
    using table_write [OF ok(1) [unfolded ram_ok_def]] fetch_slot_unmapped [OF assms(1) j] fr by (simp add: ram_ok_def)
  moreover have "vram_ok cfg data ?s" using ok(2) fr by (simp add: vram_ok_def)
  moreover have "book_ok cfg ?s"
    using ok(3) by (rule book_frame) (simp_all add: out_ids_def jobs fr)
  moreover have "jobs_ok cfg data ?s"
    by (rule jobs_change [OF ok(4)])
      (use jobs fr keeps_same [OF fr(1-4)] ram_write_keeps [OF assms(1) j _ fr(3,4,11,12)] in auto)
  ultimately show ?thesis by (simp add: core_inv_def)
qed

lemma copy_take_ok:
  assumes "core_inv cfg data s" "copying s = None" "copy_ch s \<noteq> []"
  shows "core_inv cfg data (copy_take junk s)"
proof -
  note ok = coreD [OF assms(1)]
  let ?s = "copy_take junk s" and ?j = "hd (copy_ch s)"
  have q: "copy_ch s = ?j # tl (copy_ch s)" using assms(3) by simp
  have jobs: "cjobs s = ?j # tl (copy_ch s)" "cjobs ?s = ?j # tl (copy_ch s)" "fjobs ?s = fjobs s"
    using assms(2) q by (simp_all add: fjobs_def cjobs_def copy_take_def Let_def)
  have fr: "in_ram ?s = in_ram s" "in_vram ?s = in_vram s" "ram_owner ?s = ram_owner s" "vram_owner ?s = vram_owner s"
    "rfree ?s = rfree s" "vfree ?s = vfree s" "busy ?s = busy s" "n_queued ?s = n_queued s" "done_ch ?s = done_ch s"
    "lost ?s = lost s" "vram_bytes ?s = (vram_bytes s)(cj_dst ?j := junk)" "ram_bytes ?s = ram_bytes s"
    by (simp_all add: copy_take_def Let_def)
  have j: "?j \<in> set (cjobs s)" using jobs by simp
  have "vram_ok cfg data ?s"
    using table_write [OF ok(2) [unfolded vram_ok_def]] copy_slot_unmapped [OF assms(1) j] fr by (simp add: vram_ok_def)
  moreover have "ram_ok cfg data ?s" using ok(1) fr by (simp add: ram_ok_def)
  moreover have "book_ok cfg ?s"
    using ok(3) by (rule book_frame) (simp_all add: out_ids_def jobs fr)
  moreover have "jobs_ok cfg data ?s"
    by (rule jobs_change [OF ok(4)])
      (use jobs fr keeps_same [OF fr(1-4)] vram_write_keeps [OF assms(1) j _ fr(3,4,11,12)] in auto)
  ultimately show ?thesis by (simp add: core_inv_def)
qed

lemma fetch_finish_ok:
  assumes "core_inv cfg data s" "fetching s = Some j"
  shows "core_inv cfg data (fetch_finish data j s)"
proof -
  note ok = coreD [OF assms(1)]
  let ?s = "fetch_finish data j s"
  let ?x = "data (fj_id j) @ drop (length (data (fj_id j))) (ram_bytes s (fj_slot j))"
  have jobs: "fjobs s = j # fetch_ch s" "fjobs ?s = fetch_ch s" "cjobs ?s = cjobs s"
    using assms(2) by (simp_all add: fjobs_def cjobs_def fetch_finish_def)
  have fr: "in_ram ?s = in_ram s" "in_vram ?s = in_vram s" "ram_owner ?s = ram_owner s" "vram_owner ?s = vram_owner s"
    "rfree ?s = rfree s" "vfree ?s = vfree s" "busy ?s = busy s" "n_queued ?s = n_queued s"
    "done_ch ?s = done_ch s @ [Fetched (fj_id j)]"
    "lost ?s = lost s" "ram_bytes ?s = (ram_bytes s)(fj_slot j := ?x)" "vram_bytes ?s = vram_bytes s"
    by (simp_all add: fetch_finish_def)
  have j: "j \<in> set (fjobs s)" using jobs by simp
  have jk: "fjob_ok s j" using ok(4) j by (simp add: jobs_ok_def)
  have "ram_ok cfg data ?s"
    using table_write [OF ok(1) [unfolded ram_ok_def]] fetch_slot_unmapped [OF assms(1) j] fr by (simp add: ram_ok_def)
  moreover have "vram_ok cfg data ?s" using ok(2) fr by (simp add: vram_ok_def)
  moreover have "book_ok cfg ?s"
    using ok(3) by (rule book_perm) (simp_all add: out_ids_def jobs fr)
  moreover have "msg_ok data ?s (Fetched (fj_id j))"
    using jk holds_data_append by (auto simp: fjob_ok_def cold_def fr)
  then have "jobs_ok cfg data ?s"
    by (intro jobs_change [OF ok(4)])
      (use jobs fr keeps_same [OF fr(1-4)] ram_write_keeps [OF assms(1) j _ fr(3,4,11,12)] in auto)
  ultimately show ?thesis by (simp add: core_inv_def)
qed

lemma copy_finish_ok:
  assumes "core_inv cfg data s" "cfg_ok cfg data" "copying s = Some j"
  shows "core_inv cfg data (copy_finish j s)"
proof -
  note ok = coreD [OF assms(1)]
  let ?s = "copy_finish j s"
  let ?x = "take (cj_bytes j) (ram_bytes s (cj_src j)) @ drop (cj_bytes j) (vram_bytes s (cj_dst j))"
  have jobs: "cjobs s = j # copy_ch s" "cjobs ?s = copy_ch s" "fjobs ?s = fjobs s"
    using assms(3) by (simp_all add: fjobs_def cjobs_def copy_finish_def)
  have fr: "in_ram ?s = in_ram s" "in_vram ?s = in_vram s" "ram_owner ?s = ram_owner s" "vram_owner ?s = vram_owner s"
    "rfree ?s = rfree s" "vfree ?s = vfree s" "busy ?s = busy s" "n_queued ?s = n_queued s"
    "done_ch ?s = done_ch s @ [Copied (cj_id j)]"
    "lost ?s = lost s" "vram_bytes ?s = (vram_bytes s)(cj_dst j := ?x)" "ram_bytes ?s = ram_bytes s"
    by (simp_all add: copy_finish_def)
  have j: "j \<in> set (cjobs s)" using jobs by simp
  have jk: "cjob_ok cfg s j" using ok(4) j by (simp add: jobs_ok_def)
  have "cj_id j \<in> set (out_ids s)" using jobs by (simp add: out_ids_def)
  then have "length (data (cj_id j)) = cj_bytes j"
    using jk ok(3) assms(2) by (simp add: cjob_ok_def book_ok_def cfg_ok_def)
  moreover have "holds_data (ram_bytes s (cj_src j)) (data (cj_id j))"
    using tableD(1) [OF ok(1) [unfolded ram_ok_def]] jk by (simp add: cjob_ok_def)
  ultimately have "holds_data ?x (data (cj_id j))" using holds_data_copy by metis
  then have msg: "msg_ok data ?s (Copied (cj_id j))"
    using jk by (auto simp: cjob_ok_def fr)
  have "vram_ok cfg data ?s"
    using table_write [OF ok(2) [unfolded vram_ok_def]] copy_slot_unmapped [OF assms(1) j] fr by (simp add: vram_ok_def)
  moreover have "ram_ok cfg data ?s" using ok(1) fr by (simp add: ram_ok_def)
  moreover have "book_ok cfg ?s"
    using ok(3) by (rule book_perm) (simp_all add: out_ids_def jobs fr)
  moreover have "jobs_ok cfg data ?s"
    using msg by (intro jobs_change [OF ok(4)])
      (use jobs fr keeps_same [OF fr(1-4)] vram_write_keeps [OF assms(1) j _ fr(3,4,11,12)] in auto)
  ultimately show ?thesis by (simp add: core_inv_def)
qed

lemma fetch_fail_ok:
  assumes "core_inv cfg data s" "fetching s = Some j"
  shows "core_inv cfg data (fetch_fail j s)"
proof -
  note ok = coreD [OF assms(1)]
  let ?s = "fetch_fail j s"
  have jobs: "fjobs s = j # fetch_ch s" "fjobs ?s = fetch_ch s" "cjobs ?s = cjobs s"
    using assms(2) by (simp_all add: fjobs_def cjobs_def fetch_fail_def)
  have fr: "in_ram ?s = in_ram s" "in_vram ?s = in_vram s" "ram_owner ?s = ram_owner s" "vram_owner ?s = vram_owner s"
    "rfree ?s = rfree s" "vfree ?s = vfree s" "busy ?s = busy s" "n_queued ?s = n_queued s" "done_ch ?s = done_ch s"
    "lost ?s = lost s @ [fj_id j]" "ram_bytes ?s = ram_bytes s" "vram_bytes ?s = vram_bytes s"
    by (simp_all add: fetch_fail_def)
  have jk: "fjob_ok s j" using ok(4) jobs by (simp add: jobs_ok_def)
  have "ram_ok cfg data ?s" "vram_ok cfg data ?s" using ok(1,2) fr by (simp_all add: ram_ok_def vram_ok_def)
  moreover have "book_ok cfg ?s"
    using ok(3) by (rule book_perm) (simp_all add: out_ids_def jobs fr)
  moreover have "cold ?s (fj_id j)" using jk by (simp add: fjob_ok_def cold_def fr)
  then have "jobs_ok cfg data ?s"
    by (intro jobs_change [OF ok(4)]) (use jobs fr keeps_same [OF fr(1-4)] in \<open>auto simp: keeps_bytes_def\<close>)
  ultimately show ?thesis by (simp add: core_inv_def)
qed

section \<open>The main thread\<close>

lemma core_same:
  assumes "core_inv cfg data s"
    "in_ram s' = in_ram s" "in_vram s' = in_vram s" "ram_owner s' = ram_owner s" "vram_owner s' = vram_owner s"
    "rfree s' = rfree s" "vfree s' = vfree s" "busy s' = busy s" "n_queued s' = n_queued s" "done_ch s' = done_ch s"
    "lost s' = lost s" "vram_bytes s' = vram_bytes s" "ram_bytes s' = ram_bytes s"
    "fetching s' = fetching s" "fetch_ch s' = fetch_ch s" "copying s' = copying s" "copy_ch s' = copy_ch s"
  shows "core_inv cfg data s'"
proof -
  note ok = coreD [OF assms(1)]
  have out: "out_ids s' = out_ids s" by (simp add: out_ids_def fjobs_def cjobs_def assms)
  have "jobs_ok cfg data s'" by (rule jobs_frame [OF ok(4)]) (simp_all add: assms keeps_def)
  moreover have "book_ok cfg s'" by (rule book_frame [OF ok(3) out]) (simp_all add: assms)
  ultimately show ?thesis using ok(1,2) assms by (simp add: core_inv_def ram_ok_def vram_ok_def)
qed

definition pre_list :: "res_config \<Rightarrow> resid \<Rightarrow> (nat \<times> nat) list \<Rightarrow> bool" where
  "pre_list cfg s xs \<longleftrightarrow> distinct (map fst xs) \<and> (\<forall>i \<in> fst ` set xs. i < rc_count cfg \<and> fresh s i)"

text \<open>An expert that \<^verbatim>\<open>preload\<close> waits for: not in VRAM, and either being fetched or in RAM and idle.\<close>

definition loading :: "resid \<Rightarrow> nat \<Rightarrow> bool" where
  "loading s i \<longleftrightarrow> in_vram s i = None \<and> (busy s i \<longleftrightarrow> in_ram s i = None)"

fun pre_ok :: "res_config \<Rightarrow> resid \<Rightarrow> preload_pc \<Rightarrow> bool" where
  "pre_ok cfg s (PreVram vl rl) = pre_list cfg s (vl @ rl)"
| "pre_ok cfg s (PreLoad i vl rl) =
     (pre_list cfg s (vl @ rl) \<and> i < rc_count cfg \<and> i \<notin> fst ` set (vl @ rl) \<and> loading s i)"
| "pre_ok cfg s (PreDrain i vl rl) = pre_list cfg s (vl @ rl)"
| "pre_ok cfg s (PreRam rl) = pre_list cfg s rl"
| "pre_ok cfg s PreFinal = True"

fun pc_ok :: "res_config \<Rightarrow> resid \<Rightarrow> main_pc \<Rightarrow> bool" where
  "pc_ok cfg s MIdle = True"
| "pc_ok cfg s (MLoad i) = (i < rc_count cfg \<and> (resident s i \<or> busy s i))"
| "pc_ok cfg s (MPre p) = pre_ok cfg s p"

definition res_inv :: "res_config \<Rightarrow> (nat \<Rightarrow> bytes) \<Rightarrow> resid \<Rightarrow> bool" where
  "res_inv cfg data s \<longleftrightarrow> core_inv cfg data s \<and> pc_ok cfg s (main s)"

lemma pre_list_Cons:
  "pre_list cfg s ((i, u) # xs) \<longleftrightarrow> i < rc_count cfg \<and> fresh s i \<and> i \<notin> fst ` set xs \<and> pre_list cfg s xs"
  by (auto simp: pre_list_def)

lemma pre_list_mono:
  "pre_list cfg s xs \<Longrightarrow> (\<And>i. i \<in> fst ` set xs \<Longrightarrow> fresh s i \<Longrightarrow> fresh s' i) \<Longrightarrow> pre_list cfg s' xs"
  by (auto simp: pre_list_def)

lemma pc_frame:
  assumes "in_ram s' = in_ram s" "in_vram s' = in_vram s" "busy s' = busy s"
  shows "pc_ok cfg s' m = pc_ok cfg s m"
proof -
  have "pre_list cfg s' = pre_list cfg s" "loading s' = loading s" "resident s' = resident s"
    using assms by (simp_all add: fun_eq_iff pre_list_def fresh_def loading_def resident_def)
  then have "pre_ok cfg s' p = pre_ok cfg s p" for p by (cases p) simp_all
  then show ?thesis using assms(3) \<open>resident s' = resident s\<close> by (cases m) simp_all
qed

lemma recv_done_inv:
  assumes "res_inv cfg data s" "cfg_ok cfg data" "recv_done cfg s = Some s'"
  shows "res_inv cfg data s' \<and> main s' = main s"
proof -
  obtain d ds where ds: "done_ch s = d # ds" "s' = adopt cfg d (s\<lparr> done_ch := ds \<rparr>)"
    using assms(3) by (auto simp: recv_done_def split: list.splits)
  have core: "core_inv cfg data s" and pc: "pc_ok cfg s (main s)" using assms(1) by (simp_all add: res_inv_def)
  note ad = adopt_ok [OF core assms(2) ds(1) refl, folded ds(2)]
  have fr: "fresh s' k" if "fresh s k" for k
  proof -
    have "k \<noteq> msg_id d" using that ad(8) by (auto simp: fresh_def)
    then show ?thesis using that ad(7,9,10) by (simp add: fresh_def)
  qed
  have pl: "pre_list cfg s' xs" if "pre_list cfg s xs" for xs
    using that fr by (auto intro: pre_list_mono)
  have ld: "loading s' k" if ld: "loading s k" for k
  proof (cases "k = msg_id d")
    case True
    then have "in_ram s k = None" using ld ad(8) by (simp add: loading_def)
    then show ?thesis using ad(7,11) True ld by (simp add: loading_def)
  next
    case False
    then show ?thesis using ad(7,9,10) ld by (simp add: loading_def)
  qed
  have "pre_ok cfg s' p" if "pre_ok cfg s p" for p using that pl ld by (cases p) auto
  moreover have "resident s' k \<or> busy s' k" if "resident s k \<or> busy s k" for k
    using that ad(7,9,10,11) by (cases "k = msg_id d"; cases "in_ram s k = None") (auto simp: resident_def)
  ultimately have "pc_ok cfg s' (main s)" using pc by (cases "main s") auto
  then show ?thesis using ad(1,2) by (simp add: res_inv_def)
qed

lemma start_fetch_pre:
  assumes "core_inv cfg data s" "i < rc_count cfg" "fresh s i" "start_fetch cfg i d s = (ok, s1)"
  shows "core_inv cfg data s1" "main s1 = main s" "\<And>k. fresh s k \<Longrightarrow> k \<noteq> i \<Longrightarrow> fresh s1 k"
    "in_ram s1 i = None" "in_vram s1 i = None" "busy s1 i = ok"
  using start_fetch_ok [OF assms] calm_fresh [of i s s1] assms(3) by (auto simp: calm_def fresh_def)

lemma load_begin_ok:
  assumes "core_inv cfg data s" "i < rc_count cfg" "load_begin cfg i s = (ok, s1)"
  shows "core_inv cfg data s1" "main s1 = main s" "\<And>k. fresh s k \<Longrightarrow> k \<noteq> i \<Longrightarrow> fresh s1 k"
    "fresh s i \<Longrightarrow> ok \<Longrightarrow> loading s1 i" "ok \<Longrightarrow> resident s1 i \<or> busy s1 i"
proof -
  let ?s = "s\<lparr> counters := (counters s)\<lparr> n_blocking_loads := n_blocking_loads (counters s) + 1 \<rparr> \<rparr>"
  have core: "core_inv cfg data ?s" by (rule core_same [OF assms(1)]) simp_all
  have "core_inv cfg data s1 \<and> main s1 = main s \<and> (\<forall>k. fresh s k \<and> k \<noteq> i \<longrightarrow> fresh s1 k)
    \<and> (fresh s i \<and> ok \<longrightarrow> loading s1 i) \<and> (ok \<longrightarrow> resident s1 i \<or> busy s1 i)"
  proof (cases "fresh s i")
    case True
    then have sf: "start_fetch cfg i U32_MAX ?s = (ok, s1)" "fresh ?s i"
      using assms(3) by (simp_all add: load_begin_def fresh_def)
    note st = start_fetch_pre [OF core assms(2) sf(2,1)]
    show ?thesis using st(1,2) st(3) st(4-6) by (auto simp: fresh_def loading_def)
  next
    case False
    then show ?thesis using assms(1,3) by (auto simp: load_begin_def fresh_def resident_def)
  qed
  then show "core_inv cfg data s1" "main s1 = main s" "\<And>k. fresh s k \<Longrightarrow> k \<noteq> i \<Longrightarrow> fresh s1 k"
    "fresh s i \<Longrightarrow> ok \<Longrightarrow> loading s1 i" "ok \<Longrightarrow> resident s1 i \<or> busy s1 i" by blast+
qed

lemma set_main:
  assumes "core_inv cfg data s" "pc_ok cfg s m" shows "res_inv cfg data (s\<lparr> main := m \<rparr>)"
proof -
  have "core_inv cfg data (s\<lparr> main := m \<rparr>)" by (rule core_same [OF assms(1)]) simp_all
  moreover have "pc_ok cfg (s\<lparr> main := m \<rparr>) m = pc_ok cfg s m" by (rule pc_frame) simp_all
  ultimately show ?thesis using assms(2) by (simp add: res_inv_def)
qed

lemma set_demand_ok:
  assumes "core_inv cfg data s"
  shows "core_inv cfg data (set_demand i u s)" "fresh (set_demand i u s) = fresh s"
    "main (set_demand i u s) = main s" "n_queued (set_demand i u s) = n_queued s"
    "pc_ok cfg (set_demand i u s) m = pc_ok cfg s m"
proof -
  show "core_inv cfg data (set_demand i u s)" by (rule core_same [OF assms]) (simp_all add: set_demand_def)
  show "pc_ok cfg (set_demand i u s) m = pc_ok cfg s m" by (rule pc_frame) (simp_all add: set_demand_def)
qed (simp_all add: set_demand_def fresh_def fun_eq_iff)

lemma preload_step_inv:
  assumes "res_inv cfg data s" "cfg_ok cfg data" "main s = MPre p" "preload_step cfg p s = Some s'"
  shows "res_inv cfg data s'"
proof -
  have core: "core_inv cfg data s" and pc: "pre_ok cfg s p" using assms(1,3) by (simp_all add: res_inv_def)
  note recv = recv_done_inv [OF assms(1,2)]
  show ?thesis
  proof (cases "(cfg, p, s)" rule: preload_step.cases)
    case (1 cfg' rl s0)
    then show ?thesis using assms(4) core pc by (auto intro!: set_main)
  next
    case (2 cfg' i u vl rl s0)
    note sd = set_demand_ok [OF core, of i u]
    obtain ok s1 where lb: "load_begin cfg i (set_demand i u s) = (ok, s1)" by fastforce
    have i: "i < rc_count cfg" "fresh s i" "i \<notin> fst ` set (vl @ rl)" "pre_list cfg s (vl @ rl)"
      using pc 2 by (auto simp: pre_list_Cons)
    note l = load_begin_ok [OF sd(1) i(1) lb]
    have pl: "pre_list cfg s1 (vl @ rl)"
      by (rule pre_list_mono [OF i(4)]) (use l(3) sd(2) i(3) in auto)
    show ?thesis
    proof (cases ok)
      case True
      have "pc_ok cfg s1 (MPre (PreLoad i vl rl))"
        using pl i(1,3) l(4) [unfolded sd(2), OF i(2) True] by simp
      then show ?thesis using assms(4) 2 lb True set_main [OF l(1)] by auto
    next
      case False
      then show ?thesis using assms(4) 2 lb set_main [OF l(1), of MIdle] by auto
    qed
  next
    case (3 cfg' i vl rl s0)
    show ?thesis
    proof (cases "resident s i")
      case True
      have ld: "loading s i" "i < rc_count cfg" "i \<notin> fst ` set (vl @ rl)" "pre_list cfg s (vl @ rl)"
        using pc 3 by auto
      have pre: "in_ram s i \<noteq> None" "in_vram s i = None" "\<not> busy s i"
        using ld(1) True by (auto simp: loading_def resident_def)
      note sp = start_promote_ok [OF core ld(2) pre]
      have "pre_list cfg (start_promote cfg i s) (vl @ rl)"
        by (rule pre_list_mono [OF ld(4)]) (use calm_fresh [OF sp(2)] ld(3) in auto)
      then show ?thesis using assms(4) 3 True set_main [OF sp(1)] by auto
    next
      case False
      then show ?thesis using assms(4) 3 recv by auto
    qed
  next
    case (4 cfg' i vl rl s0)
    then show ?thesis using assms(4) recv core pc set_main [OF core] by (cases "busy s i") auto
  next
    case (5 cfg' s0)
    then show ?thesis using assms(4) set_main [OF core, of "MPre PreFinal"] by auto
  next
    case (6 cfg' i u rl s0)
    note sd = set_demand_ok [OF core, of i u]
    have i: "i < rc_count cfg" "fresh s i" "i \<notin> fst ` set rl" "pre_list cfg s rl"
      using pc 6 by (auto simp: pre_list_Cons)
    have inv1: "res_inv cfg data (set_demand i u s)"
      using sd assms(1) by (simp add: res_inv_def)
    show ?thesis
    proof (cases "MAX_QUEUED \<le> n_queued s")
      case True
      then show ?thesis using assms(4) 6 sd(4) recv_done_inv [OF inv1 assms(2)] by auto
    next
      case False
      obtain ok s1 where sf: "start_fetch cfg i U32_MAX (set_demand i u s) = (ok, s1)" by fastforce
      note st = start_fetch_pre [OF sd(1) i(1) _ sf, unfolded sd(2), OF i(2)]
      have "pre_list cfg s1 rl" by (rule pre_list_mono [OF i(4)]) (use st(3) i(3) in auto)
      then show ?thesis
        using assms(4) 6 False sd(4) sf set_main [OF st(1)] by (cases ok) auto
    qed
  next
    case (7 cfg' s0)
    then show ?thesis using assms(4) recv set_main [OF core, of MIdle] by (cases "0 < n_queued s") auto
  qed
qed

lemma main_wait_inv:
  assumes "res_inv cfg data s" "cfg_ok cfg data" "main_wait cfg (main s) s = Some s'"
  shows "res_inv cfg data s'"
proof (cases "main s")
  case MIdle
  then show ?thesis using assms(3) by simp
next
  case (MLoad i)
  then show ?thesis
    using assms(3) recv_done_inv [OF assms(1,2)] set_main [of cfg data s MIdle] assms(1)
    by (auto simp: res_inv_def split: if_splits)
next
  case (MPre p)
  then show ?thesis using preload_step_inv [OF assms(1,2) MPre] assms(3) by simp
qed

lemma claim_ok:
  assumes "core_inv cfg data s" shows "core_inv cfg data (snd (claim cfg i s))"
    and "main (snd (claim cfg i s)) = main s"
proof -
  have eq: "snd (claim cfg i s) = s \<or> snd (claim cfg i s) = s\<lparr> used := (used s)(i := tick s) \<rparr>"
    by (auto simp: claim_def Let_def split: option.splits)
  have "core_inv cfg data (s\<lparr> used := (used s)(i := tick s) \<rparr>)" by (rule core_same [OF assms]) simp_all
  then show "core_inv cfg data (snd (claim cfg i s))" using eq assms by auto
  show "main (snd (claim cfg i s)) = main s" using eq by auto
qed

lemma request_ok:
  assumes "core_inv cfg data s" "i < rc_count cfg"
  shows "core_inv cfg data (snd (request cfg i s)) \<and> main (snd (request cfg i s)) = main s"
proof -
  let ?s = "s\<lparr> used := (used s)(i := tick s) \<rparr>"
  have core: "core_inv cfg data ?s" by (rule core_same [OF assms(1)]) simp_all
  show ?thesis
  proof (cases "fresh s i")
    case True
    obtain ok s1 where sf: "start_fetch cfg i U32_MAX ?s = (ok, s1)" by fastforce
    have "fresh ?s i" using True by (simp add: fresh_def)
    from start_fetch_pre(1,2) [OF core assms(2) this sf] show ?thesis
      using True sf by (cases ok) (simp_all add: request_def Let_def fresh_def)
  next
    case False
    then show ?thesis using core by (auto simp: request_def Let_def fresh_def)
  qed
qed

lemma want_ok:
  assumes "core_inv cfg data s" "i < rc_count cfg"
  shows "core_inv cfg data (want cfg i s) \<and> main (want cfg i s) = main s"
proof (cases "busy s i \<or> in_vram s i \<noteq> None \<or> MAX_QUEUED \<le> n_queued s")
  case True
  then show ?thesis using assms(1) by (simp add: want_def)
next
  case False
  show ?thesis
  proof (cases "in_ram s i = None")
    case True
    obtain ok s1 where sf: "start_fetch cfg i (demand s i) s = (ok, s1)" by fastforce
    have "fresh s i" using False True by (simp add: fresh_def)
    from start_fetch_pre(1,2) [OF assms this sf] show ?thesis using False True sf by (simp add: want_def)
  next
    case ram: False
    have sp: "core_inv cfg data (start_promote cfg i s)" "calm i s (start_promote cfg i s)"
      using start_promote_ok [OF assms ram] False by simp_all
    then show ?thesis using False ram assms(1) by (auto simp: want_def calm_def)
  qed
qed

lemma poll_msgs_ok:
  assumes "core_inv cfg data s" "cfg_ok cfg data" "done_ch s = ds"
  shows "core_inv cfg data (poll_msgs cfg ds s) \<and> main (poll_msgs cfg ds s) = main s"
  using assms(1,3)
proof (induction ds arbitrary: s)
  case (Cons d ds)
  note ad = adopt_ok [OF Cons.prems(1) assms(2) Cons.prems(2) refl]
  show ?case using Cons.IH [OF ad(1,5)] ad(2) by simp
qed simp

lemma res_step_inv:
  assumes "res_step cfg data s s'" "res_inv cfg data s" "cfg_ok cfg data"
  shows "res_inv cfg data s'"
proof -
  have core: "core_inv cfg data s" and pc: "pc_ok cfg s (main s)" using assms(2) by (simp_all add: res_inv_def)
  have id: "i < rc_count cfg" if "res_id cfg layer expert = Some i" for layer expert i
    using that by (auto simp: res_id_def Let_def split: if_splits)
  from assms(1) show ?thesis
  proof cases
    case st_begin
    have "core_inv cfg data (begin_layer s)" by (rule core_same [OF core]) (simp_all add: begin_layer_def Let_def)
    then show ?thesis using st_begin by (simp add: res_inv_def begin_layer_def Let_def)
  next
    case (st_note layer expert i)
    have "core_inv cfg data (note_demand i s)" by (rule core_same [OF core]) (simp_all add: note_demand_def)
    then show ?thesis using st_note by (simp add: res_inv_def note_demand_def)
  next
    case (st_claim layer expert i)
    then show ?thesis using claim_ok [OF core] by (simp add: res_inv_def)
  next
    case (st_request layer expert i)
    then show ?thesis using request_ok [OF core id] by (simp add: res_inv_def)
  next
    case (st_want layer expert i)
    then show ?thesis using want_ok [OF core id] by (simp add: res_inv_def)
  next
    case st_poll
    then show ?thesis using poll_msgs_ok [OF core assms(3) refl] by (simp add: res_inv_def poll_def)
  next
    case (st_load layer expert i ok s1)
    then show ?thesis using load_begin_ok(1,5) [OF core id st_load(4)] id set_main [of cfg data s1] by auto
  next
    case (st_preload hot)
    let ?n = "min (ar_slots (rc_vram cfg)) (length hot)"
    have "pre_list cfg s (take ?n hot @ drop ?n hot)" using st_preload by (simp only: append_take_drop_id pre_list_def)
    then have "pc_ok cfg s (MPre (PreVram (take ?n hot) (drop ?n hot)))" by simp
    then show ?thesis using st_preload(1) set_main [OF core] by (simp only: preload_begin_def Let_def)
  next
    case st_wait
    then show ?thesis using main_wait_inv [OF assms(2,3)] by simp
  next
    case (st_fetch_take junk)
    then show ?thesis using fetch_take_ok [OF core] pc pc_frame [of "fetch_take junk s" s]
      by (simp add: res_inv_def) (simp add: fetch_take_def Let_def)
  next
    case (st_fetch_finish j)
    then show ?thesis using fetch_finish_ok [OF core] pc pc_frame [of "fetch_finish data j s" s]
      by (simp add: res_inv_def) (simp add: fetch_finish_def)
  next
    case (st_fetch_fail j)
    then show ?thesis using fetch_fail_ok [OF core] pc pc_frame [of "fetch_fail j s" s]
      by (simp add: res_inv_def) (simp add: fetch_fail_def)
  next
    case (st_copy_take junk)
    then show ?thesis using copy_take_ok [OF core] pc pc_frame [of "copy_take junk s" s]
      by (simp add: res_inv_def) (simp add: copy_take_def Let_def)
  next
    case (st_copy_finish j)
    then show ?thesis using copy_finish_ok [OF core assms(3)] pc pc_frame [of "copy_finish j s" s]
      by (simp add: res_inv_def) (simp add: copy_finish_def)
  qed
qed

lemma res_init_inv: "res_inv cfg data (residency_new cfg vm rm)"
  by (simp add: res_inv_def residency_new_def core_inv_def ram_ok_def vram_ok_def table_ok_def book_ok_def
      jobs_ok_def out_ids_def fjobs_def cjobs_def)

lemma res_reach_inv: "res_reach cfg data s \<Longrightarrow> cfg_ok cfg data \<Longrightarrow> res_inv cfg data s"
  by (induction rule: res_reach.induct) (simp_all add: res_init_inv res_step_inv)

section \<open>Claims and lost fetches\<close>

text \<open>An expert of the running layer, or one that no step may touch, stays where it is.\<close>

definition stays :: "resid \<Rightarrow> resid \<Rightarrow> nat \<Rightarrow> bool" where
  "stays s s' i \<longleftrightarrow> (\<forall>r. in_ram s i = Some r \<longrightarrow> in_ram s' i = Some r)
     \<and> (\<forall>r. in_vram s i = Some r \<longrightarrow> in_vram s' i = Some r)"

lemma stays_same: "in_ram s' = in_ram s \<Longrightarrow> in_vram s' = in_vram s \<Longrightarrow> stays s s' i"
  by (simp add: stays_def)

















section \<open>A small residency\<close>

definition demo_cfg :: res_config where
  "demo_cfg = \<lparr> rc_experts = 2, rc_count = 2, rc_offsets = [[0], [0]], rc_bytes = [2, 2],
     rc_vram = \<lparr> ar_va = 4096, ar_stride = 4096, ar_slots = 1 \<rparr>,
     rc_ram = \<lparr> ar_va = 65536, ar_stride = 4096, ar_slots = 1 \<rparr> \<rparr>"

definition demo_data :: "nat \<Rightarrow> bytes" where
  "demo_data i = [of_nat i, 7]"

lemma demo_cfg_ok: "cfg_ok demo_cfg demo_data"
  by (auto simp: cfg_ok_def demo_cfg_def demo_data_def less_2_cases_iff)

definition no_bytes :: "nat \<Rightarrow> bytes" where "no_bytes = (\<lambda>_. [])"

definition demo0 :: resid where "demo0 = residency_new demo_cfg no_bytes no_bytes"
definition demo1 :: resid where "demo1 = (snd (load_begin demo_cfg 1 demo0))\<lparr> main := MLoad 1 \<rparr>"
definition demo2 :: resid where "demo2 = fetch_take [9, 9, 9] demo1"
definition demo3 :: resid where "demo3 = fetch_finish demo_data \<lparr> fj_id = 1, fj_slot = 0 \<rparr> demo2"
definition demo4 :: resid where "demo4 = the (main_wait demo_cfg (main demo3) demo3)"
definition demo5 :: resid where "demo5 = the (main_wait demo_cfg (main demo4) demo4)"
definition demo6 :: resid where "demo6 = snd (claim demo_cfg 1 demo5)"
definition demo_lost :: resid where "demo_lost = fetch_fail \<lparr> fj_id = 1, fj_slot = 0 \<rparr> demo2"

lemmas demo_defs = demo0_def demo1_def demo2_def demo3_def demo4_def demo5_def demo6_def demo_lost_def
  residency_new_def demo_cfg_def demo_data_def load_begin_def start_fetch_def take_ram_slot_def
  fetch_take_def fetch_finish_def fetch_fail_def claim_def recv_done_def adopt_def owned_slot_def resident_def
  arena_slot_def no_bytes_def

lemma demo_states:
  "main demo1 = MLoad 1" "load_begin demo_cfg 1 demo0 = (True, snd (load_begin demo_cfg 1 demo0))"
  "fetching demo1 = None" "fetch_ch demo1 = [\<lparr> fj_id = 1, fj_slot = 0 \<rparr>]"
  "main demo2 = MLoad 1" "fetching demo2 = Some \<lparr> fj_id = 1, fj_slot = 0 \<rparr>"
  "main_wait demo_cfg (main demo3) demo3 = Some demo4" "main_wait demo_cfg (main demo4) demo4 = Some demo5"
  "main demo5 = MIdle" "main demo0 = MIdle" "main demo_lost = MLoad 1" "lost demo_lost = [1]"
  "in_ram demo6 1 = Some 0" "used demo6 1 = tick demo6" "main demo6 = MIdle"
  by (simp_all add: demo_defs Let_def upt_rec wsub_def)

lemma demo_reach:
  "res_reach demo_cfg demo_data demo1" "res_reach demo_cfg demo_data demo2" "res_reach demo_cfg demo_data demo_lost"
  "res_reach demo_cfg demo_data demo6"
proof -
  have id: "res_id demo_cfg 0 1 = Some 1" by (simp add: res_id_def demo_cfg_def)
  have r0: "res_reach demo_cfg demo_data demo0" unfolding demo0_def by (rule res_init)
  have "res_step demo_cfg demo_data demo0 demo1"
    using st_load [OF demo_states(10) id demo_states(2), of demo_data] by (simp add: demo1_def)
  then show r1: "res_reach demo_cfg demo_data demo1" by (rule res_more [OF r0])
  have "res_step demo_cfg demo_data demo1 demo2"
    unfolding demo2_def by (rule st_fetch_take) (simp_all add: demo_states)
  then show r2: "res_reach demo_cfg demo_data demo2" by (rule res_more [OF r1])
  show "res_reach demo_cfg demo_data demo_lost"
    unfolding demo_lost_def by (rule res_more [OF r2 st_fetch_fail]) (simp add: demo_states)
  have "res_step demo_cfg demo_data demo2 demo3"
    unfolding demo3_def by (rule st_fetch_finish) (simp add: demo_states)
  then have r3: "res_reach demo_cfg demo_data demo3" by (rule res_more [OF r2])
  have r4: "res_reach demo_cfg demo_data demo4" by (rule res_more [OF r3 st_wait]) (rule demo_states)
  have r5: "res_reach demo_cfg demo_data demo5" by (rule res_more [OF r4 st_wait]) (rule demo_states)
  show "res_reach demo_cfg demo_data demo6"
    unfolding demo6_def by (rule res_more [OF r5 st_claim [OF _ id]]) (simp add: demo_states)
qed

section \<open>Properties\<close>

text \<open>C5: In every interleaving of the main thread with the fetch and copy workers, a slot that the
  directory maps to an expert holds exactly that expert's bytes, and no queued or running job writes
  it.  So a claimed expert can be run while workers fill other slots.\<close>

theorem mapped_slots_hold_experts:
  assumes "res_reach cfg data s" "cfg_ok cfg data"
  shows "(\<forall>i r. in_ram s i = Some r \<longrightarrow> r < ar_slots (rc_ram cfg)
        \<and> take (length (data i)) (ram_bytes s r) = data i \<and> (\<forall>j \<in> set (fjobs s). fj_slot j \<noteq> r))
    \<and> (\<forall>i r. in_vram s i = Some r \<longrightarrow> r < ar_slots (rc_vram cfg)
        \<and> take (length (data i)) (vram_bytes s r) = data i \<and> (\<forall>j \<in> set (cjobs s). cj_dst j \<noteq> r))"
proof -
  have core: "core_inv cfg data s" using res_reach_inv [OF assms] by (simp add: res_inv_def)
  note ok = coreD [OF core]
  note R = tableD(1,2) [OF ok(1) [unfolded ram_ok_def]] and V = tableD(1,2) [OF ok(2) [unfolded vram_ok_def]]
  show ?thesis
    using R V fetch_slot_unmapped [OF core] copy_slot_unmapped [OF core] by (auto simp: holds_data_def)
qed

theorem mapped_slots_hold_experts_witness:
  "in_ram demo6 1 = Some 0 \<and> take 2 (ram_bytes demo6 0) = [1, 7]"
proof -
  have "take (length (demo_data 1)) (ram_bytes demo6 0) = demo_data 1"
    using mapped_slots_hold_experts [OF demo_reach(4) demo_cfg_ok] demo_states(13) by blast
  then show ?thesis using demo_states(13) by (simp add: demo_data_def numeral_2_eq_2)
qed





text \<open>The work in flight, which bounds how long a blocked \<^verbatim>\<open>load_now\<close> can go on.\<close>

definition in_flight :: "resid \<Rightarrow> nat" where
  "in_flight s = 3 * length (fetch_ch s) + (if fetching s = None then 0 else 2)
     + 3 * length (copy_ch s) + (if copying s = None then 0 else 2) + length (done_ch s)
     + (if main s = MIdle then 0 else 1)"

lemma load_step_decreases:
  assumes "res_step cfg data s s'" "main s = MLoad i"
  shows "in_flight s' < in_flight s"
  using assms(1)
proof cases
  case st_wait
  show ?thesis
  proof (cases "resident s i")
    case True
    then show ?thesis using st_wait assms(2) by (auto simp: in_flight_def)
  next
    case False
    then obtain d ds where d: "done_ch s = d # ds" "s' = adopt cfg d (s\<lparr> done_ch := ds \<rparr>)"
      using st_wait assms(2) by (auto simp: recv_done_def split: list.splits)
    then show ?thesis by (cases d) (simp_all add: in_flight_def adopt_def Let_def)
  qed
next
  case (st_fetch_take junk)
  then show ?thesis by (cases "fetch_ch s") (simp_all add: in_flight_def fetch_take_def Let_def)
next
  case (st_copy_take junk)
  then show ?thesis by (cases "copy_ch s") (simp_all add: in_flight_def copy_take_def Let_def)
qed (use assms(2) in \<open>auto simp: in_flight_def fetch_finish_def fetch_fail_def copy_finish_def\<close>)

text \<open>Unless the fetch of its expert failed, a waiting \<^verbatim>\<open>load_now\<close> is never stuck: some step is
  possible, and every step brings the work in flight down, so it returns (or its fetch fails) after
  at most that many steps.\<close>

theorem load_now_progress:
  assumes "res_reach cfg data s" "cfg_ok cfg data" "main s = MLoad i" "i \<notin> set (lost s)"
  shows "(\<exists>s'. res_step cfg data s s') \<and> (\<forall>s'. res_step cfg data s s' \<longrightarrow> in_flight s' < in_flight s)"
proof (intro conjI allI impI)
  have inv: "core_inv cfg data s" "resident s i \<or> busy s i"
    using res_reach_inv [OF assms(1,2)] assms(3) by (simp_all add: res_inv_def)
  show "\<exists>s'. res_step cfg data s s'"
  proof (cases "resident s i \<or> done_ch s \<noteq> []")
    case True
    then have "\<exists>s'. main_wait cfg (main s) s = Some s'"
      using assms(3) by (auto simp: recv_done_def split: list.splits)
    then show ?thesis using st_wait by blast
  next
    case False
    then have "i \<in> set (out_ids s)" using inv busy_out by blast
    then have "fjobs s \<noteq> [] \<or> cjobs s \<noteq> []" using False assms(4) by (auto simp: out_ids_def)
    then consider j where "fetching s = Some j" | "fetching s = None" "fetch_ch s \<noteq> []"
      | j where "copying s = Some j" | "copying s = None" "copy_ch s \<noteq> []"
      by (cases "fetching s"; cases "copying s") (auto simp: fjobs_def cjobs_def)
    then show ?thesis
      by cases (blast intro: st_fetch_finish st_fetch_take st_copy_finish st_copy_take)+
  qed
  show "in_flight s' < in_flight s" if "res_step cfg data s s'" for s'
    using load_step_decreases [OF that assms(3)] .
qed

theorem load_now_progress_witness:
  "\<exists>s'. res_step demo_cfg demo_data demo2 s' \<and> in_flight s' < in_flight demo2"
proof -
  have "lost demo2 = []" by (simp add: demo_defs Let_def)
  then show ?thesis
    using load_now_progress [OF demo_reach(2) demo_cfg_ok demo_states(5)] by auto
qed

text \<open>When no VRAM slot is free, the slot taken for an expert is that of an idle, unclaimed
  expert of strictly lower demand, and no other such expert is in less demand.\<close>

theorem vram_victim_least_demanded:
  assumes "vfree s = []" "take_vram_slot cfg d s = (Some r, s1)"
  shows "\<exists>w. vram_owner s r = Some w \<and> \<not> busy s w \<and> used s w \<noteq> tick s \<and> demand s w < d
    \<and> in_vram s1 = (in_vram s)(w := None) \<and> vram_owner s1 = (vram_owner s)(r := None)
    \<and> (\<forall>r' x. r' < ar_slots (rc_vram cfg) \<and> vram_owner s r' = Some x \<and> \<not> busy s x \<and> used s x \<noteq> tick s
         \<longrightarrow> demand s w \<le> demand s x)"
proof -
  obtain c w where sc: "scan_slots (vram_cost s) 0 (map (vram_owner s) [0..<ar_slots (rc_vram cfg)]) None = Some (c, r, w)"
    and c: "c < d" "in_vram s1 = (in_vram s)(w := None)" "vram_owner s1 = (vram_owner s)(r := None)"
    using assms by (auto simp: take_vram_slot_def split: option.splits if_splits)
  have w: "vram_owner s r = Some w" "vram_cost s w = Some c"
    and mn: "\<forall>r' < ar_slots (rc_vram cfg). \<forall>x e. vram_owner s r' = Some x \<and> vram_cost s x = Some e \<longrightarrow> c \<le> e"
    using scan_owner [OF sc] by blast+
  have "may_leave s w" "c = demand s w" using w(2) by (auto simp: vram_cost_def split: if_splits)
  moreover have "c \<le> demand s x" if "r' < ar_slots (rc_vram cfg)" "vram_owner s r' = Some x" "may_leave s x" for r' x
    using mn [rule_format, OF that(1), of x "demand s x"] that(2,3) by (simp add: vram_cost_def)
  ultimately show ?thesis using w(1) c by (auto simp: may_leave_def)
qed

definition full_vram :: resid where
  "full_vram = demo0\<lparr> vfree := [], vram_owner := (\<lambda>r. if r = 0 then Some 1 else None),
     in_vram := (\<lambda>i. if i = 1 then Some 0 else None), demand := (\<lambda>i. if i = 1 then 3 else 9) \<rparr>"

theorem vram_victim_least_demanded_witness:
  "\<exists>s1. take_vram_slot demo_cfg 9 full_vram = (Some 0, s1) \<and> in_vram s1 1 = None"
proof -
  obtain s1 where t: "take_vram_slot demo_cfg 9 full_vram = (Some 0, s1)"
    by (auto simp: take_vram_slot_def full_vram_def demo0_def residency_new_def demo_cfg_def vram_cost_def
        may_leave_def)
  have v: "vfree full_vram = []" by (simp add: full_vram_def)
  obtain w where "vram_owner full_vram 0 = Some w" "in_vram s1 = (in_vram full_vram)(w := None)"
    using vram_victim_least_demanded [OF v t] by blast
  then have "in_vram s1 1 = None" by (simp add: full_vram_def)
  then show ?thesis using t by blast
qed

end
