(* ===== verification/EngramCache.thy ===== *)
theory EngramCache
  imports Plan
begin

text \<open>
  The 8-way set-associative row cache of the engram tables (\<^verbatim>\<open>chatty-metal/src/store.rs\<close>,
  \<^verbatim>\<open>EngramCache\<close>).  Tags and clocks are machine words as in the code.  The payload mapping is a list
  with one row per way, so the byte offset \<^verbatim>\<open>(set * 8 + way) * row_bytes\<close> is the index
  \<open>set * 8 + way\<close>, and the output slice is the list of its rows.  The drive is an argument:
  \<open>rd\<close> gives the bytes of an extent, and \<open>fault\<close> says for a batch of reads whether it fails and
  what the output slice then holds.
\<close>

section \<open>Data\<close>

definition ENGRAM_SKIP_ROW :: nat where "ENGRAM_SKIP_ROW = 2 ^ 64 - 1"
definition ENGRAM_WAYS :: nat where "ENGRAM_WAYS = 8"

record engram_stats =
  es_hits :: nat
  es_misses :: nat
  es_unique_misses :: nat
  es_evictions :: nat
  es_bytes_read :: nat

definition engram_stats_default :: engram_stats where
  "engram_stats_default =
     \<lparr> es_hits = 0, es_misses = 0, es_unique_misses = 0, es_evictions = 0, es_bytes_read = 0 \<rparr>"

record engram_cache =
  ec_tables :: "engram_table list"
  ec_weight_bytes :: nat
  ec_scale_bytes :: nat
  ec_row_bytes :: nat
  ec_num_sets :: nat
  ec_tags :: "u64 list"
  ec_clocks :: "u16 list"
  ec_payloads :: "bytes list"
  ec_stats :: engram_stats

section \<open>Construction\<close>

definition row_width :: "extent \<Rightarrow> nat \<Rightarrow> nat" where
  "row_width e rows = len e div rows"

text \<open>Dividing by a row count of zero panics.\<close>

fun check_widths :: "nat \<Rightarrow> nat \<Rightarrow> engram_table list \<Rightarrow> store_error + unit" where
  "check_widths w sc [] = Inr ()"
| "check_widths w sc (t # ts) =
     (if tbl_rows t = 0 then Inl (EPanic ''division by zero'')
      else if row_width (tbl_weight t) (tbl_rows t) \<noteq> w \<or> row_width (tbl_scale t) (tbl_rows t) \<noteq> sc
      then Inl (EInvalid ''engram tables have inconsistent row byte widths'')
      else check_widths w sc ts)"

definition engram_cache_new :: "catalog \<Rightarrow> plan \<Rightarrow> store_error + engram_cache" where
  "engram_cache_new c p =
     (case cat_engram c of
        [] \<Rightarrow> Inr \<lparr> ec_tables = [], ec_weight_bytes = 0, ec_scale_bytes = 0, ec_row_bytes = 0, ec_num_sets = 0,
                   ec_tags = [], ec_clocks = [], ec_payloads = [], ec_stats = engram_stats_default \<rparr>
      | first # rest \<Rightarrow>
          if tbl_rows first = 0 then Inl (EPanic ''division by zero'')
          else (let w = row_width (tbl_weight first) (tbl_rows first);
                    sc = row_width (tbl_scale first) (tbl_rows first) in
                and_then (check_widths w sc rest) (\<lambda>_.
                  let row = w + sc; per_set = ENGRAM_WAYS * 8 + 2 + ENGRAM_WAYS * row;
                      sets = pl_engram_ram p div per_set in
                  Inr \<lparr> ec_tables = first # rest, ec_weight_bytes = w, ec_scale_bytes = sc, ec_row_bytes = row,
                        ec_num_sets = sets, ec_tags = replicate (sets * ENGRAM_WAYS) 0,
                        ec_clocks = replicate sets 0,
                        ec_payloads = replicate (sets * ENGRAM_WAYS) (replicate row 0),
                        ec_stats = engram_stats_default \<rparr>)))"

section \<open>Sets, ways and the clock\<close>

definition make_engram_tag :: "nat \<Rightarrow> nat \<Rightarrow> u64" where
  "make_engram_tag table_index row = 1 + (push_bit 48 (of_nat table_index) OR of_nat row)"

definition mix64 :: "u64 \<Rightarrow> u64" where
  "mix64 x =
     (let x = x XOR drop_bit 30 x;
          x = x * 0xbf58476d1ce4e5b9;
          x = x XOR drop_bit 27 x;
          x = x * 0x94d049bb133111eb in
      x XOR drop_bit 31 x)"

definition set_index :: "engram_cache \<Rightarrow> u64 \<Rightarrow> nat" where
  "set_index c tag = (unat (mix64 tag) * ec_num_sets c) div 2 ^ 64"

definition way_index :: "nat \<Rightarrow> nat \<Rightarrow> nat" where
  "way_index s way = s * ENGRAM_WAYS + way"

definition mark_used :: "nat \<Rightarrow> nat \<Rightarrow> engram_cache \<Rightarrow> engram_cache" where
  "mark_used s way c = c\<lparr> ec_clocks := (ec_clocks c)[s := ec_clocks c ! s OR push_bit way 1] \<rparr>"

definition probe_hit :: "u64 \<Rightarrow> engram_cache \<Rightarrow> bytes option \<times> engram_cache" where
  "probe_hit tag c =
     (if ec_num_sets c = 0 then (None, c)
      else (let s = set_index c tag in
            case List.find (\<lambda>way. ec_tags c ! way_index s way = tag) [0..<ENGRAM_WAYS] of
              None \<Rightarrow> (None, c)
            | Some way \<Rightarrow> (Some (ec_payloads c ! way_index s way), mark_used s way c)))"

function clock_victim :: "u8 \<Rightarrow> nat \<Rightarrow> nat \<times> u8 \<times> nat" where
  "clock_victim in_use hand =
     (let b = push_bit hand 1 in
      if in_use AND b = 0 then (hand, in_use, (hand + 1) mod ENGRAM_WAYS)
      else clock_victim (in_use AND NOT b) ((hand + 1) mod ENGRAM_WAYS))"
  by pat_completeness auto
termination
proof (relation "measure (\<lambda>(in_use, hand). card {i. i < 8 \<and> bit in_use i})")
  fix in_use :: u8 and hand :: nat and b :: u8
  assume b: "b = push_bit hand 1" and set: "in_use AND b \<noteq> 0"
  have bits: "bit b i \<longleftrightarrow> i = hand \<and> i < 8" for i
    unfolding b by (auto simp: bit_simps)
  have "\<exists>i. bit (in_use AND b) i" using set by (metis bit_0_eq bit_eqI bot_apply bot_bool_def)
  then have "hand < 8 \<and> bit in_use hand" using bits by (auto simp: bit_and_iff)
  then have "{i. i < 8 \<and> bit (in_use AND NOT b) i} \<subset> {i. i < 8 \<and> bit in_use i}"
    using bits by (auto simp: bit_simps)
  then show "((in_use AND NOT b, (hand + 1) mod ENGRAM_WAYS), in_use, hand)
      \<in> measure (\<lambda>(in_use, hand). card {i. i < 8 \<and> bit in_use i})"
    by (simp add: psubset_card_mono)
qed simp

declare clock_victim.simps [simp del]

text \<open>Writing a row into a way; \<open>clock\<close> is the set's new clock word.\<close>

definition put_row :: "nat \<Rightarrow> nat \<Rightarrow> u64 \<Rightarrow> u16 \<Rightarrow> bytes \<Rightarrow> engram_cache \<Rightarrow> engram_cache" where
  "put_row s way tag clock row c =
     c\<lparr> ec_tags := (ec_tags c)[way_index s way := tag], ec_clocks := (ec_clocks c)[s := clock],
        ec_payloads := (ec_payloads c)[way_index s way := row] \<rparr>"

definition insert_row :: "u64 \<Rightarrow> bytes \<Rightarrow> engram_cache \<Rightarrow> bool \<times> engram_cache" where
  "insert_row tag row c =
     (let s = set_index c tag in
      case List.find (\<lambda>way. ec_tags c ! way_index s way = 0 \<or> ec_tags c ! way_index s way = tag)
             [0..<ENGRAM_WAYS] of
        Some way \<Rightarrow> (False, put_row s way tag (ec_clocks c ! s OR push_bit way 1) row c)
      | None \<Rightarrow>
          (let clock = ec_clocks c ! s;
               start = unat (drop_bit 8 clock) mod ENGRAM_WAYS in
           case clock_victim (ucast (clock AND 0xFF)) start of
             (victim, in_use, hand) \<Rightarrow>
               (True, put_row s victim tag
                  (ucast (in_use OR push_bit victim 1) OR push_bit 8 (of_nat hand)) row c)))"

section \<open>Looking up a batch\<close>

text \<open>The pass over the requested rows: skipped rows are zeroed, hits copied, and misses collected
  once per row with the positions that want it.  The cache is reached through \<open>probe\<close>.\<close>

record 'c row_scan =
  sc_cache :: 'c
  sc_out :: "bytes list"
  sc_hits :: nat
  sc_misses :: nat
  sc_wanted :: "nat \<rightharpoonup> nat \<times> nat list"
  sc_order :: "nat list"

definition note_miss :: "nat \<Rightarrow> nat \<Rightarrow> 'c row_scan \<Rightarrow> 'c row_scan" where
  "note_miss row i sc =
     (case sc_wanted sc row of
        Some (first, extras) \<Rightarrow> sc\<lparr> sc_wanted := (sc_wanted sc)(row \<mapsto> (first, extras @ [i])) \<rparr>
      | None \<Rightarrow> sc\<lparr> sc_wanted := (sc_wanted sc)(row \<mapsto> (i, [])), sc_order := sc_order sc @ [row] \<rparr>)"

fun scan_rows ::
  "(nat \<Rightarrow> 'c \<Rightarrow> bytes option \<times> 'c) \<Rightarrow> nat \<Rightarrow> nat \<Rightarrow> nat \<Rightarrow> nat list \<Rightarrow> 'c row_scan
   \<Rightarrow> (store_error + unit) \<times> 'c row_scan" where
  "scan_rows probe table_rows width i [] sc = (Inr (), sc)"
| "scan_rows probe table_rows width i (row # rows) sc =
     (if row = ENGRAM_SKIP_ROW
      then scan_rows probe table_rows width (Suc i) rows (sc\<lparr> sc_out := (sc_out sc)[i := replicate width 0] \<rparr>)
      else if table_rows \<le> row then (Inl (EInvalid ''engram row out of bounds''), sc)
      else (case probe row (sc_cache sc) of
              (Some r, c) \<Rightarrow>
                scan_rows probe table_rows width (Suc i) rows
                  (sc\<lparr> sc_cache := c, sc_out := (sc_out sc)[i := r], sc_hits := sc_hits sc + 1 \<rparr>)
            | (None, c) \<Rightarrow>
                scan_rows probe table_rows width (Suc i) rows
                  (note_miss row i (sc\<lparr> sc_cache := c, sc_misses := sc_misses sc + 1 \<rparr>))))"

text \<open>The batch read: weight then scale bytes of every missed row, into its first position.\<close>

definition first_of :: "(nat \<rightharpoonup> nat \<times> nat list) \<Rightarrow> nat \<Rightarrow> nat" where
  "first_of wanted row = fst (the (wanted row))"

definition extras_of :: "(nat \<rightharpoonup> nat \<times> nat list) \<Rightarrow> nat \<Rightarrow> nat list" where
  "extras_of wanted row = snd (the (wanted row))"

definition row_data :: "(extent \<Rightarrow> bytes) \<Rightarrow> engram_table \<Rightarrow> nat \<Rightarrow> bytes" where
  "row_data rd t row =
     (case table_row t row of Some (w, sc) \<Rightarrow> rd w @ rd sc | None \<Rightarrow> [])"

definition read_rows ::
  "(extent \<Rightarrow> bytes) \<Rightarrow> engram_table \<Rightarrow> (nat \<rightharpoonup> nat \<times> nat list) \<Rightarrow> nat list \<Rightarrow> bytes list \<Rightarrow> bytes list" where
  "read_rows rd t wanted order out = fold (\<lambda>row acc. acc[first_of wanted row := row_data rd t row]) order out"

text \<open>After the read: insert each row and fan it out to the other positions that asked for it.\<close>

fun fill_rows ::
  "(nat \<Rightarrow> bytes \<Rightarrow> 'c \<Rightarrow> bool \<times> 'c) \<Rightarrow> (nat \<rightharpoonup> nat \<times> nat list) \<Rightarrow> nat list \<Rightarrow> bytes list \<Rightarrow> 'c \<Rightarrow> nat
   \<Rightarrow> bytes list \<times> 'c \<times> nat" where
  "fill_rows ins wanted [] out c ev = (out, c, ev)"
| "fill_rows ins wanted (row # order) out c ev =
     (let data = out ! first_of wanted row in
      case ins row data c of
        (evicted, c') \<Rightarrow>
          fill_rows ins wanted order (fold (\<lambda>i acc. acc[i := data]) (extras_of wanted row) out) c'
            (if evicted then ev + 1 else ev))"

definition add_stats :: "engram_stats \<Rightarrow> engram_stats \<Rightarrow> engram_stats" where
  "add_stats a b =
     \<lparr> es_hits = es_hits a + es_hits b, es_misses = es_misses a + es_misses b,
       es_unique_misses = es_unique_misses a + es_unique_misses b,
       es_evictions = es_evictions a + es_evictions b, es_bytes_read = es_bytes_read a + es_bytes_read b \<rparr>"

definition probe_row :: "nat \<Rightarrow> nat \<Rightarrow> engram_cache \<Rightarrow> bytes option \<times> engram_cache" where
  "probe_row t row c = probe_hit (make_engram_tag t row) c"

definition cache_row :: "nat \<Rightarrow> nat \<Rightarrow> bytes \<Rightarrow> engram_cache \<Rightarrow> bool \<times> engram_cache" where
  "cache_row t row data c =
     (if ec_num_sets c = 0 then (False, c) else insert_row (make_engram_tag t row) data c)"

definition finish_batch ::
  "nat \<Rightarrow> nat \<Rightarrow> engram_cache row_scan \<Rightarrow> bytes list \<times> engram_cache \<times> nat
   \<Rightarrow> (store_error + engram_stats) \<times> bytes list \<times> engram_cache" where
  "finish_batch width t sc = (\<lambda>(out, c, ev).
     (let st = \<lparr> es_hits = sc_hits sc, es_misses = sc_misses sc, es_unique_misses = length (sc_order sc),
                 es_evictions = ev, es_bytes_read = length (sc_order sc) * width \<rparr> in
      (Inr st, out, c\<lparr> ec_stats := add_stats (ec_stats c) st \<rparr>)))"

definition lookup_missing ::
  "(extent \<Rightarrow> bytes) \<Rightarrow> (nat list \<Rightarrow> bytes list option) \<Rightarrow> nat \<Rightarrow> engram_table \<Rightarrow> nat \<Rightarrow> engram_cache row_scan
   \<Rightarrow> (store_error + engram_stats) \<times> bytes list \<times> engram_cache" where
  "lookup_missing rd fault t tbl width sc =
     (case fault (sc_order sc) of
        Some left \<Rightarrow> (Inl (EIo ''read''), left, sc_cache sc)
      | None \<Rightarrow>
          finish_batch width t sc
            (fill_rows (cache_row t) (sc_wanted sc) (sc_order sc)
               (read_rows rd tbl (sc_wanted sc) (sc_order sc) (sc_out sc)) (sc_cache sc) 0))"

definition lookup_batch ::
  "(extent \<Rightarrow> bytes) \<Rightarrow> (nat list \<Rightarrow> bytes list option) \<Rightarrow> nat \<Rightarrow> nat list \<Rightarrow> nat \<Rightarrow> bytes list \<Rightarrow> engram_cache
   \<Rightarrow> (store_error + engram_stats) \<times> bytes list \<times> engram_cache" where
  "lookup_batch rd fault t rows out_len out c =
     (if length (ec_tables c) \<le> t then (Inl (EInvalid ''engram table index''), out, c)
      else (case checked_mul 64 (length rows) (ec_row_bytes c) of
              None \<Rightarrow> (Inl (EInvalid ''engram output size overflow''), out, c)
            | Some expected \<Rightarrow>
                if out_len \<noteq> expected then (Inl (EInvalid ''engram output slice''), out, c)
                else (case scan_rows (probe_row t) (tbl_rows (ec_tables c ! t)) (ec_row_bytes c) 0 rows
                        \<lparr> sc_cache = c, sc_out = out, sc_hits = 0, sc_misses = 0, sc_wanted = Map.empty,
                          sc_order = [] \<rparr> of
                        (Inl e, sc) \<Rightarrow> (Inl e, sc_out sc, sc_cache sc)
                      | (Inr _, sc) \<Rightarrow>
                          if sc_order sc = [] then finish_batch (ec_row_bytes c) t sc (sc_out sc, sc_cache sc, 0)
                          else lookup_missing rd fault t (ec_tables c ! t) (ec_row_bytes c) sc)))"

end
