(* ===== verification/EngramProps.thy ===== *)
theory EngramProps
  imports EngramCache
begin

text \<open>
  The engram cache is transparent: a batch lookup returns the rows of the drive, whatever is cached.
  The locale \<open>row_cache\<close> is the contract the lookup relies on (a probe that hits returns the
  row's data, inserting a row's data keeps the cache sound); the lookup is proved correct once
  against it, and the 8-way cache is shown to meet it.
\<close>

section \<open>Bookkeeping of misses\<close>

definition wanted_ok :: "nat list \<Rightarrow> nat \<Rightarrow> nat \<Rightarrow> (nat \<rightharpoonup> nat \<times> nat list) \<Rightarrow> nat list \<Rightarrow> bool" where
  "wanted_ok rows tr i wanted order \<longleftrightarrow> distinct order \<and> set order = dom wanted
     \<and> (\<forall>row f ex. wanted row = Some (f, ex) \<longrightarrow> row \<noteq> ENGRAM_SKIP_ROW \<and> row < tr
          \<and> f < i \<and> rows ! f = row \<and> (\<forall>e \<in> set ex. e < i \<and> rows ! e = row))"

lemma wantedD:
  assumes "wanted_ok rows tr i wanted order" "row \<in> set order"
  obtains f ex where "wanted row = Some (f, ex)" "row \<noteq> ENGRAM_SKIP_ROW" "row < tr" "f < i" "rows ! f = row"
    "\<forall>e \<in> set ex. e < i \<and> rows ! e = row"
proof -
  obtain f ex where "wanted row = Some (f, ex)" using assms by (force simp: wanted_ok_def)
  then show thesis using that assms(1) unfolding wanted_ok_def by blast
qed

lemma wanted_Suc:
  assumes "wanted_ok rows tr i wanted order" shows "wanted_ok rows tr (Suc i) wanted order"
  unfolding wanted_ok_def
proof (intro conjI allI impI)
  fix row f ex assume "wanted row = Some (f, ex)"
  then have "row \<noteq> ENGRAM_SKIP_ROW \<and> row < tr \<and> f < i \<and> rows ! f = row \<and> (\<forall>e \<in> set ex. e < i \<and> rows ! e = row)"
    using assms unfolding wanted_ok_def by blast
  then show "row \<noteq> ENGRAM_SKIP_ROW" "row < tr" "f < Suc i" "rows ! f = row"
    "\<forall>e \<in> set ex. e < Suc i \<and> rows ! e = row" by auto
qed (use assms in \<open>simp_all add: wanted_ok_def\<close>)

definition is_wanted :: "(nat \<rightharpoonup> nat \<times> nat list) \<Rightarrow> nat list \<Rightarrow> nat \<Rightarrow> bool" where
  "is_wanted wanted rows k \<longleftrightarrow> (\<exists>f ex. wanted (rows ! k) = Some (f, ex) \<and> (k = f \<or> k \<in> set ex))"

lemma note_miss_fields [simp]:
  "sc_cache (note_miss row i sc) = sc_cache sc" "sc_out (note_miss row i sc) = sc_out sc"
  "sc_hits (note_miss row i sc) = sc_hits sc" "sc_misses (note_miss row i sc) = sc_misses sc"
  by (simp_all add: note_miss_def split: option.splits prod.splits)

lemma note_miss_ok:
  assumes "wanted_ok rows tr i (sc_wanted sc) (sc_order sc)" "rows ! i = row" "row \<noteq> ENGRAM_SKIP_ROW" "row < tr"
  shows "wanted_ok rows tr (Suc i) (sc_wanted (note_miss row i sc)) (sc_order (note_miss row i sc))"
    and "is_wanted (sc_wanted (note_miss row i sc)) rows i"
    and "is_wanted (sc_wanted sc) rows k \<Longrightarrow> is_wanted (sc_wanted (note_miss row i sc)) rows k"
proof -
  note W = wanted_Suc [OF assms(1)]
  show "wanted_ok rows tr (Suc i) (sc_wanted (note_miss row i sc)) (sc_order (note_miss row i sc))"
  proof (cases "sc_wanted sc row")
    case None
    then have "row \<notin> set (sc_order sc)" using assms(1) by (auto simp: wanted_ok_def)
    then show ?thesis using W None assms(2-4) by (auto simp: wanted_ok_def note_miss_def)
  next
    case (Some p)
    obtain f ex where p: "p = (f, ex)" by (cases p)
    then have row: "sc_wanted sc row = Some (f, ex)" using Some by simp
    have "row \<in> set (sc_order sc)" using row W by (auto simp: wanted_ok_def)
    then show ?thesis using W row assms(2-4) by (auto simp: wanted_ok_def note_miss_def less_Suc_eq)
  qed
  show "is_wanted (sc_wanted (note_miss row i sc)) rows i"
    using assms(2) by (auto simp: is_wanted_def note_miss_def split: option.splits)
  show "is_wanted (sc_wanted (note_miss row i sc)) rows k" if "is_wanted (sc_wanted sc) rows k"
    using that by (auto simp: is_wanted_def note_miss_def split: option.splits)
qed

text \<open>What a lookup must return for a row, and the state of the pass after \<open>i\<close> rows.\<close>

definition expected_row :: "(nat \<Rightarrow> bytes) \<Rightarrow> nat \<Rightarrow> nat \<Rightarrow> bytes" where
  "expected_row data width row = (if row = ENGRAM_SKIP_ROW then replicate width 0 else data row)"

definition scan_ok ::
  "('c \<Rightarrow> bool) \<Rightarrow> (nat \<Rightarrow> bytes) \<Rightarrow> nat \<Rightarrow> nat \<Rightarrow> nat list \<Rightarrow> nat \<Rightarrow> 'c row_scan \<Rightarrow> bool" where
  "scan_ok sound data tr width rows i sc \<longleftrightarrow> sound (sc_cache sc) \<and> length (sc_out sc) = length rows
     \<and> wanted_ok rows tr i (sc_wanted sc) (sc_order sc)
     \<and> (\<forall>k < i. sc_out sc ! k = expected_row data width (rows ! k) \<or> is_wanted (sc_wanted sc) rows k)"

lemma fold_update_nth:
  "k < length out \<Longrightarrow> fold (\<lambda>i acc. acc[i := v]) is out ! k = (if k \<in> set is then v else out ! k)"
  by (induction "is" arbitrary: out) (auto simp: nth_list_update)

lemma fold_update_length: "length (fold (\<lambda>i acc. acc[i := v]) is out) = length out"
  by (induction "is" arbitrary: out) simp_all

lemma read_rows_length: "length (read_rows rd t wanted order out) = length out"
  unfolding read_rows_def by (induction order arbitrary: out) simp_all

lemma read_rows_nth:
  assumes "wanted_ok rows tr (length rows) wanted order" "set ord \<subseteq> set order" "length out = length rows"
    "k < length rows"
  shows "read_rows rd t wanted ord out ! k =
    (if rows ! k \<in> set ord \<and> first_of wanted (rows ! k) = k then row_data rd t (rows ! k) else out ! k)"
  using assms(2,3)
proof (induction ord arbitrary: out)
  case Nil
  then show ?case by (simp add: read_rows_def)
next
  case (Cons row ord)
  have "row \<in> set order" using Cons.prems(1) by simp
  then obtain f ex where f: "wanted row = Some (f, ex)" "f < length rows" "rows ! f = row"
    by (rule wantedD [OF assms(1)])
  let ?out = "out[f := row_data rd t row]"
  have fo: "first_of wanted row = f" using f by (simp add: first_of_def)
  have "read_rows rd t wanted (row # ord) out = read_rows rd t wanted ord ?out"
    by (simp add: read_rows_def fo)
  then show ?case
    using Cons.IH [of ?out] Cons.prems f fo assms(4) by (auto simp: nth_list_update)
qed

section \<open>The contract of a row cache\<close>

locale row_cache =
  fixes sound :: "'c \<Rightarrow> bool"
    and probe :: "nat \<Rightarrow> 'c \<Rightarrow> bytes option \<times> 'c"
    and ins :: "nat \<Rightarrow> bytes \<Rightarrow> 'c \<Rightarrow> bool \<times> 'c"
    and data :: "nat \<Rightarrow> bytes"
    and table_rows :: nat
  assumes probe_keeps: "sound c \<Longrightarrow> row < table_rows \<Longrightarrow> sound (snd (probe row c))"
    and probe_data: "sound c \<Longrightarrow> row < table_rows \<Longrightarrow> fst (probe row c) = Some v \<Longrightarrow> v = data row"
    and ins_keeps: "sound c \<Longrightarrow> row < table_rows \<Longrightarrow> sound (snd (ins row (data row) c))"
begin

lemma scan_hit:
  assumes "scan_ok sound data table_rows width rows i sc" "i < length rows" "sound c" "v = expected_row data width (rows ! i)"
  shows "scan_ok sound data table_rows width rows (Suc i) (sc\<lparr> sc_cache := c, sc_out := (sc_out sc)[i := v], sc_hits := h \<rparr>)"
  using assms wanted_Suc by (auto simp: scan_ok_def nth_list_update less_Suc_eq)

lemma scan_miss:
  assumes "scan_ok sound data table_rows width rows i sc" "i < length rows" "sound c" "rows ! i = row" "row \<noteq> ENGRAM_SKIP_ROW"
    "row < table_rows"
  shows "scan_ok sound data table_rows width rows (Suc i) (note_miss row i (sc\<lparr> sc_cache := c, sc_misses := m \<rparr>))"
proof -
  let ?sc = "sc\<lparr> sc_cache := c, sc_misses := m \<rparr>"
  have w: "wanted_ok rows table_rows i (sc_wanted ?sc) (sc_order ?sc)" using assms(1) by (simp add: scan_ok_def)
  note n = note_miss_ok [OF w assms(4-6)]
  show ?thesis
    using assms(1,3) n by (auto simp: scan_ok_def less_Suc_eq)
qed

lemma scan_rows_ok:
  assumes "scan_ok sound data table_rows width rows i sc" "i \<le> length rows" "rest = drop i rows"
    "scan_rows probe table_rows width i rest sc = (r, sc')"
  shows "(\<exists>k. i \<le> k \<and> k < length rows \<and> rows ! k \<noteq> ENGRAM_SKIP_ROW \<and> table_rows \<le> rows ! k)
      \<and> r = Inl (EInvalid ''engram row out of bounds'') \<and> sound (sc_cache sc')
    \<or> (\<forall>k. i \<le> k \<and> k < length rows \<longrightarrow> rows ! k = ENGRAM_SKIP_ROW \<or> rows ! k < table_rows)
      \<and> r = Inr () \<and> scan_ok sound data table_rows width rows (length rows) sc'"
  using assms
proof (induction rest arbitrary: i sc)
  case Nil
  then have "i = length rows" by simp
  then show ?case using Nil by simp
next
  case (Cons row rest)
  have i: "i < length rows" "rows ! i = row" "rest = drop (Suc i) rows"
    using Cons.prems(3) by (metis drop_eq_Nil list.distinct(1) not_le,
        metis Cons_nth_drop_Suc drop_eq_Nil list.distinct(1) list.inject not_le,
        metis drop_Suc list.sel(3) tl_drop)
  have sound: "sound (sc_cache sc)" using Cons.prems(1) by (simp add: scan_ok_def)
  have split: "(\<forall>k. i \<le> k \<and> k < length rows \<longrightarrow> P k) \<longleftrightarrow> P i \<and> (\<forall>k. Suc i \<le> k \<and> k < length rows \<longrightarrow> P k)"
    "(\<exists>k. i \<le> k \<and> k < length rows \<and> P k) \<longleftrightarrow> P i \<or> (\<exists>k. Suc i \<le> k \<and> k < length rows \<and> P k)" for P
  proof -
    have le: "i \<le> k \<longleftrightarrow> k = i \<or> Suc i \<le> k" for k by auto
    show "(\<forall>k. i \<le> k \<and> k < length rows \<longrightarrow> P k) \<longleftrightarrow> P i \<and> (\<forall>k. Suc i \<le> k \<and> k < length rows \<longrightarrow> P k)"
      "(\<exists>k. i \<le> k \<and> k < length rows \<and> P k) \<longleftrightarrow> P i \<or> (\<exists>k. Suc i \<le> k \<and> k < length rows \<and> P k)"
      using i(1) unfolding le by blast+
  qed
  have go: ?case if "scan_ok sound data table_rows width rows (Suc i) sc1"
    "scan_rows probe table_rows width (Suc i) rest sc1 = (r, sc')"
    "row = ENGRAM_SKIP_ROW \<or> row < table_rows" for sc1
    using Cons.IH [OF that(1) _ i(3) that(2)] i(1,2) that(3) unfolding split by auto
  show ?case
  proof (cases "row = ENGRAM_SKIP_ROW")
    case True
    have "scan_ok sound data table_rows width rows (Suc i)
        (sc\<lparr> sc_cache := sc_cache sc, sc_out := (sc_out sc)[i := replicate width 0], sc_hits := sc_hits sc \<rparr>)"
      using Cons.prems(1) i(1,2) sound True by (intro scan_hit) (simp_all add: expected_row_def)
    then show ?thesis using go Cons.prems(4) True by simp
  next
    case skip: False
    show ?thesis
    proof (cases "row < table_rows")
      case False
      then have "r = Inl (EInvalid ''engram row out of bounds'')" "sc' = sc" using Cons.prems(4) skip by simp_all
      then show ?thesis using sound False skip i(1,2) by (metis linorder_not_less order_refl)
    next
      case True
      obtain v c where pr: "probe row (sc_cache sc) = (v, c)" by fastforce
      have c: "sound c" using probe_keeps [OF sound True] pr by simp
      show ?thesis
      proof (cases v)
        case None
        have sc1: "scan_ok sound data table_rows width rows (Suc i)
            (note_miss row i (sc\<lparr> sc_cache := c, sc_misses := sc_misses sc + 1 \<rparr>))"
          by (rule scan_miss [OF Cons.prems(1) i(1) c i(2) skip True])
        then show ?thesis using go [OF sc1] Cons.prems(4) skip True pr None by simp
      next
        case (Some w)
        have "w = expected_row data width row"
          using probe_data [OF sound True, of w] pr Some skip by (simp add: expected_row_def)
        then have sc1: "scan_ok sound data table_rows width rows (Suc i)
            (sc\<lparr> sc_cache := c, sc_out := (sc_out sc)[i := w], sc_hits := sc_hits sc + 1 \<rparr>)"
          using i(2) by (intro scan_hit [OF Cons.prems(1) i(1) c]) simp
        then show ?thesis using go [OF sc1] Cons.prems(4) skip True pr Some by simp
      qed
    qed
  qed
qed

lemma fill_rows_ok:
  assumes "wanted_ok rows table_rows (length rows) wanted order" "set ord \<subseteq> set order" "length out = length rows"
    "sound c" "\<forall>row \<in> set ord. out ! first_of wanted row = data row"
    "fill_rows ins wanted ord out c ev = (out', c', ev')"
  shows "sound c' \<and> length out' = length rows \<and> (\<forall>k < length rows. out' ! k =
    (if rows ! k \<in> set ord \<and> k \<in> set (extras_of wanted (rows ! k)) then data (rows ! k) else out ! k))"
  using assms(2-)
proof (induction ord arbitrary: out c ev)
  case Nil
  then show ?case by simp
next
  case (Cons row ord)
  have "row \<in> set order" using Cons.prems(1) by simp
  then obtain f ex where f: "wanted row = Some (f, ex)" "row < table_rows" "f < length rows" "rows ! f = row"
    "\<forall>e \<in> set ex. e < length rows \<and> rows ! e = row"
    by (rule wantedD [OF assms(1)])
  have fo: "first_of wanted row = f" "extras_of wanted row = ex" using f by (simp_all add: first_of_def extras_of_def)
  have d: "out ! f = data row" using Cons.prems(4) fo by simp
  let ?out = "fold (\<lambda>i acc. acc[i := data row]) ex out"
  obtain b c1 where ic: "ins row (data row) c = (b, c1)" by fastforce
  have c1: "sound c1" using ins_keeps [OF Cons.prems(3) f(2)] ic by simp
  have len: "length ?out = length rows" using Cons.prems(2) by (simp add: fold_update_length)
  have nth: "?out ! k = (if k \<in> set ex then data row else out ! k)" if "k < length rows" for k
    using that Cons.prems(2) by (simp add: fold_update_nth)
  have firsts: "\<forall>r \<in> set ord. ?out ! first_of wanted r = data r"
  proof
    fix r assume r: "r \<in> set ord"
    then have "r \<in> set order" using Cons.prems(1) by auto
    then obtain f' ex' where f': "wanted r = Some (f', ex')" "f' < length rows" "rows ! f' = r"
      by (rule wantedD [OF assms(1)])
    then have "first_of wanted r = f'" "out ! f' = data r" using Cons.prems(4) r by (auto simp: first_of_def)
    then show "?out ! first_of wanted r = data r" using nth [OF f'(2)] f(5) f'(3) by auto
  qed
  have run: "fill_rows ins wanted ord ?out c1 (if b then ev + 1 else ev) = (out', c', ev')"
    using Cons.prems(5) fo d ic by (simp add: Let_def)
  have sub: "set ord \<subseteq> set order" using Cons.prems(1) by simp
  from Cons.IH [OF sub len c1 firsts run] show ?case
    using nth f(5) fo by (auto simp: Let_def)
qed

text \<open>After the batch read and the fan-out, every position holds what its row asks for.\<close>

lemma missing_rows_ok:
  assumes "scan_ok sound data table_rows width rows (length rows) sc"
    "\<forall>row < table_rows. row_data rd t row = data row"
    "fill_rows ins (sc_wanted sc) (sc_order sc) (read_rows rd t (sc_wanted sc) (sc_order sc) (sc_out sc))
       (sc_cache sc) 0 = (out', c', ev')"
  shows "sound c' \<and> out' = map (expected_row data width) rows"
proof -
  let ?w = "sc_wanted sc" and ?o = "sc_order sc"
  let ?out = "read_rows rd t ?w ?o (sc_out sc)"
  have w: "wanted_ok rows table_rows (length rows) ?w ?o" and len: "length (sc_out sc) = length rows"
    and c: "sound (sc_cache sc)"
    and ex: "\<And>k. k < length rows \<Longrightarrow> sc_out sc ! k = expected_row data width (rows ! k) \<or> is_wanted ?w rows k"
    using assms(1) by (auto simp: scan_ok_def)
  have rd: "?out ! k = (if rows ! k \<in> set ?o \<and> first_of ?w (rows ! k) = k then data (rows ! k) else sc_out sc ! k)"
    if "k < length rows" for k
  proof -
    have "row_data rd t (rows ! k) = data (rows ! k)" if "rows ! k \<in> set ?o"
      using that by (rule wantedD [OF w]) (use assms(2) in simp)
    then show ?thesis using read_rows_nth [OF w order_refl len that] by auto
  qed
  have firsts: "\<forall>row \<in> set ?o. ?out ! first_of ?w row = data row"
  proof
    fix row assume r: "row \<in> set ?o"
    then obtain f ex where f: "?w row = Some (f, ex)" "f < length rows" "rows ! f = row" by (rule wantedD [OF w])
    then show "?out ! first_of ?w row = data row" using rd [OF f(2)] r by (simp add: first_of_def)
  qed
  have lo: "length ?out = length rows" using len by (simp add: read_rows_length)
  note fill = fill_rows_ok [OF w order_refl lo c firsts assms(3)]
  have "out' ! k = expected_row data width (rows ! k)" if k: "k < length rows" for k
  proof (cases "rows ! k \<in> set ?o")
    case True
    then obtain f ex' where f: "?w (rows ! k) = Some (f, ex')" "rows ! k \<noteq> ENGRAM_SKIP_ROW" by (rule wantedD [OF w])
    have "out' ! k = data (rows ! k)"
      using fill k True rd [OF k] ex [OF k] f by (auto simp: is_wanted_def first_of_def extras_of_def expected_row_def)
    then show ?thesis using f(2) by (simp add: expected_row_def)
  next
    case False
    then have "?w (rows ! k) = None" using w by (auto simp: wanted_ok_def)
    then show ?thesis using fill k False rd [OF k] ex [OF k] by (auto simp: is_wanted_def)
  qed
  then show ?thesis using fill by (simp add: list_eq_iff_nth_eq)
qed

end

section \<open>Tags and sets\<close>

lemma nat_or_shift:
  assumes "(r::nat) < 2 ^ n" shows "push_bit n t OR r = t * 2 ^ n + r"
proof -
  have "push_bit n t AND r = 0"
  proof (rule bit_eqI)
    fix k
    have "\<not> bit r k" if "n \<le> k"
      using assms that by (metis bit_take_bit_iff linorder_not_less take_bit_nat_eq_self)
    then show "bit (push_bit n t AND r) k \<longleftrightarrow> bit (0::nat) k" by (auto simp: bit_simps)
  qed
  then show ?thesis by (metis disjunctive_add_eq_or push_bit_eq_mult)
qed

lemma make_engram_tag_unat:
  assumes "t < 2 ^ 16 - 1" "row < 2 ^ 48"
  shows "unat (make_engram_tag t row) = 1 + t * 2 ^ 48 + row"
proof -
  have "(push_bit 48 (of_nat t) OR of_nat row :: u64) = of_nat (push_bit 48 t OR row)"
    by (simp only: of_nat_or_eq of_nat_push_bit)
  also have "\<dots> = of_nat (t * 2 ^ 48 + row)" using nat_or_shift [OF assms(2), of t] by simp
  finally have "make_engram_tag t row = of_nat (1 + t * 2 ^ 48 + row)"
    by (simp add: make_engram_tag_def add.assoc)
  moreover have "1 + t * 2 ^ 48 + row < 2 ^ 64" using assms by simp
  then have "unat (of_nat (1 + t * 2 ^ 48 + row) :: u64) = 1 + t * 2 ^ 48 + row"
    by (simp only: unat_of_nat) (simp add: take_bit_nat_eq_self)
  ultimately show ?thesis by (simp only:)
qed

lemma make_engram_tag_inject:
  assumes "t < 2 ^ 16 - 1" "row < 2 ^ 48" "t' < 2 ^ 16 - 1" "row' < 2 ^ 48"
    "make_engram_tag t row = make_engram_tag t' row'"
  shows "t = t' \<and> row = row'"
proof -
  have eq: "t * 2 ^ 48 + row = t' * 2 ^ 48 + row'"
    using make_engram_tag_unat [OF assms(1,2)] make_engram_tag_unat [OF assms(3,4)] assms(5) by simp
  have "t = (t * 2 ^ 48 + row) div 2 ^ 48" "t' = (t' * 2 ^ 48 + row') div 2 ^ 48" using assms(2,4) by simp_all
  then have "t = t'" using eq by simp
  then show ?thesis using eq by simp
qed

lemma make_engram_tag_nonzero:
  "t < 2 ^ 16 - 1 \<Longrightarrow> row < 2 ^ 48 \<Longrightarrow> make_engram_tag t row \<noteq> 0"
  using make_engram_tag_unat [of t row] by force

lemma set_index_bound: "0 < ec_num_sets c \<Longrightarrow> set_index c tag < ec_num_sets c"
proof -
  assume n: "0 < ec_num_sets c"
  have "unat (mix64 tag) < 2 ^ 64" using unsigned_less [of "mix64 tag", where ?'a = nat] by simp
  then have "unat (mix64 tag) * ec_num_sets c < 2 ^ 64 * ec_num_sets c" using n by simp
  then show ?thesis unfolding set_index_def by (simp add: less_mult_imp_div_less mult.commute)
qed

lemma way_index_bound: "s < n \<Longrightarrow> way < ENGRAM_WAYS \<Longrightarrow> way_index s way < n * ENGRAM_WAYS"
proof -
  assume a: "s < n" "way < ENGRAM_WAYS"
  have "s * ENGRAM_WAYS + way < (s + 1) * ENGRAM_WAYS" using a by simp
  also have "\<dots> \<le> n * ENGRAM_WAYS" using a by (intro mult_le_mono1) simp
  finally show ?thesis by (simp add: way_index_def)
qed

lemma clock_victim_bound:
  "hand < ENGRAM_WAYS \<Longrightarrow> fst (clock_victim in_use hand) < ENGRAM_WAYS
     \<and> snd (snd (clock_victim in_use hand)) < ENGRAM_WAYS"
proof (induction in_use hand rule: clock_victim.induct)
  case (1 in_use hand)
  have m: "(hand + 1) mod ENGRAM_WAYS < ENGRAM_WAYS" by (simp add: ENGRAM_WAYS_def)
  show ?case
  proof (cases "in_use AND push_bit hand 1 = 0")
    case True
    then show ?thesis using 1 m by (subst (1 2) clock_victim.simps) (simp add: Let_def)
  next
    case False
    then show ?thesis using "1.IH" [OF refl False m] by (subst (1 2) clock_victim.simps) (simp add: Let_def)
  qed
qed

section \<open>The 8-way cache meets the contract\<close>

definition tables_small :: "engram_table list \<Rightarrow> bool" where
  "tables_small ts \<longleftrightarrow> length ts < 2 ^ 16 \<and> (\<forall>t \<in> set ts. tbl_rows t \<le> 2 ^ 48)"

definition rows_of :: "engram_table list \<Rightarrow> nat \<Rightarrow> nat" where
  "rows_of ts t = (if t < length ts then tbl_rows (ts ! t) else 0)"

definition sized :: "engram_cache \<Rightarrow> bool" where
  "sized c \<longleftrightarrow> length (ec_tags c) = ec_num_sets c * ENGRAM_WAYS
     \<and> length (ec_payloads c) = ec_num_sets c * ENGRAM_WAYS \<and> length (ec_clocks c) = ec_num_sets c"

definition engram_sound :: "(extent \<Rightarrow> bytes) \<Rightarrow> engram_table list \<Rightarrow> nat \<Rightarrow> engram_cache \<Rightarrow> bool" where
  "engram_sound rd ts width c \<longleftrightarrow> tables_small ts \<and> ec_tables c = ts \<and> ec_row_bytes c = width \<and> sized c
     \<and> (\<forall>k t row. k < ec_num_sets c * ENGRAM_WAYS \<and> row < rows_of ts t \<and> ec_tags c ! k = make_engram_tag t row
          \<longrightarrow> ec_payloads c ! k = row_data rd (ts ! t) row)"

lemma small_bounds:
  assumes "tables_small ts" "row < rows_of ts t" shows "t < 2 ^ 16 - 1 \<and> row < 2 ^ 48"
proof -
  have t: "t < length ts" "row < tbl_rows (ts ! t)" using assms(2) by (auto simp: rows_of_def split: if_splits)
  then have "tbl_rows (ts ! t) \<le> 2 ^ 48" "length ts < 2 ^ 16" using assms(1) by (simp_all add: tables_small_def)
  then show ?thesis using t by linarith
qed

lemma mark_used_sound: "engram_sound rd ts width c \<Longrightarrow> engram_sound rd ts width (mark_used s way c)"
  by (simp add: engram_sound_def sized_def mark_used_def)

lemma put_row_sound:
  assumes "engram_sound rd ts width c" "row < rows_of ts t"
  shows "engram_sound rd ts width (put_row s way (make_engram_tag t row) clock (row_data rd (ts ! t) row) c)"
proof -
  have sm: "tables_small ts" and sz: "sized c" using assms(1) by (simp_all add: engram_sound_def)
  have "row_data rd (ts ! t) row = row_data rd (ts ! t') row'"
    if "row' < rows_of ts t'" "make_engram_tag t row = make_engram_tag t' row'" for t' row'
    using make_engram_tag_inject [of t row t' row'] small_bounds [OF sm assms(2)] small_bounds [OF sm that(1)] that(2)
    by blast
  then show ?thesis
    using assms(1) sz by (auto simp: engram_sound_def sized_def put_row_def nth_list_update_if split: if_splits)
qed

lemma insert_row_put:
  "\<exists>b s way clock. insert_row tag row c = (b, put_row s way tag clock row c)"
  by (auto simp: insert_row_def Let_def split: option.splits prod.splits)

interpretation engram: row_cache "engram_sound rd ts width" "probe_row t" "cache_row t"
    "row_data rd (ts ! t)" "rows_of ts t" for rd ts width t
proof unfold_locales
  fix c row assume c: "engram_sound rd ts width c" and row: "row < rows_of ts t"
  show "engram_sound rd ts width (snd (probe_row t row c))"
    using mark_used_sound [OF c] c by (simp add: probe_row_def probe_hit_def Let_def split: option.splits)
  show "engram_sound rd ts width (snd (cache_row t row (row_data rd (ts ! t) row) c))"
    using put_row_sound [OF c row] c insert_row_put [of "make_engram_tag t row" "row_data rd (ts ! t) row" c]
    by (auto simp: cache_row_def)
next
  fix c row v assume c: "engram_sound rd ts width c" and row: "row < rows_of ts t"
    and hit: "fst (probe_row t row c) = Some v"
  let ?tag = "make_engram_tag t row"
  let ?s = "set_index c ?tag"
  obtain way where way: "List.find (\<lambda>way. ec_tags c ! way_index ?s way = ?tag) [0..<ENGRAM_WAYS] = Some way"
    "v = ec_payloads c ! way_index ?s way" "0 < ec_num_sets c"
    using hit by (auto simp: probe_row_def probe_hit_def Let_def split: if_splits option.splits)
  then have "way < ENGRAM_WAYS" "ec_tags c ! way_index ?s way = ?tag" by (auto simp: find_Some_iff)
  then show "v = row_data rd (ts ! t) row"
    using c row way(2) way_index_bound [OF set_index_bound [OF way(3)]] by (simp add: engram_sound_def)
qed

section \<open>Lookup refines reading the drive\<close>

text \<open>The specification of a lookup knows nothing of the cache: the same argument checks, then the
  rows as they are on the drive.\<close>

definition engram_spec ::
  "(extent \<Rightarrow> bytes) \<Rightarrow> engram_table list \<Rightarrow> nat \<Rightarrow> nat \<Rightarrow> nat list \<Rightarrow> nat \<Rightarrow> store_error + bytes list" where
  "engram_spec rd ts width t rows out_len =
     (if length ts \<le> t then Inl (EInvalid ''engram table index'')
      else if 2 ^ 64 \<le> length rows * width then Inl (EInvalid ''engram output size overflow'')
      else if out_len \<noteq> length rows * width then Inl (EInvalid ''engram output slice'')
      else if list_ex (\<lambda>row. row \<noteq> ENGRAM_SKIP_ROW \<and> tbl_rows (ts ! t) \<le> row) rows
        then Inl (EInvalid ''engram row out of bounds'')
      else Inr (map (expected_row (row_data rd (ts ! t)) width) rows))"

lemma sound_stats: "engram_sound rd ts width c \<Longrightarrow> engram_sound rd ts width (c\<lparr> ec_stats := st \<rparr>)"
  by (simp add: engram_sound_def sized_def)

lemma rows_bad_iff:
  "list_ex (\<lambda>row. row \<noteq> ENGRAM_SKIP_ROW \<and> n \<le> row) rows
   \<longleftrightarrow> (\<exists>k. 0 \<le> k \<and> k < length rows \<and> rows ! k \<noteq> ENGRAM_SKIP_ROW \<and> n \<le> rows ! k)"
  by (auto simp: list_ex_length)

lemma all_expected:
  assumes "scan_ok sound data tr width rows (length rows) sc" "sc_order sc = []"
  shows "sc_out sc = map (expected_row data width) rows"
proof -
  have "dom (sc_wanted sc) = {}" using assms by (simp add: scan_ok_def wanted_ok_def)
  then have "sc_wanted sc = Map.empty" by (simp only: dom_eq_empty_conv)
  then show ?thesis using assms(1) by (simp add: scan_ok_def is_wanted_def list_eq_iff_nth_eq)
qed

lemma lookup_refines:
  assumes "engram_sound rd ts width c" "length out = length rows"
  shows "case lookup_batch rd fault t rows out_len out c of (r, out', c') \<Rightarrow>
    engram_sound rd ts width c' \<and>
    (case r of
       Inr st \<Rightarrow> engram_spec rd ts width t rows out_len = Inr out'
     | Inl e \<Rightarrow> engram_spec rd ts width t rows out_len = Inl e \<or> e = EIo ''read'' \<and> (\<exists>order. fault order \<noteq> None))"
proof -
  have st: "ec_tables c = ts" "ec_row_bytes c = width" using assms(1) by (simp_all add: engram_sound_def)
  let ?early = "length ts \<le> t \<or> 2 ^ 64 \<le> length rows * width \<or> out_len \<noteq> length rows * width"
  let ?sc = "\<lparr> sc_cache = c, sc_out = out, sc_hits = 0, sc_misses = 0, sc_wanted = Map.empty, sc_order = [] \<rparr>"
  let ?data = "row_data rd (ts ! t)"
  show ?thesis
  proof (cases ?early)
    case True
    then show ?thesis using assms(1) st by (auto simp: lookup_batch_def engram_spec_def checked_mul_def)
  next
    case False
    have tr: "rows_of ts t = tbl_rows (ts ! t)" using False by (simp add: rows_of_def)
    obtain r sc where run: "scan_rows (probe_row t) (tbl_rows (ts ! t)) width 0 rows ?sc = (r, sc)" by fastforce
    have lb: "lookup_batch rd fault t rows out_len out c = (case (r, sc) of
        (Inl e, sc) \<Rightarrow> (Inl e, sc_out sc, sc_cache sc)
      | (Inr _, sc) \<Rightarrow> if sc_order sc = [] then finish_batch width t sc (sc_out sc, sc_cache sc, 0)
          else lookup_missing rd fault t (ts ! t) width sc)"
      using False unfolding lookup_batch_def st run by (simp add: checked_mul_def)
    have init: "scan_ok (engram_sound rd ts width) ?data (rows_of ts t) width rows 0 ?sc"
      using assms by (simp add: scan_ok_def wanted_ok_def)
    from engram.scan_rows_ok [OF init _ _ run [folded tr]] consider
        (bad) "list_ex (\<lambda>row. row \<noteq> ENGRAM_SKIP_ROW \<and> tbl_rows (ts ! t) \<le> row) rows"
          "r = Inl (EInvalid ''engram row out of bounds'')" "engram_sound rd ts width (sc_cache sc)"
      | (good) "\<not> list_ex (\<lambda>row. row \<noteq> ENGRAM_SKIP_ROW \<and> tbl_rows (ts ! t) \<le> row) rows" "r = Inr ()"
          "scan_ok (engram_sound rd ts width) ?data (rows_of ts t) width rows (length rows) sc"
      unfolding rows_bad_iff tr by (auto simp: linorder_not_less [symmetric])
    then show ?thesis
    proof cases
      case bad
      then show ?thesis using lb False by (simp add: engram_spec_def)
    next
      case good
      have spec: "engram_spec rd ts width t rows out_len = Inr (map (expected_row ?data width) rows)"
        using good(1) False by (simp add: engram_spec_def)
      have c: "engram_sound rd ts width (sc_cache sc)" using good(3) by (simp add: scan_ok_def)
      show ?thesis
      proof (cases "sc_order sc = [] \<or> fault (sc_order sc) \<noteq> None")
        case True
        then show ?thesis
          using lb good(2) spec c sound_stats all_expected [OF good(3)]
          by (auto simp: finish_batch_def lookup_missing_def Let_def) blast
      next
        case no_fault: False
        obtain out' c' ev where fr: "fill_rows (cache_row t) (sc_wanted sc) (sc_order sc)
            (read_rows rd (ts ! t) (sc_wanted sc) (sc_order sc) (sc_out sc)) (sc_cache sc) 0 = (out', c', ev)"
          by (metis prod_cases3)
        have "engram_sound rd ts width c' \<and> out' = map (expected_row ?data width) rows"
          by (rule engram.missing_rows_ok [OF good(3) _ fr]) simp
        then show ?thesis
          using lb good(2) spec no_fault fr sound_stats by (simp add: finish_batch_def lookup_missing_def Let_def)
      qed
    qed
  qed
qed

text \<open>C10: A batch lookup refines reading the drive: whatever the cache holds and whatever it evicts,
  a lookup that succeeds returns exactly the requested rows (zeros for skipped ones), one that
  fails fails with the specification's error or with a read error of the drive, and the cache stays
  sound for the next lookup.\<close>

theorem lookup_batch_refines:
  assumes "engram_sound rd ts width c" "length out = length rows"
  shows "case lookup_batch rd fault t rows out_len out c of (r, out', c') \<Rightarrow>
    engram_sound rd ts width c' \<and>
    (case r of
       Inr st \<Rightarrow> engram_spec rd ts width t rows out_len = Inr out'
     | Inl e \<Rightarrow> engram_spec rd ts width t rows out_len = Inl e \<or> e = EIo ''read'' \<and> (\<exists>order. fault order \<noteq> None))"
  by (rule lookup_refines [OF assms])

text \<open>A one-set cache over one table of four one-byte rows.\<close>

definition demo_table :: engram_table where
  "demo_table = \<lparr> tbl_layer = 1, tbl_rows = 4, tbl_weight = \<lparr> shard = 0, offset = 100, len = 4 \<rparr>,
     tbl_scale = \<lparr> shard = 0, offset = 200, len = 4 \<rparr> \<rparr>"

definition demo_drive :: "extent \<Rightarrow> bytes" where
  "demo_drive e = [of_nat (offset e)]"

definition demo_engram :: engram_cache where
  "demo_engram = \<lparr> ec_tables = [demo_table], ec_weight_bytes = 1, ec_scale_bytes = 1, ec_row_bytes = 2,
     ec_num_sets = 1, ec_tags = replicate 8 0, ec_clocks = [0], ec_payloads = replicate 8 [0, 0],
     ec_stats = engram_stats_default \<rparr>"

lemma zero_tags_sound:
  assumes "tables_small ts" "ec_tables c = ts" "ec_row_bytes c = width" "sized c"
    "\<forall>k < ec_num_sets c * ENGRAM_WAYS. ec_tags c ! k = 0"
  shows "engram_sound rd ts width c"
  using assms make_engram_tag_nonzero small_bounds [OF assms(1)] by (metis engram_sound_def)

lemma demo_engram_sound: "engram_sound demo_drive [demo_table] 2 demo_engram"
  by (rule zero_tags_sound)
    (simp_all add: demo_engram_def tables_small_def demo_table_def sized_def ENGRAM_WAYS_def)

theorem lookup_batch_refines_witness:
  "fst (snd (lookup_batch demo_drive (\<lambda>_. None) 0 [2, ENGRAM_SKIP_ROW, 2] 6 [[], [], []] demo_engram))
   = [[102, 202], [0, 0], [102, 202]]"
proof -
  let ?l = "lookup_batch demo_drive (\<lambda>_. None) 0 [2, ENGRAM_SKIP_ROW, 2] 6 [[], [], []] demo_engram"
  obtain r out' c' where l: "?l = (r, out', c')" by (rule prod_cases3)
  have "engram_spec demo_drive [demo_table] 2 0 [2, ENGRAM_SKIP_ROW, 2] 6
      = Inr [[102, 202], [0, 0], [102, 202]]"
    by code_simp
  then have "out' = [[102, 202], [0, 0], [102, 202]]"
    using lookup_batch_refines [OF demo_engram_sound, of "[[], [], []]" "[2, ENGRAM_SKIP_ROW, 2]" 0 6 "\<lambda>_. None"]
    unfolding l by (cases r) simp_all
  then show ?thesis by (simp add: l)
qed

section \<open>A new cache, and finding what was inserted\<close>

lemma table_widths:
  "check_widths w sc ts = Inr () \<Longrightarrow> t \<in> set ts \<Longrightarrow>
    0 < tbl_rows t \<and> len (tbl_weight t) div tbl_rows t = w \<and> len (tbl_scale t) div tbl_rows t = sc"
  by (induction ts) (auto simp: row_width_def split: if_splits)

lemma put_row_found:
  assumes "sized c" "s = set_index c tag" "0 < ec_num_sets c" "way < ENGRAM_WAYS"
    and first: "\<forall>w < way. ec_tags c ! way_index s w \<noteq> tag"
  shows "fst (probe_hit tag (put_row s way tag clock row c)) = Some row"
proof -
  let ?c = "put_row s way tag clock row c"
  have s: "s < ec_num_sets c" using assms(2,3) set_index_bound by simp
  have k: "way_index s w < ec_num_sets c * ENGRAM_WAYS" if "w < ENGRAM_WAYS" for w
    using way_index_bound [OF s that] .
  have tags: "ec_tags ?c ! way_index s w = (if w = way then tag else ec_tags c ! way_index s w)"
    if "w < ENGRAM_WAYS" for w
    using k [OF that] k [OF assms(4)] assms(1) by (auto simp: put_row_def sized_def way_index_def)
  have "List.find (\<lambda>w. ec_tags ?c ! way_index s w = tag) [0..<ENGRAM_WAYS] = Some way"
    unfolding find_Some_iff using assms(4) tags first by (intro exI [of _ way]) auto
  moreover have "set_index ?c tag = s" using assms(2) by (simp add: put_row_def set_index_def)
  ultimately show ?thesis
    using assms(1,3) k [OF assms(4)] by (simp add: probe_hit_def put_row_def sized_def)
qed

lemma find_none_before:
  "List.find P [0..<n] = Some k \<Longrightarrow> k < n \<and> P k \<and> (\<forall>j < k. \<not> P j)"
  by (auto simp: find_Some_iff)

text \<open>Insert and look up: right after a row is inserted, a probe of its tag hits and returns that
  very row, whether the insertion took a free way, overwrote the tag's own way or evicted a victim.\<close>

theorem insert_then_probe:
  assumes "sized c" "0 < ec_num_sets c"
  shows "fst (probe_hit tag (snd (insert_row tag row c))) = Some row"
proof (cases "List.find (\<lambda>way. ec_tags c ! way_index (set_index c tag) way = 0
    \<or> ec_tags c ! way_index (set_index c tag) way = tag) [0..<ENGRAM_WAYS]")
  case (Some way)
  have w: "way < ENGRAM_WAYS" "\<forall>w < way. ec_tags c ! way_index (set_index c tag) w \<noteq> tag"
    using find_none_before [OF Some] by auto
  show ?thesis
    using put_row_found [OF assms(1) refl assms(2) w] Some by (simp add: insert_row_def Let_def)
next
  case None
  obtain victim in_use hand where v: "clock_victim (ucast (ec_clocks c ! set_index c tag AND 0xFF))
      (unat (drop_bit 8 (ec_clocks c ! set_index c tag)) mod ENGRAM_WAYS) = (victim, in_use, hand)"
    by (metis prod_cases3)
  have w: "victim < ENGRAM_WAYS" using clock_victim_bound v by (metis ENGRAM_WAYS_def fst_conv mod_less_divisor zero_less_numeral)
  have "\<forall>w < victim. ec_tags c ! way_index (set_index c tag) w \<noteq> tag"
    using None w by (auto simp: find_None_iff)
  from put_row_found [OF assms(1) refl assms(2) w this] show ?thesis
    using None v by (simp add: insert_row_def Let_def)
qed

theorem insert_then_probe_witness:
  "fst (probe_hit 7 (snd (insert_row 7 [1, 2] demo_engram))) = Some [1, 2]"
  by (rule insert_then_probe) (simp_all add: demo_engram_def sized_def ENGRAM_WAYS_def)

lemma engram_cache_new_props:
  assumes "engram_cache_new c p = Inr e" "tables_small (cat_engram c)"
  shows "engram_sound rd (cat_engram c) (ec_row_bytes e) e"
    and "\<forall>t \<in> set (cat_engram c). len (tbl_weight t) div tbl_rows t = ec_weight_bytes e
           \<and> len (tbl_scale t) div tbl_rows t = ec_scale_bytes e"
    and "8 * length (ec_tags e) + 2 * length (ec_clocks e) + length (concat (ec_payloads e)) \<le> pl_engram_ram p"
proof -
  consider (empty) "cat_engram c = []" "e = \<lparr> ec_tables = [], ec_weight_bytes = 0, ec_scale_bytes = 0,
      ec_row_bytes = 0, ec_num_sets = 0, ec_tags = [], ec_clocks = [], ec_payloads = [],
      ec_stats = engram_stats_default \<rparr>"
    | (some) first rest w sc sets where "cat_engram c = first # rest" "0 < tbl_rows first"
      "w = row_width (tbl_weight first) (tbl_rows first)" "sc = row_width (tbl_scale first) (tbl_rows first)"
      "check_widths w sc rest = Inr ()" "sets = pl_engram_ram p div (ENGRAM_WAYS * 8 + 2 + ENGRAM_WAYS * (w + sc))"
      "e = \<lparr> ec_tables = first # rest, ec_weight_bytes = w, ec_scale_bytes = sc, ec_row_bytes = w + sc,
         ec_num_sets = sets, ec_tags = replicate (sets * ENGRAM_WAYS) 0, ec_clocks = replicate sets 0,
         ec_payloads = replicate (sets * ENGRAM_WAYS) (replicate (w + sc) 0), ec_stats = engram_stats_default \<rparr>"
    using assms(1)
    by (cases "cat_engram c") (auto simp: engram_cache_new_def and_then_def Let_def split: sum.splits if_splits)
  note shape = this
  show "engram_sound rd (cat_engram c) (ec_row_bytes e) e"
    by (rule shape; rule zero_tags_sound) (use assms(2) in \<open>simp_all add: sized_def\<close>)
  show "\<forall>t \<in> set (cat_engram c). len (tbl_weight t) div tbl_rows t = ec_weight_bytes e
           \<and> len (tbl_scale t) div tbl_rows t = ec_scale_bytes e"
    by (rule shape) (auto simp: row_width_def dest!: table_widths)
  show "8 * length (ec_tags e) + 2 * length (ec_clocks e) + length (concat (ec_payloads e)) \<le> pl_engram_ram p"
  proof (rule shape)
    fix w sc sets first rest
    assume sets: "sets = pl_engram_ram p div (ENGRAM_WAYS * 8 + 2 + ENGRAM_WAYS * (w + sc))"
      and e: "e = \<lparr> ec_tables = first # rest, ec_weight_bytes = w, ec_scale_bytes = sc, ec_row_bytes = w + sc,
         ec_num_sets = sets, ec_tags = replicate (sets * ENGRAM_WAYS) 0, ec_clocks = replicate sets 0,
         ec_payloads = replicate (sets * ENGRAM_WAYS) (replicate (w + sc) 0), ec_stats = engram_stats_default \<rparr>"
    have "8 * length (ec_tags e) + 2 * length (ec_clocks e) + length (concat (ec_payloads e))
        = sets * (ENGRAM_WAYS * 8 + 2 + ENGRAM_WAYS * (w + sc))"
      by (simp add: e length_concat sum_list_replicate algebra_simps)
    also have "\<dots> \<le> pl_engram_ram p" unfolding sets by (rule div_times_less_eq_dividend)
    finally show ?thesis .
  qed simp
qed

text \<open>A new cache serves its catalog within its share of the memory plan: its tables are the
  catalog's, every table's rows have the cache's width, nothing is cached yet (so lookups are exact),
  and the tags, clocks and payloads together fit the memory the plan gave it.\<close>

theorem engram_cache_new_fits:
  assumes "engram_cache_new c p = Inr e" "tables_small (cat_engram c)"
  shows "engram_sound rd (cat_engram c) (ec_row_bytes e) e
    \<and> (\<forall>t \<in> set (cat_engram c). len (tbl_weight t) div tbl_rows t = ec_weight_bytes e
           \<and> len (tbl_scale t) div tbl_rows t = ec_scale_bytes e)
    \<and> 8 * length (ec_tags e) + 2 * length (ec_clocks e) + length (concat (ec_payloads e)) \<le> pl_engram_ram p"
  using engram_cache_new_props [OF assms] by blast

theorem engram_cache_new_fits_witness:
  "\<exists>c p e. cat_engram c = [demo_table] \<and> pl_engram_ram p = 200 \<and> engram_cache_new c p = Inr e \<and> ec_num_sets e = 2
     \<and> engram_sound demo_drive [demo_table] 2 e"
proof -
  obtain c0 where "tiny_catalog = Inr c0" using tiny_catalog_opens by blast
  define c where "c = c0\<lparr> cat_engram := [demo_table] \<rparr>"
  define p where "p = \<lparr> pl_core = 0, pl_kv = 0, vram_expert_slots = 0, ram_expert_slots = 0, pl_engram_ram = 200,
    pl_expert_total = 0, pl_engram_total = 0, pl_drive_total = 0 \<rparr>"
  obtain e where e: "engram_cache_new c p = Inr e" "ec_num_sets e = 2" "ec_row_bytes e = 2"
    by (auto simp: engram_cache_new_def c_def p_def demo_table_def and_then_def row_width_def ENGRAM_WAYS_def)
  have "tables_small (cat_engram c)" by (simp add: c_def tables_small_def demo_table_def)
  from engram_cache_new_fits [OF e(1) this, of demo_drive] have "engram_sound demo_drive [demo_table] 2 e"
    using e(3) by (simp add: c_def)
  moreover have "cat_engram c = [demo_table]" "pl_engram_ram p = 200" by (simp_all add: c_def p_def)
  ultimately show ?thesis using e by blast
qed

end
