(* ===== verification/Utf8.thy ===== *)
theory Utf8
  imports RustStr
begin

text \<open>
  Decoding of UTF-8 as the standard library does it: \<^verbatim>\<open>str::from_utf8\<close> with
  \<^verbatim>\<open>Utf8Error::valid_up_to\<close>, \<^verbatim>\<open>String::from_utf8_lossy\<close> and the encoding of a \<^verbatim>\<open>char\<close>.
\<close>

section \<open>One character\<close>

definition cont_byte :: "nat \<Rightarrow> bool" where
  "cont_byte b \<longleftrightarrow> 128 \<le> b \<and> b < 192"

text \<open>Length of the next character and whether it is well formed; an ill-formed one is the longest
  prefix of a character that is present, at least one byte.\<close>

fun tail_len :: "nat \<Rightarrow> nat \<Rightarrow> nat list \<Rightarrow> nat \<times> bool" where
  "tail_len k n [] = (k, n = 0)"
| "tail_len k n (b # bs) =
     (if n = 0 then (k, True) else if cont_byte b then tail_len (k + 1) (n - 1) bs else (k, False))"

definition second_ok :: "nat \<Rightarrow> nat \<Rightarrow> bool" where
  "second_ok a b \<longleftrightarrow>
     (if a = 224 then 160 else if a = 240 then 144 else 128) \<le> b \<and>
     b < (if a = 237 then 160 else if a = 244 then 144 else 192)"

definition char_width :: "nat \<Rightarrow> nat" where
  "char_width a =
     (if a < 128 then 1 else if a < 194 then 0 else if a < 224 then 2
      else if a < 240 then 3 else if a < 245 then 4 else 0)"

fun utf8_next :: "nat list \<Rightarrow> nat \<times> bool" where
  "utf8_next [] = (0, False)"
| "utf8_next (a # bs) =
     (let w = char_width a in
      if w = 0 then (1, False) else if w = 1 then (1, True)
      else (case bs of
              [] \<Rightarrow> (1, False)
            | b # bs \<Rightarrow> if second_ok a b then tail_len 2 (w - 2) bs else (1, False)))"

definition next_char :: "string \<Rightarrow> nat \<times> bool" where
  "next_char s = utf8_next (map of_char (take 4 s))"

lemma tail_len_0 [simp]: "tail_len k 0 bs = (k, True)"
  by (cases bs) simp_all

lemma tail_len_bounds: "tail_len k n bs = (m, ok) \<Longrightarrow> k \<le> m \<and> m \<le> k + n \<and> m \<le> k + length bs"
  by (induction k n bs rule: tail_len.induct) (fastforce split: if_splits)+

lemma tail_len_ok: "tail_len k n bs = (m, True) \<longleftrightarrow> m = k + n \<and> n \<le> length bs \<and> list_all cont_byte (take n bs)"
  by (induction k n bs rule: tail_len.induct) (auto simp: take_Cons' Suc_le_eq)

lemma char_width_le: "char_width a \<le> 4"
  by (simp add: char_width_def)

lemma utf8_next_bounds: "utf8_next bs = (m, ok) \<Longrightarrow> bs \<noteq> [] \<Longrightarrow> 1 \<le> m \<and> m \<le> length bs \<and> m \<le> 4"
  using char_width_le [of "hd bs"]
  by (cases bs rule: utf8_next.cases) (auto simp: Let_def split: list.splits if_splits dest!: tail_len_bounds)

lemma next_char_bounds:
  assumes "s \<noteq> []" shows "1 \<le> fst (next_char s)" "fst (next_char s) \<le> length s"
proof -
  obtain m ok where m: "next_char s = (m, ok)" by fastforce
  then have "1 \<le> m \<and> m \<le> length (map (of_char :: char \<Rightarrow> nat) (take 4 s)) \<and> m \<le> 4"
    using assms by (intro utf8_next_bounds) (auto simp: next_char_def)
  then show "1 \<le> fst (next_char s)" "fst (next_char s) \<le> length s" using m by auto
qed

lemma next_char_pos: "s \<noteq> [] \<Longrightarrow> next_char s = (m, ok) \<Longrightarrow> 0 < m"
  using next_char_bounds(1) [of s] by simp

section \<open>Validation and lossy decoding\<close>

function valid_up_to :: "string \<Rightarrow> nat" where
  "valid_up_to s =
     (if s = [] then 0
      else (case next_char s of (m, ok) \<Rightarrow> if ok then m + valid_up_to (drop m s) else 0))"
  by pat_completeness auto
termination
  by (relation "measure length") (auto dest!: next_char_pos [OF _ sym] intro!: diff_less)

definition replacement :: string where
  "replacement = [CHR 0xEF, CHR 0xBF, CHR 0xBD]"

function from_utf8_lossy :: "string \<Rightarrow> string" where
  "from_utf8_lossy s =
     (if s = [] then []
      else (case next_char s of (m, ok) \<Rightarrow>
              (if ok then take m s else replacement) @ from_utf8_lossy (drop m s)))"
  by pat_completeness auto
termination
  by (relation "measure length") (auto dest!: next_char_pos [OF _ sym] intro!: diff_less)

declare valid_up_to.simps [simp del] from_utf8_lossy.simps [simp del]

text \<open>\<^verbatim>\<open>char::encode_utf8\<close> of a code point.\<close>

definition encode_char :: "nat \<Rightarrow> string" where
  "encode_char c =
     (if c < 128 then [char_of c]
      else if c < 2048 then [char_of (192 + c div 64), char_of (128 + c mod 64)]
      else if c < 65536
      then [char_of (224 + c div 4096), char_of (128 + c div 64 mod 64), char_of (128 + c mod 64)]
      else [char_of (240 + c div 262144), char_of (128 + c div 4096 mod 64),
            char_of (128 + c div 64 mod 64), char_of (128 + c mod 64)])"

section \<open>Agreement with well-formed strings\<close>

lemma utf8_char_iff:
  "utf8_char bs \<longleftrightarrow> bs \<noteq> [] \<and> char_width (hd bs) = length bs
     \<and> (case bs of a # b # r \<Rightarrow> second_ok a b | _ \<Rightarrow> True) \<and> list_all cont_byte (drop 2 bs)"
  by (cases bs rule: utf8_char.cases)
    (auto simp: char_width_def second_ok_def cont_byte_def split: if_splits)

lemma is_cont_iff: "is_cont c \<longleftrightarrow> cont_byte (of_char c)"
  by (simp add: is_cont_def cont_byte_def)

text \<open>A byte string that decodes as one whole character, whatever follows it.\<close>

lemma utf8_next_char:
  assumes "utf8_char bs" shows "utf8_next (bs @ r) = (length bs, True)"
  using assms
  by (cases bs rule: utf8_char.cases)
    (auto simp: char_width_def second_ok_def cont_byte_def Let_def split: if_splits)

lemma next_char_whole:
  assumes "utf8_char (map of_char g)" shows "next_char (g @ r) = (length g, True)"
proof -
  have "take 4 (g @ r) = g @ take (4 - length g) r" using utf8_char_length [OF assms] by simp
  then show ?thesis using utf8_next_char [OF assms] by (simp add: next_char_def)
qed

lemma utf8_next_valid:
  assumes "utf8_next bs = (m, True)" shows "utf8_char (take m bs) \<and> m \<le> length bs"
proof -
  obtain a rest where bs: "bs = a # rest" using assms by (cases bs) auto
  consider "char_width a = 0" | "char_width a = 1" | "2 \<le> char_width a" by linarith
  then show ?thesis
  proof cases
    case 3
    then obtain b r where r: "rest = b # r" "second_ok a b" "tail_len 2 (char_width a - 2) r = (m, True)"
      using assms bs by (auto simp: Let_def split: list.splits if_splits)
    then have m: "m = char_width a" "m \<le> length r + 2" "list_all cont_byte (take (m - 2) r)"
      using 3 by (auto simp: tail_len_ok)
    obtain k where k: "m = Suc (Suc k)" using m(1) 3 by (metis add_2_eq_Suc le_Suc_ex)
    then show ?thesis using bs r(1,2) m by (simp add: utf8_char_iff)
  next
    case 2
    then have "m = 1" using assms bs by simp
    then show ?thesis using 2 by (simp add: bs utf8_char_iff)
  qed (use assms bs in simp)
qed

lemma next_char_valid:
  assumes "next_char s = (m, True)" shows "utf8_char (map of_char (take m s))" "m \<le> length s"
proof -
  have u: "utf8_char (take m (map of_char (take 4 s)))" "m \<le> length (map (of_char :: char \<Rightarrow> nat) (take 4 s))"
    using utf8_next_valid assms unfolding next_char_def by blast+
  then show "m \<le> length s" by simp
  have "take m (take 4 s) = take m s" using u(2) by simp
  then show "utf8_char (map of_char (take m s))" using u(1) by (simp add: take_map)
qed

lemma utf8_char_chars:
  assumes "utf8_char (map of_char g)" shows "chars g = [g]" "\<not> is_cont (hd g)" "g \<noteq> []"
proof -
  show "g \<noteq> []" using assms by (auto simp: utf8_char_iff)
  then obtain c cs where g: "g = c # cs" by (cases g) auto
  have "list_all is_cont cs"
    using assms unfolding g utf8_char_iff
    by (cases cs) (auto simp: list_all_iff is_cont_iff second_ok_def cont_byte_def split: if_splits)
  then show "chars g = [g]" by (simp add: g list_all_iff takeWhile_eq_all_conv [THEN iffD2] dropWhile_eq_Nil_conv [THEN iffD2])
  show "\<not> is_cont (hd g)"
    using assms by (auto simp: g utf8_char_iff is_cont_iff cont_byte_def char_width_def split: if_splits)
qed

lemma utf8_Nil [simp]: "utf8 []"
  by (simp add: utf8_def)

lemma utf8_head: "utf8 s \<Longrightarrow> s = [] \<or> \<not> is_cont (hd s)"
proof (cases s)
  case (Cons c cs)
  assume "utf8 s"
  then have "utf8_char (map of_char (c # takeWhile is_cont cs))" by (simp add: utf8_def Cons)
  from utf8_char_chars(2) [OF this] show ?thesis by (simp add: Cons)
qed simp

lemma utf8_append: "utf8 x \<Longrightarrow> utf8 y \<Longrightarrow> utf8 (x @ y)"
  using chars_append [of y x] utf8_head [of y] by (simp add: utf8_def)

lemma utf8_concat: "(\<And>x. x \<in> set xs \<Longrightarrow> utf8 x) \<Longrightarrow> utf8 (concat xs)"
  by (induction xs) (auto intro: utf8_append)

lemma utf8_single: "utf8_char (map of_char g) \<Longrightarrow> utf8 g"
  by (simp add: utf8_def utf8_char_chars(1))

lemma valid_up_to_le: "valid_up_to s \<le> length s"
proof (induction s rule: valid_up_to.induct)
  case (1 s)
  show ?case
    using "1.IH" next_char_bounds(2) [of s]
    by (subst valid_up_to.simps) (force split: prod.splits)
qed

text \<open>The valid part is well formed, so decoding it lossily changes nothing.\<close>

lemma utf8_valid_up_to: "utf8 (take (valid_up_to s) s)"
proof (induction s rule: valid_up_to.induct)
  case (1 s)
  show ?case
  proof (cases "s = [] \<or> \<not> snd (next_char s)")
    case True
    then show ?thesis by (auto simp: valid_up_to.simps [of s] split: prod.splits)
  next
    case False
    then obtain m where m: "next_char s = (m, True)" by (cases "next_char s") auto
    then have "take (valid_up_to s) s = take m s @ take (valid_up_to (drop m s)) (drop m s)"
      using False by (simp add: valid_up_to.simps [of s] take_add)
    then show ?thesis
      using "1.IH" [OF _ m [symmetric]] False utf8_append [OF utf8_single [OF next_char_valid(1) [OF m]]] by simp
  qed
qed

lemma utf8_lossy: "utf8 s \<Longrightarrow> from_utf8_lossy s = s"
proof (induction s rule: chars.induct)
  case 1
  then show ?case by (simp add: from_utf8_lossy.simps)
next
  case (2 c cs)
  let ?g = "c # takeWhile is_cont cs" and ?r = "dropWhile is_cont cs"
  have u: "utf8_char (map of_char ?g)" "utf8 ?r" using 2 by (simp_all add: utf8_def)
  have "next_char (?g @ ?r) = (length ?g, True)" by (rule next_char_whole [OF u(1)])
  moreover have "drop (length ?g) (c # cs) = ?r" "take (length ?g) (c # cs) = ?g"
    by (simp_all add: dropWhile_eq_drop) (metis append_eq_conv_conj takeWhile_dropWhile_id)
  ultimately show ?case using 2(1) u(2) by (subst from_utf8_lossy.simps) simp
qed

lemma utf8_valid_all: "utf8 s \<Longrightarrow> valid_up_to s = length s"
proof (induction s rule: chars.induct)
  case 1
  then show ?case by (simp add: valid_up_to.simps)
next
  case (2 c cs)
  let ?g = "c # takeWhile is_cont cs" and ?r = "dropWhile is_cont cs"
  have u: "utf8_char (map of_char ?g)" "utf8 ?r" using 2 by (simp_all add: utf8_def)
  have "next_char (?g @ ?r) = (length ?g, True)" by (rule next_char_whole [OF u(1)])
  moreover have "drop (length ?g) (c # cs) = ?r" by (simp add: dropWhile_eq_drop)
  moreover have "length (takeWhile is_cont cs) + length ?r = length cs"
    by (metis length_append takeWhile_dropWhile_id)
  ultimately show ?case using 2(1) u(2) by (subst valid_up_to.simps) simp
qed

lemma encode_char_utf8:
  assumes "c < 0x110000" "\<not> (0xD800 \<le> c \<and> c < 0xE000)"
  shows "utf8_char (map of_char (encode_char c))"
proof -
  define a b d where "a = c div 4096" and "b = c div 64 mod 64" and "d = c mod 64"
  have m: "b < 64" "d < 64" by (simp_all add: b_def d_def)
  have "a = c div 64 div 64" by (simp add: a_def flip: div_mult2_eq)
  then have "c div 64 = 64 * a + b" by (simp add: b_def)
  moreover have "c = 64 * (c div 64) + d" by (simp add: d_def)
  ultimately have c: "c = 4096 * a + 64 * b + d" by linarith
  consider "c < 128" | "128 \<le> c" "c < 2048" | "2048 \<le> c" "c < 65536" | "65536 \<le> c" by linarith
  then show ?thesis
  proof cases
    case 3
    have enc: "encode_char c = [char_of (224 + a), char_of (128 + b), char_of (128 + d)]"
      using 3 by (simp add: encode_char_def a_def b_def d_def)
    have "a < 16" "a = 0 \<longrightarrow> 32 \<le> b" "a = 13 \<longrightarrow> b < 32" using 3 assms(2) m c by auto
    then show ?thesis unfolding enc using m by (auto simp: of_char_of)
  next
    case 4
    define e f where "e = a div 64" and "f = a mod 64"
    have e: "a = 64 * e + f" "f < 64" by (simp_all add: e_def f_def)
    have q: "c div 262144 = e" "c div 4096 mod 64 = f"
      by (simp_all add: e_def f_def a_def flip: div_mult2_eq)
    have enc: "encode_char c = [char_of (240 + e), char_of (128 + f), char_of (128 + b), char_of (128 + d)]"
      using 4 by (simp add: encode_char_def q b_def d_def)
    have "e < 5" "e = 0 \<longrightarrow> 16 \<le> f" "e = 4 \<longrightarrow> f < 16" using 4 assms(1) m c e by auto
    then show ?thesis unfolding enc using m e(2) by (auto simp: of_char_of)
  qed (use m d_def in \<open>auto simp: encode_char_def\<close>)
qed

text \<open>Bytes that arrive later do not change what was valid before.\<close>

lemma next_char_extend:
  assumes "next_char s = (m, True)" shows "next_char (s @ y) = (m, True)"
proof -
  have "next_char (take m s @ (drop m s @ y)) = (length (take m s), True)"
    by (rule next_char_whole [OF next_char_valid(1) [OF assms]])
  moreover have "take m s @ (drop m s @ y) = s @ y" by (simp flip: append_assoc)
  ultimately show ?thesis using next_char_valid(2) [OF assms] by simp
qed

lemma valid_up_to_extend: "valid_up_to (x @ y) = valid_up_to x + valid_up_to (drop (valid_up_to x) x @ y)"
proof (induction x rule: valid_up_to.induct)
  case (1 x)
  show ?case
  proof (cases "x \<noteq> [] \<and> snd (next_char x)")
    case True
    then obtain m where m: "next_char x = (m, True)" by (cases "next_char x") auto
    have "m \<le> length x" by (rule next_char_valid(2) [OF m])
    have v: "valid_up_to x = m + valid_up_to (drop m x)" using True m by (simp add: valid_up_to.simps [of x])
    have "valid_up_to (x @ y) = m + valid_up_to (drop m x @ y)"
      using True next_char_extend [OF m, of y] \<open>m \<le> length x\<close> by (simp add: valid_up_to.simps [of "x @ y"])
    also have "valid_up_to (drop m x @ y) =
        valid_up_to (drop m x) + valid_up_to (drop (valid_up_to (drop m x)) (drop m x) @ y)"
      using "1.IH" [OF _ m [symmetric]] True by simp
    finally show ?thesis by (simp add: v add.commute)
  next
    case False
    then have "valid_up_to x = 0" by (auto simp: valid_up_to.simps [of x] split: prod.splits)
    then show ?thesis by simp
  qed
qed

lemma valid_up_to_rest: "valid_up_to (drop (valid_up_to x) x) = 0"
  using valid_up_to_extend [of x "[]"] by simp

end
