(* ===== verification/Tokenizer.thy ===== *)
theory Tokenizer
  imports Utf8 "HOL-Library.AList"
begin

text \<open>
  The byte-level BPE tokenizer (\<^verbatim>\<open>chatty-metal/src/tokenizer.rs\<close>): building the tables from the
  deserialised \<^verbatim>\<open>tokenizer.json\<close>, encoding, decoding and the compressed token map.  Strings are
  UTF-8 byte lists and token ids naturals.  The regular expression engine is a parameter: a compiled
  expression gives the list of its matches (byte ranges), \<open>None\<close> where the engine gives up.  So are
  the Unicode normal forms.  A \<^verbatim>\<open>HashMap\<close> read from the file is an association list in the order
  its iterator has.
\<close>

section \<open>Data\<close>

type_synonym regex = "string \<Rightarrow> (nat \<times> nat) option list"

record tk_file =
  tf_added :: "(nat \<times> string) list"
  tf_patterns :: "string option list"
  tf_vocab :: "(string \<times> nat) list"
  tf_merges :: "string list"

record tokenizer =
  tk_tokens :: "string list"
  tk_specials :: "string \<rightharpoonup> nat"
  tk_byte_ids :: "nat list"
  tk_merges :: "nat \<times> nat \<rightharpoonup> nat \<times> nat"
  tk_splits :: "regex list"
  tk_char_bytes :: "string \<rightharpoonup> char"

datatype tk_error = NoByteToken nat | BadMerge string | UnknownToken string | BadRegex string | NoSpecial string

section \<open>The byte alphabet\<close>

definition byte_printable :: "nat \<Rightarrow> bool" where
  "byte_printable b \<longleftrightarrow> 33 \<le> b \<and> b \<le> 126 \<or> 161 \<le> b \<and> b \<le> 172 \<or> 174 \<le> b \<and> b \<le> 255"

definition from_u32 :: "nat \<Rightarrow> nat option" where
  "from_u32 c = (if c < 0xD800 \<or> 0xE000 \<le> c \<and> c < 0x110000 then Some c else None)"

fun byte_chars_from :: "nat \<Rightarrow> nat list \<Rightarrow> nat list" where
  "byte_chars_from extra [] = []"
| "byte_chars_from extra (b # bs) =
     (if byte_printable b then (case from_u32 b of Some c \<Rightarrow> c | None \<Rightarrow> 0) # byte_chars_from extra bs
      else (case from_u32 (255 + (extra + 1)) of Some c \<Rightarrow> c | None \<Rightarrow> 0) # byte_chars_from (extra + 1) bs)"

definition byte_chars :: "nat list" where
  "byte_chars = byte_chars_from 0 [0..<256]"

section \<open>Parsing\<close>

definition table_size :: "nat list \<Rightarrow> nat" where
  "table_size ids = (case ids of [] \<Rightarrow> 0 | i # is \<Rightarrow> fold max is i + 1)"

definition name_tokens :: "(string \<times> nat) list \<Rightarrow> string list \<Rightarrow> string list" where
  "name_tokens vs tokens = fold (\<lambda>(token, i) ts. ts[i := token]) vs tokens"

definition add_specials :: "(nat \<times> string) list \<Rightarrow> (string \<rightharpoonup> nat) \<Rightarrow> string \<rightharpoonup> nat" where
  "add_specials added m = fold (\<lambda>(i, content) m. m(content \<mapsto> i)) added m"

fun byte_table ::
  "(string \<times> nat) list \<Rightarrow> nat \<Rightarrow> nat list \<Rightarrow> nat list \<Rightarrow> (string \<rightharpoonup> char)
   \<Rightarrow> tk_error + nat list \<times> (string \<rightharpoonup> char)" where
  "byte_table vocab byte [] ids cb = Inr (ids, cb)"
| "byte_table vocab byte (c # cs) ids cb =
     (case map_of vocab (encode_char c) of
        None \<Rightarrow> Inl (NoByteToken byte)
      | Some i \<Rightarrow> byte_table vocab (Suc byte) cs (ids[byte := i]) (cb(encode_char c \<mapsto> char_of byte)))"

definition split_once_char :: "char \<Rightarrow> string \<Rightarrow> (string \<times> string) option" where
  "split_once_char c s =
     (case dropWhile (\<lambda>x. x \<noteq> c) s of [] \<Rightarrow> None | _ # r \<Rightarrow> Some (takeWhile (\<lambda>x. x \<noteq> c) s, r))"

definition token_id :: "(string \<times> nat) list \<Rightarrow> string \<Rightarrow> tk_error + nat" where
  "token_id vocab name = ok_or (UnknownToken name) (map_of vocab name)"

fun merge_table ::
  "(string \<times> nat) list \<Rightarrow> nat \<Rightarrow> string list \<Rightarrow> (nat \<times> nat \<rightharpoonup> nat \<times> nat)
   \<Rightarrow> tk_error + (nat \<times> nat \<rightharpoonup> nat \<times> nat)" where
  "merge_table vocab rank [] m = Inr m"
| "merge_table vocab rank (text # texts) m =
     (case split_once_char (CHR '' '') text of
        None \<Rightarrow> Inl (BadMerge text)
      | Some (a, b) \<Rightarrow>
          and_then (token_id vocab a) (\<lambda>i.
          and_then (token_id vocab b) (\<lambda>j.
          and_then (token_id vocab (a @ b)) (\<lambda>k.
          merge_table vocab (Suc rank) texts (m((i, j) \<mapsto> (rank mod 2 ^ 32, k)))))))"

definition compile_splits :: "(string \<Rightarrow> regex option) \<Rightarrow> string option list \<Rightarrow> tk_error + regex list" where
  "compile_splits compile pats =
     try_map (\<lambda>p. ok_or (BadRegex p) (compile p)) (List.map_filter id pats)"

definition tk_parse :: "(string \<Rightarrow> regex option) \<Rightarrow> tk_file \<Rightarrow> tk_error + tokenizer" where
  "tk_parse compile f =
     (let size = table_size (map snd (tf_vocab f) @ map fst (tf_added f));
          tokens = name_tokens (tf_vocab f) (replicate size []);
          tokens = name_tokens (map (\<lambda>(i, c). (c, i)) (tf_added f)) tokens;
          specials = add_specials (tf_added f) Map.empty in
      and_then (byte_table (tf_vocab f) 0 byte_chars (replicate 256 0) Map.empty) (\<lambda>(byte_ids, char_bytes).
      and_then (merge_table (tf_vocab f) 0 (tf_merges f) Map.empty) (\<lambda>merges.
      and_then (compile_splits compile (tf_patterns f)) (\<lambda>splits.
      Inr \<lparr> tk_tokens = tokens, tk_specials = specials, tk_byte_ids = byte_ids, tk_merges = merges,
            tk_splits = splits, tk_char_bytes = char_bytes \<rparr>))))"

definition special :: "tokenizer \<Rightarrow> string \<Rightarrow> tk_error + nat" where
  "special t name = ok_or (NoSpecial name) (tk_specials t name)"

section \<open>Byte pair encoding\<close>

fun windows2 :: "nat list \<Rightarrow> (nat \<times> nat) list" where
  "windows2 (x # y # r) = (x, y) # windows2 (y # r)"
| "windows2 _ = []"

definition min_rank :: "(nat \<times> nat \<times> nat) list \<Rightarrow> (nat \<times> nat \<times> nat) option" where
  "min_rank cs = foldl (\<lambda>best c. case best of None \<Rightarrow> Some c
     | Some b \<Rightarrow> if fst c < fst b then Some c else Some b) None cs"

definition best_pair :: "(nat \<times> nat \<rightharpoonup> nat \<times> nat) \<Rightarrow> nat list \<Rightarrow> (nat \<times> nat \<times> nat) option" where
  "best_pair merges symbols =
     min_rank (List.map_filter (\<lambda>p. map_option (\<lambda>m. (fst m, p)) (merges p)) (windows2 symbols))"

text \<open>The pass that replaces a pair in place, with a read and a write position.\<close>

function merge_in_place :: "nat \<Rightarrow> nat \<Rightarrow> nat \<Rightarrow> nat list \<Rightarrow> nat \<Rightarrow> nat \<Rightarrow> nat list" where
  "merge_in_place a b merged symbols rd wr =
     (if rd < length symbols then
        if rd + 1 < length symbols \<and> symbols ! rd = a \<and> symbols ! (rd + 1) = b
        then merge_in_place a b merged (symbols[wr := merged]) (rd + 2) (wr + 1)
        else merge_in_place a b merged (symbols[wr := symbols ! rd]) (rd + 1) (wr + 1)
      else take wr symbols)"
  by pat_completeness auto
termination
  by (relation "measure (\<lambda>(a, b, merged, symbols, rd, wr). length symbols - rd)") auto

declare merge_in_place.simps [simp del]

text \<open>The same pass on lists.\<close>

fun merge_pairs :: "nat \<Rightarrow> nat \<Rightarrow> nat \<Rightarrow> nat list \<Rightarrow> nat list" where
  "merge_pairs a b merged (x # y # r) =
     (if x = a \<and> y = b then merged # merge_pairs a b merged r else x # merge_pairs a b merged (y # r))"
| "merge_pairs a b merged r = r"

lemma merge_in_place_pairs:
  "wr \<le> rd \<Longrightarrow> rd \<le> length symbols \<Longrightarrow>
   merge_in_place a b merged symbols rd wr = take wr symbols @ merge_pairs a b merged (drop rd symbols)"
proof (induction a b merged symbols rd wr rule: merge_in_place.induct)
  case (1 a b merged symbols rd wr)
  consider "\<not> rd < length symbols" | "rd + 1 = length symbols" | "rd + 1 < length symbols"
    using "1.prems" by linarith
  then show ?case
  proof cases
    case 1
    then show ?thesis by (subst merge_in_place.simps) simp
  next
    case 2
    then have "drop rd symbols = [symbols ! rd]"
      by (metis Suc_eq_plus1 Cons_nth_drop_Suc drop_all lessI order.refl)
    then show ?thesis
      using "1.IH"(2) "1.prems" 2 by (subst merge_in_place.simps) (simp add: take_Suc_conv_app_nth)
  next
    case 3
    then have d: "drop rd symbols = symbols ! rd # symbols ! (rd + 1) # drop (rd + 2) symbols"
      by (metis Cons_nth_drop_Suc Suc_eq_plus1 Suc_lessD add_2_eq_Suc')
    show ?thesis
    proof (cases "symbols ! rd = a \<and> symbols ! (rd + 1) = b")
      case True
      then show ?thesis
        using "1.IH"(1) "1.prems" 3 d by (subst merge_in_place.simps) (simp add: take_Suc_conv_app_nth)
    next
      case False
      then have "merge_in_place a b merged symbols rd wr =
          merge_in_place a b merged (symbols[wr := symbols ! rd]) (rd + 1) (wr + 1)"
        using 3 by (subst merge_in_place.simps) auto
      also have "\<dots> = take (wr + 1) (symbols[wr := symbols ! rd])
          @ merge_pairs a b merged (drop (rd + 1) (symbols[wr := symbols ! rd]))"
        using "1.IH"(2) "1.prems" 3 False by simp
      also have "\<dots> = take wr symbols @ symbols ! rd # merge_pairs a b merged (drop (rd + 1) symbols)"
        using 3 "1.prems" by (simp add: take_Suc_conv_app_nth)
      also have "drop (rd + 1) symbols = symbols ! (rd + 1) # drop (rd + 2) symbols"
        using 3 Cons_nth_drop_Suc [of "rd + 1" symbols] by simp
      also have "symbols ! rd # merge_pairs a b merged (symbols ! (rd + 1) # drop (rd + 2) symbols)
          = merge_pairs a b merged (drop rd symbols)"
        unfolding d using False by (simp only: merge_pairs.simps if_False)
      finally show ?thesis .
    qed
  qed
qed

lemma merge_pairs_shorter:
  "(a, b) \<in> set (windows2 symbols) \<Longrightarrow> length (merge_pairs a b m symbols) < length symbols"
  "length (merge_pairs a b m symbols) \<le> length symbols"
proof (induction a b m symbols rule: merge_pairs.induct)
  case (1 a b m x y r)
  { case 1 then show ?case using "1.IH" by (auto simp: le_imp_less_Suc le_SucI) }
  { case 2 then show ?case using "1.IH" by (auto simp: le_SucI) }
qed auto

lemma min_rank_fold_mem:
  "foldl (\<lambda>best c. case best of None \<Rightarrow> Some c | Some b \<Rightarrow> if fst c < fst b then Some c else Some b) a cs = Some x
   \<Longrightarrow> x \<in> set cs \<or> a = Some x"
  by (induction cs arbitrary: a) (fastforce split: option.splits if_splits)+

lemma best_pair_mem:
  assumes "best_pair merges symbols = Some (rank, p)"
  shows "p \<in> set (windows2 symbols)" "\<exists>m. merges p = Some (rank, m)"
  using min_rank_fold_mem [OF assms [unfolded best_pair_def min_rank_def]]
  by (auto simp: List.map_filter_def)

function bpe_loop :: "(nat \<times> nat \<rightharpoonup> nat \<times> nat) \<Rightarrow> nat list \<Rightarrow> nat list" where
  "bpe_loop merges symbols =
     (if 1 < length symbols then
        (case best_pair merges symbols of
           None \<Rightarrow> symbols
         | Some (rank, a, b) \<Rightarrow>
             bpe_loop merges (merge_in_place a b (snd (the (merges (a, b)))) symbols 0 0))
      else symbols)"
  by pat_completeness auto
termination
  by (relation "measure (length \<circ> snd)")
    (auto simp: merge_in_place_pairs intro!: merge_pairs_shorter(1) dest: best_pair_mem(1))

declare bpe_loop.simps [simp del]

definition bpe :: "tokenizer \<Rightarrow> string \<Rightarrow> nat list" where
  "bpe t bs = bpe_loop (tk_merges t) (map (\<lambda>b. tk_byte_ids t ! of_char b) bs)"

section \<open>Encoding and decoding\<close>

definition slice :: "string \<Rightarrow> nat \<Rightarrow> nat \<Rightarrow> string" where
  "slice s i j = take (j - i) (drop i s)"

fun split_matches :: "string \<Rightarrow> nat \<Rightarrow> (nat \<times> nat) option list \<Rightarrow> string list" where
  "split_matches text last_end [] = (if last_end < length text then [drop last_end text] else [])"
| "split_matches text last_end (None # _) = (if last_end < length text then [drop last_end text] else [])"
| "split_matches text last_end (Some (i, j) # ms) =
     (if last_end < i then [slice text last_end i] else []) @ (if i < j then [slice text i j] else [])
     @ split_matches text j ms"

definition split_isolated :: "regex \<Rightarrow> string \<Rightarrow> string list" where
  "split_isolated re text = split_matches text 0 (re text)"

definition encode_pieces :: "tokenizer \<Rightarrow> string \<Rightarrow> string list" where
  "encode_pieces t text = fold (\<lambda>re pieces. concat (map (split_isolated re) pieces)) (tk_splits t) [text]"

definition encode :: "tokenizer \<Rightarrow> string \<Rightarrow> nat list" where
  "encode t text = concat (map (bpe t) (encode_pieces t text))"

definition token_bytes :: "tokenizer \<Rightarrow> nat \<Rightarrow> string" where
  "token_bytes t i =
     (if i < length (tk_tokens t) then
        (let token = tk_tokens t ! i; bs = map (tk_char_bytes t) (chars token) in
         if list_all (\<lambda>b. b \<noteq> None) bs then map the bs else token)
      else [])"

definition decode :: "tokenizer \<Rightarrow> nat list \<Rightarrow> string" where
  "decode t ids = from_utf8_lossy (concat (map (token_bytes t) ids))"

section \<open>The compressed token map\<close>

definition SENTINEL :: string where
  "SENTINEL = encode_char 0xE000"

fun collapse_space :: "bool \<Rightarrow> string list \<Rightarrow> string" where
  "collapse_space in_space [] = []"
| "collapse_space in_space (c # cs) =
     (if c \<in> {'' '', [CHR 0x09], [CHR 0x0D], [CHR 0x0A]}
      then (if in_space then [] else '' '') @ collapse_space True cs
      else c @ collapse_space False cs)"

record unicode =
  uc_nfkc :: "string \<Rightarrow> string"
  uc_nfd :: "string \<Rightarrow> string"
  uc_mark :: "string \<Rightarrow> bool"
  uc_lower :: "string \<Rightarrow> string"

definition normalize_key :: "unicode \<Rightarrow> string \<Rightarrow> string" where
  "normalize_key u text =
     (let folded = concat (map (uc_lower u) (filter (\<lambda>c. \<not> uc_mark u c) (chars (uc_nfd u (uc_nfkc u text)))));
          collapsed = collapse_space False (chars folded) in
      if collapsed = '' '' then '' ''
      else concat (map (\<lambda>c. if c = SENTINEL then '' '' else c) (chars (trim collapsed))))"

definition token_key :: "unicode \<Rightarrow> tokenizer \<Rightarrow> nat \<Rightarrow> string" where
  "token_key u t i =
     (let text = decode t [i] in
      if contains replacement text then tk_tokens t ! i
      else (let n = normalize_key u text in if n = [] then text else n))"

fun number_keys :: "string list \<Rightarrow> (string \<times> nat) list \<Rightarrow> nat list \<times> (string \<times> nat) list" where
  "number_keys [] keys = ([], keys)"
| "number_keys (k # ks) keys =
     (case map_of keys k of
        Some n \<Rightarrow> (case number_keys ks keys of (m, keys') \<Rightarrow> (n # m, keys'))
      | None \<Rightarrow> (let n = length keys mod 2 ^ 32 in
          case number_keys ks ((k, n) # keys) of (m, keys') \<Rightarrow> (n # m, keys')))"

definition compressed_map :: "unicode \<Rightarrow> tokenizer \<Rightarrow> nat list \<times> nat" where
  "compressed_map u t =
     (case number_keys (map (token_key u t) [0..<length (tk_tokens t)]) [] of
        (m, keys) \<Rightarrow> (m, length keys mod 2 ^ 32))"

end
