(* ===== verification/TokenizerProps.thy ===== *)
theory TokenizerProps
  imports Tokenizer
begin

text \<open>
  Encoding loses nothing and forges nothing: decoding the tokens of a text gives the text, and no
  text encodes to a special token.  Every symbol the merge loop ever holds \<open>spells\<close> a byte string in
  the byte alphabet; the lemmas follow that through the tables, the loop and the pieces.
\<close>

section \<open>The byte alphabet\<close>

lemma byte_chars_from_shape:
  "extra + length bs \<le> 1000 \<Longrightarrow> \<forall>b \<in> set bs. b < 256 \<Longrightarrow> distinct bs \<Longrightarrow>
   length (byte_chars_from extra bs) = length bs \<and> distinct (byte_chars_from extra bs) \<and>
   set (byte_chars_from extra bs) \<subseteq> set bs \<union> {256 + extra..<256 + extra + length bs}"
proof (induction bs arbitrary: extra)
  case (Cons b bs)
  have u: "from_u32 b = Some b" "from_u32 (256 + extra) = Some (256 + extra)"
    using Cons.prems by (auto simp: from_u32_def)
  show ?case
  proof (cases "byte_printable b")
    case True
    have "length (byte_chars_from extra bs) = length bs" "distinct (byte_chars_from extra bs)"
      "set (byte_chars_from extra bs) \<subseteq> set bs \<union> {256 + extra..<256 + extra + length bs}"
      using Cons.IH [of extra] Cons.prems by auto
    then show ?thesis using True u Cons.prems by auto
  next
    case False
    have "length (byte_chars_from (extra + 1) bs) = length bs" "distinct (byte_chars_from (extra + 1) bs)"
      "set (byte_chars_from (extra + 1) bs) \<subseteq> set bs \<union> {256 + (extra + 1)..<256 + (extra + 1) + length bs}"
      using Cons.IH [of "extra + 1"] Cons.prems by auto
    then show ?thesis using False u Cons.prems by fastforce
  qed
qed simp

lemma byte_chars_facts:
  "length byte_chars = 256" "distinct byte_chars" "c \<in> set byte_chars \<Longrightarrow> c < 2048"
  using byte_chars_from_shape [of 0 "[0..<256]"] unfolding byte_chars_def by auto

lemma byte_chars_from_printable:
  "k < length bs \<Longrightarrow> byte_printable (bs ! k) \<Longrightarrow> byte_chars_from extra bs ! k = bs ! k"
  by (induction bs arbitrary: k extra) (auto simp: nth_Cons byte_printable_def from_u32_def split: nat.splits)

lemma byte_chars_printable: "byte_printable k \<Longrightarrow> byte_chars ! k = k"
  using byte_chars_from_printable [of k "[0..<256]" 0] by (auto simp: byte_chars_def byte_printable_def)

lemma encode_char_inject:
  assumes "encode_char c = encode_char d" "c < 2048" "d < 2048" shows "c = d"
proof -
  have *: "c = 64 * (c div 64) + c mod 64" "d = 64 * (d div 64) + d mod 64" by simp_all
  show ?thesis
  proof (cases "c < 128 \<or> d < 128")
    case True
    then show ?thesis
      using arg_cong [OF assms(1), of "map (of_char :: char \<Rightarrow> nat)"] by (auto simp: encode_char_def of_char_of split: if_splits)
  next
    case False
    have m: "192 + c div 64 < 256" "192 + d div 64 < 256" "128 + c mod 64 < 256" "128 + d mod 64 < 256"
      using assms(2,3) by (auto simp: less_mult_imp_div_less)
    have "c div 64 = d div 64 \<and> c mod 64 = d mod 64"
      using False assms arg_cong [OF assms(1), of "map (of_char :: char \<Rightarrow> nat)"] m
      by (simp add: encode_char_def of_char_of)
    then show ?thesis using * by presburger
  qed
qed

definition enc_byte :: "char \<Rightarrow> string" where
  "enc_byte b = encode_char (byte_chars ! of_char b)"

definition enc_bytes :: "string \<Rightarrow> string" where
  "enc_bytes bs = concat (map enc_byte bs)"

lemma char_less_256 [simp]: "(of_char c :: nat) < 256"
  by (metis of_char_mod_256 mod_less_divisor zero_less_numeral)

lemma byte_chars_nth [simp]: "byte_chars ! of_char b < 2048"
  using byte_chars_facts nth_mem [of "of_char b" byte_chars] by simp

lemma enc_byte_utf8: "utf8_char (map of_char (enc_byte b))"
  unfolding enc_byte_def by (rule encode_char_utf8) (use byte_chars_nth [of b] in linarith)+

lemma enc_byte_inject: "enc_byte a = enc_byte b \<longleftrightarrow> a = b"
proof
  assume "enc_byte a = enc_byte b"
  then have "byte_chars ! of_char a = byte_chars ! of_char b"
    unfolding enc_byte_def by (rule encode_char_inject) simp_all
  then have "(of_char a :: nat) = of_char b"
    using nth_eq_iff_index_eq byte_chars_facts(1,2) char_less_256 by metis
  then show "a = b" by simp
qed simp

lemma chars_enc_bytes: "chars (enc_bytes bs) = map enc_byte bs"
proof (induction bs)
  case (Cons b bs)
  have "enc_bytes bs = [] \<or> \<not> is_cont (hd (enc_bytes bs))"
    using utf8_char_chars [OF enc_byte_utf8] by (cases bs) (simp_all add: enc_bytes_def)
  from chars_append [OF this, of "enc_byte b"] show ?case
    using Cons utf8_char_chars(1) [OF enc_byte_utf8] by (simp add: enc_bytes_def)
qed (simp add: enc_bytes_def)

lemma enc_bytes_append: "enc_bytes (p @ q) = enc_bytes p @ enc_bytes q"
  by (simp add: enc_bytes_def)

lemma enc_bytes_single: "enc_bytes [b] = enc_byte b"
  by (simp add: enc_bytes_def)

section \<open>The tables\<close>

lemma byte_table_ok:
  assumes "byte_table vocab k cs ids cb = Inr (ids', cb')" "k + length cs \<le> length ids"
    "distinct (map encode_char cs)"
  shows "length ids' = length ids \<and> (\<forall>i < k. ids' ! i = ids ! i)
    \<and> (\<forall>i < length cs. map_of vocab (encode_char (cs ! i)) = Some (ids' ! (k + i))
         \<and> cb' (encode_char (cs ! i)) = Some (char_of (k + i)))
    \<and> (\<forall>x. x \<notin> set (map encode_char cs) \<longrightarrow> cb' x = cb x)"
  using assms
proof (induction vocab k cs ids cb rule: byte_table.induct)
  case (2 vocab k c cs ids cb)
  obtain j where j: "map_of vocab (encode_char c) = Some j"
    "byte_table vocab (Suc k) cs (ids[k := j]) (cb(encode_char c \<mapsto> char_of k)) = Inr (ids', cb')"
    using 2(2) by (auto split: option.splits)
  note IH = 2(1) [OF j]
  have IH': "length ids' = length ids" "\<forall>i < Suc k. ids' ! i = ids[k := j] ! i"
    "\<forall>i < length cs. map_of vocab (encode_char (cs ! i)) = Some (ids' ! (Suc k + i))
       \<and> cb' (encode_char (cs ! i)) = Some (char_of (Suc k + i))"
    "\<forall>x. x \<notin> set (map encode_char cs) \<longrightarrow> cb' x = (cb(encode_char c \<mapsto> char_of k)) x"
    using IH 2(3,4) by auto
  have "ids' ! k = j" using IH'(2) 2(3) by simp
  moreover have "cb' (encode_char c) = Some (char_of k)" using IH'(4) 2(4) by auto
  ultimately show ?case using IH' 2(3,4) j(1) by (auto simp: nth_Cons split: nat.splits)
qed auto

lemma merge_table_ok:
  assumes "merge_table vocab rank texts m = Inr m'" "m' (i, j) = Some (r, k)"
  shows "m (i, j) = Some (r, k)
    \<or> (\<exists>a b. map_of vocab a = Some i \<and> map_of vocab b = Some j \<and> map_of vocab (a @ b) = Some k)"
  using assms
proof (induction vocab rank texts m rule: merge_table.induct)
  case (2 vocab rank tx txs m)
  from 2(2) obtain a b i' j' k' where s: "split_once_char (CHR '' '') tx = Some (a, b)"
    "token_id vocab a = Inr i'" "token_id vocab b = Inr j'" "token_id vocab (a @ b) = Inr k'"
    "merge_table vocab (Suc rank) txs (m((i', j') \<mapsto> (rank mod 2 ^ 32, k'))) = Inr m'"
    by (auto simp: and_then_eq_Inr split: option.splits)
  show ?case using "2.IH" [OF s(1) refl s(5) "2.prems"(2)] s(2-4) by (auto simp: token_id_def split: if_splits)
qed simp

lemma fold_max_ge: "(x :: nat) \<in> insert a (set xs) \<Longrightarrow> x \<le> fold max xs a"
  by (metis List.finite_set Max.set_eq_fold Max_ge list.simps(15))

lemma table_size_bound: "i \<in> set ids \<Longrightarrow> i < table_size ids"
  using fold_max_ge [of i "hd ids" "tl ids"] by (cases ids) (auto simp: table_size_def le_imp_less_Suc)

lemma name_tokens_length [simp]: "length (name_tokens vs ts) = length ts"
  unfolding name_tokens_def by (induction vs arbitrary: ts) (auto split: prod.splits)

lemma name_tokens_keep:
  "(\<And>t j. (t, j) \<in> set vs \<Longrightarrow> i = j \<Longrightarrow> t = tok) \<Longrightarrow> ts ! i = tok \<Longrightarrow> i < length ts \<Longrightarrow> name_tokens vs ts ! i = tok"
proof (induction vs arbitrary: ts)
  case (Cons v vs)
  obtain t j where v: "v = (t, j)" by (cases v)
  have "name_tokens (v # vs) ts = name_tokens vs (ts[j := t])" by (simp add: name_tokens_def v)
  moreover have "(ts[j := t]) ! i = tok" using Cons.prems(1) [of t j] Cons.prems(2,3) v by (cases "i = j") auto
  ultimately show ?case using Cons.IH [of "ts[j := t]"] Cons.prems by auto
qed (simp add: name_tokens_def)

lemma name_tokens_set:
  assumes "(tok, i) \<in> set vs" "distinct (map snd vs)" "i < length ts"
  shows "name_tokens vs ts ! i = tok"
  using assms
proof (induction vs arbitrary: ts)
  case (Cons v vs)
  obtain t j where v: "v = (t, j)" by (cases v)
  have step: "name_tokens (v # vs) ts = name_tokens vs (ts[j := t])" by (simp add: name_tokens_def v)
  show ?case
  proof (cases "(tok, i) = v")
    case True
    then have "i \<notin> set (map snd vs)" using Cons.prems(2) v by auto
    then have "name_tokens vs (ts[j := t]) ! i = tok"
      using True v Cons.prems(3) by (intro name_tokens_keep) (auto simp: image_iff)
    then show ?thesis by (simp add: step)
  next
    case False
    then show ?thesis unfolding step using Cons.IH [of "ts[j := t]"] Cons.prems by auto
  qed
qed simp

section \<open>A parsed tokenizer\<close>

text \<open>What the tokenizer files guarantee and the code relies on: token texts and ids of the vocabulary
  are distinct, and an added token that reuses a vocabulary id has that token's text.\<close>

definition file_ok :: "tk_file \<Rightarrow> bool" where
  "file_ok f \<longleftrightarrow> distinct (map fst (tf_vocab f)) \<and> distinct (map snd (tf_vocab f))
     \<and> (\<forall>(i, c) \<in> set (tf_added f). \<forall>(t, j) \<in> set (tf_vocab f). i = j \<longrightarrow> c = t)"

definition spells :: "tk_file \<Rightarrow> nat \<Rightarrow> string \<Rightarrow> bool" where
  "spells f i bs \<longleftrightarrow> map_of (tf_vocab f) (enc_bytes bs) = Some i"

lemma parsed_fields:
  assumes "tk_parse compile f = Inr t"
  shows
    "tk_tokens t = name_tokens (map (\<lambda>(i, c). (c, i)) (tf_added f)) (name_tokens (tf_vocab f)
       (replicate (table_size (map snd (tf_vocab f) @ map fst (tf_added f))) []))"
    "tk_specials t = add_specials (tf_added f) Map.empty"
    "byte_table (tf_vocab f) 0 byte_chars (replicate 256 0) Map.empty = Inr (tk_byte_ids t, tk_char_bytes t)"
    "merge_table (tf_vocab f) 0 (tf_merges f) Map.empty = Inr (tk_merges t)"
    "compile_splits compile (tf_patterns f) = Inr (tk_splits t)"
  using assms by (auto simp: tk_parse_def Let_def and_then_eq_Inr)

lemma vocab_token:
  assumes "tk_parse compile f = Inr t" "file_ok f" "map_of (tf_vocab f) tok = Some i"
  shows "i < length (tk_tokens t) \<and> tk_tokens t ! i = tok"
proof -
  let ?size = "table_size (map snd (tf_vocab f) @ map fst (tf_added f))"
  have mem: "(tok, i) \<in> set (tf_vocab f)" using assms(3) by (rule map_of_SomeD)
  then have i: "i < ?size" by (intro table_size_bound) force
  have v: "name_tokens (tf_vocab f) (replicate ?size []) ! i = tok"
    using mem assms(2) i by (intro name_tokens_set) (simp_all add: file_ok_def)
  have "name_tokens (map (\<lambda>(i, c). (c, i)) (tf_added f)) (name_tokens (tf_vocab f) (replicate ?size [])) ! i = tok"
  proof (rule name_tokens_keep [OF _ v])
    show "c = tok" if "(c, j) \<in> set (map (\<lambda>(i, c). (c, i)) (tf_added f))" "i = j" for c j
      using assms(2) mem that unfolding file_ok_def by fastforce
  qed (use i in simp)
  then show ?thesis using i by (simp add: parsed_fields(1) [OF assms(1)])
qed

lemma parsed_bytes:
  assumes "tk_parse compile f = Inr t"
  shows "spells f (tk_byte_ids t ! of_char b) [b]" "tk_char_bytes t (enc_byte b) = Some b"
proof -
  have d: "distinct (map encode_char byte_chars)"
    using byte_chars_facts by (auto simp: distinct_map intro!: inj_onI encode_char_inject)
  have bt: "byte_table (tf_vocab f) 0 byte_chars (replicate 256 0) Map.empty = Inr (tk_byte_ids t, tk_char_bytes t)"
    by (rule parsed_fields(3) [OF assms])
  have "\<forall>i < length byte_chars. map_of (tf_vocab f) (encode_char (byte_chars ! i)) = Some (tk_byte_ids t ! (0 + i))
      \<and> tk_char_bytes t (encode_char (byte_chars ! i)) = Some (char_of (0 + i))"
    using byte_table_ok [OF bt _ d] byte_chars_facts(1) by simp
  then show "spells f (tk_byte_ids t ! of_char b) [b]" "tk_char_bytes t (enc_byte b) = Some b"
    using byte_chars_facts(1) char_less_256 [of b] by (simp_all add: spells_def enc_bytes_single enc_byte_def)
qed

lemma parsed_merges:
  assumes "tk_parse compile f = Inr t" "file_ok f" "tk_merges t (i, j) = Some (r, k)" "spells f i p" "spells f j q"
  shows "spells f k (p @ q)"
proof -
  have mt: "merge_table (tf_vocab f) 0 (tf_merges f) Map.empty = Inr (tk_merges t)"
    by (rule parsed_fields(4) [OF assms(1)])
  obtain a b where ab: "map_of (tf_vocab f) a = Some i" "map_of (tf_vocab f) b = Some j"
    "map_of (tf_vocab f) (a @ b) = Some k"
    using merge_table_ok [OF mt assms(3)] by auto
  have "a = enc_bytes p" "b = enc_bytes q"
    using vocab_token [OF assms(1,2)] ab assms(4,5) unfolding spells_def by metis+
  then show ?thesis using ab(3) by (simp add: spells_def enc_bytes_append)
qed

lemma spells_token_bytes:
  assumes "tk_parse compile f = Inr t" "file_ok f" "spells f i bs"
  shows "token_bytes t i = bs"
  using vocab_token [OF assms(1,2) assms(3) [unfolded spells_def]] parsed_bytes(2) [OF assms(1)]
  by (simp add: token_bytes_def chars_enc_bytes list_all_iff comp_def)

section \<open>The merge loop\<close>

lemma merge_pairs_spelled:
  assumes "list_all2 P symbols parts" "\<And>p q. P a p \<Longrightarrow> P b q \<Longrightarrow> P m (p @ q)"
  shows "\<exists>parts'. list_all2 P (merge_pairs a b m symbols) parts' \<and> concat parts' = concat parts"
  using assms
proof (induction a b m symbols arbitrary: parts rule: merge_pairs.induct)
  case (1 a b m x y r)
  obtain p q ps where parts: "parts = p # q # ps" "P x p" "P y q" "list_all2 P r ps"
    using 1(3) by (auto simp: list_all2_Cons1)
  show ?case
  proof (cases "x = a \<and> y = b")
    case True
    obtain ps' where "list_all2 P (merge_pairs a b m r) ps'" "concat ps' = concat ps"
      using 1(1) [OF True parts(4) 1(4)] by blast
    then show ?thesis using True parts 1(4) [of p q] by (intro exI [of _ "(p @ q) # ps'"]) auto
  next
    case False
    have "list_all2 P (y # r) (q # ps)" using parts by simp
    then obtain ps' where "list_all2 P (merge_pairs a b m (y # r)) ps'" "concat ps' = concat (q # ps)"
      using 1(2) [OF False _ 1(4)] by blast
    then show ?thesis using False parts by (intro exI [of _ "p # ps'"]) auto
  qed
qed (auto intro: exI)

lemma bpe_loop_spelled:
  assumes "list_all2 P symbols parts"
    and merge: "\<And>i j r k p q. merges (i, j) = Some (r, k) \<Longrightarrow> P i p \<Longrightarrow> P j q \<Longrightarrow> P k (p @ q)"
  shows "\<exists>parts'. list_all2 P (bpe_loop merges symbols) parts' \<and> concat parts' = concat parts"
  using assms(1)
proof (induction symbols arbitrary: parts rule: measure_induct_rule [of length])
  case (less symbols)
  show ?case
  proof (cases "1 < length symbols \<and> best_pair merges symbols \<noteq> None")
    case False
    then have "bpe_loop merges symbols = symbols" by (subst bpe_loop.simps) (auto split: option.split)
    then show ?thesis using less.prems by auto
  next
    case True
    then obtain rank a b where best: "best_pair merges symbols = Some (rank, a, b)" by auto
    obtain k where k: "merges (a, b) = Some (rank, k)" "(a, b) \<in> set (windows2 symbols)"
      using best_pair_mem [OF best] by auto
    have step: "bpe_loop merges symbols = bpe_loop merges (merge_pairs a b k symbols)"
      using True best k by (subst bpe_loop.simps) (simp add: merge_in_place_pairs)
    obtain ps where ps: "list_all2 P (merge_pairs a b k symbols) ps" "concat ps = concat parts"
      using merge_pairs_spelled [OF less.prems merge [OF k(1)]] by blast
    from less.IH [OF merge_pairs_shorter(1) [OF k(2)] ps(1)] show ?thesis unfolding step ps(2) .
  qed
qed

lemma bpe_spelled:
  assumes "tk_parse compile f = Inr t" "file_ok f"
  shows "\<exists>parts. list_all2 (spells f) (bpe t bs) parts \<and> concat parts = bs"
proof -
  have "list_all2 (spells f) (map (\<lambda>b. tk_byte_ids t ! of_char b) bs) (map (\<lambda>b. [b]) bs)"
    using parsed_bytes(1) [OF assms(1)] by (simp add: list_all2_conv_all_nth)
  from bpe_loop_spelled [OF this parsed_merges [OF assms]] show ?thesis
    by (auto simp: bpe_def comp_def)
qed

section \<open>Pieces\<close>

text \<open>The documented behaviour of a match iterator: matches come in order, do not overlap and lie in
  the text.\<close>

fun ranges_ok :: "nat \<Rightarrow> nat \<Rightarrow> (nat \<times> nat) option list \<Rightarrow> bool" where
  "ranges_ok n last_end [] = True"
| "ranges_ok n last_end (None # ms) = True"
| "ranges_ok n last_end (Some (i, j) # ms) = (last_end \<le> i \<and> i \<le> j \<and> j \<le> n \<and> ranges_ok n j ms)"

definition engine_ok :: "(string \<Rightarrow> regex option) \<Rightarrow> bool" where
  "engine_ok compile \<longleftrightarrow> (\<forall>p re text. compile p = Some re \<longrightarrow> ranges_ok (length text) 0 (re text))"

lemma slice_join: "i \<le> j \<Longrightarrow> slice s i j @ drop j s = drop i s"
  by (metis append_take_drop_id drop_drop le_add_diff_inverse2 slice_def)

lemma split_matches_concat:
  "ranges_ok (length tx) last_end ms \<Longrightarrow> concat (split_matches tx last_end ms) = drop last_end tx"
proof (induction tx last_end ms rule: split_matches.induct)
  case (3 tx le i j ms)
  then have r: "le \<le> i" "i \<le> j" "concat (split_matches tx j ms) = drop j tx" by simp_all
  have "concat (split_matches tx le (Some (i, j) # ms)) = slice tx le i @ slice tx i j @ drop j tx"
    using r by (auto simp: slice_def)
  then show ?case using r slice_join by simp
qed auto

lemma concat_concat: "concat (concat xs) = concat (map concat xs)"
  by (induction xs) simp_all

lemma encode_pieces_concat:
  assumes "\<forall>re \<in> set res. \<forall>text. ranges_ok (length text) 0 (re text)"
  shows "concat (fold (\<lambda>re pieces. concat (map (split_isolated re) pieces)) res pieces) = concat pieces"
  using assms
proof (induction res arbitrary: pieces)
  case (Cons re res)
  have "concat (split_isolated re p) = p" for p
    using Cons.prems split_matches_concat [of p 0 "re p"] by (simp add: split_isolated_def)
  then have "concat (concat (map (split_isolated re) pieces)) = concat pieces"
    by (simp add: concat_concat map_concat comp_def)
  then show ?case using Cons.IH [of "concat (map (split_isolated re) pieces)"] Cons.prems by simp
qed simp

lemma parsed_splits:
  assumes "tk_parse compile f = Inr t" "engine_ok compile" "re \<in> set (tk_splits t)"
  shows "ranges_ok (length text) 0 (re text)"
proof -
  have "compile_splits compile (tf_patterns f) = Inr (tk_splits t)" by (rule parsed_fields(5) [OF assms(1)])
  then obtain p where "compile p = Some re"
    using assms(3) unfolding compile_splits_def by (auto dest!: try_map_mem)
  then show ?thesis using assms(2) by (simp add: engine_ok_def)
qed

lemma encode_spelled:
  assumes "tk_parse compile f = Inr t" "file_ok f" "i \<in> set (encode t text)"
  shows "\<exists>bs. spells f i bs"
proof -
  obtain piece where "i \<in> set (bpe t piece)" using assms(3) by (auto simp: encode_def)
  then show ?thesis using bpe_spelled [OF assms(1,2), of piece] by (auto simp: list_all2_conv_all_nth in_set_conv_nth)
qed

lemma encode_bytes:
  assumes "tk_parse compile f = Inr t" "file_ok f" "engine_ok compile"
  shows "concat (map (token_bytes t) (encode t text)) = text"
proof -
  have piece: "concat (map (token_bytes t) (bpe t p)) = p" for p
  proof -
    obtain parts where parts: "list_all2 (spells f) (bpe t p) parts" "concat parts = p"
      using bpe_spelled [OF assms(1,2)] by blast
    then have "map (token_bytes t) (bpe t p) = parts"
      using spells_token_bytes [OF assms(1,2)] by (simp add: list_all2_conv_all_nth list_eq_iff_nth_eq)
    then show ?thesis using parts(2) by simp
  qed
  have "concat (map (token_bytes t) (encode t text)) = concat (map (\<lambda>p. p) (encode_pieces t text))"
    by (simp add: encode_def map_concat concat_concat comp_def piece)
  also have "\<dots> = text"
    using encode_pieces_concat parsed_splits [OF assms(1,3)] by (simp add: encode_pieces_def)
  finally show ?thesis .
qed

lemma number_keys_ok:
  assumes "number_keys ks keys = (m, keys')" "length keys + length ks < 2 ^ 32"
    "snd ` set keys = {..<length keys}" "distinct (map fst keys)" "inj_on snd (set keys)"
  shows "length m = length ks \<and> (\<forall>i < length ks. map_of keys' (ks ! i) = Some (m ! i))
    \<and> snd ` set keys' = {..<length keys'} \<and> distinct (map fst keys') \<and> inj_on snd (set keys')
    \<and> map_of keys \<subseteq>\<^sub>m map_of keys' \<and> length keys' \<le> length keys + length ks
    \<and> set m \<union> snd ` set keys = snd ` set keys'"
  using assms
proof (induction ks arbitrary: keys m)
  case (Cons k ks)
  show ?case
  proof (cases "map_of keys k")
    case (Some n)
    obtain m' where m': "number_keys ks keys = (m', keys')" "m = n # m'"
      using Cons.prems(1) Some by (auto split: prod.splits)
    have IH: "length m' = length ks" "\<forall>i < length ks. map_of keys' (ks ! i) = Some (m' ! i)"
      "snd ` set keys' = {..<length keys'}" "distinct (map fst keys')" "inj_on snd (set keys')"
      "map_of keys \<subseteq>\<^sub>m map_of keys'" "length keys' \<le> length keys + length ks"
      "set m' \<union> snd ` set keys = snd ` set keys'"
      using Cons.IH [OF m'(1) _ Cons.prems(3-5)] Cons.prems(2) by auto
    have k: "map_of keys' k = Some n" using IH(6) Some unfolding map_le_def by (metis domI)
    have "n \<in> snd ` set keys" using map_of_SomeD [OF Some] by force
    then have "set m \<union> snd ` set keys = snd ` set keys'" using IH(8) m'(2) by auto
    then show ?thesis using IH k m'(2) by (auto simp: nth_Cons split: nat.splits)
  next
    case None
    let ?keys = "(k, length keys) # keys"
    obtain m' where m': "number_keys ks ?keys = (m', keys')" "m = length keys # m'"
      using Cons.prems(1,2) None by (auto simp: Let_def split: prod.splits)
    have fresh: "k \<notin> fst ` set keys" using None by (simp add: map_of_eq_None_iff)
    have "length keys \<notin> snd ` set keys" using Cons.prems(3) by simp
    then have "inj_on snd (set ?keys)" using Cons.prems(5) by (auto simp: inj_on_def image_iff)
    moreover have "snd ` set ?keys = {..<length ?keys}" using Cons.prems(3) by auto
    moreover have "distinct (map fst ?keys)" using fresh Cons.prems(4) by simp
    ultimately have IH: "length m' = length ks" "\<forall>i < length ks. map_of keys' (ks ! i) = Some (m' ! i)"
      "snd ` set keys' = {..<length keys'}" "distinct (map fst keys')" "inj_on snd (set keys')"
      "map_of ?keys \<subseteq>\<^sub>m map_of keys'" "length keys' \<le> length ?keys + length ks"
      "set m' \<union> snd ` set ?keys = snd ` set keys'"
      using Cons.IH [OF m'(1)] Cons.prems(2) by (simp_all del: fun_upd_apply)
    have le: "map_of keys \<subseteq>\<^sub>m map_of ?keys" using None by (auto simp: map_le_def)
    have "map_of keys' k = Some (length keys)" using IH(6) by (force simp: map_le_def)
    then show ?thesis
      using IH map_le_trans [OF le IH(6)] m'(2) by (auto simp: nth_Cons split: nat.splits)
  qed
qed auto

lemma fold_upd_mem:
  "fold (\<lambda>(i, content) m. m(content \<mapsto> i)) xs m name = Some i \<Longrightarrow> (i, name) \<in> set xs \<or> m name = Some i"
  by (induction xs arbitrary: m) (fastforce split: if_splits prod.splits)+

lemma encode_no_special:
  assumes "tk_parse compile f = Inr t" "file_ok f" "special t name = Inr i"
    and "i \<notin> snd ` set (tf_vocab f) \<or> (\<exists>c \<in> set (chars name). c \<notin> range enc_byte)"
  shows "i \<notin> set (encode t s)"
proof
  assume "i \<in> set (encode t s)"
  then obtain bs where bs: "map_of (tf_vocab f) (enc_bytes bs) = Some i"
    using encode_spelled [OF assms(1,2)] unfolding spells_def by blast
  have mem: "(enc_bytes bs, i) \<in> set (tf_vocab f)" using bs by (rule map_of_SomeD)
  have "tk_specials t name = Some i" using assms(3) by (simp add: special_def)
  then have "(i, name) \<in> set (tf_added f)"
    unfolding parsed_fields(2) [OF assms(1)] add_specials_def using fold_upd_mem by fastforce
  then have "name = enc_bytes bs" using assms(2) mem unfolding file_ok_def by fastforce
  then show False using assms(4) mem by (force simp: chars_enc_bytes)
qed

section \<open>Properties\<close>

text \<open>C30: Tokenizing loses nothing: for a tokenizer built from a well-formed file, decoding the encoding
  of any text gives the text back, whatever the split expressions match.\<close>

theorem encode_decode:
  assumes "tk_parse compile f = Inr t" "file_ok f" "engine_ok compile" "utf8 s"
  shows "decode t (encode t s) = s"
  using encode_bytes [OF assms(1-3)] utf8_lossy [OF assms(4)] by (simp add: decode_def)

text \<open>User text cannot forge a special token: no text encodes to a special token's id when the id
  is not in the vocabulary, or when the special token's text has a character outside the byte
  alphabet (as the role markers do).\<close>

theorem encode_never_special:
  assumes "tk_parse compile f = Inr t" "file_ok f" "special t name = Inr i"
    and "i \<notin> snd ` set (tf_vocab f) \<or> (\<exists>c \<in> set (chars name). c \<notin> range enc_byte)"
  shows "i \<notin> set (encode t s)"
  using encode_no_special [OF assms] .

text \<open>The compressed token map numbers the classes of tokens with equal keys: it has one entry per
  token, two tokens share a number exactly when their keys are equal, and the numbers are exactly
  those below the reported size.\<close>

theorem compressed_map_classes:
  assumes "compressed_map u t = (m, n)" "length (tk_tokens t) < 2 ^ 32"
  shows "length m = length (tk_tokens t) \<and> set m = {..<n}
    \<and> (\<forall>i < length m. \<forall>j < length m. m ! i = m ! j \<longleftrightarrow> token_key u t i = token_key u t j)"
proof -
  let ?ks = "map (token_key u t) [0..<length (tk_tokens t)]"
  obtain keys where nk: "number_keys ?ks [] = (m, keys)" and n: "n = length keys mod 2 ^ 32"
    using assms(1) by (auto simp: compressed_map_def split: prod.splits)
  have ok: "length m = length ?ks" "\<forall>i < length ?ks. map_of keys (?ks ! i) = Some (m ! i)"
    "snd ` set keys = {..<length keys}" "distinct (map fst keys)" "inj_on snd (set keys)"
    "length keys \<le> length ?ks" "set m = snd ` set keys"
    using number_keys_ok [OF nk] assms(2) by auto
  have key: "m ! i = m ! j \<longleftrightarrow> ?ks ! i = ?ks ! j" if "i < length ?ks" "j < length ?ks" for i j
  proof -
    have "(?ks ! i, m ! i) \<in> set keys" "(?ks ! j, m ! j) \<in> set keys"
      using ok(2) that map_of_SomeD by fast+
    then show ?thesis using ok(2,5) that unfolding inj_on_def by (metis fst_conv option.inject snd_conv)
  qed
  show ?thesis using key ok(1,3,6,7) n assms(2) by simp
qed

text \<open>A tokenizer over the byte alphabet with one merge and one role marker.\<close>

definition demo_marker :: string where
  "demo_marker = ''<'' @ encode_char 0xFF5C @ ''User'' @ encode_char 0xFF5C @ ''>''"

definition demo_tokens :: tk_file where
  "demo_tokens = \<lparr> tf_added = [(300, demo_marker)], tf_patterns = [Some ''x'', None],
     tf_vocab = zip (map encode_char byte_chars) [0..<256] @ [(''he'', 256)], tf_merges = [''h e''] \<rparr>"

definition demo_engine :: "string \<Rightarrow> regex option" where
  "demo_engine p = Some (\<lambda>s. if length s < 3 then [None] else [Some (1, 2)])"

lemma demo_engine_ok: "engine_ok demo_engine"
  by (simp add: engine_ok_def demo_engine_def)

lemma byte_chars_encoded_distinct: "distinct (map encode_char byte_chars)"
  using byte_chars_facts by (auto simp: distinct_map intro!: inj_onI encode_char_inject)

lemma byte_table_total:
  "(\<And>c. c \<in> set cs \<Longrightarrow> map_of vocab (encode_char c) \<noteq> None) \<Longrightarrow> \<exists>r. byte_table vocab k cs ids cb = Inr r"
  by (induction vocab k cs ids cb rule: byte_table.induct) fastforce+

lemma demo_vocab_bytes: "map_of (tf_vocab demo_tokens) (enc_byte b) = Some (of_char b)"
proof -
  have "map_of (zip (map encode_char byte_chars) [0..<256]) (map encode_char byte_chars ! of_char b) = Some ([0..<256] ! of_char b)"
    by (rule map_of_zip_nth) (simp_all add: byte_chars_facts byte_chars_encoded_distinct)
  then show ?thesis using byte_chars_facts(1) char_less_256 [of b] by (simp add: demo_tokens_def enc_byte_def map_add_Some_iff)
qed

lemma he_not_byte: "''he'' \<notin> encode_char ` cs"
  by (auto simp: encode_char_def of_char_of split: if_splits dest!: arg_cong [of _ _ "of_char :: char \<Rightarrow> nat"])

lemma demo_parses: "\<exists>t. tk_parse demo_engine demo_tokens = Inr t \<and> special t demo_marker = Inr 300"
proof -
  have he: "byte_chars ! 104 = 104" "byte_chars ! 101 = 101"
    by (simp_all add: byte_chars_printable byte_printable_def)
  have c: "char_of (104 :: nat) = CHR ''h''" "char_of (101 :: nat) = CHR ''e''" by code_simp+
  have h: "enc_byte (CHR ''h'') = ''h''" "enc_byte (CHR ''e'') = ''e''" by (simp_all add: enc_byte_def he encode_char_def c)
  have "map_of (zip (map encode_char byte_chars) [0..<256]) ''he'' = None"
    using he_not_byte by (auto simp: map_of_eq_None_iff dest!: set_zip_leftD)
  then have v: "map_of (tf_vocab demo_tokens) ''he'' = Some 256" by (simp add: demo_tokens_def map_add_def)
  have "\<exists>m. merge_table (tf_vocab demo_tokens) 0 (tf_merges demo_tokens) Map.empty = Inr m"
    using demo_vocab_bytes [of "CHR ''h''"] demo_vocab_bytes [of "CHR ''e''"] v
    by (simp add: h demo_tokens_def [THEN arg_cong, of tf_merges, simplified] split_once_char_def token_id_def)
  moreover have "\<exists>r. byte_table (tf_vocab demo_tokens) 0 byte_chars (replicate 256 0) Map.empty = Inr r"
  proof (rule byte_table_total)
    fix c assume "c \<in> set byte_chars"
    then obtain k where k: "k < 256" "c = byte_chars ! k" by (auto simp: in_set_conv_nth byte_chars_facts)
    then show "map_of (tf_vocab demo_tokens) (encode_char c) \<noteq> None"
      using demo_vocab_bytes [of "char_of k"] by (simp add: enc_byte_def of_char_of)
  qed
  moreover have "\<exists>ss. compile_splits demo_engine (tf_patterns demo_tokens) = Inr ss"
    by (simp add: demo_tokens_def compile_splits_def demo_engine_def List.map_filter_def)
  ultimately show ?thesis
    by (auto simp: tk_parse_def special_def add_specials_def demo_tokens_def)
qed

lemma demo_file_ok: "file_ok demo_tokens"
proof -
  show ?thesis
    using byte_chars_encoded_distinct byte_chars_facts(1) he_not_byte
    by (auto simp: file_ok_def demo_tokens_def dest: set_zip_rightD)
qed

theorem encode_decode_witness:
  "\<exists>t. tk_parse demo_engine demo_tokens = Inr t \<and> decode t (encode t ''hehe'') = ''hehe''"
proof -
  obtain t where t: "tk_parse demo_engine demo_tokens = Inr t" using demo_parses by blast
  have "utf8 ''hehe''" by (simp add: utf8_def is_cont_def)
  from encode_decode [OF t demo_file_ok demo_engine_ok this] t show ?thesis by blast
qed

theorem encode_never_special_witness:
  "\<exists>t. tk_parse demo_engine demo_tokens = Inr t \<and> special t demo_marker = Inr 300
     \<and> 300 \<notin> set (encode t demo_marker)"
proof -
  obtain t where t: "tk_parse demo_engine demo_tokens = Inr t" "special t demo_marker = Inr 300"
    using demo_parses by blast
  have "300 \<notin> snd ` set (tf_vocab demo_tokens)" by (auto simp: demo_tokens_def dest: set_zip_rightD)
  then show ?thesis using encode_never_special [OF t(1) demo_file_ok t(2)] t by blast
qed

definition plain_unicode :: unicode where
  "plain_unicode = \<lparr> uc_nfkc = id, uc_nfd = id, uc_mark = (\<lambda>_. False), uc_lower = map ascii_lower \<rparr>"

definition tiny_tokenizer :: tokenizer where
  "tiny_tokenizer = \<lparr> tk_tokens = [''a'', ''A'', ''b''], tk_specials = Map.empty, tk_byte_ids = replicate 256 0,
     tk_merges = Map.empty, tk_splits = [], tk_char_bytes = Map.empty \<rparr>"

theorem compressed_map_classes_witness:
  "compressed_map plain_unicode tiny_tokenizer = ([0, 0, 1], 2) \<and> set [0, 0, 1] = {..<2 :: nat}"
proof -
  have c: "compressed_map plain_unicode tiny_tokenizer = ([0, 0, 1], 2)" by code_simp
  have "length (tk_tokens tiny_tokenizer) < 2 ^ 32" by (simp add: tiny_tokenizer_def)
  from compressed_map_classes [OF c this] show ?thesis using c by blast
qed

end
