(* ===== verification/EngramHash.thy ===== *)
theory EngramHash
  imports EngramProps
begin

text \<open>
  Engram n-gram hashing (\<^verbatim>\<open>chatty-metal/src/engram.rs\<close>): which table rows each token position looks
  up.  Rolling hashes are \<^verbatim>\<open>u64\<close> words; the search for primes runs on naturals, as every candidate is
  far below the word size.
\<close>

section \<open>Primes\<close>

text \<open>\<^verbatim>\<open>(3..).step_by(2).take_while(|d| d * d <= n).all(|d| n % d != 0)\<close> from \<open>d\<close> on.\<close>

function no_odd_divisor :: "nat \<Rightarrow> nat \<Rightarrow> bool" where
  "no_odd_divisor n d = (if n < d * d then True else n mod d \<noteq> 0 \<and> no_odd_divisor n (d + 2))"
  by pat_completeness auto
termination
proof (relation "measure (\<lambda>(n, d). n + 3 - d)")
  fix n d :: nat assume "\<not> n < d * d"
  then have "d \<le> n" using le_square [of d] by linarith
  then show "((n, d + 2), n, d) \<in> measure (\<lambda>(n, d). n + 3 - d)" by simp
qed simp

declare no_odd_divisor.simps [simp del]

definition odd_prime :: "nat \<Rightarrow> bool" where
  "odd_prime n \<longleftrightarrow> n mod 2 \<noteq> 0 \<and> no_odd_divisor n 3"

lemma no_odd_divisor_iff:
  "no_odd_divisor n d \<longleftrightarrow> (\<forall>k. (d + 2 * k) * (d + 2 * k) \<le> n \<longrightarrow> n mod (d + 2 * k) \<noteq> 0)"
proof (induction n d rule: no_odd_divisor.induct)
  case (1 n d)
  show ?case
  proof (cases "n < d * d")
    case True
    have "d * d \<le> (d + 2 * k) * (d + 2 * k)" for k by (intro mult_le_mono) simp_all
    then have "\<not> (d + 2 * k) * (d + 2 * k) \<le> n" for k using True by (meson le_trans not_le)
    then show ?thesis using True by (simp add: no_odd_divisor.simps)
  next
    case False
    let ?P = "\<lambda>k. (d + 2 * k) * (d + 2 * k) \<le> n \<longrightarrow> n mod (d + 2 * k) \<noteq> 0"
    have "d + 2 + 2 * k = d + 2 * Suc k" for k by simp
    then have "no_odd_divisor n (d + 2) \<longleftrightarrow> (\<forall>k. ?P (Suc k))" using "1.IH" [OF False] by simp
    moreover have "(\<forall>k. ?P k) \<longleftrightarrow> ?P 0 \<and> (\<forall>k. ?P (Suc k))" by (metis not0_implies_Suc)
    ultimately show ?thesis using False by (subst no_odd_divisor.simps) simp
  qed
qed

text \<open>A number above two with no proper divisor passes the test.\<close>

lemma odd_primeI:
  assumes "2 < n" "\<And>d. d dvd n \<Longrightarrow> d = 1 \<or> d = n" shows "odd_prime n"
proof -
  have "\<not> 2 dvd n" using assms(2) [of 2] assms(1) by auto
  then have "n mod 2 \<noteq> 0" by (simp add: dvd_eq_mod_eq_0)
  moreover have "n mod (3 + 2 * k) \<noteq> 0" if "(3 + 2 * k) * (3 + 2 * k) \<le> n" for k
  proof
    assume "n mod (3 + 2 * k) = 0"
    then have "3 + 2 * k = n" using assms(2) [of "3 + 2 * k"] by (auto simp: dvd_eq_mod_eq_0)
    then have "n * n \<le> n" using that by simp
    then show False using assms(1) by (cases n) auto
  qed
  ultimately show ?thesis by (simp add: odd_prime_def no_odd_divisor_iff)
qed

text \<open>Euclid: there is always a further prime, so the search ends.\<close>

lemma prime_above: "\<exists>n > m. odd_prime n"
proof -
  define F where "F = fact (m + 2) + (1 :: nat)"
  define n where "n = (LEAST d. 1 < d \<and> d dvd F)"
  have "1 < F" using fact_gt_zero [of "m + 2", where ?'a = nat] unfolding F_def by linarith
  then have n: "1 < n \<and> n dvd F" unfolding n_def using LeastI [of "\<lambda>d. 1 < d \<and> d dvd F" F] by simp
  have least: "\<not> (1 < d \<and> d dvd F)" if "d < n" for d using not_less_Least that unfolding n_def by blast
  have big: "m + 2 < n"
  proof (rule ccontr)
    assume "\<not> m + 2 < n"
    then have "n dvd fact (m + 2)" using n by (intro dvd_fact) auto
    then have "n dvd 1" using n unfolding F_def by (metis dvd_add_right_iff)
    then show False using n by simp
  qed
  have "odd_prime n"
  proof (rule odd_primeI)
    fix d assume d: "d dvd n"
    have "d \<le> n" "d \<noteq> 0" using d n by (auto dest: dvd_imp_le intro: ccontr)
    moreover have "d dvd F" using d n dvd_trans by blast
    ultimately show "d = 1 \<or> d = n" using least [of d] by linarith
  qed (use big in linarith)
  then show ?thesis using big by (meson add_lessD1)
qed

function find_prime :: "nat \<Rightarrow> nat" where
  "find_prime n = (if odd_prime n then n else find_prime (n + 1))"
  by pat_completeness auto
termination
proof (relation "measure (\<lambda>n. (LEAST p. n \<le> p \<and> odd_prime p) - n)")
  fix n :: nat assume no: "\<not> odd_prime n"
  obtain p where "n < p \<and> odd_prime p" using prime_above by blast
  then have p: "n \<le> (LEAST p. n \<le> p \<and> odd_prime p) \<and> odd_prime (LEAST p. n \<le> p \<and> odd_prime p)"
    using LeastI [of "\<lambda>p. n \<le> p \<and> odd_prime p" p] by simp
  have "(\<lambda>p. n + 1 \<le> p \<and> odd_prime p) = (\<lambda>p. n \<le> p \<and> odd_prime p)"
  proof
    fix q show "(n + 1 \<le> q \<and> odd_prime q) = (n \<le> q \<and> odd_prime q)" using no by (cases "q = n") auto
  qed
  then have "(LEAST p. n + 1 \<le> p \<and> odd_prime p) = (LEAST p. n \<le> p \<and> odd_prime p)" by (rule arg_cong)
  moreover have "n < (LEAST p. n \<le> p \<and> odd_prime p)" using no p by (metis order_le_less)
  ultimately show "(n + 1, n) \<in> measure (\<lambda>n. (LEAST p. n \<le> p \<and> odd_prime p) - n)" by simp
qed simp

declare find_prime.simps [simp del]

definition next_prime :: "nat \<Rightarrow> nat" where
  "next_prime after = find_prime (after + 1)"

lemma find_prime_props:
  "n \<le> find_prime n \<and> odd_prime (find_prime n) \<and> (\<forall>m. n \<le> m \<and> m < find_prime n \<longrightarrow> \<not> odd_prime m)"
proof (induction n rule: find_prime.induct)
  case (1 n)
  show ?case
  proof (cases "odd_prime n")
    case True
    then show ?thesis by (auto simp: find_prime.simps)
  next
    case False
    then have "find_prime n = find_prime (n + 1)" by (subst find_prime.simps) simp
    then show ?thesis using 1 [OF False] False by (metis Suc_eq_plus1 Suc_leD Suc_leI order_le_less)
  qed
qed

section \<open>The hasher\<close>

definition MAX_NGRAM :: nat where "MAX_NGRAM = 4"
definition NGRAM_HEADS :: nat where "NGRAM_HEADS = 8"
definition HASH_COLS :: nat where "HASH_COLS = (MAX_NGRAM - 1) * NGRAM_HEADS"
definition FIRST_PRIME_AFTER :: nat where "FIRST_PRIME_AFTER = 15999999"
definition COMPRESSED_VOCAB :: nat where "COMPRESSED_VOCAB = 99092"
definition PAD_TOKEN :: nat where "PAD_TOKEN = 2"

definition MULTIPLIERS :: "(nat \<times> u64 list) list" where
  "MULTIPLIERS =
     [(1, [76632096046245, 4839876093313, 35959672319349, 73987337458391]),
      (14, [67716810739261, 51510806800915, 30921347202721, 82619226485591])]"

record layer_hash =
  lh_multipliers :: "u64 list"
  lh_primes :: "nat list"
  lh_offsets :: "nat list"

record engram_hasher =
  eh_map :: "nat list"
  eh_pad :: nat
  eh_layers :: "layer_hash list"
  eh_history :: "nat list"

text \<open>The columns of one layer: the next primes, each offset by the sum of those before.\<close>

fun prime_columns :: "nat list \<Rightarrow> nat \<Rightarrow> nat \<Rightarrow> nat list \<times> nat list \<times> nat \<times> nat" where
  "prime_columns [] candidate tot = ([], [], candidate, tot)"
| "prime_columns (_ # cols) candidate tot =
     (let p = next_prime candidate in
      case prime_columns cols p (tot + p) of
        (primes, offsets, candidate', tot') \<Rightarrow> (p # primes, tot # offsets, candidate', tot'))"

fun hash_layers :: "nat \<Rightarrow> (nat \<times> nat) list \<Rightarrow> store_error + layer_hash list" where
  "hash_layers candidate [] = Inr []"
| "hash_layers candidate ((layer, table_rows) # rest) =
     (case map_of MULTIPLIERS layer of
        None \<Rightarrow> Inl (EInvalid ''no hash multipliers for engram layer'')
      | Some ms \<Rightarrow>
          (case prime_columns [0..<HASH_COLS] candidate 0 of
             (primes, offsets, candidate', tot) \<Rightarrow>
               if tot \<noteq> table_rows then Inl (EInvalid ''engram layer rows differ from its primes' sum'')
               else and_then (hash_layers candidate' rest) (\<lambda>ls.
                 Inr (\<lparr> lh_multipliers = ms, lh_primes = primes, lh_offsets = offsets \<rparr> # ls))))"

definition engram_hasher_new :: "nat list \<Rightarrow> nat \<Rightarrow> nat list \<Rightarrow> nat list \<Rightarrow> store_error + engram_hasher" where
  "engram_hasher_new tokens vocab layer_ids rows =
     (if vocab \<noteq> COMPRESSED_VOCAB then Inl (EInvalid ''compressed vocabulary'')
      else if length layer_ids \<noteq> length rows then Inl (EInvalid ''engram layers and rows differ in length'')
      else if length tokens \<le> PAD_TOKEN then Inl (EInvalid ''token map has no pad token'')
      else and_then (hash_layers FIRST_PRIME_AFTER (zip layer_ids rows)) (\<lambda>layers.
        Inr \<lparr> eh_map = tokens, eh_pad = tokens ! PAD_TOKEN, eh_layers = layers, eh_history = [] \<rparr>))"

definition look_back :: "engram_hasher \<Rightarrow> nat \<Rightarrow> nat \<Rightarrow> nat" where
  "look_back h position shift =
     (if shift \<le> position then eh_history h ! (position - shift) else eh_pad h)"

text \<open>The sum does not wrap: it stays below the table's row count (lemma \<open>column_row_bound\<close>).\<close>

definition column_row :: "layer_hash \<Rightarrow> u64 \<Rightarrow> nat \<Rightarrow> nat" where
  "column_row l rolling column = unat rolling mod lh_primes l ! column + lh_offsets l ! column"

fun roll :: "engram_hasher \<Rightarrow> layer_hash \<Rightarrow> nat \<Rightarrow> nat list \<Rightarrow> u64 \<Rightarrow> nat \<Rightarrow> nat list" where
  "roll h l position [] rolling column = []"
| "roll h l position (shift # shifts) rolling column =
     (let rolling = rolling XOR of_nat (look_back h position shift) * lh_multipliers l ! shift in
      if shift = 0 then roll h l position shifts rolling column
      else map (column_row l rolling) [column..<column + NGRAM_HEADS]
        @ roll h l position shifts rolling (column + NGRAM_HEADS))"

definition token_rows :: "engram_hasher \<Rightarrow> nat list" where
  "token_rows h =
     concat (map (\<lambda>l. roll h l (length (eh_history h) - 1) [0..<MAX_NGRAM] 0 0) (eh_layers h))"

definition note_token :: "nat \<Rightarrow> engram_hasher \<Rightarrow> engram_hasher" where
  "note_token i h =
     h\<lparr> eh_history := eh_history h @ [if i < length (eh_map h) then eh_map h ! i else eh_pad h] \<rparr>"

fun push :: "nat list \<Rightarrow> engram_hasher \<Rightarrow> nat list \<times> engram_hasher" where
  "push [] h = ([], h)"
| "push (i # ids) h =
     (let h1 = note_token i h in
      case push ids h1 of (out, h2) \<Rightarrow> (token_rows h1 @ out, h2))"

definition hasher_reset :: "engram_hasher \<Rightarrow> engram_hasher" where
  "hasher_reset h = h\<lparr> eh_history := [] \<rparr>"

text \<open>The lookup of one layer in \<^verbatim>\<open>GpuModel::engram\<close>: the layer's table, its columns of every token, and
  the batch read.\<close>

definition layer_table :: "engram_table list \<Rightarrow> nat \<Rightarrow> nat" where
  "layer_table ts index =
     (case List.find (\<lambda>k. tbl_layer (ts ! k) = index) [0..<length ts] of Some k \<Rightarrow> k | None \<Rightarrow> 0)"

function chunks_exact :: "nat \<Rightarrow> 'a list \<Rightarrow> 'a list list" where
  "chunks_exact n xs = (if n = 0 \<or> length xs < n then [] else take n xs # chunks_exact n (drop n xs))"
  by pat_completeness auto
termination by (relation "measure (length \<circ> snd)") auto

declare chunks_exact.simps [simp del]

definition engram_rows :: "engram_table list \<Rightarrow> nat \<Rightarrow> nat list \<Rightarrow> nat list" where
  "engram_rows ts index hashes =
     (let table = layer_table ts index in
      concat (map (\<lambda>t. take HASH_COLS (drop (table * HASH_COLS) t))
        (chunks_exact (length ts * HASH_COLS) hashes)))"

definition engram_step ::
  "(extent \<Rightarrow> bytes) \<Rightarrow> (nat list \<Rightarrow> bytes list option) \<Rightarrow> engram_table list \<Rightarrow> nat \<Rightarrow> nat list \<Rightarrow> engram_cache
   \<Rightarrow> (store_error + engram_stats) \<times> bytes list \<times> engram_cache" where
  "engram_step rd fault ts index hashes c =
     (let rows = engram_rows ts index hashes in
      lookup_batch rd fault (layer_table ts index) rows (length rows * ec_row_bytes c)
        (replicate (length rows) (replicate (ec_row_bytes c) 0)) c)"

section \<open>Rows stay inside their tables\<close>

definition layer_ok :: "layer_hash \<Rightarrow> nat \<Rightarrow> bool" where
  "layer_ok l table_rows \<longleftrightarrow> length (lh_primes l) = HASH_COLS \<and> length (lh_offsets l) = HASH_COLS
     \<and> (\<forall>c < HASH_COLS. 0 < lh_primes l ! c \<and> lh_offsets l ! c + lh_primes l ! c \<le> table_rows)"

definition hasher_ok :: "engram_hasher \<Rightarrow> nat list \<Rightarrow> bool" where
  "hasher_ok h rows \<longleftrightarrow> list_all2 layer_ok (eh_layers h) rows"

lemma next_prime_props:
  "after < next_prime after" "odd_prime (next_prime after)"
  "after < m \<Longrightarrow> m < next_prime after \<Longrightarrow> \<not> odd_prime m"
  using find_prime_props [of "after + 1"] by (auto simp: next_prime_def)

lemma prime_columns_ok:
  assumes "prime_columns cols candidate tot = (primes, offsets, candidate', tot')"
  shows "length primes = length cols" "length offsets = length cols" "tot \<le> tot'"
    "\<forall>c < length cols. odd_prime (primes ! c) \<and> candidate < primes ! c \<and> tot \<le> offsets ! c
       \<and> offsets ! c + primes ! c \<le> tot'"
    "sorted_wrt (<) primes" "candidate \<le> candidate'" "\<forall>p \<in> set primes. p \<le> candidate'"
proof -
  have "length primes = length cols \<and> length offsets = length cols \<and> tot \<le> tot'
    \<and> (\<forall>c < length cols. odd_prime (primes ! c) \<and> candidate < primes ! c \<and> tot \<le> offsets ! c
         \<and> offsets ! c + primes ! c \<le> tot')
    \<and> sorted_wrt (<) primes \<and> candidate \<le> candidate' \<and> (\<forall>p \<in> set primes. p \<le> candidate')"
    using assms
  proof (induction cols arbitrary: candidate tot primes offsets)
    case (Cons x cols)
    let ?p = "next_prime candidate"
    obtain ps os where r: "prime_columns cols ?p (tot + ?p) = (ps, os, candidate', tot')"
      "primes = ?p # ps" "offsets = tot # os"
      using Cons.prems by (auto simp: Let_def split: prod.splits)
    have IH: "length ps = length cols" "length os = length cols" "tot + ?p \<le> tot'"
      "\<forall>c < length cols. odd_prime (ps ! c) \<and> ?p < ps ! c \<and> tot + ?p \<le> os ! c \<and> os ! c + ps ! c \<le> tot'"
      "sorted_wrt (<) ps" "?p \<le> candidate'" "\<forall>p \<in> set ps. p \<le> candidate'"
      using Cons.IH [OF r(1)] by blast+
    note np = next_prime_props(1,2) [of candidate]
    have "\<forall>p \<in> set ps. ?p < p" using IH(1,4) by (auto simp: in_set_conv_nth)
    moreover have "\<forall>c < length (x # cols). odd_prime (primes ! c) \<and> candidate < primes ! c \<and> tot \<le> offsets ! c
        \<and> offsets ! c + primes ! c \<le> tot'"
    proof (intro allI impI)
      fix c assume "c < length (x # cols)"
      then show "odd_prime (primes ! c) \<and> candidate < primes ! c \<and> tot \<le> offsets ! c \<and> offsets ! c + primes ! c \<le> tot'"
        using IH(3,4) np r(2,3) by (cases c) force+
    qed
    ultimately show ?case using IH np r(2,3) by simp
  qed simp
  then show "length primes = length cols" "length offsets = length cols" "tot \<le> tot'"
    "\<forall>c < length cols. odd_prime (primes ! c) \<and> candidate < primes ! c \<and> tot \<le> offsets ! c
       \<and> offsets ! c + primes ! c \<le> tot'"
    "sorted_wrt (<) primes" "candidate \<le> candidate'" "\<forall>p \<in> set primes. p \<le> candidate'" by blast+
qed

lemma hash_layers_ok:
  assumes "hash_layers candidate lrs = Inr ls"
  shows "list_all2 layer_ok ls (map snd lrs) \<and> sorted_wrt (<) (concat (map lh_primes ls))
    \<and> (\<forall>p \<in> set (concat (map lh_primes ls)). odd_prime p \<and> candidate < p)"
  using assms
proof (induction candidate lrs arbitrary: ls rule: hash_layers.induct)
  case (2 candidate layer table_rows rest)
  obtain ms primes offsets candidate' tot where pc: "map_of MULTIPLIERS layer = Some ms"
    "prime_columns [0..<HASH_COLS] candidate 0 = (primes, offsets, candidate', tot)"
    using "2.prems" by (cases "map_of MULTIPLIERS layer") (auto split: prod.splits)
  then obtain rs where tot: "tot = table_rows" and rs: "hash_layers candidate' rest = Inr rs"
    and ls: "ls = \<lparr> lh_multipliers = ms, lh_primes = primes, lh_offsets = offsets \<rparr> # rs"
    using "2.prems" by (auto simp: and_then_eq_Inr split: if_splits)
  note P = prime_columns_ok [OF pc(2)]
  have IH: "list_all2 layer_ok rs (map snd rest)" "sorted_wrt (<) (concat (map lh_primes rs))"
    "\<forall>p \<in> set (concat (map lh_primes rs)). odd_prime p \<and> candidate' < p"
    using "2.IH" [OF pc(1) pc(2) [symmetric] refl refl _ rs] tot by auto
  have "layer_ok \<lparr> lh_multipliers = ms, lh_primes = primes, lh_offsets = offsets \<rparr> table_rows"
    using P(1,2,4) tot by (auto simp: layer_ok_def)
  moreover have "\<forall>p \<in> set primes. odd_prime p \<and> candidate < p" using P(1,4) by (auto simp: in_set_conv_nth)
  moreover have "\<forall>p \<in> set primes. \<forall>q \<in> set (concat (map lh_primes rs)). p < q"
    using P(7) IH(3) by (meson order.strict_trans1)
  moreover have "\<forall>p \<in> set (concat (map lh_primes rs)). odd_prime p \<and> candidate < p"
    using IH(3) P(6) by (meson order.strict_trans1)
  ultimately show ?case using IH(1,2) P(5) ls by (auto simp: sorted_wrt_append)
qed simp

lemma column_row_bound:
  assumes "layer_ok l table_rows" "c < HASH_COLS"
  shows "column_row l rolling c < table_rows"
proof -
  have "unat rolling mod lh_primes l ! c < lh_primes l ! c" using assms by (simp add: layer_ok_def)
  moreover have "lh_offsets l ! c + lh_primes l ! c \<le> table_rows" using assms by (simp add: layer_ok_def)
  ultimately show ?thesis unfolding column_row_def by linarith
qed

lemma token_layer_rows:
  "roll h l position [0..<MAX_NGRAM] 0 0 = roll h l position [0, 1, 2, 3] 0 0"
proof -
  have "[0..<MAX_NGRAM] = [0, 1, 2, 3]" by (simp add: MAX_NGRAM_def upt_conv_Cons)
  then show ?thesis by simp
qed

lemma roll_ok:
  assumes "layer_ok l table_rows"
  shows "length (roll h l position [0..<MAX_NGRAM] 0 0) = HASH_COLS"
    "\<forall>r \<in> set (roll h l position [0..<MAX_NGRAM] 0 0). r < table_rows"
  unfolding token_layer_rows using column_row_bound [OF assms]
  by (auto simp: Let_def HASH_COLS_def MAX_NGRAM_def NGRAM_HEADS_def)

text \<open>The rows of one token are a block of columns per layer.\<close>

lemma token_rows_ok:
  assumes "hasher_ok h rows"
  shows "length (token_rows h) = length rows * HASH_COLS"
    "k < length rows \<Longrightarrow> r \<in> set (take HASH_COLS (drop (k * HASH_COLS) (token_rows h))) \<Longrightarrow> r < rows ! k"
proof -
  let ?f = "\<lambda>l. roll h l (length (eh_history h) - 1) [0..<MAX_NGRAM] 0 0"
  have *: "length (concat (map ?f ls)) = length rs * HASH_COLS \<and>
      (\<forall>k < length rs. \<forall>r \<in> set (take HASH_COLS (drop (k * HASH_COLS) (concat (map ?f ls)))). r < rs ! k)"
    if "list_all2 layer_ok ls rs" for ls rs
    using that
  proof (induction ls rs rule: list_all2_induct)
    case (Cons l ls r rs)
    note R = roll_ok [OF Cons.hyps(1), of h "length (eh_history h) - 1"]
    show ?case
    proof (intro conjI allI impI ballI)
      fix k x assume k: "k < length (r # rs)"
        and x: "x \<in> set (take HASH_COLS (drop (k * HASH_COLS) (concat (map ?f (l # ls)))))"
      show "x < (r # rs) ! k"
      proof (cases k)
        case 0
        then show ?thesis using x R by simp
      next
        case (Suc j)
        then show ?thesis using k x R(1) Cons.IH by (auto simp: drop_append)
      qed
    qed (use R(1) Cons.IH in simp)
  qed simp
  show "length (token_rows h) = length rows * HASH_COLS"
    "k < length rows \<Longrightarrow> r \<in> set (take HASH_COLS (drop (k * HASH_COLS) (token_rows h))) \<Longrightarrow> r < rows ! k"
    using * [OF assms [unfolded hasher_ok_def]] unfolding token_rows_def by blast+
qed

lemma note_token_ok [simp]: "hasher_ok (note_token i h) rows \<longleftrightarrow> hasher_ok h rows"
  by (simp add: hasher_ok_def note_token_def)

lemma chunks_exact_append:
  assumes "length x = n" "0 < n" shows "chunks_exact n (x @ xs) = x # chunks_exact n xs"
  using assms by (subst chunks_exact.simps) simp

lemma chunks_exact_length: "b \<in> set (chunks_exact n xs) \<Longrightarrow> length b = n"
proof (induction n xs rule: chunks_exact.induct)
  case (1 n xs)
  then show ?case by (subst (asm) (2) chunks_exact.simps) (auto split: if_splits)
qed

lemma push_ok:
  assumes "hasher_ok h rows" "0 < length rows"
  shows "hasher_ok (snd (push ids h)) rows
    \<and> length (chunks_exact (length rows * HASH_COLS) (fst (push ids h))) = length ids
    \<and> (\<forall>b \<in> set (chunks_exact (length rows * HASH_COLS) (fst (push ids h))). \<forall>k < length rows.
         \<forall>r \<in> set (take HASH_COLS (drop (k * HASH_COLS) b)). r < rows ! k)"
  using assms(1)
proof (induction ids h rule: push.induct)
  case (1 h)
  have "0 < length rows * HASH_COLS" using assms(2) by (simp add: HASH_COLS_def MAX_NGRAM_def NGRAM_HEADS_def)
  then have "chunks_exact (length rows * HASH_COLS) ([] :: nat list) = []" by (subst chunks_exact.simps) simp
  then show ?case using 1 by simp
next
  case (2 i ids h)
  let ?h = "note_token i h"
  obtain out h2 where p: "push ids ?h = (out, h2)" by fastforce
  have ok: "hasher_ok ?h rows" using "2.prems" by simp
  have "0 < length rows * HASH_COLS" using assms(2) by (simp add: HASH_COLS_def MAX_NGRAM_def NGRAM_HEADS_def)
  then have ch: "chunks_exact (length rows * HASH_COLS) (token_rows ?h @ out)
      = token_rows ?h # chunks_exact (length rows * HASH_COLS) out"
    by (rule chunks_exact_append [OF token_rows_ok(1) [OF ok]])
  show ?case using "2.IH" [OF refl ok] token_rows_ok(2) [OF ok] by (simp add: Let_def p ch)
qed

text \<open>Pushing a prompt in pieces gives the same rows and history as pushing it at once.\<close>

lemma push_append:
  "push (xs @ ys) h = (fst (push xs h) @ fst (push ys (snd (push xs h))), snd (push ys (snd (push xs h))))"
  by (induction xs h rule: push.induct) (simp_all add: Let_def split: prod.splits)

text \<open>The catalog's tables have the configured row counts, which is what the hasher is built with.\<close>

lemma catalog_engram_rows:
  assumes "catalog_open ph files cfg wm = Inr c"
  shows "map tbl_rows (cat_engram c) = engram_num_embeddings cfg"
proof -
  obtain b where len: "length (engram_layer_ids cfg) = length (engram_num_embeddings cfg)"
    and fe: "try_map (finish_engram cfg b) (zip (engram_layer_ids cfg) (engram_num_embeddings cfg)) = Inr (cat_engram c)"
    using assms by (auto simp: catalog_open_def Let_def and_then_eq_Inr split: if_splits)
  have "tbl_rows t = snd p" if "finish_engram cfg b p = Inr t" for p t
    using that by (cases p) (auto simp: finish_engram_def split: option.splits prod.splits if_splits)
  note rows = this
  have "list_all2 (\<lambda>p t. finish_engram cfg b p = Inr t)
      (zip (engram_layer_ids cfg) (engram_num_embeddings cfg)) (cat_engram c)"
    using fe by (simp only: try_map_Inr)
  then have "map tbl_rows (cat_engram c) = map snd (zip (engram_layer_ids cfg) (engram_num_embeddings cfg))"
    by (induction rule: list_all2_induct) (simp_all add: rows)
  then show ?thesis using len by simp
qed

section \<open>Properties\<close>

text \<open>A hasher that was built is well formed for the row counts it was built with: the columns of
  all layers are distinct increasing primes, and each layer's columns tile its table without
  reaching past the end.  The search for each prime ends.\<close>

theorem engram_hasher_new_ok:
  assumes "engram_hasher_new tokens vocab layer_ids rows = Inr h"
  shows "hasher_ok h rows \<and> sorted_wrt (<) (concat (map lh_primes (eh_layers h)))
    \<and> (\<forall>p \<in> set (concat (map lh_primes (eh_layers h))). p mod 2 \<noteq> 0 \<and> (\<forall>d. 1 < d \<and> d * d \<le> p \<longrightarrow> p mod d \<noteq> 0))"
proof -
  have hl: "hash_layers FIRST_PRIME_AFTER (zip layer_ids rows) = Inr (eh_layers h)" "length layer_ids = length rows"
    using assms by (auto simp: engram_hasher_new_def and_then_eq_Inr split: if_splits)
  have "p mod d \<noteq> 0" if "odd_prime p" "1 < d" "d * d \<le> p" for p d :: nat
  proof (cases "even d")
    case True
    then show ?thesis using that(1) unfolding odd_prime_def by (metis dvd_eq_mod_eq_0 dvd_trans)
  next
    case False
    then obtain k where "d = 2 * k + 1" by (rule oddE)
    then obtain j where "d = 3 + 2 * j" using \<open>1 < d\<close> by (cases k) auto
    then show ?thesis using that by (auto simp: odd_prime_def no_odd_divisor_iff)
  qed
  then show ?thesis using hash_layers_ok [OF hl(1)] hl(2) by (auto simp: hasher_ok_def odd_prime_def)
qed

theorem engram_hasher_new_ok_witness:
  "\<exists>h r. engram_hasher_new [5, 6, 7] 99092 [14] [r] = Inr h \<and> length (eh_layers h) = 1 \<and> hasher_ok h [r]"
proof -
  obtain ps os c r where pc: "prime_columns [0..<HASH_COLS] FIRST_PRIME_AFTER 0 = (ps, os, c, r)"
    by (metis prod_cases4)
  let ?l = "\<lparr> lh_multipliers = snd (MULTIPLIERS ! 1), lh_primes = ps, lh_offsets = os \<rparr>"
  have "engram_hasher_new [5, 6, 7] 99092 [14] [r] =
      Inr \<lparr> eh_map = [5, 6, 7], eh_pad = 7, eh_layers = [?l], eh_history = [] \<rparr>"
    by (simp add: engram_hasher_new_def COMPRESSED_VOCAB_def PAD_TOKEN_def MULTIPLIERS_def pc numeral_2_eq_2)
  from this engram_hasher_new_ok [OF this] show ?thesis by fastforce
qed

text \<open>C11: The hasher, the catalog's tables and the row cache fit together: for any tokens, every row the
  hasher asks of a layer's table exists, so the lookup either returns exactly the tables' rows (one
  per token and column) or fails because the drive did; it is never rejected as out of bounds.\<close>

theorem engram_step_serves:
  assumes "engram_sound rd ts width c" "hasher_ok h (map tbl_rows ts)" "ts \<noteq> []"
    "length ids * HASH_COLS * width < 2 ^ 64"
  shows "case engram_step rd fault ts index (fst (push ids h)) c of (r, out, c') \<Rightarrow>
    engram_sound rd ts width c' \<and>
    (case r of
       Inr st \<Rightarrow> length out = length ids * HASH_COLS \<and>
         out = map (row_data rd (ts ! layer_table ts index)) (engram_rows ts index (fst (push ids h)))
     | Inl e \<Rightarrow> e = EIo ''read'' \<and> (\<exists>order. fault order \<noteq> None))"
proof -
  let ?t = "layer_table ts index" and ?hs = "fst (push ids h)"
  let ?rows = "engram_rows ts index ?hs"
  have t: "?t < length ts"
    using assms(3) by (auto simp: layer_table_def find_Some_iff split: option.splits)
  have w: "ec_row_bytes c = width" using assms(1) by (simp add: engram_sound_def)
  have P: "length (chunks_exact (length ts * HASH_COLS) ?hs) = length ids"
    "\<forall>b \<in> set (chunks_exact (length ts * HASH_COLS) ?hs). \<forall>k < length ts.
       \<forall>r \<in> set (take HASH_COLS (drop (k * HASH_COLS) b)). r < tbl_rows (ts ! k)"
    using push_ok [OF assms(2), of ids] assms(3) by auto
  have in_range: "r < tbl_rows (ts ! ?t)" if "r \<in> set ?rows" for r
    using that P(2) t by (auto simp: engram_rows_def Let_def)
  have small: "tbl_rows (ts ! ?t) \<le> 2 ^ 48" using assms(1) t by (simp add: engram_sound_def tables_small_def)
  have no_skip: "r \<noteq> ENGRAM_SKIP_ROW" if "r \<in> set ?rows" for r
    using in_range [OF that] small by (auto simp: ENGRAM_SKIP_ROW_def)
  have "length (take HASH_COLS (drop (?t * HASH_COLS) b)) = HASH_COLS"
    if "b \<in> set (chunks_exact (length ts * HASH_COLS) ?hs)" for b
    using chunks_exact_length [OF that] t mult_le_mono1 [of "?t + 1" "length ts" HASH_COLS] by simp
  then have "map length (map (\<lambda>b. take HASH_COLS (drop (?t * HASH_COLS) b)) (chunks_exact (length ts * HASH_COLS) ?hs))
      = replicate (length ids) HASH_COLS"
    using P(1) by (auto simp: comp_def list_eq_iff_nth_eq)
  then have len: "length ?rows = length ids * HASH_COLS"
    by (simp add: engram_rows_def Let_def length_concat sum_list_replicate)
  have spec: "engram_spec rd ts width ?t ?rows (length ?rows * width) = Inr (map (row_data rd (ts ! ?t)) ?rows)"
    using t len assms(4) in_range no_skip
    by (auto simp: engram_spec_def list_ex_iff expected_row_def not_le)
  obtain r out c' where l: "lookup_batch rd fault ?t ?rows (length ?rows * width)
      (replicate (length ?rows) (replicate width 0)) c = (r, out, c')" by (rule prod_cases3)
  have "length (replicate (length ?rows) (replicate width (0 :: u8))) = length ?rows" by simp
  from lookup_refines [OF assms(1) this, of ?t "length ?rows * width" fault]
  show ?thesis using len unfolding engram_step_def Let_def w l spec by (cases r) auto
qed

text \<open>One layer whose columns are all the prime 2, over a table of 48 rows.\<close>

definition demo_layer :: layer_hash where
  "demo_layer = \<lparr> lh_multipliers = [3, 5, 7, 11], lh_primes = replicate 24 2, lh_offsets = map ((*) 2) [0..<24] \<rparr>"

definition demo_hasher :: engram_hasher where
  "demo_hasher = \<lparr> eh_map = [0, 1, 2], eh_pad = 2, eh_layers = [demo_layer], eh_history = [] \<rparr>"

definition wide_table :: engram_table where
  "wide_table = demo_table\<lparr> tbl_rows := 48 \<rparr>"

theorem engram_step_serves_witness:
  "\<exists>out c'. snd (engram_step demo_drive (\<lambda>_. None) [wide_table] 1 (fst (push [1, 0] demo_hasher))
      (demo_engram\<lparr> ec_tables := [wide_table] \<rparr>)) = (out, c') \<and> length out = 48"
proof -
  have "hasher_ok demo_hasher (map tbl_rows [wide_table])"
    by (simp add: hasher_ok_def layer_ok_def demo_hasher_def demo_layer_def wide_table_def HASH_COLS_def
        MAX_NGRAM_def NGRAM_HEADS_def)
  moreover have "engram_sound demo_drive [wide_table] 2 (demo_engram\<lparr> ec_tables := [wide_table] \<rparr>)"
    by (rule zero_tags_sound)
      (simp_all add: demo_engram_def tables_small_def wide_table_def demo_table_def sized_def ENGRAM_WAYS_def)
  ultimately have "case engram_step demo_drive (\<lambda>_. None) [wide_table] 1 (fst (push [1, 0] demo_hasher))
      (demo_engram\<lparr> ec_tables := [wide_table] \<rparr>) of (r, out, c') \<Rightarrow> length out = 48"
    using engram_step_serves [of demo_drive "[wide_table]" 2 "demo_engram\<lparr> ec_tables := [wide_table] \<rparr>"
        demo_hasher "[1, 0]" "\<lambda>_. None" 1]
    by (auto simp: HASH_COLS_def MAX_NGRAM_def NGRAM_HEADS_def split: prod.splits sum.splits)
  then show ?thesis by (auto split: prod.splits)
qed

end
