(* ===== verification/MetalServer.thy ===== *)
theory MetalServer
  imports MetalWire Tokenizer
begin

text \<open>
  The appliance's server (\<^verbatim>\<open>chatty-metal/src/server.rs\<close>): the status board, one generation job and the
  connection handler.  The GPU kernels and the float arithmetic of the sampler are parameters; the
  guards of \<^verbatim>\<open>GpuModel::forward\<close> are modelled.  What other threads do shows up as functions:
  \<open>cancelled k\<close> is what the \<open>k\<close>-th look at the cancel flag sees, \<open>alive n\<close> whether a reply sent after
  \<open>n\<close> others still has a receiver.
\<close>

section \<open>Messages\<close>

record chunk =
  ck_sequence :: nat
  ck_text :: string
  ck_reasoning :: bool

record gen_done =
  dn_finish :: finish_reason
  dn_prompt_tokens :: nat
  dn_completion_tokens :: nat
  dn_decode_ms :: nat

record wire_error =
  we_code :: metal_error_code
  we_message :: string

record hello_ack =
  ha_version :: nat
  ha_model :: string
  ha_context_tokens :: nat
  ha_max_output_tokens :: nat
  ha_state :: server_state
  ha_detail :: string

record status =
  ss_state :: server_state
  ss_detail :: string
  ss_model :: string
  ss_context_tokens :: nat
  ss_uptime_ms :: nat
  ss_tokens_generated :: nat
  ss_requests_served :: nat
  ss_last_tps :: nat
  ss_queue_depth :: nat

datatype event = EvChunk chunk | EvDone gen_done | EvError wire_error

section \<open>The status board\<close>

definition CONTEXT :: nat where "CONTEXT = 2 ^ 16"
definition MAX_CHUNK :: nat where "MAX_CHUNK = 64"

record board =
  bd_state :: server_state
  bd_detail :: string
  bd_model :: string
  bd_tokens_generated :: nat
  bd_requests_served :: nat
  bd_last_tps :: nat
  bd_queue_depth :: nat

definition board_new :: "string \<Rightarrow> board" where
  "board_new model =
     \<lparr> bd_state = Loading, bd_detail = ''loading the model'', bd_model = model, bd_tokens_generated = 0,
       bd_requests_served = 0, bd_last_tps = 0, bd_queue_depth = 0 \<rparr>"

definition board_set :: "server_state \<Rightarrow> string \<Rightarrow> board \<Rightarrow> board" where
  "board_set st detail b = b\<lparr> bd_state := st, bd_detail := detail \<rparr>"

definition snapshot :: "nat \<Rightarrow> board \<Rightarrow> status" where
  "snapshot uptime b =
     \<lparr> ss_state = bd_state b, ss_detail = bd_detail b, ss_model = bd_model b, ss_context_tokens = CONTEXT,
       ss_uptime_ms = uptime, ss_tokens_generated = bd_tokens_generated b,
       ss_requests_served = bd_requests_served b, ss_last_tps = bd_last_tps b mod 2 ^ 32,
       ss_queue_depth = bd_queue_depth b mod 2 ^ 32 \<rparr>"

definition board_hello_ack :: "nat \<Rightarrow> board \<Rightarrow> hello_ack" where
  "board_hello_ack uptime b =
     (let s = snapshot uptime b in
      \<lparr> ha_version = PROTOCOL_VERSION, ha_model = ss_model s, ha_context_tokens = ss_context_tokens s,
        ha_max_output_tokens = MAX_OUTPUT_TOKENS, ha_state = ss_state s, ha_detail = ss_detail s \<rparr>)"

section \<open>The model\<close>

record 'm gpu_model =
  gm_position :: nat
  gm_state :: 'm

datatype gpu_error = ChunkOutside nat | ContextLimited | KernelFailed string

record ('m, 'l) engine =
  eng_kernels :: "nat list \<Rightarrow> nat \<Rightarrow> 'm \<Rightarrow> (string + 'l) \<times> 'm"
  eng_clear :: "'m \<Rightarrow> 'm"
  eng_sample :: "'l \<Rightarrow> sampling \<Rightarrow> u64 \<Rightarrow> nat \<times> u64"
  eng_no_logits :: 'l
  eng_tps :: "nat \<Rightarrow> nat \<Rightarrow> nat"

definition gpu_reset :: "('m, 'l) engine \<Rightarrow> 'm gpu_model \<Rightarrow> 'm gpu_model" where
  "gpu_reset eng m = m\<lparr> gm_position := 0, gm_state := eng_clear eng (gm_state m) \<rparr>"

definition forward :: "('m, 'l) engine \<Rightarrow> nat list \<Rightarrow> 'm gpu_model \<Rightarrow> (gpu_error + 'l) \<times> 'm gpu_model" where
  "forward eng ids m =
     (if length ids = 0 \<or> MAX_CHUNK < length ids then (Inl (ChunkOutside (length ids)), m)
      else if CONTEXT < gm_position m + length ids then (Inl ContextLimited, m)
      else (case eng_kernels eng ids (gm_position m) (gm_state m) of
              (Inl e, s) \<Rightarrow> (Inl (KernelFailed e), m\<lparr> gm_state := s \<rparr>)
            | (Inr logits, s) \<Rightarrow>
                (Inr logits, m\<lparr> gm_state := s, gm_position := gm_position m + length ids \<rparr>)))"

definition gpu_message :: "gpu_error \<Rightarrow> string" where
  "gpu_message e = (case e of
     ChunkOutside m \<Rightarrow> ''chunk of '' @ show_nat m @ '' tokens outside 1..='' @ show_nat MAX_CHUNK
   | ContextLimited \<Rightarrow> ''context is limited to '' @ show_nat CONTEXT @ '' tokens''
   | KernelFailed s \<Rightarrow> s)"

section \<open>The prompt\<close>

definition bar :: string where "bar = encode_char 0xFF5C"
definition low_block :: string where "low_block = encode_char 0x2581"

definition BOS :: string where
  "BOS = ''<'' @ bar @ ''begin'' @ low_block @ ''of'' @ low_block @ ''sentence'' @ bar @ ''>''"
definition USER :: string where "USER = ''<'' @ bar @ ''User'' @ bar @ ''>''"
definition ASSISTANT :: string where "ASSISTANT = ''<'' @ bar @ ''Assistant'' @ bar @ ''>''"
definition EOS :: string where
  "EOS = ''<'' @ bar @ ''end'' @ low_block @ ''of'' @ low_block @ ''sentence'' @ bar @ ''>''"
definition THOUGHT_END :: string where "THOUGHT_END = ''</think>''"

fun marker_name :: "marker \<Rightarrow> string" where
  "marker_name BeginOfSentence = BOS"
| "marker_name User = USER"
| "marker_name Assistant = ASSISTANT"
| "marker_name EndOfSentenceMarker = EOS"
| "marker_name ThoughtEnd = THOUGHT_END"

fun prompt_ids :: "tokenizer \<Rightarrow> piece list \<Rightarrow> tk_error + nat list" where
  "prompt_ids t [] = Inr []"
| "prompt_ids t (Text s # ps) = and_then (prompt_ids t ps) (\<lambda>ids. Inr (encode t s @ ids))"
| "prompt_ids t (Marker m # ps) =
     and_then (special t (marker_name m)) (\<lambda>i. and_then (prompt_ids t ps) (\<lambda>ids. Inr (i # ids)))"

section \<open>One generation\<close>

record ('m, 'l) gen =
  g_model :: "'m gpu_model"
  g_logits :: 'l
  g_rng :: u64
  g_pending :: string
  g_sequence :: nat
  g_completion :: nat
  g_thinking :: bool
  g_reported :: bool
  g_sent :: "event list"
  g_checks :: nat

record world =
  cancelled :: "nat \<Rightarrow> bool"
  alive :: "nat \<Rightarrow> bool"
  decode_ms :: nat

definition send_event :: "world \<Rightarrow> event \<Rightarrow> event list \<Rightarrow> bool \<times> event list" where
  "send_event w ev sent = (if alive w (length sent) then (True, sent @ [ev]) else (False, sent))"

text \<open>Sends a chunk with the next sequence number; \<open>False\<close> when the receiver is gone.\<close>

definition send_chunk :: "world \<Rightarrow> string \<Rightarrow> bool \<Rightarrow> ('m, 'l) gen \<Rightarrow> bool \<times> ('m, 'l) gen" where
  "send_chunk w s reasoning g =
     (case send_event w (EvChunk \<lparr> ck_sequence = g_sequence g, ck_text = s, ck_reasoning = reasoning \<rparr>) (g_sent g) of
        (True, sent) \<Rightarrow> (True, g\<lparr> g_sent := sent, g_sequence := (g_sequence g + 1) mod 2 ^ 32 \<rparr>)
      | (False, sent) \<Rightarrow> (False, g\<lparr> g_sent := sent \<rparr>))"

definition emit_thought :: "world \<Rightarrow> nat option \<Rightarrow> nat \<Rightarrow> ('m, 'l) gen \<Rightarrow> bool \<times> ('m, 'l) gen" where
  "emit_thought w think_end next_id g =
     (let (ok, g) = (if g_reported g then (True, g)
                     else (case send_chunk w [] True g of (ok, g) \<Rightarrow> (ok, if ok then g\<lparr> g_reported := True \<rparr> else g))) in
      if \<not> ok then (False, g)
      else (True, g\<lparr> g_thinking := (if Some next_id = think_end then False else g_thinking g), g_pending := [] \<rparr>))"

definition emit_text :: "world \<Rightarrow> tokenizer \<Rightarrow> nat \<Rightarrow> ('m, 'l) gen \<Rightarrow> bool \<times> ('m, 'l) gen" where
  "emit_text w t next_id g =
     (let pending = g_pending g @ token_bytes t next_id;
          valid = valid_up_to pending in
      if 0 < valid
      then send_chunk w (from_utf8_lossy (take valid pending)) False (g\<lparr> g_pending := drop valid pending \<rparr>)
      else (True, g\<lparr> g_pending := pending \<rparr>))"

definition emit :: "world \<Rightarrow> tokenizer \<Rightarrow> nat option \<Rightarrow> nat \<Rightarrow> ('m, 'l) gen \<Rightarrow> bool \<times> ('m, 'l) gen" where
  "emit w t think_end next_id g =
     (if g_thinking g then emit_thought w think_end next_id g else emit_text w t next_id g)"

datatype outcome = Finished finish_reason | Dropped | Broken gpu_error

lemma send_chunk_completion [simp]:
  "g_completion (snd (send_chunk w s r g)) = g_completion g" "g_model (snd (send_chunk w s r g)) = g_model g"
  "g_checks (snd (send_chunk w s r g)) = g_checks g"
  by (simp_all add: send_chunk_def split: prod.splits bool.splits)

lemma emit_completion [simp]:
  "g_completion (snd (emit w t te n g)) = g_completion g" "g_model (snd (emit w t te n g)) = g_model g"
proof -
  have *: "g_completion g' = g_completion g \<and> g_model g' = g_model g"
    if "send_chunk w s r g = (ok, g')" for s r ok g'
    using send_chunk_completion(1,2) [of w s r g] that by simp
  show "g_completion (snd (emit w t te n g)) = g_completion g" "g_model (snd (emit w t te n g)) = g_model g"
    by (auto simp: emit_def emit_thought_def emit_text_def Let_def dest!: * split: prod.splits if_splits)
qed

text \<open>The decode loop; it ends because every round counts a token against \<open>limit\<close>.\<close>

function decode_loop ::
  "('m, 'l) engine \<Rightarrow> world \<Rightarrow> tokenizer \<Rightarrow> sampling \<Rightarrow> nat \<Rightarrow> nat option \<Rightarrow> nat \<Rightarrow> ('m, 'l) gen \<Rightarrow> outcome \<times> ('m, 'l) gen" where
  "decode_loop eng w t samp stop think_end limit g =
     (if cancelled w (g_checks g) then (Finished Cancelled, g\<lparr> g_checks := g_checks g + 1 \<rparr>)
      else
        (case eng_sample eng (g_logits g) samp (g_rng g) of
           (next_id, rng) \<Rightarrow>
             let g1 = g\<lparr> g_checks := g_checks g + 1, g_rng := rng, g_completion := g_completion g + 1 \<rparr> in
             if next_id = stop then (Finished EndOfSentence, g1)
             else
               (let r = emit w t think_end next_id g1; g2 = snd r in
                if \<not> fst r then (Dropped, g2)
                else if limit \<le> g_completion g2 then (Finished Length, g2)
                else (case forward eng [next_id] (g_model g2) of
                        (Inl e, m) \<Rightarrow> (Broken e, g2\<lparr> g_model := m \<rparr>)
                      | (Inr logits, m) \<Rightarrow>
                          decode_loop eng w t samp stop think_end limit (g2\<lparr> g_model := m, g_logits := logits \<rparr>)))))"
  by pat_completeness auto
termination
  by (relation "measure (\<lambda>(eng, w, t, samp, stop, think_end, limit, g). limit - g_completion g)") auto

declare decode_loop.simps [simp del]

text \<open>The prompt in chunks; \<open>None\<close> when it was cancelled between chunks.\<close>

fun prefill ::
  "('m, 'l) engine \<Rightarrow> world \<Rightarrow> nat list list \<Rightarrow> nat \<Rightarrow> 'l \<Rightarrow> 'm gpu_model \<Rightarrow> (gpu_error + 'l option) \<times> nat \<times> 'm gpu_model" where
  "prefill eng w [] checks logits m = (Inr (Some logits), checks, m)"
| "prefill eng w (ch # chs) checks logits m =
     (case forward eng ch m of
        (Inl e, m) \<Rightarrow> (Inl e, checks, m)
      | (Inr logits, m) \<Rightarrow>
          if cancelled w checks then (Inr None, checks + 1, m) else prefill eng w chs (checks + 1) logits m)"

function chunks :: "nat \<Rightarrow> 'a list \<Rightarrow> 'a list list" where
  "chunks n xs = (if xs = [] \<or> n = 0 then [] else take n xs # chunks n (drop n xs))"
  by pat_completeness auto
termination by (relation "measure (length \<circ> snd)") auto

declare chunks.simps [simp del]

definition finish_event :: "world \<Rightarrow> event \<Rightarrow> event list \<Rightarrow> event list" where
  "finish_event w ev sent = snd (send_event w ev sent)"

definition error_event :: "metal_error_code \<Rightarrow> string \<Rightarrow> event" where
  "error_event code msg = EvError \<lparr> we_code = code, we_message = msg \<rparr>"

text \<open>Names are quoted as they are; the text of a regular expression error is the pattern here.\<close>

definition quoted :: "string \<Rightarrow> string" where
  "quoted s = [CHR 0x22] @ s @ [CHR 0x22]"

fun tk_message :: "tk_error \<Rightarrow> string" where
  "tk_message (NoSpecial name) = ''tokenizer has no special token '' @ quoted name"
| "tk_message (NoByteToken b) = ''tokenizer has no token for byte '' @ show_nat b"
| "tk_message (BadMerge m) = ''bad merge '' @ quoted m"
| "tk_message (UnknownToken name) = ''merge names unknown token '' @ quoted name"
| "tk_message (BadRegex p) = ''tokenizer regex: '' @ p"

definition context_message :: "nat \<Rightarrow> nat \<Rightarrow> string" where
  "context_message prompt_tokens output =
     ''prompt of '' @ show_nat prompt_tokens @ '' tokens plus '' @ show_nat output
     @ '' output tokens exceeds the '' @ show_nat CONTEXT @ '' token context''"

fun metal_message :: "metal_error \<Rightarrow> string" where
  "metal_message (MInvalid s) = s"
| "metal_message (MCodec s) = ''codec: '' @ s"
| "metal_message (MIo e) = ''io''"

definition finish_generation ::
  "('m, 'l) engine \<Rightarrow> world \<Rightarrow> nat \<Rightarrow> outcome \<times> ('m, 'l) gen \<Rightarrow> board \<Rightarrow> event list \<times> board \<times> 'm gpu_model" where
  "finish_generation eng w prompt_tokens res b =
     (case res of
        (Dropped, g) \<Rightarrow> (g_sent g, b, g_model g)
      | (Broken e, g) \<Rightarrow> (finish_event w (error_event Internal (gpu_message e)) (g_sent g), b, g_model g)
      | (Finished fin, g) \<Rightarrow>
          (finish_event w (EvDone \<lparr> dn_finish = fin, dn_prompt_tokens = prompt_tokens,
              dn_completion_tokens = g_completion g, dn_decode_ms = decode_ms w \<rparr>) (g_sent g),
           b\<lparr> bd_tokens_generated := bd_tokens_generated b + g_completion g,
              bd_requests_served := bd_requests_served b + 1,
              bd_last_tps := eng_tps eng (g_completion g) (decode_ms w) \<rparr>, g_model g))"

definition start_gen ::
  "generate \<Rightarrow> nat \<Rightarrow> 'l \<Rightarrow> 'm gpu_model \<Rightarrow> ('m, 'l) gen" where
  "start_gen req checks logits m =
     \<lparr> g_model = m, g_logits = logits, g_rng = seed (sampling req) OR 1, g_pending = [], g_sequence = 0,
       g_completion = 0, g_thinking = Marker ThoughtEnd \<notin> set (prompt req), g_reported = False,
       g_sent = [], g_checks = checks \<rparr>"

definition run_generation ::
  "('m, 'l) engine \<Rightarrow> world \<Rightarrow> tokenizer \<Rightarrow> generate \<Rightarrow> nat list \<Rightarrow> board \<Rightarrow> 'm gpu_model
   \<Rightarrow> event list \<times> board \<times> 'm gpu_model" where
  "run_generation eng w t req ids b m =
     (case prefill eng w (chunks MAX_CHUNK ids) 0 (eng_no_logits eng) (gpu_reset eng m) of
        (Inl e, _, m) \<Rightarrow> (finish_event w (error_event Internal (gpu_message e)) [], b, m)
      | (Inr None, _, m) \<Rightarrow>
          (finish_event w (EvDone \<lparr> dn_finish = Cancelled, dn_prompt_tokens = length ids mod 2 ^ 32,
             dn_completion_tokens = 0, dn_decode_ms = 0 \<rparr>) [], b, m)
      | (Inr (Some logits), checks, m) \<Rightarrow>
          (case special t EOS of
             Inl e \<Rightarrow> (finish_event w (error_event Internal (tk_message e)) [], b, m)
           | Inr stop \<Rightarrow>
               finish_generation eng w (length ids mod 2 ^ 32)
                 (decode_loop eng w t (sampling req) stop
                    (case special t THOUGHT_END of Inr i \<Rightarrow> Some i | Inl _ \<Rightarrow> None) (max_tokens req)
                    (start_gen req checks logits m)) b))"

definition run_job ::
  "('m, 'l) engine \<Rightarrow> world \<Rightarrow> tokenizer \<Rightarrow> generate \<Rightarrow> board \<Rightarrow> 'm gpu_model
   \<Rightarrow> event list \<times> board \<times> 'm gpu_model" where
  "run_job eng w t req b m =
     (case generate_validate req of
        Inl e \<Rightarrow> (finish_event w (error_event InvalidRequest (metal_message e)) [], b, m)
      | Inr _ \<Rightarrow>
          (case prompt_ids t (prompt req) of
             Inl e \<Rightarrow> (finish_event w (error_event InvalidRequest (tk_message e)) [], b, m)
           | Inr ids \<Rightarrow>
               if CONTEXT < length ids + max_tokens req
               then (finish_event w (error_event ContextExceeded (context_message (length ids) (max_tokens req))) [], b, m)
               else run_generation eng w t req ids b m))"

definition fail_worker_reply :: "world \<Rightarrow> string \<Rightarrow> event list" where
  "fail_worker_reply w detail = finish_event w (error_event NotReady detail) []"

end
