(* ===== verification/MetalServerProps.thy ===== *)
theory MetalServerProps
  imports MetalServer TokenizerProps
begin

text \<open>
  Properties of one generation: the events a client sees, the limits the model is run within, and the
  streamed text.
\<close>

section \<open>Events\<close>

definition numbered :: "('m, 'l) gen \<Rightarrow> bool" where
  "numbered g \<longleftrightarrow> (\<exists>cs. g_sent g = map EvChunk cs \<and> g_sequence g = length cs
     \<and> (\<forall>i < length cs. ck_sequence (cs ! i) = i) \<and> length cs \<le> g_completion g)"

lemma send_chunk_numbered:
  fixes g g' :: "('m, 'l) gen"
  assumes "numbered g" "g_completion g' = g_completion g + 1" "g_completion g' < 2 ^ 32"
    "g_sent g' = g_sent g" "g_sequence g' = g_sequence g"
  shows "numbered (snd (send_chunk w s r g'))"
    and "\<not> fst (send_chunk w s r g') \<Longrightarrow> \<exists>n. \<not> alive w n"
proof -
  obtain cs where cs: "g_sent g = map EvChunk cs" "g_sequence g = length cs"
    "\<forall>i < length cs. ck_sequence (cs ! i) = i" "length cs \<le> g_completion g"
    using assms(1) by (auto simp: numbered_def)
  let ?c = "\<lparr> ck_sequence = length cs, ck_text = s, ck_reasoning = r \<rparr>"
  have "(length cs + 1) mod 2 ^ 32 = length cs + 1" using cs(4) assms(2,3) by (intro mod_less) linarith
  moreover have "\<forall>i < length (cs @ [?c]). ck_sequence ((cs @ [?c]) ! i) = i"
    using cs(3) by (auto simp: nth_append less_Suc_eq)
  ultimately have sent: "numbered (g'\<lparr> g_sent := map EvChunk (cs @ [?c]), g_sequence := (length cs + 1) mod 2 ^ 32 \<rparr>)"
    unfolding numbered_def using cs(4) assms(2) by (intro exI [of _ "cs @ [?c]"]) simp
  have "numbered (g'\<lparr> g_sent := map EvChunk cs \<rparr>)"
    unfolding numbered_def using cs assms(2,4,5) by (intro exI [of _ cs]) simp
  then show "numbered (snd (send_chunk w s r g'))"
    using sent cs(1,2) assms(4,5) by (simp add: send_chunk_def send_event_def)
  show "\<exists>n. \<not> alive w n" if "\<not> fst (send_chunk w s r g')"
    using that by (auto simp: send_chunk_def send_event_def split: if_splits)
qed

lemma numbered_frame:
  fixes g g' :: "('m, 'l) gen"
  shows "numbered g \<Longrightarrow> g_sent g' = g_sent g \<Longrightarrow> g_sequence g' = g_sequence g \<Longrightarrow> g_completion g \<le> g_completion g'
   \<Longrightarrow> numbered g'"
  unfolding numbered_def by (metis order_trans)

lemma emit_numbered:
  fixes g g1 g2 :: "('m, 'l) gen"
  assumes "numbered g" "g_completion g1 = g_completion g + 1" "g_completion g1 < 2 ^ 32"
    "g_sent g1 = g_sent g" "g_sequence g1 = g_sequence g" "emit w t te n g1 = (ok, g2)"
  shows "numbered g2" "\<not> ok \<Longrightarrow> \<exists>k. \<not> alive w k"
proof -
  have S: "numbered (snd (send_chunk w s r g'))" "\<not> fst (send_chunk w s r g') \<Longrightarrow> \<exists>k. \<not> alive w k"
    if "g_completion g' = g_completion g1" "g_sent g' = g_sent g1" "g_sequence g' = g_sequence g1"
    for s r and g' :: "('m, 'l) gen"
    using send_chunk_numbered [OF assms(1), of g'] assms(2-5) that by auto
  have N: "numbered g'" if "g_completion g' = g_completion g1" "g_sent g' = g_sent g1" "g_sequence g' = g_sequence g1"
    for g' :: "('m, 'l) gen"
    using numbered_frame [OF assms(1), of g'] assms(2,4,5) that by simp
  have "numbered g2 \<and> (\<not> ok \<longrightarrow> (\<exists>k. \<not> alive w k))"
  proof (cases "g_thinking g1")
    case True
    obtain ok' g' where sc: "send_chunk w [] True g1 = (ok', g')" by fastforce
    have "numbered g'" "\<not> ok' \<Longrightarrow> \<exists>k. \<not> alive w k" using S [of g1 "[]" True] by (auto simp: sc)
    moreover have "numbered g2" if "numbered g''" "g_sent g2 = g_sent g''" "g_sequence g2 = g_sequence g''"
      "g_completion g2 = g_completion g''" for g'' :: "('m, 'l) gen"
      by (rule numbered_frame [OF that(1)]) (simp_all add: that)
    ultimately show ?thesis
      using assms(6) True sc N [of g1]
      by (auto simp: emit_def emit_thought_def Let_def split: if_splits)
  next
    case False
    then show ?thesis
      using assms(6) S [of "g1\<lparr> g_pending := p \<rparr>" for p] N [of "g1\<lparr> g_pending := p \<rparr>" for p]
      by (auto simp: emit_def emit_text_def Let_def split: if_splits) (metis fst_conv snd_conv)+
  qed
  then show "numbered g2" "\<not> ok \<Longrightarrow> \<exists>k. \<not> alive w k" by blast+
qed

text \<open>One round of the loop, as the cases it can end in.\<close>

lemma decode_round:
  obtains (cancel) "cancelled w (g_checks g)"
      "decode_loop eng w t samp stop te limit g = (Finished Cancelled, g\<lparr> g_checks := g_checks g + 1 \<rparr>)"
  | (stop) rng where "\<not> cancelled w (g_checks g)" "eng_sample eng (g_logits g) samp (g_rng g) = (stop, rng)"
      "decode_loop eng w t samp stop te limit g =
        (Finished EndOfSentence, g\<lparr> g_checks := g_checks g + 1, g_rng := rng, g_completion := g_completion g + 1 \<rparr>)"
  | (more) n rng ok g2 where "\<not> cancelled w (g_checks g)" "eng_sample eng (g_logits g) samp (g_rng g) = (n, rng)" "n \<noteq> stop"
      "emit w t te n (g\<lparr> g_checks := g_checks g + 1, g_rng := rng, g_completion := g_completion g + 1 \<rparr>) = (ok, g2)"
      "g_completion g2 = g_completion g + 1" "g_model g2 = g_model g"
      "decode_loop eng w t samp stop te limit g =
        (if \<not> ok then (Dropped, g2) else if limit \<le> g_completion g2 then (Finished Length, g2)
         else (case forward eng [n] (g_model g2) of
                 (Inl e, m) \<Rightarrow> (Broken e, g2\<lparr> g_model := m \<rparr>)
               | (Inr logits, m) \<Rightarrow>
                   decode_loop eng w t samp stop te limit (g2\<lparr> g_model := m, g_logits := logits \<rparr>)))"
proof (cases "cancelled w (g_checks g)")
  case True
  then show thesis using cancel by (simp add: decode_loop.simps [of eng w t samp stop te limit g])
next
  case False
  obtain n rng where s: "eng_sample eng (g_logits g) samp (g_rng g) = (n, rng)" by fastforce
  let ?g1 = "g\<lparr> g_checks := g_checks g + 1, g_rng := rng, g_completion := g_completion g + 1 \<rparr>"
  obtain ok g2 where e: "emit w t te n ?g1 = (ok, g2)" by fastforce
  have "g_completion g2 = g_completion g + 1" "g_model g2 = g_model g"
    using emit_completion [of w t te n ?g1] unfolding e by simp_all
  note keep = this
  show thesis
  proof (cases "n = stop")
    case True
    show thesis
      by (rule stop [OF False s [unfolded True]])
        (simp add: decode_loop.simps [of eng w t samp stop te limit g] False s True Let_def)
  next
    case ne: False
    show thesis
      by (rule more [OF False s ne e keep])
        (subst decode_loop.simps, simp only: False if_False s prod.case Let_def ne e fst_conv snd_conv)
  qed
qed

text \<open>The rule for the loop: an invariant of its rounds, and what holds when it is left.\<close>

lemma decode_loop_rule:
  assumes "decode_loop eng w t samp stop te limit g = (oc, g')" "I g"
    and cancel: "\<And>g. I g \<Longrightarrow> cancelled w (g_checks g) \<Longrightarrow> Q (Finished Cancelled) (g\<lparr> g_checks := g_checks g + 1 \<rparr>)"
    and stop: "\<And>g rng. I g \<Longrightarrow> \<not> cancelled w (g_checks g) \<Longrightarrow> eng_sample eng (g_logits g) samp (g_rng g) = (stop, rng) \<Longrightarrow>
      Q (Finished EndOfSentence) (g\<lparr> g_checks := g_checks g + 1, g_rng := rng, g_completion := g_completion g + 1 \<rparr>)"
    and more: "\<And>g n rng ok g2. I g \<Longrightarrow> \<not> cancelled w (g_checks g) \<Longrightarrow>
      eng_sample eng (g_logits g) samp (g_rng g) = (n, rng) \<Longrightarrow> n \<noteq> stop \<Longrightarrow>
      emit w t te n (g\<lparr> g_checks := g_checks g + 1, g_rng := rng, g_completion := g_completion g + 1 \<rparr>) = (ok, g2) \<Longrightarrow>
      g_completion g2 = g_completion g + 1 \<Longrightarrow> g_model g2 = g_model g \<Longrightarrow>
      (\<not> ok \<longrightarrow> Q Dropped g2) \<and> (ok \<and> limit \<le> g_completion g2 \<longrightarrow> Q (Finished Length) g2)
      \<and> (\<forall>e m. ok \<and> g_completion g2 < limit \<and> forward eng [n] (g_model g) = (Inl e, m) \<longrightarrow> Q (Broken e) (g2\<lparr> g_model := m \<rparr>))
      \<and> (\<forall>l m. ok \<and> g_completion g2 < limit \<and> forward eng [n] (g_model g) = (Inr l, m) \<longrightarrow>
            I (g2\<lparr> g_model := m, g_logits := l \<rparr>))"
  shows "Q oc g'"
  using assms(1,2)
proof (induction "limit - g_completion g" arbitrary: g rule: less_induct)
  case less
  show ?case
  proof (cases rule: decode_round [of w g eng t samp stop te limit])
    case cancel
    then show ?thesis using less.prems assms(3) by simp
  next
    case (stop rng)
    then show ?thesis using less.prems assms(4) by simp
  next
    case (more n rng ok g2)
    note M = assms(5) [OF less.prems(2) more(1-6)]
    obtain r m where fw: "forward eng [n] (g_model g) = (r, m)" by fastforce
    show ?thesis
    proof (cases "ok \<and> g_completion g2 < limit \<and> (\<exists>l. r = Inr l)")
      case True
      then obtain l where l: "r = Inr l" by blast
      have "decode_loop eng w t samp stop te limit (g2\<lparr> g_model := m, g_logits := l \<rparr>) = (oc, g')"
        using less.prems(1) more(6,7) True fw l by simp
      moreover have "I (g2\<lparr> g_model := m, g_logits := l \<rparr>)" using M True fw l by blast
      moreover have "limit - g_completion (g2\<lparr> g_model := m, g_logits := l \<rparr>) < limit - g_completion g"
        using True more(5) by auto
      ultimately show ?thesis by (intro less.hyps [of "g2\<lparr> g_model := m, g_logits := l \<rparr>"])
    next
      case False
      then show ?thesis using less.prems(1) more(6,7) M fw by (cases r) (auto split: if_splits)
    qed
  qed
qed

lemma decode_loop_numbered:
  assumes "decode_loop eng w t samp stop te limit g = (oc, g')" "numbered g" "g_completion g < limit" "limit < 2 ^ 32"
  shows "numbered g' \<and> g_completion g' \<le> limit \<and> (oc = Dropped \<longrightarrow> (\<exists>n. \<not> alive w n))"
proof (rule decode_loop_rule [OF assms(1), where I = "\<lambda>g. numbered g \<and> g_completion g < limit"])
  show "numbered g \<and> g_completion g < limit" using assms by simp
next
  fix g n rng ok and g2 :: "('a, 'b) gen"
  assume I: "numbered g \<and> g_completion g < limit" and c: "g_completion g2 = g_completion g + 1"
    and e: "emit w t te n (g\<lparr> g_checks := g_checks g + 1, g_rng := rng, g_completion := g_completion g + 1 \<rparr>) = (ok, g2)"
  have E: "numbered g2" "\<not> ok \<Longrightarrow> \<exists>k. \<not> alive w k"
    using emit_numbered [OF _ _ _ _ _ e, of g] I assms(4) by auto
  have "numbered (g2\<lparr> g_model := m, g_logits := l \<rparr>)" "numbered (g2\<lparr> g_model := m \<rparr>)" for m l
    by (rule numbered_frame [OF E(1)]; simp)+
  then show "(\<not> ok \<longrightarrow> numbered g2 \<and> g_completion g2 \<le> limit \<and> (Dropped = Dropped \<longrightarrow> (\<exists>n. \<not> alive w n)))
    \<and> (ok \<and> limit \<le> g_completion g2 \<longrightarrow> numbered g2 \<and> g_completion g2 \<le> limit \<and> (Finished Length = Dropped \<longrightarrow> (\<exists>n. \<not> alive w n)))
    \<and> (\<forall>er m. ok \<and> g_completion g2 < limit \<and> forward eng [n] (g_model g) = (Inl er, m) \<longrightarrow>
         numbered (g2\<lparr> g_model := m \<rparr>) \<and> g_completion (g2\<lparr> g_model := m \<rparr>) \<le> limit \<and> (Broken er = Dropped \<longrightarrow> (\<exists>n. \<not> alive w n)))
    \<and> (\<forall>l m. ok \<and> g_completion g2 < limit \<and> forward eng [n] (g_model g) = (Inr l, m) \<longrightarrow>
         numbered (g2\<lparr> g_model := m, g_logits := l \<rparr>) \<and> g_completion (g2\<lparr> g_model := m, g_logits := l \<rparr>) < limit)"
    using E I c by auto
qed (auto intro: numbered_frame)

section \<open>Limits\<close>

lemma forward_position:
  assumes "forward eng ids m = (r, m')" "0 < length ids" "length ids \<le> MAX_CHUNK" "gm_position m + length ids \<le> CONTEXT"
  shows "gm_position m' = (case r of Inl _ \<Rightarrow> gm_position m | Inr _ \<Rightarrow> gm_position m + length ids)"
    "r = Inl e \<Longrightarrow> \<exists>s. e = KernelFailed s"
    "r = Inl e \<Longrightarrow> \<exists>err s'. eng_kernels eng ids (gm_position m) (gm_state m) = (Inl err, s')"
  using assms by (auto simp: forward_def split: if_splits prod.splits sum.splits)

definition kernels_fail :: "('m, 'l) engine \<Rightarrow> bool" where
  "kernels_fail eng \<longleftrightarrow> (\<exists>ids pos s err s'. eng_kernels eng ids pos s = (Inl err, s'))"

lemma prefill_position:
  assumes "prefill eng w chs checks logits m = (r, k, m')" "\<forall>ch \<in> set chs. 0 < length ch \<and> length ch \<le> MAX_CHUNK"
    "gm_position m + length (concat chs) \<le> CONTEXT"
  shows "gm_position m' \<le> CONTEXT \<and> (r = Inr (Some l) \<longrightarrow> gm_position m' = gm_position m + length (concat chs))
    \<and> (r = Inl e \<longrightarrow> kernels_fail eng)"
  using assms
proof (induction eng w chs checks logits m rule: prefill.induct)
  case (2 eng w ch chs checks logits m)
  obtain q m1 where fw: "forward eng ch m = (q, m1)" by fastforce
  note F = forward_position [OF fw]
  show ?case
  proof (cases q)
    case (Inl x)
    then show ?thesis using 2(2-4) fw F by (fastforce simp: kernels_fail_def)
  next
    case (Inr l1)
    have p: "gm_position m1 = gm_position m + length ch" using F(1) 2(3,4) Inr by simp
    then show ?thesis
      using 2(2-4) fw Inr "2.IH" [OF fw [symmetric] Inr, of] by (auto simp: add.assoc split: if_splits)
  qed
qed auto

lemma chunks_ok:
  "0 < n \<Longrightarrow> concat (chunks n xs) = xs \<and> (\<forall>ch \<in> set (chunks n xs). 0 < length ch \<and> length ch \<le> n)"
proof (induction n xs rule: chunks.induct)
  case (1 n xs)
  show ?case
  proof (cases "xs = []")
    case False
    then have "chunks n xs = take n xs # chunks n (drop n xs)" using "1.prems" by (subst chunks.simps) simp
    then show ?thesis using "1.IH" "1.prems" False by auto
  qed (simp add: chunks.simps)
qed

lemma decode_loop_position:
  assumes "decode_loop eng w t samp stop te limit g = (oc, g')" "g_completion g < limit"
    "gm_position (g_model g) = base + g_completion g" "base + limit \<le> CONTEXT"
  shows "gm_position (g_model g') \<le> CONTEXT \<and> (\<forall>e. oc = Broken e \<longrightarrow> kernels_fail eng)"
proof (rule decode_loop_rule [OF assms(1),
    where I = "\<lambda>g. g_completion g < limit \<and> gm_position (g_model g) = base + g_completion g"])
  show "g_completion g < limit \<and> gm_position (g_model g) = base + g_completion g" using assms(2,3) by simp
next
  fix g rng ok and n :: nat and g2 :: "('a, 'b) gen"
  assume I: "g_completion g < limit \<and> gm_position (g_model g) = base + g_completion g"
    and c: "g_completion g2 = g_completion g + 1" and m: "g_model g2 = g_model g"
  have one: "0 < length [n]" "length [n] \<le> MAX_CHUNK" "gm_position (g_model g) + length [n] \<le> CONTEXT"
    using I assms(4) by (simp_all add: MAX_CHUNK_def)
  have F1: "gm_position mo = base + g_completion g \<and> kernels_fail eng" if "forward eng [n] (g_model g) = (Inl er, mo)" for er mo
    using forward_position(1,3) [OF that one] I unfolding kernels_fail_def by force
  have F2: "gm_position mo = base + g_completion g2" if "forward eng [n] (g_model g) = (Inr l, mo)" for l mo
    using forward_position(1) [OF that one] I c by simp
  have "gm_position (g_model g2) \<le> CONTEXT" "base + g_completion g \<le> CONTEXT" using I m assms(4) by simp_all
  then show "(\<not> ok \<longrightarrow> gm_position (g_model g2) \<le> CONTEXT \<and> (\<forall>e. Dropped = Broken e \<longrightarrow> kernels_fail eng))
    \<and> (ok \<and> limit \<le> g_completion g2 \<longrightarrow> gm_position (g_model g2) \<le> CONTEXT \<and> (\<forall>e. Finished Length = Broken e \<longrightarrow> kernels_fail eng))
    \<and> (\<forall>er mo. ok \<and> g_completion g2 < limit \<and> forward eng [n] (g_model g) = (Inl er, mo) \<longrightarrow>
         gm_position (g_model (g2\<lparr> g_model := mo \<rparr>)) \<le> CONTEXT \<and> (\<forall>e. Broken er = Broken e \<longrightarrow> kernels_fail eng))
    \<and> (\<forall>l mo. ok \<and> g_completion g2 < limit \<and> forward eng [n] (g_model g) = (Inr l, mo) \<longrightarrow>
         g_completion (g2\<lparr> g_model := mo, g_logits := l \<rparr>) < limit
         \<and> gm_position (g_model (g2\<lparr> g_model := mo, g_logits := l \<rparr>)) = base + g_completion (g2\<lparr> g_model := mo, g_logits := l \<rparr>))"
    by (auto dest: F1 F2)
qed (use assms(4) in auto)

section \<open>Text\<close>

text \<open>The reference: the tokens a generation samples, whatever is streamed, and those that are shown.\<close>

function sampled ::
  "('m, 'l) engine \<Rightarrow> world \<Rightarrow> sampling \<Rightarrow> nat \<Rightarrow> nat \<Rightarrow> nat \<Rightarrow> nat \<Rightarrow> 'l \<Rightarrow> u64 \<Rightarrow> 'm gpu_model \<Rightarrow> nat list" where
  "sampled eng w samp stop limit completion checks logits rng m =
     (if cancelled w checks then []
      else (case eng_sample eng logits samp rng of
              (n, rng) \<Rightarrow>
                if n = stop then []
                else n # (if limit \<le> completion + 1 then []
                          else (case forward eng [n] m of
                                  (Inl _, _) \<Rightarrow> []
                                | (Inr logits, m) \<Rightarrow>
                                    sampled eng w samp stop limit (completion + 1) (checks + 1) logits rng m))))"
  by pat_completeness auto
termination
  by (relation "measure (\<lambda>(eng, w, samp, stop, limit, completion, checks, logits, rng, m). limit - completion)") auto

declare sampled.simps [simp del]

fun visible :: "nat option \<Rightarrow> bool \<Rightarrow> nat list \<Rightarrow> nat list" where
  "visible te False ts = ts"
| "visible te True [] = []"
| "visible te True (n # ts) = visible te (Some n \<noteq> te) ts"

definition event_text :: "event \<Rightarrow> string" where
  "event_text ev = (case ev of EvChunk c \<Rightarrow> if ck_reasoning c then [] else ck_text c | _ \<Rightarrow> [])"

definition stream_text :: "event list \<Rightarrow> string" where
  "stream_text evs = concat (map event_text evs)"

definition valid_text :: "string \<Rightarrow> string" where
  "valid_text bs = take (valid_up_to bs) bs"

lemma valid_text_split: "valid_text (x @ y) = valid_text x @ valid_text (drop (valid_up_to x) x @ y)"
  using valid_up_to_le [of x] unfolding valid_text_def valid_up_to_extend [of x y] by (simp add: take_add add.commute)

lemma stream_text_snoc [simp]: "stream_text (evs @ [ev]) = stream_text evs @ event_text ev"
  by (simp add: stream_text_def)

lemma emit_text_alive:
  assumes "\<And>n. alive w n" "valid_up_to (g_pending g) = 0"
  shows "fst (emit_text w t n g) \<and> g_pending (snd (emit_text w t n g)) =
      drop (valid_up_to (g_pending g @ token_bytes t n)) (g_pending g @ token_bytes t n)
    \<and> stream_text (g_sent (snd (emit_text w t n g))) = stream_text (g_sent g) @ valid_text (g_pending g @ token_bytes t n)
    \<and> g_thinking (snd (emit_text w t n g)) = g_thinking g \<and> g_checks (snd (emit_text w t n g)) = g_checks g
    \<and> g_rng (snd (emit_text w t n g)) = g_rng g"
  using assms utf8_lossy [OF utf8_valid_up_to, of "g_pending g @ token_bytes t n"]
  by (simp add: emit_text_def send_chunk_def send_event_def Let_def event_text_def valid_text_def)

lemma emit_thought_alive:
  assumes "\<And>n. alive w n"
  shows "fst (emit_thought w te n g) \<and> g_pending (snd (emit_thought w te n g)) = []
    \<and> stream_text (g_sent (snd (emit_thought w te n g))) = stream_text (g_sent g)
    \<and> g_thinking (snd (emit_thought w te n g)) = (g_thinking g \<and> Some n \<noteq> te)
    \<and> g_checks (snd (emit_thought w te n g)) = g_checks g \<and> g_rng (snd (emit_thought w te n g)) = g_rng g"
  using assms by (auto simp: emit_thought_def send_chunk_def send_event_def Let_def event_text_def)

definition rest_text :: "('m, 'l) engine \<Rightarrow> world \<Rightarrow> tokenizer \<Rightarrow> sampling \<Rightarrow> nat \<Rightarrow> nat option \<Rightarrow> nat \<Rightarrow> ('m, 'l) gen \<Rightarrow> string" where
  "rest_text eng w t samp stop te limit g =
     valid_text (g_pending g @ concat (map (token_bytes t) (visible te (g_thinking g)
       (sampled eng w samp stop limit (g_completion g) (g_checks g) (g_logits g) (g_rng g) (g_model g)))))"

lemma visible_Nil [simp]: "visible te b [] = []"
  by (cases b) simp_all

text \<open>One round of text: what is sent and what stays pending, against the tokens still to come.\<close>

lemma emit_round:
  assumes "\<And>n. alive w n" "valid_up_to (g_pending h) = 0" "g_thinking h \<Longrightarrow> g_pending h = []" "emit w t te n h = (ok, g2)"
  shows "ok \<and> g_checks g2 = g_checks h \<and> g_rng g2 = g_rng h \<and> valid_up_to (g_pending g2) = 0
    \<and> (g_thinking g2 \<longrightarrow> g_pending g2 = [])
    \<and> stream_text (g_sent g2) @ valid_text (g_pending g2 @ concat (map (token_bytes t) (visible te (g_thinking g2) ts)))
      = stream_text (g_sent h) @ valid_text (g_pending h @ concat (map (token_bytes t) (visible te (g_thinking h) (n # ts))))"
proof (cases "g_thinking h")
  case True
  then have "emit_thought w te n h = (ok, g2)" using assms(4) by (simp add: emit_def)
  then show ?thesis
    using emit_thought_alive [OF assms(1), of te n h] assms(3) True by (auto simp: valid_up_to.simps)
next
  case False
  then have "emit_text w t n h = (ok, g2)" using assms(4) by (simp add: emit_def)
  then show ?thesis
    using emit_text_alive [OF assms(1,2), of t n] False
      valid_text_split [of "g_pending h @ token_bytes t n" "concat (map (token_bytes t) ts)"]
    by (simp add: valid_up_to_rest del: drop_append)
qed

lemma rest_text_end:
  assumes "sampled eng w samp stop limit (g_completion h) (g_checks h) (g_logits h) (g_rng h) (g_model h) = []"
    "valid_up_to (g_pending h) = 0"
  shows "rest_text eng w t samp stop te limit h = []"
  using assms by (simp add: rest_text_def valid_text_def)

lemma decode_loop_text:
  assumes "decode_loop eng w t samp stop te limit g = (oc, g')" "\<And>n. alive w n" "g_completion g < limit"
    "g_pending g = []"
  shows "stream_text (g_sent g') = stream_text (g_sent g) @ rest_text eng w t samp stop te limit g"
proof -
  let ?rest = "rest_text eng w t samp stop te limit"
  define T where "T = stream_text (g_sent g) @ ?rest g"
  define I where "I h \<longleftrightarrow> g_completion h < limit \<and> valid_up_to (g_pending h) = 0 \<and> (g_thinking h \<longrightarrow> g_pending h = [])
    \<and> stream_text (g_sent h) @ ?rest h = T" for h
  have "stream_text (g_sent g') = T"
  proof (rule decode_loop_rule [OF assms(1), where I = I])
    show "I g" using assms(3,4) by (simp add: I_def T_def valid_up_to.simps)
  next
    fix h assume h: "I h" "cancelled w (g_checks h)"
    then have "?rest h = []" by (intro rest_text_end) (simp_all add: I_def sampled.simps)
    then show "stream_text (g_sent (h\<lparr> g_checks := g_checks h + 1 \<rparr>)) = T" using h by (simp add: I_def)
  next
    fix h rng assume h: "I h" "\<not> cancelled w (g_checks h)" "eng_sample eng (g_logits h) samp (g_rng h) = (stop, rng)"
    then have "?rest h = []" by (intro rest_text_end) (simp_all add: I_def sampled.simps)
    then show "stream_text (g_sent (h\<lparr> g_checks := g_checks h + 1, g_rng := rng, g_completion := g_completion h + 1 \<rparr>)) = T"
      using h by (simp add: I_def)
  next
    fix rng ok and n :: nat and h g2 :: "('a, 'b) gen"
    let ?g1 = "h\<lparr> g_checks := g_checks h + 1, g_rng := rng, g_completion := g_completion h + 1 \<rparr>"
    assume h: "I h" and run: "\<not> cancelled w (g_checks h)" "eng_sample eng (g_logits h) samp (g_rng h) = (n, rng)" "n \<noteq> stop"
      and e: "emit w t te n ?g1 = (ok, g2)" and c: "g_completion g2 = g_completion h + 1" and m: "g_model g2 = g_model h"
    define tl where "tl = (if limit \<le> g_completion h + 1 then []
        else (case forward eng [n] (g_model h) of (Inl _, _) \<Rightarrow> []
          | (Inr l, mo) \<Rightarrow> sampled eng w samp stop limit (g_completion h + 1) (g_checks h + 1) l rng mo))"
    have sam: "sampled eng w samp stop limit (g_completion h) (g_checks h) (g_logits h) (g_rng h) (g_model h) = n # tl"
      unfolding tl_def using run by (subst sampled.simps) simp
    have E: "ok" "g_checks g2 = g_checks h + 1" "g_rng g2 = rng" "valid_up_to (g_pending g2) = 0" "g_thinking g2 \<longrightarrow> g_pending g2 = []"
      "stream_text (g_sent g2) @ valid_text (g_pending g2 @ concat (map (token_bytes t) (visible te (g_thinking g2) tl))) = T"
      using emit_round [OF assms(2) _ _ e, of tl] h by (simp_all add: I_def rest_text_def sam)
    have last: "stream_text (g_sent g2) = T" if "tl = []" using E(4,6) that by (simp add: valid_text_def)
    have next_I: "I (g2\<lparr> g_model := mo, g_logits := l \<rparr>)"
      if "forward eng [n] (g_model h) = (Inr l, mo)" "g_completion g2 < limit" for l mo
      using that E c unfolding I_def by (simp add: rest_text_def tl_def)
    show "(\<not> ok \<longrightarrow> stream_text (g_sent g2) = T) \<and> (ok \<and> limit \<le> g_completion g2 \<longrightarrow> stream_text (g_sent g2) = T)
      \<and> (\<forall>er mo. ok \<and> g_completion g2 < limit \<and> forward eng [n] (g_model h) = (Inl er, mo) \<longrightarrow>
          stream_text (g_sent (g2\<lparr> g_model := mo \<rparr>)) = T)
      \<and> (\<forall>l mo. ok \<and> g_completion g2 < limit \<and> forward eng [n] (g_model h) = (Inr l, mo) \<longrightarrow>
          I (g2\<lparr> g_model := mo, g_logits := l \<rparr>))"
      using E(1) next_I last c by (auto simp: tl_def)
  qed
  then show ?thesis by (simp add: T_def)
qed

section \<open>Properties\<close>

lemma start_gen_fields [simp]:
  "g_sent (start_gen req k l m) = []" "g_pending (start_gen req k l m) = []" "g_completion (start_gen req k l m) = 0"
  "g_model (start_gen req k l m) = m" "numbered (start_gen req k l m)"
  by (simp_all add: start_gen_def numbered_def)

lemma accepted_limit: "generate_validate req = Inr u \<Longrightarrow> 0 < max_tokens req \<and> max_tokens req < 2 ^ 32"
  by (auto simp: generate_validate_def MAX_OUTPUT_TOKENS_def split: if_splits)

definition events_ok :: "world \<Rightarrow> generate \<Rightarrow> event list \<Rightarrow> bool" where
  "events_ok w req evs \<longleftrightarrow> (\<exists>cs tail. evs = map EvChunk cs @ tail \<and> (\<forall>i < length cs. ck_sequence (cs ! i) = i)
     \<and> ((\<exists>d. tail = [EvDone d] \<and> dn_completion_tokens d \<le> max_tokens req \<and> length cs \<le> dn_completion_tokens d)
        \<or> (\<exists>e. tail = [EvError e]) \<or> tail = [] \<and> (\<exists>n. \<not> alive w n)))"

lemma single_event_ok:
  "(\<exists>e. ev = EvError e) \<or> (\<exists>d. ev = EvDone d \<and> dn_completion_tokens d = 0) \<Longrightarrow> events_ok w req (finish_event w ev [])"
  unfolding events_ok_def finish_event_def send_event_def by (rule exI [of _ "[]"]) auto

lemma finish_generation_ok:
  assumes "decode_loop eng w t samp stop te (max_tokens req) (start_gen req k l m) = (oc, g)"
    "0 < max_tokens req" "max_tokens req < 2 ^ 32"
  shows "events_ok w req (fst (finish_generation eng w n (oc, g) b))"
proof -
  have D: "numbered g" "g_completion g \<le> max_tokens req" "oc = Dropped \<Longrightarrow> \<exists>n. \<not> alive w n"
    using decode_loop_numbered [OF assms(1)] assms(2,3) by simp_all
  obtain cs where cs: "g_sent g = map EvChunk cs" "\<forall>i < length cs. ck_sequence (cs ! i) = i" "length cs \<le> g_completion g"
    using D(1) by (auto simp: numbered_def)
  show ?thesis
    unfolding events_ok_def finish_generation_def finish_event_def send_event_def
    by (rule exI [of _ cs]) (cases oc; use cs D in \<open>auto simp: error_event_def\<close>)
qed

lemma run_job_events:
  "events_ok w req (fst (run_job eng w t req b m))"
proof (cases "generate_validate req")
  case (Inr u)
  note lim = accepted_limit [OF Inr]
  show ?thesis
  proof (cases "prompt_ids t (prompt req)")
    case ids: (Inr ids)
    obtain r k m' where pf: "prefill eng w (chunks MAX_CHUNK ids) 0 (eng_no_logits eng) (gpu_reset eng m) = (r, k, m')"
      by (rule prod_cases3)
    show ?thesis
    proof (cases "CONTEXT < length ids + max_tokens req \<or> (\<forall>l. r \<noteq> Inr (Some l)) \<or> (\<exists>e. special t EOS = Inl e)")
      case True
      then show ?thesis
        using Inr ids pf
        by (auto simp: run_job_def run_generation_def error_event_def intro!: single_event_ok
            split: sum.splits option.splits)
    next
      case False
      then obtain l stop where l: "r = Inr (Some l)" "special t EOS = Inr stop" by (cases "special t EOS") auto
      obtain oc g where dl: "decode_loop eng w t (sampling req) stop
          (case special t THOUGHT_END of Inr i \<Rightarrow> Some i | Inl _ \<Rightarrow> None) (max_tokens req) (start_gen req k l m') = (oc, g)"
        by fastforce
      show ?thesis
        using finish_generation_ok [OF dl] lim False Inr ids pf l dl by (simp add: run_job_def run_generation_def)
    qed
  qed (use Inr in \<open>auto simp: run_job_def error_event_def intro!: single_event_ok\<close>)
qed (auto simp: run_job_def error_event_def intro!: single_event_ok)

text \<open>C31: What a client sees of a job is well formed, whatever the model, the sampler and the client do:
  chunks numbered 0, 1, 2, ... without gaps, then exactly one final event (a completion that counts
  at most the requested tokens, or an error); the final event is missing only when the receiver had
  gone.\<close>

theorem generation_events:
  "events_ok w req (fst (run_job eng w t req b m))"
  by (rule run_job_events)

text \<open>A job never runs the model past its context: the position stays within the limit, and an
  internal error is reported only when a kernel failed or the tokenizer has no end marker; the
  guards of the model's forward pass never fire.\<close>

theorem generation_within_context:
  assumes "gm_position m \<le> CONTEXT"
  shows "gm_position (snd (snd (run_job eng w t req b m))) \<le> CONTEXT
    \<and> (\<forall>e. EvError e \<in> set (fst (run_job eng w t req b m)) \<and> we_code e = Internal \<longrightarrow>
         kernels_fail eng \<or> (\<exists>er. special t EOS = Inl er))"
proof (cases "generate_validate req")
  case (Inr u)
  note lim = accepted_limit [OF Inr]
  show ?thesis
  proof (cases "prompt_ids t (prompt req)")
    case ids: (Inr ids)
    show ?thesis
    proof (cases "CONTEXT < length ids + max_tokens req")
      case True
      then show ?thesis
        using assms Inr ids by (auto simp: run_job_def finish_event_def send_event_def error_event_def)
    next
      case False
      obtain r k m' where pf: "prefill eng w (chunks MAX_CHUNK ids) 0 (eng_no_logits eng) (gpu_reset eng m) = (r, k, m')"
        by (rule prod_cases3)
      have ch: "concat (chunks MAX_CHUNK ids) = ids" "\<forall>c \<in> set (chunks MAX_CHUNK ids). 0 < length c \<and> length c \<le> MAX_CHUNK"
        using chunks_ok [of MAX_CHUNK ids] by (auto simp: MAX_CHUNK_def)
      have P: "gm_position m' \<le> CONTEXT" "r = Inr (Some l) \<Longrightarrow> gm_position m' = length ids" "r = Inl e \<Longrightarrow> kernels_fail eng" for l e
        using prefill_position [OF pf ch(2)] False by (auto simp: ch(1) gpu_reset_def)
      show ?thesis
      proof (cases "(\<forall>l. r \<noteq> Inr (Some l)) \<or> (\<exists>e. special t EOS = Inl e)")
        case True
        then show ?thesis
          using Inr ids pf False P
          by (auto simp: run_job_def run_generation_def finish_event_def send_event_def error_event_def
              split: sum.splits option.splits)
      next
        case run: False
        then obtain l stop where l: "r = Inr (Some l)" "special t EOS = Inr stop" by (cases "special t EOS") auto
        obtain oc g where dl: "decode_loop eng w t (sampling req) stop
            (case special t THOUGHT_END of Inr i \<Rightarrow> Some i | Inl _ \<Rightarrow> None) (max_tokens req) (start_gen req k l m') = (oc, g)"
          by fastforce
        have D: "gm_position (g_model g) \<le> CONTEXT" "oc = Broken e \<Longrightarrow> kernels_fail eng" for e
          using decode_loop_position [OF dl, of "length ids"] P(2) [OF l(1)] lim False by auto
        have "numbered g" using decode_loop_numbered [OF dl] lim by simp
        then obtain cs where "g_sent g = map EvChunk cs" by (auto simp: numbered_def)
        then show ?thesis
          using Inr ids pf False l dl D
          by (cases oc) (auto simp: run_job_def run_generation_def finish_generation_def finish_event_def send_event_def error_event_def)
      qed
    qed
  qed (use assms Inr in \<open>auto simp: run_job_def error_event_def finish_event_def send_event_def\<close>)
qed (use assms in \<open>auto simp: run_job_def error_event_def finish_event_def send_event_def\<close>)

definition reply_bytes ::
  "('m, 'l) engine \<Rightarrow> world \<Rightarrow> tokenizer \<Rightarrow> generate \<Rightarrow> nat \<Rightarrow> nat \<Rightarrow> 'l \<Rightarrow> 'm gpu_model \<Rightarrow> string" where
  "reply_bytes eng w t req stop checks logits m =
     concat (map (token_bytes t) (visible (case special t THOUGHT_END of Inr i \<Rightarrow> Some i | Inl _ \<Rightarrow> None)
       (Marker ThoughtEnd \<notin> set (prompt req))
       (sampled eng w (sampling req) stop (max_tokens req) 0 checks logits (seed (sampling req) OR 1) m)))"

lemma stream_text_finish: "event_text ev = [] \<Longrightarrow> stream_text (finish_event w ev sent) = stream_text sent"
  by (simp add: finish_event_def send_event_def)

text \<open>C32: A client that stays connected receives the text: the chunks of a job that reaches decoding,
  joined, are exactly the longest valid UTF-8 prefix of the bytes of the sampled tokens after the
  thinking part.  Characters split across tokens arrive whole; but a byte sequence that is not UTF-8
  silences the rest of the reply.\<close>

theorem generation_text:
  assumes "\<forall>n. alive w n" "generate_validate req = Inr ()" "prompt_ids t (prompt req) = Inr ids"
    "length ids + max_tokens req \<le> CONTEXT" "special t EOS = Inr stop"
    "prefill eng w (chunks MAX_CHUNK ids) 0 (eng_no_logits eng) (gpu_reset eng m) = (Inr (Some logits), checks, m1)"
  shows "stream_text (fst (run_job eng w t req b m)) = valid_text (reply_bytes eng w t req stop checks logits m1)"
proof -
  let ?te = "case special t THOUGHT_END of Inr i \<Rightarrow> Some i | Inl _ \<Rightarrow> None"
  obtain oc g where dl: "decode_loop eng w t (sampling req) stop ?te (max_tokens req) (start_gen req checks logits m1) = (oc, g)"
    by fastforce
  have "stream_text (g_sent g) = rest_text eng w t (sampling req) stop ?te (max_tokens req) (start_gen req checks logits m1)"
    using decode_loop_text [OF dl] assms(1) accepted_limit [OF assms(2)] by (simp add: stream_text_def)
  also have "\<dots> = valid_text (reply_bytes eng w t req stop checks logits m1)"
    by (simp add: rest_text_def reply_bytes_def start_gen_def)
  finally have sent: "stream_text (g_sent g) = valid_text (reply_bytes eng w t req stop checks logits m1)" .
  have run: "run_job eng w t req b m = finish_generation eng w (length ids mod 2 ^ 32) (oc, g) b"
    using assms(2-6) dl by (simp add: run_job_def run_generation_def not_less)
  have "stream_text (fst (finish_generation eng w (length ids mod 2 ^ 32) (oc, g) b)) = stream_text (g_sent g)"
    by (cases oc) (simp_all add: finish_generation_def stream_text_finish error_event_def event_text_def)
  then show ?thesis using run sent by simp
qed

text \<open>A model that answers with the two halves of an accented letter and then the end marker.\<close>

definition halves :: tokenizer where
  "halves = \<lparr> tk_tokens = [''a'', ''b'', ''c'', EOS], tk_specials = [EOS \<mapsto> 3, BOS \<mapsto> 2], tk_byte_ids = replicate 256 0,
     tk_merges = Map.empty, tk_splits = [], tk_char_bytes = [''a'' \<mapsto> CHR 0xC3, ''b'' \<mapsto> CHR 0xA9] \<rparr>"

definition counting :: "(nat, nat) engine" where
  "counting = \<lparr> eng_kernels = (\<lambda>ids pos s. (Inr s, s + 1)), eng_clear = (\<lambda>s. 0), eng_sample = (\<lambda>l samp rng. ([0, 1, 3] ! (l mod 3), rng)),
     eng_no_logits = 0, eng_tps = (\<lambda>c d. 0) \<rparr>"

definition calm :: world where
  "calm = \<lparr> cancelled = (\<lambda>_. False), alive = (\<lambda>_. True), decode_ms = 5 \<rparr>"

definition ask :: generate where
  "ask = \<lparr> prompt = [Marker BeginOfSentence, Marker ThoughtEnd], sampling = sampling_default, max_tokens = 9 \<rparr>"

definition idle_gpu :: "nat gpu_model" where
  "idle_gpu = \<lparr> gm_position = 0, gm_state = 0 \<rparr>"

definition halves2 :: tokenizer where
  "halves2 = halves\<lparr> tk_specials := [EOS \<mapsto> 3, BOS \<mapsto> 2, THOUGHT_END \<mapsto> 9] \<rparr>"

theorem generation_within_context_witness:
  "gm_position idle_gpu \<le> CONTEXT \<and> gm_position (snd (snd (run_job counting calm halves2 ask (board_new []) idle_gpu))) \<le> CONTEXT"
proof -
  have "gm_position idle_gpu \<le> CONTEXT" by (simp add: idle_gpu_def)
  from generation_within_context [OF this] this show ?thesis by blast
qed

theorem generation_text_witness:
  "stream_text (fst (run_job counting calm halves2 ask (board_new []) idle_gpu)) = [CHR 0xC3, CHR 0xA9]"
proof -
  let ?m = "\<lparr> gm_position = 2, gm_state = 1 \<rparr>"
  have "generate_validate ask = Inr ()" "prompt_ids halves2 (prompt ask) = Inr [2, 9]" "special halves2 EOS = Inr 3"
    "prefill counting calm (chunks MAX_CHUNK [2, 9]) 0 (eng_no_logits counting) (gpu_reset counting idle_gpu) = (Inr (Some 0), 1, ?m)"
    "length [2, 9 :: nat] + max_tokens ask \<le> CONTEXT" by code_simp+
  moreover have "\<forall>n. alive calm n" by (simp add: calm_def)
  moreover have "valid_text (reply_bytes counting calm halves2 ask 3 1 0 ?m) = [CHR 0xC3, CHR 0xA9]" by code_simp
  ultimately show ?thesis
    using generation_text [of calm ask halves2 "[2, 9]" 3 counting idle_gpu 0 1 ?m "board_new []"] by simp
qed

end
