(* ===== verification/Sampler.thy ===== *)
theory Sampler
  imports MetalServer "HOL-Library.Multiset"
begin

text \<open>
  The token sampler (\<^verbatim>\<open>sample\<close> and \<^verbatim>\<open>next_uniform\<close> of \<^verbatim>\<open>chatty-metal/src/server.rs\<close>).  The generator
  is modelled on 64-bit words.  Floating point arithmetic is a record of operations; only the total
  order of \<^verbatim>\<open>f32::total_cmp\<close> is fixed, as the order of an integer key.  The two unstable
  sorting routines are arguments, with their documented contract as a locale: which of several equal
  logits comes first is left open.
\<close>

section \<open>The generator\<close>

definition xorshift :: "u64 \<Rightarrow> u64" where
  "xorshift rng =
     (let rng = rng XOR push_bit 13 rng; rng = rng XOR drop_bit 7 rng in rng XOR push_bit 17 rng)"

section \<open>The sampler\<close>

record ('f, 'd) floats =
  fl_key :: "'f \<Rightarrow> int"
  fl_zero :: 'f
  fl_add :: "'f \<Rightarrow> 'f \<Rightarrow> 'f"
  fl_div :: "'f \<Rightarrow> 'f \<Rightarrow> 'f"
  fl_weight :: "'f \<Rightarrow> 'f \<Rightarrow> f32 \<Rightarrow> 'f"
  fl_finite :: "'f \<Rightarrow> bool"
  fl_le_zero :: "'f \<Rightarrow> bool"
  fl_ge :: "'f \<Rightarrow> f32 \<Rightarrow> bool"
  fl_pick :: "u64 \<Rightarrow> 'f \<Rightarrow> 'd"
  fl_sub :: "'d \<Rightarrow> 'f \<Rightarrow> 'd"
  fl_spent :: "'d \<Rightarrow> bool"

type_synonym 'f cand = "'f \<times> nat"

record 'f sorting =
  select_nth :: "nat \<Rightarrow> 'f cand list \<Rightarrow> 'f cand list"
  sort_desc :: "'f cand list \<Rightarrow> 'f cand list"

fun le_zero :: "f32 \<Rightarrow> bool" where
  "le_zero (Finite r) = (r \<le> 0)"
| "le_zero (Infinite neg) = neg"
| "le_zero NaN = False"

text \<open>\<^verbatim>\<open>max_by\<close>: the last of the largest.\<close>

fun max_by :: "('a \<Rightarrow> int) \<Rightarrow> 'a list \<Rightarrow> 'a option" where
  "max_by key [] = None"
| "max_by key (x # xs) = Some (fold (\<lambda>y best. if key best \<le> key y then y else best) xs x)"

definition candidates_of :: "'f list \<Rightarrow> 'f cand list" where
  "candidates_of logits = zip logits [0..<length logits]"

definition fl_sum :: "('f, 'd) floats \<Rightarrow> 'f list \<Rightarrow> 'f" where
  "fl_sum fl ws = foldl (fl_add fl) (fl_zero fl) ws"

definition first_id :: "'f cand list \<Rightarrow> nat" where
  "first_id cs = (case cs of [] \<Rightarrow> 0 | (_, i) # _ \<Rightarrow> i)"

definition shortlist :: "'f sorting \<Rightarrow> nat \<Rightarrow> 'f cand list \<Rightarrow> 'f cand list" where
  "shortlist so k cs =
     (let limit = if k = 0 then length cs else min k (length cs);
          cs = if limit < length cs then take limit (select_nth so (limit - 1) cs) else cs in
      sort_desc so cs)"

fun nucleus :: "('f, 'd) floats \<Rightarrow> f32 \<Rightarrow> nat \<Rightarrow> 'f \<Rightarrow> 'f list \<Rightarrow> nat option" where
  "nucleus fl p index cumulative [] = None"
| "nucleus fl p index cumulative (w # ws) =
     (let cumulative = fl_add fl cumulative w in
      if fl_ge fl cumulative p then Some (index + 1) else nucleus fl p (index + 1) cumulative ws)"

fun walk :: "('f, 'd) floats \<Rightarrow> 'd \<Rightarrow> 'f list \<Rightarrow> 'f cand list \<Rightarrow> nat option" where
  "walk fl pick (w # ws) ((_, i) # cs) =
     (let pick = fl_sub fl pick w in if fl_spent fl pick then Some i else walk fl pick ws cs)"
| "walk fl pick _ _ = None"

text \<open>An index out of bounds would panic: the result is an option.\<close>

definition sample :: "('f, 'd) floats \<Rightarrow> 'f sorting \<Rightarrow> 'f list \<Rightarrow> sampling \<Rightarrow> u64 \<Rightarrow> nat option \<times> u64" where
  "sample fl so logits samp rng =
     (if le_zero (temperature samp)
      then (Some (case max_by (\<lambda>(l, _). fl_key fl l) (candidates_of logits) of None \<Rightarrow> 0 | Some (_, i) \<Rightarrow> i), rng)
      else
        (let cs = shortlist so (top_k samp) (candidates_of logits);
             mx = (case cs of [] \<Rightarrow> fl_zero fl | (l, _) # _ \<Rightarrow> l);
             weights = map (\<lambda>(l, _). fl_weight fl l mx (temperature samp)) cs;
             sum = fl_sum fl weights in
         if \<not> fl_finite fl sum \<or> fl_le_zero fl sum then (Some (first_id cs), rng)
         else
           (let weights = map (\<lambda>w. fl_div fl w sum) weights;
                keep = (case nucleus fl (top_p samp) 0 (fl_zero fl) weights of None \<Rightarrow> length weights | Some n \<Rightarrow> n);
                rng = xorshift rng;
                pick = fl_pick fl rng (fl_sum fl (take keep weights)) in
            (case walk fl pick (take keep weights) cs of
               Some i \<Rightarrow> (Some i, rng)
             | None \<Rightarrow> (if keep - 1 < length cs then Some (snd (cs ! (keep - 1))) else None, rng)))))"

section \<open>The contract of the sorting routines\<close>

locale unstable_sorting =
  fixes key :: "'f \<Rightarrow> int" and so :: "'f sorting"
  assumes select_perm: "mset (select_nth so n cs) = mset cs"
    and select_split: "n < length cs \<Longrightarrow> i \<le> n \<Longrightarrow> n \<le> j \<Longrightarrow> j < length cs \<Longrightarrow>
      key (fst (select_nth so n cs ! j)) \<le> key (fst (select_nth so n cs ! i))"
    and sort_perm: "mset (sort_desc so cs) = mset cs"
    and sort_ordered: "sorted_wrt (\<lambda>a b. key (fst b) \<le> key (fst a)) (sort_desc so cs)"
begin

lemma shortlist_mset:
  "\<exists>rest. mset cs = mset (shortlist so k cs) + mset rest
     \<and> (\<forall>c \<in> set (shortlist so k cs). \<forall>r \<in> set rest. key (fst r) \<le> key (fst c))"
proof -
  define limit where "limit = (if k = 0 then length cs else min k (length cs))"
  show ?thesis
  proof (cases "limit < length cs")
    case False
    then have "shortlist so k cs = sort_desc so cs" by (simp add: shortlist_def limit_def)
    then show ?thesis by (intro exI [of _ "[]"]) (simp add: sort_perm)
  next
    case True
    define ys where "ys = select_nth so (limit - 1) cs"
    have pos: "0 < limit" using True by (auto simp: limit_def split: if_splits)
    have len: "length ys = length cs" unfolding ys_def using mset_eq_length [OF select_perm] .
    have sl: "shortlist so k cs = sort_desc so (take limit ys)"
      using True by (simp add: shortlist_def limit_def [symmetric] ys_def Let_def)
    have set_sl: "set (shortlist so k cs) = set (take limit ys)"
      unfolding sl using mset_eq_setD [OF sort_perm] .
    have "key (fst r) \<le> key (fst c)" if C: "c \<in> set (take limit ys)" and R: "r \<in> set (drop limit ys)" for c r
    proof -
      obtain i where i: "i < length (take limit ys)" "take limit ys ! i = c" using C unfolding in_set_conv_nth by blast
      obtain j where j: "j < length (drop limit ys)" "drop limit ys ! j = r" using R unfolding in_set_conv_nth by blast
      have "i \<le> limit - 1" "limit - 1 \<le> limit + j" "limit + j < length cs" "limit - 1 < length cs"
        using i(1) j(1) len True by simp_all
      from select_split [OF this(4,1-3), folded ys_def] show ?thesis using i j by simp
    qed
    moreover have "mset cs = mset (take limit ys) + mset (drop limit ys)"
      unfolding mset_append [symmetric] append_take_drop_id ys_def select_perm ..
    ultimately show ?thesis
      unfolding set_sl unfolding sl by (intro exI [of _ "drop limit ys"]) (auto simp: sort_perm)
  qed
qed

lemma shortlist_length: "length (shortlist so k cs) = (if k = 0 then length cs else min k (length cs))"
proof -
  have "length (sort_desc so xs) = length xs" "length (select_nth so n xs) = length xs" for n xs
    using mset_eq_length [OF sort_perm] mset_eq_length [OF select_perm] by blast+
  then show ?thesis by (simp add: shortlist_def Let_def)
qed

lemma shortlist_head:
  assumes "shortlist so k cs = c # rest" "d \<in> set cs"
  shows "key (fst d) \<le> key (fst c)"
proof -
  obtain others where o: "mset cs = mset (c # rest) + mset others" "\<forall>r \<in> set others. key (fst r) \<le> key (fst c)"
    using shortlist_mset [of cs k] assms(1) by auto
  have "sorted_wrt (\<lambda>a b. key (fst b) \<le> key (fst a)) (c # rest)"
    using sort_ordered assms(1) unfolding shortlist_def Let_def by metis
  moreover have "d \<in> set (c # rest) \<or> d \<in> set others" using assms(2) mset_eq_setD [OF o(1) [folded mset_append]] by auto
  ultimately show ?thesis using o(2) by auto
qed

end

section \<open>A stable implementation meets the contract\<close>

definition stable_desc :: "('f \<Rightarrow> int) \<Rightarrow> 'f cand list \<Rightarrow> 'f cand list" where
  "stable_desc key cs = sort_key (\<lambda>c. - key (fst c)) cs"

definition stable_sorting :: "('f \<Rightarrow> int) \<Rightarrow> 'f sorting" where
  "stable_sorting key = \<lparr> select_nth = (\<lambda>n cs. stable_desc key cs), sort_desc = stable_desc key \<rparr>"

lemma stable_desc_sorted: "sorted_wrt (\<lambda>a b. key (fst b) \<le> key (fst a)) (stable_desc key cs)"
proof -
  have "sorted (map (\<lambda>c. - key (fst c)) (stable_desc key cs))" by (simp add: stable_desc_def)
  then show ?thesis by (simp add: sorted_wrt_map)
qed

interpretation stable: unstable_sorting key "stable_sorting key" for key :: "'f \<Rightarrow> int"
proof unfold_locales
  fix n i j :: nat and cs :: "'f cand list"
  assume "n < length cs" "i \<le> n" "n \<le> j" "j < length cs"
  then show "key (fst (select_nth (stable_sorting key) n cs ! j)) \<le> key (fst (select_nth (stable_sorting key) n cs ! i))"
    using sorted_wrt_nth_less [OF stable_desc_sorted [of key cs], of i j]
    by (cases "i = j") (simp_all add: stable_sorting_def stable_desc_def)
qed (simp_all add: stable_sorting_def stable_desc_sorted, simp_all add: stable_desc_def)

section \<open>The generator never sticks\<close>

lemma shift_up_fixed: "(x :: u64) = push_bit n x \<Longrightarrow> 0 < n \<Longrightarrow> x = 0"
proof (rule bit_eqI)
  fix i assume fixed: "x = push_bit n x" "0 < n" and "possible_bit TYPE(64 word) i"
  have "\<not> bit x i" for i
  proof (induction i rule: less_induct)
    case (less i)
    have "bit x i \<longleftrightarrow> bit (push_bit n x) i" using fixed(1) by simp
    then show ?case using less [of "i - n"] fixed(2) by (auto simp: bit_push_bit_iff)
  qed
  then show "bit x i \<longleftrightarrow> bit 0 i" by simp
qed

lemma shift_down_fixed: "(x :: u64) = drop_bit n x \<Longrightarrow> 0 < n \<Longrightarrow> x = 0"
proof (rule bit_eqI)
  fix i assume fixed: "x = drop_bit n x" "0 < n" and "possible_bit TYPE(64 word) i"
  have "\<not> bit x i" for i
  proof (induction "64 - i" arbitrary: i rule: less_induct)
    case less
    have "bit x i \<longleftrightarrow> bit x (n + i)" using fixed(1) by (metis bit_drop_bit_eq comp_apply)
    then show ?case using less [of "n + i"] fixed(2) bit_imp_le_length [of x i] by (cases "i < 64") auto
  qed
  then show "bit x i \<longleftrightarrow> bit 0 i" by simp
qed

lemma xor_zero: "(a :: u64) XOR b = 0 \<longleftrightarrow> a = b"
  by (auto simp: bit_eq_iff bit_xor_iff)

lemma xor_shift_zero:
  "0 < n \<Longrightarrow> (x :: u64) XOR push_bit n x = 0 \<longleftrightarrow> x = 0" "0 < n \<Longrightarrow> (x :: u64) XOR drop_bit n x = 0 \<longleftrightarrow> x = 0"
  unfolding xor_zero by (auto dest: shift_up_fixed shift_down_fixed)

lemma xorshift_nonzero: "xorshift rng = 0 \<longleftrightarrow> rng = 0"
  unfolding xorshift_def Let_def by (simp only: xor_shift_zero zero_less_numeral)

lemma seed_nonzero: "(s :: u64) OR 1 \<noteq> 0"
  by (metis bit_0_eq bit_or_iff bit_1_0 bot_apply bot_bool_def)

section \<open>Where a sampled token comes from\<close>

lemma candidates_mem: "c \<in> set (candidates_of logits) \<longleftrightarrow> snd c < length logits \<and> fst c = logits ! snd c"
  by (cases c) (auto simp: candidates_of_def in_set_zip)

lemma max_by_mem: "max_by key xs = Some m \<Longrightarrow> m \<in> set xs \<and> (\<forall>x \<in> set xs. key x \<le> key m)"
proof (cases xs)
  case (Cons x ys)
  have "fold (\<lambda>y best. if key best \<le> key y then y else best) ys x \<in> insert x (set ys)
    \<and> (\<forall>z \<in> insert x (set ys). key z \<le> key (fold (\<lambda>y best. if key best \<le> key y then y else best) ys x))"
    by (induction ys arbitrary: x) fastforce+
  moreover assume "max_by key xs = Some m"
  ultimately show ?thesis using Cons by simp
qed simp

lemma walk_mem: "walk fl pick ws cs = Some i \<Longrightarrow> \<exists>l. (l, i) \<in> set cs"
  by (induction fl pick ws cs rule: walk.induct) (auto simp: Let_def split: if_splits)

lemma nucleus_bound: "nucleus fl p k acc ws = Some n \<Longrightarrow> k < n \<and> n \<le> k + length ws"
  by (induction fl p k acc ws arbitrary: n rule: nucleus.induct) (fastforce simp: Let_def split: if_splits)+

text \<open>Whatever the arithmetic gives: a member of the shortlist.\<close>

lemma sample_from_shortlist:
  assumes "\<not> le_zero (temperature samp)" "shortlist so (top_k samp) (candidates_of logits) \<noteq> []"
  shows "\<exists>l i. fst (sample fl so logits samp rng) = Some i \<and> (l, i) \<in> set (shortlist so (top_k samp) (candidates_of logits))"
proof -
  let ?cs = "shortlist so (top_k samp) (candidates_of logits)"
  define keep where "keep ws = (case nucleus fl (top_p samp) 0 (fl_zero fl) ws of None \<Rightarrow> length ws | Some n \<Rightarrow> n)" for ws
  have keep: "keep ws - 1 < length ?cs" if "length ws = length ?cs" for ws
    using that assms(2) nucleus_bound [of fl "top_p samp" 0 "fl_zero fl" ws] by (fastforce simp: keep_def split: option.split)
  have first: "\<exists>l. (l, first_id ?cs) \<in> set ?cs" using assms(2) by (cases ?cs) (auto simp: first_id_def)
  have member: "\<exists>l. (l, snd (?cs ! k)) \<in> set ?cs" if "k < length ?cs" for k
    using nth_mem [OF that] by (metis prod.collapse)
  show ?thesis
    using assms(1) first keep member
    by (auto simp: sample_def Let_def keep_def [symmetric] dest: walk_mem split: option.split)
qed

lemma sample_rng: "snd (sample fl so logits samp rng) \<in> {rng, xorshift rng}"
  by (simp add: sample_def Let_def split: option.split)

context unstable_sorting
begin

lemma shortlist_nonempty: "cs \<noteq> [] \<Longrightarrow> shortlist so k cs \<noteq> []"
  using shortlist_length [of k cs] by (auto simp: min_def split: if_splits)

lemma shortlist_subset: "set (shortlist so k cs) \<subseteq> set cs"
proof -
  obtain rest where "mset cs = mset (shortlist so k cs) + mset rest" using shortlist_mset by blast
  then show ?thesis by (metis mset_append mset_eq_setD set_append sup_ge1)
qed

lemma shortlist_rank:
  assumes "(l, i) \<in> set (shortlist so k (candidates_of logits))" "0 < k"
  shows "card {j. j < length logits \<and> key (logits ! i) < key (logits ! j)} < k"
proof -
  let ?sl = "shortlist so k (candidates_of logits)"
  obtain rest where rest: "mset (candidates_of logits) = mset (?sl @ rest)"
    "\<forall>c \<in> set ?sl. \<forall>r \<in> set rest. key (fst r) \<le> key (fst c)" using shortlist_mset [of "candidates_of logits" k] by auto
  have li: "l = logits ! i" using shortlist_subset assms(1) candidates_mem [of "(l, i)"] by fastforce
  have "{j. j < length logits \<and> key (logits ! i) < key (logits ! j)} \<subseteq> snd ` set ?sl - {i}"
  proof
    fix j assume "j \<in> {j. j < length logits \<and> key (logits ! i) < key (logits ! j)}"
    then have j: "(logits ! j, j) \<in> set (candidates_of logits)" "key l < key (logits ! j)"
      using li by (simp_all add: candidates_mem)
    then have "(logits ! j, j) \<in> set ?sl \<union> set rest" using mset_eq_setD [OF rest(1)] by simp
    moreover have "(logits ! j, j) \<notin> set rest" using rest(2) assms(1) j(2) by force
    ultimately show "j \<in> snd ` set ?sl - {i}" using j(2) li by force
  qed
  then have "card {j. j < length logits \<and> key (logits ! i) < key (logits ! j)} \<le> card (snd ` set ?sl - {i})"
    by (rule card_mono [rotated]) simp
  also have "\<dots> < card (snd ` set ?sl)" using assms(1) by (intro psubset_card_mono) force+
  also have "\<dots> \<le> length ?sl" by (metis card_image_le List.finite_set card_length le_trans)
  also have "\<dots> \<le> k" using shortlist_length [of k "candidates_of logits"] assms(2) by simp
  finally show ?thesis .
qed

end

section \<open>Property\<close>

text \<open>A sampled token is one of the logits', never an index out of bounds, whatever the floating point
  arithmetic and the sorting routines do within their contracts: at temperature zero no logit is
  larger, otherwise fewer than top-k logits are larger; and the generator never reaches its fixed
  point zero.\<close>

theorem sample_ok:
  assumes "unstable_sorting (fl_key fl) so" "logits \<noteq> []" "rng \<noteq> 0"
  shows "\<exists>i < length logits. fst (sample fl so logits samp rng) = Some i
    \<and> (le_zero (temperature samp) \<longrightarrow> (\<forall>j < length logits. fl_key fl (logits ! j) \<le> fl_key fl (logits ! i)))
    \<and> (0 < top_k samp \<longrightarrow> card {j. j < length logits \<and> fl_key fl (logits ! i) < fl_key fl (logits ! j)} < top_k samp)
    \<and> snd (sample fl so logits samp rng) \<noteq> 0"
proof -
  have rng: "snd (sample fl so logits samp rng) \<noteq> 0"
    using sample_rng [of fl so logits samp rng] assms(3) xorshift_nonzero [of rng] by (metis insertE singletonD)
  have ne: "candidates_of logits \<noteq> []" using assms(2) by (simp add: candidates_of_def)
  show ?thesis
  proof (cases "le_zero (temperature samp)")
    case True
    obtain c where c: "max_by (\<lambda>(l, _). fl_key fl l) (candidates_of logits) = Some c"
      using ne by (cases "candidates_of logits") auto
    have best: "snd c < length logits" "fst c = logits ! snd c"
      using max_by_mem [OF c] candidates_mem [of c logits] by blast+
    have top: "fl_key fl (logits ! j) \<le> fl_key fl (logits ! snd c)" if "j < length logits" for j
    proof -
      have "(logits ! j, j) \<in> set (candidates_of logits)" using that by (simp add: candidates_mem)
      then have "(\<lambda>(l, _). fl_key fl l) (logits ! j, j) \<le> (\<lambda>(l, _). fl_key fl l) c" using max_by_mem [OF c] by blast
      then show ?thesis unfolding best(2) [symmetric] by (simp add: case_prod_beta)
    qed
    have "{j. j < length logits \<and> fl_key fl (logits ! snd c) < fl_key fl (logits ! j)} = {}"
      using top by (auto dest: leD)
    then have "card {j. j < length logits \<and> fl_key fl (logits ! snd c) < fl_key fl (logits ! j)} = 0" by (simp only: card.empty)
    moreover have "fst (sample fl so logits samp rng) = Some (snd c)"
      using True c by (simp add: sample_def split: prod.split)
    ultimately show ?thesis using best(1) top rng by (intro exI [of _ "snd c"] conjI) (simp_all only: simp_thms, blast)
  next
    case False
    obtain l i where li: "fst (sample fl so logits samp rng) = Some i"
      "(l, i) \<in> set (shortlist so (top_k samp) (candidates_of logits))"
      using sample_from_shortlist [OF False unstable_sorting.shortlist_nonempty [OF assms(1) ne]] by blast
    have "(l, i) \<in> set (candidates_of logits)"
      using unstable_sorting.shortlist_subset [OF assms(1)] li(2) by (rule subsetD)
    then have "i < length logits" by (simp add: candidates_mem)
    moreover note unstable_sorting.shortlist_rank [OF assms(1) li(2)]
    ultimately show ?thesis using li(1) False rng by (intro exI [of _ i] conjI impI) (simp_all only: simp_thms)
  qed
qed

text \<open>Integers for floats, and the stable sort.\<close>

definition int_floats :: "(int, int) floats" where
  "int_floats = \<lparr> fl_key = id, fl_zero = 0, fl_add = (+), fl_div = (\<lambda>a b. a), fl_weight = (\<lambda>l m t. l - m + 10),
     fl_finite = (\<lambda>_. True), fl_le_zero = (\<lambda>x. x \<le> 0), fl_ge = (\<lambda>c p. False), fl_pick = (\<lambda>r s. 11),
     fl_sub = (-), fl_spent = (\<lambda>d. d \<le> 0) \<rparr>"

definition demo_logits :: "int list" where
  "demo_logits = [3, 9, 5, 8]"

theorem sample_ok_witness:
  "fst (sample int_floats (stable_sorting id) demo_logits (sampling_default\<lparr> top_k := 2 \<rparr>) 1) = Some 3
   \<and> card {j. j < length demo_logits \<and> demo_logits ! 3 < demo_logits ! j} < 2"
proof -
  let ?s = "sampling_default\<lparr> top_k := 2 \<rparr>"
  have v: "fst (sample int_floats (stable_sorting id) demo_logits ?s 1) = Some 3" by code_simp
  have k: "fl_key int_floats = id" by (simp add: int_floats_def)
  have ne: "demo_logits \<noteq> []" by (simp add: demo_logits_def)
  have "unstable_sorting (fl_key int_floats) (stable_sorting id)"
    unfolding k by (rule stable.unstable_sorting_axioms)
  from sample_ok [OF this ne, of 1 ?s] v show ?thesis by (simp add: k)
qed

end
