(* ===== verification/MetalSession.thy ===== *)
theory MetalSession
  imports MetalServerProps Catalog
begin

text \<open>
  A connection between the broker and the appliance: the server's connection handler
  (\<^verbatim>\<open>chatty-metal/src/server.rs\<close>) and the broker's client (\<^verbatim>\<open>chatty-broker/src/adapters/metal.rs\<close>).
  Frames carry their decoded message; a payload that does not decode is a \<open>Garbled\<close> one.  The framing
  itself is the subject of \<open>MetalWire\<close>.  \<open>writable n\<close> says whether a write after \<open>n\<close> others succeeds,
  \<open>boards k\<close> is the status board when the \<open>k\<close>-th frame is handled.  A timeout is a read that fails.
\<close>

section \<open>Messages on a connection\<close>

datatype client_msg = CHello | CStatusRequest | CGenerate generate | CGarbledGenerate | CCancel | COther

datatype server_msg =
  SHelloAck hello_ack | SStatus status | SChunk chunk | SDone gen_done | SError wire_error | SOther
  | SGarbled server_msg_kind string
and server_msg_kind = KHelloAck | KStatus | KReply

record conn =
  out :: "(u64 \<times> server_msg) list"
  open_conn :: bool

definition write_msg :: "(nat \<Rightarrow> bool) \<Rightarrow> u64 \<Rightarrow> server_msg \<Rightarrow> conn \<Rightarrow> conn" where
  "write_msg writable rid msg c =
     (if open_conn c \<and> writable (length (out c)) then c\<lparr> out := out c @ [(rid, msg)] \<rparr>
      else c\<lparr> open_conn := False \<rparr>)"

definition close_conn :: "conn \<Rightarrow> conn" where
  "close_conn c = c\<lparr> open_conn := False \<rparr>"

definition send_error :: "(nat \<Rightarrow> bool) \<Rightarrow> u64 \<Rightarrow> metal_error_code \<Rightarrow> string \<Rightarrow> conn \<Rightarrow> conn" where
  "send_error writable rid code msg c =
     close_conn (write_msg writable rid (SError \<lparr> we_code = code, we_message = msg \<rparr>) c)"

section \<open>The server's handler\<close>

text \<open>\<open>evs\<close> are the worker's replies; when they end without a final event the worker is gone.\<close>

fun relay :: "(nat \<Rightarrow> bool) \<Rightarrow> u64 \<Rightarrow> event list \<Rightarrow> conn \<Rightarrow> conn" where
  "relay writable rid [] c = close_conn c"
| "relay writable rid (EvChunk ch # evs) c =
     (let c = write_msg writable rid (SChunk ch) c in if open_conn c then relay writable rid evs c else c)"
| "relay writable rid (EvDone d # evs) c = close_conn (write_msg writable rid (SDone d) c)"
| "relay writable rid (EvError e # evs) c = close_conn (write_msg writable rid (SError e) c)"

text \<open>\<open>job\<close> is what the model worker replies to a request; \<open>None\<close> when it is not running.  The queue
  depth goes up before the job is handed over and down right after.\<close>

definition handle_generate ::
  "(nat \<Rightarrow> bool) \<Rightarrow> (generate \<Rightarrow> event list) option \<Rightarrow> board \<Rightarrow> u64 \<Rightarrow> generate option \<Rightarrow> conn \<Rightarrow> conn" where
  "handle_generate writable job b rid request c =
     (case request of
        None \<Rightarrow> send_error writable rid InvalidRequest ''invalid generate request'' c
      | Some req \<Rightarrow>
          (case generate_validate req of
             Inl e \<Rightarrow> send_error writable rid InvalidRequest (metal_message e) c
           | Inr _ \<Rightarrow>
               if bd_state b \<noteq> Ready then send_error writable rid NotReady (bd_detail b) c
               else (case job of
                       None \<Rightarrow> send_error writable rid Internal ''model worker is not running'' c
                     | Some run \<Rightarrow> relay writable rid (run req) c)))"

fun serve_frames ::
  "(nat \<Rightarrow> bool) \<Rightarrow> (generate \<Rightarrow> event list) option \<Rightarrow> (nat \<Rightarrow> board) \<Rightarrow> (nat \<Rightarrow> nat) \<Rightarrow> nat
   \<Rightarrow> (u64 \<times> client_msg) list \<Rightarrow> conn \<Rightarrow> conn" where
  "serve_frames writable job boards uptime k [] c = close_conn c"
| "serve_frames writable job boards uptime k ((rid, msg) # frames) c =
     (if \<not> open_conn c then c
      else (case msg of
              CStatusRequest \<Rightarrow>
                serve_frames writable job boards uptime (k + 1) frames
                  (write_msg writable rid (SStatus (snapshot (uptime k) (boards k))) c)
            | CGenerate req \<Rightarrow> handle_generate writable job (boards k) rid (Some req) c
            | CGarbledGenerate \<Rightarrow> handle_generate writable job (boards k) rid None c
            | CCancel \<Rightarrow> close_conn c
            | _ \<Rightarrow> send_error writable rid ProtocolCode ''unexpected message'' c))"

text \<open>The first frame: \<open>None\<close> when none could be read, else its request id and what its payload decodes
  to as a hello.  Its message type is not looked at.\<close>

definition handle_protocol ::
  "(nat \<Rightarrow> bool) \<Rightarrow> (generate \<Rightarrow> event list) option \<Rightarrow> (nat \<Rightarrow> board) \<Rightarrow> (nat \<Rightarrow> nat)
   \<Rightarrow> (u64 \<times> hello option) option \<Rightarrow> (u64 \<times> client_msg) list \<Rightarrow> conn" where
  "handle_protocol writable job boards uptime first frames =
     (let c = \<lparr> out = [], open_conn = True \<rparr> in
      case first of
        None \<Rightarrow> close_conn c
      | Some (rid, None) \<Rightarrow> send_error writable rid ProtocolCode ''invalid hello'' c
      | Some (rid, Some h) \<Rightarrow>
          if \<not> is_ok (hello_validate h)
          then send_error writable rid ProtocolCode ''unsupported protocol version'' c
          else serve_frames writable job boards uptime 1 frames
                 (write_msg writable rid (SHelloAck (board_hello_ack (uptime 0) (boards 0))) c))"

section \<open>The broker's client\<close>

definition DEFAULT_PORT :: nat where "DEFAULT_PORT = 11434"
definition DEFAULT_MAX_TOKENS :: nat where "DEFAULT_MAX_TOKENS = 4096"

fun or_else :: "'a option \<Rightarrow> 'a option \<Rightarrow> 'a option" where
  "or_else (Some a) b = Some a"
| "or_else None b = b"

definition unwrap_or :: "'a \<Rightarrow> 'a option \<Rightarrow> 'a" where
  "unwrap_or d x = (case x of None \<Rightarrow> d | Some v \<Rightarrow> v)"

definition trim_end_slash :: "string \<Rightarrow> string" where
  "trim_end_slash s = rev (dropWhile (\<lambda>c. c = CHR ''/'') (rev s))"

definition is_port :: "string \<Rightarrow> bool" where
  "is_port s \<longleftrightarrow> (case parse_usize s of Some n \<Rightarrow> n < 2 ^ 16 | None \<Rightarrow> False)"

definition url_rest :: "string \<Rightarrow> string" where
  "url_rest url =
     (let trimmed = trim url in
      trim_end_slash (unwrap_or trimmed
        (or_else (or_else (strip_prefix ''metal://'' trimmed) (strip_prefix ''http://'' trimmed))
           (strip_prefix ''https://'' trimmed))))"

definition metal_client_new :: "string \<Rightarrow> string + string" where
  "metal_client_new url =
     (let rest = url_rest url in
      if rest = [] \<or> list_ex (\<lambda>c. c \<in> set ''/?#@'') rest \<or> list_ex is_whitespace (chars rest)
      then Inl ''chatty-metal URL is invalid''
      else Inr (if is_port (last (split_at (CHR '':'') rest)) \<and> count_list rest (CHR '':'') = 1 then rest
                else rest @ '':'' @ show_nat DEFAULT_PORT))"

record chat_message =
  cm_role :: string
  cm_content :: string

record generation_options =
  go_temperature :: "f32 option"
  go_top_p :: "f32 option"
  go_top_k :: "nat option"
  go_max_tokens :: "int option"
  go_seed :: "int option"
  go_disable_reasoning :: bool

record completion =
  cp_content :: "string option"
  cp_finish :: "string option"
  cp_prompt_tokens :: nat
  cp_completion_tokens :: nat

definition system_text :: "chat_message list \<Rightarrow> string" where
  "system_text ms = join (nl @ nl) (map cm_content (filter (\<lambda>m. cm_role m = ''system'') ms))"

definition turn_pieces :: "chat_message \<Rightarrow> piece list" where
  "turn_pieces m =
     (if cm_role m = ''user'' then [Marker User, Text (cm_content m)]
      else if cm_role m = ''assistant''
      then [Marker Assistant, Text (cm_content m), Marker EndOfSentenceMarker] else [])"

definition chat_prompt :: "chat_message list \<Rightarrow> bool \<Rightarrow> piece list" where
  "chat_prompt ms disable_reasoning =
     Marker BeginOfSentence
     # (if system_text ms = [] then [] else [Text (system_text ms @ nl @ nl)])
     @ concat (map turn_pieces ms)
     @ Marker Assistant # (if disable_reasoning then [Marker ThoughtEnd] else [])"

text \<open>\<^verbatim>\<open>f32::clamp\<close> passes a NaN through.\<close>

fun clamp_f32 :: "rat \<Rightarrow> rat \<Rightarrow> f32 \<Rightarrow> f32" where
  "clamp_f32 lo hi (Finite r) = Finite (if r < lo then lo else if hi < r then hi else r)"
| "clamp_f32 lo hi (Infinite neg) = Finite (if neg then lo else hi)"
| "clamp_f32 lo hi NaN = NaN"

definition generate_request :: "chat_message list \<Rightarrow> generation_options \<Rightarrow> generate" where
  "generate_request ms opts =
     \<lparr> prompt = chat_prompt ms (go_disable_reasoning opts),
       sampling = \<lparr> temperature = clamp_f32 0 4 (unwrap_or (Finite (13421773 / 16777216)) (go_temperature opts)),
                    top_p = clamp_f32 0 1 (unwrap_or (Finite (15938355 / 16777216)) (go_top_p opts)),
                    top_k = min (unwrap_or 40 (go_top_k opts)) 1024,
                    seed = of_int (max 0 (unwrap_or 0 (go_seed opts))) \<rparr>,
       max_tokens = (case go_max_tokens opts of
                       Some n \<Rightarrow> if 0 < n then min (nat n) MAX_OUTPUT_TOKENS else DEFAULT_MAX_TOKENS
                     | None \<Rightarrow> DEFAULT_MAX_TOKENS) \<rparr>"

fun finish_text :: "finish_reason \<Rightarrow> string" where
  "finish_text EndOfSentence = ''stop''"
| "finish_text Length = ''length''"
| "finish_text Cancelled = ''cancelled''"

text \<open>The answers a client reads are a list; reading past its end is an I/O error.\<close>

definition connect :: "(u64 \<times> server_msg) list \<Rightarrow> string + hello_ack \<times> (u64 \<times> server_msg) list" where
  "connect msgs =
     (case msgs of
        [] \<Rightarrow> Inl ''io''
      | (_, SHelloAck ack) # rest \<Rightarrow>
          if ha_version ack \<noteq> PROTOCOL_VERSION
          then Inl (''chatty-metal protocol version '' @ show_nat (ha_version ack) @ '' is not supported'')
          else Inr (ack, rest)
      | (_, SGarbled KHelloAck e) # _ \<Rightarrow> Inl e
      | _ \<Rightarrow> Inl ''chatty-metal did not acknowledge the handshake'')"

fun collect :: "u64 \<Rightarrow> string \<Rightarrow> (u64 \<times> server_msg) list \<Rightarrow> string + completion" where
  "collect rid acc [] = Inl ''io''"
| "collect rid acc ((i, msg) # msgs) =
     (if i \<noteq> rid then Inl ''chatty-metal answered a different request''
      else (case msg of
              SChunk c \<Rightarrow> collect rid (if ck_reasoning c then acc else acc @ ck_text c) msgs
            | SDone d \<Rightarrow>
                Inr \<lparr> cp_content = Some acc, cp_finish = Some (finish_text (dn_finish d)),
                      cp_prompt_tokens = dn_prompt_tokens d, cp_completion_tokens = dn_completion_tokens d \<rparr>
            | SError e \<Rightarrow> Inl (we_message e)
            | SGarbled KReply e \<Rightarrow> Inl e
            | _ \<Rightarrow> Inl ''chatty-metal sent an unexpected frame''))"

definition ready_ack :: "(u64 \<times> server_msg) list \<Rightarrow> string + hello_ack \<times> (u64 \<times> server_msg) list" where
  "ready_ack msgs =
     and_then (connect msgs) (\<lambda>(ack, rest).
     if ha_state ack \<noteq> Ready then Inl (''chatty-metal is not ready: '' @ ha_detail ack) else Inr (ack, rest))"

text \<open>\<open>complete_inner\<close> and the set-up of \<^verbatim>\<open>stream\<close> send the request only when this is \<open>Inr\<close>; what is left
  are the answers to it.\<close>

definition start_request ::
  "chat_message list \<Rightarrow> generation_options \<Rightarrow> (u64 \<times> server_msg) list \<Rightarrow> string + generate \<times> (u64 \<times> server_msg) list" where
  "start_request ms opts msgs =
     and_then (ready_ack msgs) (\<lambda>(ack, rest).
     let req = generate_request ms opts in
     and_then (map_err metal_message (generate_validate req)) (\<lambda>_. Inr (req, rest)))"

definition complete_inner ::
  "chat_message list \<Rightarrow> generation_options \<Rightarrow> (u64 \<times> server_msg) list \<Rightarrow> string + completion" where
  "complete_inner ms opts msgs = and_then (start_request ms opts msgs) (\<lambda>(req, rest). collect 1 [] rest)"

definition metal_models :: "(u64 \<times> server_msg) list \<Rightarrow> string + string list" where
  "metal_models msgs =
     and_then (ready_ack msgs) (\<lambda>(ack, rest). Inr (if ha_model ack = [] then [] else [ha_model ack]))"

definition metal_status :: "(u64 \<times> server_msg) list \<Rightarrow> string + status" where
  "metal_status msgs =
     and_then (connect msgs) (\<lambda>(ack, rest).
       case rest of
         [] \<Rightarrow> Inl ''io''
       | (_, SStatus s) # _ \<Rightarrow> Inr s
       | (_, SGarbled KStatus e) # _ \<Rightarrow> Inl e
       | _ \<Rightarrow> Inl ''chatty-metal did not return status'')"

section \<open>The streaming client\<close>

record stream_update =
  su_text :: string
  su_reasoning :: bool
  su_finish :: "string option"
  su_prompt_tokens :: "nat option"
  su_completion_tokens :: "nat option"
  su_done :: bool

definition empty_update :: stream_update where
  "empty_update = \<lparr> su_text = [], su_reasoning = False, su_finish = None, su_prompt_tokens = None,
     su_completion_tokens = None, su_done = False \<rparr>"

text \<open>The state: whether the stream is done, and the answers still to be read.\<close>

definition stream_next ::
  "bool \<times> (u64 \<times> server_msg) list \<Rightarrow> (string + stream_update option) \<times> bool \<times> (u64 \<times> server_msg) list" where
  "stream_next = (\<lambda>(fin, msgs).
     (if fin then (Inr None, fin, msgs)
      else (case msgs of
              [] \<Rightarrow> (Inl ''io'', fin, msgs)
            | (i, msg) # rest \<Rightarrow>
                if i \<noteq> 1 then (Inl ''chatty-metal answered a different request'', fin, rest)
                else (case msg of
                        SChunk c \<Rightarrow>
                          (Inr (Some (empty_update\<lparr> su_text := (if ck_reasoning c then [] else ck_text c),
                             su_reasoning := ck_reasoning c \<rparr>)), fin, rest)
                      | SDone d \<Rightarrow>
                          (Inr (Some (empty_update\<lparr> su_finish := Some (finish_text (dn_finish d)),
                             su_prompt_tokens := Some (dn_prompt_tokens d),
                             su_completion_tokens := Some (dn_completion_tokens d), su_done := True \<rparr>)), True, rest)
                      | SError e \<Rightarrow> (Inl (we_message e), fin, rest)
                      | SGarbled KReply e \<Rightarrow> (Inl e, fin, rest)
                      | _ \<Rightarrow> (Inl ''chatty-metal sent an unexpected frame'', fin, rest)))))"

end
