(* ===== verification/MetalSessionProps.thy ===== *)
theory MetalSessionProps
  imports MetalSession
begin

text \<open>
  What the broker makes of the appliance's answers: the streaming and the collecting client agree,
  a completion is the whole reply of the job, and role markers in the prompt's tokens come only from
  the broker.
\<close>

section \<open>Streaming and collecting\<close>

text \<open>A caller that polls the stream until it is done, joining what it gets.\<close>

fun drain_stream :: "nat \<Rightarrow> bool \<times> (u64 \<times> server_msg) list \<Rightarrow> string \<Rightarrow> string + completion" where
  "drain_stream fuel st acc =
     (if fuel = 0 then Inl ''fuel''
      else (case stream_next st of
              (Inl e, _) \<Rightarrow> Inl e
            | (Inr None, _) \<Rightarrow> Inl ''closed''
            | (Inr (Some u), st') \<Rightarrow>
                if su_done u
                then Inr \<lparr> cp_content = Some (acc @ su_text u), cp_finish = su_finish u,
                       cp_prompt_tokens = unwrap_or 0 (su_prompt_tokens u),
                       cp_completion_tokens = unwrap_or 0 (su_completion_tokens u) \<rparr>
                else drain_stream (fuel - 1) st' (acc @ su_text u)))"

declare drain_stream.simps [simp del]

lemma drain_stream_collect: "length msgs < fuel \<Longrightarrow> drain_stream fuel (False, msgs) acc = collect 1 acc msgs"
proof (induction msgs arbitrary: fuel acc)
  case Nil
  then show ?case by (simp add: drain_stream.simps [of fuel] stream_next_def)
next
  case (Cons m msgs)
  obtain i msg where m: "m = (i, msg)" by (cases m)
  have IH: "drain_stream (fuel - Suc 0) (False, msgs) acc' = collect 1 acc' msgs" for acc'
    using Cons by simp
  show ?case
    using Cons(2) IH by (auto simp: drain_stream.simps [of fuel] m stream_next_def empty_update_def unwrap_or_def
        split: server_msg.splits server_msg_kind.splits)
qed

section \<open>A whole exchange\<close>

text \<open>The client sends its hello, reads the answer, and then sends the request if it may.\<close>

definition client_frames :: "chat_message list \<Rightarrow> generation_options \<Rightarrow> (u64 \<times> server_msg) list \<Rightarrow> (u64 \<times> client_msg) list" where
  "client_frames ms opts msgs =
     (case start_request ms opts msgs of Inl _ \<Rightarrow> [] | Inr (req, _) \<Rightarrow> [(1, CGenerate req)])"

definition session ::
  "(nat \<Rightarrow> bool) \<Rightarrow> (generate \<Rightarrow> event list) option \<Rightarrow> (nat \<Rightarrow> board) \<Rightarrow> (nat \<Rightarrow> nat)
   \<Rightarrow> chat_message list \<Rightarrow> generation_options \<Rightarrow> string + completion" where
  "session writable job boards uptime ms opts =
     (let serve = handle_protocol writable job boards uptime (Some (0, Some (hello_new ''chatty-broker''))) in
      complete_inner ms opts (out (serve (client_frames ms opts (out (serve []))))))"

text \<open>What a reply amounts to.\<close>

definition reply_result :: "event list \<Rightarrow> string + completion" where
  "reply_result evs =
     (case last evs of
        EvDone d \<Rightarrow> Inr \<lparr> cp_content = Some (stream_text evs), cp_finish = Some (finish_text (dn_finish d)),
          cp_prompt_tokens = dn_prompt_tokens d, cp_completion_tokens = dn_completion_tokens d \<rparr>
      | EvError e \<Rightarrow> Inl (we_message e)
      | EvChunk _ \<Rightarrow> Inl ''io'')"

definition chunks_then_final :: "event list \<Rightarrow> bool" where
  "chunks_then_final evs \<longleftrightarrow> (\<exists>cs tail. evs = map EvChunk cs @ tail
     \<and> ((\<exists>d. tail = [EvDone d]) \<or> (\<exists>e. tail = [EvError e]) \<or> tail = []))"

text \<open>The messages that reach the client: those of the reply up to the first failed write.\<close>

fun reply_msg :: "event \<Rightarrow> server_msg" where
  "reply_msg (EvChunk c) = SChunk c"
| "reply_msg (EvDone d) = SDone d"
| "reply_msg (EvError e) = SError e"

fun sent_prefix :: "(nat \<Rightarrow> bool) \<Rightarrow> nat \<Rightarrow> event list \<Rightarrow> event list" where
  "sent_prefix writable n [] = []"
| "sent_prefix writable n (ev # evs) =
     (if writable n
      then ev # (case ev of EvChunk _ \<Rightarrow> sent_prefix writable (n + 1) evs | _ \<Rightarrow> [])
      else [])"

lemma relay_out:
  "open_conn c \<Longrightarrow> out (relay writable rid evs c)
     = out c @ map (\<lambda>ev. (rid, reply_msg ev)) (sent_prefix writable (length (out c)) evs)"
  by (induction writable rid evs c rule: relay.induct) (simp_all add: write_msg_def close_conn_def Let_def)

lemma collect_reply:
  "collect rid acc (map (\<lambda>ev. (rid, reply_msg ev)) (map EvChunk cs @ tail))
     = collect rid (acc @ stream_text (map EvChunk cs)) (map (\<lambda>ev. (rid, reply_msg ev)) tail)"
  by (induction cs arbitrary: acc) (simp_all add: stream_text_def event_text_def)

lemma sent_prefix_all:
  "chunks_then_final evs \<Longrightarrow> \<forall>n. writable n \<Longrightarrow> sent_prefix writable n evs = evs"
  unfolding chunks_then_final_def
proof (elim exE conjE)
  fix cs tail
  assume evs: "evs = map EvChunk cs @ tail" and w: "\<forall>n. writable n"
    and t: "(\<exists>d. tail = [EvDone d]) \<or> (\<exists>e. tail = [EvError e]) \<or> tail = []"
  show "sent_prefix writable n evs = evs"
    unfolding evs by (induction cs arbitrary: n) (use w t in auto)
qed

lemma sent_prefix_cut:
  "\<exists>k. sent_prefix writable n evs = take k evs"
proof (induction evs arbitrary: n)
  case (Cons ev evs)
  obtain k where "sent_prefix writable (n + 1) evs = take k evs" using Cons by blast
  then have "sent_prefix writable n (ev # evs) \<in> {take (Suc k) (ev # evs), take 1 (ev # evs), take 0 (ev # evs)}"
    by (cases ev) auto
  then show ?case by blast
qed simp

lemma reply_result_collect:
  assumes "chunks_then_final evs"
  shows "collect 1 [] (map (\<lambda>ev. (1, reply_msg ev)) evs) = (if evs = [] then Inl ''io'' else reply_result evs)"
proof -
  obtain cs tail where evs: "evs = map EvChunk cs @ tail"
    and t: "(\<exists>d. tail = [EvDone d]) \<or> (\<exists>e. tail = [EvError e]) \<or> tail = []"
    using assms unfolding chunks_then_final_def by blast
  have silent: "stream_text (xs @ [EvDone d]) = stream_text xs" for xs d
    by (simp add: event_text_def)
  consider d where "tail = [EvDone d]" | e where "tail = [EvError e]" | "tail = []" "cs = []"
    | "tail = []" "cs \<noteq> []" using t by blast
  then show ?thesis
  proof cases
    case 4
    then have "last evs = EvChunk (last cs)" by (simp add: evs last_map)
    then have "reply_result evs = Inl ''io''" by (simp add: reply_result_def)
    moreover have "collect 1 [] (map (\<lambda>ev. (1, reply_msg ev)) evs) = Inl ''io''"
      unfolding evs collect_reply 4 by simp
    ultimately show ?thesis by simp
  qed (simp_all add: evs reply_result_def collect_reply [of 1 "[]" cs] silent event_text_def del: map_append)
qed

lemma collect_partial:
  assumes "chunks_then_final evs" "collect 1 [] (map (\<lambda>ev. (1, reply_msg ev)) (take k evs)) = Inr r"
  shows "take k evs = evs"
proof (rule ccontr)
  assume cut: "take k evs \<noteq> evs"
  obtain cs tail where evs: "evs = map EvChunk cs @ tail" and t: "length tail \<le> 1"
    using assms(1) unfolding chunks_then_final_def by force
  have "k < length evs" using cut by (simp add: not_le)
  then have "k \<le> length cs" using t by (simp add: evs)
  then have "take k evs = map EvChunk (take k cs) @ []" by (simp add: evs take_map)
  then have "collect 1 [] (map (\<lambda>ev. (1, reply_msg ev)) (take k evs)) = Inl ''io''"
    by (simp only: collect_reply list.map collect.simps)
  then show False using assms(2) by simp
qed

lemma run_job_shape: "chunks_then_final (fst (run_job eng w t req b m))"
  using run_job_events [of w req eng t b m] unfolding events_ok_def chunks_then_final_def by blast

lemma run_job_nonempty: "\<forall>n. alive w n \<Longrightarrow> fst (run_job eng w t req b m) \<noteq> []"
  using run_job_events [of w req eng t b m] unfolding events_ok_def by auto

lemma hello_accepted: "is_ok (hello_validate (hello_new ''chatty-broker''))"
  by (simp add: hello_validate_def hello_new_def MAX_CLIENT_BYTES_def)

lemma start_request_ack:
  "start_request ms opts ((i, SHelloAck (board_hello_ack u b)) # rest)
     = (if bd_state b \<noteq> Ready then Inl (''chatty-metal is not ready: '' @ bd_detail b)
        else and_then (map_err metal_message (generate_validate (generate_request ms opts)))
               (\<lambda>_. Inr (generate_request ms opts, rest)))"
  by (simp add: start_request_def ready_ack_def connect_def board_hello_ack_def snapshot_def Let_def)

lemma session_steps:
  "session writable job boards uptime ms opts =
     (if \<not> writable 0 then Inl ''io''
      else if bd_state (boards 0) \<noteq> Ready then Inl (''chatty-metal is not ready: '' @ bd_detail (boards 0))
      else case generate_validate (generate_request ms opts) of
             Inl e \<Rightarrow> Inl (metal_message e)
           | Inr _ \<Rightarrow>
               collect 1 [] (drop 1 (out (handle_generate writable job (boards 1) 1 (Some (generate_request ms opts))
                 \<lparr> out = [(0, SHelloAck (board_hello_ack (uptime 0) (boards 0)))], open_conn = True \<rparr>))))"
proof -
  let ?ack = "(0, SHelloAck (board_hello_ack (uptime 0) (boards 0))) :: u64 \<times> server_msg"
  let ?serve = "handle_protocol writable job boards uptime (Some (0, Some (hello_new ''chatty-broker'')))"
  have S: "?serve fs = (if writable 0 then serve_frames writable job boards uptime 1 fs \<lparr> out = [?ack], open_conn = True \<rparr>
      else serve_frames writable job boards uptime 1 fs \<lparr> out = [], open_conn = False \<rparr>)" for fs
    by (simp add: handle_protocol_def hello_accepted write_msg_def)
  have first: "\<exists>xs. out (handle_generate writable job b 1 rq c) = out c @ xs" if "open_conn c" for b rq c
    using that by (auto simp: handle_generate_def send_error_def close_conn_def write_msg_def relay_out split: option.split sum.split)
  show ?thesis
  proof (cases "writable 0")
    case False
    then show ?thesis
      by (simp add: session_def S client_frames_def start_request_def ready_ack_def connect_def close_conn_def complete_inner_def)
  next
    case w: True
    have open_out: "out (?serve []) = [?ack]" by (simp add: S w close_conn_def)
    show ?thesis
    proof (cases "bd_state (boards 0) \<noteq> Ready \<or> (\<exists>e. generate_validate (generate_request ms opts) = Inl e)")
      case True
      then show ?thesis
        by (auto simp: session_def open_out client_frames_def complete_inner_def start_request_ack w Let_def)
    next
      case False
      then obtain u where v: "generate_validate (generate_request ms opts) = Inr u" by (cases "generate_validate (generate_request ms opts)") auto
      let ?c = "\<lparr> out = [?ack], open_conn = True \<rparr>"
      obtain xs where xs: "out (handle_generate writable job (boards 1) 1 (Some (generate_request ms opts)) ?c) = ?ack # xs"
        using first [of ?c "boards 1" "Some (generate_request ms opts)"] by auto
      have fr: "client_frames ms opts [?ack] = [(1, CGenerate (generate_request ms opts))]"
        using False by (simp add: client_frames_def start_request_ack v)
      have "out (?serve [(1, CGenerate (generate_request ms opts))]) = ?ack # xs" by (simp add: S w xs [simplified])
      then show ?thesis
        using False by (simp add: session_def open_out fr complete_inner_def start_request_ack v w xs [simplified])
    qed
  qed
qed

lemma handle_generate_reply:
  assumes "generate_validate req = Inr u" "bd_state b = Ready" "open_conn c"
  shows "out (handle_generate writable (Some run) b 1 (Some req) c)
    = out c @ map (\<lambda>ev. (1, reply_msg ev)) (sent_prefix writable (length (out c)) (run req))"
  using assms by (simp add: handle_generate_def relay_out)

section \<open>Role markers\<close>

definition role_markers :: "marker set" where
  "role_markers = {BeginOfSentence, User, Assistant, EndOfSentenceMarker}"

lemma chars_skip_ascii:
  "\<not> is_cont c \<Longrightarrow> \<not> is_cont d \<Longrightarrow> chars (c # d # xs) = [c] # chars (d # xs)"
  by simp

lemma bar_bytes: "bar = [CHR 0xEF, CHR 0xBD, CHR 0x9C]"
  by code_simp

lemma bar_outside: "bar \<notin> range enc_byte"
proof
  assume "bar \<in> range enc_byte"
  then obtain b where "bar = enc_byte b" by blast
  then have "length bar = length (encode_char (byte_chars ! of_char b))" by (simp add: enc_byte_def)
  moreover have "length (encode_char c) \<le> 2" if "c < 2048" for c using that by (simp add: encode_char_def)
  ultimately have "length bar \<le> 2" using byte_chars_nth [of b] by metis
  then show False by (simp add: bar_bytes)
qed

lemma marker_outside:
  assumes "mk \<in> role_markers"
  shows "\<exists>c \<in> set (chars (marker_name mk)). c \<notin> range enc_byte"
proof -
  have "bar \<in> set (chars (marker_name mk))"
    using assms unfolding role_markers_def
    by (elim insertE emptyE; simp add: BOS_def USER_def ASSISTANT_def EOS_def bar_bytes low_block_def is_cont_def)
  then show ?thesis using bar_outside by blast
qed

lemma marker_name_inj: "marker_name a = marker_name b \<longleftrightarrow> a = b"
  by (cases a; cases b; simp add: BOS_def USER_def ASSISTANT_def EOS_def THOUGHT_END_def bar_bytes low_block_def)

lemma special_distinct:
  assumes "tk_parse compile f = Inr t" "distinct (map fst (tf_added f))"
    "special t a = Inr i" "special t b = Inr i"
  shows "a = b"
proof -
  have "(i, a) \<in> set (tf_added f)" "(i, b) \<in> set (tf_added f)"
    using assms(3,4) unfolding special_def parsed_fields(2) [OF assms(1)] add_specials_def
    by (auto dest!: fold_upd_mem)
  then show ?thesis using assms(2) by (metis map_of_is_SomeI option.inject)
qed

lemma prompt_ids_markers:
  assumes "tk_parse compile f = Inr t" "file_ok f" "distinct (map fst (tf_added f))"
    "mk \<in> role_markers" "special t (marker_name mk) = Inr i" "prompt_ids t ps = Inr ids"
  shows "count_list ids i = count_list ps (Marker mk)"
  using assms(6)
proof (induction ps arbitrary: ids)
  case (Cons p ps)
  show ?case
  proof (cases p)
    case (Text s)
    then obtain rest where "prompt_ids t ps = Inr rest" "ids = encode t s @ rest"
      using Cons(2) by (auto simp: and_then_eq_Inr)
    moreover have "i \<notin> set (encode t s)"
      using encode_no_special [OF assms(1,2,5)] marker_outside [OF assms(4)] by blast
    ultimately show ?thesis using Cons(1) Text by simp
  next
    case (Marker mk')
    then obtain j rest where j: "special t (marker_name mk') = Inr j" "prompt_ids t ps = Inr rest" "ids = j # rest"
      using Cons(2) by (auto simp: and_then_eq_Inr)
    have "j = i \<longleftrightarrow> mk' = mk"
      using j(1) assms(5) special_distinct [OF assms(1,3)] marker_name_inj by (metis sum.inject(2))
    then show ?thesis using Cons(1) Marker j by auto
  qed
qed simp

section \<open>Properties\<close>

lemma count_turns:
  "count_list (concat (map turn_pieces ms)) (Marker User) = length (filter (\<lambda>m. cm_role m = ''user'') ms)"
  "count_list (concat (map turn_pieces ms)) (Marker Assistant) = length (filter (\<lambda>m. cm_role m = ''assistant'') ms)"
  by (induction ms) (simp_all add: turn_pieces_def)

text \<open>C33: Nobody can forge a turn: whatever the messages contain, the token sequence of the prompt has as
  many user markers as there are user messages, and one assistant marker for each assistant message
  and one for the reply.\<close>

theorem roles_not_forged:
  assumes "tk_parse compile f = Inr t" "file_ok f" "distinct (map fst (tf_added f))"
    "special t USER = Inr u" "special t ASSISTANT = Inr a"
    "prompt_ids t (chat_prompt ms disable_reasoning) = Inr ids"
  shows "count_list ids u = length (filter (\<lambda>m. cm_role m = ''user'') ms)
    \<and> count_list ids a = length (filter (\<lambda>m. cm_role m = ''assistant'') ms) + 1"
proof -
  have "count_list ids u = count_list (chat_prompt ms disable_reasoning) (Marker User)"
    "count_list ids a = count_list (chat_prompt ms disable_reasoning) (Marker Assistant)"
    by (rule prompt_ids_markers [OF assms(1-3) _ _ assms(6)]; use assms(4,5) in \<open>simp add: role_markers_def\<close>)+
  then show ?thesis by (simp add: chat_prompt_def count_turns)
qed

lemma clamp_in_range: "lo \<le> hi \<Longrightarrow> in_range lo hi (clamp_f32 lo hi x) \<longleftrightarrow> x \<noteq> NaN"
  by (cases x) auto

lemma clamp_finite: "is_finite (clamp_f32 lo hi x) \<longleftrightarrow> x \<noteq> NaN"
  by (cases x) auto

text \<open>The broker's clamping makes every option acceptable: its own request is refused only for a
  temperature or a nucleus bound that is not a number, or for a conversation with too many pieces or
  bytes.\<close>

theorem generate_request_accepted:
  "is_ok (generate_validate (generate_request ms opts)) \<longleftrightarrow>
     go_temperature opts \<noteq> Some NaN \<and> go_top_p opts \<noteq> Some NaN
     \<and> length (chat_prompt ms (go_disable_reasoning opts)) \<le> MAX_PROMPT_PIECES
     \<and> prompt_bytes 0 (chat_prompt ms (go_disable_reasoning opts)) \<le> MAX_PROMPT_BYTES"
proof -
  have un: "unwrap_or (Finite q) x \<noteq> NaN \<longleftrightarrow> x \<noteq> Some NaN" for q x
    by (cases x) (auto simp: unwrap_or_def)
  have "is_ok (sampling_validate (sampling (generate_request ms opts))) \<longleftrightarrow> go_temperature opts \<noteq> Some NaN \<and> go_top_p opts \<noteq> Some NaN"
    by (simp add: sampling_validate_def generate_request_def clamp_in_range clamp_finite un)
  moreover have "0 < max_tokens (generate_request ms opts) \<and> max_tokens (generate_request ms opts) \<le> MAX_OUTPUT_TOKENS"
    by (simp add: generate_request_def DEFAULT_MAX_TOKENS_def MAX_OUTPUT_TOKENS_def split: option.split)
  moreover have "prompt (generate_request ms opts) = chat_prompt ms (go_disable_reasoning opts)"
    "chat_prompt ms (go_disable_reasoning opts) \<noteq> []"
    by (simp_all add: generate_request_def chat_prompt_def)
  ultimately show ?thesis by (auto simp: generate_validate_def not_less)
qed

text \<open>Streaming and collecting agree: a caller that polls the stream to its end and joins the pieces
  gets the text, the finish reason and the token counts, or the error, that the collecting client
  gets from the same answers.\<close>

theorem stream_agrees:
  "drain_stream (length msgs + 1) (False, msgs) [] = collect 1 [] msgs"
  by (rule drain_stream_collect) simp

text \<open>A completion is never a truncated reply: whatever writes fail and whenever the client or the
  worker goes away, if the broker's call returns a completion then its text is everything the job
  streamed outside its thinking, and its finish reason and counts are those of the job's final event.\<close>

theorem completion_is_whole:
  assumes "session writable (Some (\<lambda>req. fst (run_job eng w t req b m))) boards uptime ms opts = Inr r"
  shows "reply_result (fst (run_job eng w t (generate_request ms opts) b m)) = Inr r"
proof -
  let ?req = "generate_request ms opts"
  let ?evs = "fst (run_job eng w t ?req b m)"
  obtain u where ok: "writable 0" "bd_state (boards 0) = Ready" "generate_validate ?req = Inr u"
    using assms unfolding session_steps by (auto split: if_splits sum.splits)
  have ready: "bd_state (boards 1) = Ready"
    using assms unfolding session_steps
    by (rule contrapos_pp) (simp add: ok handle_generate_def send_error_def close_conn_def write_msg_def)
  obtain k where k: "sent_prefix writable 1 ?evs = take k ?evs" using sent_prefix_cut by blast
  have c: "collect 1 [] (map (\<lambda>ev. (1, reply_msg ev)) (take k ?evs)) = Inr r"
    using assms unfolding session_steps by (simp add: ok ready [simplified] handle_generate_reply k [simplified])
  have "take k ?evs = ?evs" by (rule collect_partial [OF run_job_shape c])
  then have "collect 1 [] (map (\<lambda>ev. (1, reply_msg ev)) ?evs) = Inr r" using c by simp
  then show ?thesis using reply_result_collect [OF run_job_shape, of eng w t ?req b m] by (simp split: if_splits)
qed

text \<open>C34: An exchange over a working connection: the broker's call fails with the appliance's state when
  it is not ready, with the validation's message when the request is out of range, and otherwise
  gives the job's reply, whole.\<close>

theorem session_result:
  assumes "\<forall>n. writable n" "\<forall>n. alive w n"
  shows "session writable (Some (\<lambda>req. fst (run_job eng w t req b m))) boards uptime ms opts =
     (if bd_state (boards 0) \<noteq> Ready then Inl (''chatty-metal is not ready: '' @ bd_detail (boards 0))
      else case generate_validate (generate_request ms opts) of
             Inl e \<Rightarrow> Inl (metal_message e)
           | Inr _ \<Rightarrow> if bd_state (boards 1) \<noteq> Ready then Inl (bd_detail (boards 1))
                     else reply_result (fst (run_job eng w t (generate_request ms opts) b m)))"
proof -
  let ?evs = "fst (run_job eng w t (generate_request ms opts) b m)"
  have sent: "sent_prefix writable n ?evs = ?evs" for n by (rule sent_prefix_all [OF run_job_shape assms(1)])
  have res: "collect 1 [] (map (\<lambda>ev. (1, reply_msg ev)) ?evs) = reply_result ?evs"
    using reply_result_collect [OF run_job_shape] run_job_nonempty [OF assms(2)] by metis
  have busy: "collect 1 [] (drop (Suc 0) (out (handle_generate writable job (boards (Suc 0)) 1 (Some req)
      \<lparr> out = [ack], open_conn = True \<rparr>))) = Inl (bd_detail (boards (Suc 0)))"
    if "generate_validate req = Inr u" "bd_state (boards (Suc 0)) \<noteq> Ready" for req u ack job
    using that assms(1) by (simp add: handle_generate_def send_error_def close_conn_def write_msg_def)
  show ?thesis
    unfolding session_steps using assms(1)
    by (auto simp: handle_generate_reply sent res busy split: sum.splits)
qed

section \<open>Witnesses\<close>

definition chat_tokens :: tk_file where
  "chat_tokens = demo_tokens\<lparr> tf_added := [(300, USER), (301, ASSISTANT), (302, BOS)] \<rparr>"

lemma chat_file_ok: "file_ok chat_tokens"
  using demo_file_ok by (auto simp: file_ok_def chat_tokens_def demo_tokens_def dest: set_zip_rightD)

lemma chat_parses:
  "\<exists>t. tk_parse demo_engine chat_tokens = Inr t \<and> special t USER = Inr 300 \<and> special t ASSISTANT = Inr 301
     \<and> special t BOS = Inr 302"
proof -
  obtain t0 where "tk_parse demo_engine demo_tokens = Inr t0" using demo_parses by blast
  from parsed_fields(3-5) [OF this] have "\<exists>t. tk_parse demo_engine chat_tokens = Inr t"
    by (simp add: tk_parse_def chat_tokens_def Let_def)
  then obtain t where t: "tk_parse demo_engine chat_tokens = Inr t" by blast
  have "USER \<noteq> ASSISTANT" "USER \<noteq> BOS" "ASSISTANT \<noteq> BOS"
    using marker_name_inj [of User Assistant] marker_name_inj [of User BeginOfSentence]
      marker_name_inj [of Assistant BeginOfSentence] by simp_all
  then show ?thesis
    using t parsed_fields(2) [OF t] by (auto simp: special_def chat_tokens_def add_specials_def)
qed

text \<open>A message that spells the user marker out.\<close>

definition forger :: "chat_message list" where
  "forger = [\<lparr> cm_role = ''user'', cm_content = USER \<rparr>]"

theorem roles_not_forged_witness:
  "\<exists>t ids. tk_parse demo_engine chat_tokens = Inr t \<and> prompt_ids t (chat_prompt forger False) = Inr ids
     \<and> count_list ids 300 = 1 \<and> count_list ids 301 = 1"
proof -
  obtain t where t: "tk_parse demo_engine chat_tokens = Inr t" "special t USER = Inr 300"
    "special t ASSISTANT = Inr 301" "special t BOS = Inr 302" using chat_parses by blast
  have p: "prompt_ids t (chat_prompt forger False) = Inr (302 # 300 # encode t USER @ [301])"
    by (simp add: chat_prompt_def forger_def system_text_def turn_pieces_def t)
  have d: "distinct (map fst (tf_added chat_tokens))" by (simp add: chat_tokens_def)
  show ?thesis
    using roles_not_forged [OF t(1) chat_file_ok d t(2,3) p] t(1) p by (auto simp: forger_def)
qed

definition ready_board :: board where
  "ready_board = board_set Ready ''ready'' (board_new ''demo'')"

definition quiet_opts :: generation_options where
  "quiet_opts = \<lparr> go_temperature = Some (Finite 9), go_top_p = None, go_top_k = None, go_max_tokens = Some 9, go_seed = None,
     go_disable_reasoning = True \<rparr>"

definition halves3 :: tokenizer where
  "halves3 = halves\<lparr> tk_specials := [EOS \<mapsto> 3, BOS \<mapsto> 2, THOUGHT_END \<mapsto> 9, ASSISTANT \<mapsto> 8] \<rparr>"

definition demo_reply :: "string + completion" where
  "demo_reply = Inr \<lparr> cp_content = Some [CHR 0xC3, CHR 0xA9], cp_finish = Some ''stop'', cp_prompt_tokens = 3, cp_completion_tokens = 3 \<rparr>"

lemma demo_session:
  "session (\<lambda>_. True) (Some (\<lambda>req. fst (run_job counting calm halves3 req (board_new []) idle_gpu)))
     (\<lambda>_. ready_board) (\<lambda>_. 0) [] quiet_opts = demo_reply"
  by code_simp

theorem completion_is_whole_witness:
  "reply_result (fst (run_job counting calm halves3 (generate_request [] quiet_opts) (board_new []) idle_gpu)) = demo_reply"
  using completion_is_whole [OF demo_session [unfolded demo_reply_def]] by (simp add: demo_reply_def)

theorem session_result_witness:
  "(\<forall>n. alive calm n) \<and> session (\<lambda>_. True) (Some (\<lambda>req. fst (run_job counting calm halves3 req (board_new []) idle_gpu)))
     (\<lambda>_. ready_board) (\<lambda>_. 0) [] quiet_opts =
     reply_result (fst (run_job counting calm halves3 (generate_request [] quiet_opts) (board_new []) idle_gpu))"
proof -
  have v: "generate_validate (generate_request [] quiet_opts) = Inr ()" by code_simp
  have a: "\<forall>n. alive calm n" by (simp add: calm_def)
  have r: "bd_state ready_board = Ready" by code_simp
  show ?thesis
    using session_result [of "\<lambda>_. True" calm counting halves3 "board_new []" idle_gpu "\<lambda>_. ready_board" "\<lambda>_. 0" "[]" quiet_opts]
    by (simp add: a v r)
qed

end
