(* ===== verification/MetalListener.thy ===== *)
theory MetalListener
  imports MetalSession
begin

text \<open>
  The appliance's port (\<^verbatim>\<open>serve_with\<close>, \<^verbatim>\<open>dispatch\<close> and \<^verbatim>\<open>handle_http\<close> of
  \<^verbatim>\<open>chatty-metal/src/server.rs\<close>): the connection limit, the choice between the protocol and HTTP by the
  first byte, and the HTTP status page.  Accepting is a sequence of events: a connection comes in and
  its thread starts or does not, a served connection ends.
\<close>

section \<open>Accepting connections\<close>

definition MAX_CONNECTIONS :: nat where "MAX_CONNECTIONS = 64"
definition MAX_REQUEST_BYTES :: nat where "MAX_REQUEST_BYTES = 4096"
definition READ_BUFFER :: nat where "READ_BUFFER = 512"

text \<open>\<open>ls_count\<close> is the shared counter; \<open>ls_live\<close> (the connections being served) and \<open>ls_failed\<close> (the
  threads that did not start) record what happened.\<close>

record listener =
  ls_count :: nat
  ls_live :: nat
  ls_failed :: nat

datatype listen_event = Incoming bool | Ended

definition listener_new :: listener where
  "listener_new = \<lparr> ls_count = 0, ls_live = 0, ls_failed = 0 \<rparr>"

definition accept_connection :: "bool \<Rightarrow> listener \<Rightarrow> listener" where
  "accept_connection spawned l =
     (let previous = ls_count l; l = l\<lparr> ls_count := previous + 1 \<rparr> in
      if MAX_CONNECTIONS \<le> previous then l\<lparr> ls_count := ls_count l - 1 \<rparr>
      else if spawned then l\<lparr> ls_live := ls_live l + 1 \<rparr>
      else l\<lparr> ls_failed := ls_failed l + 1 \<rparr>)"

text \<open>The count guard of a served connection is dropped with its thread.\<close>

definition end_connection :: "listener \<Rightarrow> listener" where
  "end_connection l = (if ls_live l = 0 then l else l\<lparr> ls_live := ls_live l - 1, ls_count := ls_count l - 1 \<rparr>)"

fun listen_step :: "listen_event \<Rightarrow> listener \<Rightarrow> listener" where
  "listen_step (Incoming spawned) l = accept_connection spawned l"
| "listen_step Ended l = end_connection l"

inductive listening :: "listener \<Rightarrow> bool" where
  start: "listening listener_new"
| step: "listening l \<Longrightarrow> listening (listen_step ev l)"

section \<open>The first byte\<close>

datatype route = Ignored | ToProtocol | ToHttp

definition dispatch :: "bytes \<Rightarrow> route" where
  "dispatch stream = (case stream of [] \<Rightarrow> Ignored | b # _ \<Rightarrow> if b = 0 then ToProtocol else ToHttp)"

section \<open>The status page\<close>

definition crlf :: string where "crlf = [CHR 0x0D, CHR 0x0A]"

text \<open>The reads of a request's head, each of at most the buffer's size; an empty read is the end.\<close>

fun http_head :: "string list \<Rightarrow> string \<Rightarrow> string \<times> nat" where
  "http_head [] head = (head, length head)"
| "http_head (r # rs) head =
     (if r = [] then (head, length head)
      else let head = head @ r in
           case find_str (crlf @ crlf) head of
             Some e \<Rightarrow> (head, e + 4)
           | None \<Rightarrow> if MAX_REQUEST_BYTES < length head then (head, length head) else http_head rs head)"

fun state_debug :: "server_state \<Rightarrow> string" where
  "state_debug Loading = ''Loading''"
| "state_debug Ready = ''Ready''"
| "state_debug Failed = ''Failed''"

text \<open>\<open>tps_text\<close> prints the bits of the decode rate with two decimals.\<close>

definition status_text :: "(nat \<Rightarrow> string) \<Rightarrow> nat \<Rightarrow> board \<Rightarrow> string" where
  "status_text tps_text uptime b =
     (let s = snapshot uptime b in
      ''chatty-metal protocol v'' @ show_nat PROTOCOL_VERSION @ nl
      @ ''state: '' @ state_debug (ss_state s) @ nl
      @ ''detail: '' @ ss_detail s @ nl
      @ ''model: '' @ ss_model s @ nl
      @ ''context: '' @ show_nat (ss_context_tokens s) @ '' tokens'' @ nl
      @ ''uptime: '' @ show_nat (ss_uptime_ms s) @ '' ms'' @ nl
      @ ''tokens: '' @ show_nat (ss_tokens_generated s) @ nl
      @ ''requests: '' @ show_nat (ss_requests_served s) @ nl
      @ ''last decode: '' @ tps_text (ss_last_tps s) @ '' tokens/s'' @ nl)"

definition http_reply :: "(nat \<Rightarrow> string) \<Rightarrow> nat \<Rightarrow> board \<Rightarrow> string \<Rightarrow> string" where
  "http_reply tps_text uptime b boot_report =
     (let status = status_text tps_text uptime b
            @ (if boot_report = [] then [] else nl @ ''boot:'' @ nl @ boot_report) in
      ''HTTP/1.1 200 OK'' @ crlf @ ''Content-Type: text/plain'' @ crlf
      @ ''Content-Length: '' @ show_nat (length status) @ crlf @ ''Connection: close'' @ crlf @ crlf @ status)"

section \<open>Lemmas\<close>

lemma find_str_end: "find_str p s = Some e \<Longrightarrow> e + length p \<le> length s"
proof (induction p s arbitrary: e rule: find_str.induct)
  case (2 p c cs)
  then show ?case
    by (auto simp: starts_with_def split: if_splits) (metis length_take min.cobounded1 length_Cons min.commute)
qed (auto split: if_splits)

lemma listening_accounts:
  "listening l \<Longrightarrow> ls_count l = ls_live l + ls_failed l \<and> ls_count l \<le> MAX_CONNECTIONS"
proof (induction rule: listening.induct)
  case (step l ev)
  then show ?case
    by (cases ev) (auto simp: accept_connection_def end_connection_def Let_def)
qed (simp add: listener_new_def)

lemma listen_step_failed: "ls_failed l \<le> ls_failed (listen_step ev l)"
  by (cases ev) (simp_all add: accept_connection_def end_connection_def Let_def)

lemma door_stays_closed:
  "ls_failed l = MAX_CONNECTIONS \<Longrightarrow> ls_live l = 0 \<Longrightarrow> ls_count l = MAX_CONNECTIONS \<Longrightarrow> fold listen_step evs l = l"
proof (induction evs arbitrary: l)
  case (Cons ev evs)
  have "listen_step ev l = l"
    using Cons(2-4) by (cases ev) (simp_all add: accept_connection_def end_connection_def Let_def)
  then show ?case using Cons by simp
qed simp

lemma header_first_byte:
  assumes "n \<le> MAX_PAYLOAD"
  shows "\<exists>rest. header n flags ty rid = 0 # rest"
proof -
  have d: "n div 256 ^ 3 = 0" "n mod 2 ^ 32 = n" using assms by (simp_all add: MAX_PAYLOAD_def)
  have "nat_to_be 4 n = nat_to_be (Suc 3) n" by (rule arg_cong [of _ _ "\<lambda>k. nat_to_be k n"]) simp
  then have "nat_to_be 4 n = 0 # nat_to_be 3 n" by (simp only: nat_to_be.simps d) simp
  then show ?thesis by (simp only: header_def d append_Cons) blast
qed

section \<open>Properties\<close>

text \<open>The first byte tells the protocol from HTTP: every frame either side can write, whatever its
  type, id and payload, goes to the protocol handler.\<close>

theorem frames_reach_protocol:
  assumes "metal_write_message z ser ty rid value = Inr stream"
  shows "dispatch (stream @ later) = ToProtocol"
proof -
  obtain body flags where "length body \<le> MAX_PAYLOAD" "stream = header (length body) flags (metal_code ty) rid @ body"
    using assms by (auto simp: metal_write_message_def metal_write_payload_def and_then_eq_Inr split: if_splits)
  then show ?thesis using header_first_byte [of "length body" flags "metal_code ty" rid] by (auto simp: dispatch_def)
qed

theorem frames_reach_protocol_witness:
  "dispatch ((header 1 0 8 3 @ [77]) @ [71]) = ToProtocol"
proof (rule frames_reach_protocol)
  show "metal_write_message stored_zstd (\<lambda>b. Inr [b]) MCancel 3 77 = Inr (header 1 0 8 3 @ [77])"
    by (simp add: metal_write_message_def metal_encode_def metal_write_payload_def MAX_PAYLOAD_def
        COMPRESSION_THRESHOLD_def)
qed

text \<open>A connection whose thread did not start is never forgotten: at most 64 connections are served
  at a time, but the counter also counts every thread that failed to start, so after 64 of those
  the port serves no connection any more, whatever happens.\<close>

theorem failed_threads_leak:
  "(listening l \<longrightarrow> ls_live l + ls_failed l \<le> MAX_CONNECTIONS \<and> ls_count l = ls_live l + ls_failed l)
   \<and> ls_live (fold listen_step (replicate MAX_CONNECTIONS (Incoming False) @ evs) listener_new) = 0"
proof -
  have "fold listen_step (replicate n (Incoming False)) \<lparr> ls_count = k, ls_live = 0, ls_failed = k \<rparr>
      = \<lparr> ls_count = k + n, ls_live = 0, ls_failed = k + n \<rparr>" if "k + n \<le> MAX_CONNECTIONS" for n k
    using that by (induction n arbitrary: k) (simp_all add: accept_connection_def Let_def)
  from this [of 0 MAX_CONNECTIONS] have "fold listen_step (replicate MAX_CONNECTIONS (Incoming False)) listener_new
      = \<lparr> ls_count = MAX_CONNECTIONS, ls_live = 0, ls_failed = MAX_CONNECTIONS \<rparr>"
    by (simp add: listener_new_def)
  then have "ls_live (fold listen_step (replicate MAX_CONNECTIONS (Incoming False) @ evs) listener_new) = 0"
    by (simp add: door_stays_closed)
  moreover have "listening l \<longrightarrow> ls_live l + ls_failed l \<le> MAX_CONNECTIONS \<and> ls_count l = ls_live l + ls_failed l"
    using listening_accounts [of l] by auto
  ultimately show ?thesis by blast
qed

theorem failed_threads_leak_witness:
  "ls_count (listen_step (Incoming True) listener_new) = 1 \<and> ls_live (listen_step (Incoming True) listener_new) = 1"
proof -
  have l: "listening (listen_step (Incoming True) listener_new)" by (intro listening.intros)
  have "ls_live (listen_step (Incoming True) listener_new) = 1" "ls_failed (listen_step (Incoming True) listener_new) = 0"
    by (simp_all add: accept_connection_def listener_new_def MAX_CONNECTIONS_def Let_def)
  with failed_threads_leak [of "listen_step (Incoming True) listener_new" "[]"] l show ?thesis by simp
qed

lemma http_head_bounded:
  assumes "list_all (\<lambda>r. length r \<le> READ_BUFFER) reads" "length head \<le> MAX_REQUEST_BYTES"
  shows "length (fst (http_head reads head)) \<le> MAX_REQUEST_BYTES + READ_BUFFER
    \<and> snd (http_head reads head) \<le> length (fst (http_head reads head))"
  using assms
proof (induction reads head rule: http_head.induct)
  case (2 r rs head)
  have "e + 4 \<le> length (head @ r)" if "find_str (crlf @ crlf) (head @ r) = Some e" for e
    using find_str_end [OF that] by (simp add: crlf_def)
  then show ?case using 2 by (auto simp: Let_def split: option.split)
qed simp

text \<open>The URL of a bracketed address with a port gets the default port appended to it.\<close>

lemma bracketed_address_port:
  "metal_client_new ''metal://[::1]:8080'' = Inr ''[::1]:8080:11434''"
  by code_simp

end
