(* ===== verification/Speaker.thy ===== *)
theory Speaker
  imports RustStr "HOL-Library.Multiset"
begin

text \<open>
  Who speaks next in a conversation (\<^verbatim>\<open>name_mention\<close>, \<^verbatim>\<open>mentioned_speaker\<close>, \<^verbatim>\<open>select_speaker\<close>,
  \<^verbatim>\<open>choose_speaker_with_model\<close>, \<^verbatim>\<open>history_message\<close> and \<^verbatim>\<open>group_prompt\<close> of
  \<^verbatim>\<open>chatty-broker/src/systems/inference.rs\<close>).  Database rows are records; the answer of the model is
  an argument, \<open>None\<close> when any step of asking it failed.  Unicode's case mapping and its class of
  alphanumeric characters are the arguments \<open>lower\<close> and \<open>alnum\<close>.  Database failures are not modelled.
\<close>

section \<open>Data\<close>

datatype conversation_kind = Direct | GroupManual | GroupRoundRobin | GroupAutomatic

record participant =
  pt_id :: string
  pt_name :: string
  pt_description :: string
  pt_personality :: string
  pt_appearance :: string

record message_row =
  mr_author_type :: string
  mr_author_id :: "string option"
  mr_author_name :: string
  mr_content :: string

record conversation =
  cv_kind :: conversation_kind
  cv_turn_index :: int

record unicode_tables =
  lower :: "string \<Rightarrow> string"
  alnum :: "string \<Rightarrow> bool"

section \<open>Mentions\<close>

text \<open>\<^verbatim>\<open>str::match_indices\<close> for a pattern that is not empty: occurrences that do not overlap.\<close>

function match_indices :: "string \<Rightarrow> nat \<Rightarrow> string \<Rightarrow> nat list" where
  "match_indices p off s =
     (if p = [] then []
      else case find_str p s of
             None \<Rightarrow> []
           | Some i \<Rightarrow> (off + i) # match_indices p (off + i + length p) (drop (i + length p) s))"
  by pat_completeness auto
termination
proof (relation "measure (\<lambda>(p, off, s). length s)")
  fix p s :: string and off i :: nat
  assume "p \<noteq> []" "find_str p s = Some i"
  then have "s \<noteq> []" by (cases s) auto
  then show "((p, off + i + length p, drop (i + length p) s), p, off, s) \<in> measure (\<lambda>(p, off, s). length s)"
    using \<open>p \<noteq> []\<close> by simp
qed simp

declare match_indices.simps [simp del]

definition word_char :: "(string \<Rightarrow> bool) \<Rightarrow> string option \<Rightarrow> bool" where
  "word_char al c = (case c of None \<Rightarrow> False | Some ch \<Rightarrow> al ch \<or> ch = ''_'')"

definition char_before :: "string \<Rightarrow> nat \<Rightarrow> string option" where
  "char_before s i = (let cs = chars (take i s) in if cs = [] then None else Some (last cs))"

definition char_after :: "string \<Rightarrow> nat \<Rightarrow> string option" where
  "char_after s i = (let cs = chars (drop i s) in if cs = [] then None else Some (hd cs))"

definition name_mention :: "unicode_tables \<Rightarrow> string \<Rightarrow> string \<Rightarrow> nat option" where
  "name_mention u content name =
     (let name = trim name in
      if name = [] then None
      else let content = lower u content; name = lower u name in
           find (\<lambda>i. \<not> word_char (alnum u) (char_before content i)
                   \<and> \<not> word_char (alnum u) (char_after content (i + length name)))
             (match_indices name 0 content))"

text \<open>\<^verbatim>\<open>min_by_key\<close>: the first of the smallest.\<close>

definition min_by_key :: "('a \<Rightarrow> nat) \<Rightarrow> 'a list \<Rightarrow> 'a option" where
  "min_by_key key xs =
     foldl (\<lambda>best x. case best of None \<Rightarrow> Some x | Some b \<Rightarrow> if key x < key b then Some x else Some b) None xs"

definition mentioned :: "unicode_tables \<Rightarrow> participant list \<Rightarrow> string \<Rightarrow> (nat \<times> participant) list" where
  "mentioned u ps content = List.map_filter (\<lambda>r. map_option (\<lambda>i. (i, r)) (name_mention u content (pt_name r))) ps"

definition others :: "participant list \<Rightarrow> string option \<Rightarrow> participant list" where
  "others ps exclude = filter (\<lambda>r. Some (pt_id r) \<noteq> exclude) ps"

definition mentioned_speaker :: "unicode_tables \<Rightarrow> participant list \<Rightarrow> string \<Rightarrow> string option \<Rightarrow> string option" where
  "mentioned_speaker u ps content exclude =
     map_option (\<lambda>(i, r). pt_id r) (min_by_key fst (mentioned u (others ps exclude) content))"

section \<open>Choosing\<close>

definition speakers_prompt :: "participant list \<Rightarrow> message_row list \<Rightarrow> string option \<Rightarrow> string" where
  "speakers_prompt ps recent exclude =
     ''Speakers: '' @ join '', '' (map pt_name (others ps exclude)) @ nl @ ''Recent roleplay:'' @ nl
     @ join nl (map (\<lambda>r. (if mr_author_type r = ''user'' then ''User''
                          else if mr_author_type r = ''system'' then ''Narrator'' else mr_author_name r)
                         @ '': '' @ mr_content r) (rev recent))"

definition choose_speaker_with_model ::
  "unicode_tables \<Rightarrow> participant list \<Rightarrow> (string \<Rightarrow> string option) \<Rightarrow> message_row list \<Rightarrow> string option \<Rightarrow> string option" where
  "choose_speaker_with_model u ps ask recent exclude =
     (let candidates = others ps exclude in
      case ask (speakers_prompt ps recent exclude) of
        None \<Rightarrow> None
      | Some reply \<Rightarrow>
          let answer = trim reply in
          map_option pt_id
            (case find (\<lambda>r. eq_ignore_ascii_case (pt_name r) answer) candidates of
               Some r \<Rightarrow> Some r
             | None \<Rightarrow> map_option snd (min_by_key fst (mentioned u candidates answer))))"

definition rotation :: "int \<Rightarrow> participant list \<Rightarrow> participant list" where
  "rotation turn ps = (let start = nat (turn mod int (length ps)) in
     map (\<lambda>offset. ps ! ((start + offset) mod length ps)) [0..<length ps])"

definition fallback_speaker :: "int \<Rightarrow> participant list \<Rightarrow> string option \<Rightarrow> string" where
  "fallback_speaker turn ps last_author =
     (case find (\<lambda>r. Some (pt_id r) \<noteq> last_author) (rotation turn ps) of
        Some r \<Rightarrow> pt_id r
      | None \<Rightarrow> pt_id (ps ! nat (turn mod int (length ps))))"

text \<open>\<open>history\<close> are the twelve newest messages, the newest first.\<close>

definition select_speaker ::
  "unicode_tables \<Rightarrow> (string \<Rightarrow> string option) \<Rightarrow> message_row list \<Rightarrow> string option \<Rightarrow> participant list
   \<Rightarrow> conversation \<Rightarrow> (string + string) \<times> conversation" where
  "select_speaker u ask history explicit ps c =
     (case explicit of
        Some speaker \<Rightarrow> (Inr speaker, c)
      | None \<Rightarrow>
          if ps = [] then (Inl ''conversation has no character'', c)
          else if cv_kind c = GroupManual then (Inl ''manual group mode requires an explicit speaker'', c)
          else if length ps = 1 then (Inr (pt_id (ps ! 0)), c)
          else
            (let recent = if cv_kind c = GroupAutomatic then history else [];
                 last_author = (case recent of [] \<Rightarrow> None | r # _ \<Rightarrow> mr_author_id r);
                 fallback = fallback_speaker (cv_turn_index c) ps last_author;
                 selected =
                   (if cv_kind c = GroupAutomatic
                    then (case (case recent of [] \<Rightarrow> None | r # _ \<Rightarrow> mentioned_speaker u ps (mr_content r) last_author) of
                            Some speaker \<Rightarrow> speaker
                          | None \<Rightarrow> (case choose_speaker_with_model u ps ask recent last_author of
                                      Some speaker \<Rightarrow> speaker | None \<Rightarrow> fallback))
                    else fallback) in
             (Inr selected, c\<lparr> cv_turn_index := cv_turn_index c + 1 \<rparr>)))"

section \<open>The prompt's view of a group\<close>

definition history_message :: "message_row \<Rightarrow> string option \<Rightarrow> string \<times> string" where
  "history_message row speaker =
     (if mr_author_type row = ''user'' then (''user'', mr_content row)
      else if mr_author_type row = ''system'' then (''system'', mr_content row)
      else case speaker of
             Some s \<Rightarrow>
               if mr_author_id row \<noteq> Some s
               then (''user'', (if mr_author_name row = [] then ''Another character'' else mr_author_name row)
                        @ '': '' @ mr_content row)
               else (''assistant'', mr_content row)
           | None \<Rightarrow> (''assistant'', mr_content row))"

definition group_prompt :: "participant list \<Rightarrow> string \<Rightarrow> string \<Rightarrow> string" where
  "group_prompt ps speaker_id speaker_name =
     (if length ps < 2 then []
      else ''This is a group roleplay. Other characters present:'' @ nl
        @ join nl (map (\<lambda>r. ''- '' @ pt_name r @ '': '' @ clip (pt_description r) 512 @ ''; personality: ''
             @ clip (pt_personality r) 512 @ ''; appearance: '' @ clip (pt_appearance r) 512)
             (filter (\<lambda>r. pt_id r \<noteq> speaker_id) ps)) @ nl
        @ ''Lines from other characters appear as '' @ [CHR 0x22] @ ''Name: text'' @ [CHR 0x22] @ ''. Write only '' @ speaker_name
        @ [CHR 0x27] @ ''s next reply. Never write dialogue, actions, or decisions for the other characters or the user, and do not prefix the reply with a name.'' @ nl)"

section \<open>Lemmas\<close>

lemma find_str_at: "find_str p s = Some i \<Longrightarrow> take (length p) (drop i s) = p"
  by (induction p s arbitrary: i rule: find_str.induct) (auto simp: starts_with_def split: if_splits)

lemma match_indices_at: "j \<in> set (match_indices p off s) \<Longrightarrow> off \<le> j \<and> take (length p) (drop (j - off) s) = p"
proof (induction p off s rule: match_indices.induct)
  case (1 p off s)
  show ?case
  proof (cases "p = [] \<or> find_str p s = None")
    case True
    then show ?thesis using 1(2) by (auto simp: match_indices.simps [of p off s] split: if_splits)
  next
    case False
    then obtain i where i: "p \<noteq> []" "find_str p s = Some i" by auto
    have "j = off + i \<or> j \<in> set (match_indices p (off + i + length p) (drop (i + length p) s))"
      using 1(2) i by (simp add: match_indices.simps [of p off s])
    then show ?thesis
    proof
      assume "j = off + i"
      then show ?thesis using find_str_at [OF i(2)] by simp
    next
      assume "j \<in> set (match_indices p (off + i + length p) (drop (i + length p) s))"
      then have "off + i + length p \<le> j" "take (length p) (drop (j - (off + i + length p)) (drop (i + length p) s)) = p"
        using 1(1) i by auto
      then show ?thesis by (simp add: algebra_simps)
    qed
  qed
qed

lemma min_by_key_mem: "min_by_key key xs = Some x \<Longrightarrow> x \<in> set xs"
proof -
  have "foldl (\<lambda>best x. case best of None \<Rightarrow> Some x | Some b \<Rightarrow> if key x < key b then Some x else Some b) b xs = Some x
      \<Longrightarrow> x \<in> set xs \<or> b = Some x" for b
    by (induction xs arbitrary: b) (auto split: option.splits if_splits)
  then show "min_by_key key xs = Some x \<Longrightarrow> x \<in> set xs" unfolding min_by_key_def by fastforce
qed

lemma mentioned_mem: "(i, r) \<in> set (mentioned u ps content) \<Longrightarrow> r \<in> set ps \<and> name_mention u content (pt_name r) = Some i"
  by (auto simp: mentioned_def List.map_filter_def split: if_splits)

lemma others_mem: "r \<in> set (others ps exclude) \<longleftrightarrow> r \<in> set ps \<and> Some (pt_id r) \<noteq> exclude"
  by (auto simp: others_def)

lemma mentioned_speaker_other:
  "mentioned_speaker u ps content exclude = Some s \<Longrightarrow> s \<in> pt_id ` set ps \<and> Some s \<noteq> exclude"
  by (auto simp: mentioned_speaker_def others_mem dest!: min_by_key_mem mentioned_mem)

lemma chosen_speaker_other:
  "choose_speaker_with_model u ps ask recent exclude = Some s \<Longrightarrow> s \<in> pt_id ` set ps \<and> Some s \<noteq> exclude"
  by (auto simp: choose_speaker_with_model_def Let_def others_mem find_Some_iff
      dest!: min_by_key_mem mentioned_mem nth_mem split: option.splits)

lemma rotation_rotate: "rotation turn ps = rotate (nat (turn mod int (length ps))) ps"
  by (rule nth_equalityI) (simp_all add: rotation_def Let_def nth_rotate)

lemma turn_start: "ps \<noteq> [] \<Longrightarrow> nat (turn mod int (length ps)) < length ps"
  by (simp add: nat_less_iff)

lemma find_mem: "find P xs = Some r \<Longrightarrow> r \<in> set xs"
  by (auto simp: find_Some_iff)

lemma rotation_set: "set (rotation turn ps) = set ps"
  by (simp add: rotation_rotate)

lemma fallback_member:
  assumes "ps \<noteq> []"
  shows "fallback_speaker turn ps la \<in> pt_id ` set ps"
  using nth_mem [OF turn_start [OF assms, of turn]]
  by (auto simp: fallback_speaker_def rotation_set dest: find_mem split: option.splits)

lemma two_ids: "2 \<le> length ps \<Longrightarrow> distinct (map pt_id ps) \<Longrightarrow> \<exists>r \<in> set ps. Some (pt_id r) \<noteq> la"
  by (cases ps; cases "tl ps") auto

lemma fallback_other:
  assumes "2 \<le> length ps" "distinct (map pt_id ps)"
  shows "Some (fallback_speaker turn ps la) \<noteq> la"
proof -
  obtain r where r: "find (\<lambda>r. Some (pt_id r) \<noteq> la) (rotation turn ps) = Some r"
    using two_ids [OF assms, of la] by (cases "find (\<lambda>r. Some (pt_id r) \<noteq> la) (rotation turn ps)") (auto simp: find_None_iff rotation_rotate)
  then have "fallback_speaker turn ps la = pt_id r" by (simp add: fallback_speaker_def)
  moreover have "Some (pt_id r) \<noteq> la" using r by (auto simp: find_Some_iff)
  ultimately show ?thesis by simp
qed

lemma next_start:
  assumes "0 < n"
  shows "nat ((turn + int k) mod int n) = (nat (turn mod int n) + k) mod n"
proof -
  have "int (nat ((turn + int k) mod int n)) = (turn + int k) mod int n" using assms by simp
  also have "\<dots> = (turn mod int n + int k) mod int n" by (simp add: mod_add_left_eq)
  also have "\<dots> = int ((nat (turn mod int n) + k) mod n)" using assms by (simp add: zmod_int)
  finally show ?thesis by (simp only: of_nat_eq_iff)
qed

lemma fallback_in_turn:
  assumes "ps \<noteq> []"
  shows "fallback_speaker (turn + int k) ps None = pt_id (ps ! ((nat (turn mod int (length ps)) + k) mod length ps))"
proof -
  obtain r rs where r: "rotation (turn + int k) ps = r # rs" using assms by (cases "rotation (turn + int k) ps") (auto simp: rotation_rotate)
  have "r = rotation (turn + int k) ps ! 0" by (simp add: r)
  also have "\<dots> = ps ! ((nat (turn mod int (length ps)) + k) mod length ps)"
    using assms by (simp add: rotation_rotate nth_rotate next_start)
  finally show ?thesis by (simp add: fallback_speaker_def r)
qed

text \<open>Several turns in a row.\<close>

fun take_turns ::
  "unicode_tables \<Rightarrow> (string \<Rightarrow> string option) \<Rightarrow> message_row list \<Rightarrow> participant list \<Rightarrow> nat \<Rightarrow> conversation \<Rightarrow> (string + string) list" where
  "take_turns u ask history ps n c =
     (if n = 0 then []
      else (case select_speaker u ask history None ps c of (r, c') \<Rightarrow> r # take_turns u ask history ps (n - 1) c'))"

declare take_turns.simps [simp del]

lemma take_turns_round_robin:
  assumes "cv_kind c = GroupRoundRobin" "2 \<le> length ps"
  shows "take_turns u ask history ps n c = map (\<lambda>k. Inr (fallback_speaker (cv_turn_index c + int k) ps None)) [0..<n]"
  using assms(1)
proof (induction n arbitrary: c)
  case 0
  then show ?case by (simp add: take_turns.simps [of _ _ _ _ 0])
next
  case (Suc n)
  let ?c = "c\<lparr> cv_turn_index := cv_turn_index c + 1 \<rparr>"
  have "select_speaker u ask history None ps c = (Inr (fallback_speaker (cv_turn_index c) ps None), ?c)"
    using Suc(2) assms(2) by (auto simp: select_speaker_def Let_def)
  moreover have "take_turns u ask history ps n ?c = map (\<lambda>k. Inr (fallback_speaker (cv_turn_index c + int (Suc k)) ps None)) [0..<n]"
    using Suc(1) [of ?c] Suc(2) by (simp add: algebra_simps)
  ultimately show ?case
    by (simp add: take_turns.simps [of _ _ _ _ "Suc n"] map_upt_Suc del: upt_Suc of_nat_Suc)
qed

section \<open>Properties\<close>

text \<open>The next speaker is a participant, and in an automatic group of two or more it is never the
  author of the newest message, whether it is chosen by mention, by the model or in rotation and
  whatever the model answers.\<close>

theorem speaker_never_self_replies:
  assumes "select_speaker u ask history None ps c = (Inr s, c')" "distinct (map pt_id ps)"
  shows "s \<in> pt_id ` set ps
    \<and> (cv_kind c = GroupAutomatic \<and> 2 \<le> length ps \<and> history \<noteq> [] \<longrightarrow> mr_author_id (hd history) \<noteq> Some s)"
proof -
  consider "length ps = 1" "s = pt_id (ps ! 0)" | "2 \<le> length ps"
    using assms(1) by (cases ps; cases "tl ps") (auto simp: select_speaker_def Let_def split: if_splits)
  then show ?thesis
  proof cases
    case 2
    define la where "la = (case (if cv_kind c = GroupAutomatic then history else []) of [] \<Rightarrow> None | r # _ \<Rightarrow> mr_author_id r)"
    have ne: "ps \<noteq> []" "length ps \<noteq> 1" using 2 by auto
    have "s = fallback_speaker (cv_turn_index c) ps la
      \<or> (\<exists>content. mentioned_speaker u ps content la = Some s) \<or> (\<exists>recent. choose_speaker_with_model u ps ask recent la = Some s)"
      using assms(1) ne unfolding select_speaker_def Let_def la_def [symmetric]
      by (auto split: if_splits option.splits list.splits)
    then have "s \<in> pt_id ` set ps \<and> Some s \<noteq> la"
      using fallback_member [OF ne(1)] fallback_other [OF 2 assms(2)] mentioned_speaker_other chosen_speaker_other by metis
    then show ?thesis by (auto simp: la_def split: list.splits)
  qed auto
qed

text \<open>Round robin is fair: in any run of as many turns as there are participants, each of them
  speaks exactly once, from any stored turn index.\<close>

theorem round_robin_fair:
  assumes "cv_kind c = GroupRoundRobin" "2 \<le> length ps"
  shows "mset (take_turns u ask history ps (length ps) c) = mset (map (\<lambda>r. Inr (pt_id r)) ps)"
proof -
  have ne: "ps \<noteq> []" using assms(2) by auto
  have "take_turns u ask history ps (length ps) c = map (\<lambda>r. Inr (pt_id r)) (rotation (cv_turn_index c) ps)"
    unfolding take_turns_round_robin [OF assms] rotation_def by (simp add: fallback_in_turn [OF ne] Let_def)
  moreover have "mset (rotate k xs) = mset xs" for k and xs :: "participant list"
    unfolding rotate_drop_take by (metis append_take_drop_id mset_append union_commute)
  ultimately show ?thesis by (simp add: rotation_rotate)
qed

text \<open>A mention is a whole word: the reported offset is where the name stands in the text, both in
  lower case, with no letter, digit or underscore right before or after it.\<close>

theorem mention_is_whole_word:
  assumes "name_mention u content name = Some i"
  shows "take (length (lower u (trim name))) (drop i (lower u content)) = lower u (trim name)
    \<and> \<not> word_char (alnum u) (char_before (lower u content) i)
    \<and> \<not> word_char (alnum u) (char_after (lower u content) (i + length (lower u (trim name))))"
proof -
  have "i \<in> set (match_indices (lower u (trim name)) 0 (lower u content))"
    "\<not> word_char (alnum u) (char_before (lower u content) i)"
    "\<not> word_char (alnum u) (char_after (lower u content) (i + length (lower u (trim name))))"
    using assms by (auto simp: name_mention_def Let_def find_Some_iff split: if_splits)
  then show ?thesis using match_indices_at [of i "lower u (trim name)" 0 "lower u content"] by simp
qed

section \<open>Witnesses\<close>

definition ascii_tables :: unicode_tables where
  "ascii_tables = \<lparr> lower = map ascii_lower, alnum = (\<lambda>c. case c of [b] \<Rightarrow> (let n = of_char b :: nat in
     48 \<le> n \<and> n \<le> 57 \<or> 65 \<le> n \<and> n \<le> 90 \<or> 97 \<le> n \<and> n \<le> 122) | _ \<Rightarrow> True) \<rparr>"

definition ann :: participant where
  "ann = \<lparr> pt_id = ''ann'', pt_name = ''Ann'', pt_description = [], pt_personality = [], pt_appearance = [] \<rparr>"

definition bob :: participant where
  "bob = \<lparr> pt_id = ''bob'', pt_name = ''Bob'', pt_description = [], pt_personality = [], pt_appearance = [] \<rparr>"

definition squint :: message_row where
  "squint = \<lparr> mr_author_type = ''character'', mr_author_id = Some ''bob'', mr_author_name = ''Bob'', mr_content = ''Bob squints.'' \<rparr>"

definition group_of :: "conversation_kind \<Rightarrow> conversation" where
  "group_of k = \<lparr> cv_kind = k, cv_turn_index = 1 \<rparr>"

theorem speaker_never_self_replies_witness:
  "fst (select_speaker ascii_tables (\<lambda>_. None) [squint] None [ann, bob] (group_of GroupAutomatic)) = Inr ''ann''
   \<and> mr_author_id (hd [squint]) \<noteq> Some ''ann''"
proof -
  have r: "fst (select_speaker ascii_tables (\<lambda>_. None) [squint] None [ann, bob] (group_of GroupAutomatic)) = Inr ''ann''"
    by code_simp
  then obtain c' where c: "select_speaker ascii_tables (\<lambda>_. None) [squint] None [ann, bob] (group_of GroupAutomatic) = (Inr ''ann'', c')"
    by (cases "select_speaker ascii_tables (\<lambda>_. None) [squint] None [ann, bob] (group_of GroupAutomatic)") auto
  have d: "distinct (map pt_id [ann, bob])" by code_simp
  show ?thesis using speaker_never_self_replies [OF c d] r by (simp add: group_of_def)
qed

theorem round_robin_fair_witness:
  "mset (take_turns ascii_tables (\<lambda>_. None) [] [ann, bob] 2 (group_of GroupRoundRobin)) = {# Inr ''ann'', Inr ''bob'' #}"
  using round_robin_fair [of "group_of GroupRoundRobin" "[ann, bob]" ascii_tables "\<lambda>_. None" "[]"]
  by (simp add: group_of_def ann_def bob_def numeral_2_eq_2)

theorem mention_is_whole_word_witness:
  "name_mention ascii_tables ''bobby, Bob!'' '' bob '' = Some 7 \<and> take 3 (drop 7 (map ascii_lower ''bobby, Bob!'')) = ''bob''"
proof -
  have m: "name_mention ascii_tables ''bobby, Bob!'' '' bob '' = Some 7" by code_simp
  have t: "lower ascii_tables (trim '' bob '') = ''bob''" by code_simp
  show ?thesis using mention_is_whole_word [OF m] m unfolding t by (simp add: ascii_tables_def)
qed

end
