(* ===== verification/MemoryStore.thy ===== *)
theory MemoryStore
  imports Prompt
begin

text \<open>
  Long-term memories of the broker: the stored entries, saving one
  (\<^verbatim>\<open>chatty-broker/src/systems/memory.rs\<close>), reading the answers of the memory model and condensing
  redundant memories (\<^verbatim>\<open>chatty-broker/src/systems/inference.rs\<close>).  The database is a list of rows with
  a revision counter; a transaction that fails leaves it as it was.  The JSON parser, the model, new ids,
  the clock, the order of a query's rows and Unicode's lower case are arguments.
\<close>

section \<open>Data\<close>

datatype memory_kind = Fact | Event | Relationship | Reflection
datatype memory_source = Manual | Automatic
datatype delta_op = Add | Update | Delete

record memory_entry =
  me_id :: string
  me_conversation :: "string option"
  me_character :: "string option"
  me_kind :: memory_kind
  me_content :: string
  me_importance :: nat
  me_pinned :: bool
  me_confidence :: rat
  me_source :: memory_source
  me_source_ids :: "string list"
  me_created :: string
  me_updated :: string
  me_revision :: nat

record memory_row =
  mw_owner :: string
  mw_status :: nat
  mw_entry :: memory_entry

record memory_db =
  db_memories :: "memory_row list"
  db_revision :: nat

record memory_input =
  mi_id :: "string option"
  mi_conversation :: "string option"
  mi_character :: "string option"
  mi_kind :: memory_kind
  mi_content :: string
  mi_importance :: nat
  mi_pinned :: bool

fun kind_label :: "memory_kind \<Rightarrow> string" where
  "kind_label Fact = ''Fact''"
| "kind_label Event = ''Event''"
| "kind_label Relationship = ''Relationship''"
| "kind_label Reflection = ''Reflection''"

fun memory_kind_value :: "memory_kind \<Rightarrow> int" where
  "memory_kind_value Fact = 0"
| "memory_kind_value Event = 1"
| "memory_kind_value Relationship = 2"
| "memory_kind_value Reflection = 3"

definition memory_kind_from_i64 :: "int \<Rightarrow> string + memory_kind" where
  "memory_kind_from_i64 v =
     (if v = 0 then Inr Fact else if v = 1 then Inr Event else if v = 2 then Inr Relationship
      else if v = 3 then Inr Reflection else Inl ''invalid stored memory kind'')"

definition delta_tx :: "memory_db \<Rightarrow> nat \<times> memory_db" where
  "delta_tx db = (let r = db_revision db + 1 in (r, db\<lparr> db_revision := r \<rparr>))"

section \<open>Reading the model's answers\<close>

definition fence :: string where "fence = [CHR 0x60, CHR 0x60, CHR 0x60]"

text \<open>The body of a Markdown code fence, or the value as it is.\<close>

definition unfence :: "string \<Rightarrow> string" where
  "unfence v =
     (let opened = (case strip_prefix (fence @ ''json'') v of Some x \<Rightarrow> Some x | None \<Rightarrow> strip_prefix fence v) in
      case (case opened of None \<Rightarrow> None | Some x \<Rightarrow> strip_suffix fence (trim x)) of
        Some x \<Rightarrow> trim x
      | None \<Rightarrow> v)"

definition validate_extracted_memory :: "string \<Rightarrow> string + string" where
  "validate_extracted_memory value =
     (let content = trim value in
      if eq_ignore_ascii_case content ''none'' \<or> content = [] then Inl ''model found no durable memory''
      else if 1024 < length (chars content) \<or> contains (fence @ nl) content then Inl ''model returned an invalid memory''
      else Inr content)"

definition trim_end_punct :: "string \<Rightarrow> string" where
  "trim_end_punct s = rev (dropWhile (\<lambda>c. c \<in> set ''.!?'') (rev s))"

definition memory_words :: "(string \<Rightarrow> string) \<Rightarrow> string \<Rightarrow> string list" where
  "memory_words lower v = map lower (split_whitespace (trim_end_punct (trim v)))"

definition same_memory_text :: "(string \<Rightarrow> string) \<Rightarrow> string \<Rightarrow> string \<Rightarrow> bool" where
  "same_memory_text lower left right \<longleftrightarrow>
     memory_words lower left \<noteq> [] \<and> memory_words lower left = memory_words lower right"

fun validate_all :: "(string \<Rightarrow> string) \<Rightarrow> string list \<Rightarrow> string list \<Rightarrow> string + string list" where
  "validate_all lower [] validated = Inr validated"
| "validate_all lower (c # cs) validated =
     and_then (validate_extracted_memory c) (\<lambda>content.
       validate_all lower cs
         (if list_ex (\<lambda>saved. same_memory_text lower saved content) validated then validated else validated @ [content]))"

definition parse_automatic_memories ::
  "(string \<Rightarrow> string) \<Rightarrow> (string \<Rightarrow> string list option) \<Rightarrow> string \<Rightarrow> string + string list" where
  "parse_automatic_memories lower json value =
     (let value = trim value in
      if eq_ignore_ascii_case value ''none'' then Inr []
      else case json (unfence value) of
             None \<Rightarrow> Inl ''model returned an invalid memory array''
           | Some contents \<Rightarrow>
               if 8 < length contents then Inl ''model returned too many memories''
               else validate_all lower contents [])"

section \<open>Saving a memory\<close>

definition MAX_MEMORY_CHARS :: nat where "MAX_MEMORY_CHARS = 4096"

text \<open>\<open>owns\<close>, \<open>visible_character\<close> and \<open>takes_part\<close> are the three access checks in the database.\<close>

record access =
  owns :: "string \<Rightarrow> string \<Rightarrow> string + unit"
  visible_character :: "string \<Rightarrow> string \<Rightarrow> bool"
  takes_part :: "string \<Rightarrow> string \<Rightarrow> bool"

definition validate_memory_scope :: "access \<Rightarrow> string \<Rightarrow> memory_input \<Rightarrow> string + memory_input" where
  "validate_memory_scope acc owner memory =
     (let memory = memory\<lparr> mi_content := trim (mi_content memory) \<rparr> in
      if mi_content memory = [] \<or> MAX_MEMORY_CHARS < length (chars (mi_content memory))
      then Inl ''memory must contain between 1 and 4096 characters''
      else if 100 < mi_importance memory then Inl ''memory importance must be between 0 and 100''
      else
        and_then (case mi_conversation memory of None \<Rightarrow> Inr () | Some c \<Rightarrow> owns acc owner c) (\<lambda>_.
        case mi_character memory of
          None \<Rightarrow> Inr memory
        | Some ch \<Rightarrow>
            if \<not> visible_character acc owner ch then Inl ''memory character missing or forbidden''
            else case mi_conversation memory of
                   None \<Rightarrow> Inr memory
                 | Some c \<Rightarrow> if takes_part acc c ch then Inr memory
                            else Inl ''memory character is not a conversation participant''))"

definition clamp01 :: "rat \<Rightarrow> rat" where
  "clamp01 x = (if x < 0 then 0 else if 1 < x then 1 else x)"

definition find_row :: "string \<Rightarrow> memory_db \<Rightarrow> memory_row option" where
  "find_row i db = find (\<lambda>r. me_id (mw_entry r) = i) (db_memories db)"

text \<open>\<^verbatim>\<open>INSERT ... ON CONFLICT(id) DO UPDATE ... WHERE owner_id=excluded.owner_id\<close>; an update keeps the stored
  confidence, source, source messages and creation time, and its status.\<close>

definition upsert_update :: "memory_entry \<Rightarrow> nat \<Rightarrow> memory_row \<Rightarrow> memory_row" where
  "upsert_update e revision r =
     r\<lparr> mw_entry := (mw_entry r)\<lparr> me_conversation := me_conversation e, me_character := me_character e,
          me_content := me_content e, me_revision := revision, me_kind := me_kind e,
          me_importance := me_importance e, me_pinned := me_pinned e, me_updated := me_updated e \<rparr> \<rparr>"

definition input_entry ::
  "string \<Rightarrow> string \<Rightarrow> memory_source \<Rightarrow> rat \<Rightarrow> string list \<Rightarrow> memory_row option \<Rightarrow> memory_input \<Rightarrow> memory_entry" where
  "input_entry i now source confidence ids existing memory =
     \<lparr> me_id = i, me_conversation = mi_conversation memory, me_character = mi_character memory,
       me_kind = mi_kind memory, me_content = mi_content memory, me_importance = mi_importance memory,
       me_pinned = mi_pinned memory,
       me_confidence = (case existing of Some r \<Rightarrow> me_confidence (mw_entry r) | None \<Rightarrow> clamp01 confidence),
       me_source = (case existing of Some r \<Rightarrow> me_source (mw_entry r) | None \<Rightarrow> source),
       me_source_ids = (case existing of Some r \<Rightarrow> me_source_ids (mw_entry r) | None \<Rightarrow> ids),
       me_created = (case existing of Some r \<Rightarrow> me_created (mw_entry r) | None \<Rightarrow> now),
       me_updated = now, me_revision = 0 \<rparr>"

definition store_row :: "string \<Rightarrow> memory_entry \<Rightarrow> memory_db \<Rightarrow> memory_db" where
  "store_row owner entry db =
     db\<lparr> db_memories :=
       (if list_ex (\<lambda>r. me_id (mw_entry r) = me_id entry) (db_memories db)
        then map (\<lambda>r. if me_id (mw_entry r) = me_id entry \<and> mw_owner r = owner
                      then upsert_update entry (me_revision entry) r else r) (db_memories db)
        else db_memories db @ [\<lparr> mw_owner = owner, mw_status = 0, mw_entry = entry \<rparr>]) \<rparr>"

definition persist_memory ::
  "access \<Rightarrow> string \<Rightarrow> string \<Rightarrow> string \<Rightarrow> memory_input \<Rightarrow> memory_source \<Rightarrow> rat \<Rightarrow> string list \<Rightarrow> memory_db
   \<Rightarrow> (string + memory_entry \<times> delta_op) \<times> memory_db" where
  "persist_memory acc new_id now owner memory source confidence ids db =
     (case validate_memory_scope acc owner memory of
        Inl e \<Rightarrow> (Inl e, db)
      | Inr memory \<Rightarrow>
          let i = (case mi_id memory of Some x \<Rightarrow> x | None \<Rightarrow> new_id); existing = find_row i db in
          if (case existing of None \<Rightarrow> False | Some r \<Rightarrow> mw_owner r \<noteq> owner) then (Inl ''forbidden memory owner'', db)
          else
            let op = (case existing of None \<Rightarrow> Add | Some _ \<Rightarrow> Update);
                entry = input_entry i now source confidence ids existing memory;
                (revision, db) = delta_tx db;
                entry = entry\<lparr> me_revision := revision \<rparr> in
            (Inr (entry, op), store_row owner entry db))"

section \<open>Lemmas\<close>

lemma find_row_SomeD: "find_row i db = Some r \<Longrightarrow> r \<in> set (db_memories db) \<and> me_id (mw_entry r) = i"
  by (auto simp: find_row_def find_Some_iff)

lemma find_row_None: "find_row i db = None \<longleftrightarrow> i \<notin> (me_id \<circ> mw_entry) ` set (db_memories db)"
  by (auto simp: find_row_def find_None_iff)

definition ids_distinct :: "memory_db \<Rightarrow> bool" where
  "ids_distinct db \<longleftrightarrow> distinct (map (me_id \<circ> mw_entry) (db_memories db))"

lemma upsert_update_simps [simp]:
  "me_id (mw_entry (upsert_update e n r)) = me_id (mw_entry r)" "mw_owner (upsert_update e n r) = mw_owner r"
  "mw_status (upsert_update e n r) = mw_status r"
  by (simp_all add: upsert_update_def)

lemma find_map_same:
  "find (\<lambda>r. me_id (mw_entry r) = i) xs = Some r \<Longrightarrow> (\<And>x. me_id (mw_entry (f x)) = me_id (mw_entry x)) \<Longrightarrow>
     find (\<lambda>r. me_id (mw_entry r) = i) (map f xs) = Some (f r)"
  by (induction xs) (auto split: if_splits)

lemma find_append_new: "find P xs = None \<Longrightarrow> P y \<Longrightarrow> find P (xs @ [y]) = Some y"
  by (induction xs) (auto split: if_splits)

lemma validated_scope:
  "validate_memory_scope acc owner m = Inr m' \<Longrightarrow>
     mi_id m' = mi_id m \<and> mi_content m' = trim (mi_content m) \<and> mi_content m' \<noteq> []
     \<and> length (chars (mi_content m')) \<le> MAX_MEMORY_CHARS \<and> mi_importance m' \<le> 100"
  by (auto simp: validate_memory_scope_def Let_def and_then_eq_Inr split: if_splits option.splits)

lemma store_row_new:
  assumes "find_row (me_id e) db = None"
  shows "find_row (me_id e) (store_row owner e db) = Some \<lparr> mw_owner = owner, mw_status = 0, mw_entry = e \<rparr>"
    "ids_distinct db \<Longrightarrow> ids_distinct (store_row owner e db)"
    "filter (\<lambda>r. me_id (mw_entry r) \<noteq> me_id e) (db_memories (store_row owner e db))
       = filter (\<lambda>r. me_id (mw_entry r) \<noteq> me_id e) (db_memories db)"
proof -
  have n: "\<not> list_ex (\<lambda>r. me_id (mw_entry r) = me_id e) (db_memories db)"
    using assms by (force simp: find_row_None list_ex_iff)
  show "find_row (me_id e) (store_row owner e db) = Some \<lparr> mw_owner = owner, mw_status = 0, mw_entry = e \<rparr>"
    using assms n by (simp add: find_row_def store_row_def find_append_new)
  show "ids_distinct db \<Longrightarrow> ids_distinct (store_row owner e db)"
    using assms n by (auto simp: ids_distinct_def store_row_def find_row_None)
  show "filter (\<lambda>r. me_id (mw_entry r) \<noteq> me_id e) (db_memories (store_row owner e db))
       = filter (\<lambda>r. me_id (mw_entry r) \<noteq> me_id e) (db_memories db)"
    using n by (simp add: store_row_def)
qed

definition keeps_origin :: "memory_entry \<Rightarrow> memory_entry \<Rightarrow> bool" where
  "keeps_origin e old \<longleftrightarrow> me_id e = me_id old \<and> me_confidence e = me_confidence old \<and> me_source e = me_source old
     \<and> me_source_ids e = me_source_ids old \<and> me_created e = me_created old"

lemma store_row_update:
  assumes "find_row (me_id e) db = Some r" "mw_owner r = owner" "keeps_origin e (mw_entry r)"
  shows "\<exists>r'. find_row (me_id e) (store_row owner e db) = Some r' \<and> mw_entry r' = e \<and> mw_owner r' = owner"
    "ids_distinct db \<Longrightarrow> ids_distinct (store_row owner e db)"
    "filter (\<lambda>r. me_id (mw_entry r) \<noteq> me_id e) (db_memories (store_row owner e db))
       = filter (\<lambda>r. me_id (mw_entry r) \<noteq> me_id e) (db_memories db)"
proof -
  let ?f = "\<lambda>r. if me_id (mw_entry r) = me_id e \<and> mw_owner r = owner then upsert_update e (me_revision e) r else r"
  have rows: "db_memories (store_row owner e db) = map ?f (db_memories db)"
    using find_row_SomeD [OF assms(1)] by (auto simp: store_row_def list_ex_iff)
  have same: "me_id (mw_entry (?f x)) = me_id (mw_entry x)" for x by simp
  have fr: "?f r = upsert_update e (me_revision e) r" using find_row_SomeD [OF assms(1)] assms(2) by simp
  have "mw_entry (upsert_update e (me_revision e) r) = e"
    using assms(3) by (cases e, cases "mw_entry r") (simp add: upsert_update_def keeps_origin_def)
  then show "\<exists>r'. find_row (me_id e) (store_row owner e db) = Some r' \<and> mw_entry r' = e \<and> mw_owner r' = owner"
    using find_map_same [of "me_id e" "db_memories db" r ?f] same assms(1,2) fr by (simp add: find_row_def rows)
  show "ids_distinct db \<Longrightarrow> ids_distinct (store_row owner e db)"
    unfolding ids_distinct_def rows map_map by (simp only: comp_def same)
  have "filter (\<lambda>r. me_id (mw_entry r) \<noteq> me_id e) (map ?f xs) = filter (\<lambda>r. me_id (mw_entry r) \<noteq> me_id e) xs" for xs
    by (induction xs) simp_all
  then show "filter (\<lambda>r. me_id (mw_entry r) \<noteq> me_id e) (db_memories (store_row owner e db))
       = filter (\<lambda>r. me_id (mw_entry r) \<noteq> me_id e) (db_memories db)"
    by (simp only: rows)
qed

section \<open>Property\<close>

text \<open>C36: Saving a memory: a refused one changes nothing; a saved one is found under its id, as returned and
  with the owner, its text is trimmed, not empty and at most 4096 characters, its importance at most
  100; no other memory changes, so none of another owner; and ids stay unique.\<close>

theorem persist_memory_ok:
  assumes "persist_memory acc new_id now owner memory source confidence ids db = (res, db')" "ids_distinct db"
  shows "ids_distinct db'
    \<and> (\<forall>e. res = Inl e \<longrightarrow> db' = db)
    \<and> (\<forall>entry op. res = Inr (entry, op) \<longrightarrow>
         (\<exists>r. find_row (me_id entry) db' = Some r \<and> mw_entry r = entry \<and> mw_owner r = owner)
         \<and> me_content entry \<noteq> [] \<and> length (chars (me_content entry)) \<le> MAX_MEMORY_CHARS \<and> me_importance entry \<le> 100
         \<and> filter (\<lambda>r. me_id (mw_entry r) \<noteq> me_id entry) (db_memories db')
           = filter (\<lambda>r. me_id (mw_entry r) \<noteq> me_id entry) (db_memories db))"
proof (cases "validate_memory_scope acc owner memory")
  case (Inl e)
  then show ?thesis using assms by (auto simp: persist_memory_def)
next
  case (Inr m)
  define i where "i = (case mi_id m of Some x \<Rightarrow> x | None \<Rightarrow> new_id)"
  note V = validated_scope [OF Inr]
  have dbs: "find_row i (db\<lparr> db_revision := n \<rparr>) = find_row i db" "ids_distinct (db\<lparr> db_revision := n \<rparr>) = ids_distinct db" for n
    by (simp_all add: find_row_def ids_distinct_def)
  let ?e = "(input_entry i now source confidence ids (find_row i db) m)\<lparr> me_revision := db_revision db + 1 \<rparr>"
  let ?db = "db\<lparr> db_revision := db_revision db + 1 \<rparr>"
  have e: "me_id ?e = i" "me_content ?e = mi_content m" "me_importance ?e = mi_importance m"
    by (simp_all add: input_entry_def)
  consider r where "find_row i db = Some r" "mw_owner r \<noteq> owner" "res = Inl ''forbidden memory owner''" "db' = db"
    | op where "\<forall>r. find_row i db = Some r \<longrightarrow> mw_owner r = owner" "res = Inr (?e, op)" "db' = store_row owner ?e ?db"
    using assms(1) Inr unfolding persist_memory_def i_def
    by (auto simp: Let_def delta_tx_def split: option.splits if_splits)
  then show ?thesis
  proof cases
    case 2
    show ?thesis
    proof (cases "find_row i db")
      case None
      then have "find_row (me_id ?e) ?db = None" unfolding e(1) dbs .
      from store_row_new [OF this, of owner] show ?thesis using 2 V e assms(2) dbs by auto
    next
      case (Some r)
      then have f: "find_row (me_id ?e) ?db = Some r" unfolding e(1) dbs .
      have k: "keeps_origin ?e (mw_entry r)" using find_row_SomeD [OF Some] by (simp add: keeps_origin_def input_entry_def Some)
      show ?thesis using store_row_update [OF f _ k, of owner] 2 Some V e assms(2) dbs by auto
    qed
  qed (use assms(2) in auto)
qed

section \<open>Witness\<close>

definition open_access :: access where
  "open_access = \<lparr> owns = (\<lambda>_ _. Inr ()), visible_character = (\<lambda>_ _. True), takes_part = (\<lambda>_ _. True) \<rparr>"

definition note_input :: memory_input where
  "note_input = \<lparr> mi_id = None, mi_conversation = None, mi_character = Some ''mara'', mi_kind = Fact, mi_content = '' Likes tea '',
     mi_importance = 50, mi_pinned = False \<rparr>"

theorem persist_memory_ok_witness:
  "\<exists>entry db'. persist_memory open_access ''n1'' ''t0'' ''u'' note_input Manual 1 [] \<lparr> db_memories = [], db_revision = 4 \<rparr> = (Inr (entry, Add), db')
     \<and> me_content entry = ''Likes tea'' \<and> (\<exists>r. find_row (me_id entry) db' = Some r \<and> mw_entry r = entry)"
proof -
  let ?db = "\<lparr> db_memories = [], db_revision = 4 \<rparr>"
  let ?e = "\<lparr> me_id = ''n1'', me_conversation = None, me_character = Some ''mara'', me_kind = Fact, me_content = ''Likes tea'',
    me_importance = 50, me_pinned = False, me_confidence = 1, me_source = Manual, me_source_ids = [], me_created = ''t0'',
    me_updated = ''t0'', me_revision = 5 \<rparr>"
  have "fst (persist_memory open_access ''n1'' ''t0'' ''u'' note_input Manual 1 [] ?db) = Inr (?e, Add)" by code_simp
  then obtain db' where p: "persist_memory open_access ''n1'' ''t0'' ''u'' note_input Manual 1 [] ?db = (Inr (?e, Add), db')"
    by (cases "persist_memory open_access ''n1'' ''t0'' ''u'' note_input Manual 1 [] ?db") auto
  have d: "ids_distinct ?db" by (simp add: ids_distinct_def)
  show ?thesis using persist_memory_ok [OF p d] p by auto
qed

end
