(* ===== verification/MemoryCondense.thy ===== *)
theory MemoryCondense
  imports MemoryStore
begin

text \<open>
  Condensing memories (\<^verbatim>\<open>parse_condensed_memories\<close> and \<^verbatim>\<open>condense_memories\<close> of
  \<^verbatim>\<open>chatty-broker/src/systems/inference.rs\<close>): a query, the groups that fit the model's window, the
  model's answer, and one transaction that replaces groups.  \<open>db\<close> is the database the query saw and
  \<open>later\<close> the one the transaction sees, after the model has answered.
\<close>

section \<open>Groups\<close>

definition MEMORY_CONDENSATION_LIMIT :: nat where "MEMORY_CONDENSATION_LIMIT = 200"
definition MEMORY_CONDENSATION_SOURCE_CHARS :: nat where "MEMORY_CONDENSATION_SOURCE_CHARS = 1024"

record condense_group =
  cg_conversation :: "string option"
  cg_character :: "string option"
  cg_kind :: memory_kind
  cg_entries :: "memory_entry list"

record condensed_item =
  ci_group :: nat
  ci_kind :: string
  ci_content :: string

record condensed =
  cd_before :: nat
  cd_after :: nat
  cd_deltas :: "(string \<times> delta_op \<times> nat) list"

definition unchanged :: condensed where
  "unchanged = \<lparr> cd_before = 0, cd_after = 0, cd_deltas = [] \<rparr>"

definition parse_condensed_kind :: "string \<Rightarrow> memory_kind option" where
  "parse_condensed_kind value =
     (let v = map ascii_lower (trim value) in
      if v = ''fact'' then Some Fact else if v = ''event'' then Some Event
      else if v = ''relationship'' then Some Relationship else if v = ''reflection'' then Some Reflection else None)"

text \<open>The rows of the query: the owner's active, unpinned memories of the selected scope.\<close>

definition condensable :: "string \<Rightarrow> string option \<Rightarrow> string option \<Rightarrow> memory_kind option \<Rightarrow> memory_row \<Rightarrow> bool" where
  "condensable owner conversation character kind r \<longleftrightarrow>
     (let e = mw_entry r in
      mw_owner r = owner \<and> mw_status r = 0 \<and> \<not> me_pinned e
      \<and> (conversation = None \<or> me_conversation e = None \<or> me_conversation e = conversation)
      \<and> (character = None \<or> me_character e = character)
      \<and> (kind = None \<or> Some (me_kind e) = kind))"

definition same_scope :: "memory_entry \<Rightarrow> condense_group \<Rightarrow> bool" where
  "same_scope e g \<longleftrightarrow> cg_conversation g = me_conversation e \<and> cg_character g = me_character e \<and> cg_kind g = me_kind e"

fun position :: "('a \<Rightarrow> bool) \<Rightarrow> 'a list \<Rightarrow> nat option" where
  "position P [] = None"
| "position P (x # xs) = (if P x then Some 0 else map_option Suc (position P xs))"

definition group_header :: "nat \<Rightarrow> memory_kind \<Rightarrow> string" where
  "group_header n kind = ''Group '' @ show_nat n @ '' ('' @ kind_label kind @ ''):'' @ nl"

definition memory_line :: "memory_entry \<Rightarrow> string" where
  "memory_line e = ''- '' @ clip (trim (me_content e)) MEMORY_CONDENSATION_SOURCE_CHARS @ nl"

definition group_entry :: "memory_entry \<Rightarrow> nat \<times> condense_group list \<Rightarrow> nat \<times> condense_group list" where
  "group_entry e = (\<lambda>(remaining, groups).
     (let existing = position (same_scope e) groups;
          header_tokens = (case existing of
            Some _ \<Rightarrow> 0 | None \<Rightarrow> estimated_message_tokens (group_header (length groups + 1) (me_kind e)));
          cost = header_tokens + estimated_message_tokens (memory_line e) in
      if remaining < cost then (remaining, groups)
      else (remaining - cost,
            case existing of
              Some i \<Rightarrow> groups[i := (groups ! i)\<lparr> cg_entries := cg_entries (groups ! i) @ [e] \<rparr>]
            | None \<Rightarrow> groups @ [\<lparr> cg_conversation = me_conversation e, cg_character = me_character e,
                                 cg_kind = me_kind e, cg_entries = [e] \<rparr>])))"

definition build_groups :: "nat \<Rightarrow> memory_entry list \<Rightarrow> condense_group list" where
  "build_groups remaining entries =
     filter (\<lambda>g. 2 \<le> length (cg_entries g)) (snd (fold group_entry entries (remaining, [])))"

definition condense_transcript :: "condense_group list \<Rightarrow> string" where
  "condense_transcript groups =
     concat (map (\<lambda>(i, g). group_header (i + 1) (cg_kind g) @ concat (map memory_line (cg_entries g)))
       (zip [0..<length groups] groups))"

section \<open>The model's answer\<close>

fun place_items :: "condense_group list \<Rightarrow> condensed_item list \<Rightarrow> string list list \<Rightarrow> string + string list list" where
  "place_items groups [] by_group = Inr by_group"
| "place_items groups (it # items) by_group =
     (if ci_group it = 0 \<or> length groups < ci_group it then Inl ''model referenced an unknown memory group''
      else let index = ci_group it - 1 in
        if parse_condensed_kind (ci_kind it) \<noteq> Some (cg_kind (groups ! index))
        then Inl ''model changed a memory kind while condensing''
        else and_then (validate_extracted_memory (ci_content it)) (\<lambda>content.
          place_items groups items
            (if list_ex (\<lambda>saved. eq_ignore_ascii_case saved content) (by_group ! index) then by_group
             else by_group[index := by_group ! index @ [content]])))"

definition parse_condensed_memories ::
  "(string \<Rightarrow> condensed_item list option) \<Rightarrow> string \<Rightarrow> condense_group list \<Rightarrow> string + (nat \<times> string list) list" where
  "parse_condensed_memories json value groups =
     (let value = trim value in
      if eq_ignore_ascii_case value ''none'' then Inr []
      else let value = unfence value in
        if value = [] \<or> value = ''[]'' then Inr []
        else case json value of
               None \<Rightarrow> Inl ''model returned an invalid condensed memory array''
             | Some items \<Rightarrow>
                 and_then (place_items groups items (replicate (length groups) [])) (\<lambda>by_group.
                 Inr (filter (\<lambda>(_, contents). contents \<noteq> []) (zip [0..<length groups] by_group))))"

section \<open>The transaction\<close>

record tx =
  tx_db :: memory_db
  tx_before :: nat
  tx_after :: nat
  tx_deltas :: "(string \<times> delta_op \<times> nat) list"
  tx_ids :: nat

definition deletable :: "string \<Rightarrow> memory_entry \<Rightarrow> memory_row \<Rightarrow> bool" where
  "deletable owner e r \<longleftrightarrow>
     me_id (mw_entry r) = me_id e \<and> mw_owner r = owner \<and> me_revision (mw_entry r) = me_revision e \<and> \<not> me_pinned (mw_entry r)"

definition delete_entry :: "string \<Rightarrow> memory_entry \<Rightarrow> tx \<Rightarrow> string + tx" where
  "delete_entry owner e t =
     (let db = tx_db t; affected = length (filter (deletable owner e) (db_memories db)) in
      if affected \<noteq> 1 then Inl ''memory changed while condensing; try again''
      else let (revision, db) = delta_tx (db\<lparr> db_memories := filter (\<lambda>r. \<not> deletable owner e r) (db_memories db) \<rparr>) in
        Inr (t\<lparr> tx_db := db, tx_before := tx_before t + 1, tx_deltas := tx_deltas t @ [(me_id e, Delete, revision)] \<rparr>))"

fun delete_entries :: "string \<Rightarrow> memory_entry list \<Rightarrow> tx \<Rightarrow> string + tx" where
  "delete_entries owner [] t = Inr t"
| "delete_entries owner (e # es) t = and_then (delete_entry owner e t) (delete_entries owner es)"

definition collect_ids :: "memory_entry list \<Rightarrow> string list" where
  "collect_ids es = fold (\<lambda>i acc. if 64 \<le> length acc \<or> i \<in> set acc then acc else acc @ [i]) (concat (map me_source_ids es)) []"

text \<open>\<open>new_id\<close> is the supply of new ids, \<open>tx_ids\<close> how many the transaction took.\<close>

definition condensed_entry :: "string \<Rightarrow> string \<Rightarrow> condense_group \<Rightarrow> string \<Rightarrow> nat \<Rightarrow> memory_entry" where
  "condensed_entry i now g content revision =
     \<lparr> me_id = i, me_conversation = cg_conversation g, me_character = cg_character g, me_kind = cg_kind g,
       me_content = content, me_importance = fold max (map me_importance (cg_entries g)) 0, me_pinned = False,
       me_confidence = 4 / 5, me_source = Automatic, me_source_ids = collect_ids (cg_entries g),
       me_created = now, me_updated = now, me_revision = revision \<rparr>"

definition add_content :: "(nat \<Rightarrow> string) \<Rightarrow> string \<Rightarrow> string \<Rightarrow> condense_group \<Rightarrow> string \<Rightarrow> tx \<Rightarrow> tx" where
  "add_content new_id now owner g content t =
     (let (revision, db) = delta_tx (tx_db t); i = new_id (tx_ids t);
          row = \<lparr> mw_owner = owner, mw_status = 0, mw_entry = condensed_entry i now g content revision \<rparr> in
      t\<lparr> tx_db := db\<lparr> db_memories := db_memories db @ [row] \<rparr>, tx_after := tx_after t + 1,
         tx_deltas := tx_deltas t @ [(i, Add, revision)], tx_ids := tx_ids t + 1 \<rparr>)"

definition add_contents ::
  "(nat \<Rightarrow> string) \<Rightarrow> string \<Rightarrow> string \<Rightarrow> condense_group \<Rightarrow> string list \<Rightarrow> tx \<Rightarrow> tx" where
  "add_contents new_id now owner g contents t = fold (add_content new_id now owner g) contents t"

fun replace_groups ::
  "(nat \<Rightarrow> string) \<Rightarrow> string \<Rightarrow> string \<Rightarrow> condense_group list \<Rightarrow> (nat \<times> string list) list \<Rightarrow> tx \<Rightarrow> string + tx" where
  "replace_groups new_id now owner groups [] t = Inr t"
| "replace_groups new_id now owner groups ((i, contents) # changed) t =
     and_then (delete_entries owner (cg_entries (groups ! i)) t) (\<lambda>t.
     replace_groups new_id now owner groups changed (add_contents new_id now owner (groups ! i) contents t))"

section \<open>The whole operation\<close>

record condense_env =
  en_order :: "memory_row list \<Rightarrow> memory_row list"
  en_instructions :: string
  en_num_ctx :: nat
  en_complete :: "string \<Rightarrow> string \<Rightarrow> string + string"
  en_json :: "string \<Rightarrow> condensed_item list option"
  en_new_id :: "nat \<Rightarrow> string"
  en_now :: string

definition condense_groups :: "condense_env \<Rightarrow> memory_entry list \<Rightarrow> string \<times> condense_group list" where
  "condense_groups en entries =
     (let output_tokens = clamp 64 1024 (en_num_ctx en div 4);
          input_tokens = en_num_ctx en - output_tokens;
          system = clip_to_token_budget (en_instructions en) (input_tokens div 2);
          remaining = input_tokens - (estimated_message_tokens system + MESSAGE_OVERHEAD_TOKENS) in
      (system, build_groups remaining entries))"

definition shrinking :: "condense_group list \<Rightarrow> (nat \<times> string list) list \<Rightarrow> (nat \<times> string list) list" where
  "shrinking groups = filter (\<lambda>(i, contents). length contents < length (cg_entries (groups ! i)))"

definition condense_memories ::
  "condense_env \<Rightarrow> string \<Rightarrow> string option \<Rightarrow> string option \<Rightarrow> memory_kind option \<Rightarrow> memory_db \<Rightarrow> memory_db
   \<Rightarrow> (string + condensed) \<times> memory_db" where
  "condense_memories en owner conversation character kind db later =
     (let entries = map mw_entry (take MEMORY_CONDENSATION_LIMIT
            (en_order en (filter (condensable owner conversation character kind) (db_memories db)))) in
      if length entries < 2 then (Inr unchanged, later)
      else
        (case condense_groups en entries of
           (system, groups) \<Rightarrow>
             if groups = [] then (Inr unchanged, later)
             else case and_then (en_complete en system (condense_transcript groups))
                         (\<lambda>answer. parse_condensed_memories (en_json en) answer groups) of
                    Inl e \<Rightarrow> (Inl e, later)
                  | Inr items \<Rightarrow>
                      let changed = shrinking groups items in
                      if changed = [] then (Inr unchanged, later)
                      else case replace_groups (en_new_id en) (en_now en) owner groups changed
                                  \<lparr> tx_db = later, tx_before = 0, tx_after = 0, tx_deltas = [], tx_ids = 0 \<rparr> of
                             Inl e \<Rightarrow> (Inl e, later)
                           | Inr t \<Rightarrow> (Inr \<lparr> cd_before = tx_before t, cd_after = tx_after t, cd_deltas = tx_deltas t \<rparr>,
                                      tx_db t)))"

section \<open>Lemmas\<close>

lemma position_Some: "position P xs = Some i \<Longrightarrow> i < length xs \<and> P (xs ! i)"
  by (induction xs arbitrary: i) (auto split: if_splits)

definition groups_from :: "memory_entry list \<Rightarrow> condense_group list \<Rightarrow> bool" where
  "groups_from entries groups \<longleftrightarrow> (\<forall>g \<in> set groups. \<forall>e \<in> set (cg_entries g). e \<in> set entries \<and> same_scope e g)"

lemma group_entry_from:
  assumes "groups_from entries (snd acc)" "e \<in> set entries"
  shows "groups_from entries (snd (group_entry e acc))"
proof (cases acc)
  case (Pair remaining groups)
  have new: "same_scope e \<lparr> cg_conversation = me_conversation e, cg_character = me_character e, cg_kind = me_kind e, cg_entries = [e] \<rparr>"
    by (simp add: same_scope_def)
  have old: "same_scope x (g\<lparr> cg_entries := es \<rparr>) = same_scope x g" for x g es by (simp add: same_scope_def)
  show ?thesis
  proof (cases "position (same_scope e) groups")
    case None
    then show ?thesis using assms new Pair by (auto simp: groups_from_def group_entry_def Let_def)
  next
    case (Some i)
    then have i: "i < length groups" "same_scope e (groups ! i)" using position_Some by auto
    have gi: "\<forall>x \<in> set (cg_entries (groups ! i)). x \<in> set entries \<and> same_scope x (groups ! i)"
      using assms(1) Pair nth_mem [OF i(1)] by (simp add: groups_from_def)
    have "groups_from entries (groups[i := (groups ! i)\<lparr> cg_entries := cg_entries (groups ! i) @ [e] \<rparr>])"
      using assms i(2) Pair gi unfolding groups_from_def
      by (auto dest!: set_update_subset_insert [THEN subsetD] simp: old)
    then show ?thesis using Some assms Pair by (simp add: group_entry_def Let_def)
  qed
qed

lemma build_groups_from: "groups_from entries (build_groups remaining entries)"
proof -
  have "groups_from entries (snd (fold group_entry es acc))" if "groups_from entries (snd acc)" "set es \<subseteq> set entries" for es acc
    using that by (induction es arbitrary: acc) (simp_all add: group_entry_from)
  from this [of "(remaining, [])" entries] show ?thesis
    by (auto simp: groups_from_def build_groups_def)
qed

lemma delete_entries_effect:
  "delete_entries owner es t = Inr t' \<Longrightarrow>
     set (db_memories (tx_db t')) \<subseteq> set (db_memories (tx_db t))
     \<and> (\<forall>r \<in> set (db_memories (tx_db t)) - set (db_memories (tx_db t')). \<exists>e \<in> set es. deletable owner e r)
     \<and> tx_before t' = tx_before t + length es \<and> tx_after t' = tx_after t"
proof (induction es arbitrary: t)
  case (Cons e es)
  obtain u where u: "delete_entry owner e t = Inr u" "delete_entries owner es u = Inr t'"
    using Cons(2) by (auto simp: and_then_eq_Inr)
  have "db_memories (tx_db u) = filter (\<lambda>r. \<not> deletable owner e r) (db_memories (tx_db t))"
    "tx_before u = tx_before t + 1" "tx_after u = tx_after t"
    using u(1) by (auto simp: delete_entry_def Let_def delta_tx_def split: if_splits)
  then show ?case using Cons(1) [OF u(2)] by auto
qed simp

lemma add_content_effect:
  "\<exists>r. db_memories (tx_db (add_content new_id now owner g content t)) = db_memories (tx_db t) @ [r]
     \<and> mw_owner r = owner \<and> mw_status r = 0 \<and> \<not> me_pinned (mw_entry r) \<and> same_scope (mw_entry r) g
     \<and> me_content (mw_entry r) = content"
  "tx_after (add_content new_id now owner g content t) = tx_after t + 1"
  "tx_before (add_content new_id now owner g content t) = tx_before t"
  by (simp_all add: add_content_def Let_def delta_tx_def condensed_entry_def same_scope_def)

lemma add_contents_effect:
  "\<exists>rows. db_memories (tx_db (add_contents new_id now owner g contents t)) = db_memories (tx_db t) @ rows
     \<and> (\<forall>r \<in> set rows. mw_owner r = owner \<and> mw_status r = 0 \<and> \<not> me_pinned (mw_entry r) \<and> same_scope (mw_entry r) g
          \<and> me_content (mw_entry r) \<in> set contents)
     \<and> tx_after (add_contents new_id now owner g contents t) = tx_after t + length contents
     \<and> tx_before (add_contents new_id now owner g contents t) = tx_before t"
proof (induction contents arbitrary: t)
  case (Cons content contents)
  let ?u = "add_content new_id now owner g content t"
  obtain r where r: "db_memories (tx_db ?u) = db_memories (tx_db t) @ [r]"
    "mw_owner r = owner" "mw_status r = 0" "\<not> me_pinned (mw_entry r)" "same_scope (mw_entry r) g" "me_content (mw_entry r) = content"
    using add_content_effect(1) by blast
  obtain rows where rows: "db_memories (tx_db (add_contents new_id now owner g contents ?u)) = db_memories (tx_db ?u) @ rows"
    "\<forall>r \<in> set rows. mw_owner r = owner \<and> mw_status r = 0 \<and> \<not> me_pinned (mw_entry r) \<and> same_scope (mw_entry r) g
       \<and> me_content (mw_entry r) \<in> set contents"
    "tx_after (add_contents new_id now owner g contents ?u) = tx_after ?u + length contents"
    "tx_before (add_contents new_id now owner g contents ?u) = tx_before ?u" using Cons by blast
  have unf: "add_contents new_id now owner g (content # contents) t = add_contents new_id now owner g contents ?u"
    by (simp add: add_contents_def)
  show ?case unfolding unf using r rows add_content_effect(2,3) [of new_id now owner g content t]
    by (intro exI [of _ "r # rows"]) auto
qed (simp add: add_contents_def)

definition replaced_by :: "string \<Rightarrow> condense_group list \<Rightarrow> (nat \<times> string list) list \<Rightarrow> memory_row \<Rightarrow> bool" where
  "replaced_by owner groups changed r \<longleftrightarrow>
     mw_owner r = owner \<and> mw_status r = 0 \<and> \<not> me_pinned (mw_entry r)
     \<and> (\<exists>(i, contents) \<in> set changed. same_scope (mw_entry r) (groups ! i) \<and> me_content (mw_entry r) \<in> set contents)"

lemma replace_groups_effect:
  "replace_groups new_id now owner groups changed t = Inr t' \<Longrightarrow>
     (\<forall>r \<in> set (db_memories (tx_db t)) - set (db_memories (tx_db t')).
        \<exists>(i, contents) \<in> set changed. \<exists>e \<in> set (cg_entries (groups ! i)). deletable owner e r)
     \<and> (\<forall>r \<in> set (db_memories (tx_db t')) - set (db_memories (tx_db t)). replaced_by owner groups changed r)
     \<and> tx_before t' = tx_before t + (\<Sum>(i, contents) \<leftarrow> changed. length (cg_entries (groups ! i)))
     \<and> tx_after t' = tx_after t + (\<Sum>(i, contents) \<leftarrow> changed. length contents)"
proof (induction changed arbitrary: t)
  case (Cons c changed)
  obtain i contents where c: "c = (i, contents)" by (cases c)
  obtain u where u: "delete_entries owner (cg_entries (groups ! i)) t = Inr u"
    "replace_groups new_id now owner groups changed (add_contents new_id now owner (groups ! i) contents u) = Inr t'"
    using Cons(2) c by (auto simp: and_then_eq_Inr)
  note D = delete_entries_effect [OF u(1)]
  note R = Cons(1) [OF u(2)]
  obtain rows where A: "db_memories (tx_db (add_contents new_id now owner (groups ! i) contents u)) = db_memories (tx_db u) @ rows"
    "\<forall>r \<in> set rows. mw_owner r = owner \<and> mw_status r = 0 \<and> \<not> me_pinned (mw_entry r)
       \<and> same_scope (mw_entry r) (groups ! i) \<and> me_content (mw_entry r) \<in> set contents"
    "tx_after (add_contents new_id now owner (groups ! i) contents u) = tx_after u + length contents"
    "tx_before (add_contents new_id now owner (groups ! i) contents u) = tx_before u"
    using add_contents_effect [of new_id now owner "groups ! i" contents u] by blast
  have removed: "\<forall>r \<in> set (db_memories (tx_db t)) - set (db_memories (tx_db t')).
      \<exists>(i, contents) \<in> set (c # changed). \<exists>e \<in> set (cg_entries (groups ! i)). deletable owner e r"
  proof
    fix r assume r: "r \<in> set (db_memories (tx_db t)) - set (db_memories (tx_db t'))"
    show "\<exists>(i, contents) \<in> set (c # changed). \<exists>e \<in> set (cg_entries (groups ! i)). deletable owner e r"
    proof (cases "r \<in> set (db_memories (tx_db u))")
      case True
      then show ?thesis using R r A(1) by auto
    next
      case False
      then show ?thesis using D r c by auto
    qed
  qed
  have added: "\<forall>r \<in> set (db_memories (tx_db t')) - set (db_memories (tx_db t)). replaced_by owner groups (c # changed) r"
  proof
    fix r assume r: "r \<in> set (db_memories (tx_db t')) - set (db_memories (tx_db t))"
    show "replaced_by owner groups (c # changed) r"
    proof (cases "r \<in> set rows")
      case True
      then show ?thesis using A(2) c by (auto simp: replaced_by_def)
    next
      case False
      then have "r \<notin> set (db_memories (tx_db u) @ rows)" using r D by auto
      then have "replaced_by owner groups changed r" using R r A(1) by auto
      then show ?thesis by (auto simp: replaced_by_def)
    qed
  qed
  show ?case using removed added R D A(3,4) c by simp
qed simp

text \<open>The two counters tell the change in the number of rows.\<close>

definition counted :: "tx \<Rightarrow> tx \<Rightarrow> bool" where
  "counted t t' \<longleftrightarrow> length (db_memories (tx_db t')) + tx_before t' + tx_after t = length (db_memories (tx_db t)) + tx_before t + tx_after t'"

lemma counted_trans [trans]: "counted t u \<Longrightarrow> counted u v \<Longrightarrow> counted t v"
  by (simp add: counted_def)

lemma delete_entry_counted: "delete_entry owner e t = Inr t' \<Longrightarrow> counted t t'"
  using sum_length_filter_compl [of "deletable owner e" "db_memories (tx_db t)"]
  by (auto simp: delete_entry_def Let_def delta_tx_def counted_def split: if_splits)

lemma delete_entries_counted: "delete_entries owner es t = Inr t' \<Longrightarrow> counted t t'"
proof (induction es arbitrary: t)
  case (Cons e es)
  then show ?case by (auto simp: and_then_eq_Inr intro: counted_trans [OF delete_entry_counted])
qed (simp add: counted_def)

lemma add_contents_counted: "counted t (add_contents new_id now owner g contents t)"
proof (induction contents arbitrary: t)
  case (Cons content contents)
  have "counted t (add_content new_id now owner g content t)" by (simp add: add_content_def Let_def delta_tx_def counted_def)
  from counted_trans [OF this Cons] show ?case by (simp add: add_contents_def)
qed (simp add: add_contents_def counted_def)

lemma replace_groups_counted: "replace_groups new_id now owner groups changed t = Inr t' \<Longrightarrow> counted t t'"
proof (induction changed arbitrary: t)
  case (Cons c changed)
  obtain i contents where c: "c = (i, contents)" by (cases c)
  obtain u where u: "delete_entries owner (cg_entries (groups ! i)) t = Inr u"
    "replace_groups new_id now owner groups changed (add_contents new_id now owner (groups ! i) contents u) = Inr t'"
    using Cons(2) c by (auto simp: and_then_eq_Inr)
  show ?case by (rule counted_trans [OF delete_entries_counted [OF u(1)] counted_trans [OF add_contents_counted Cons(1) [OF u(2)]]])
qed (simp add: counted_def)

text \<open>Every delta of the transaction has a revision of its own time.\<close>

definition numbered :: "tx \<Rightarrow> tx \<Rightarrow> bool" where
  "numbered t t' \<longleftrightarrow> db_revision (tx_db t) \<le> db_revision (tx_db t')
     \<and> (\<exists>ds. tx_deltas t' = tx_deltas t @ ds
          \<and> (\<forall>(i, op, r) \<in> set ds. db_revision (tx_db t) < r \<and> r \<le> db_revision (tx_db t')))"

lemma numbered_refl: "numbered t t"
  by (simp add: numbered_def)

lemma numbered_trans [trans]:
  assumes "numbered t u" "numbered u v" shows "numbered t v"
proof -
  obtain xs ys where x: "tx_deltas u = tx_deltas t @ xs" "\<forall>(i, op, r) \<in> set xs. db_revision (tx_db t) < r \<and> r \<le> db_revision (tx_db u)"
    and y: "tx_deltas v = tx_deltas u @ ys" "\<forall>(i, op, r) \<in> set ys. db_revision (tx_db u) < r \<and> r \<le> db_revision (tx_db v)"
    and le: "db_revision (tx_db t) \<le> db_revision (tx_db u)" "db_revision (tx_db u) \<le> db_revision (tx_db v)"
    using assms unfolding numbered_def by blast
  have "\<forall>(i, op, r) \<in> set (xs @ ys). db_revision (tx_db t) < r \<and> r \<le> db_revision (tx_db v)" using x(2) y(2) le by fastforce
  then show ?thesis unfolding numbered_def using x(1) y(1) le by (intro conjI exI [of _ "xs @ ys"]) auto
qed

lemma delete_entries_numbered: "delete_entries owner es t = Inr t' \<Longrightarrow> numbered t t'"
proof (induction es arbitrary: t)
  case (Cons e es)
  have "numbered t u" if "delete_entry owner e t = Inr u" for u
    using that by (auto simp: delete_entry_def Let_def delta_tx_def numbered_def split: if_splits)
  then show ?case using Cons by (auto simp: and_then_eq_Inr intro: numbered_trans)
qed (simp add: numbered_refl)

lemma add_contents_numbered: "numbered t (add_contents new_id now owner g contents t)"
proof (induction contents arbitrary: t)
  case (Cons content contents)
  have "numbered t (add_content new_id now owner g content t)" by (simp add: add_content_def Let_def delta_tx_def numbered_def)
  from numbered_trans [OF this Cons] show ?case by (simp add: add_contents_def)
qed (simp add: add_contents_def numbered_refl)

lemma replace_groups_numbered: "replace_groups new_id now owner groups changed t = Inr t' \<Longrightarrow> numbered t t'"
proof (induction changed arbitrary: t)
  case (Cons c changed)
  obtain i contents where c: "c = (i, contents)" by (cases c)
  obtain u where u: "delete_entries owner (cg_entries (groups ! i)) t = Inr u"
    "replace_groups new_id now owner groups changed (add_contents new_id now owner (groups ! i) contents u) = Inr t'"
    using Cons(2) c by (auto simp: and_then_eq_Inr)
  show ?case by (rule numbered_trans [OF delete_entries_numbered [OF u(1)] numbered_trans [OF add_contents_numbered Cons(1) [OF u(2)]]])
qed (simp add: numbered_refl)

lemma condense_memories_numbered:
  assumes "condense_memories en owner conversation character kind db later = (Inr c, db')"
  shows "db_revision later \<le> db_revision db' \<and> (\<forall>(i, op, r) \<in> set (cd_deltas c). db_revision later < r \<and> r \<le> db_revision db')"
proof -
  consider "c = unchanged" "db' = later"
    | new_id now groups changed t where "replace_groups new_id now owner groups changed
        \<lparr> tx_db = later, tx_before = 0, tx_after = 0, tx_deltas = [], tx_ids = 0 \<rparr> = Inr t" "cd_deltas c = tx_deltas t" "db' = tx_db t"
    using assms unfolding condense_memories_def Let_def
    by (auto split: if_splits sum.splits prod.splits)
  then show ?thesis
  proof cases
    case 2
    then show ?thesis using replace_groups_numbered [OF 2(1)] by (simp add: numbered_def)
  qed (simp add: unchanged_def)
qed

lemma shrinking_sum:
  assumes "shrinking groups items \<noteq> []"
  shows "(\<Sum>(i, contents) \<leftarrow> shrinking groups items. length contents)
    < (\<Sum>(i, contents) \<leftarrow> shrinking groups items. length (cg_entries (groups ! i)))"
proof -
  have "xs \<noteq> [] \<Longrightarrow> \<forall>(i, contents) \<in> set xs. length contents < length (cg_entries (groups ! i)) \<Longrightarrow>
    (\<Sum>(i, contents) \<leftarrow> xs. length contents) < (\<Sum>(i, contents) \<leftarrow> xs. length (cg_entries (groups ! i)))" for xs :: "(nat \<times> string list) list"
  proof (induction xs)
    case (Cons x xs)
    then show ?case by (cases "xs = []") (auto simp: add_strict_mono)
  qed simp
  then show ?thesis using assms by (auto simp: shrinking_def)
qed

lemma parsed_indices:
  assumes "parse_condensed_memories json value groups = Inr items" "(i, contents) \<in> set items"
  shows "i < length groups"
  using assms by (auto simp: parse_condensed_memories_def Let_def and_then_eq_Inr split: if_splits option.splits dest!: set_zip_leftD)

section \<open>Property\<close>

text \<open>C35: Condensing is safe whatever the model answers and whatever changed meanwhile: on an error nothing
  changes; otherwise every memory that disappears is the owner's, unpinned, and has the id and revision
  of one the query selected in the requested scope; every memory that appears belongs to the owner,
  unpinned, in the scope and kind of a selected one; and unless nothing was changed the table has strictly
  fewer rows than the transaction found, by the difference of the two numbers that are reported.\<close>

theorem condense_safe:
  assumes "condense_memories en owner conversation character kind db later = (res, db')"
    "\<And>rows. set (en_order en rows) \<subseteq> set rows"
  shows "(\<forall>e. res = Inl e \<longrightarrow> db' = later)
    \<and> (\<forall>c. res = Inr c \<longrightarrow> c = unchanged \<and> db' = later
         \<or> length (db_memories db') < length (db_memories later)
           \<and> length (db_memories db') + cd_before c = length (db_memories later) + cd_after c)
    \<and> (\<forall>r \<in> set (db_memories later) - set (db_memories db').
         \<exists>q \<in> set (db_memories db). condensable owner conversation character kind q \<and> deletable owner (mw_entry q) r)
    \<and> (\<forall>r \<in> set (db_memories db') - set (db_memories later). mw_owner r = owner \<and> \<not> me_pinned (mw_entry r)
         \<and> (\<exists>q \<in> set (db_memories db). condensable owner conversation character kind q
              \<and> me_conversation (mw_entry r) = me_conversation (mw_entry q)
              \<and> me_character (mw_entry r) = me_character (mw_entry q) \<and> me_kind (mw_entry r) = me_kind (mw_entry q)))"
proof -
  define entries where "entries = map mw_entry (take MEMORY_CONDENSATION_LIMIT
            (en_order en (filter (condensable owner conversation character kind) (db_memories db))))"
  obtain system groups where sg: "condense_groups en entries = (system, groups)" by fastforce
  have sel: "\<exists>q \<in> set (db_memories db). condensable owner conversation character kind q \<and> e = mw_entry q" if "e \<in> set entries" for e
    using that assms(2) [of "filter (condensable owner conversation character kind) (db_memories db)"]
    by (auto simp: entries_def dest!: in_set_takeD)
  have gf: "groups_from entries groups"
    using sg build_groups_from by (auto simp: condense_groups_def Let_def)
  consider "db' = later" "(\<exists>e. res = Inl e) \<or> res = Inr unchanged"
    | items t where "\<exists>answer. parse_condensed_memories (en_json en) answer groups = Inr items" "shrinking groups items \<noteq> []"
      "replace_groups (en_new_id en) (en_now en) owner groups (shrinking groups items)
         \<lparr> tx_db = later, tx_before = 0, tx_after = 0, tx_deltas = [], tx_ids = 0 \<rparr> = Inr t"
      "res = Inr \<lparr> cd_before = tx_before t, cd_after = tx_after t, cd_deltas = tx_deltas t \<rparr>" "db' = tx_db t"
    using assms(1) sg unfolding condense_memories_def entries_def [symmetric] Let_def
    by (auto simp: and_then_eq_Inr split: if_splits sum.splits)
  then show ?thesis
  proof cases
    case 2
    note R = replace_groups_effect [OF 2(3)]
    have idx: "groups ! i \<in> set groups" if "(i, contents) \<in> set (shrinking groups items)" for i contents
      using that 2(1) by (auto simp: shrinking_def dest!: parsed_indices)
    have nonempty: "cg_entries (groups ! i) \<noteq> []" if "(i, contents) \<in> set (shrinking groups items)" for i contents
      using that by (auto simp: shrinking_def)
    have "\<exists>q \<in> set (db_memories db). condensable owner conversation character kind q \<and> deletable owner (mw_entry q) r"
      if r: "r \<in> set (db_memories later) - set (db_memories db')" for r
    proof -
      obtain i contents e where "(i, contents) \<in> set (shrinking groups items)" "e \<in> set (cg_entries (groups ! i))" "deletable owner e r"
        using R r 2(5) by fastforce
      then show ?thesis using gf idx sel unfolding groups_from_def by blast
    qed
    moreover have "mw_owner r = owner \<and> \<not> me_pinned (mw_entry r)
         \<and> (\<exists>q \<in> set (db_memories db). condensable owner conversation character kind q
              \<and> me_conversation (mw_entry r) = me_conversation (mw_entry q)
              \<and> me_character (mw_entry r) = me_character (mw_entry q) \<and> me_kind (mw_entry r) = me_kind (mw_entry q))"
      if r: "r \<in> set (db_memories db') - set (db_memories later)" for r
    proof -
      have rb: "replaced_by owner groups (shrinking groups items) r" using R r 2(5) by fastforce
      then obtain i contents where ic: "(i, contents) \<in> set (shrinking groups items)" "same_scope (mw_entry r) (groups ! i)"
        by (auto simp: replaced_by_def)
      obtain e where e: "e \<in> set (cg_entries (groups ! i))" using nonempty [OF ic(1)] by (cases "cg_entries (groups ! i)") auto
      then have "e \<in> set entries" "same_scope e (groups ! i)" using gf idx [OF ic(1)] unfolding groups_from_def by blast+
      then show ?thesis using sel [of e] ic(2) rb by (auto simp: same_scope_def replaced_by_def)
    qed
    moreover have "length (db_memories db') < length (db_memories later)" "length (db_memories db') + tx_before t = length (db_memories later) + tx_after t"
      using R shrinking_sum [OF 2(2)] replace_groups_counted [OF 2(3)] 2(5) by (simp_all add: counted_def)
    ultimately show ?thesis using 2(4) by simp
  qed auto
qed

section \<open>Witness\<close>

definition tea :: "string \<Rightarrow> string \<Rightarrow> nat \<Rightarrow> memory_row" where
  "tea i content revision = \<lparr> mw_owner = ''u'', mw_status = 0, mw_entry =
     \<lparr> me_id = i, me_conversation = None, me_character = Some ''mara'', me_kind = Fact, me_content = content, me_importance = 50,
       me_pinned = False, me_confidence = 1, me_source = Manual, me_source_ids = [''m1''], me_created = ''t0'', me_updated = ''t0'',
       me_revision = revision \<rparr> \<rparr>"

definition tea_db :: memory_db where
  "tea_db = \<lparr> db_memories = [tea ''a'' ''Likes tea'' 1, tea ''b'' ''Loves tea'' 2], db_revision = 2 \<rparr>"

definition tea_env :: condense_env where
  "tea_env = \<lparr> en_order = (\<lambda>rows. rows), en_instructions = ''Merge.'', en_num_ctx = 4096, en_complete = (\<lambda>_ _. Inr ''answer''),
     en_json = (\<lambda>_. Some [\<lparr> ci_group = 1, ci_kind = ''Fact'', ci_content = ''Loves tea'' \<rparr>]), en_new_id = (\<lambda>n. ''c''), en_now = ''t1'' \<rparr>"

theorem condense_safe_witness:
  "\<exists>c db'. condense_memories tea_env ''u'' None None None tea_db tea_db = (Inr c, db')
     \<and> cd_before c = 2 \<and> length (db_memories db') = 1"
proof -
  have r: "fst (condense_memories tea_env ''u'' None None None tea_db tea_db)
    = Inr \<lparr> cd_before = 2, cd_after = 1, cd_deltas = [(''a'', Delete, 3), (''b'', Delete, 4), (''c'', Add, 5)] \<rparr>" by code_simp
  obtain db' where db': "condense_memories tea_env ''u'' None None None tea_db tea_db
      = (Inr \<lparr> cd_before = 2, cd_after = 1, cd_deltas = [(''a'', Delete, 3), (''b'', Delete, 4), (''c'', Add, 5)] \<rparr>, db')"
    using r by (cases "condense_memories tea_env ''u'' None None None tea_db tea_db") auto
  have o: "set (en_order tea_env rows) \<subseteq> set rows" for rows by (simp add: tea_env_def)
  have "length (db_memories tea_db) = 2" by code_simp
  then have "length (db_memories db') = 1" using condense_safe [OF db' o] by (auto simp: unchanged_def)
  then show ?thesis using db' by auto
qed

end
