(* ===== verification/MemoryExtract.thy ===== *)
theory MemoryExtract
  imports MemoryStore Catalog
begin

text \<open>
  Automatic memories (\<^verbatim>\<open>extract_memories\<close> and \<^verbatim>\<open>maybe_extract_automatic_memory\<close> of
  \<^verbatim>\<open>chatty-broker/src/systems/inference.rs\<close>): which messages a run reads, how far it moves the
  conversation's checkpoint, and what it saves.  The messages are the conversation's root messages
  without images, as the query of the source selects them.
\<close>

section \<open>Choosing the rows\<close>

definition ROWS :: nat where "ROWS = 40"

record chat_row =
  cr_id :: string
  cr_seq :: nat
  cr_revision :: nat
  cr_author :: string
  cr_content :: string

text \<open>\<^verbatim>\<open>ORDER BY m.revision,m.seq\<close> over the rows changed since the checkpoint.\<close>

definition pending_all :: "nat \<Rightarrow> chat_row list \<Rightarrow> chat_row list" where
  "pending_all previous ms = sort_key cr_revision (sort_key cr_seq (filter (\<lambda>r. previous < cr_revision r) ms))"

definition context_rows :: "nat option \<Rightarrow> nat \<Rightarrow> chat_row list \<Rightarrow> chat_row list" where
  "context_rows after n ms =
     take n (rev (sort_key cr_seq (filter (\<lambda>r. case after of Some p \<Rightarrow> cr_revision r \<le> p | None \<Rightarrow> True) ms)))"

text \<open>The pending rows of a run, the revision at which the limit cut them, and all rows in priority order.\<close>

definition select_rows :: "nat option \<Rightarrow> chat_row list \<Rightarrow> chat_row list \<times> nat option \<times> chat_row list" where
  "select_rows after ms =
     (let fetched = (case after of Some p \<Rightarrow> take (ROWS + 1) (pending_all p ms) | None \<Rightarrow> []);
          cut_at = (if ROWS < length fetched then Some (cr_revision (last fetched)) else None);
          pending = (if ROWS < length fetched then butlast fetched else fetched) in
      (pending, cut_at, pending @ context_rows after (ROWS - length pending) ms))"

section \<open>The model's input\<close>

definition row_text :: "bool \<Rightarrow> chat_row \<Rightarrow> string" where
  "row_text new r = ''['' @ (if new then ''new'' else ''earlier context'') @ ''] '' @ cr_author r @ '': '' @ cr_content r"

fun read_rows :: "bool \<Rightarrow> nat \<Rightarrow> nat \<Rightarrow> nat \<Rightarrow> nat \<Rightarrow> chat_row list \<Rightarrow> (chat_row \<times> string) list" where
  "read_rows automatic input_tokens pending_rows index remaining [] = []"
| "read_rows automatic input_tokens pending_rows index remaining (r # rs) =
     (if remaining \<le> MESSAGE_OVERHEAD_TOKENS then []
      else let new = (\<not> automatic \<or> index < pending_rows);
               content = clip_to_token_budget (row_text new r) (min remaining (input_tokens div 4)) in
           if content = [] then []
           else (r, content) # read_rows automatic input_tokens pending_rows (index + 1)
                                 (remaining - estimated_message_tokens content) rs)"

text \<open>\<open>character\<close>: the sections of what is known already, and the name.\<close>

definition extract_system :: "string \<Rightarrow> nat \<Rightarrow> ((string \<times> string list) list \<times> string) option \<Rightarrow> string" where
  "extract_system instructions input_tokens character =
     (let system = clip_to_token_budget instructions (input_tokens div 3) in
      clip_to_token_budget
        (case character of
           None \<Rightarrow> system
         | Some (sections, name) \<Rightarrow>
             system @ concat (map (\<lambda>(label, entries).
               clip_to_token_budget (nl @ label @ '':'' @ nl @ join nl entries) (input_tokens div 9)) sections)
             @ nl @ ''These memories belong to '' @ clip name 128
             @ ''. Keep other participants'' @ [CHR 0x27] @ '' experiences distinct.'' @ nl)
        (input_tokens * 3 div 4))"

section \<open>The checkpoint\<close>

definition max_opt :: "nat list \<Rightarrow> nat option" where
  "max_opt xs = (case xs of [] \<Rightarrow> None | x # r \<Rightarrow> Some (fold max r x))"

definition latest_revision :: "nat list \<Rightarrow> nat option \<Rightarrow> nat" where
  "latest_revision revisions cut_at =
     (case cut_at of
        Some c \<Rightarrow> (case max_opt (filter (\<lambda>r. r < c) revisions) of Some m \<Rightarrow> m | None \<Rightarrow> c)
      | None \<Rightarrow> (case max_opt revisions of Some m \<Rightarrow> m | None \<Rightarrow> 0))"

section \<open>One extraction\<close>

record extraction =
  ex_contents :: "string list"
  ex_source_ids :: "string list"
  ex_latest :: nat

record extract_env =
  xe_num_ctx :: nat
  xe_instructions :: string
  xe_lower :: "string \<Rightarrow> string"
  xe_json :: "string \<Rightarrow> string list option"
  xe_complete :: "string \<Rightarrow> string \<Rightarrow> string + string"

definition str_lines :: "string \<Rightarrow> string list" where
  "str_lines s =
     (let parts = split_at (CHR 0x0A) s; parts = (if parts \<noteq> [] \<and> last parts = [] then butlast parts else parts) in
      map (\<lambda>l. case strip_suffix [CHR 0x0D] l of Some x \<Rightarrow> x | None \<Rightarrow> l) parts)"

definition extract_input_tokens :: "extract_env \<Rightarrow> nat" where
  "extract_input_tokens en = xe_num_ctx en - clamp 32 512 (xe_num_ctx en div 4)"

definition rows_read :: "extract_env \<Rightarrow> nat option \<Rightarrow> string \<Rightarrow> chat_row list \<Rightarrow> (chat_row \<times> string) list" where
  "rows_read en after system ms =
     (case select_rows after ms of
        (pending, cut_at, recent) \<Rightarrow>
          read_rows (after \<noteq> None) (extract_input_tokens en) (length pending) 0
            (extract_input_tokens en - (estimated_message_tokens system + MESSAGE_OVERHEAD_TOKENS)) recent)"

text \<open>What the checkpoint may move to, given how many pending rows were read.\<close>

definition next_checkpoint :: "chat_row list \<Rightarrow> nat option \<Rightarrow> chat_row list \<Rightarrow> nat \<Rightarrow> nat" where
  "next_checkpoint pending cut_at recent included =
     (let cut_at = (if included < length pending then Some (cr_revision (recent ! included)) else cut_at) in
      latest_revision (map cr_revision (take included recent)) cut_at)"

definition extract_memories ::
  "extract_env \<Rightarrow> chat_row list \<Rightarrow> nat option \<Rightarrow> ((string \<times> string list) list \<times> string) option \<Rightarrow> string + extraction" where
  "extract_memories en ms after character =
     (case select_rows after ms of
        (pending, cut_at, recent) \<Rightarrow>
          if after \<noteq> None \<and> pending = []
          then Inr \<lparr> ex_contents = [], ex_source_ids = [], ex_latest = (case after of Some p \<Rightarrow> p | None \<Rightarrow> 0) \<rparr>
          else if recent = [] then Inl ''conversation has no history to extract''
          else
            let system = extract_system (xe_instructions en) (extract_input_tokens en) character;
                known = (case character of None \<Rightarrow> [] | Some (sections, _) \<Rightarrow> concat (map snd sections));
                read = rows_read en after system ms;
                included = min (length read) (length pending) in
            if after \<noteq> None \<and> included = 0 then Inl ''memory model context leaves no room for new messages''
            else
              let latest = next_checkpoint pending cut_at recent included;
                  transcript = join nl (map snd (sort_key (\<lambda>(r, _). cr_seq r) read)) in
              and_then (xe_complete en system transcript) (\<lambda>answer.
              and_then
                (if after \<noteq> None
                 then and_then (parse_automatic_memories (xe_lower en) (xe_json en) answer) (\<lambda>cs.
                   Inr (filter (\<lambda>c. \<not> list_ex (\<lambda>k. list_ex (same_memory_text (xe_lower en) c) (str_lines k)) known) cs))
                 else and_then (validate_extracted_memory answer) (\<lambda>c. Inr [c])) (\<lambda>contents.
              Inr \<lparr> ex_contents = contents, ex_source_ids = map (cr_id \<circ> fst) read, ex_latest = latest \<rparr>)))"

section \<open>Saving what was learned\<close>

definition duplicate_memory :: "string \<Rightarrow> string \<Rightarrow> string \<Rightarrow> memory_db \<Rightarrow> bool" where
  "duplicate_memory owner character content db =
     list_ex (\<lambda>r. mw_owner r = owner \<and> mw_status r = 0 \<and> me_character (mw_entry r) = Some character
       \<and> me_conversation (mw_entry r) = None
       \<and> map ascii_lower (me_content (mw_entry r)) = map ascii_lower content) (db_memories db)"

fun save_learned ::
  "access \<Rightarrow> (nat \<Rightarrow> string) \<Rightarrow> string \<Rightarrow> string \<Rightarrow> string \<Rightarrow> string list \<Rightarrow> string list \<Rightarrow> memory_db
   \<Rightarrow> (string + unit) \<times> memory_db" where
  "save_learned acc new_id now owner character ids [] db = (Inr (), db)"
| "save_learned acc new_id now owner character ids (content # contents) db =
     (if duplicate_memory owner character content db
      then save_learned acc new_id now owner character ids contents db
      else case persist_memory acc (new_id (length contents)) now owner
                  \<lparr> mi_id = None, mi_conversation = None, mi_character = Some character, mi_kind = Fact,
                    mi_content = content, mi_importance = 50, mi_pinned = False \<rparr> Automatic (4 / 5) ids db of
             (Inl e, db) \<Rightarrow> (Inl e, db)
           | (Inr _, db) \<Rightarrow> save_learned acc new_id now owner character ids contents db)"

text \<open>The checkpoint is stored as \<^verbatim>\<open>MAX(stored, excluded)\<close>, only after every memory was saved.\<close>

definition automatic_run ::
  "extract_env \<Rightarrow> access \<Rightarrow> (nat \<Rightarrow> string) \<Rightarrow> string \<Rightarrow> string \<Rightarrow> string \<Rightarrow> string \<Rightarrow> (string \<times> string list) list \<times> string
   \<Rightarrow> chat_row list \<Rightarrow> nat \<times> memory_db \<Rightarrow> (string + unit) \<times> nat \<times> memory_db" where
  "automatic_run en acc new_id now owner conversation character about ms = (\<lambda>(checkpoint, db).
     (case owns acc owner conversation of
        Inl e \<Rightarrow> (Inl e, checkpoint, db)
      | Inr _ \<Rightarrow>
          if \<not> list_ex (\<lambda>r. checkpoint < cr_revision r) ms then (Inr (), checkpoint, db)
          else case extract_memories en ms (Some checkpoint) (Some about) of
                 Inl e \<Rightarrow> (Inl e, checkpoint, db)
               | Inr ex \<Rightarrow>
                   case save_learned acc new_id now owner character (ex_source_ids ex) (ex_contents ex) db of
                     (Inl e, db) \<Rightarrow> (Inl e, checkpoint, db)
                   | (Inr _, db) \<Rightarrow> (Inr (), max checkpoint (ex_latest ex), db)))"

section \<open>Lemmas\<close>

lemma max_opt_Nil [simp]: "max_opt [] = None"
  by (simp add: max_opt_def)

lemma max_opt_None [simp]: "max_opt xs = None \<longleftrightarrow> xs = []"
  by (cases xs) (simp_all add: max_opt_def)

lemma max_opt_Some: "max_opt xs = Some m \<Longrightarrow> m \<in> set xs \<and> (\<forall>x \<in> set xs. x \<le> m)"
proof (cases xs)
  case (Cons x r)
  have "fold max r x = Max (set (x # r))" by (simp only: Max.set_eq_fold)
  then show "max_opt xs = Some m \<Longrightarrow> m \<in> set xs \<and> (\<forall>x \<in> set xs. x \<le> m)"
    using Max_in [of "set (x # r)"] Max_ge [of "set (x # r)"] by (auto simp: max_opt_def Cons)
qed (simp add: max_opt_def)

lemma pending_all_facts:
  "sorted (map cr_revision (pending_all p ms))" "set (pending_all p ms) = {r \<in> set ms. p < cr_revision r}"
  by (auto simp: pending_all_def)

lemma select_rows_Some:
  "select_rows (Some p) ms =
     (take ROWS (pending_all p ms),
      if ROWS < length (pending_all p ms) then Some (cr_revision (pending_all p ms ! ROWS)) else None,
      take ROWS (pending_all p ms) @ context_rows (Some p) (ROWS - length (take ROWS (pending_all p ms))) ms)"
proof -
  let ?P = "pending_all p ms"
  have "last (take (ROWS + 1) ?P) = ?P ! ROWS" "butlast (take (ROWS + 1) ?P) = take ROWS ?P" if "ROWS < length ?P"
    using that by (simp_all add: take_Suc_conv_app_nth)
  then show ?thesis by (auto simp: select_rows_def Let_def not_less)
qed

lemma read_rows_prefix:
  "map fst (read_rows automatic input n i remaining rs) = take (length (read_rows automatic input n i remaining rs)) rs"
  by (induction automatic input n i remaining rs rule: read_rows.induct) (auto simp: Let_def)

lemma read_rows_fit:
  "(\<Sum>(r, content) \<leftarrow> read_rows automatic input n i remaining rs. estimated_message_tokens content) \<le> remaining"
proof (induction rs arbitrary: i remaining)
  case (Cons r rs)
  let ?c = "clip_to_token_budget (row_text (\<not> automatic \<or> i < n) r) (min remaining (input div 4))"
  show ?case
  proof (cases "remaining \<le> MESSAGE_OVERHEAD_TOKENS \<or> ?c = []")
    case False
    then have "4 \<le> min remaining (input div 4)" by (auto simp: clip_to_token_budget_as_bytes split: if_splits)
    then have fits: "estimated_message_tokens ?c \<le> remaining" using clip_to_token_budget_fits [of "min remaining (input div 4)"] by fastforce
    have step: "read_rows automatic input n i remaining (r # rs)
        = (r, ?c) # read_rows automatic input n (i + 1) (remaining - estimated_message_tokens ?c) rs"
      using False by (simp add: Let_def)
    show ?thesis using fits Cons [of "i + 1" "remaining - estimated_message_tokens ?c"]
      unfolding step list.map sum_list.Cons prod.case by linarith
  qed (auto simp: Let_def)
qed simp

lemma latest_revision_sound:
  assumes "sorted (map cr_revision P)" "0 < k" "k \<le> length P"
    and "L = latest_revision (map cr_revision (take k P)) (if k < length P then Some (cr_revision (P ! k)) else None)"
  shows "\<exists>r \<in> set P. cr_revision r = L"
    and "r \<in> set P \<Longrightarrow> cr_revision r \<le> L \<Longrightarrow> r \<in> set (take k P) \<or> cr_revision r = L \<and> (\<forall>q \<in> set (take k P). cr_revision q = L)"
proof -
  have le: "cr_revision q \<le> cr_revision (P ! k)" if "k < length P" "q \<in> set (take k P)" for q
    using that assms(1) by (auto simp: in_set_conv_nth sorted_iff_nth_mono)
  have ge: "cr_revision (P ! k) \<le> cr_revision q" if "q \<in> set (drop k P)" for q
    using that assms(1) by (auto simp: in_set_conv_nth sorted_iff_nth_mono)
  have split: "set P = set (take k P) \<union> set (drop k P)" by (metis append_take_drop_id set_append)
  have "(\<exists>r \<in> set P. cr_revision r = L)
    \<and> (\<forall>r \<in> set P. cr_revision r \<le> L \<longrightarrow> r \<in> set (take k P) \<or> cr_revision r = L \<and> (\<forall>q \<in> set (take k P). cr_revision q = L))"
  proof (cases "k < length P")
    case False
    have "take k P = P" "P \<noteq> []" using False assms(2,3) by auto
    then obtain m where "max_opt (map cr_revision P) = Some m" by (cases "max_opt (map cr_revision P)") auto
    then show ?thesis using assms(4) False \<open>take k P = P\<close> by (force simp: latest_revision_def dest: max_opt_Some)
  next
    case True
    define c where "c = cr_revision (P ! k)"
    show ?thesis
    proof (cases "max_opt (filter (\<lambda>r. r < c) (map cr_revision (take k P)))")
      case None
      then have "L = c" using assms(4) True by (simp add: latest_revision_def c_def)
      moreover have "cr_revision q = c" if "q \<in> set (take k P)" for q
        using None that le [OF True that] by (auto simp: filter_empty_conv c_def not_less intro: antisym)
      moreover have "P ! k \<in> set P" using True by simp
      moreover have "r \<in> set (take k P) \<or> cr_revision r = c" if "r \<in> set P" "cr_revision r \<le> c" for r
        using that ge [of r] unfolding split c_def by auto
      ultimately show ?thesis unfolding c_def by blast
    next
      case (Some m)
      then have "L = m" using assms(4) True by (simp add: latest_revision_def c_def)
      moreover have "m < c" "\<exists>q \<in> set (take k P). cr_revision q = m" using max_opt_Some [OF Some] by auto
      moreover have "r \<in> set (take k P)" if "r \<in> set P" "cr_revision r < c" for r
        using that ge [of r] unfolding split c_def by auto
      moreover have "set (take k P) \<subseteq> set P" by (rule set_take_subset)
      ultimately show ?thesis by (meson le_less_trans subsetD)
    qed
  qed
  then show "\<exists>r \<in> set P. cr_revision r = L"
    "r \<in> set P \<Longrightarrow> cr_revision r \<le> L \<Longrightarrow> r \<in> set (take k P) \<or> cr_revision r = L \<and> (\<forall>q \<in> set (take k P). cr_revision q = L)"
    by auto
qed

lemma next_checkpoint_prefix:
  assumes "select_rows (Some p) ms = (pending, cut_at, recent)" "k \<le> length pending"
  shows "take k recent = take k (pending_all p ms)"
    "next_checkpoint pending cut_at recent k = latest_revision (map cr_revision (take k (pending_all p ms)))
       (if k < length (pending_all p ms) then Some (cr_revision (pending_all p ms ! k)) else None)"
proof -
  let ?P = "pending_all p ms"
  have S: "pending = take ROWS ?P" "cut_at = (if ROWS < length ?P then Some (cr_revision (?P ! ROWS)) else None)"
    "recent = pending @ context_rows (Some p) (ROWS - length (take ROWS ?P)) ms"
    using assms(1) by (auto simp: select_rows_Some)
  have le: "k \<le> ROWS" "k \<le> length ?P" using assms(2) S(1) by auto
  then show t: "take k recent = take k ?P" using assms(2) S(1,3) by (simp add: min_def)
  have "(if k < length pending then Some (cr_revision (recent ! k)) else cut_at)
      = (if k < length ?P then Some (cr_revision (?P ! k)) else None)"
    using assms(2) le by (auto simp: S nth_append min_def split: if_splits)
  then show "next_checkpoint pending cut_at recent k = latest_revision (map cr_revision (take k ?P))
       (if k < length ?P then Some (cr_revision (?P ! k)) else None)"
    unfolding next_checkpoint_def Let_def t by simp
qed

definition known_system :: "extract_env \<Rightarrow> ((string \<times> string list) list \<times> string) option \<Rightarrow> string" where
  "known_system en about = extract_system (xe_instructions en) (extract_input_tokens en) about"

lemma rows_read_pending:
  assumes "select_rows (Some p) ms = (pending, cut_at, recent)"
  shows "{q \<in> fst ` set (rows_read en (Some p) system ms). p < cr_revision q}
    = set (take (min (length (rows_read en (Some p) system ms)) (length pending)) (pending_all p ms))"
proof -
  let ?read = "rows_read en (Some p) system ms"
  let ?P = "pending_all p ms"
  have S: "pending = take ROWS ?P" "recent = pending @ context_rows (Some p) (ROWS - length (take ROWS ?P)) ms"
    using assms by (auto simp: select_rows_Some)
  have "map fst ?read = take (length ?read) recent" unfolding rows_read_def assms prod.case by (rule read_rows_prefix)
  then have "fst ` set ?read = set (take (length ?read) recent)" by (metis list.set_map)
  also have "\<dots> = set (take (length ?read) pending) \<union> set (take (length ?read - length pending) (context_rows (Some p) (ROWS - length (take ROWS ?P)) ms))"
    by (simp add: S(2))
  finally have read: "fst ` set ?read = set (take (length ?read) pending)
      \<union> set (take (length ?read - length pending) (context_rows (Some p) (ROWS - length (take ROWS ?P)) ms))" .
  have new: "p < cr_revision q" if "q \<in> set (take (length ?read) pending)" for q
    using that pending_all_facts(2) [of p ms] by (auto simp: S(1) dest!: in_set_takeD)
  have old: "\<not> p < cr_revision q" if "q \<in> set (take n (context_rows (Some p) m ms))" for q n m
    using that by (auto simp: context_rows_def dest!: in_set_takeD)
  have "{q \<in> fst ` set ?read. p < cr_revision q} = set (take (length ?read) pending)"
    unfolding read using new old by blast
  moreover have "take (length ?read) pending = take (min (length ?read) (length pending)) ?P"
    by (simp add: S(1) min_def)
  ultimately show ?thesis by simp
qed

lemma extract_ok:
  assumes "extract_memories en ms (Some p) about = Inr ex" "\<exists>r \<in> set ms. p < cr_revision r"
    and "select_rows (Some p) ms = (pending, cut_at, recent)"
  defines "read \<equiv> rows_read en (Some p) (known_system en about) ms"
  shows "0 < min (length read) (length pending)"
    "ex_latest ex = next_checkpoint pending cut_at recent (min (length read) (length pending))"
    "ex_source_ids ex = map (cr_id \<circ> fst) read"
proof -
  have "pending_all p ms \<noteq> []" using assms(2) pending_all_facts(2) [of p ms] by auto
  then have ne: "pending \<noteq> []" "recent \<noteq> []" using assms(3) by (auto simp: select_rows_Some ROWS_def)
  show "0 < min (length read) (length pending)"
    "ex_latest ex = next_checkpoint pending cut_at recent (min (length read) (length pending))"
    "ex_source_ids ex = map (cr_id \<circ> fst) read"
    using assms(1,3) ne unfolding extract_memories_def read_def known_system_def
    by (auto simp: Let_def and_then_eq_Inr split: if_splits)
qed

lemma checkpoint_sound:
  assumes "extract_memories en ms (Some p) about = Inr ex" "\<exists>r \<in> set ms. p < cr_revision r"
  defines "read \<equiv> fst ` set (rows_read en (Some p) (known_system en about) ms)"
  shows "\<exists>r \<in> set ms. p < cr_revision r \<and> cr_revision r = ex_latest ex"
    and "r \<in> set ms \<Longrightarrow> p < cr_revision r \<Longrightarrow> cr_revision r \<le> ex_latest ex \<Longrightarrow>
      r \<in> read \<or> cr_revision r = ex_latest ex \<and> (\<forall>q \<in> read. p < cr_revision q \<longrightarrow> cr_revision q = ex_latest ex)"
proof -
  obtain pending cut_at recent where sel: "select_rows (Some p) ms = (pending, cut_at, recent)" by (metis prod_cases3)
  define k where "k = min (length (rows_read en (Some p) (known_system en about) ms)) (length pending)"
  have k: "0 < k" "k \<le> length pending" "k \<le> length (pending_all p ms)"
    using extract_ok(1) [OF assms(1,2) sel] sel by (auto simp: k_def select_rows_Some)
  have R: "{q \<in> read. p < cr_revision q} = set (take k (pending_all p ms))"
    unfolding read_def k_def by (rule rows_read_pending [OF sel])
  have L: "ex_latest ex = latest_revision (map cr_revision (take k (pending_all p ms)))
       (if k < length (pending_all p ms) then Some (cr_revision (pending_all p ms ! k)) else None)"
    using extract_ok(2) [OF assms(1,2) sel] next_checkpoint_prefix(2) [OF sel k(2)] by (simp add: k_def)
  note sound = latest_revision_sound [OF pending_all_facts(1) k(1,3) L]
  show "\<exists>r \<in> set ms. p < cr_revision r \<and> cr_revision r = ex_latest ex"
    using sound(1) pending_all_facts(2) [of p ms] by auto
  show "r \<in> set ms \<Longrightarrow> p < cr_revision r \<Longrightarrow> cr_revision r \<le> ex_latest ex \<Longrightarrow>
      r \<in> read \<or> cr_revision r = ex_latest ex \<and> (\<forall>q \<in> read. p < cr_revision q \<longrightarrow> cr_revision q = ex_latest ex)"
    using sound(2) [of r] pending_all_facts(2) [of p ms] R by blast
qed

section \<open>Properties\<close>

text \<open>C37: The checkpoint never passes a message the model has not read: after an extraction every message
  changed since the old checkpoint and up to the new one was read in that run; the only exception is a
  revision shared by more messages than fit, when the run read nothing else.\<close>

theorem extraction_reads_before_checkpoint:
  assumes "extract_memories en ms (Some p) about = Inr ex"
    "r \<in> set ms" "p < cr_revision r" "cr_revision r \<le> ex_latest ex"
  shows "r \<in> fst ` set (rows_read en (Some p) (known_system en about) ms)
    \<or> cr_revision r = ex_latest ex
      \<and> (\<forall>q \<in> fst ` set (rows_read en (Some p) (known_system en about) ms). p < cr_revision q \<longrightarrow> cr_revision q = ex_latest ex)"
  using checkpoint_sound(2) [OF assms(1) _ assms(2-4)] assms(2,3) by blast

text \<open>C38: Automatic extraction makes progress: the checkpoint never moves back, a failed run leaves it where
  it was so that its messages are read again, and a successful run either finds nothing pending or
  leaves strictly fewer messages pending.\<close>

theorem automatic_run_progress:
  assumes "automatic_run en acc new_id now owner conversation character about ms (checkpoint, db) = (res, checkpoint', db')"
  shows "checkpoint \<le> checkpoint' \<and> (\<forall>e. res = Inl e \<longrightarrow> checkpoint' = checkpoint)
    \<and> (res = Inr () \<longrightarrow> pending_all checkpoint ms = [] \<or> length (pending_all checkpoint' ms) < length (pending_all checkpoint ms))"
proof (cases "list_ex (\<lambda>r. checkpoint < cr_revision r) ms \<and> is_ok (owns acc owner conversation)")
  case False
  then have "checkpoint' = checkpoint \<and> (res = Inr () \<longrightarrow> \<not> list_ex (\<lambda>r. checkpoint < cr_revision r) ms)"
    using assms by (auto simp: automatic_run_def split: sum.splits)
  then show ?thesis by (auto simp: pending_all_def list_ex_iff filter_empty_conv)
next
  case True
  show ?thesis
  proof (cases "res")
    case (Inl e)
    then show ?thesis using assms True by (auto simp: automatic_run_def split: sum.splits prod.splits)
  next
    case (Inr u)
    obtain ex where ex: "extract_memories en ms (Some checkpoint) (Some about) = Inr ex" "checkpoint' = max checkpoint (ex_latest ex)"
      using assms True Inr by (auto simp: automatic_run_def split: sum.splits prod.splits)
    have "\<exists>r \<in> set ms. checkpoint < cr_revision r" using True by (simp add: list_ex_iff)
    from checkpoint_sound(1) [OF ex(1) this] obtain r where r: "r \<in> set ms" "checkpoint < cr_revision r" "cr_revision r = ex_latest ex"
      by blast
    then have cp: "checkpoint' = ex_latest ex" "checkpoint < checkpoint'" using ex(2) by auto
    have "length (filter (\<lambda>r. checkpoint' < cr_revision r) ms) < length (filter (\<lambda>r. checkpoint < cr_revision r) ms)"
    proof -
      have "filter (\<lambda>r. checkpoint' < cr_revision r) ms = filter (\<lambda>r. checkpoint' < cr_revision r) (filter (\<lambda>r. checkpoint < cr_revision r) ms)"
        using cp(2) by (auto intro: filter_cong)
      also have "length \<dots> < length (filter (\<lambda>r. checkpoint < cr_revision r) ms)"
        by (rule length_filter_less [of r]) (use r cp in auto)
      finally show ?thesis .
    qed
    then show ?thesis using cp(2) Inr by (simp add: pending_all_def)
  qed
qed

section \<open>Witnesses\<close>

definition quiet_env :: extract_env where
  "quiet_env = \<lparr> xe_num_ctx = 4096, xe_instructions = ''Find memories.'', xe_lower = map ascii_lower, xe_json = (\<lambda>_. None),
     xe_complete = (\<lambda>_ _. Inr ''none'') \<rparr>"

definition hello_row :: "nat \<Rightarrow> chat_row" where
  "hello_row n = \<lparr> cr_id = ''m'', cr_seq = n, cr_revision = n + 3, cr_author = ''user'', cr_content = ''Hello'' \<rparr>"

definition mara_card :: "(string \<times> string list) list \<times> string" where
  "mara_card = ([(''Already saved'', [''Likes tea''])], ''Mara'')"

lemma quiet_extraction:
  "extract_memories quiet_env [hello_row 1, hello_row 2] (Some 4) (Some mara_card)
     = Inr \<lparr> ex_contents = [], ex_source_ids = [''m'', ''m''], ex_latest = 5 \<rparr>"
  by code_simp

theorem extraction_reads_before_checkpoint_witness:
  "hello_row 2 \<in> fst ` set (rows_read quiet_env (Some 4) (known_system quiet_env (Some mara_card)) [hello_row 1, hello_row 2])
   \<or> cr_revision (hello_row 2) = 5"
  using extraction_reads_before_checkpoint [OF quiet_extraction, of "hello_row 2"] by (simp add: hello_row_def)

theorem automatic_run_progress_witness:
  "\<exists>cp db'. automatic_run quiet_env open_access (\<lambda>n. ''n'') ''t'' ''u'' ''c'' ''mara'' mara_card [hello_row 1, hello_row 2]
       (4, \<lparr> db_memories = [], db_revision = 5 \<rparr>) = (Inr (), cp, db') \<and> length (pending_all cp [hello_row 1, hello_row 2]) < 1"
proof -
  let ?run = "automatic_run quiet_env open_access (\<lambda>n. ''n'') ''t'' ''u'' ''c'' ''mara'' mara_card [hello_row 1, hello_row 2]
       (4, \<lparr> db_memories = [], db_revision = 5 \<rparr>)"
  have "fst ?run = Inr ()" by code_simp
  then obtain cp db' where r: "?run = (Inr (), cp, db')" by (metis prod_cases3 fst_conv)
  have "pending_all 4 [hello_row 1, hello_row 2] = [hello_row 2]" by code_simp
  then show ?thesis using automatic_run_progress [OF r] r by auto
qed

end
