(* ===== verification/MemoryRecall.thy ===== *)
theory MemoryRecall
  imports MemoryStore "HOL-Library.Char_ord" "HOL-Library.List_Lexorder"
begin

text \<open>
  Recalling memories for a reply (\<^verbatim>\<open>fts_query\<close>, \<^verbatim>\<open>relevant_memories\<close> and \<^verbatim>\<open>memory_prompt\<close> of
  \<^verbatim>\<open>chatty-broker/src/systems/memory.rs\<close>).  The database's full text search and the order of its rows are
  arguments, as is the order in which equal scores leave the hash map and its tie break by time.  The
  update of the access counters is not modelled: nothing reads them.
\<close>

section \<open>The search query\<close>

definition quote_word :: "string \<Rightarrow> string" where
  "quote_word w = [CHR 0x22] @ concat (map (\<lambda>c. if c = CHR 0x22 then [c, c] else [c]) w) @ [CHR 0x22]"

definition fts_words :: "(string \<Rightarrow> bool) \<Rightarrow> string \<Rightarrow> string list" where
  "fts_words al v = filter (\<lambda>w. 3 \<le> length (chars w)) (split_runs (\<lambda>c. \<not> al c) (chars v) [])"

definition fts_query :: "(string \<Rightarrow> bool) \<Rightarrow> string \<Rightarrow> string option" where
  "fts_query al v =
     (let words = remdups_adj (sort (take 24 (map quote_word (fts_words al v)))) in
      if words = [] then None else Some (join '' OR '' words))"

section \<open>Scoring\<close>

definition RETRIEVED_MEMORY_CHARS :: nat where "RETRIEVED_MEMORY_CHARS = 6144"

record recall_env =
  re_alnum :: "string \<Rightarrow> bool"
  re_order :: "memory_row list \<Rightarrow> memory_row list"
  re_search :: "string \<Rightarrow> memory_row list \<Rightarrow> memory_row list"
  re_ties :: "(memory_entry \<times> nat) list \<Rightarrow> (memory_entry \<times> nat) list"

definition recallable :: "string \<Rightarrow> string \<Rightarrow> string \<Rightarrow> memory_row \<Rightarrow> bool" where
  "recallable owner conversation character r \<longleftrightarrow>
     (let e = mw_entry r in
      mw_owner r = owner \<and> mw_status r = 0
      \<and> (me_conversation e = None \<or> me_conversation e = Some conversation)
      \<and> (me_character e = None \<or> me_character e = Some character))"

definition static_score :: "memory_entry \<Rightarrow> nat" where
  "static_score e = (if me_pinned e then 100000 else 0) + me_importance e * 100"

definition base_candidates :: "memory_entry list \<Rightarrow> (memory_entry \<times> nat) list" where
  "base_candidates es = map (\<lambda>(rank, e). (e, static_score e + (24 - rank))) (zip [0..<length es] es)"

text \<open>Ranks are below 32, so the relevance stays positive.\<close>

definition add_match :: "nat \<times> memory_entry \<Rightarrow> (memory_entry \<times> nat) list \<Rightarrow> (memory_entry \<times> nat) list" where
  "add_match = (\<lambda>(rank, e) cands.
     (let relevance = 50000 - rank * 100 in
      if list_ex (\<lambda>(c, _). me_id c = me_id e) cands
      then map (\<lambda>(c, score). if me_id c = me_id e then (c, score + relevance) else (c, score)) cands
      else cands @ [(e, relevance + static_score e)]))"

definition candidates ::
  "recall_env \<Rightarrow> string \<Rightarrow> string \<Rightarrow> string \<Rightarrow> string \<Rightarrow> memory_db \<Rightarrow> (memory_entry \<times> nat) list" where
  "candidates en owner conversation character context db =
     (let scope = filter (recallable owner conversation character);
          base = base_candidates (map mw_entry (take 24 (re_order en (scope (db_memories db))))) in
      case fts_query (re_alnum en) context of
        None \<Rightarrow> base
      | Some query \<Rightarrow>
          let ms = map mw_entry (take 32 (scope (re_search en query (db_memories db)))) in
          fold add_match (zip [0..<length ms] ms) base)"

fun pick_memories :: "(memory_entry \<times> nat) list \<Rightarrow> memory_entry list \<Rightarrow> nat \<Rightarrow> memory_entry list" where
  "pick_memories [] selected used = selected"
| "pick_memories ((e, _) # rows) selected used =
     (let n = length (chars (me_content e)) in
      if 10 \<le> length selected \<or> RETRIEVED_MEMORY_CHARS < used + n \<and> \<not> me_pinned e then pick_memories rows selected used
      else pick_memories rows (selected @ [e]) (used + n))"

definition ranked :: "recall_env \<Rightarrow> (memory_entry \<times> nat) list \<Rightarrow> (memory_entry \<times> nat) list" where
  "ranked en cands = sort_key (\<lambda>(_, score). - int score) (re_ties en cands)"

definition relevant_memories ::
  "recall_env \<Rightarrow> string \<Rightarrow> string \<Rightarrow> string \<Rightarrow> string \<Rightarrow> memory_db \<Rightarrow> memory_entry list" where
  "relevant_memories en owner conversation character context db =
     pick_memories (ranked en (candidates en owner conversation character context db)) [] 0"

definition MEMORY_USAGE_INSTRUCTIONS :: string where
  "MEMORY_USAGE_INSTRUCTIONS =
     ''Treat the saved memories below as established long-term context. Apply relevant memories ''
     @ ''naturally in dialogue, decisions, preferences, and continuity, even when the user does not ''
     @ ''repeat them in the current message. Do not contradict them. Do not recite this list, mention ''
     @ ''a memory system, or force an unrelated memory into the response.''"

definition memory_prompt :: "memory_entry list \<Rightarrow> string" where
  "memory_prompt es =
     (if es = [] then ''No applicable saved memories.''
      else MEMORY_USAGE_INSTRUCTIONS @ nl @ ''Saved memories:'' @ nl
        @ join nl (map (\<lambda>e. ''- ['' @ kind_label (me_kind e) @ '', ''
            @ (if me_conversation e = None then ''all conversations'' else ''this conversation'') @ ''] '' @ me_content e) es))"

section \<open>Lemmas\<close>

text \<open>A candidate's score keeps pinned memories above all others.\<close>

definition scored :: "memory_row list \<Rightarrow> nat \<Rightarrow> memory_entry \<times> nat \<Rightarrow> bool" where
  "scored rows extra = (\<lambda>(e, score). e \<in> mw_entry ` set rows \<and> static_score e \<le> score \<and> score \<le> static_score e + extra)"

lemma base_candidates_scored:
  "set es \<subseteq> mw_entry ` set rows \<Longrightarrow> c \<in> set (base_candidates es) \<Longrightarrow> scored rows 24 c"
  by (auto simp: base_candidates_def scored_def dest!: set_zip_rightD)

lemma pick_memories_extends:
  "length selected \<le> 10 \<Longrightarrow> \<exists>ys. pick_memories rows selected used = selected @ ys \<and> length (pick_memories rows selected used) \<le> 10
     \<and> set ys \<subseteq> fst ` set rows"
proof (induction rows arbitrary: selected used)
  case (Cons row rows)
  obtain e s where row: "row = (e, s)" by (cases row)
  show ?case
  proof (cases "10 \<le> length selected \<or> RETRIEVED_MEMORY_CHARS < used + length (chars (me_content e)) \<and> \<not> me_pinned e")
    case True
    then show ?thesis using Cons(1) [OF Cons(2), of used] row by (auto simp: Let_def)
  next
    case False
    then have "length (selected @ [e]) \<le> 10" by simp
    from Cons(1) [OF this, of "used + length (chars (me_content e))"] obtain ys where
      "pick_memories rows (selected @ [e]) (used + length (chars (me_content e))) = (selected @ [e]) @ ys"
      "length (pick_memories rows (selected @ [e]) (used + length (chars (me_content e)))) \<le> 10" "set ys \<subseteq> fst ` set rows" by blast
    then show ?thesis using False row by (intro exI [of _ "e # ys"]) (auto simp: Let_def)
  qed
qed simp

lemma pick_pinned:
  "(e, s) \<in> set rows \<Longrightarrow> me_pinned e \<Longrightarrow> length selected \<le> 10 \<Longrightarrow>
     e \<in> set (pick_memories rows selected used)
     \<or> (\<exists>pre post. rows = pre @ (e, s) # post \<and> length (pick_memories pre selected used) = 10)"
proof (induction rows arbitrary: selected used)
  case (Cons row rows)
  obtain d t where row: "row = (d, t)" by (cases row)
  let ?n = "length (chars (me_content d))"
  let ?skip = "10 \<le> length selected \<or> RETRIEVED_MEMORY_CHARS < used + ?n \<and> \<not> me_pinned d"
  define sel where "sel = (if ?skip then selected else selected @ [d])"
  define u where "u = (if ?skip then used else used + ?n)"
  have step: "pick_memories (row # xs) selected used = pick_memories xs sel u" for xs
    by (auto simp: row sel_def u_def Let_def)
  have len: "length sel \<le> 10" using Cons(4) by (auto simp: sel_def)
  show ?case
  proof (cases "row = (e, s)")
    case True
    show ?thesis
    proof (cases ?skip)
      case skip: True
      then have "length selected = 10" using True Cons(3,4) row by auto
      then have "row # rows = [] @ (e, s) # rows \<and> length (pick_memories [] selected used) = 10" using True by simp
      then show ?thesis by blast
    next
      case False
      then have "e \<in> set sel" using True row by (auto simp: sel_def)
      then show ?thesis unfolding step using pick_memories_extends [OF len, of rows u] by auto
    qed
  next
    case False
    then have "(e, s) \<in> set rows" using Cons(2) by auto
    from Cons(1) [OF this Cons(3) len, of u] show ?thesis
    proof
      assume "\<exists>pre post. rows = pre @ (e, s) # post \<and> length (pick_memories pre sel u) = 10"
      then obtain pre post where "rows = pre @ (e, s) # post" "length (pick_memories pre sel u) = 10" by blast
      then have "row # rows = (row # pre) @ (e, s) # post \<and> length (pick_memories (row # pre) selected used) = 10"
        by (simp add: step [of pre] del: pick_memories.simps)
      then show ?thesis by blast
    qed (simp add: step del: pick_memories.simps)
  qed
qed simp

lemma pick_full: "10 \<le> length selected \<Longrightarrow> pick_memories rows selected used = selected"
  by (induction rows) (auto simp: Let_def)

lemma pick_append: "\<exists>u. pick_memories (pre @ rest) selected used = pick_memories rest (pick_memories pre selected used) u"
proof (induction pre arbitrary: selected used)
  case (Cons c pre)
  obtain d t where c: "c = (d, t)" by (cases c)
  show ?case using Cons [of selected used] Cons [of "selected @ [d]" "used + length (chars (me_content d))"]
    by (simp add: c Let_def)
qed auto

lemma add_match_scored:
  assumes "\<forall>c \<in> set cands. scored rows 24 c \<or> scored rows 50024 c \<and> me_id (fst c) \<in> ids" "e \<in> mw_entry ` set rows" "me_id e \<notin> ids"
  shows "\<forall>c \<in> set (add_match (rank, e) cands). scored rows 24 c \<or> scored rows 50024 c \<and> me_id (fst c) \<in> insert (me_id e) ids"
proof
  fix c assume c: "c \<in> set (add_match (rank, e) cands)"
  show "scored rows 24 c \<or> scored rows 50024 c \<and> me_id (fst c) \<in> insert (me_id e) ids"
  proof (cases "list_ex (\<lambda>(c, _). me_id c = me_id e) cands")
    case True
    then obtain d t where d: "(d, t) \<in> set cands" "c = (if me_id d = me_id e then (d, t + (50000 - rank * 100)) else (d, t))"
      using c by (auto simp: add_match_def Let_def)
    show ?thesis
    proof (cases "me_id d = me_id e")
      case same: True
      then have "scored rows 24 (d, t)" using assms(1,3) d(1) by fastforce
      then have "scored rows 50024 c" using same d(2) by (auto simp: scored_def)
      then show ?thesis using same d(2) by simp
    next
      case False
      then show ?thesis using assms(1) d by auto
    qed
  next
    case False
    then have "c \<in> set cands \<or> c = (e, 50000 - rank * 100 + static_score e)" using c by (auto simp: add_match_def Let_def)
    then show ?thesis using assms(1,2) by (auto simp: scored_def)
  qed
qed

lemma fold_add_match_scored:
  assumes "\<forall>c \<in> set cands. scored rows 24 c \<or> scored rows 50024 c \<and> me_id (fst c) \<in> ids"
    "set es \<subseteq> mw_entry ` set rows" "distinct (map me_id es)" "ids \<inter> me_id ` set es = {}" "length ranks = length es"
  shows "\<forall>c \<in> set (fold add_match (zip ranks es) cands). scored rows 50024 c"
  using assms
proof (induction es arbitrary: ranks cands ids)
  case Nil
  then show ?case by (auto simp: scored_def)
next
  case (Cons e es)
  then obtain r rs where r: "ranks = r # rs" "length rs = length es" by (cases ranks) auto
  have "\<forall>c \<in> set (add_match (r, e) cands). scored rows 24 c \<or> scored rows 50024 c \<and> me_id (fst c) \<in> insert (me_id e) ids"
    by (rule add_match_scored) (use Cons in auto)
  from Cons(1) [OF this] Cons(3-5) r show ?case by auto
qed

lemma split_runs_chars:
  "w \<in> set (split_runs p cs acc) \<Longrightarrow> list_all (\<lambda>c. \<not> p c) xs \<Longrightarrow> acc = concat xs \<Longrightarrow>
     \<exists>ys. w = concat ys \<and> list_all (\<lambda>c. \<not> p c) ys"
proof (induction cs arbitrary: acc xs)
  case (Cons c cs)
  show ?case
  proof (cases "p c")
    case True
    then have "w = acc \<or> w \<in> set (split_runs p cs [])" using Cons(2) by (auto split: if_splits)
    then show ?thesis using Cons(1) [of "[]" "[]"] Cons(3,4) by auto
  next
    case False
    then have "w \<in> set (split_runs p cs (acc @ c))" using Cons(2) by simp
    then show ?thesis using Cons(1) [of "acc @ c" "xs @ [c]"] Cons(3,4) False by simp
  qed
qed (auto split: if_splits)

lemma candidates_scored:
  assumes "ids_distinct db" "\<And>rows. set (re_order en rows) \<subseteq> set rows"
    "\<And>q rows. distinct (map (me_id \<circ> mw_entry) rows) \<Longrightarrow> distinct (map (me_id \<circ> mw_entry) (re_search en q rows))
      \<and> set (re_search en q rows) \<subseteq> set rows"
  shows "\<forall>c \<in> set (candidates en owner conversation character context db).
    scored (filter (recallable owner conversation character) (db_memories db)) 50024 c"
proof -
  let ?rows = "filter (recallable owner conversation character) (db_memories db)"
  let ?es = "map mw_entry (take 24 (re_order en ?rows))"
  have "set ?es \<subseteq> mw_entry ` set ?rows" using assms(2) [of ?rows] by (auto dest!: in_set_takeD)
  then have base: "\<forall>c \<in> set (base_candidates ?es). scored ?rows 24 c" using base_candidates_scored by blast
  show ?thesis
  proof (cases "fts_query (re_alnum en) context")
    case None
    then show ?thesis using base by (auto simp: candidates_def scored_def)
  next
    case (Some q)
    let ?found = "take 32 (filter (recallable owner conversation character) (re_search en q (db_memories db)))"
    have S: "distinct (map (me_id \<circ> mw_entry) (re_search en q (db_memories db)))" "set (re_search en q (db_memories db)) \<subseteq> set (db_memories db)"
      using assms(1,3) by (auto simp: ids_distinct_def)
    have "set (map mw_entry ?found) \<subseteq> mw_entry ` set ?rows" using S(2) by (auto dest!: in_set_takeD)
    moreover have "distinct (map me_id (map mw_entry ?found))"
      using S(1) by (simp add: take_map [symmetric] distinct_map_filter)
    ultimately have "\<forall>c \<in> set (fold add_match (zip [0..<length (map mw_entry ?found)] (map mw_entry ?found)) (base_candidates ?es)).
        scored ?rows 50024 c"
      using base by (intro fold_add_match_scored [where ids = "{}"]) simp_all
    then show ?thesis by (simp add: candidates_def Some Let_def)
  qed
qed

text \<open>The search query is a list of quoted words joined by \<open>OR\<close>; the message cannot add search syntax.\<close>

lemma fts_query_shape:
  assumes "fts_query al v = Some q" "\<And>c. al c \<Longrightarrow> CHR 0x22 \<notin> set c"
  shows "\<exists>ws. q = join '' OR '' (map (\<lambda>w. [CHR 0x22] @ w @ [CHR 0x22]) ws) \<and> ws \<noteq> [] \<and> length ws \<le> 24
    \<and> (\<forall>w \<in> set ws. CHR 0x22 \<notin> set w)"
proof -
  let ?qs = "take 24 (map quote_word (fts_words al v))"
  have plain: "CHR 0x22 \<notin> set w" if "w \<in> set (fts_words al v)" for w
  proof -
    have "w \<in> set (split_runs (\<lambda>c. \<not> al c) (chars v) [])" using that by (simp add: fts_words_def)
    from split_runs_chars [OF this, of "[]"] obtain ys where "w = concat ys" "list_all al ys" by auto
    then show ?thesis using assms(2) by (auto simp: list_all_iff)
  qed
  have quote: "quote_word w = [CHR 0x22] @ w @ [CHR 0x22]" if "CHR 0x22 \<notin> set w" for w
  proof -
    have "concat (map (\<lambda>c. if c = CHR 0x22 then [c, c] else [c]) w) = w" using that by (induction w) auto
    then show ?thesis by (simp add: quote_word_def)
  qed
  let ?out = "remdups_adj (sort ?qs)"
  have q: "q = join '' OR '' ?out" "?out \<noteq> []" using assms(1) by (auto simp: fts_query_def Let_def split: if_splits)
  have mem: "\<exists>w. x = [CHR 0x22] @ w @ [CHR 0x22] \<and> CHR 0x22 \<notin> set w" if "x \<in> set ?out" for x
    using that plain quote by (fastforce dest!: in_set_takeD)
  define unq where "unq x = (SOME w. x = [CHR 0x22] @ w @ [CHR 0x22] \<and> CHR 0x22 \<notin> set w)" for x :: string
  have unq: "x = [CHR 0x22] @ unq x @ [CHR 0x22] \<and> CHR 0x22 \<notin> set (unq x)" if "x \<in> set ?out" for x
    unfolding unq_def using mem [OF that] by (rule someI_ex)
  have "map (\<lambda>w. [CHR 0x22] @ w @ [CHR 0x22]) (map unq ?out) = ?out"
    unfolding map_map by (rule map_idI) (use unq in auto)
  moreover have "length ?out \<le> 24" using remdups_adj_length [of "sort ?qs"] by simp
  ultimately show ?thesis using q unq by (intro exI [of _ "map unq ?out"]) auto
qed

section \<open>Properties\<close>

text \<open>C39: What a reply may recall: at most ten memories, each active, of the owner, and of this conversation
  or character or of none; and pinned ones come first: a pinned candidate is left out only when ten
  pinned ones were chosen before it, whatever the search and the importance of the others.\<close>

theorem recall_scope_and_pins:
  assumes "ids_distinct db" "\<And>rows. set (re_order en rows) \<subseteq> set rows"
    "\<And>q rows. distinct (map (me_id \<circ> mw_entry) rows) \<Longrightarrow> distinct (map (me_id \<circ> mw_entry) (re_search en q rows))
      \<and> set (re_search en q rows) \<subseteq> set rows"
    "\<And>cs. set (re_ties en cs) = set cs" "\<And>r. r \<in> set (db_memories db) \<Longrightarrow> me_importance (mw_entry r) \<le> 255"
  shows "length (relevant_memories en owner conversation character context db) \<le> 10
    \<and> (\<forall>e \<in> set (relevant_memories en owner conversation character context db).
         \<exists>r \<in> set (db_memories db). recallable owner conversation character r \<and> mw_entry r = e)
    \<and> (\<forall>(e, s) \<in> set (candidates en owner conversation character context db). me_pinned e \<longrightarrow>
         e \<in> set (relevant_memories en owner conversation character context db)
         \<or> length (relevant_memories en owner conversation character context db) = 10
           \<and> (\<forall>d \<in> set (relevant_memories en owner conversation character context db). me_pinned d))"
proof -
  let ?cs = "candidates en owner conversation character context db"
  let ?rk = "ranked en ?cs"
  have rk: "set ?rk = set ?cs" by (simp add: ranked_def assms(4))
  have scored: "scored (filter (recallable owner conversation character) (db_memories db)) 50024 c" if "c \<in> set ?rk" for c
    using candidates_scored [of db en] assms(1-3) that rk by blast
  obtain ys where ys: "pick_memories ?rk [] 0 = ys" "length ys \<le> 10" "set ys \<subseteq> fst ` set ?rk"
    using pick_memories_extends [of "[]" ?rk 0] by auto
  have scope: "\<exists>r \<in> set (db_memories db). recallable owner conversation character r \<and> mw_entry r = e" if "e \<in> set ys" for e
    using that ys(3) scored by (fastforce simp: scored_def)
  have "e \<in> set ys \<or> length ys = 10 \<and> (\<forall>d \<in> set ys. me_pinned d)" if es: "(e, s) \<in> set ?cs" "me_pinned e" for e s
    using pick_pinned [of e s ?rk "[]" 0]
  proof -
    assume "(e, s) \<in> set ?rk \<Longrightarrow> me_pinned e \<Longrightarrow> length [] \<le> 10 \<Longrightarrow> e \<in> set (pick_memories ?rk [] 0)
      \<or> (\<exists>pre post. ?rk = pre @ (e, s) # post \<and> length (pick_memories pre [] 0) = 10)"
    then consider "e \<in> set ys" | pre post where "?rk = pre @ (e, s) # post" "length (pick_memories pre [] 0) = 10"
      using es rk ys(1) by auto
    then show ?thesis
    proof cases
      case 2
      have sorted: "sorted_wrt (\<lambda>a b. snd b \<le> snd a) ?rk"
        using sorted_sort_key [of "\<lambda>(_, score). - int score" "re_ties en ?cs"]
        by (simp add: ranked_def sorted_wrt_map case_prod_beta)
      have pinned: "me_pinned (fst c)" if c: "c \<in> set pre" for c
      proof (rule ccontr)
        assume unp: "\<not> me_pinned (fst c)"
        have "s \<le> snd c" using sorted c unfolding 2(1) by (auto simp: sorted_wrt_append)
        moreover have "100000 \<le> s" using scored [of "(e, s)"] es rk by (auto simp: scored_def static_score_def)
        moreover have "c \<in> set ?rk" using c by (simp add: 2(1))
        from scored [OF this] have "fst c \<in> mw_entry ` set (db_memories db)" "snd c \<le> static_score (fst c) + 50024"
          by (auto simp: scored_def)
        then have "snd c \<le> 255 * 100 + 50024" using assms(5) unp by (force simp: static_score_def)
        ultimately show False by simp
      qed
      have "pick_memories ?rk [] 0 = pick_memories pre [] 0"
        using pick_append [of pre "(e, s) # post" "[]" 0] pick_full [of "pick_memories pre [] 0"] 2 by force
      then have "ys = pick_memories pre [] 0" using ys(1) by simp
      moreover have "set (pick_memories pre [] 0) \<subseteq> fst ` set pre" using pick_memories_extends [of "[]" pre 0] by auto
      ultimately show ?thesis using 2(2) pinned by auto
    qed simp
  qed
  then show ?thesis using ys scope by (auto simp: relevant_memories_def)
qed

section \<open>Witness\<close>

definition plain_recall :: recall_env where
  "plain_recall = \<lparr> re_alnum = (\<lambda>c. c \<notin> {'' '', ''!''}), re_order = (\<lambda>rows. rows), re_search = (\<lambda>q rows. rows), re_ties = (\<lambda>cs. cs) \<rparr>"

definition star :: "string \<Rightarrow> bool \<Rightarrow> nat \<Rightarrow> memory_row" where
  "star i pinned importance = \<lparr> mw_owner = ''u'', mw_status = 0, mw_entry =
     \<lparr> me_id = i, me_conversation = None, me_character = Some ''mara'', me_kind = Fact, me_content = ''Stars'', me_importance = importance,
       me_pinned = pinned, me_confidence = 1, me_source = Manual, me_source_ids = [], me_created = [], me_updated = [], me_revision = 1 \<rparr> \<rparr>"

definition star_db :: memory_db where
  "star_db = \<lparr> db_memories = [star ''a'' False 100, star ''b'' True 1], db_revision = 2 \<rparr>"

theorem recall_scope_and_pins_witness:
  "length (relevant_memories plain_recall ''u'' ''c'' ''mara'' ''the stars!'' star_db) \<le> 10
   \<and> mw_entry (star ''b'' True 1) \<in> set (relevant_memories plain_recall ''u'' ''c'' ''mara'' ''the stars!'' star_db)"
proof -
  have c: "candidates plain_recall ''u'' ''c'' ''mara'' ''the stars!'' star_db
    = [(mw_entry (star ''a'' False 100), 60024), (mw_entry (star ''b'' True 1), 150023)]"
    by code_simp
  have short: "length (relevant_memories plain_recall ''u'' ''c'' ''mara'' ''the stars!'' star_db) \<noteq> 10" by code_simp
  have d: "ids_distinct star_db" by (simp add: ids_distinct_def star_db_def star_def)
  have or: "set (re_order plain_recall rows) \<subseteq> set rows" and ti: "set (re_ties plain_recall cs) = set cs" for rows cs
    by (simp_all add: plain_recall_def)
  have se: "distinct (map (me_id \<circ> mw_entry) (re_search plain_recall q rows)) \<and> set (re_search plain_recall q rows) \<subseteq> set rows"
    if "distinct (map (me_id \<circ> mw_entry) rows)" for q rows using that by (simp add: plain_recall_def)
  have im: "me_importance (mw_entry r) \<le> 255" if "r \<in> set (db_memories star_db)" for r
    using that by (auto simp: star_db_def star_def)
  have "length (relevant_memories plain_recall ''u'' ''c'' ''mara'' ''the stars!'' star_db) \<le> 10
    \<and> (\<forall>(e, s) \<in> set (candidates plain_recall ''u'' ''c'' ''mara'' ''the stars!'' star_db). me_pinned e \<longrightarrow>
         e \<in> set (relevant_memories plain_recall ''u'' ''c'' ''mara'' ''the stars!'' star_db)
         \<or> length (relevant_memories plain_recall ''u'' ''c'' ''mara'' ''the stars!'' star_db) = 10)"
    using recall_scope_and_pins [OF d or se ti im, of "''u''" "''c''" "''mara''" "''the stars!''"] by blast
  then show ?thesis using short unfolding c by (simp add: star_def)
qed

end
