(* ===== verification/MemoryJobs.thy ===== *)
theory MemoryJobs
  imports Main
begin

text \<open>
  Scheduling of automatic memory extraction (\<^verbatim>\<open>schedule_automatic_memory\<close> and \<^verbatim>\<open>wait_for_quiet_chat\<close> of
  \<^verbatim>\<open>chatty-broker/src/systems/inference.rs\<close>): a map of jobs behind a lock and one background task per
  conversation.  Each step is what happens under one hold of the lock, or the start of an extraction;
  steps of all conversations and new replies interleave freely.
\<close>

section \<open>State\<close>

type_synonym job_key = "string \<times> string"

text \<open>Where a task is: at the head of its loop, in the wait with so many rounds left, about to extract, or
  extracting.\<close>

datatype phase = Starting | Waiting nat | About | Extracting

definition MEMORY_SWAP_MAX_DEFERRALS :: nat where "MEMORY_SWAP_MAX_DEFERRALS = 6"

text \<open>\<open>mj_unread\<close> records the conversations with a reply that came after their last extraction began, and
  \<open>mj_started\<close> the extractions that began; the code has neither.\<close>

record memory_jobs =
  mj_jobs :: "job_key \<Rightarrow> string option option"
  mj_tasks :: "job_key \<Rightarrow> (phase \<times> string) option"
  mj_unread :: "job_key set"
  mj_started :: "(job_key \<times> string) list"

definition jobs_new :: memory_jobs where
  "jobs_new = \<lparr> mj_jobs = (\<lambda>_. None), mj_tasks = (\<lambda>_. None), mj_unread = {}, mj_started = [] \<rparr>"

section \<open>Steps\<close>

definition schedule_automatic_memory :: "job_key \<Rightarrow> string \<Rightarrow> memory_jobs \<Rightarrow> memory_jobs" where
  "schedule_automatic_memory key character s =
     (let s = s\<lparr> mj_unread := insert key (mj_unread s) \<rparr> in
      case mj_jobs s key of
        Some _ \<Rightarrow> s\<lparr> mj_jobs := (mj_jobs s)(key := Some (Some character)) \<rparr>
      | None \<Rightarrow> s\<lparr> mj_jobs := (mj_jobs s)(key := Some None), mj_tasks := (mj_tasks s)(key := Some (Starting, character)) \<rparr>)"

definition set_task :: "job_key \<Rightarrow> phase \<Rightarrow> string \<Rightarrow> memory_jobs \<Rightarrow> memory_jobs" where
  "set_task key ph character s = s\<lparr> mj_tasks := (mj_tasks s)(key := Some (ph, character)) \<rparr>"

text \<open>\<^verbatim>\<open>get_mut(&key).and_then(Option::take)\<close>\<close>

definition take_follow_up :: "job_key \<Rightarrow> memory_jobs \<Rightarrow> string option \<times> memory_jobs" where
  "take_follow_up key s =
     (case mj_jobs s key of
        Some (Some c) \<Rightarrow> (Some c, s\<lparr> mj_jobs := (mj_jobs s)(key := Some None) \<rparr>)
      | _ \<Rightarrow> (None, s))"

definition loop_head :: "job_key \<Rightarrow> bool \<Rightarrow> string \<Rightarrow> memory_jobs \<Rightarrow> memory_jobs" where
  "loop_head key swaps_model character s =
     set_task key (if swaps_model then Waiting MEMORY_SWAP_MAX_DEFERRALS else About) character s"

definition wait_round :: "job_key \<Rightarrow> nat \<Rightarrow> string \<Rightarrow> memory_jobs \<Rightarrow> memory_jobs" where
  "wait_round key n character s =
     (case take_follow_up key s of
        (Some c, s) \<Rightarrow> set_task key (if n \<le> 1 then About else Waiting (n - 1)) c s
      | (None, s) \<Rightarrow> set_task key About character s)"

definition begin_extraction :: "job_key \<Rightarrow> string \<Rightarrow> memory_jobs \<Rightarrow> memory_jobs" where
  "begin_extraction key character s =
     (set_task key Extracting character s)\<lparr> mj_unread := mj_unread s - {key}, mj_started := mj_started s @ [(key, character)] \<rparr>"

definition end_extraction :: "job_key \<Rightarrow> memory_jobs \<Rightarrow> memory_jobs" where
  "end_extraction key s =
     (case take_follow_up key s of
        (Some c, s) \<Rightarrow> set_task key Starting c s
      | (None, s) \<Rightarrow> s\<lparr> mj_jobs := (mj_jobs s)(key := None), mj_tasks := (mj_tasks s)(key := None) \<rparr>)"

text \<open>The next step of a task; \<open>swaps\<close> is what the configuration says at the head of the loop.\<close>

definition task_step :: "bool \<Rightarrow> job_key \<Rightarrow> memory_jobs \<Rightarrow> memory_jobs" where
  "task_step swaps key s =
     (case mj_tasks s key of
        None \<Rightarrow> s
      | Some (Starting, c) \<Rightarrow> loop_head key swaps c s
      | Some (Waiting n, c) \<Rightarrow> wait_round key n c s
      | Some (About, c) \<Rightarrow> begin_extraction key c s
      | Some (Extracting, c) \<Rightarrow> end_extraction key s)"

datatype job_event = Reply job_key string | Task job_key bool

fun job_step :: "job_event \<Rightarrow> memory_jobs \<Rightarrow> memory_jobs" where
  "job_step (Reply key c) s = schedule_automatic_memory key c s"
| "job_step (Task key swaps) s = task_step swaps key s"

inductive jobs_reachable :: "memory_jobs \<Rightarrow> bool" where
  init: "jobs_reachable jobs_new"
| step: "jobs_reachable s \<Longrightarrow> jobs_reachable (job_step ev s)"

section \<open>Invariant\<close>

definition will_extract :: "job_key \<Rightarrow> memory_jobs \<Rightarrow> bool" where
  "will_extract key s \<longleftrightarrow>
     (case mj_tasks s key of
        None \<Rightarrow> False
      | Some (ph, _) \<Rightarrow> ph \<noteq> Extracting \<or> (\<exists>c. mj_jobs s key = Some (Some c)))"

definition job_inv :: "job_key \<Rightarrow> memory_jobs \<Rightarrow> bool" where
  "job_inv key s \<longleftrightarrow> (mj_jobs s key = None \<longleftrightarrow> mj_tasks s key = None)
     \<and> (key \<in> mj_unread s \<longrightarrow> will_extract key s)
     \<and> (\<forall>n c. mj_tasks s key = Some (Waiting n, c) \<longrightarrow> 0 < n \<and> n \<le> MEMORY_SWAP_MAX_DEFERRALS)"

lemmas job_defs = schedule_automatic_memory_def task_step_def set_task_def take_follow_up_def loop_head_def wait_round_def
  begin_extraction_def end_extraction_def will_extract_def Let_def MEMORY_SWAP_MAX_DEFERRALS_def

text \<open>A step of one conversation leaves the others alone.\<close>

lemma step_other:
  assumes "k \<noteq> key"
  shows "mj_jobs (task_step swaps key s) k = mj_jobs s k" "mj_tasks (task_step swaps key s) k = mj_tasks s k"
    "k \<in> mj_unread (task_step swaps key s) \<longleftrightarrow> k \<in> mj_unread s"
    "mj_jobs (schedule_automatic_memory key c s) k = mj_jobs s k" "mj_tasks (schedule_automatic_memory key c s) k = mj_tasks s k"
    "k \<in> mj_unread (schedule_automatic_memory key c s) \<longleftrightarrow> k \<in> mj_unread s"
  using assms by (auto simp: job_defs split: option.splits prod.splits phase.splits)

lemma job_inv_other:
  "k \<noteq> key \<Longrightarrow> job_inv k (task_step swaps key s) = job_inv k s"
  "k \<noteq> key \<Longrightarrow> job_inv k (schedule_automatic_memory key c s) = job_inv k s"
  unfolding job_inv_def will_extract_def by (simp_all add: step_other split: option.split)

lemma reply_inv: "job_inv key s \<Longrightarrow> job_inv key (schedule_automatic_memory key c s)"
  by (cases "mj_jobs s key") (auto simp: job_inv_def job_defs split: option.splits prod.splits)

lemma task_inv:
  assumes "job_inv key s"
  shows "job_inv key (task_step swaps key s)"
proof (cases "mj_tasks s key")
  case (Some t)
  obtain ph c where t: "t = (ph, c)" by (cases t)
  consider "mj_jobs s key = Some None" | d where "mj_jobs s key = Some (Some d)"
    using assms Some by (cases "mj_jobs s key") (auto simp: job_inv_def)
  then show ?thesis
    using assms Some t by cases (cases ph; auto simp: job_inv_def job_defs)+
qed (use assms in \<open>simp add: task_step_def\<close>)

lemma jobs_reachable_inv: "jobs_reachable s \<Longrightarrow> job_inv key s"
proof (induction rule: jobs_reachable.induct)
  case (step s ev)
  show ?case
  proof (cases ev)
    case (Reply k c)
    then show ?thesis using step reply_inv [of key s c] job_inv_other(2) [of key k c s] by (cases "k = key") simp_all
  next
    case (Task k b)
    then show ?thesis using step task_inv [of key s b] job_inv_other(1) [of key k b s] by (cases "k = key") simp_all
  qed
qed (simp add: job_inv_def jobs_new_def)

text \<open>How many steps a task may take before it extracts.\<close>

fun steps_left :: "phase \<Rightarrow> nat" where
  "steps_left Starting = MEMORY_SWAP_MAX_DEFERRALS + 2"
| "steps_left (Waiting n) = n + 1"
| "steps_left About = 1"
| "steps_left Extracting = 0"

definition task_rank :: "job_key \<Rightarrow> memory_jobs \<Rightarrow> nat" where
  "task_rank key s = (case mj_tasks s key of None \<Rightarrow> 0 | Some (ph, _) \<Rightarrow> steps_left ph)"

section \<open>Properties\<close>


text \<open>Waiting for a quiet chat is bounded: every step of a task that has not begun to extract brings it
  closer, no reply and no other task sets it back, and it is at most eight steps away.\<close>

theorem extraction_begins_soon:
  assumes "jobs_reachable s" "mj_tasks s key = Some (ph, c)" "ph \<noteq> Extracting"
  shows "task_rank key (task_step swaps key s) < task_rank key s \<and> task_rank key s \<le> 8
    \<and> (\<forall>ev. (\<forall>b. ev \<noteq> Task key b) \<longrightarrow> task_rank key (job_step ev s) = task_rank key s)"
proof -
  have inv: "mj_jobs s key \<noteq> None" "ph = Waiting n \<Longrightarrow> 0 < n \<and> n \<le> 6" for n
    using jobs_reachable_inv [OF assms(1), of key] assms(2) by (auto simp: job_inv_def MEMORY_SWAP_MAX_DEFERRALS_def)
  have "task_rank key (task_step swaps key s) < task_rank key s \<and> task_rank key s \<le> 8"
    using assms(2,3) inv by (cases ph) (auto simp: job_defs task_rank_def split: option.splits prod.splits)
  moreover have "task_rank key (job_step ev s) = task_rank key s" if "\<forall>b. ev \<noteq> Task key b" for ev
  proof (cases ev)
    case (Reply k d)
    then show ?thesis using inv(1) by (auto simp: job_defs task_rank_def split: option.splits)
  next
    case (Task k b)
    then have "k \<noteq> key" using that by blast
    then show ?thesis using Task step_other(2) [of key k b s] by (simp add: task_rank_def)
  qed
  ultimately show ?thesis by blast
qed

section \<open>Witnesses\<close>

definition chat_key :: job_key where "chat_key = (''u'', ''chat'')"

text \<open>A second reply arrives while the first is being extracted.\<close>

definition busy_jobs :: memory_jobs where
  "busy_jobs = job_step (Reply chat_key ''bob'') (job_step (Task chat_key False) (job_step (Task chat_key False)
     (job_step (Reply chat_key ''ann'') jobs_new)))"


lemmas busy_simps = busy_jobs_def jobs_new_def chat_key_def job_defs


theorem extraction_begins_soon_witness:
  "task_rank chat_key (task_step True chat_key (job_step (Reply chat_key ''ann'') jobs_new)) < 8"
proof -
  let ?s = "job_step (Reply chat_key ''ann'') jobs_new"
  have r: "jobs_reachable ?s" by (intro jobs_reachable.intros)
  have t: "mj_tasks ?s chat_key = Some (Starting, ''ann'')" by (simp add: busy_simps)
  show ?thesis using extraction_begins_soon [OF r t, of True] by simp
qed

end
