(* ===== verification/World.thy ===== *)
theory World
  imports RustStr "HOL-Library.Sublist" "HOL-Library.Char_ord" "HOL-Library.List_Lexorder"
begin

text \<open>
  Roleplay worlds (\<^verbatim>\<open>chatty-protocol/src/world.rs\<close>): the limits of a stored world and the selection of its
  facts for a prompt.  Unicode lower casing is an argument.
\<close>

section \<open>Worlds\<close>

record world_fact =
  wf_title :: string
  wf_content :: string
  wf_keywords :: "string list"
  wf_common :: bool
  wf_enabled :: bool
  wf_priority :: int

record world =
  wo_id :: string
  wo_name :: string
  wo_characters :: "string list"
  wo_entries :: "world_fact list"

definition fact_invalid :: "world_fact \<Rightarrow> bool" where
  "fact_invalid f \<longleftrightarrow>
     trim (wf_title f) = [] \<or> 256 < length (wf_title f)
     \<or> trim (wf_content f) = [] \<or> 16384 < length (wf_content f)
     \<or> 64 < length (wf_keywords f)
     \<or> list_ex (\<lambda>k. trim k = [] \<or> 256 < length k) (wf_keywords f)
     \<or> (\<not> wf_common f \<and> wf_enabled f \<and> wf_keywords f = [])"

definition world_validate :: "world \<Rightarrow> string + unit" where
  "world_validate w =
     (if 128 < length (wo_id w) \<or> trim (wo_name w) = [] \<or> 256 < length (wo_name w)
         \<or> 128 < length (wo_characters w) \<or> 256 < length (wo_entries w)
      then Inl ''World name or size invalid''
      else if list_ex fact_invalid (wo_entries w)
      then Inl ''Each fact needs a title, content, and keywords unless it is common knowledge''
      else Inr ())"

section \<open>Selection\<close>

definition fact_active :: "(string \<Rightarrow> string) \<Rightarrow> string \<Rightarrow> world_fact \<Rightarrow> bool" where
  "fact_active lower recent f \<longleftrightarrow>
     wf_enabled f \<and> (wf_common f \<or> list_ex (\<lambda>k. let key = lower (trim k) in key \<noteq> [] \<and> contains key recent) (wf_keywords f))"

definition active_facts :: "(string \<Rightarrow> string) \<Rightarrow> world list \<Rightarrow> string \<Rightarrow> string \<Rightarrow> (world \<times> world_fact) list" where
  "active_facts lower worlds speaker recent =
     concat (map (\<lambda>w. map (Pair w) (filter (fact_active lower recent) (wo_entries w)))
       (filter (\<lambda>w. list_ex (\<lambda>i. i = speaker) (wo_characters w)) worlds))"

text \<open>The stable sort by common knowledge, descending priority and id, as three stable sorts.\<close>

definition ranked_facts :: "(world \<times> world_fact) list \<Rightarrow> (world \<times> world_fact) list" where
  "ranked_facts fs =
     sort_key (\<lambda>(w, f). \<not> wf_common f) (sort_key (\<lambda>(w, f). - wf_priority f) (sort_key (\<lambda>(w, f). wo_id w) fs))"

definition fact_text :: "world \<times> world_fact \<Rightarrow> string" where
  "fact_text = (\<lambda>(w, f).
     ''['' @ wo_name w @ '' / '' @ (if wf_common f then ''Common knowledge'' else ''Scene lore'') @ '' / '' @ wf_title f @ '']'' @ nl
     @ wf_content f @ nl)"

definition add_fact :: "nat \<Rightarrow> world \<times> world_fact \<Rightarrow> string \<Rightarrow> string" where
  "add_fact budget entry out = (if length out + length (fact_text entry) \<le> budget then out @ fact_text entry else out)"

definition select_world_context :: "(string \<Rightarrow> string) \<Rightarrow> world list \<Rightarrow> string \<Rightarrow> string \<Rightarrow> nat \<Rightarrow> string" where
  "select_world_context lower worlds speaker recent budget =
     fold (add_fact budget) (ranked_facts (active_facts lower worlds speaker (lower recent))) []"

section \<open>Lemmas\<close>

fun chosen :: "nat \<Rightarrow> nat \<Rightarrow> (world \<times> world_fact) list \<Rightarrow> (world \<times> world_fact) list" where
  "chosen budget used [] = []"
| "chosen budget used (entry # fs) =
     (if used + length (fact_text entry) \<le> budget then entry # chosen budget (used + length (fact_text entry)) fs
      else chosen budget used fs)"

lemma fold_add_fact: "fold (add_fact budget) fs out = out @ concat (map fact_text (chosen budget (length out) fs))"
  by (induction fs arbitrary: out) (auto simp: add_fact_def)

lemma chosen_subseq: "subseq (chosen budget used fs) fs"
  by (induction budget used fs rule: chosen.induct) auto

lemma chosen_fits: "used \<le> budget \<Longrightarrow> used + length (concat (map fact_text (chosen budget used fs))) \<le> budget"
  by (induction budget used fs rule: chosen.induct) auto

lemma chosen_all:
  "used + length (concat (map fact_text fs)) \<le> budget \<Longrightarrow> chosen budget used (fs @ gs) = fs @ chosen budget (used + length (concat (map fact_text fs))) gs"
  by (induction fs arbitrary: used) (auto simp: add.assoc)

lemma set_ranked [simp]: "set (ranked_facts fs) = set fs"
  by (simp add: ranked_facts_def)

lemma ranked_common_first:
  "ranked_facts fs = filter (wf_common \<circ> snd) (ranked_facts fs) @ filter (\<lambda>x. \<not> wf_common (snd x)) (ranked_facts fs)"
proof -
  have part: "xs = filter P xs @ filter (\<lambda>x. \<not> P x) xs" if "sorted (map (\<lambda>x. \<not> P x) xs)" for P and xs :: "(world \<times> world_fact) list"
    using that
  proof (induction xs)
    case (Cons x xs)
    then show ?case
    proof (cases "P x")
      case False
      then have "\<forall>y \<in> set xs. \<not> P y" using Cons(2) by auto
      then show ?thesis using False by (auto simp: filter_empty_conv filter_id_conv)
    qed auto
  qed simp
  have "sorted (map (\<lambda>x. \<not> (wf_common \<circ> snd) x) (ranked_facts fs))"
  proof -
    have key: "(\<lambda>(w :: world, f :: world_fact). \<not> wf_common f) = (\<lambda>x. \<not> (wf_common \<circ> snd) x)" by auto
    show ?thesis unfolding ranked_facts_def key by (rule sorted_sort_key)
  qed
  from part [OF this] show ?thesis by (simp add: comp_def)
qed

lemma active_factsD:
  "(w, f) \<in> set (active_facts lower worlds speaker recent) \<longleftrightarrow>
     w \<in> set worlds \<and> speaker \<in> set (wo_characters w) \<and> f \<in> set (wo_entries w) \<and> fact_active lower recent f"
  by (auto simp: active_facts_def list_ex_iff)

section \<open>Properties\<close>

text \<open>C22: The lore of a prompt never exceeds its budget and consists of whole facts, each enabled, of a world
  of the speaker, and either common knowledge or triggered by the recent dialogue; when the common
  knowledge fits, all of it is there, before any scene lore.\<close>

theorem world_context_ok:
  shows "\<exists>fs. select_world_context lower worlds speaker recent budget = concat (map fact_text fs)
    \<and> length (concat (map fact_text fs)) \<le> budget
    \<and> subseq fs (ranked_facts (active_facts lower worlds speaker (lower recent)))
    \<and> (\<forall>(w, f) \<in> set fs. w \<in> set worlds \<and> speaker \<in> set (wo_characters w) \<and> f \<in> set (wo_entries w) \<and> fact_active lower (lower recent) f)
    \<and> (length (concat (map fact_text (filter (wf_common \<circ> snd) (ranked_facts (active_facts lower worlds speaker (lower recent)))))) \<le> budget
       \<longrightarrow> prefix (filter (wf_common \<circ> snd) (ranked_facts (active_facts lower worlds speaker (lower recent)))) fs)"
proof -
  let ?r = "ranked_facts (active_facts lower worlds speaker (lower recent))"
  let ?fs = "chosen budget 0 ?r"
  have "select_world_context lower worlds speaker recent budget = concat (map fact_text ?fs)"
    by (simp add: select_world_context_def fold_add_fact)
  moreover have "length (concat (map fact_text ?fs)) \<le> budget" using chosen_fits [of 0 budget ?r] by simp
  moreover have sub: "subseq ?fs ?r" by (rule chosen_subseq)
  moreover have "\<forall>(w, f) \<in> set ?fs. w \<in> set worlds \<and> speaker \<in> set (wo_characters w) \<and> f \<in> set (wo_entries w) \<and> fact_active lower (lower recent) f"
  proof -
    have "set ?fs \<subseteq> set (active_facts lower worlds speaker (lower recent))"
      using sub list_emb_set [of "(=)" ?fs ?r] by (auto simp del: set_ranked) (metis set_ranked)
    then show ?thesis using active_factsD by fast
  qed
  moreover have "prefix (filter (wf_common \<circ> snd) ?r) ?fs" if "length (concat (map fact_text (filter (wf_common \<circ> snd) ?r))) \<le> budget"
    using chosen_all [of 0 "filter (wf_common \<circ> snd) ?r" budget "filter (\<lambda>x. \<not> wf_common (snd x)) ?r"] that
      ranked_common_first [of "active_facts lower worlds speaker (lower recent)"] by (metis add_0 prefixI)
  ultimately show ?thesis by blast
qed

section \<open>Witnesses\<close>

definition moon_world :: world where
  "moon_world = \<lparr> wo_id = ''w'', wo_name = ''Realm'', wo_characters = [''mara''], wo_entries =
     [\<lparr> wf_title = ''Gate'', wf_content = ''Locked at dusk'', wf_keywords = [''gate''], wf_common = False, wf_enabled = True, wf_priority = 9 \<rparr>,
      \<lparr> wf_title = ''Sky'', wf_content = ''Two moons'', wf_keywords = [], wf_common = True, wf_enabled = True, wf_priority = 0 \<rparr>,
      \<lparr> wf_title = ''Secret'', wf_content = ''Hidden'', wf_keywords = [], wf_common = True, wf_enabled = False, wf_priority = 0 \<rparr>] \<rparr>"

theorem world_context_ok_witness:
  "select_world_context (map ascii_lower) [moon_world] ''mara'' ''The GATE'' 4096
     = ''[Realm / Common knowledge / Sky]'' @ nl @ ''Two moons'' @ nl @ ''[Realm / Scene lore / Gate]'' @ nl @ ''Locked at dusk'' @ nl
   \<and> length (select_world_context (map ascii_lower) [moon_world] ''mara'' ''The GATE'' 4096) \<le> 4096"
proof -
  have "select_world_context (map ascii_lower) [moon_world] ''mara'' ''The GATE'' 4096
     = ''[Realm / Common knowledge / Sky]'' @ nl @ ''Two moons'' @ nl @ ''[Realm / Scene lore / Gate]'' @ nl @ ''Locked at dusk'' @ nl"
    by code_simp
  moreover have "length (select_world_context (map ascii_lower) [moon_world] ''mara'' ''The GATE'' 4096) \<le> 4096"
    using world_context_ok [of "map ascii_lower" "[moon_world]" "''mara''" "''The GATE''" 4096] by (metis (no_types, lifting))
  ultimately show ?thesis by blast
qed

end
