(* ===== verification/Generate.thy ===== *)
theory Generate
  imports Speaker MemoryRecall MemoryJobs Prompt World MetalSession
begin

text \<open>
  Generating a reply (\<^verbatim>\<open>generate\<close> and \<^verbatim>\<open>persist_generation\<close> of
  \<^verbatim>\<open>chatty-broker/src/systems/inference.rs\<close>): the prompt put together from the character speaker_card, the lore, the
  memories and the history, the loop that forwards the model's stream to the client, and the row that is
  saved.  The order in which cancellation, the flush timer and stream items win the \<^verbatim>\<open>select!\<close> is a list of
  events; whether the flush deadline has passed when an item is handled is part of the event.  The
  client's channel takes \<open>room\<close> more frames before it is closed.  Database failures other than the
  code's own checks and the primary key are not modelled.
\<close>

section \<open>Model choice\<close>

definition selected_model :: "broker_config \<Rightarrow> string list \<Rightarrow> string + string" where
  "selected_model config models =
     (if adapter_plugin_id config = ''chatty-metal''
      then (case models of [] \<Rightarrow> Inl ''no model loaded on chatty-metal appliance'' | m # _ \<Rightarrow> Inr m)
      else if cfg_model config = [] then (case models of [] \<Rightarrow> Inl ''no model loaded'' | m # _ \<Rightarrow> Inr m)
      else if list_ex (\<lambda>m. m = cfg_model config) models then Inr (cfg_model config)
      else Inl (''configured model '' @ [CHR 0x27] @ cfg_model config @ [CHR 0x27] @ '' is not installed''))"

definition MEMORY_MODEL_CONTEXT :: nat where "MEMORY_MODEL_CONTEXT = 16384"

definition memory_model :: "broker_config \<Rightarrow> string list \<Rightarrow> string + string \<times> nat" where
  "memory_model config models =
     (if adapter_plugin_id config = ''chatty-metal'' \<or> cfg_memory_model config = []
      then and_then (selected_model config models) (\<lambda>m. Inr (m, unat (cfg_num_ctx config)))
      else if \<not> list_ex (\<lambda>m. m = cfg_memory_model config) models
      then Inl (''configured memory model '' @ [CHR 0x27] @ cfg_memory_model config @ [CHR 0x27] @ '' is not installed'')
      else Inr (cfg_memory_model config, min (unat (cfg_num_ctx config)) MEMORY_MODEL_CONTEXT))"

section \<open>The prompt\<close>

record character_card = participant +
  cc_owner :: string
  cc_system_prompt :: string
  cc_scenario :: string
  cc_age :: string
  cc_gender :: string
  cc_race :: string
  cc_misc :: string
  cc_example :: string
  cc_default_image :: "string option"

record gen_env =
  ge_config :: broker_config
  ge_models :: "string + string list"
  ge_tables :: unicode_tables
  ge_ask :: "string \<Rightarrow> string option"
  ge_cards :: "character_card list"
  ge_history :: "message_row list"
  ge_worlds :: "World.world list"
  ge_state :: string
  ge_summary :: string
  ge_recall :: recall_env
  ge_memories :: memory_db
  ge_images :: "character_card \<Rightarrow> string + string list"

definition immediate_context :: "message_row list \<Rightarrow> string" where
  "immediate_context recent = join nl (map (\<lambda>r. clip (mr_content r) 4096) (take 6 recent))"

definition system_text :: "gen_env \<Rightarrow> character_card \<Rightarrow> string \<Rightarrow> string" where
  "system_text en c world_context =
     clip (cc_system_prompt c) 16384 @ nl @ ''You are '' @ pt_name c @ ''.'' @ nl
     @ ''Description: '' @ clip (pt_description c) 16384 @ nl
     @ ''Personality: '' @ clip (pt_personality c) 16384 @ nl
     @ ''Appearance: '' @ clip (pt_appearance c) 16384 @ nl
     @ ''Age: '' @ clip (cc_age c) 512 @ nl @ ''Gender: '' @ clip (cc_gender c) 512 @ nl
     @ ''Race: '' @ clip (cc_race c) 512 @ nl @ ''Misc: '' @ clip (cc_misc c) 2048 @ nl
     @ ''Scenario: '' @ clip (cc_scenario c) 16384 @ nl
     @ ''Example dialogue:'' @ nl @ clip (cc_example c) 16384 @ nl
     @ group_prompt (map participant.truncate (ge_cards en)) (pt_id c) (pt_name c)
     @ ''World state:'' @ nl @ clip (ge_state en) 32768 @ nl
     @ ''Story summary:'' @ nl @ clip (ge_summary en) 32768 @ nl
     @ ''Lore:'' @ nl @ world_context"

record prepared =
  pp_model :: string
  pp_card :: character_card
  pp_messages :: "adapter_message list"
  pp_tokens :: nat

definition prompt_for :: "gen_env \<Rightarrow> string \<Rightarrow> string \<Rightarrow> character_card \<Rightarrow> prompt_error + adapter_message list" where
  "prompt_for en owner conversation c =
     (let immediate = immediate_context (ge_history en);
          lore = select_world_context (lower (ge_tables en)) (ge_worlds en) (pt_id c) immediate 8192;
          memories = relevant_memories (ge_recall en) owner conversation (pt_id c) immediate (ge_memories en);
          group_speaker = (if 1 < length (ge_cards en) then Some (pt_id c) else None) in
      budget_chat_messages (system_text en c lore) (''Long-term memory:'' @ nl @ memory_prompt memories)
        (map (\<lambda>r. history_message r group_speaker) (ge_history en)) (prompt_input_budget (ge_config en)))"

definition prepare :: "gen_env \<Rightarrow> string \<Rightarrow> string \<Rightarrow> string option \<Rightarrow> conversation \<Rightarrow> (string + prepared) \<times> conversation" where
  "prepare en owner conversation explicit c =
     (case and_then (ge_models en) (selected_model (ge_config en)) of
        Inl e \<Rightarrow> (Inl e, c)
      | Inr model \<Rightarrow>
          (case select_speaker (ge_tables en) (ge_ask en) (ge_history en) explicit (map participant.truncate (ge_cards en)) c of
             (Inl e, c) \<Rightarrow> (Inl e, c)
           | (Inr sid, c) \<Rightarrow>
               (case find (\<lambda>r. pt_id r = sid) (ge_cards en) of
                  None \<Rightarrow> (Inl ''speaker is not a participant'', c)
                | Some speaker_card \<Rightarrow>
                    (case prompt_for en owner conversation speaker_card of
                       Inl _ \<Rightarrow> (Inl ''the latest three messages exceed the admin-configured context window'', c)
                     | Inr ms \<Rightarrow> (Inr \<lparr> pp_model = model, pp_card = speaker_card, pp_messages = ms,
                         pp_tokens = sum_list (map (estimated_message_tokens \<circ> msg_content) ms) \<rparr>, c)))))"

section \<open>Forwarding the stream\<close>

text \<open>\<^verbatim>\<open>context\<close> of the code: prompt tokens, completion tokens and whether they are estimates.\<close>

record gen_context =
  gx_prompt :: nat
  gx_completion :: nat
  gx_estimated :: bool

datatype gen_frame =
    GStarted string string gen_context
  | GThinking string
  | GChunk string nat string
  | GDelta nat
  | GFinished string nat bool gen_context

text \<open>An item that wins the \<^verbatim>\<open>select!\<close>: a cancellation, another change of the cancellation channel, the flush
  timer, a stream item with whether the deadline has passed when it is handled, the end of the stream, or
  its failure.\<close>

datatype gen_event = EvCancel | EvWake | EvTimeout | EvData stream_update bool | EvEnd | EvFail string

record gen_state =
  gs_pending :: string
  gs_complete :: string
  gs_seq :: nat
  gs_thinking :: bool
  gs_prompt :: nat
  gs_completion :: nat
  gs_out :: "gen_frame list"
  gs_room :: nat

definition send_frame :: "gen_frame \<Rightarrow> gen_state \<Rightarrow> (string + unit) \<times> gen_state" where
  "send_frame f s =
     (if gs_room s = 0 then (Inl ''channel closed'', s)
      else (Inr (), s\<lparr> gs_out := gs_out s @ [f], gs_room := gs_room s - 1 \<rparr>))"

definition flush_pending :: "string \<Rightarrow> gen_state \<Rightarrow> (string + unit) \<times> gen_state" where
  "flush_pending mid s =
     (let s = s\<lparr> gs_seq := gs_seq s + 1 \<rparr> in
      send_frame (GChunk mid (gs_seq s) (gs_pending s)) (s\<lparr> gs_pending := [] \<rparr>))"

definition note_thinking :: "string \<Rightarrow> stream_update \<Rightarrow> gen_state \<Rightarrow> (string + unit) \<times> gen_state" where
  "note_thinking mid u s =
     (if su_reasoning u \<and> \<not> gs_thinking s \<and> gs_complete s = []
      then send_frame (GThinking mid) (s\<lparr> gs_thinking := True \<rparr>) else (Inr (), s))"

definition take_update :: "stream_update \<Rightarrow> gen_state \<Rightarrow> gen_state" where
  "take_update u s =
     s\<lparr> gs_pending := gs_pending s @ su_text u, gs_complete := gs_complete s @ su_text u,
        gs_prompt := (case su_prompt_tokens u of Some n \<Rightarrow> n | None \<Rightarrow> gs_prompt s),
        gs_completion := (case su_completion_tokens u of Some n \<Rightarrow> n | None \<Rightarrow> gs_completion s) \<rparr>"

text \<open>The condition that sends a chunk; after the timer the deadline has always passed.\<close>

definition flush_due :: "bool \<Rightarrow> bool \<Rightarrow> gen_state \<Rightarrow> bool" where
  "flush_due late fin s \<longleftrightarrow> gs_pending s \<noteq> [] \<and> (32 \<le> length (split_whitespace (gs_pending s)) \<or> late \<or> fin)"

definition flush_step :: "string \<Rightarrow> bool \<Rightarrow> bool \<Rightarrow> gen_state \<Rightarrow> (string + unit) \<times> gen_state" where
  "flush_step mid late fin s = (if flush_due late fin s then flush_pending mid s else (Inr (), s))"

text \<open>The loop: an error, or whether it was cancelled; \<open>None\<close> while no event ends it.\<close>

fun gen_loop :: "string \<Rightarrow> gen_event list \<Rightarrow> gen_state \<Rightarrow> (string + bool) option \<times> gen_state" where
  "gen_loop mid [] s = (None, s)"
| "gen_loop mid (EvCancel # evs) s = (Some (Inr True), s)"
| "gen_loop mid (EvWake # evs) s = gen_loop mid evs s"
| "gen_loop mid (EvEnd # evs) s = (Some (Inr False), s)"
| "gen_loop mid (EvFail e # evs) s = (Some (Inl e), s)"
| "gen_loop mid (EvTimeout # evs) s =
     (case flush_step mid True False s of
        (Inl e, s) \<Rightarrow> (Some (Inl e), s)
      | (Inr _, s) \<Rightarrow> gen_loop mid evs s)"
| "gen_loop mid (EvData u late # evs) s =
     (case note_thinking mid u s of
        (Inl e, s) \<Rightarrow> (Some (Inl e), s)
      | (Inr _, s) \<Rightarrow>
          (case flush_step mid late (su_done u) (take_update u s) of
             (Inl e, s) \<Rightarrow> (Some (Inl e), s)
           | (Inr _, s) \<Rightarrow> if su_done u then (Some (Inr False), s) else gen_loop mid evs s))"

section \<open>Saving the reply\<close>

record chat_row_db =
  rw_id :: string
  rw_conversation :: string
  rw_author_id :: "string option"
  rw_content :: string
  rw_selected :: "string option"
  rw_image :: "string option"
  rw_revision :: nat

record variant_row =
  va_id :: string
  va_message :: string
  va_content :: string
  va_revision :: nat

record chat_db =
  ch_messages :: "chat_row_db list"
  ch_variants :: "variant_row list"
  ch_deltas :: "(string \<times> nat) list"
  ch_revision :: nat

definition owner_revision :: "string \<Rightarrow> chat_db \<Rightarrow> nat" where
  "owner_revision owner db = fold max (map snd (filter (\<lambda>d. fst d = owner) (ch_deltas db))) 0"

text \<open>The transaction is rolled back on an error, the delta with it.\<close>

definition persist_generation ::
  "string \<Rightarrow> string \<Rightarrow> string \<Rightarrow> string \<Rightarrow> string \<Rightarrow> string option \<Rightarrow> string option \<Rightarrow> chat_db \<Rightarrow> (string + nat) \<times> chat_db" where
  "persist_generation owner conversation sid mid content parent picture db =
     (let revision = ch_revision db + 1 in
      case parent of
        Some p \<Rightarrow>
          if list_ex (\<lambda>v. va_id v = mid) (ch_variants db) then (Inl ''UNIQUE constraint failed'', db)
          else if length (filter (\<lambda>r. rw_id r = p \<and> rw_conversation r = conversation) (ch_messages db)) \<noteq> 1
          then (Inl ''variant parent disappeared during generation'', db)
          else (Inr revision,
            \<lparr> ch_messages = map (\<lambda>r. if rw_id r = p \<and> rw_conversation r = conversation
                then r\<lparr> rw_selected := Some mid, rw_image := picture, rw_revision := revision \<rparr> else r) (ch_messages db),
              ch_variants = ch_variants db @ [\<lparr> va_id = mid, va_message = p, va_content = content, va_revision = revision \<rparr>],
              ch_deltas = ch_deltas db @ [(owner, revision)], ch_revision = revision \<rparr>)
      | None \<Rightarrow>
          if list_ex (\<lambda>r. rw_id r = mid) (ch_messages db) then (Inl ''UNIQUE constraint failed'', db)
          else (Inr revision,
            db\<lparr> ch_messages := ch_messages db @ [\<lparr> rw_id = mid, rw_conversation = conversation, rw_author_id = Some sid,
                  rw_content = content, rw_selected = None, rw_image = picture, rw_revision = revision \<rparr>],
                ch_deltas := ch_deltas db @ [(owner, revision)], ch_revision := revision \<rparr>))"

definition portrait :: "string option \<Rightarrow> string list \<Rightarrow> string option" where
  "portrait default_image images =
     (case default_image of
        Some d \<Rightarrow> if d \<in> set images then Some d else (case images of [] \<Rightarrow> None | i # _ \<Rightarrow> Some i)
      | None \<Rightarrow> (case images of [] \<Rightarrow> None | i # _ \<Rightarrow> Some i))"

section \<open>The whole generation\<close>

text \<open>How opening the stream ends: cancelled first, a change of the channel that is no cancellation, an
  error, or the stream.\<close>

datatype opening_result = OpenCancelled | OpenChanged | OpenFailed string | Opened

record gen_world =
  gw_db :: chat_db
  gw_jobs :: memory_jobs
  gw_usage :: "nat \<times> nat"
  gw_published :: "nat list"

definition record_token_usage :: "nat \<Rightarrow> nat \<Rightarrow> gen_world \<Rightarrow> (string + unit) \<times> gen_world" where
  "record_token_usage p c w =
     (if p + c = 0 then (Inr (), w)
      else if 2 ^ 63 \<le> p then (Inl ''prompt token count overflow'', w)
      else if 2 ^ 63 \<le> c then (Inl ''completion token count overflow'', w)
      else (Inr (), w\<lparr> gw_usage := (fst (gw_usage w) + p, snd (gw_usage w) + c) \<rparr>))"

definition final_context :: "nat \<Rightarrow> gen_state \<Rightarrow> gen_context" where
  "final_context estimate s =
     \<lparr> gx_prompt = (if 0 < gs_prompt s then gs_prompt s else estimate),
       gx_completion = (if 0 < gs_completion s then gs_completion s else div_ceil (length (gs_complete s)) 3),
       gx_estimated = (gs_prompt s = 0 \<or> (gs_completion s = 0 \<and> gs_complete s \<noteq> [])) \<rparr>"

text \<open>The frames that announce a saved row; memories are only learned from new replies that were not
  cancelled.\<close>

definition announce_reply ::
  "string \<Rightarrow> string \<Rightarrow> string \<Rightarrow> string option \<Rightarrow> prepared \<Rightarrow> bool \<Rightarrow> nat \<Rightarrow> gen_state \<Rightarrow> gen_world
   \<Rightarrow> (string + unit) \<times> gen_state \<times> gen_world" where
  "announce_reply owner conversation mid parent pp stopped revision s w =
     (case send_frame (GDelta revision) s of
        (Inl e, s) \<Rightarrow> (Inl e, s, w)
      | (Inr _, s) \<Rightarrow>
          let w = w\<lparr> gw_published := gw_published w @ [revision] \<rparr> in
          (case send_frame (GFinished mid revision stopped (final_context (pp_tokens pp) s)) s of
             (Inl e, s) \<Rightarrow> (Inl e, s, w)
           | (Inr _, s) \<Rightarrow>
               (Inr (), s, if parent = None \<and> \<not> stopped
                  then w\<lparr> gw_jobs := schedule_automatic_memory (owner, conversation) (pt_id (pp_card pp)) (gw_jobs w) \<rparr>
                  else w)))"

definition save_reply ::
  "gen_env \<Rightarrow> string \<Rightarrow> string \<Rightarrow> string \<Rightarrow> string option \<Rightarrow> prepared \<Rightarrow> bool \<Rightarrow> gen_state \<Rightarrow> gen_world
   \<Rightarrow> (string + unit) \<times> gen_state \<times> gen_world" where
  "save_reply en owner conversation mid parent pp stopped s w =
     (if \<not> stopped \<and> trim (gs_complete s) = []
      then (Inl ''model returned an empty response; the context or output limit may be too small'', s, w)
      else
        (case ge_images en (pp_card pp) of
           Inl e \<Rightarrow> (Inl e, s, w)
         | Inr images \<Rightarrow>
             (case persist_generation owner conversation (pt_id (pp_card pp)) mid (gs_complete s) parent
                     (portrait (cc_default_image (pp_card pp)) images) (gw_db w) of
                (Inl e, db) \<Rightarrow> (Inl e, s, w\<lparr> gw_db := db \<rparr>)
              | (Inr revision, db) \<Rightarrow> announce_reply owner conversation mid parent pp stopped revision s (w\<lparr> gw_db := db \<rparr>))))"

text \<open>After the loop: the last chunk, the usage, and the row.\<close>

definition finish_reply ::
  "gen_env \<Rightarrow> string \<Rightarrow> string \<Rightarrow> string \<Rightarrow> string option \<Rightarrow> prepared \<Rightarrow> bool \<Rightarrow> gen_state \<Rightarrow> gen_world
   \<Rightarrow> (string + unit) \<times> gen_state \<times> gen_world" where
  "finish_reply en owner conversation mid parent pp stopped s w =
     (case (if gs_pending s = [] then (Inr (), s) else flush_pending mid s) of
        (Inl e, s) \<Rightarrow> (Inl e, s, w)
      | (Inr _, s) \<Rightarrow>
          (case record_token_usage (gs_prompt s) (gs_completion s) w of
             (Inl e, w) \<Rightarrow> (Inl e, s, w)
           | (Inr _, w) \<Rightarrow> save_reply en owner conversation mid parent pp stopped s w))"

definition gen_start :: "nat \<Rightarrow> gen_state" where
  "gen_start room = \<lparr> gs_pending = [], gs_complete = [], gs_seq = 0, gs_thinking = False, gs_prompt = 0, gs_completion = 0,
     gs_out = [], gs_room = room \<rparr>"

text \<open>\<open>None\<close>: the stream has not ended yet.\<close>

definition generate ::
  "gen_env \<Rightarrow> string \<Rightarrow> string \<Rightarrow> string option \<Rightarrow> string option \<Rightarrow> string \<Rightarrow> opening_result \<Rightarrow> gen_event list \<Rightarrow> nat
   \<Rightarrow> conversation \<Rightarrow> gen_world \<Rightarrow> (string + unit) option \<times> gen_frame list \<times> gen_world" where
  "generate en owner conversation explicit parent mid opened evs room c w =
     (case fst (prepare en owner conversation explicit c) of
        Inl e \<Rightarrow> (Some (Inl e), [], w)
      | Inr pp \<Rightarrow>
          let started = \<lparr> gx_prompt = pp_tokens pp, gx_completion = 0, gx_estimated = True \<rparr> in
          (case send_frame (GStarted mid (pt_id (pp_card pp)) started) (gen_start room) of
             (Inl e, s) \<Rightarrow> (Some (Inl e), gs_out s, w)
           | (Inr _, s) \<Rightarrow>
               (case opened of
                  OpenCancelled \<Rightarrow>
                    (case send_frame (GFinished mid (owner_revision owner (gw_db w)) True started) s of
                       (r, s) \<Rightarrow> (Some r, gs_out s, w))
                | OpenChanged \<Rightarrow> (Some (Inl ''generation cancellation channel changed unexpectedly''), gs_out s, w)
                | OpenFailed e \<Rightarrow> (Some (Inl e), gs_out s, w)
                | Opened \<Rightarrow>
                    (case gen_loop mid evs s of
                       (None, s) \<Rightarrow> (None, gs_out s, w)
                     | (Some (Inl e), s) \<Rightarrow> (Some (Inl e), gs_out s, w)
                     | (Some (Inr stopped), s) \<Rightarrow>
                         (case finish_reply en owner conversation mid parent pp stopped s w of
                            (r, s, w) \<Rightarrow> (Some r, gs_out s, w))))))"

section \<open>Lemmas on frames\<close>

fun chunk_text :: "gen_frame list \<Rightarrow> string" where
  "chunk_text [] = []"
| "chunk_text (GChunk m n t # fs) = t @ chunk_text fs"
| "chunk_text (f # fs) = chunk_text fs"

fun chunk_numbers :: "gen_frame list \<Rightarrow> nat list" where
  "chunk_numbers [] = []"
| "chunk_numbers (GChunk m n t # fs) = n # chunk_numbers fs"
| "chunk_numbers (f # fs) = chunk_numbers fs"

definition is_final :: "gen_frame \<Rightarrow> bool" where
  "is_final f \<longleftrightarrow> (\<exists>m r c x. f = GFinished m r c x) \<or> (\<exists>r. f = GDelta r)"

lemma chunk_append [simp]:
  "chunk_text (xs @ ys) = chunk_text xs @ chunk_text ys" "chunk_numbers (xs @ ys) = chunk_numbers xs @ chunk_numbers ys"
  by (induction xs rule: chunk_text.induct) auto

definition numbered :: "nat list \<Rightarrow> bool" where
  "numbered ns \<longleftrightarrow> ns = [1..<Suc (length ns)]"

lemma numbered_Nil [simp]: "numbered []" by (simp add: numbered_def)

lemma numbered_snoc: "numbered ns \<Longrightarrow> n = Suc (length ns) \<Longrightarrow> numbered (ns @ [n])"
  by (simp add: numbered_def)

definition streaming :: "gen_state \<Rightarrow> bool" where
  "streaming s \<longleftrightarrow> gs_complete s = chunk_text (gs_out s) @ gs_pending s
     \<and> numbered (chunk_numbers (gs_out s)) \<and> gs_seq s = length (chunk_numbers (gs_out s)) \<and> \<not> list_ex is_final (gs_out s)"

definition cut_off :: "gen_state \<Rightarrow> bool" where
  "cut_off s \<longleftrightarrow> prefix (chunk_text (gs_out s)) (gs_complete s)
     \<and> numbered (chunk_numbers (gs_out s)) \<and> \<not> list_ex is_final (gs_out s)"

lemma streaming_cut_off: "streaming s \<Longrightarrow> cut_off s"
  by (simp add: streaming_def cut_off_def)

lemma flush_pending_ok:
  assumes "streaming s" "flush_pending mid s = (r, s')"
  shows "gs_complete s' = gs_complete s" "gs_prompt s' = gs_prompt s" "gs_completion s' = gs_completion s"
    "gs_pending s' = []" "r = Inr () \<Longrightarrow> streaming s'" "cut_off s'"
  using assms by (auto simp: flush_pending_def send_frame_def Let_def streaming_def cut_off_def is_final_def
      intro: numbered_snoc split: if_splits)

lemma flush_step_ok:
  assumes "streaming s" "flush_step mid late fin s = (r, s')"
  shows "gs_complete s' = gs_complete s" "r = Inr () \<Longrightarrow> streaming s'" "cut_off s'"
proof -
  have "gs_complete s' = gs_complete s \<and> (r = Inr () \<longrightarrow> streaming s') \<and> cut_off s'"
  proof (cases "flush_due late fin s")
    case True
    then have "flush_pending mid s = (r, s')" using assms(2) by (simp add: flush_step_def)
    from flush_pending_ok [OF assms(1) this] show ?thesis by blast
  next
    case False
    then show ?thesis using assms streaming_cut_off [OF assms(1)] by (simp add: flush_step_def)
  qed
  then show "gs_complete s' = gs_complete s" "r = Inr () \<Longrightarrow> streaming s'" "cut_off s'" by auto
qed

lemma note_thinking_ok:
  assumes "streaming s" "note_thinking mid u s = (r, s')"
  shows "streaming s'"
  using assms by (auto simp: note_thinking_def send_frame_def streaming_def is_final_def split: if_splits)

lemma take_update_ok: "streaming s \<Longrightarrow> streaming (take_update u s)"
  by (auto simp: take_update_def streaming_def)

lemma gen_loop_ok:
  assumes "streaming s" "gen_loop mid evs s = (r, s')"
  shows "cut_off s'" "\<And>c. r = Some (Inr c) \<Longrightarrow> streaming s'"
proof -
  have "cut_off s' \<and> (\<forall>c. r = Some (Inr c) \<longrightarrow> streaming s')" using assms
  proof (induction mid evs s rule: gen_loop.induct)
    case (6 mid evs s)
    obtain q t where q: "flush_step mid True False s = (q, t)" by fastforce
    show ?case
    proof (cases q)
      case (Inr u)
      then show ?thesis using 6(1) [OF q [symmetric] Inr] 6(3) q flush_step_ok(2) [OF 6(2) q] by auto
    qed (use 6 q flush_step_ok(3) [OF 6(2) q] in auto)
  next
    case (7 mid u late evs s)
    obtain q t where q: "note_thinking mid u s = (q, t)" by fastforce
    have t: "streaming t" by (rule note_thinking_ok [OF 7(2) q])
    obtain q' t' where q': "flush_step mid late (su_done u) (take_update u t) = (q', t')" by fastforce
    note flushed = flush_step_ok [OF take_update_ok [OF t] q']
    show ?case
    proof (cases q)
      case (Inl e)
      then show ?thesis using 7(3) q streaming_cut_off [OF t] by auto
    next
      case Inr
      show ?thesis
      proof (cases q')
        case (Inl e)
        then show ?thesis using 7(3) q q' Inr flushed by auto
      next
        case (Inr v)
        then show ?thesis using 7(1) [OF q [symmetric] \<open>q = Inr _\<close> q' [symmetric] Inr] 7(3) q q' \<open>q = Inr _\<close> flushed
          by (cases "su_done u") auto
      qed
    qed
  qed (auto simp: streaming_cut_off)
  then show "cut_off s'" "\<And>c. r = Some (Inr c) \<Longrightarrow> streaming s'" by auto
qed

lemma frames_grow:
  "prefix (gs_out s) (gs_out (snd (send_frame f s)))" "prefix (gs_out s) (gs_out (snd (flush_pending mid s)))"
  "prefix (gs_out s) (gs_out (snd (flush_step mid late fin s)))" "prefix (gs_out s) (gs_out (snd (note_thinking mid u s)))"
  "gs_out (take_update u s) = gs_out s"
  by (auto simp: send_frame_def flush_step_def flush_pending_def note_thinking_def take_update_def Let_def)

lemma gen_loop_grows: "prefix (gs_out s) (gs_out (snd (gen_loop mid evs s)))"
proof (induction mid evs s rule: gen_loop.induct)
  case (6 mid evs s)
  obtain q t where q: "flush_step mid True False s = (q, t)" by fastforce
  then show ?case using 6 [OF q [symmetric]] frames_grow(3) [of s mid True False] by (cases q) (auto intro: prefix_order.trans)
next
  case (7 mid u late evs s)
  obtain q t where q: "note_thinking mid u s = (q, t)" by fastforce
  obtain q' t' where q': "flush_step mid late (su_done u) (take_update u t) = (q', t')" by fastforce
  have grow: "prefix (gs_out s) (gs_out t)" "prefix (gs_out t) (gs_out t')"
    using frames_grow(4) [of s mid u] frames_grow(3) [of "take_update u t" mid late "su_done u"] q q' by (simp_all add: frames_grow(5))
  then show ?case using 7 [OF q [symmetric] _ q' [symmetric]] q q'
    by (cases q; cases q') (auto intro: prefix_order.trans)
qed auto

section \<open>Lemmas on saving\<close>

text \<open>How a database may differ after a reply: a new message or a new variant that its parent selects.\<close>

definition reply_saved :: "string \<Rightarrow> string \<Rightarrow> string \<Rightarrow> string \<Rightarrow> string option \<Rightarrow> nat \<Rightarrow> chat_db \<Rightarrow> chat_db \<Rightarrow> bool" where
  "reply_saved conversation sid mid content parent revision db db' \<longleftrightarrow>
     revision = ch_revision db + 1 \<and> ch_revision db' = revision
     \<and> (case parent of
          None \<Rightarrow> ch_variants db' = ch_variants db
            \<and> (\<exists>r. ch_messages db' = ch_messages db @ [r] \<and> rw_id r = mid \<and> rw_conversation r = conversation
                 \<and> rw_author_id r = Some sid \<and> rw_content r = content \<and> rw_revision r = revision)
        | Some p \<Rightarrow>
            ch_variants db' = ch_variants db @ [\<lparr> va_id = mid, va_message = p, va_content = content, va_revision = revision \<rparr>]
            \<and> map rw_id (ch_messages db') = map rw_id (ch_messages db) \<and> map rw_content (ch_messages db') = map rw_content (ch_messages db)
            \<and> (\<exists>r \<in> set (ch_messages db'). rw_id r = p \<and> rw_conversation r = conversation \<and> rw_selected r = Some mid \<and> rw_revision r = revision))"

lemma persist_generation_ok:
  assumes "persist_generation owner conversation sid mid content parent picture db = (r, db')"
  shows "r = Inl e \<Longrightarrow> db' = db" "r = Inr revision \<Longrightarrow> reply_saved conversation sid mid content parent revision db db'"
proof -
  show "r = Inl e \<Longrightarrow> db' = db" using assms by (auto simp: persist_generation_def Let_def split: option.splits if_splits)
  assume r: "r = Inr revision"
  show "reply_saved conversation sid mid content parent revision db db'"
  proof (cases parent)
    case None
    then show ?thesis using assms r by (auto simp: persist_generation_def reply_saved_def Let_def split: if_splits)
  next
    case (Some p)
    let ?hit = "\<lambda>r. rw_id r = p \<and> rw_conversation r = conversation"
    have one: "length (filter ?hit (ch_messages db)) = 1"
      using assms r Some by (auto simp: persist_generation_def Let_def split: if_splits)
    then obtain q where "filter ?hit (ch_messages db) = [q]" by (auto simp: length_Suc_conv)
    then have "q \<in> set (filter ?hit (ch_messages db))" by simp
    then have q: "q \<in> set (ch_messages db)" "?hit q" by auto
    let ?up = "\<lambda>r. if ?hit r then r\<lparr> rw_selected := Some mid, rw_image := picture, rw_revision := Suc (ch_revision db) \<rparr> else r"
    have db': "ch_messages db' = map ?up (ch_messages db)" "ch_revision db' = Suc (ch_revision db)" "revision = Suc (ch_revision db)"
      "ch_variants db' = ch_variants db @ [\<lparr> va_id = mid, va_message = p, va_content = content, va_revision = Suc (ch_revision db) \<rparr>]"
      using assms r Some one by (auto simp: persist_generation_def Let_def split: if_splits)
    have "?up q \<in> set (ch_messages db')" using q(1) db'(1) by simp
    then have sel: "\<exists>r \<in> set (ch_messages db'). rw_id r = p \<and> rw_conversation r = conversation \<and> rw_selected r = Some mid \<and> rw_revision r = Suc (ch_revision db)"
      using q(2) by (intro bexI [of _ "?up q"]) auto
    have "map rw_id (map ?up (ch_messages db)) = map rw_id (ch_messages db)"
      "map rw_content (map ?up (ch_messages db)) = map rw_content (ch_messages db)" by simp_all
    then show ?thesis using db' sel Some by (simp add: reply_saved_def)
  qed
qed

lemma persist_generation_kept:
  "persist_generation owner conversation sid mid content parent picture db = (Inl e, db') \<Longrightarrow> db' = db"
  by (erule persist_generation_ok(1)) simp

lemma announce_reply_ok:
  assumes "announce_reply owner conversation mid parent pp stopped revision s w = (r, s', w')"
  shows "gw_db w' = gw_db w"
    and "r = Inr () \<Longrightarrow> gs_out s' = gs_out s @ [GDelta revision, GFinished mid revision stopped (final_context (pp_tokens pp) s)]
      \<and> gw_published w' = gw_published w @ [revision]
      \<and> gw_jobs w' = (if parent = None \<and> \<not> stopped then schedule_automatic_memory (owner, conversation) (pt_id (pp_card pp)) (gw_jobs w) else gw_jobs w)"
    and "r = Inl e \<Longrightarrow> gs_room s' = 0 \<and> gw_jobs w' = gw_jobs w \<and> (gs_out s' = gs_out s \<or> gs_out s' = gs_out s @ [GDelta revision])"
  using assms by (auto simp: announce_reply_def send_frame_def final_context_def Let_def split: if_splits)

lemma record_token_usage_db:
  "record_token_usage p c w = (r, w') \<Longrightarrow> gw_db w' = gw_db w \<and> gw_jobs w' = gw_jobs w \<and> gw_published w' = gw_published w"
  by (auto simp: record_token_usage_def split: if_splits)

text \<open>What a client has seen when its generation failed.\<close>

definition no_end :: "gen_frame list \<Rightarrow> bool" where
  "no_end fs \<longleftrightarrow> \<not> list_ex (\<lambda>f. \<exists>m r c x. f = GFinished m r c x) fs"

lemma save_reply_ok:
  assumes "streaming s" "gs_pending s = []" "save_reply en owner conversation mid parent pp stopped s w = (r, s', w')"
  shows "r = Inr () \<Longrightarrow> \<exists>revision pre. gs_out s' = pre @ [GDelta revision, GFinished mid revision stopped (final_context (pp_tokens pp) s)]
      \<and> pre = gs_out s \<and> (stopped \<or> trim (gs_complete s) \<noteq> [])
      \<and> reply_saved conversation (pt_id (pp_card pp)) mid (gs_complete s) parent revision (gw_db w) (gw_db w')
      \<and> gw_published w' = gw_published w @ [revision]
      \<and> gw_jobs w' = (if parent = None \<and> \<not> stopped then schedule_automatic_memory (owner, conversation) (pt_id (pp_card pp)) (gw_jobs w) else gw_jobs w)"
    and "r = Inl e \<Longrightarrow> no_end (gs_out s') \<and> gw_jobs w' = gw_jobs w
      \<and> (gw_db w' = gw_db w
         \<or> gs_room s' = 0 \<and> chunk_text (gs_out s') = gs_complete s
           \<and> (\<exists>revision. reply_saved conversation (pt_id (pp_card pp)) mid (gs_complete s) parent revision (gw_db w) (gw_db w')))"
proof -
  have quiet: "no_end (gs_out s)" "no_end (gs_out s @ [GDelta v])" for v
    using assms(1) by (auto simp: streaming_def no_end_def is_final_def list_ex_iff)
  show "\<exists>revision pre. gs_out s' = pre @ [GDelta revision, GFinished mid revision stopped (final_context (pp_tokens pp) s)]
      \<and> pre = gs_out s \<and> (stopped \<or> trim (gs_complete s) \<noteq> [])
      \<and> reply_saved conversation (pt_id (pp_card pp)) mid (gs_complete s) parent revision (gw_db w) (gw_db w')
      \<and> gw_published w' = gw_published w @ [revision]
      \<and> gw_jobs w' = (if parent = None \<and> \<not> stopped then schedule_automatic_memory (owner, conversation) (pt_id (pp_card pp)) (gw_jobs w) else gw_jobs w)"
    if r: "r = Inr ()"
  proof -
    obtain images revision db where p: "stopped \<or> trim (gs_complete s) \<noteq> []" "ge_images en (pp_card pp) = Inr images"
      "persist_generation owner conversation (pt_id (pp_card pp)) mid (gs_complete s) parent
         (portrait (cc_default_image (pp_card pp)) images) (gw_db w) = (Inr revision, db)"
      "announce_reply owner conversation mid parent pp stopped revision s (w\<lparr> gw_db := db \<rparr>) = (r, s', w')"
      using assms(3) r by (auto simp: save_reply_def split: if_splits sum.splits prod.splits)
    show ?thesis using announce_reply_ok(1,2) [OF p(4)] persist_generation_ok(2) [OF p(3) refl] p(1) r by auto
  qed
  show "no_end (gs_out s') \<and> gw_jobs w' = gw_jobs w
      \<and> (gw_db w' = gw_db w
         \<or> gs_room s' = 0 \<and> chunk_text (gs_out s') = gs_complete s
           \<and> (\<exists>revision. reply_saved conversation (pt_id (pp_card pp)) mid (gs_complete s) parent revision (gw_db w) (gw_db w')))"
    if r: "r = Inl e"
  proof (cases "\<exists>images revision db. ge_images en (pp_card pp) = Inr images \<and> (stopped \<or> trim (gs_complete s) \<noteq> [])
      \<and> persist_generation owner conversation (pt_id (pp_card pp)) mid (gs_complete s) parent
         (portrait (cc_default_image (pp_card pp)) images) (gw_db w) = (Inr revision, db)")
    case True
    then obtain images revision db where p: "ge_images en (pp_card pp) = Inr images" "stopped \<or> trim (gs_complete s) \<noteq> []"
      "persist_generation owner conversation (pt_id (pp_card pp)) mid (gs_complete s) parent
         (portrait (cc_default_image (pp_card pp)) images) (gw_db w) = (Inr revision, db)" by blast
    then have a: "announce_reply owner conversation mid parent pp stopped revision s (w\<lparr> gw_db := db \<rparr>) = (r, s', w')"
      using assms(3) by (auto simp: save_reply_def)
    have "gs_complete s = chunk_text (gs_out s)" using assms(1,2) by (simp add: streaming_def)
    then show ?thesis using announce_reply_ok(1,3) [OF a] persist_generation_ok(2) [OF p(3) refl] r quiet by auto
  next
    case False
    then show ?thesis using assms(3) quiet(1) by (auto simp: save_reply_def dest: persist_generation_kept split: if_splits sum.splits prod.splits)
  qed
qed

lemma cut_off_no_end: "cut_off s \<Longrightarrow> no_end (gs_out s)"
  by (auto simp: cut_off_def no_end_def is_final_def list_ex_iff)

lemma finish_reply_flush:
  assumes "streaming s"
  obtains q t where "(if gs_pending s = [] then (Inr (), s) else flush_pending mid s) = (q, t)" "cut_off t" "gs_complete t = gs_complete s"
    "gs_pending t = []" "q = Inr () \<Longrightarrow> streaming t"
proof (cases "gs_pending s = []")
  case True
  then show ?thesis using that [of "Inr ()" s] assms streaming_cut_off [OF assms] by simp
next
  case False
  obtain q t where q: "flush_pending mid s = (q, t)" by fastforce
  show ?thesis using that [of q t] False q flush_pending_ok [OF assms q] by auto
qed

lemma room_kept:
  "length (gs_out (snd (send_frame f s))) + gs_room (snd (send_frame f s)) = length (gs_out s) + gs_room s"
  "length (gs_out (snd (flush_pending mid s))) + gs_room (snd (flush_pending mid s)) = length (gs_out s) + gs_room s"
  "length (gs_out (snd (flush_step mid late fin s))) + gs_room (snd (flush_step mid late fin s)) = length (gs_out s) + gs_room s"
  "length (gs_out (snd (note_thinking mid u s))) + gs_room (snd (note_thinking mid u s)) = length (gs_out s) + gs_room s"
  "gs_room (take_update u s) = gs_room s"
  by (auto simp: send_frame_def flush_step_def flush_pending_def note_thinking_def take_update_def Let_def)

lemma gen_loop_room:
  "length (gs_out (snd (gen_loop mid evs s))) + gs_room (snd (gen_loop mid evs s)) = length (gs_out s) + gs_room s"
proof (induction mid evs s rule: gen_loop.induct)
  case (6 mid evs s)
  obtain q t where q: "flush_step mid True False s = (q, t)" by fastforce
  then show ?case using 6 [OF q [symmetric]] room_kept(3) [of mid True False s] by (cases q) auto
next
  case (7 mid u late evs s)
  obtain q t where q: "note_thinking mid u s = (q, t)" by fastforce
  obtain q' t' where q': "flush_step mid late (su_done u) (take_update u t) = (q', t')" by fastforce
  have "length (gs_out t) + gs_room t = length (gs_out s) + gs_room s" "length (gs_out t') + gs_room t' = length (gs_out t) + gs_room t"
    using room_kept(4) [of mid u s] room_kept(3) [of mid late "su_done u" "take_update u t"] q q' by (simp_all add: frames_grow(5) room_kept(5))
  then show ?case using 7 [OF q [symmetric] _ q' [symmetric]] q q' by (cases q; cases q') auto
qed auto

lemma save_reply_room:
  "save_reply en owner conversation mid parent pp stopped s w = (r, s', w') \<Longrightarrow> length (gs_out s') + gs_room s' = length (gs_out s) + gs_room s"
  by (auto simp: save_reply_def announce_reply_def send_frame_def Let_def split: if_splits sum.splits prod.splits)

lemma finish_reply_fails:
  assumes "streaming s" "finish_reply en owner conversation mid parent pp stopped s w = (Inl e, s', w')"
  shows "no_end (gs_out s') \<and> gw_jobs w' = gw_jobs w
    \<and> (gw_db w' = gw_db w
       \<or> gs_room s' = 0 \<and> length (gs_out s') = length (gs_out s) + gs_room s
         \<and> (\<exists>revision. reply_saved conversation (pt_id (pp_card pp)) mid (chunk_text (gs_out s')) parent revision (gw_db w) (gw_db w')))"
proof -
  obtain q t where t: "(if gs_pending s = [] then (Inr (), s) else flush_pending mid s) = (q, t)" "cut_off t" "gs_pending t = []"
    "q = Inr () \<Longrightarrow> streaming t" using finish_reply_flush [OF assms(1), of mid thesis] by blast
  have room: "length (gs_out t) + gs_room t = length (gs_out s) + gs_room s" using t(1) room_kept(2) [of mid s] by (auto split: if_splits)
  obtain u w1 where u: "record_token_usage (gs_prompt t) (gs_completion t) w = (u, w1)" by fastforce
  note w1 = record_token_usage_db [OF u]
  show ?thesis
  proof (cases "q = Inr () \<and> u = Inr ()")
    case True
    then have sv: "save_reply en owner conversation mid parent pp stopped t w1 = (Inl e, s', w')"
      using assms(2) t(1) u by (simp add: finish_reply_def)
    show ?thesis using save_reply_ok(2) [OF t(4) t(3) sv refl] save_reply_room [OF sv] True w1 room by auto
  next
    case False
    then have "s' = t" "w' = w \<or> w' = w1" using assms(2) t(1) u by (auto simp: finish_reply_def split: sum.splits)
    then show ?thesis using cut_off_no_end [OF t(2)] w1 by auto
  qed
qed

section \<open>Properties\<close>

text \<open>C12: A reply that succeeds is saved as it was streamed: the chunks are numbered from one without gaps, their
  texts together are exactly the saved content, the last frame announces the saved revision, and memories
  are scheduled only for a new reply that was not cancelled; a reply without text is only saved when it
  was cancelled.\<close>

theorem generate_saves_what_it_streamed:
  assumes "generate en owner conversation explicit parent mid Opened evs room c w = (Some (Inr ()), frames, w')"
  shows "\<exists>pp sid stopped context revision pre.
    frames = pre @ [GDelta revision, GFinished mid revision stopped context]
    \<and> numbered (chunk_numbers pre) \<and> \<not> list_ex is_final pre \<and> hd pre = GStarted mid sid pp
    \<and> reply_saved conversation sid mid (chunk_text pre) parent revision (gw_db w) (gw_db w')
    \<and> (stopped \<or> trim (chunk_text pre) \<noteq> [])
    \<and> gw_published w' = gw_published w @ [revision]
    \<and> gw_jobs w' = (if parent = None \<and> \<not> stopped then schedule_automatic_memory (owner, conversation) sid (gw_jobs w) else gw_jobs w)"
proof -
  obtain pp where pp: "fst (prepare en owner conversation explicit c) = Inr pp" and room: "room \<noteq> 0"
    using assms by (auto simp: generate_def send_frame_def gen_start_def Let_def split: sum.splits if_splits)
  let ?ctx = "\<lparr> gx_prompt = pp_tokens pp, gx_completion = 0, gx_estimated = True \<rparr>"
  define s where "s = snd (send_frame (GStarted mid (pt_id (pp_card pp)) ?ctx) (gen_start room))"
  have s: "send_frame (GStarted mid (pt_id (pp_card pp)) ?ctx) (gen_start room) = (Inr (), s)" "streaming s"
    "gs_out s = [GStarted mid (pt_id (pp_card pp)) ?ctx]"
    using room by (simp_all add: s_def send_frame_def gen_start_def streaming_def is_final_def)
  obtain stopped s1 s2 where loop: "gen_loop mid evs s = (Some (Inr stopped), s1)"
    and fin: "finish_reply en owner conversation mid parent pp stopped s1 w = (Inr (), s2, w')" and frames: "frames = gs_out s2"
    using assms pp s(1) by (auto simp: generate_def Let_def split: prod.splits option.splits sum.splits)
  have st: "streaming s1" by (rule gen_loop_ok(2) [OF s(2) loop refl])
  obtain q t where t: "(if gs_pending s1 = [] then (Inr (), s1) else flush_pending mid s1) = (q, t)" "gs_pending t = []" "q = Inr () \<Longrightarrow> streaming t"
    using finish_reply_flush [OF st, of mid thesis] by blast
  obtain w1 where w1: "q = Inr ()" "record_token_usage (gs_prompt t) (gs_completion t) w = (Inr (), w1)"
    "save_reply en owner conversation mid parent pp stopped t w1 = (Inr (), s2, w')"
    using fin t(1) by (auto simp: finish_reply_def split: sum.splits prod.splits)
  have ok: "streaming t" using t(3) w1(1) .
  have "prefix (gs_out s) (gs_out t)"
    using gen_loop_grows [of s mid evs] frames_grow(2) [of s1 mid] loop t(1) by (auto split: if_splits intro: prefix_order.trans)
  then have head: "hd (gs_out t) = GStarted mid (pt_id (pp_card pp)) ?ctx" using s(3) by (auto simp: prefix_def)
  have whole: "gs_complete t = chunk_text (gs_out t)" "numbered (chunk_numbers (gs_out t))" "\<not> list_ex is_final (gs_out t)"
    using ok t(2) by (simp_all add: streaming_def)
  show ?thesis using save_reply_ok(1) [OF ok t(2) w1(3) refl] record_token_usage_db [OF w1(2)] head whole frames by metis
qed

text \<open>C13: A generation that fails never announces an end and schedules no memories; it leaves the messages as
  they were, except when the client's channel closed after the row was committed, when the whole reply is
  saved but not announced; so no partial reply is ever stored by a failure.\<close>

theorem generate_failure_keeps_messages:
  assumes "generate en owner conversation explicit parent mid opened evs room c w = (Some (Inl e), frames, w')"
  shows "no_end frames \<and> gw_jobs w' = gw_jobs w
    \<and> (gw_db w' = gw_db w \<or> (\<exists>sid text revision. reply_saved conversation sid mid text parent revision (gw_db w) (gw_db w')
         \<and> room = length frames \<and> chunk_text frames = text))"
proof (cases "fst (prepare en owner conversation explicit c)")
  case (Inl x)
  then show ?thesis using assms by (auto simp: generate_def no_end_def)
next
  case (Inr pp)
  let ?ctx = "\<lparr> gx_prompt = pp_tokens pp, gx_completion = 0, gx_estimated = True \<rparr>"
  obtain q s where s: "send_frame (GStarted mid (pt_id (pp_card pp)) ?ctx) (gen_start room) = (q, s)" by fastforce
  have start: "streaming s" "length (gs_out s) + gs_room s = room"
    using s by (auto simp: send_frame_def gen_start_def streaming_def is_final_def split: if_splits)
  have quiet: "no_end (gs_out s)" by (rule cut_off_no_end [OF streaming_cut_off [OF start(1)]])
  obtain res s1 where loop: "gen_loop mid evs s = (res, s1)" by fastforce
  have s1: "cut_off s1" "\<And>stopped. res = Some (Inr stopped) \<Longrightarrow> streaming s1" "length (gs_out s1) + gs_room s1 = room"
    using gen_loop_ok [OF start(1) loop] gen_loop_room [of mid evs s] loop start(2) by auto
  show ?thesis
  proof (cases "\<exists>stopped. q = Inr () \<and> opened = Opened \<and> res = Some (Inr stopped)")
    case True
    then obtain stopped where st: "q = Inr ()" "opened = Opened" "res = Some (Inr stopped)" by blast
    obtain s2 where fin: "finish_reply en owner conversation mid parent pp stopped s1 w = (Inl e, s2, w')" "frames = gs_out s2"
      using assms Inr s loop st by (auto simp: generate_def Let_def split: prod.splits)
    show ?thesis using finish_reply_fails [OF s1(2) [OF st(3)] fin(1)] s1(3) fin(2) by auto
  next
    case False
    have "w' = w \<and> no_end frames"
    proof (cases q)
      case (Inl x)
      then show ?thesis using assms Inr s quiet by (auto simp: generate_def Let_def)
    next
      case q: (Inr u)
      show ?thesis
      proof (cases opened)
        case OpenCancelled
        then show ?thesis using assms Inr s q quiet by (auto simp: generate_def Let_def send_frame_def split: if_splits)
      next
        case Opened
        then show ?thesis using assms Inr s q loop False cut_off_no_end [OF s1(1)]
          by (auto simp: generate_def Let_def split: option.splits sum.splits)
      qed (use assms Inr s q quiet in \<open>auto simp: generate_def Let_def\<close>)
    qed
    then show ?thesis by blast
  qed
qed

text \<open>A generation whose stream ends, fails, is cancelled or says it is done always returns.\<close>

theorem gen_loop_returns:
  "list_ex (\<lambda>ev. ev = EvCancel \<or> ev = EvEnd \<or> (\<exists>e. ev = EvFail e) \<or> (\<exists>u late. ev = EvData u late \<and> su_done u)) evs
   \<Longrightarrow> fst (gen_loop mid evs s) \<noteq> None"
  by (induction mid evs s rule: gen_loop.induct) (auto split: prod.splits sum.splits)

text \<open>The prompt of a generation stays within the configured window and is written for a participant.\<close>

theorem prepare_within_window:
  assumes "prepare en owner conversation explicit c = (Inr pp, c')"
  shows "pp_tokens pp \<le> prompt_input_budget (ge_config en) \<and> pp_card pp \<in> set (ge_cards en)
    \<and> (\<exists>models. ge_models en = Inr models \<and> pp_model pp \<in> set models)"
proof -
  obtain model models sid where m: "ge_models en = Inr models" "selected_model (ge_config en) models = Inr model"
    and f: "find (\<lambda>r. pt_id r = sid) (ge_cards en) = Some (pp_card pp)"
    and p: "prompt_for en owner conversation (pp_card pp) = Inr (pp_messages pp)"
    and t: "pp_tokens pp = sum_list (map (estimated_message_tokens \<circ> msg_content) (pp_messages pp))" "pp_model pp = model"
    using assms by (auto simp: prepare_def and_then_eq_Inr split: sum.splits prod.splits option.splits)
  have "message_tokens (pp_messages pp) \<le> prompt_input_budget (ge_config en)"
    using budget_chat_messages_sound p unfolding prompt_for_def Let_def by blast
  moreover have "model \<in> set models" using m(2) by (auto simp: selected_model_def list_ex_iff split: if_splits list.splits)
  ultimately show ?thesis using f m(1) t by (auto simp: message_tokens_def find_Some_iff)
qed

section \<open>Witnesses\<close>

definition demo_config :: broker_config where
  "demo_config = \<lparr> cfg_adapter_enabled = True, cfg_adapter_url = [], cfg_adapter_plugin = ''ollama'', cfg_use_ollama_api = True, cfg_model = [],
     cfg_temperature = Finite 1, cfg_top_p = Finite 1, cfg_top_k = 0, cfg_num_ctx = 4096, cfg_num_predict = 512, cfg_repeat_penalty = Finite 1, cfg_seed = 0,
     cfg_keep_alive = [], cfg_allow_public_characters = True, cfg_allow_self_registration = True, cfg_image = image_config_default,
     cfg_emotion_model = [], cfg_memory_model = [], cfg_reasoning = Off \<rparr>"

definition mara_full :: character_card where
  "mara_full = \<lparr> pt_id = ''mara'', pt_name = ''Mara'', pt_description = ''d'', pt_personality = ''p'', pt_appearance = ''a'',
     cc_owner = ''u'', cc_system_prompt = ''s'', cc_scenario = [], cc_age = [], cc_gender = [], cc_race = [], cc_misc = [], cc_example = [],
     cc_default_image = None \<rparr>"

definition demo_gen :: gen_env where
  "demo_gen = \<lparr> ge_config = demo_config, ge_models = Inr [''m''], ge_tables = ascii_tables, ge_ask = (\<lambda>_. None), ge_cards = [mara_full],
     ge_history = [\<lparr> mr_author_type = ''user'', mr_author_id = None, mr_author_name = [], mr_content = ''Hello'' \<rparr>],
     ge_worlds = [moon_world], ge_state = [], ge_summary = [], ge_recall = plain_recall, ge_memories = star_db, ge_images = (\<lambda>_. Inr []) \<rparr>"

definition demo_chat :: conversation where
  "demo_chat = \<lparr> cv_kind = Direct, cv_turn_index = 0 \<rparr>"

definition quiet_world :: gen_world where
  "quiet_world = \<lparr> gw_db = \<lparr> ch_messages = [], ch_variants = [], ch_deltas = [], ch_revision = 0 \<rparr>, gw_jobs = jobs_new, gw_usage = (0, 0),
     gw_published = [] \<rparr>"

definition hi_update :: "string \<Rightarrow> bool \<Rightarrow> stream_update" where
  "hi_update t fin = empty_update\<lparr> su_text := t, su_done := fin \<rparr>"

definition demo_events :: "gen_event list" where
  "demo_events = [EvData (hi_update ''Hi'' False) True, EvTimeout, EvData (hi_update '' you'' True) False]"

lemma demo_generated:
  "fst (generate demo_gen ''u'' ''c'' None None ''r1'' Opened demo_events 9 demo_chat quiet_world) = Some (Inr ())"
  by code_simp

theorem generate_saves_what_it_streamed_witness:
  "\<exists>frames w'. generate demo_gen ''u'' ''c'' None None ''r1'' Opened demo_events 9 demo_chat quiet_world = (Some (Inr ()), frames, w')
     \<and> chunk_text frames = ''Hi you''
     \<and> (\<exists>sid revision. reply_saved ''c'' sid ''r1'' (chunk_text frames) None revision (gw_db quiet_world) (gw_db w'))"
proof -
  obtain frames w' where g: "generate demo_gen ''u'' ''c'' None None ''r1'' Opened demo_events 9 demo_chat quiet_world = (Some (Inr ()), frames, w')"
    using demo_generated by (metis prod_cases3 fst_conv)
  have "chunk_text (fst (snd (generate demo_gen ''u'' ''c'' None None ''r1'' Opened demo_events 9 demo_chat quiet_world))) = ''Hi you''" by code_simp
  then have t: "chunk_text frames = ''Hi you''" using g by simp
  have "\<exists>sid revision. reply_saved ''c'' sid ''r1'' (chunk_text frames) None revision (gw_db quiet_world) (gw_db w')"
    using generate_saves_what_it_streamed [OF g] by force
  then show ?thesis using g t by blast
qed

theorem generate_failure_keeps_messages_witness:
  "\<exists>frames w'. generate demo_gen ''u'' ''c'' None None ''r1'' Opened [EvFail ''down''] 9 demo_chat quiet_world = (Some (Inl ''down''), frames, w')
     \<and> no_end frames \<and> gw_jobs w' = gw_jobs quiet_world"
proof -
  have "fst (generate demo_gen ''u'' ''c'' None None ''r1'' Opened [EvFail ''down''] 9 demo_chat quiet_world) = Some (Inl ''down'')" by code_simp
  then obtain frames w' where g: "generate demo_gen ''u'' ''c'' None None ''r1'' Opened [EvFail ''down''] 9 demo_chat quiet_world = (Some (Inl ''down''), frames, w')"
    by (metis prod_cases3 fst_conv)
  from generate_failure_keeps_messages [OF g] g show ?thesis by blast
qed

section \<open>Two ends of a cancelled reply\<close>

text \<open>When the client has gone, a cancelled reply is saved but not published to the owner's other
  connections, which are left with a gap in their revisions.\<close>

theorem disconnected_reply_unpublished:
  "(case generate demo_gen ''u'' ''c'' None None ''r1'' Opened [EvData (hi_update ''Hi'' False) True, EvCancel] 2 demo_chat quiet_world of
      (r, _, w) \<Rightarrow> r = Some (Inl ''channel closed'') \<and> map rw_content (ch_messages (gw_db w)) = [''Hi''] \<and> gw_published w = [])"
  by code_simp

text \<open>Cancelling after the stream opened but before its first text saves an empty message; cancelling before
  it opened saves nothing.\<close>

theorem cancelled_reply_saved_empty:
  "(case generate demo_gen ''u'' ''c'' None None ''r1'' Opened [EvCancel] 9 demo_chat quiet_world of
      (r, _, w) \<Rightarrow> r = Some (Inr ()) \<and> map rw_content (ch_messages (gw_db w)) = [[]])
   \<and> (case generate demo_gen ''u'' ''c'' None None ''r1'' OpenCancelled [] 9 demo_chat quiet_world of
      (r, _, w) \<Rightarrow> r = Some (Inr ()) \<and> ch_messages (gw_db w) = [])"
  by code_simp

end
