(* ===== verification/Connection.thy ===== *)
theory Connection
  imports RustStr "HOL-Library.Sublist"
begin

text \<open>
  Connections of the broker (\<^verbatim>\<open>serve\<close> and \<^verbatim>\<open>cancel_connection\<close> of \<^verbatim>\<open>chatty-broker/src/transport.rs\<close>, with
  \<^verbatim>\<open>dispatch_control\<close>, the arm of \<^verbatim>\<open>dispatch\<close> for generations and \<^verbatim>\<open>cancellable_image_job\<close> of
  \<^verbatim>\<open>chatty-broker/src/main.rs\<close>, and \<^verbatim>\<open>delta_visible\<close> and \<^verbatim>\<open>classify_error\<close> of \<^verbatim>\<open>utils.rs\<close>): the registry of
  cancellable work shared by all connections, and the forwarding of published changes.  Tasks are spawned
  per request; what a task does under one hold of the registry's lock is one step, and steps of all
  tasks and connections interleave freely.  A signal is a cancellation sent on the task's channel or the
  loss of its sender, which the tasks treat alike.  That an image job also stops when its connection's
  output channel closes is not modelled.
\<close>

section \<open>The registry of cancellable work\<close>

datatype request_kind = Pull | Generation | ImageJob | OtherRequest

datatype task_phase = Spawned | Running | Ended

type_synonym request_key = "string \<times> nat"

record request_task =
  tk_key :: request_key
  tk_kind :: request_kind
  tk_phase :: task_phase

datatype conn_state = Unused | Open | Closed

record hub =
  hb_conns :: "string \<Rightarrow> conn_state"
  hb_registry :: "request_key \<Rightarrow> nat option"
  hb_tasks :: "nat \<Rightarrow> request_task option"
  hb_signal :: "nat \<Rightarrow> bool"
  hb_next :: nat

definition hub_new :: hub where
  "hub_new = \<lparr> hb_conns = (\<lambda>_. Unused), hb_registry = (\<lambda>_. None), hb_tasks = (\<lambda>_. None), hb_signal = (\<lambda>_. False), hb_next = 0 \<rparr>"

text \<open>Removing an entry drops or uses its sender: the task behind it is signalled.\<close>

definition signal_entry :: "request_key \<Rightarrow> hub \<Rightarrow> hub" where
  "signal_entry key h =
     (case hb_registry h key of None \<Rightarrow> h | Some t \<Rightarrow> h\<lparr> hb_signal := (hb_signal h)(t := True) \<rparr>)"

definition drop_entry :: "request_key \<Rightarrow> hub \<Rightarrow> hub" where
  "drop_entry key h = (signal_entry key h)\<lparr> hb_registry := (hb_registry h)(key := None) \<rparr>"

definition insert_entry :: "request_key \<Rightarrow> nat \<Rightarrow> hub \<Rightarrow> hub" where
  "insert_entry key t h = (signal_entry key h)\<lparr> hb_registry := (hb_registry h)(key := Some t) \<rparr>"

text \<open>\<^verbatim>\<open>dispatch_control\<close> registers a model download before its task is spawned, and nothing else.\<close>

definition dispatch_control :: "request_key \<Rightarrow> request_kind \<Rightarrow> nat \<Rightarrow> hub \<Rightarrow> hub" where
  "dispatch_control key kind t h = (if kind = Pull then insert_entry key t h else h)"

definition receive_request :: "string \<Rightarrow> nat \<Rightarrow> request_kind \<Rightarrow> hub \<Rightarrow> hub" where
  "receive_request conn i kind h =
     (if hb_conns h conn \<noteq> Open then h
      else let t = hb_next h;
               h = dispatch_control (conn, i) kind t h in
           h\<lparr> hb_tasks := (hb_tasks h)(t := Some \<lparr> tk_key = (conn, i), tk_kind = kind,
                tk_phase = (if kind = Pull then Running else Spawned) \<rparr>), hb_next := t + 1 \<rparr>)"

text \<open>The task of a generation or an image job registers itself, after its checks in the database.\<close>

definition register_task :: "nat \<Rightarrow> hub \<Rightarrow> hub" where
  "register_task t h =
     (case hb_tasks h t of
        None \<Rightarrow> h
      | Some tk \<Rightarrow>
          if tk_phase tk \<noteq> Spawned then h
          else let h = (if tk_kind tk = OtherRequest then h else insert_entry (tk_key tk) t h) in
               h\<lparr> hb_tasks := (hb_tasks h)(t := Some (tk\<lparr> tk_phase := Running \<rparr>)) \<rparr>)"

text \<open>However it ends, the wrapper of the task removes its key.\<close>

definition finish_task :: "nat \<Rightarrow> hub \<Rightarrow> hub" where
  "finish_task t h =
     (case hb_tasks h t of
        None \<Rightarrow> h
      | Some tk \<Rightarrow>
          if tk_phase tk = Ended then h
          else (drop_entry (tk_key tk) h)\<lparr> hb_tasks := (hb_tasks h)(t := Some (tk\<lparr> tk_phase := Ended \<rparr>)) \<rparr>)"

definition cancel_frame :: "string \<Rightarrow> nat \<Rightarrow> hub \<Rightarrow> hub" where
  "cancel_frame conn i h = (if hb_conns h conn = Open then drop_entry (conn, i) h else h)"

definition cancel_connection :: "string \<Rightarrow> hub \<Rightarrow> hub" where
  "cancel_connection conn h =
     h\<lparr> hb_signal := (\<lambda>t. hb_signal h t \<or> (case hb_tasks h t of None \<Rightarrow> False
             | Some tk \<Rightarrow> fst (tk_key tk) = conn \<and> hb_registry h (tk_key tk) = Some t)),
        hb_registry := (\<lambda>key. if fst key = conn then None else hb_registry h key) \<rparr>"

definition disconnect :: "string \<Rightarrow> hub \<Rightarrow> hub" where
  "disconnect conn h =
     (if hb_conns h conn = Open then cancel_connection conn (h\<lparr> hb_conns := (hb_conns h)(conn := Closed) \<rparr>) else h)"

datatype hub_event =
    Connect string | Request string nat request_kind | Register nat | Finish nat | CancelFrame string nat | Disconnect string

fun hub_step :: "hub_event \<Rightarrow> hub \<Rightarrow> hub" where
  "hub_step (Connect conn) h = (if hb_conns h conn = Unused then h\<lparr> hb_conns := (hb_conns h)(conn := Open) \<rparr> else h)"
| "hub_step (Request conn i kind) h = receive_request conn i kind h"
| "hub_step (Register t) h = register_task t h"
| "hub_step (Finish t) h = finish_task t h"
| "hub_step (CancelFrame conn i) h = cancel_frame conn i h"
| "hub_step (Disconnect conn) h = disconnect conn h"

inductive hub_reachable :: "hub \<Rightarrow> bool" where
  init: "hub_reachable hub_new"
| step: "hub_reachable h \<Longrightarrow> hub_reachable (hub_step ev h)"

section \<open>Forwarding published changes\<close>

record published =
  pd_owner :: string
  pd_origin :: string
  pd_delta :: nat

definition delta_visible :: "string option \<Rightarrow> string \<Rightarrow> published \<Rightarrow> bool" where
  "delta_visible identity conn ev \<longleftrightarrow> pd_origin ev \<noteq> conn \<and> identity = Some (pd_owner ev)"

text \<open>A connection's receiver of the broadcast channel, which keeps the last \<open>capacity\<close> changes.  The last two
  fields record the changes published since it subscribed and what was handled, each with the identity at
  that time; the code has neither.\<close>

record forwarder =
  fw_conn :: string
  fw_capacity :: nat
  fw_identity :: "string option"
  fw_queue :: "published list"
  fw_lagged :: bool
  fw_closing :: bool
  fw_sent :: "published list"
  fw_published :: "published list"
  fw_handled :: "(string option \<times> published) list"

definition forwarder_new :: "string \<Rightarrow> nat \<Rightarrow> forwarder" where
  "forwarder_new conn capacity = \<lparr> fw_conn = conn, fw_capacity = capacity, fw_identity = None, fw_queue = [], fw_lagged = False,
     fw_closing = False, fw_sent = [], fw_published = [], fw_handled = [] \<rparr>"

text \<open>The broadcast channel: a full queue drops its oldest entry and the receiver is told that it lagged.  The end of the
  task when its client's queue is closed is not a step here.\<close>

definition publish :: "published \<Rightarrow> forwarder \<Rightarrow> forwarder" where
  "publish ev f =
     (let f = f\<lparr> fw_published := fw_published f @ [ev] \<rparr> in
      if length (fw_queue f) < fw_capacity f then f\<lparr> fw_queue := fw_queue f @ [ev] \<rparr>
      else f\<lparr> fw_queue := tl (fw_queue f) @ [ev], fw_lagged := True \<rparr>)"

definition forward_one :: "forwarder \<Rightarrow> forwarder" where
  "forward_one f =
     (if fw_closing f then f
      else if fw_lagged f then f\<lparr> fw_closing := True \<rparr>
      else case fw_queue f of
             [] \<Rightarrow> f
           | ev # rest \<Rightarrow>
               let f = f\<lparr> fw_queue := rest, fw_handled := fw_handled f @ [(fw_identity f, ev)] \<rparr> in
               if delta_visible (fw_identity f) (fw_conn f) ev then f\<lparr> fw_sent := fw_sent f @ [ev] \<rparr> else f)"

datatype forward_event = Publish published | Forward | LogIn "string option"

fun forward_step :: "forward_event \<Rightarrow> forwarder \<Rightarrow> forwarder" where
  "forward_step (Publish ev) f = publish ev f"
| "forward_step Forward f = forward_one f"
| "forward_step (LogIn who) f = f\<lparr> fw_identity := who \<rparr>"

section \<open>Errors\<close>

datatype error_code = Unauthorized | Forbidden | NotFound | ModelMissing | BackendUnavailable | InvalidRequest | Conflict | Internal

definition classify_error :: "(string \<Rightarrow> string) \<Rightarrow> string \<Rightarrow> error_code \<times> bool" where
  "classify_error lower message =
     (let m = lower message in
      if contains ''unauthorized'' m \<or> contains ''credentials'' m then (Unauthorized, False)
      else if contains ''forbidden'' m \<or> contains ''owner'' m then (Forbidden, False)
      else if contains ''not found'' m then (NotFound, False)
      else if contains ''no model'' m then (ModelMissing, True)
      else if contains ''request for url'' m \<or> contains ''http'' m \<or> contains ''backend'' m then (BackendUnavailable, True)
      else if contains ''invalid'' m \<or> contains ''requires'' m \<or> contains ''must'' m then (InvalidRequest, False)
      else if contains ''unique constraint'' m then (Conflict, False)
      else (Internal, False))"

section \<open>Invariants\<close>

definition live_entry :: "hub \<Rightarrow> request_key \<Rightarrow> bool" where
  "live_entry h key \<longleftrightarrow> (\<forall>t. hb_registry h key = Some t \<longrightarrow>
     (\<exists>tk. hb_tasks h t = Some tk \<and> tk_key tk = key \<and> tk_phase tk = Running))"

definition task_ok :: "hub \<Rightarrow> nat \<Rightarrow> bool" where
  "task_ok h t \<longleftrightarrow> (\<forall>tk. hb_tasks h t = Some tk \<longrightarrow> t < hb_next h
     \<and> (tk_phase tk = Running \<longrightarrow> tk_kind tk \<noteq> OtherRequest \<longrightarrow> hb_registry h (tk_key tk) = Some t \<or> hb_signal h t)
     \<and> (tk_kind tk = Pull \<longrightarrow> tk_phase tk \<noteq> Spawned))"

definition hub_inv :: "hub \<Rightarrow> bool" where
  "hub_inv h \<longleftrightarrow> (\<forall>key. live_entry h key) \<and> (\<forall>t. task_ok h t)"

lemma hub_invI: "(\<And>key. live_entry h key) \<Longrightarrow> (\<And>t. task_ok h t) \<Longrightarrow> hub_inv h"
  by (simp add: hub_inv_def)

lemma hub_invD: "hub_inv h \<Longrightarrow> live_entry h key" "hub_inv h \<Longrightarrow> task_ok h t"
  unfolding hub_inv_def by blast+

lemma signal_entry_simps [simp]:
  "hb_registry (signal_entry key h) = hb_registry h" "hb_tasks (signal_entry key h) = hb_tasks h"
  "hb_next (signal_entry key h) = hb_next h" "hb_conns (signal_entry key h) = hb_conns h"
  "hb_signal (signal_entry key h) t \<longleftrightarrow> hb_signal h t \<or> hb_registry h key = Some t"
  by (auto simp: signal_entry_def split: option.splits)

lemma drop_entry_inv: "hub_inv h \<Longrightarrow> hub_inv (drop_entry key h)"
  by (auto simp: hub_inv_def live_entry_def task_ok_def drop_entry_def)

lemma receive_request_inv: "hub_inv h \<Longrightarrow> hub_inv (receive_request conn i kind h)"
  by (cases "hb_conns h conn = Open"; cases "kind = Pull")
    (fastforce simp: hub_inv_def live_entry_def task_ok_def receive_request_def dispatch_control_def insert_entry_def Let_def)+

lemma register_task_inv: "hub_inv h \<Longrightarrow> hub_inv (register_task t h)"
  by (fastforce simp: hub_inv_def live_entry_def task_ok_def register_task_def insert_entry_def Let_def split: option.splits)

lemma finish_task_inv: "hub_inv h \<Longrightarrow> hub_inv (finish_task t h)"
  by (fastforce simp: hub_inv_def live_entry_def task_ok_def finish_task_def drop_entry_def split: option.splits)

lemma disconnect_inv: "hub_inv h \<Longrightarrow> hub_inv (disconnect conn h)"
  by (fastforce simp: hub_inv_def live_entry_def task_ok_def disconnect_def cancel_connection_def split: option.splits)

lemma hub_reachable_inv: "hub_reachable h \<Longrightarrow> hub_inv h"
proof (induction rule: hub_reachable.induct)
  case init
  show ?case by (simp add: hub_new_def hub_inv_def live_entry_def task_ok_def)
next
  case (step h ev)
  have "hub_inv (h\<lparr> hb_conns := f \<rparr>)" for f using step(2) by (simp add: hub_inv_def live_entry_def task_ok_def)
  then show ?case using step(2) drop_entry_inv receive_request_inv register_task_inv finish_task_inv disconnect_inv
    by (cases ev) (auto simp: cancel_frame_def)
qed

definition forward_inv :: "forwarder \<Rightarrow> bool" where
  "forward_inv f \<longleftrightarrow> (\<not> fw_lagged f \<longrightarrow> map snd (fw_handled f) @ fw_queue f = fw_published f)
     \<and> fw_sent f = map snd (filter (\<lambda>(who, ev). delta_visible who (fw_conn f) ev) (fw_handled f))
     \<and> (fw_closing f \<longrightarrow> fw_lagged f) \<and> prefix (map snd (fw_handled f)) (fw_published f)"

lemma forward_step_inv: "forward_inv f \<Longrightarrow> forward_inv (forward_step ev f)"
proof (cases ev)
  case (Publish p)
  assume "forward_inv f"
  then show ?thesis using Publish by (auto simp: forward_inv_def publish_def Let_def)
next
  case Forward
  assume inv: "forward_inv f"
  show ?thesis
  proof (cases "fw_closing f \<or> fw_lagged f \<or> fw_queue f = []")
    case True
    then show ?thesis using inv Forward by (auto simp: forward_inv_def forward_one_def)
  next
    case False
    then obtain p rest where q: "fw_queue f = p # rest" by (cases "fw_queue f") auto
    have pub: "fw_published f = map snd (fw_handled f) @ p # rest" using inv False q by (simp add: forward_inv_def)
    show ?thesis using inv Forward False q pub by (auto simp: forward_inv_def forward_one_def Let_def)
  qed
next
  case (LogIn who)
  assume "forward_inv f"
  then show ?thesis using LogIn by (simp add: forward_inv_def)
qed

lemma forward_run_inv: "forward_inv (fold forward_step evs (forwarder_new conn capacity))"
proof -
  have "forward_inv f \<Longrightarrow> forward_inv (fold forward_step evs f)" for f
    by (induction evs arbitrary: f) (simp_all add: forward_step_inv)
  then show ?thesis by (simp add: forward_inv_def forwarder_new_def)
qed

section \<open>Properties\<close>

text \<open>C14: A cancel frame or a disconnect reaches the work it is for: a download that still runs and every other
  cancellable task that has registered is signalled, only work of that connection is, and the registry
  has entries for running tasks only, none of them of the connection that left.\<close>

theorem cancellation_reaches_work:
  assumes "hub_reachable h" "hb_conns h conn = Open" "hb_tasks h t = Some tk" "tk_key tk = (conn, i)" "tk_phase tk \<noteq> Ended"
    "tk_kind tk = Pull \<or> tk_kind tk \<noteq> OtherRequest \<and> tk_phase tk = Running"
  shows "hb_signal (hub_step (CancelFrame conn i) h) t \<and> hb_signal (hub_step (Disconnect conn) h) t
    \<and> (\<forall>u uk. hb_tasks h u = Some uk \<longrightarrow> fst (tk_key uk) \<noteq> conn \<longrightarrow>
         hb_signal (hub_step (CancelFrame conn i) h) u = hb_signal h u \<and> hb_signal (hub_step (Disconnect conn) h) u = hb_signal h u)
    \<and> (\<forall>n. hb_registry (hub_step (Disconnect conn) h) (conn, n) = None)
    \<and> (\<forall>key u. hb_registry h key = Some u \<longrightarrow> (\<exists>uk. hb_tasks h u = Some uk \<and> tk_key uk = key \<and> tk_phase uk = Running))"
proof -
  have inv: "hub_inv h" by (rule hub_reachable_inv [OF assms(1)])
  have running: "tk_phase tk = Running" "tk_kind tk \<noteq> OtherRequest"
    using hub_invD(2) [OF inv, of t] assms(3,5,6) by (cases "tk_phase tk"; auto simp: task_ok_def)+
  have reg: "hb_registry h (conn, i) = Some t \<or> hb_signal h t"
    using hub_invD(2) [OF inv, of t] assms(3,4) running by (auto simp: task_ok_def)
  have entries: "\<exists>uk. hb_tasks h u = Some uk \<and> tk_key uk = key \<and> tk_phase uk = Running" if "hb_registry h key = Some u" for key u
    using hub_invD(1) [OF inv, of key] that by (simp add: live_entry_def)
  have "hb_signal (hub_step (CancelFrame conn i) h) t" using reg assms(2) by (auto simp: cancel_frame_def drop_entry_def)
  moreover have "hb_signal (hub_step (Disconnect conn) h) t"
    using reg assms(2-4) by (auto simp: disconnect_def cancel_connection_def)
  moreover have "hb_signal (hub_step (CancelFrame conn i) h) u = hb_signal h u \<and> hb_signal (hub_step (Disconnect conn) h) u = hb_signal h u"
    if "hb_tasks h u = Some uk" "fst (tk_key uk) \<noteq> conn" for u uk
    using that assms(2) entries [of "(conn, i)" u] by (auto simp: cancel_frame_def drop_entry_def disconnect_def cancel_connection_def)
  moreover have "hb_registry (hub_step (Disconnect conn) h) (conn, n) = None" for n
    using assms(2) by (simp add: disconnect_def cancel_connection_def)
  ultimately show ?thesis using entries by blast
qed

text \<open>A generation registers itself only after it was spawned, so a cancel frame or a disconnect that comes
  first is lost: there is a run after which the client has cancelled and left, while the generation runs
  on without a signal.\<close>

theorem early_cancel_lost:
  "(let h = fold hub_step [Connect ''c'', Request ''c'' 1 Generation, CancelFrame ''c'' 1, Disconnect ''c'', Register 0] hub_new in
    hb_conns h ''c'' = Closed \<and> map_option tk_phase (hb_tasks h 0) = Some Running \<and> \<not> hb_signal h 0)"
  by code_simp

text \<open>C16: A connection never has a silent gap: unless its receiver fell behind, when it closes, it has handled
  every change published since it subscribed up to those still queued, in order, and forwarded exactly
  those that are of the account it was logged in to at that time and come from another connection.\<close>

theorem no_silent_gap:
  "let f = fold forward_step evs (forwarder_new conn capacity) in
     (fw_lagged f \<or> map snd (fw_handled f) @ fw_queue f = fw_published f)
     \<and> (fw_lagged f \<longrightarrow> fw_closing (forward_step Forward f) \<and> fw_sent (forward_step Forward f) = fw_sent f)
     \<and> fw_sent f = map snd (filter (\<lambda>(who, ev). who = Some (pd_owner ev) \<and> pd_origin ev \<noteq> fw_conn f) (fw_handled f))"
proof -
  define f where "f = fold forward_step evs (forwarder_new conn capacity)"
  have inv: "forward_inv f" unfolding f_def by (rule forward_run_inv)
  have "(\<lambda>(who, ev). who = Some (pd_owner ev) \<and> pd_origin ev \<noteq> fw_conn f) = (\<lambda>(who, ev). delta_visible who (fw_conn f) ev)"
    by (auto simp: delta_visible_def fun_eq_iff)
  then show ?thesis using inv unfolding Let_def f_def [symmetric] by (auto simp: forward_inv_def forward_one_def)
qed

text \<open>Only a missing model and an unreachable backend are worth trying again.\<close>

theorem classify_retryable:
  "snd (classify_error lower message) \<longleftrightarrow> fst (classify_error lower message) \<in> {ModelMissing, BackendUnavailable}"
  by (auto simp: classify_error_def Let_def)

section \<open>Witnesses\<close>

definition pulling :: hub where
  "pulling = fold hub_step [Connect ''c'', Request ''c'' 7 Pull] hub_new"

theorem cancellation_reaches_work_witness:
  "hb_signal (hub_step (CancelFrame ''c'' 7) pulling) 0 \<and> hb_signal (hub_step (Disconnect ''c'') pulling) 0 \<and> \<not> hb_signal pulling 0"
proof -
  have r: "hub_reachable pulling" unfolding pulling_def by (simp del: hub_step.simps) (intro hub_reachable.intros)
  let ?tk = "\<lparr> tk_key = (''c'', 7), tk_kind = Pull, tk_phase = Running \<rparr>"
  have c: "hb_conns pulling ''c'' = Open" and t: "hb_tasks pulling 0 = Some ?tk" and s: "\<not> hb_signal pulling 0"
    by (simp_all add: pulling_def hub_new_def receive_request_def dispatch_control_def insert_entry_def Let_def signal_entry_def)
  show ?thesis using cancellation_reaches_work [OF r c t, of 7] s by simp
qed

definition busy_forwarder :: forwarder where
  "busy_forwarder = fold forward_step [LogIn (Some ''u''), Publish \<lparr> pd_owner = ''u'', pd_origin = ''d'', pd_delta = 1 \<rparr>,
     Publish \<lparr> pd_owner = ''v'', pd_origin = ''d'', pd_delta = 2 \<rparr>, Forward, Forward] (forwarder_new ''c'' 256)"

theorem no_silent_gap_witness:
  "map pd_delta (fw_sent busy_forwarder) = [1] \<and> map pd_delta (map snd (fw_handled busy_forwarder) @ fw_queue busy_forwarder) = [1, 2]"
proof -
  have "\<not> fw_lagged busy_forwarder" "map pd_delta (fw_published busy_forwarder) = [1, 2]" "map pd_delta (fw_sent busy_forwarder) = [1]"
    by code_simp+
  then show ?thesis using no_silent_gap [of "[LogIn (Some ''u''), Publish \<lparr> pd_owner = ''u'', pd_origin = ''d'', pd_delta = 1 \<rparr>,
     Publish \<lparr> pd_owner = ''v'', pd_origin = ''d'', pd_delta = 2 \<rparr>, Forward, Forward]" "''c''" 256, folded busy_forwarder_def] by (simp add: Let_def)
qed

end
