(* ===== verification/AdapterHost.thy ===== *)
theory AdapterHost
  imports MetalSession
begin

text \<open>
  The host of the sandboxed API adapters (\<^verbatim>\<open>WasmAdapter\<close>, \<^verbatim>\<open>Decoder\<close> and \<^verbatim>\<open>HttpStream\<close> of
  \<^verbatim>\<open>chatty-broker/src/adapters/runtime/mod.rs\<close>): a guest module is untrusted and only describes HTTP calls;
  the host checks every plan, attaches the key, bounds what it reads, and hands streamed records back.
  The guest, the URL parser, the HTTP client and the JSON parser are arguments.  A URL is what the parser
  makes of it; an opaque origin equals none.  Requests of one plan run concurrently in the code; the
  first error by position stands for whichever comes first.
\<close>

section \<open>Plans\<close>

record url =
  ur_scheme :: string
  ur_host :: "string option"
  ur_origin :: "(string \<times> string \<times> nat) option"
  ur_path :: string
  ur_query :: "string option"
  ur_fragment :: "string option"
  ur_username :: string
  ur_password :: "string option"

definition same_origin :: "url \<Rightarrow> url \<Rightarrow> bool" where
  "same_origin a b = (case ur_origin a of None \<Rightarrow> False | Some t \<Rightarrow> ur_origin b = Some t)"

datatype http_method = HGet | HPost | HDelete

record http_request =
  hr_method :: http_method
  hr_url :: string
  hr_query :: "(string \<times> string) list"
  hr_body :: "string option"
  hr_timeout :: "nat option"

datatype response_kind = RModels | RCompletion | RState | RAction | RSearch | RImage

record http_plan =
  hp_requests :: "http_request list"
  hp_response :: response_kind
  hp_stream :: bool
  hp_limit :: nat
  hp_content_types :: "string list"

text \<open>The requests the broker makes; of a chat or an image the host uses the time budget only.\<close>

datatype adapter_request =
    AModels nat | AComplete "nat option" | AStream "nat option" | APull string | AState | AAction string | ASearch string
  | AImage nat | AImageStatus string | AImageCancel string | AImageUnload

definition ADAPTER_MESSAGE_BYTES :: nat where "ADAPTER_MESSAGE_BYTES = 8 * 1024 * 1024"

definition SIX_HOURS :: nat where "SIX_HOURS = 6 * 60 * 60 * 1000"

record operation =
  op_kind :: response_kind
  op_stream :: bool
  op_timeout :: "nat option"
  op_methods :: "http_method list"
  op_requests :: nat
  op_limit :: nat

definition operation_of :: "response_kind \<Rightarrow> bool \<Rightarrow> nat option \<Rightarrow> http_method list \<Rightarrow> nat \<Rightarrow> nat \<Rightarrow> operation" where
  "operation_of kind stream timeout methods requests limit =
     \<lparr> op_kind = kind, op_stream = stream, op_timeout = timeout, op_methods = methods, op_requests = requests, op_limit = limit \<rparr>"

fun adapter_operation :: "adapter_request \<Rightarrow> operation" where
  "adapter_operation (AModels ms) = operation_of RModels False (Some ms) [HGet] 4 ADAPTER_MESSAGE_BYTES"
| "adapter_operation (AComplete ms) =
     operation_of RCompletion False (case ms of Some n \<Rightarrow> Some n | None \<Rightarrow> Some SIX_HOURS) [HPost] 1 ADAPTER_MESSAGE_BYTES"
| "adapter_operation (AStream ms) = operation_of RCompletion True ms [HPost] 1 ADAPTER_MESSAGE_BYTES"
| "adapter_operation AState = operation_of RState False (Some 20000) [HGet] 4 ADAPTER_MESSAGE_BYTES"
| "adapter_operation (APull _) = operation_of RAction True (Some SIX_HOURS) [HPost] 1 ADAPTER_MESSAGE_BYTES"
| "adapter_operation (AAction _) = operation_of RAction False (Some SIX_HOURS) [HPost, HDelete] 1 ADAPTER_MESSAGE_BYTES"
| "adapter_operation (ASearch _) = operation_of RSearch False (Some 20000) [HGet] 1 (2 * 1024 * 1024)"
| "adapter_operation (AImage ms) = operation_of RImage False (Some ms) [HPost] 1 ADAPTER_MESSAGE_BYTES"
| "adapter_operation (AImageStatus _) = operation_of RImage False (Some 20000) [HGet] 1 ADAPTER_MESSAGE_BYTES"
| "adapter_operation AImageUnload = operation_of RAction False (Some 20000) [HPost] 1 ADAPTER_MESSAGE_BYTES"
| "adapter_operation (AImageCancel _) = operation_of RAction False (Some 10000) [HPost, HDelete] 2 ADAPTER_MESSAGE_BYTES"

section \<open>Credentials\<close>

record bearer_credential =
  bc_origin :: url
  bc_header :: string

text \<open>\<open>header_ok\<close>: the header type accepts the text and it is visible ASCII.\<close>

definition bearer_credential_new ::
  "(string \<Rightarrow> url option) \<Rightarrow> (string \<Rightarrow> bool) \<Rightarrow> url \<Rightarrow> string \<Rightarrow> string \<Rightarrow> string + bearer_credential" where
  "bearer_credential_new parse header_ok base orig token =
     (case parse orig of
        None \<Rightarrow> Inl ''invalid credential origin''
      | Some u \<Rightarrow>
          if \<not> (ur_scheme u = ''http'' \<or> ur_scheme u = ''https'') \<or> ur_host u = None \<or> ur_path u \<noteq> ''/'' \<or> ur_query u \<noteq> None
             \<or> ur_fragment u \<noteq> None \<or> ur_username u \<noteq> [] \<or> ur_password u \<noteq> None \<or> \<not> same_origin base u
             \<or> ur_username base \<noteq> [] \<or> ur_password base \<noteq> None
          then Inl ''credential origin must match the configured server origin, without paths or URL credentials''
          else if token = [] then Inl ''adapter API key must not be empty''
          else if \<not> header_ok (''Bearer '' @ token) then Inl ''invalid adapter API key header''
          else Inr \<lparr> bc_origin = u, bc_header = ''Bearer '' @ token \<rparr>)"

fun str_replace :: "nat \<Rightarrow> string \<Rightarrow> string \<Rightarrow> string \<Rightarrow> string" where
  "str_replace 0 key new s = s"
| "str_replace (Suc n) key new s =
     (case s of
        [] \<Rightarrow> []
      | c # cs \<Rightarrow> if starts_with key s then new @ str_replace n key new (drop (length key) s) else c # str_replace n key new cs)"

definition redact_error :: "bearer_credential option \<Rightarrow> string \<Rightarrow> string" where
  "redact_error cred e =
     (case cred of
        None \<Rightarrow> e
      | Some c \<Rightarrow> str_replace (length e) (drop (length ''Bearer '') (bc_header c)) ''[redacted]'' e)"

section \<open>Preparing a plan\<close>

record adapter_host =
  ah_parse :: "string \<Rightarrow> url option"
  ah_base :: url
  ah_credential :: "bearer_credential option"

definition on_origin :: "url \<Rightarrow> url \<Rightarrow> bool" where
  "on_origin base u \<longleftrightarrow> same_origin u base \<and> ur_username u = ur_username base \<and> ur_password u = ur_password base \<and> ur_fragment u = None"

fun check_urls :: "(string \<Rightarrow> url option) \<Rightarrow> url \<Rightarrow> http_request list \<Rightarrow> string + unit" where
  "check_urls parse base [] = Inr ()"
| "check_urls parse base (r # rs) =
     (case parse (hr_url r) of
        None \<Rightarrow> Inl ''invalid URL''
      | Some u \<Rightarrow> if \<not> on_origin base u then Inl ''adapter HTTP request must stay on its configured origin'' else check_urls parse base rs)"

definition validate_plan :: "(string \<Rightarrow> url option) \<Rightarrow> url \<Rightarrow> http_plan \<Rightarrow> string + unit" where
  "validate_plan parse base plan =
     (if hp_requests plan = [] \<or> 4 < length (hp_requests plan) \<or> hp_limit plan = 0 \<or> ADAPTER_MESSAGE_BYTES < hp_limit plan
      then Inl ''invalid adapter HTTP plan bounds'' else check_urls parse base (hp_requests plan))"

datatype plugin_output = OutPlan http_plan | OutStream stream_update | OutOther string

fun limit_requests :: "operation \<Rightarrow> http_request list \<Rightarrow> string + http_request list" where
  "limit_requests p [] = Inr []"
| "limit_requests p (r # rs) =
     (if hr_method r \<notin> set (op_methods p) then Inl ''adapter HTTP method is not allowed for this operation''
      else and_then (limit_requests p rs) (\<lambda>rs.
        Inr ((case op_timeout p of
                None \<Rightarrow> r
              | Some ms \<Rightarrow> r\<lparr> hr_timeout := Some (min (case hr_timeout r of Some n \<Rightarrow> n | None \<Rightarrow> ms) ms) \<rparr>) # rs)))"

definition prepare_plan :: "adapter_host \<Rightarrow> (adapter_request \<Rightarrow> string + plugin_output) \<Rightarrow> adapter_request \<Rightarrow> string + http_plan" where
  "prepare_plan a guest req =
     (let p = adapter_operation req in
      and_then (guest req) (\<lambda>answer.
        case answer of
          OutPlan plan \<Rightarrow>
            and_then (validate_plan (ah_parse a) (ah_base a) plan) (\<lambda>_.
              if hp_response plan \<noteq> op_kind p \<or> hp_stream plan \<noteq> op_stream p \<or> op_requests p < length (hp_requests plan)
              then Inl ''adapter HTTP plan does not match the requested operation''
              else and_then (limit_requests p (hp_requests plan)) (\<lambda>rs.
                Inr (plan\<lparr> hp_limit := min (hp_limit plan) (op_limit p), hp_requests := rs \<rparr>)))
        | _ \<Rightarrow> Inl ''adapter returned no HTTP plan''))"

section \<open>Sending\<close>

record wire_request =
  wr_method :: http_method
  wr_url :: url
  wr_query :: "(string \<times> string) list"
  wr_body :: "string option"
  wr_auth :: "string option"
  wr_timeout :: "nat option"

definition build_request :: "adapter_host \<Rightarrow> http_request \<Rightarrow> string + wire_request" where
  "build_request a r =
     (case ah_parse a (hr_url r) of
        None \<Rightarrow> Inl ''invalid URL''
      | Some u \<Rightarrow>
          if \<not> on_origin (ah_base a) u then Inl ''adapter HTTP request must stay on its configured origin''
          else if (case ah_credential a of None \<Rightarrow> False | Some c \<Rightarrow> \<not> same_origin u (bc_origin c))
          then Inl ''adapter credential origin mismatch''
          else Inr \<lparr> wr_method = hr_method r, wr_url = u, wr_query = hr_query r, wr_body = hr_body r,
                 wr_auth = map_option bc_header (ah_credential a), wr_timeout = map_option (clamp 1 SIX_HOURS) (hr_timeout r) \<rparr>)"

record http_response =
  rs_status :: nat
  rs_content_type :: string
  rs_chunks :: "(string + string) list"
  rs_error :: string

text \<open>\<open>net\<close>: the HTTP client; \<open>rs_error\<close>: the message read from an error's body.\<close>

fun read_bounded :: "nat \<Rightarrow> string \<Rightarrow> (string + string) list \<Rightarrow> string + string" where
  "read_bounded limit bytes [] = Inr bytes"
| "read_bounded limit bytes (Inl e # cs) = Inl e"
| "read_bounded limit bytes (Inr c # cs) =
     (if limit < length bytes + length c then Inl ''adapter HTTP response exceeded its limit'' else read_bounded limit (bytes @ c) cs)"

definition check_response :: "adapter_host \<Rightarrow> http_response \<Rightarrow> string + http_response" where
  "check_response a r =
     (if 400 \<le> rs_status r \<and> rs_status r < 600
      then and_then (read_bounded ADAPTER_MESSAGE_BYTES [] (rs_chunks r)) (\<lambda>_.
        Inl (redact_error (ah_credential a) (''adapter HTTP '' @ show_nat (rs_status r) @ '': '' @ rs_error r)))
      else if 300 \<le> rs_status r \<and> rs_status r < 400 then Inl ''adapter HTTP redirects are not allowed''
      else Inr r)"

text \<open>The second component is what went out on the wire.\<close>

definition send :: "adapter_host \<Rightarrow> (wire_request \<Rightarrow> string + http_response) \<Rightarrow> http_request \<Rightarrow> (string + http_response) \<times> wire_request list" where
  "send a net r =
     (case build_request a r of
        Inl e \<Rightarrow> (Inl e, [])
      | Inr q \<Rightarrow> (and_then (net q) (check_response a), [q]))"

definition execute ::
  "adapter_host \<Rightarrow> (adapter_request \<Rightarrow> string + plugin_output) \<Rightarrow> (wire_request \<Rightarrow> string + http_response)
   \<Rightarrow> (response_kind \<Rightarrow> string list \<Rightarrow> string + plugin_output) \<Rightarrow> adapter_request \<Rightarrow> (string + plugin_output) \<times> wire_request list" where
  "execute a guest net decoded req =
     (case prepare_plan a guest req of
        Inl e \<Rightarrow> (Inl e, [])
      | Inr plan \<Rightarrow>
          if hp_stream plan then (Inl ''unexpected streaming HTTP plan'', [])
          else
            let sent = map (send a net) (hp_requests plan);
                bodies = try_map (\<lambda>(r, _). and_then r (\<lambda>r.
                  if hp_response plan = RAction then Inr ''null'' else read_bounded (hp_limit plan) [] (rs_chunks r))) sent in
            (and_then bodies (\<lambda>bs. map_err (redact_error (ah_credential a)) (decoded (hp_response plan) bs)),
             concat (map snd sent)))"

section \<open>Streaming\<close>

record http_stream =
  st_body :: "(string + string) list"
  st_buffer :: string
  st_ended :: bool
  st_given :: "string list"

definition start_stream ::
  "adapter_host \<Rightarrow> (adapter_request \<Rightarrow> string + plugin_output) \<Rightarrow> (wire_request \<Rightarrow> string + http_response) \<Rightarrow> adapter_request
   \<Rightarrow> (string + http_stream) \<times> wire_request list" where
  "start_stream a guest net req =
     (case prepare_plan a guest req of
        Inl e \<Rightarrow> (Inl e, [])
      | Inr plan \<Rightarrow>
          if \<not> hp_stream plan \<or> length (hp_requests plan) \<noteq> 1 then (Inl ''adapter returned no streaming HTTP plan'', [])
          else
            (case send a net (hd (hp_requests plan)) of
               (Inl e, qs) \<Rightarrow> (Inl e, qs)
             | (Inr r, qs) \<Rightarrow>
                 let mime = map ascii_lower (rs_content_type r) in
                 (if list_ex (\<lambda>p. starts_with p mime) (hp_content_types plan)
                  then Inr \<lparr> st_body = rs_chunks r, st_buffer = [], st_ended = False, st_given = [] \<rparr>
                  else Inl (''backend does not support streaming (content-type: '' @ mime @ '')''), qs)))"

text \<open>The bytes up to and with the last newline, and the rest.\<close>

definition whole_lines :: "string \<Rightarrow> string \<times> string" where
  "whole_lines b = (let rest = rev (takeWhile (\<lambda>c. c \<noteq> CHR 0x0A) (rev b)) in (take (length b - length rest) b, rest))"

text \<open>The end of the body ends the last record.\<close>

definition ended :: "string \<Rightarrow> string" where
  "ended b = (if b \<noteq> [] \<and> last b \<noteq> CHR 0x0A then b @ nl else b)"

text \<open>\<open>records\<close>: the guest's answer to the records given so far, the new ones last.\<close>

definition decoder_push ::
  "(string list \<Rightarrow> string + plugin_output) \<Rightarrow> string \<Rightarrow> bool \<Rightarrow> http_stream \<Rightarrow> (string + stream_update option) \<times> http_stream" where
  "decoder_push records bytes eof s =
     (if ADAPTER_MESSAGE_BYTES < length (st_buffer s) + length bytes then (Inl ''adapter stream record exceeds 8 MiB'', s)
      else
        let b = (if eof then ended (st_buffer s @ bytes) else st_buffer s @ bytes) in
        (case whole_lines b of
           (lines, rest) \<Rightarrow>
             if lines = [] then (Inr None, s\<lparr> st_buffer := b \<rparr>)
             else if \<not> utf8 lines then (Inl ''invalid utf-8'', s\<lparr> st_buffer := b \<rparr>)
             else
               (case records (st_given s @ [lines]) of
                  Inl e \<Rightarrow> (Inl e, s\<lparr> st_buffer := b \<rparr>)
                | Inr answer \<Rightarrow>
                    let s = s\<lparr> st_buffer := rest, st_given := st_given s @ [lines] \<rparr> in
                    (case answer of OutStream u \<Rightarrow> (Inr (Some u), s) | _ \<Rightarrow> (Inl ''adapter returned no stream update'', s)))))"

fun read_next :: "(string list \<Rightarrow> string + plugin_output) \<Rightarrow> (string + string) list \<Rightarrow> http_stream \<Rightarrow> (string + stream_update option) \<times> http_stream" where
  "read_next records [] s =
     (case decoder_push records [] True s of
        (Inl e, s) \<Rightarrow> (Inl e, s\<lparr> st_body := [] \<rparr>)
      | (Inr (Some u), s) \<Rightarrow> (Inr (Some u), s\<lparr> st_body := [], st_ended := True \<rparr>)
      | (Inr None, s) \<Rightarrow> (Inr None, s\<lparr> st_body := [], st_ended := True \<rparr>))"
| "read_next records (Inl e # cs) s = (Inl e, s\<lparr> st_body := cs \<rparr>)"
| "read_next records (Inr c # cs) s =
     (case decoder_push records c False s of
        (Inl e, s) \<Rightarrow> (Inl e, s\<lparr> st_body := cs \<rparr>)
      | (Inr (Some u), s) \<Rightarrow> (Inr (Some u), s\<lparr> st_body := cs, st_ended := su_done u \<rparr>)
      | (Inr None, s) \<Rightarrow> read_next records cs s)"

definition http_next ::
  "bearer_credential option \<Rightarrow> (string list \<Rightarrow> string + plugin_output) \<Rightarrow> http_stream \<Rightarrow> (string + stream_update option) \<times> http_stream" where
  "http_next cred records s =
     (if st_ended s then (Inr None, s)
      else case read_next records (st_body s) s of (r, s) \<Rightarrow> (map_err (redact_error cred) r, s))"

section \<open>Image jobs\<close>

definition MAX_IMAGE_TIMEOUT :: nat where "MAX_IMAGE_TIMEOUT = 30 * 60 * 1000"

definition MAX_IMAGE_BYTES :: nat where "MAX_IMAGE_BYTES = 16 * 1024 * 1024"

definition MAX_IMAGES :: nat where "MAX_IMAGES = 4"

datatype image_output = Base64Image string | GetImage string "(string \<times> string) list"

datatype image_job = ImagePending string nat | ImageReady "image_output list"

text \<open>The polling loop, in milliseconds: what each status request took and answered is the argument list.  The
  second component is the job the guard cancels when it is dropped; the result is \<open>None\<close> while the last
  request is not answered.\<close>

fun poll_image :: "nat \<Rightarrow> nat \<Rightarrow> string option \<Rightarrow> image_job \<Rightarrow> (nat \<times> (string + image_job)) list
   \<Rightarrow> (string + image_output list) option \<times> string option" where
  "poll_image now deadline pending (ImageReady images) answers = (Some (Inr images), None)"
| "poll_image now deadline pending (ImagePending i poll_after) answers =
     (let pending = (if i \<noteq> [] then Some i else pending) in
      case pending of
        None \<Rightarrow> (Some (Inl ''adapter returned a pending image without a job ID''), None)
      | Some job \<Rightarrow>
          let wake = now + clamp 250 5000 poll_after in
          if deadline \<le> wake then (Some (Inl ''image generation timed out''), Some job)
          else case answers of
                 [] \<Rightarrow> (None, Some job)
               | (took, Inl e) # _ \<Rightarrow> (Some (Inl e), Some job)
               | (took, Inr answer) # answers \<Rightarrow> poll_image (wake + took) deadline (Some job) answer answers)"

definition image_path_ok :: "string \<Rightarrow> bool" where
  "image_path_ok path \<longleftrightarrow> path \<noteq> [] \<and> length path \<le> 1024 \<and> hd path \<noteq> CHR ''/''
     \<and> \<not> list_ex (\<lambda>c. c \<in> {CHR ''?'', CHR ''#'', CHR 0x5C}) path \<and> \<not> list_ex (\<lambda>part. part = ''.'' \<or> part = ''..'') (split_at (CHR ''/'') path)"

definition fetch_image :: "adapter_host \<Rightarrow> string \<Rightarrow> (wire_request \<Rightarrow> string + http_response) \<Rightarrow> string \<Rightarrow> (string \<times> string) list \<Rightarrow> string + string" where
  "fetch_image a base_text net path query =
     (if \<not> image_path_ok path then Inl ''adapter image path is invalid''
      else and_then (fst (send a net \<lparr> hr_method = HGet, hr_url = base_text @ ''/'' @ path, hr_query = query, hr_body = None, hr_timeout = Some 60000 \<rparr>)) (\<lambda>r.
        if \<not> starts_with ''image/'' (map ascii_lower (rs_content_type r)) then Inl ''adapter image response is not an image''
        else read_bounded MAX_IMAGE_BYTES [] (rs_chunks r)))"

definition encode_image ::
  "adapter_host \<Rightarrow> string \<Rightarrow> (wire_request \<Rightarrow> string + http_response) \<Rightarrow> (string \<Rightarrow> string option) \<Rightarrow> image_output \<Rightarrow> string + string" where
  "encode_image a base_text net base64 image_out =
     (case image_out of
        Base64Image d \<Rightarrow>
          if MAX_IMAGE_BYTES < length d div 4 * 3 then Inl ''adapter image exceeds 16 MiB''
          else ok_or ''adapter image is not valid base64'' (base64 d)
      | GetImage path query \<Rightarrow> fetch_image a base_text net path query)"

text \<open>\<open>submit\<close>: the answer to the submission with its time budget.\<close>

definition generate_image ::
  "adapter_host \<Rightarrow> string \<Rightarrow> (wire_request \<Rightarrow> string + http_response) \<Rightarrow> (string \<Rightarrow> string option) \<Rightarrow> (nat \<Rightarrow> string + image_job) \<Rightarrow> nat
   \<Rightarrow> nat \<Rightarrow> (nat \<times> (string + image_job)) list \<Rightarrow> (string + string list) option \<times> string option" where
  "generate_image a base_text net base64 submit timeout took answers =
     (let budget = min timeout MAX_IMAGE_TIMEOUT in
      case submit budget of
        Inl e \<Rightarrow> (Some (Inl e), None)
      | Inr job \<Rightarrow>
          (case poll_image took budget None job answers of
             (None, cancel_job) \<Rightarrow> (None, cancel_job)
           | (Some (Inl e), cancel_job) \<Rightarrow> (Some (Inl e), cancel_job)
           | (Some (Inr images), cancel_job) \<Rightarrow>
               (Some (if images = [] \<or> MAX_IMAGES < length images then Inl ''adapter returned an invalid image count''
                      else try_map (encode_image a base_text net base64) images), cancel_job)))"

section \<open>Lemmas on plans\<close>

lemma same_origin_sym: "same_origin a b \<Longrightarrow> same_origin b a"
  by (auto simp: same_origin_def split: option.splits)

lemma same_origin_trans: "same_origin a b \<Longrightarrow> same_origin b c \<Longrightarrow> same_origin a c"
  by (auto simp: same_origin_def split: option.splits)

lemma limit_requests_ok:
  "limit_requests p rs = Inr rs' \<Longrightarrow> length rs' = length rs \<and> (\<forall>r \<in> set rs'. hr_method r \<in> set (op_methods p)
     \<and> (\<forall>ms. op_timeout p = Some ms \<longrightarrow> (\<exists>n \<le> ms. hr_timeout r = Some n)))"
  by (induction rs arbitrary: rs') (auto simp: and_then_eq_Inr split: if_splits option.splits)

lemma prepare_plan_ok:
  assumes "prepare_plan a guest req = Inr plan"
  shows "length (hp_requests plan) \<le> op_requests (adapter_operation req)" "hp_limit plan \<le> op_limit (adapter_operation req)"
    "hp_stream plan = op_stream (adapter_operation req)"
    "r \<in> set (hp_requests plan) \<Longrightarrow> hr_method r \<in> set (op_methods (adapter_operation req))"
    "r \<in> set (hp_requests plan) \<Longrightarrow> op_timeout (adapter_operation req) = Some ms \<Longrightarrow> \<exists>n \<le> ms. hr_timeout r = Some n"
proof -
  obtain pl rs where p: "hp_stream pl = op_stream (adapter_operation req)" "length (hp_requests pl) \<le> op_requests (adapter_operation req)"
    "limit_requests (adapter_operation req) (hp_requests pl) = Inr rs"
    "plan = pl\<lparr> hp_limit := min (hp_limit pl) (op_limit (adapter_operation req)), hp_requests := rs \<rparr>"
  proof -
    obtain answer where g: "guest req = Inr answer" using assms by (cases "guest req") (auto simp: prepare_plan_def Let_def)
    then obtain pl where pl: "answer = OutPlan pl" using assms by (cases answer) (auto simp: prepare_plan_def Let_def)
    show ?thesis using that [of pl] assms g pl by (auto simp: prepare_plan_def Let_def and_then_eq_Inr split: if_splits)
  qed
  note l = limit_requests_ok [OF p(3)]
  show "length (hp_requests plan) \<le> op_requests (adapter_operation req)" "hp_limit plan \<le> op_limit (adapter_operation req)"
    "hp_stream plan = op_stream (adapter_operation req)" using p l by simp_all
  show "hr_method r \<in> set (op_methods (adapter_operation req))" if "r \<in> set (hp_requests plan)" using that p(4) l by simp
  show "\<exists>n \<le> ms. hr_timeout r = Some n" if "r \<in> set (hp_requests plan)" "op_timeout (adapter_operation req) = Some ms" using that p(4) l by simp
qed

text \<open>What may go out on the wire for an operation.\<close>

definition confined :: "adapter_host \<Rightarrow> operation \<Rightarrow> wire_request \<Rightarrow> bool" where
  "confined a p q \<longleftrightarrow> on_origin (ah_base a) (wr_url q) \<and> wr_method q \<in> set (op_methods p)
     \<and> (case op_timeout p of None \<Rightarrow> True | Some ms \<Rightarrow> (case wr_timeout q of None \<Rightarrow> False | Some n \<Rightarrow> n \<le> max 1 (min ms SIX_HOURS)))
     \<and> (case wr_auth q of None \<Rightarrow> True | Some h \<Rightarrow>
          (case ah_credential a of None \<Rightarrow> False | Some c \<Rightarrow> h = bc_header c \<and> same_origin (wr_url q) (bc_origin c)))"

lemma send_confined:
  assumes "prepare_plan a guest req = Inr plan" "r \<in> set (hp_requests plan)" "q \<in> set (snd (send a net r))"
  shows "confined a (adapter_operation req) q"
proof -
  have b: "build_request a r = Inr q" using assms(3) by (auto simp: send_def split: sum.splits)
  obtain u where u: "on_origin (ah_base a) u" "case ah_credential a of None \<Rightarrow> True | Some c \<Rightarrow> same_origin u (bc_origin c)"
    and q: "q = \<lparr> wr_method = hr_method r, wr_url = u, wr_query = hr_query r, wr_body = hr_body r,
                 wr_auth = map_option bc_header (ah_credential a), wr_timeout = map_option (clamp 1 SIX_HOURS) (hr_timeout r) \<rparr>"
    using b by (auto simp: build_request_def split: option.splits if_splits)
  have "clamp 1 SIX_HOURS n \<le> max 1 (min ms SIX_HOURS)" if "n \<le> ms" for n ms
    using that by (auto simp: clamp_def SIX_HOURS_def)
  then show ?thesis using u prepare_plan_ok(4,5) [OF assms(1) assms(2)] unfolding q confined_def
    by (fastforce split: option.splits)
qed

lemma length_send: "length (snd (send a net r)) \<le> 1"
  by (simp add: send_def split: sum.splits)

lemma length_sends: "length (concat (map snd (map (send a net) rs))) \<le> length rs"
proof (induction rs)
  case (Cons r rs)
  then show ?case using length_send [of a net r] by simp
qed simp

lemma read_bounded_le: "length bytes \<le> limit \<Longrightarrow> read_bounded limit bytes cs = Inr body \<Longrightarrow> length body \<le> limit"
  by (induction limit bytes cs rule: read_bounded.induct) (auto split: if_splits)

section \<open>Lemmas on streams\<close>

definition framed :: "http_stream \<Rightarrow> bool" where
  "framed s \<longleftrightarrow> (\<forall>l \<in> set (st_given s). l \<noteq> [] \<and> last l = CHR 0x0A) \<and> CHR 0x0A \<notin> set (st_buffer s)"

definition stream_bytes :: "http_stream \<Rightarrow> string" where
  "stream_bytes s = concat (st_given s) @ st_buffer s"

lemma whole_lines_split:
  assumes "whole_lines b = (lines, rest)"
  shows "b = lines @ rest" "CHR 0x0A \<notin> set rest" "lines \<noteq> [] \<Longrightarrow> last lines = CHR 0x0A"
proof -
  let ?t = "takeWhile (\<lambda>c. c \<noteq> CHR 0x0A) (rev b)" and ?d = "dropWhile (\<lambda>c. c \<noteq> CHR 0x0A) (rev b)"
  have b: "b = rev ?d @ rev ?t" by (metis rev_append rev_rev_ident takeWhile_dropWhile_id)
  have "take (length b - length ?t) b = rev ?d" by (subst (2) b) (metis append_eq_conv_conj b diff_add_inverse2 length_append length_rev)
  then have s: "lines = rev ?d" "rest = rev ?t" using assms by (simp_all add: whole_lines_def Let_def)
  show "b = lines @ rest" using b s by simp
  show "CHR 0x0A \<notin> set rest" using s by (auto dest: set_takeWhileD)
  show "last lines = CHR 0x0A" if "lines \<noteq> []"
    using that s hd_dropWhile [of "\<lambda>c. c \<noteq> CHR 0x0A" "rev b"] by (simp add: last_rev)
qed

lemma decoder_push_ok:
  assumes "framed s" "decoder_push records bytes eof s = (Inr r, s')"
  shows "framed s'" "stream_bytes s' = (if eof then concat (st_given s) @ ended (st_buffer s @ bytes) else stream_bytes s @ bytes)"
    "eof \<Longrightarrow> st_buffer s' = []" "st_body s' = st_body s" "st_ended s' = st_ended s"
proof -
  let ?b = "if eof then ended (st_buffer s @ bytes) else st_buffer s @ bytes"
  obtain lines rest where w: "whole_lines ?b = (lines, rest)" by fastforce
  note wl = whole_lines_split [OF w]
  have eof_rest: "rest = []" if "eof"
  proof (rule ccontr)
    assume "rest \<noteq> []"
    then have r: "last (lines @ rest) = last rest" "last rest \<in> set rest" "lines @ rest \<noteq> []" by simp_all
    have "ended (st_buffer s @ bytes) = lines @ rest" using wl(1) that by simp
    moreover have "last (ended b) = CHR 0x0A" if "ended b \<noteq> []" for b using that by (auto simp: ended_def nl_def)
    ultimately have "last (lines @ rest) = CHR 0x0A" using r(3) by metis
    then show False using r wl(2) by simp
  qed
  consider (none) "lines = []" "s' = s\<lparr> st_buffer := ?b \<rparr>"
    | (some) "lines \<noteq> []" "s' = s\<lparr> st_buffer := rest, st_given := st_given s @ [lines] \<rparr>"
    using assms(2) w unfolding decoder_push_def Let_def
    by (auto split: if_splits sum.splits plugin_output.splits)
  then have "framed s' \<and> stream_bytes s' = concat (st_given s) @ ?b \<and> (eof \<longrightarrow> st_buffer s' = []) \<and> st_body s' = st_body s \<and> st_ended s' = st_ended s"
  proof cases
    case none
    then have "?b = rest" using wl(1) by simp
    then show ?thesis using none(2) wl(2) eof_rest assms(1) by (simp add: framed_def stream_bytes_def)
  next
    case some
    then show ?thesis using wl eof_rest assms(1) by (auto simp: framed_def stream_bytes_def)
  qed
  then show "framed s'" "stream_bytes s' = (if eof then concat (st_given s) @ ended (st_buffer s @ bytes) else stream_bytes s @ bytes)"
    "eof \<Longrightarrow> st_buffer s' = []" "st_body s' = st_body s" "st_ended s' = st_ended s"
    by (auto simp: stream_bytes_def)
qed

lemma last_concat_lines:
  "(\<And>l. l \<in> set ls \<Longrightarrow> l \<noteq> [] \<and> last l = x) \<Longrightarrow> concat ls = [] \<or> last (concat ls) = x"
  by (induction ls rule: rev_induct) auto

lemma read_next_ok:
  assumes "framed s" "read_next records cs s = (Inr r, s')"
  shows "framed s' \<and> (\<exists>consumed. cs = map Inr consumed @ st_body s'
      \<and> (stream_bytes s' = stream_bytes s @ concat consumed \<and> (st_ended s' \<longrightarrow> (\<exists>u. r = Some u \<and> su_done u)) \<and> consumed \<noteq> []
         \<or> st_body s' = [] \<and> st_ended s' \<and> st_buffer s' = [] \<and> ended (stream_bytes s @ concat consumed) = stream_bytes s'))
    \<and> (r = None \<longrightarrow> st_ended s')"
  using assms
proof (induction records cs s rule: read_next.induct)
  case (1 records s)
  obtain q t where q: "decoder_push records [] True s = (q, t)" by fastforce
  then obtain x where x: "q = Inr x" using 1(2) by (cases q) auto
  note p = decoder_push_ok [OF 1(1) q [unfolded x]]
  have s': "s' = t\<lparr> st_body := [], st_ended := True \<rparr>" using 1(2) q x by (auto split: option.splits)
  have "ended (stream_bytes s) = concat (st_given s) @ ended (st_buffer s)"
  proof (cases "st_buffer s = []")
    case True
    then show ?thesis using 1(1) last_concat_lines [of "st_given s" "CHR 0x0A"] by (auto simp: ended_def stream_bytes_def framed_def)
  qed (simp add: ended_def stream_bytes_def)
  then show ?case using p s' by (auto simp: framed_def stream_bytes_def intro!: exI [of _ "[]"])
next
  case (3 records c cs s)
  obtain q t where q: "decoder_push records c False s = (q, t)" by fastforce
  then obtain x where x: "q = Inr x" using 3(3) by (cases q) auto
  note p = decoder_push_ok [OF 3(2) q [unfolded x]]
  show ?case
  proof (cases x)
    case (Some u)
    then have "s' = t\<lparr> st_body := cs, st_ended := su_done u \<rparr>" "r = Some u" using 3(3) q x by auto
    then show ?thesis using p by (auto simp: framed_def stream_bytes_def intro!: exI [of _ "[c]"])
  next
    case None
    then have rn: "read_next records cs t = (Inr r, s')" using 3(3) q x by simp
    from 3(1) [OF q [symmetric] x None p(1) rn] obtain consumed where IH: "framed s'" "cs = map Inr consumed @ st_body s'" "r = None \<longrightarrow> st_ended s'"
      "stream_bytes s' = stream_bytes t @ concat consumed \<and> (st_ended s' \<longrightarrow> (\<exists>u. r = Some u \<and> su_done u)) \<and> consumed \<noteq> []
         \<or> st_body s' = [] \<and> st_ended s' \<and> st_buffer s' = [] \<and> ended (stream_bytes t @ concat consumed) = stream_bytes s'" by blast
    have "stream_bytes t = stream_bytes s @ c" using p(2) by simp
    then show ?thesis using IH by (auto intro!: exI [of _ "c # consumed"])
  qed
qed simp

text \<open>Reading a stream to its end; \<open>None\<close> when \<open>n\<close> reads were not enough.\<close>

fun drain_http :: "bearer_credential option \<Rightarrow> (string list \<Rightarrow> string + plugin_output) \<Rightarrow> nat \<Rightarrow> http_stream
   \<Rightarrow> (string + stream_update list) option \<times> http_stream" where
  "drain_http cred records 0 s = (None, s)"
| "drain_http cred records (Suc n) s =
     (case http_next cred records s of
        (Inl e, s) \<Rightarrow> (Some (Inl e), s)
      | (Inr None, s) \<Rightarrow> (Some (Inr []), s)
      | (Inr (Some u), s) \<Rightarrow>
          (case drain_http cred records n s of
             (Some (Inr us), s) \<Rightarrow> (Some (Inr (u # us)), s)
           | (r, s) \<Rightarrow> (r, s)))"

lemma http_next_Inr:
  "\<not> st_ended s \<Longrightarrow> http_next cred records s = (Inr r, s') \<Longrightarrow> read_next records (st_body s) s = (Inr r, s')"
  by (auto simp: http_next_def map_err_def split: prod.splits sum.splits)

lemma drain_http_delivers:
  assumes "framed s" "\<not> st_ended s" "drain_http cred records n s = (Some (Inr us), s')" "\<not> list_ex su_done us"
  shows "\<exists>consumed. st_body s = map Inr consumed \<and> concat (st_given s') = ended (stream_bytes s @ concat consumed)"
  using assms
proof (induction n arbitrary: s us)
  case (Suc n)
  obtain r s1 where h: "http_next cred records s = (Inr r, s1)" using Suc(4) by (auto split: prod.splits sum.splits)
  note rn = read_next_ok [OF Suc(2) http_next_Inr [OF Suc(3) h]]
  then obtain consumed where c: "framed s1" "st_body s = map Inr consumed @ st_body s1" "r = None \<longrightarrow> st_ended s1"
    "stream_bytes s1 = stream_bytes s @ concat consumed \<and> (st_ended s1 \<longrightarrow> (\<exists>u. r = Some u \<and> su_done u)) \<and> consumed \<noteq> []
     \<or> st_body s1 = [] \<and> st_ended s1 \<and> st_buffer s1 = [] \<and> ended (stream_bytes s @ concat consumed) = stream_bytes s1" by blast
  show ?case
  proof (cases r)
    case None
    then have "s' = s1" using Suc(4) h by simp
    then show ?thesis using c None by (auto simp: stream_bytes_def)
  next
    case (Some u)
    obtain us' where us: "drain_http cred records n s1 = (Some (Inr us'), s')" "us = u # us'"
      using Suc(4) h Some by (auto split: prod.splits option.splits sum.splits)
    have "\<not> su_done u" "\<not> list_ex su_done us'" using Suc(5) us(2) by auto
    show ?thesis
    proof (cases "st_ended s1")
      case True
      then have "s' = s1" using us(1) by (cases n) (auto simp: http_next_def)
      then show ?thesis using c(2,4) True Some \<open>\<not> su_done u\<close> by (auto simp: stream_bytes_def)
    next
      case False
      from Suc(1) [OF c(1) False us(1) \<open>\<not> list_ex su_done us'\<close>] obtain later where
        "st_body s1 = map Inr later" "concat (st_given s') = ended (stream_bytes s1 @ concat later)" by blast
      then have "st_body s = map Inr (consumed @ later) \<and> concat (st_given s') = ended (stream_bytes s @ concat (consumed @ later))"
        using c(2,4) False by auto
      then show ?thesis by blast
    qed
  qed
qed simp

lemma drain_http_ends:
  assumes "framed s" "if st_ended s then 1 \<le> n else length (st_body s) + 2 \<le> n"
  shows "fst (drain_http cred records n s) \<noteq> None"
  using assms
proof (induction n arbitrary: s)
  case (Suc n)
  show ?case
  proof (cases "\<exists>u s1. http_next cred records s = (Inr (Some u), s1)")
    case True
    then obtain u s1 where h: "http_next cred records s = (Inr (Some u), s1)" by blast
    then have live: "\<not> st_ended s" by (auto simp: http_next_def)
    from read_next_ok [OF Suc(2) http_next_Inr [OF live h]] obtain consumed where "framed s1"
      "st_body s = map Inr consumed @ st_body s1" "consumed \<noteq> [] \<or> st_ended s1" by blast
    moreover have "consumed \<noteq> [] \<Longrightarrow> 1 \<le> length consumed" by (cases consumed) auto
    ultimately have "framed s1" "if st_ended s1 then 1 \<le> n else length (st_body s1) + 2 \<le> n"
      using Suc(3) live by auto
    from Suc(1) [OF this] show ?thesis using h by (auto split: prod.splits option.splits sum.splits)
  next
    case False
    then show ?thesis by (auto split: prod.splits option.splits sum.splits)
  qed
qed (simp split: if_splits)

text \<open>However reading goes on, every piece the guest has been given ends a line.\<close>

definition whole_records :: "http_stream \<Rightarrow> bool" where
  "whole_records s \<longleftrightarrow> (\<forall>l \<in> set (st_given s). l \<noteq> [] \<and> last l = CHR 0x0A)"

lemma whole_records_update [simp]:
  "whole_records (s\<lparr> st_body := b \<rparr>) = whole_records s" "whole_records (s\<lparr> st_ended := e \<rparr>) = whole_records s"
  "whole_records (s\<lparr> st_buffer := x \<rparr>) = whole_records s"
  by (simp_all add: whole_records_def)

lemma decoder_push_whole: "whole_records s \<Longrightarrow> whole_records (snd (decoder_push records bytes eof s))"
proof -
  let ?b = "if eof then ended (st_buffer s @ bytes) else st_buffer s @ bytes"
  assume w: "whole_records s"
  obtain lines rest where l: "whole_lines ?b = (lines, rest)" by fastforce
  have "lines \<noteq> [] \<Longrightarrow> whole_records (s\<lparr> st_buffer := rest, st_given := st_given s @ [lines] \<rparr>)"
    using w whole_lines_split(3) [OF l] by (auto simp: whole_records_def)
  then show ?thesis using w l by (auto simp: decoder_push_def Let_def split: sum.splits plugin_output.splits)
qed

lemma read_next_whole: "whole_records s \<Longrightarrow> whole_records (snd (read_next records cs s))"
proof (induction records cs s rule: read_next.induct)
  case (1 records s)
  then show ?case using decoder_push_whole [of s records "[]" True] by (auto split: prod.splits sum.splits option.splits)
next
  case (3 records c cs s)
  obtain q t where q: "decoder_push records c False s = (q, t)" by fastforce
  have t: "whole_records t" using decoder_push_whole [OF 3(2), of records c False] q by simp
  show ?case
  proof (cases "q = Inr None")
    case True
    then show ?thesis using 3(1) [OF q [symmetric] True refl t] q by simp
  next
    case False
    then show ?thesis using q t by (auto split: sum.splits option.splits)
  qed
qed simp

lemma drain_http_whole: "whole_records s \<Longrightarrow> whole_records (snd (drain_http cred records n s))"
proof (induction n arbitrary: s)
  case (Suc n)
  obtain r s1 where h: "http_next cred records s = (r, s1)" by fastforce
  have "whole_records s1" using read_next_whole [OF Suc(2), of records "st_body s"] h Suc(2)
    by (auto simp: http_next_def split: if_splits prod.splits)
  then show ?case using Suc(1) [of s1] h by (auto split: prod.splits sum.splits option.splits)
qed simp

section \<open>Properties\<close>

text \<open>C19: Whatever a guest answers, the host sends at most as many requests as the operation allows, each to the
  configured origin with its user, with a method and within the time budget of the operation; and the key
  goes out in no request but one to the origin it was configured for.\<close>

theorem guest_cannot_escape:
  "(\<forall>q \<in> set (snd (execute a guest net decoded req)). confined a (adapter_operation req) q)
   \<and> length (snd (execute a guest net decoded req)) \<le> op_requests (adapter_operation req)
   \<and> (\<forall>q \<in> set (snd (start_stream a guest net req)). confined a (adapter_operation req) q)
   \<and> length (snd (start_stream a guest net req)) \<le> 1"
proof (cases "prepare_plan a guest req")
  case (Inl e)
  then show ?thesis by (simp add: execute_def start_stream_def)
next
  case (Inr plan)
  have "\<forall>q \<in> set (snd (execute a guest net decoded req)). confined a (adapter_operation req) q"
    using Inr send_confined [OF Inr] by (auto simp: execute_def Let_def)
  moreover have "length (snd (execute a guest net decoded req)) \<le> op_requests (adapter_operation req)"
    using Inr prepare_plan_ok(1) [OF Inr] length_sends [of a net "hp_requests plan"] by (auto simp: execute_def Let_def)
  moreover have "snd (start_stream a guest net req) \<in> {[], snd (send a net (hd (hp_requests plan)))}" "snd (start_stream a guest net req) \<noteq> [] \<longrightarrow> hp_requests plan \<noteq> []"
    using Inr by (auto simp: start_stream_def Let_def split: prod.splits sum.splits if_splits)
  moreover have "hp_requests plan \<noteq> [] \<Longrightarrow> \<forall>q \<in> set (snd (send a net (hd (hp_requests plan)))). confined a (adapter_operation req) q"
    using send_confined [OF Inr, of "hd (hp_requests plan)"] by simp
  ultimately show ?thesis using length_send [of a net "hd (hp_requests plan)"] by auto
qed

text \<open>C20: However a streamed body is cut into chunks, the guest gets its records whole and in order: whatever the
  guest answers and however reading goes, every piece it is given is not empty and ends at a line end;
  reading always ends; and when neither an error nor the guest ends it early, the pieces together are
  exactly the body with its last record ended.\<close>

theorem stream_records_whole:
  assumes "s = \<lparr> st_body = map Inr pieces, st_buffer = [], st_ended = False, st_given = [] \<rparr>"
    "drain_http cred records (length pieces + 2) s = (r, s')"
  shows "r \<noteq> None \<and> (\<forall>l \<in> set (st_given s'). l \<noteq> [] \<and> last l = CHR 0x0A)
    \<and> (\<forall>us. r = Some (Inr us) \<longrightarrow> \<not> list_ex su_done us \<longrightarrow> concat (st_given s') = ended (concat pieces))"
proof -
  have f: "framed s" "\<not> st_ended s" "stream_bytes s = []" "st_body s = map Inr pieces"
    using assms(1) by (simp_all add: framed_def stream_bytes_def)
  have "r \<noteq> None" using drain_http_ends [OF f(1), of "length pieces + 2" cred records] f assms(2) by simp
  moreover have "concat (st_given s') = ended (concat pieces)" if "r = Some (Inr us)" "\<not> list_ex su_done us" for us
    using drain_http_delivers [OF f(1,2), of cred records "length pieces + 2" us s'] that assms(2) f(3,4)
    by (auto simp: inj_map_eq_map inj_def)
  moreover have "\<forall>l \<in> set (st_given s'). l \<noteq> [] \<and> last l = CHR 0x0A"
    using drain_http_whole [of s cred records "length pieces + 2"] assms by (simp add: whole_records_def)
  ultimately show ?thesis by blast
qed

text \<open>An image job ends within its time budget: it is polled at most once in 250 ms, and whatever ends it
  early leaves nothing behind, since the last job the server named is cancelled unless it was ready.\<close>

theorem image_poll_ends:
  "deadline \<le> now + 250 * length answers \<Longrightarrow> fst (poll_image now deadline pending job answers) \<noteq> None"
proof (induction now deadline pending job answers rule: poll_image.induct)
  case (2 now deadline pending i poll_after answers)
  have c: "250 \<le> clamp 250 5000 poll_after" by (simp add: clamp_def)
  show ?case
  proof (cases answers)
    case Nil
    then show ?thesis using 2(2) c by (auto simp: Let_def split: option.splits)
  next
    case (Cons x xs)
    obtain took r where x: "x = (took, r)" by (cases x)
    have "deadline \<le> now + clamp 250 5000 poll_after + took + 250 * length xs" using 2(2) c Cons by simp
    then show ?thesis using 2(1) Cons x by (auto simp: Let_def split: option.splits sum.splits)
  qed
qed simp

theorem image_poll_cleanup:
  "poll_image now deadline pending job answers = (Some r, c) \<Longrightarrow> (\<exists>images. r = Inr images) \<Longrightarrow> c = None"
  "poll_image now deadline (Some j) job answers = (Some (Inl e), c) \<Longrightarrow> c \<noteq> None"
proof -
  show "poll_image now deadline pending job answers = (Some r, c) \<Longrightarrow> (\<exists>images. r = Inr images) \<Longrightarrow> c = None"
    by (induction now deadline pending job answers rule: poll_image.induct)
      (auto simp: Let_def split: option.splits if_splits list.splits sum.splits prod.splits)
  show "poll_image now deadline (Some j) job answers = (Some (Inl e), c) \<Longrightarrow> c \<noteq> None"
    by (induction now deadline "Some j" job answers arbitrary: j rule: poll_image.induct)
      (auto simp: Let_def split: option.splits if_splits list.splits sum.splits prod.splits)
qed

section \<open>Witnesses\<close>

definition api_url :: url where
  "api_url = \<lparr> ur_scheme = ''https'', ur_host = Some ''api'', ur_origin = Some (''https'', ''api'', 443), ur_path = ''/'', ur_query = None,
     ur_fragment = None, ur_username = [], ur_password = None \<rparr>"

definition demo_host :: adapter_host where
  "demo_host = \<lparr> ah_parse = (\<lambda>t. if starts_with ''https://api/'' t then Some api_url else None), ah_base = api_url,
     ah_credential = Some \<lparr> bc_origin = api_url, bc_header = ''Bearer k'' \<rparr> \<rparr>"

definition list_models :: "adapter_request \<Rightarrow> string + plugin_output" where
  "list_models _ = Inr (OutPlan \<lparr> hp_requests = [\<lparr> hr_method = HGet, hr_url = ''https://api/models'', hr_query = [], hr_body = None, hr_timeout = Some 90000 \<rparr>],
     hp_response = RModels, hp_stream = False, hp_limit = 100, hp_content_types = [] \<rparr>)"

definition api_net :: "wire_request \<Rightarrow> string + http_response" where
  "api_net _ = Inr \<lparr> rs_status = 200, rs_content_type = ''application/json'', rs_chunks = [Inr ''[]''], rs_error = [] \<rparr>"

theorem guest_cannot_escape_witness:
  "length (snd (execute demo_host list_models api_net (\<lambda>_ bs. Inr (OutOther (concat bs))) (AModels 5000))) = 1
   \<and> list_all (confined demo_host (adapter_operation (AModels 5000))) (snd (execute demo_host list_models api_net (\<lambda>_ bs. Inr (OutOther (concat bs))) (AModels 5000)))
   \<and> list_all (\<lambda>q. wr_timeout q = Some 5000 \<and> wr_auth q = Some ''Bearer k'') (snd (execute demo_host list_models api_net (\<lambda>_ bs. Inr (OutOther (concat bs))) (AModels 5000)))"
proof -
  let ?q = "snd (execute demo_host list_models api_net (\<lambda>_ bs. Inr (OutOther (concat bs))) (AModels 5000))"
  have "length ?q = 1" "list_all (\<lambda>q. wr_timeout q = Some 5000 \<and> wr_auth q = Some ''Bearer k'') ?q" by code_simp+
  moreover have "list_all (confined demo_host (adapter_operation (AModels 5000))) ?q"
    using guest_cannot_escape [of demo_host list_models api_net "\<lambda>_ bs. Inr (OutOther (concat bs))" "AModels 5000"] by (simp add: list_all_iff)
  ultimately show ?thesis by blast
qed

definition echo_guest :: "string list \<Rightarrow> string + plugin_output" where
  "echo_guest given = Inr (OutStream (empty_update\<lparr> su_text := last given \<rparr>))"

definition demo_stream :: http_stream where
  "demo_stream = \<lparr> st_body = map Inr [''{a'', ''}'' @ nl @ ''{b'', ''}''], st_buffer = [], st_ended = False, st_given = [] \<rparr>"

theorem stream_records_whole_witness:
  "concat (st_given (snd (drain_http None echo_guest 5 demo_stream))) = ''{a}'' @ nl @ ''{b}'' @ nl
   \<and> list_all (\<lambda>l. l \<noteq> [] \<and> last l = CHR 0x0A) (st_given (snd (drain_http None echo_guest 5 demo_stream)))
   \<and> length (st_given (snd (drain_http None echo_guest 5 demo_stream))) = 2"
proof -
  let ?pieces = "[''{a'', ''}'' @ nl @ ''{b'', ''}'']"
  have "map_option is_ok (fst (drain_http None echo_guest 5 demo_stream)) = Some True
    \<and> (case fst (drain_http None echo_guest 5 demo_stream) of Some (Inr us) \<Rightarrow> \<not> list_ex su_done us | _ \<Rightarrow> False)" by code_simp
  then obtain us s' where d: "drain_http None echo_guest 5 demo_stream = (Some (Inr us), s')" "\<not> list_ex su_done us"
    by (cases "drain_http None echo_guest 5 demo_stream") (auto split: option.splits sum.splits)
  have "concat (st_given s') = ended (concat ?pieces)" "list_all (\<lambda>l. l \<noteq> [] \<and> last l = CHR 0x0A) (st_given s')"
    using stream_records_whole [OF demo_stream_def, of None echo_guest "Some (Inr us)" s'] d by (simp_all add: numeral_eq_Suc list_all_iff)
  moreover have "ended (concat ?pieces) = ''{a}'' @ nl @ ''{b}'' @ nl" by code_simp
  moreover have "length (st_given (snd (drain_http None echo_guest 5 demo_stream))) = 2" by code_simp
  ultimately show ?thesis using d(1) by simp
qed

end
