(* ===== verification/AdapterStream.thy ===== *)
theory AdapterStream
  imports Generate AdapterHost
begin

text \<open>
  The two kinds of stream behind \<^verbatim>\<open>AdapterStream::next\<close> of \<^verbatim>\<open>chatty-broker/src/adapters/runtime/mod.rs\<close>, the
  appliance's and the HTTP one, and the generation loop that polls them.
\<close>

section \<open>Waiting for the next event\<close>

text \<open>One pass of the loop, at the moment its biased \<^verbatim>\<open>select!\<close> is decided: a change of the cancellation channel, if
  there is one, with whether it cancels; whether the flush deadline has passed; and whether it has passed
  when a stream item has been taken up.\<close>

record select_round =
  sr_cancel :: "bool option"
  sr_timer :: bool
  sr_late :: bool

text \<open>The branches in their order.  The timer branch is only there while text is pending; with no other branch
  ready the loop waits for the stream.\<close>

definition select_event ::
  "('s \<Rightarrow> (string + stream_update option) \<times> 's) \<Rightarrow> select_round \<Rightarrow> gen_state \<Rightarrow> 's \<Rightarrow> gen_event \<times> 's" where
  "select_event pull r g s =
     (case sr_cancel r of
        Some cancelled_now \<Rightarrow> (if cancelled_now then EvCancel else EvWake, s)
      | None \<Rightarrow>
          if gs_pending g \<noteq> [] \<and> sr_timer r then (EvTimeout, s)
          else
            (case pull s of
               (Inl e, s) \<Rightarrow> (EvFail e, s)
             | (Inr None, s) \<Rightarrow> (EvEnd, s)
             | (Inr (Some u), s) \<Rightarrow> (EvData u (sr_late r), s)))"

text \<open>The events of a run of passes: what wins each depends on what the earlier ones left pending.\<close>

fun select_events ::
  "string \<Rightarrow> ('s \<Rightarrow> (string + stream_update option) \<times> 's) \<Rightarrow> select_round list \<Rightarrow> gen_state \<Rightarrow> 's \<Rightarrow> gen_event list" where
  "select_events mid pull [] g s = []"
| "select_events mid pull (r # rs) g s =
     (case select_event pull r g s of
        (ev, s) \<Rightarrow>
          ev # (case gen_loop mid [ev] g of
                  (None, g) \<Rightarrow> select_events mid pull rs g s
                | (Some _, _) \<Rightarrow> []))"

definition wakes :: "select_round list \<Rightarrow> nat" where
  "wakes rs = length (filter (\<lambda>r. sr_cancel r = Some False) rs)"

lemma wakes_simps [simp]:
  "wakes [] = 0"
  "wakes (r # rs) = (if sr_cancel r = Some False then Suc (wakes rs) else wakes rs)"
  by (simp_all add: wakes_def)

lemma gen_loop_step:
  "gen_loop mid (ev # evs) g = (case gen_loop mid [ev] g of (None, g) \<Rightarrow> gen_loop mid evs g | (Some r, g) \<Rightarrow> (Some r, g))"
  by (cases ev) (auto split: prod.splits sum.splits)

lemma timeout_step:
  assumes "gs_pending g \<noteq> []" "gen_loop mid [EvTimeout] g = (None, g')"
  shows "gs_pending g' = []"
  using assms by (auto simp: flush_step_def flush_due_def flush_pending_def send_frame_def Let_def split: if_splits)

text \<open>The passes still to come that are not wake-ups: one for each item with a flush after it, one for the end,
  and the flush of what is pending now.\<close>

definition passes :: "('s \<Rightarrow> nat) \<Rightarrow> gen_state \<Rightarrow> 's \<Rightarrow> nat" where
  "passes left g s = 2 * left s + 1 + (if gs_pending g = [] then 0 else 1)"

lemma passes_pos: "1 \<le> passes left g s"
  by (simp add: passes_def)

text \<open>What the loop relies on: an update that is not the last brings the stream closer to its end.\<close>

locale adapter_stream =
  fixes pull :: "'s \<Rightarrow> (string + stream_update option) \<times> 's"
    and left :: "'s \<Rightarrow> nat"
  assumes progress: "pull s = (Inr (Some u), s') \<Longrightarrow> \<not> su_done u \<Longrightarrow> left s' < left s"
begin

lemma pass_progress:
  assumes "select_event pull r g s = (ev, s')" "gen_loop mid [ev] g = (None, g')"
  shows "sr_cancel r = Some False \<and> passes left g' s' = passes left g s \<or> sr_cancel r \<noteq> Some False \<and> passes left g' s' < passes left g s"
proof (cases "sr_cancel r")
  case (Some x)
  then show ?thesis using assms by (auto simp: select_event_def split: if_splits)
next
  case None
  show ?thesis
  proof (cases "gs_pending g \<noteq> [] \<and> sr_timer r")
    case True
    then have "ev = EvTimeout" "s' = s" using assms(1) None by (auto simp: select_event_def)
    then show ?thesis using timeout_step [of g mid g'] assms(2) True None by (simp add: passes_def)
  next
    case False
    then obtain u where u: "pull s = (Inr (Some u), s')" "ev = EvData u (sr_late r)"
      using assms None by (auto simp: select_event_def split: prod.splits sum.splits option.splits)
    then have "\<not> su_done u" using assms(2) by (auto split: prod.splits sum.splits)
    from progress [OF u(1) this] show ?thesis using None by (auto simp: passes_def)
  qed
qed

lemma passes_bounded: "length (select_events mid pull rs g s) \<le> passes left g s + wakes rs"
proof (induction rs arbitrary: g s)
  case (Cons r rs)
  obtain ev s' where e: "select_event pull r g s = (ev, s')" by fastforce
  obtain res g' where l: "gen_loop mid [ev] g = (res, g')" by fastforce
  show ?case
  proof (cases res)
    case None
    then show ?thesis using Cons [of g' s'] pass_progress [OF e l [unfolded None]] e l by auto
  next
    case (Some x)
    then show ?thesis using e l passes_pos [of left g s] by simp
  qed
qed simp

lemma generation_ends:
  "passes left g s + wakes rs \<le> length rs \<Longrightarrow> fst (gen_loop mid (select_events mid pull rs g s) g) \<noteq> None"
proof (induction rs arbitrary: g s)
  case Nil
  then show ?case using passes_pos [of left g s] by simp
next
  case (Cons r rs)
  obtain ev s' where e: "select_event pull r g s = (ev, s')" by fastforce
  obtain res g' where l: "gen_loop mid [ev] g = (res, g')" by fastforce
  show ?case
  proof (cases res)
    case None
    then have "passes left g' s' + wakes rs \<le> length rs"
      using Cons(2) pass_progress [OF e l [unfolded None]] by (auto split: if_splits)
    from Cons(1) [OF this] show ?thesis using e l None by (simp only: select_events.simps prod.case option.case) (subst gen_loop_step, simp)
  next
    case (Some x)
    then show ?thesis using e l by simp
  qed
qed

end

section \<open>The two streams\<close>

definition http_left :: "http_stream \<Rightarrow> nat" where
  "http_left s = (if st_ended s then 0 else length (st_body s) + 1)"

lemma read_next_progress:
  "read_next records cs s = (Inr (Some u), s') \<Longrightarrow> st_ended s' \<or> length (st_body s') < length cs"
proof (induction records cs s rule: read_next.induct)
  case (1 records s)
  then show ?case by (auto split: prod.splits sum.splits option.splits)
next
  case (3 records c cs s)
  obtain q t where q: "decoder_push records c False s = (q, t)" by fastforce
  show ?case
  proof (cases "q = Inr None")
    case True
    then have "read_next records cs t = (Inr (Some u), s')" using 3(2) q by simp
    then show ?thesis using 3(1) [OF q [symmetric] True refl] by auto
  next
    case False
    then show ?thesis using 3(2) q by (auto split: sum.splits option.splits)
  qed
qed simp

interpretation http_adapter: adapter_stream "http_next cred records" http_left
proof unfold_locales
  fix s u s'
  assume n: "http_next cred records s = (Inr (Some u), s')"
  then have live: "\<not> st_ended s" by (auto simp: http_next_def)
  from read_next_progress [OF http_next_Inr [OF live n]] show "http_left s' < http_left s"
    using live by (auto simp: http_left_def)
qed

definition metal_left :: "bool \<times> (u64 \<times> server_msg) list \<Rightarrow> nat" where
  "metal_left s = length (snd s)"

interpretation metal_adapter: adapter_stream stream_next metal_left
proof unfold_locales
  fix s u s'
  assume "stream_next s = (Inr (Some u), s')"
  then show "metal_left s' < metal_left s"
    by (auto simp: stream_next_def metal_left_def split: prod.splits if_splits list.splits server_msg.splits server_msg_kind.splits)
qed

text \<open>\<^verbatim>\<open>AdapterStream\<close>\<close>

datatype stream_kind = HttpKind http_stream | MetalKind "bool \<times> (u64 \<times> server_msg) list"

fun adapter_next :: "bearer_credential option \<Rightarrow> (string list \<Rightarrow> string + plugin_output) \<Rightarrow> stream_kind \<Rightarrow> (string + stream_update option) \<times> stream_kind" where
  "adapter_next cred records (HttpKind s) = map_prod id HttpKind (http_next cred records s)"
| "adapter_next cred records (MetalKind s) = map_prod id MetalKind (stream_next s)"

fun adapter_left :: "stream_kind \<Rightarrow> nat" where
  "adapter_left (HttpKind s) = http_left s"
| "adapter_left (MetalKind s) = metal_left s"

interpretation any_adapter: adapter_stream "adapter_next cred records" adapter_left
proof unfold_locales
  fix s u s'
  assume "adapter_next cred records s = (Inr (Some u), s')" "\<not> su_done u"
  then show "adapter_left s' < adapter_left s"
    using http_adapter.progress metal_adapter.progress by (cases s) (auto simp: map_prod_def split: prod.splits)
qed

section \<open>A generation over a stream\<close>

text \<open>The state in which the loop starts: the announcement has been sent.\<close>

definition loop_start :: "gen_env \<Rightarrow> string \<Rightarrow> string \<Rightarrow> string option \<Rightarrow> string \<Rightarrow> nat \<Rightarrow> conversation \<Rightarrow> gen_state" where
  "loop_start en owner conversation explicit mid room c =
     (case fst (prepare en owner conversation explicit c) of
        Inl e \<Rightarrow> gen_start room
      | Inr pp \<Rightarrow>
          snd (send_frame (GStarted mid (pt_id (pp_card pp)) \<lparr> gx_prompt = pp_tokens pp, gx_completion = 0, gx_estimated = True \<rparr>)
                 (gen_start room)))"

text \<open>\<^verbatim>\<open>generate\<close> with its loop waiting on an adapter's stream.\<close>

definition generate_over ::
  "gen_env \<Rightarrow> string \<Rightarrow> string \<Rightarrow> string option \<Rightarrow> string option \<Rightarrow> string \<Rightarrow> opening_result
   \<Rightarrow> bearer_credential option \<Rightarrow> (string list \<Rightarrow> string + plugin_output) \<Rightarrow> stream_kind \<Rightarrow> select_round list \<Rightarrow> nat
   \<Rightarrow> conversation \<Rightarrow> gen_world \<Rightarrow> (string + unit) option \<times> gen_frame list \<times> gen_world" where
  "generate_over en owner conversation explicit parent mid opened cred records s rounds room c w =
     generate en owner conversation explicit parent mid opened
       (select_events mid (adapter_next cred records) rounds (loop_start en owner conversation explicit mid room c) s) room c w"

lemma loop_start_pending: "gs_pending (loop_start en owner conversation explicit mid room c) = []"
  by (auto simp: loop_start_def send_frame_def gen_start_def split: sum.splits)

lemma generate_returns:
  assumes "fst (gen_loop mid evs (loop_start en owner conversation explicit mid room c)) \<noteq> None"
  shows "fst (generate en owner conversation explicit parent mid opened evs room c w) \<noteq> None"
proof -
  obtain r t where "gen_loop mid evs (loop_start en owner conversation explicit mid room c) = (Some r, t)"
    using assms by (cases "gen_loop mid evs (loop_start en owner conversation explicit mid room c)") auto
  then show ?thesis unfolding generate_def Let_def loop_start_def
    by (auto split: sum.splits prod.splits opening_result.splits option.splits)
qed

section \<open>Properties\<close>

text \<open>C15: A reply comes to an end with its stream, and the loop does not spin: over every stream of either backend,
  whatever it contains, whenever it is cancelled or woken and whenever the flush deadline passes, a loop
  makes at most two passes for each item the stream has left, one for its end and one for each wake-up
  that cancels nothing; a generation that is given that many passes returns.  The flush timer, which goes
  before the stream, cannot keep the stream from being read.\<close>

theorem reply_always_ends:
  assumes "2 * adapter_left s + 1 + wakes rounds \<le> length rounds"
  shows "fst (generate_over en owner conversation explicit parent mid opened cred records s rounds room c w) \<noteq> None
    \<and> length (select_events mid (adapter_next cred records) rounds (loop_start en owner conversation explicit mid room c) s)
        \<le> 2 * adapter_left s + 1 + wakes rounds"
proof -
  let ?g = "loop_start en owner conversation explicit mid room c"
  have p: "passes adapter_left ?g s = 2 * adapter_left s + 1" by (simp add: passes_def loop_start_pending)
  have "fst (gen_loop mid (select_events mid (adapter_next cred records) rounds ?g s) ?g) \<noteq> None"
    by (rule any_adapter.generation_ends) (use assms p in simp)
  then show ?thesis using any_adapter.passes_bounded [of mid cred records rounds ?g s] p
    by (simp add: generate_over_def generate_returns)
qed

section \<open>Witnesses\<close>

text \<open>A body of three chunks and a timer that is always ready; the first pass is a wake-up.\<close>

definition pushy_rounds :: "select_round list" where
  "pushy_rounds = \<lparr> sr_cancel = Some False, sr_timer = True, sr_late = False \<rparr>
     # replicate 9 \<lparr> sr_cancel = None, sr_timer = True, sr_late = False \<rparr>"

lemma pushy_events:
  "select_events ''r1'' (adapter_next None echo_guest) pushy_rounds (loop_start demo_gen ''u'' ''c'' None ''r1'' 9 demo_chat) (HttpKind demo_stream)
     = [EvWake, EvData (empty_update\<lparr> su_text := ''{a}'' @ nl \<rparr>) False, EvTimeout,
        EvData (empty_update\<lparr> su_text := ''{b}'' @ nl \<rparr>) False, EvTimeout, EvEnd]"
  by code_simp

theorem reply_always_ends_witness:
  "fst (generate_over demo_gen ''u'' ''c'' None None ''r1'' Opened None echo_guest (HttpKind demo_stream) pushy_rounds 9 demo_chat quiet_world) \<noteq> None
   \<and> wakes pushy_rounds = 1 \<and> adapter_left (HttpKind demo_stream) = 4"
proof -
  have h: "wakes pushy_rounds = 1" "adapter_left (HttpKind demo_stream) = 4" "length pushy_rounds = 10" by code_simp+
  have "2 * adapter_left (HttpKind demo_stream) + 1 + wakes pushy_rounds \<le> length pushy_rounds" unfolding h by simp
  from reply_always_ends [OF this, of demo_gen "''u''" "''c''" None None "''r1''" Opened None echo_guest 9 demo_chat quiet_world] h
  show ?thesis by blast
qed

end
