(* ===== verification/Routing.thy ===== *)
theory Routing
  imports Prelude Complex_Main "HOL-Library.Multiset"
begin

text \<open>
  The expert routing trace (\<^verbatim>\<open>chatty-metal/src/routing.rs\<close>): which experts ran, how often they repeat, and
  a replay of the trace through the two exclusive cache tiers.  A hash map is an association list with
  distinct keys.  Shares are exact rationals where the code has \<^verbatim>\<open>f64\<close>; counters and ticks are natural
  numbers, since they are bounded by the length of the trace.
\<close>

section \<open>Trace\<close>

record tier_hits =
  th_vram :: nat
  th_ram :: nat
  th_drive :: nat

definition tier_total :: "tier_hits \<Rightarrow> nat" where
  "tier_total h = th_vram h + th_ram h + th_drive h"

record route_summary =
  rs_uses :: nat
  rs_distinct :: nat
  rs_top_tenth_share :: rat
  rs_repeat_share :: rat

type_synonym route_key = "nat \<times> nat"

record route_trace =
  rt_tokens :: nat
  rt_uses :: "(nat \<times> route_key) list"

definition route_trace_new :: route_trace where
  "route_trace_new = \<lparr> rt_tokens = 0, rt_uses = [] \<rparr>"

definition next_token :: "route_trace \<Rightarrow> nat \<times> route_trace" where
  "next_token t = (rt_tokens t, t\<lparr> rt_tokens := rt_tokens t + 1 \<rparr>)"

text \<open>\<^verbatim>\<open>layer as u8\<close> and \<^verbatim>\<open>expert as u16\<close> truncate.\<close>

definition route_record :: "nat \<Rightarrow> nat \<Rightarrow> nat \<Rightarrow> route_trace \<Rightarrow> route_trace" where
  "route_record token layer expert t =
     t\<lparr> rt_uses := rt_uses t @ [(token, layer mod 2 ^ 8, expert mod 2 ^ 16)] \<rparr>"

section \<open>Counting\<close>

text \<open>\<^verbatim>\<open>*counts.entry(key).or_default() += 1\<close>\<close>

fun bump :: "'k \<Rightarrow> ('k \<times> nat) list \<Rightarrow> ('k \<times> nat) list" where
  "bump k [] = [(k, 1)]"
| "bump k ((k', c) # m) = (if k' = k then (k', c + 1) # m else (k', c) # bump k m)"

text \<open>\<^verbatim>\<open>sort_unstable_by_key\<close> with the key (descending count, layer, expert), as three stable sorts.\<close>

definition counts :: "route_trace \<Rightarrow> (nat \<times> nat \<times> nat) list" where
  "counts t =
     (let m = fold (bump \<circ> snd) (rt_uses t) [] in
      sort_key (\<lambda>(l, e, c). - int c) (sort_key (\<lambda>(l, e, c). l) (sort_key (\<lambda>(l, e, c). e)
        (map (\<lambda>((l, e), c). (l, e, c)) m))))"

definition ratio :: "nat \<Rightarrow> nat \<Rightarrow> rat" where
  "ratio part whole = (if whole = 0 then 0 else of_nat part / of_nat whole)"

record summary_state =
  ss_counts :: "(route_key \<times> nat) list"
  ss_last_seen :: "(route_key \<times> nat) list"
  ss_repeats :: nat
  ss_eligible :: nat

definition summary_step :: "nat \<times> route_key \<Rightarrow> summary_state \<Rightarrow> summary_state" where
  "summary_step = (\<lambda>(token, key) s.
     (let s = s\<lparr> ss_counts := bump key (ss_counts s) \<rparr>;
          s = (if 0 < token
               then s\<lparr> ss_eligible := ss_eligible s + 1,
                       ss_repeats := ss_repeats s + (if map_of (ss_last_seen s) key = Some (token - 1) then 1 else 0) \<rparr>
               else s) in
      s\<lparr> ss_last_seen := (key, token) # filter (\<lambda>(k, _). k \<noteq> key) (ss_last_seen s) \<rparr>))"

definition summary :: "route_trace \<Rightarrow> route_summary" where
  "summary t =
     (let s = fold summary_step (rt_uses t) \<lparr> ss_counts = [], ss_last_seen = [], ss_repeats = 0, ss_eligible = 0 \<rparr>;
          sorted_counts = rev (sort (map snd (ss_counts s)));
          top = (length sorted_counts + 9) div 10;
          uses = length (rt_uses t) in
      \<lparr> rs_uses = uses, rs_distinct = length sorted_counts,
        rs_top_tenth_share = ratio (sum_list (take top sorted_counts)) uses,
        rs_repeat_share = ratio (ss_repeats s) (ss_eligible s) \<rparr>)"

section \<open>The tick-stamped LRU\<close>

record lru =
  lru_capacity :: nat
  lru_tick :: nat
  lru_entries :: "(route_key \<times> nat) list"

definition lru_new :: "nat \<Rightarrow> lru" where
  "lru_new capacity = \<lparr> lru_capacity = capacity, lru_tick = 0, lru_entries = [] \<rparr>"

definition lru_touch :: "route_key \<Rightarrow> lru \<Rightarrow> bool \<times> lru" where
  "lru_touch key l =
     (let l = l\<lparr> lru_tick := lru_tick l + 1 \<rparr> in
      if key \<in> fst ` set (lru_entries l)
      then (True, l\<lparr> lru_entries := map (\<lambda>(k, s). if k = key then (k, lru_tick l) else (k, s)) (lru_entries l) \<rparr>)
      else (False, l))"

definition lru_remove :: "route_key \<Rightarrow> lru \<Rightarrow> bool \<times> lru" where
  "lru_remove key l =
     (key \<in> fst ` set (lru_entries l), l\<lparr> lru_entries := filter (\<lambda>(k, _). k \<noteq> key) (lru_entries l) \<rparr>)"

fun oldest_entry :: "(route_key \<times> nat) list \<Rightarrow> (route_key \<times> nat) option" where
  "oldest_entry [] = None"
| "oldest_entry (x # xs) =
     (case oldest_entry xs of None \<Rightarrow> Some x | Some y \<Rightarrow> if snd x \<le> snd y then Some x else Some y)"

definition lru_insert :: "route_key \<Rightarrow> lru \<Rightarrow> route_key option \<times> lru" where
  "lru_insert key l =
     (if lru_capacity l = 0 then (Some key, l)
      else let evicted = (if lru_capacity l \<le> length (lru_entries l) then map_option fst (oldest_entry (lru_entries l)) else None);
               kept = (case evicted of
                         None \<Rightarrow> lru_entries l
                       | Some old \<Rightarrow> filter (\<lambda>(k, _). k \<noteq> old) (lru_entries l));
               tick = lru_tick l + 1 in
           (evicted, l\<lparr> lru_tick := tick, lru_entries := (key, tick) # filter (\<lambda>(k, _). k \<noteq> key) kept \<rparr>))"

section \<open>Replay\<close>

definition replay_step :: "route_key \<Rightarrow> lru \<times> lru \<times> tier_hits \<Rightarrow> lru \<times> lru \<times> tier_hits" where
  "replay_step key = (\<lambda>(vram, ram, hits).
     (case lru_touch key vram of
        (True, vram) \<Rightarrow> (vram, ram, hits\<lparr> th_vram := th_vram hits + 1 \<rparr>)
      | (False, vram) \<Rightarrow>
          (case lru_remove key ram of
             (found, ram) \<Rightarrow>
               let hits = (if found then hits\<lparr> th_ram := th_ram hits + 1 \<rparr> else hits\<lparr> th_drive := th_drive hits + 1 \<rparr>) in
               (case lru_insert key vram of
                  (Some evicted, vram) \<Rightarrow> (vram, snd (lru_insert evicted ram), hits)
                | (None, vram) \<Rightarrow> (vram, ram, hits)))))"

definition replay :: "route_trace \<Rightarrow> nat \<Rightarrow> nat \<Rightarrow> tier_hits" where
  "replay t vram_slots ram_slots =
     snd (snd (fold (replay_step \<circ> snd) (rt_uses t)
       (lru_new vram_slots, lru_new ram_slots, \<lparr> th_vram = 0, th_ram = 0, th_drive = 0 \<rparr>)))"

section \<open>The reference: distance to the last use\<close>

text \<open>How many other experts were used since \<open>k\<close> last was, if it was used at all.\<close>

definition reuse_distance :: "route_key list \<Rightarrow> route_key \<Rightarrow> nat option" where
  "reuse_distance before k =
     (if k \<in> set before then Some (card (set (takeWhile (\<lambda>x. x \<noteq> k) (rev before)))) else None)"

definition serving_tier :: "nat \<Rightarrow> nat \<Rightarrow> nat option \<Rightarrow> nat" where
  "serving_tier vram_slots ram_slots d =
     (case d of
        None \<Rightarrow> 2
      | Some n \<Rightarrow> if n < vram_slots then 0 else if n < vram_slots + ram_slots then 1 else 2)"

definition uses_from :: "route_key list \<Rightarrow> nat \<Rightarrow> nat \<Rightarrow> nat \<Rightarrow> nat" where
  "uses_from ks vram_slots ram_slots tier =
     length (filter (\<lambda>i. serving_tier vram_slots ram_slots (reuse_distance (take i ks) (ks ! i)) = tier) [0..<length ks])"

definition distance_hits :: "route_key list \<Rightarrow> nat \<Rightarrow> nat \<Rightarrow> tier_hits" where
  "distance_hits ks v r = \<lparr> th_vram = uses_from ks v r 0, th_ram = uses_from ks v r 1, th_drive = uses_from ks v r 2 \<rparr>"

section \<open>Recency order\<close>

text \<open>Every expert used, the most recent first.\<close>

fun recency :: "route_key list \<Rightarrow> route_key list \<Rightarrow> route_key list" where
  "recency st [] = st"
| "recency st (k # ks) = recency (k # removeAll k st) ks"

lemma recency_snoc [simp]: "recency st (ks @ [k]) = k # removeAll k (recency st ks)"
  by (induction ks arbitrary: st) auto

lemma recency_set [simp]: "set (recency [] ks) = set ks"
  by (induction ks rule: rev_induct) auto

lemma recency_distinct [simp]: "distinct (recency [] ks)"
  by (induction ks rule: rev_induct) (auto simp: distinct_removeAll)

lemma takeWhile_removeAll_set:
  "x \<noteq> k \<Longrightarrow> set (takeWhile (\<lambda>y. y \<noteq> k) (removeAll x st)) = set (takeWhile (\<lambda>y. y \<noteq> k) st) - {x}"
proof (induction st)
  case (Cons a st)
  then show ?case by (cases "a = x"; cases "a = k") auto
qed simp

lemma recency_takeWhile:
  "set (takeWhile (\<lambda>x. x \<noteq> k) (recency [] ks)) = set (takeWhile (\<lambda>x. x \<noteq> k) (rev ks))"
proof (induction ks rule: rev_induct)
  case (snoc x ks)
  then show ?case by (cases "x = k") (simp_all add: takeWhile_removeAll_set)
qed simp

lemma mem_take_iff: "k \<in> set (take n st) \<longleftrightarrow> k \<in> set st \<and> length (takeWhile (\<lambda>x. x \<noteq> k) st) < n"
proof (induction st arbitrary: n)
  case (Cons a st)
  then show ?case by (cases n) auto
qed simp

lemma recency_distance:
  "k \<in> set (take n (recency [] ks)) \<longleftrightarrow> (\<exists>d. reuse_distance ks k = Some d \<and> d < n)"
proof -
  have "length (takeWhile (\<lambda>x. x \<noteq> k) (recency [] ks)) = card (set (takeWhile (\<lambda>x. x \<noteq> k) (recency [] ks)))"
    by (simp add: distinct_card distinct_takeWhile)
  then show ?thesis by (auto simp: mem_take_iff reuse_distance_def recency_takeWhile)
qed

section \<open>The LRU keeps its keys in order of recency\<close>

definition lru_rep :: "lru \<Rightarrow> route_key list \<Rightarrow> bool" where
  "lru_rep l ks \<longleftrightarrow> distinct ks \<and> distinct (map fst (lru_entries l))
     \<and> (\<exists>ps. map fst ps = ks \<and> set ps = set (lru_entries l) \<and> sorted_wrt (\<lambda>a b. snd b < snd a) ps)
     \<and> (\<forall>p \<in> set (lru_entries l). snd p \<le> lru_tick l)"

lemma lru_repI:
  "map fst ps = ks \<Longrightarrow> distinct ks \<Longrightarrow> distinct (map fst (lru_entries l)) \<Longrightarrow> set ps = set (lru_entries l)
   \<Longrightarrow> sorted_wrt (\<lambda>a b. snd b < snd a) ps \<Longrightarrow> (\<And>p. p \<in> set ps \<Longrightarrow> snd p \<le> lru_tick l) \<Longrightarrow> lru_rep l ks"
  by (auto simp: lru_rep_def)

lemma lru_repE:
  assumes "lru_rep l ks"
  obtains ps where "map fst ps = ks" "distinct ks" "distinct (map fst (lru_entries l))" "set ps = set (lru_entries l)"
    "sorted_wrt (\<lambda>a b. snd b < snd a) ps" "\<And>p. p \<in> set ps \<Longrightarrow> snd p \<le> lru_tick l"
  using assms by (auto simp: lru_rep_def)

lemma lru_rep_mem: "lru_rep l ks \<Longrightarrow> key \<in> fst ` set (lru_entries l) \<longleftrightarrow> key \<in> set ks"
  by (erule lru_repE) (metis list.set_map)

lemma lru_rep_length: "lru_rep l ks \<Longrightarrow> length (lru_entries l) = length ks"
  by (erule lru_repE) (metis distinct_card length_map list.set_map)

lemma lru_rep_new: "lru_rep (lru_new n) []"
  by (simp add: lru_rep_def lru_new_def)

lemma map_fst_filter: "map fst (filter (\<lambda>(k, _). k \<noteq> key) ps) = removeAll key (map fst ps)"
  by (induction ps) auto

lemma lru_touch_rep:
  assumes "lru_rep l ks"
  shows "fst (lru_touch key l) \<longleftrightarrow> key \<in> set ks" "lru_capacity (snd (lru_touch key l)) = lru_capacity l"
    and "lru_rep (snd (lru_touch key l)) (if key \<in> set ks then key # removeAll key ks else ks)"
proof -
  have in_l: "key \<in> fst ` set (lru_entries l) \<longleftrightarrow> key \<in> set ks" by (rule lru_rep_mem [OF assms])
  then show "fst (lru_touch key l) \<longleftrightarrow> key \<in> set ks" "lru_capacity (snd (lru_touch key l)) = lru_capacity l"
    by (auto simp: lru_touch_def Let_def)
  obtain ps where ps: "map fst ps = ks" "distinct ks" "distinct (map fst (lru_entries l))" "set ps = set (lru_entries l)"
    "sorted_wrt (\<lambda>a b. snd b < snd a) ps" "\<And>p. p \<in> set ps \<Longrightarrow> snd p \<le> lru_tick l"
    using lru_repE [OF assms] by metis
  show "lru_rep (snd (lru_touch key l)) (if key \<in> set ks then key # removeAll key ks else ks)"
  proof (cases "key \<in> set ks")
    case False
    then have "snd (lru_touch key l) = l\<lparr> lru_tick := lru_tick l + 1 \<rparr>" using in_l by (simp add: lru_touch_def Let_def)
    moreover have "lru_rep (l\<lparr> lru_tick := lru_tick l + 1 \<rparr>) ks" by (rule lru_repI [of ps]) (use ps in \<open>simp_all add: le_SucI\<close>)
    ultimately show ?thesis using False by simp
  next
    case True
    let ?up = "\<lambda>p. if fst p = key then (fst p, lru_tick l + 1) else p"
    let ?qs = "(key, lru_tick l + 1) # filter (\<lambda>(k, _). k \<noteq> key) ps"
    have touched: "snd (lru_touch key l) = l\<lparr> lru_tick := lru_tick l + 1, lru_entries := map ?up (lru_entries l) \<rparr>"
      using True in_l by (auto simp: lru_touch_def Let_def split_beta intro!: map_cong)
    obtain s where s: "(key, s) \<in> set (lru_entries l)" using True in_l by auto
    have set_qs: "set ?qs = set (map ?up (lru_entries l))" 
    proof -
      have "set (map ?up (lru_entries l)) = insert (key, lru_tick l + 1) {p \<in> set (lru_entries l). fst p \<noteq> key}"
        using s by (auto simp: image_iff)
      then show ?thesis using ps(4) by (auto simp: split_beta)
    qed
    have "lru_rep (l\<lparr> lru_tick := lru_tick l + 1, lru_entries := map ?up (lru_entries l) \<rparr>) (key # removeAll key ks)"
    proof (rule lru_repI [of ?qs])
      show "map fst ?qs = key # removeAll key ks" using ps(1) map_fst_filter [of key ps] by simp
      show "sorted_wrt (\<lambda>a b. snd b < snd a) ?qs" using ps(5,6) by (auto simp: sorted_wrt_filter less_Suc_eq_le)
      show "snd p \<le> lru_tick (l\<lparr> lru_tick := lru_tick l + 1, lru_entries := map ?up (lru_entries l) \<rparr>)" if "p \<in> set ?qs" for p
        using that ps(6) [of p] by auto
      show "distinct (map fst (lru_entries (l\<lparr> lru_tick := lru_tick l + 1, lru_entries := map ?up (lru_entries l) \<rparr>)))"
        using ps(3) by (simp add: comp_def if_distrib cong: if_cong)
    qed (use ps(2) set_qs in \<open>simp_all add: distinct_removeAll\<close>)
    then show ?thesis using True touched by simp
  qed
qed

lemma lru_filter_rep:
  assumes "lru_rep l ks"
  shows "lru_rep (l\<lparr> lru_entries := filter (\<lambda>(k, _). k \<noteq> key) (lru_entries l) \<rparr>) (removeAll key ks)"
proof -
  obtain ps where ps: "map fst ps = ks" "distinct ks" "distinct (map fst (lru_entries l))" "set ps = set (lru_entries l)"
    "sorted_wrt (\<lambda>a b. snd b < snd a) ps" "\<And>p. p \<in> set ps \<Longrightarrow> snd p \<le> lru_tick l"
    using lru_repE [OF assms] by metis
  show ?thesis
    by (rule lru_repI [of "filter (\<lambda>(k, _). k \<noteq> key) ps"])
      (use ps in \<open>auto simp: map_fst_filter distinct_removeAll sorted_wrt_filter\<close>)
qed

lemma lru_remove_rep:
  assumes "lru_rep l ks"
  shows "fst (lru_remove key l) \<longleftrightarrow> key \<in> set ks" "lru_capacity (snd (lru_remove key l)) = lru_capacity l"
    and "lru_rep (snd (lru_remove key l)) (removeAll key ks)"
  using lru_rep_mem [OF assms] lru_filter_rep [OF assms] by (simp_all add: lru_remove_def)

lemma lru_push_rep:
  assumes "lru_rep l ks" "key \<notin> set ks"
  shows "lru_rep (l\<lparr> lru_tick := lru_tick l + 1, lru_entries := (key, lru_tick l + 1) # lru_entries l \<rparr>) (key # ks)"
proof -
  obtain ps where ps: "map fst ps = ks" "distinct ks" "distinct (map fst (lru_entries l))" "set ps = set (lru_entries l)"
    "sorted_wrt (\<lambda>a b. snd b < snd a) ps" "\<And>p. p \<in> set ps \<Longrightarrow> snd p \<le> lru_tick l"
    using lru_repE [OF assms(1)] by metis
  have "key \<notin> fst ` set (lru_entries l)" using lru_rep_mem [OF assms(1)] assms(2) by blast
  then show ?thesis
    by (intro lru_repI [of "(key, lru_tick l + 1) # ps"])
      (use ps assms(2) in \<open>auto simp: less_Suc_eq_le le_SucI\<close>)
qed

lemma oldest_entry_min: "oldest_entry xs = Some x \<Longrightarrow> x \<in> set xs \<and> (\<forall>y \<in> set xs. snd x \<le> snd y)"
proof (induction xs arbitrary: x)
  case (Cons a xs)
  show ?case
  proof (cases "oldest_entry xs")
    case None
    then show ?thesis using Cons(2) by (cases xs) (auto split: option.splits if_splits)
  next
    case (Some y)
    then show ?thesis using Cons(1) [OF Some] Cons(2) by (auto split: if_splits intro: order_trans)
  qed
qed simp

lemma oldest_entry_None [simp]: "oldest_entry xs = None \<longleftrightarrow> xs = []"
  by (cases xs) (auto split: option.splits if_splits)

lemma oldest_is_last:
  assumes "lru_rep l ks" "ks \<noteq> []"
  shows "map_option fst (oldest_entry (lru_entries l)) = Some (last ks)"
proof -
  obtain ps where ps: "map fst ps = ks" "set ps = set (lru_entries l)" "sorted_wrt (\<lambda>a b. snd b < snd a) ps"
    using lru_repE [OF assms(1)] by metis
  then obtain qs p where qs: "ps = qs @ [p]" using assms(2) by (cases ps rule: rev_cases) auto
  obtain x where x: "oldest_entry (lru_entries l) = Some x" using ps(2) qs by (cases "oldest_entry (lru_entries l)") auto
  then have "x \<in> set ps" "snd x \<le> snd p" using oldest_entry_min [OF x] ps(2) qs by auto
  then have "x = p" using ps(3) qs by (auto simp: sorted_wrt_append)
  then show ?thesis using x ps(1) qs by auto
qed

lemma removeAll_last: "distinct ks \<Longrightarrow> ks \<noteq> [] \<Longrightarrow> removeAll (last ks) ks = butlast ks"
  by (induction ks rule: rev_induct) auto

lemma lru_insert_rep:
  assumes "lru_rep l ks" "key \<notin> set ks" "length ks \<le> lru_capacity l"
  shows "fst (lru_insert key l) = (if lru_capacity l \<le> length ks then Some (last (key # ks)) else None)"
    "lru_capacity (snd (lru_insert key l)) = lru_capacity l"
    "lru_rep (snd (lru_insert key l)) (take (lru_capacity l) (key # ks))"
proof -
  have dist: "distinct ks" using assms(1) by (simp add: lru_rep_def)
  have len: "length (lru_entries l) = length ks" by (rule lru_rep_length [OF assms(1)])
  have gone: "filter (\<lambda>(k, _). k \<noteq> key) (lru_entries l) = lru_entries l"
    using lru_rep_mem [OF assms(1), of key] assms(2) by (force simp: filter_id_conv)
  show "lru_capacity (snd (lru_insert key l)) = lru_capacity l" by (simp add: lru_insert_def Let_def)
  consider "lru_capacity l = 0" | "0 < lru_capacity l" "length ks < lru_capacity l" | "0 < lru_capacity l" "length ks = lru_capacity l"
    using assms(3) by linarith
  then have "fst (lru_insert key l) = (if lru_capacity l \<le> length ks then Some (last (key # ks)) else None)
     \<and> lru_rep (snd (lru_insert key l)) (take (lru_capacity l) (key # ks))"
  proof cases
    case 1
    then show ?thesis using assms(1,3) by (simp add: lru_insert_def)
  next
    case 2
    then show ?thesis using lru_push_rep [OF assms(1,2)] by (simp add: lru_insert_def Let_def len gone)
  next
    case 3
    then have ne: "ks \<noteq> []" by auto
    let ?l = "l\<lparr> lru_entries := filter (\<lambda>(k, _). k \<noteq> last ks) (lru_entries l) \<rparr>"
    have kept: "lru_rep ?l (butlast ks)" using lru_filter_rep [OF assms(1), of "last ks"] by (simp add: removeAll_last dist ne)
    have "key \<notin> set (butlast ks)" using assms(2) by (meson in_set_butlastD)
    from lru_push_rep [OF kept this] have rep: "lru_rep (l\<lparr> lru_tick := lru_tick l + 1,
        lru_entries := (key, lru_tick l + 1) # filter (\<lambda>(k, _). k \<noteq> last ks) (lru_entries l) \<rparr>) (key # butlast ks)" by simp
    have twice: "filter (\<lambda>(k, _). k \<noteq> key) (filter (\<lambda>(k, _). k \<noteq> last ks) (lru_entries l)) = filter (\<lambda>(k, _). k \<noteq> last ks) (lru_entries l)"
      by (rule filter_True) (use lru_rep_mem [OF assms(1), of key] assms(2) in force)
    have front: "take (lru_capacity l) (key # ks) = key # butlast ks"
      using 3 by (simp add: take_Cons' butlast_conv_take)
    have "lru_insert key l = (Some (last ks), l\<lparr> lru_tick := lru_tick l + 1,
        lru_entries := (key, lru_tick l + 1) # filter (\<lambda>(k, _). k \<noteq> last ks) (lru_entries l) \<rparr>)"
      using 3 oldest_is_last [OF assms(1) ne] unfolding lru_insert_def Let_def len by (simp only: twice option.case if_True order_refl) simp
    then have ins: "fst (lru_insert key l) = Some (last ks)" "lru_rep (snd (lru_insert key l)) (key # butlast ks)" using rep by simp_all
    have "lru_capacity l \<le> length ks" using 3(2) by simp
    then show ?thesis unfolding front using ins ne by simp
  qed
  then show "fst (lru_insert key l) = (if lru_capacity l \<le> length ks then Some (last (key # ks)) else None)"
    "lru_rep (snd (lru_insert key l)) (take (lru_capacity l) (key # ks))" by auto
qed

section \<open>The tiers hold the most recent experts\<close>

lemma recent_vram:
  "k \<notin> set (take v st) \<Longrightarrow> take v (k # removeAll k st) = take v (k # take v st)"
proof (cases v)
  case (Suc n)
  assume out: "k \<notin> set (take v st)"
  have "take n (removeAll k st) = take n st" if "k \<notin> set (take (Suc n) st)" for n
    using that
  proof (induction n arbitrary: st)
    case (Suc n)
    then show ?case by (cases st) auto
  qed simp
  from this [of n] show ?thesis using out Suc by (simp add: min_def)
qed simp

lemma drop_length_last: "drop (length a) (k # a @ b) = last (k # a) # b"
  by (induction a arbitrary: k) auto

lemma recent_beyond:
  assumes "k \<notin> set (take v st)" "v \<le> length st"
  shows "drop v (k # removeAll k st) = last (k # take v st) # removeAll k (drop v st)"
proof -
  have "removeAll k (take v st @ drop v st) = take v st @ removeAll k (drop v st)"
    unfolding removeAll_append using assms(1) by simp
  then have split: "removeAll k st = take v st @ removeAll k (drop v st)" by (simp only: append_take_drop_id)
  have "length (take v st) = v" using assms(2) by simp
  then show ?thesis unfolding split using drop_length_last [of "take v st" k "removeAll k (drop v st)"] by (simp only:)
qed

lemma take_removeAll:
  "distinct st \<Longrightarrow> take r (e # removeAll k (take r st)) = take r (e # removeAll k st)"
proof (cases r)
  case (Suc n)
  have "take n (removeAll k (take (Suc n) st)) = take n (removeAll k st)" if "distinct st" for n
    using that
  proof (induction n arbitrary: st)
    case (Suc n)
    then show ?case
    proof (cases st)
      case (Cons a xs)
      have "removeAll k (take m xs) = take m xs" if "a = k" for m
        using that Suc(2) Cons by (auto intro!: removeAll_id dest: in_set_takeD)
      then show ?thesis using Suc Cons by (cases "a = k") (auto simp: min_def)
    qed simp
  qed simp
  then show "distinct st \<Longrightarrow> take r (e # removeAll k (take r st)) = take r (e # removeAll k st)" using Suc by simp
qed simp

definition tiers_rep :: "nat \<Rightarrow> nat \<Rightarrow> lru \<Rightarrow> lru \<Rightarrow> route_key list \<Rightarrow> bool" where
  "tiers_rep v r vram ram st \<longleftrightarrow> lru_capacity vram = v \<and> lru_capacity ram = r
     \<and> lru_rep vram (take v st) \<and> lru_rep ram (take r (drop v st))"

definition count_use :: "nat \<Rightarrow> tier_hits \<Rightarrow> tier_hits" where
  "count_use tier h =
     \<lparr> th_vram = th_vram h + (if tier = 0 then 1 else 0), th_ram = th_ram h + (if tier = 1 then 1 else 0),
       th_drive = th_drive h + (if tier = 2 then 1 else 0) \<rparr>"

definition stack_tier :: "nat \<Rightarrow> nat \<Rightarrow> route_key list \<Rightarrow> route_key \<Rightarrow> nat" where
  "stack_tier v r st k = (if k \<in> set (take v st) then 0 else if k \<in> set (take r (drop v st)) then 1 else 2)"

lemma replay_step_tiers:
  assumes "tiers_rep v r vram ram st" "distinct st" "replay_step k (vram, ram, h) = (vram', ram', h')"
  shows "tiers_rep v r vram' ram' (k # removeAll k st) \<and> h' = count_use (stack_tier v r st k) h"
proof -
  have cap: "lru_capacity vram = v" "lru_capacity ram = r" and reps: "lru_rep vram (take v st)" "lru_rep ram (take r (drop v st))"
    using assms(1) by (simp_all add: tiers_rep_def)
  obtain hit vram1 where t: "lru_touch k vram = (hit, vram1)" by (cases "lru_touch k vram")
  note touch = lru_touch_rep [OF reps(1), of k, unfolded t fst_conv snd_conv cap]
  show ?thesis
  proof (cases "k \<in> set (take v st)")
    case True
    then have out: "vram' = vram1" "ram' = ram" "h' = h\<lparr> th_vram := th_vram h + 1 \<rparr>"
      using assms(3) t touch(1) by (auto simp: replay_step_def)
    obtain a b where ab: "st = a @ k # b" "k \<notin> set a" using True split_list_first [of k st] by (auto dest: in_set_takeD)
    have len: "length a < v" 
    proof -
      have "takeWhile (\<lambda>x. x \<noteq> k) (a @ k # b) = a" by (subst takeWhile_append2) (use ab(2) in auto)
      then show ?thesis using True ab(1) unfolding mem_take_iff by simp
    qed
    have "k \<notin> set b" using ab assms(2) by auto
    then have "removeAll k (take n b) = take n b" for n by (auto intro!: removeAll_id dest: in_set_takeD)
    then have "take v (k # removeAll k st) = k # removeAll k (take v st)" "drop v (k # removeAll k st) = drop v st"
      using ab len \<open>k \<notin> set b\<close> by (auto simp: take_Cons' drop_Cons' dest: in_set_takeD)
    then show ?thesis using out touch True reps(2) cap
      by (simp add: tiers_rep_def count_use_def stack_tier_def)
  next
    case False
    obtain found ram1 where m: "lru_remove k ram = (found, ram1)" by (cases "lru_remove k ram")
    note remove = lru_remove_rep [OF reps(2), of k, unfolded m fst_conv snd_conv cap]
    obtain ev vram2 where i: "lru_insert k vram1 = (ev, vram2)" by (cases "lru_insert k vram1")
    have v1: "lru_rep vram1 (take v st)" "length (take v st) \<le> lru_capacity vram1" using touch False by auto
    note insert = lru_insert_rep [OF v1(1) False v1(2), unfolded i fst_conv snd_conv touch(2)]
    have new_vram: "lru_rep vram2 (take v (k # removeAll k st))" using insert(3) recent_vram [OF False] by simp
    have hits: "h' = count_use (stack_tier v r st k) h"
      using assms(3) t m i touch(1) remove(1) False
      by (auto simp: replay_step_def Let_def count_use_def stack_tier_def split: option.splits)
    show ?thesis
    proof (cases "v \<le> length st")
      case True
      let ?e = "last (k # take v st)"
      let ?ks = "removeAll k (take r (drop v st))"
      have ev: "ev = Some ?e" using insert(1) True by simp
      have e_out: "?e \<notin> set ?ks"
      proof (cases "take v st = []")
        case False
        then have "?e \<in> set (take v st)" by simp
        then have "?e \<notin> set (drop v st)" using set_take_disj_set_drop_if_distinct [OF assms(2), of v v] by blast
        then have "?e \<notin> set (take r (drop v st))" by (meson in_set_takeD)
        then show ?thesis by simp
      qed simp
      have "length ?ks \<le> lru_capacity ram1" using remove(2) length_removeAll_less_eq [of k "take r (drop v st)"] by simp
      from lru_insert_rep(2,3) [OF remove(3) e_out this]
      have "lru_capacity (snd (lru_insert ?e ram1)) = r" "lru_rep (snd (lru_insert ?e ram1)) (take r (drop v (k # removeAll k st)))"
        unfolding recent_beyond [OF False True] using remove(2) take_removeAll [of "drop v st" r ?e k] assms(2) by simp_all
      moreover have "vram' = vram2" "ram' = snd (lru_insert ?e ram1)"
        using assms(3) t m i ev touch(1) \<open>k \<notin> set (take v st)\<close> by (auto simp: replay_step_def Let_def)
      ultimately show ?thesis using new_vram insert(2) hits by (simp add: tiers_rep_def)
    next
      case short: False
      then have "ev = None" using insert(1) by simp
      then have out: "vram' = vram2" "ram' = ram1"
        using assms(3) t m i touch(1) False by (auto simp: replay_step_def Let_def)
      have "length (k # removeAll k st) \<le> v" 
        using short length_removeAll_less_eq [of k st] unfolding list.size(4) by linarith
      then have "drop v (k # removeAll k st) = []" by (simp only: drop_eq_Nil)
      moreover have "lru_rep ram1 []" using remove(3) short by simp
      ultimately show ?thesis using out new_vram insert(2) remove(2) hits by (simp add: tiers_rep_def)
    qed
  qed
qed

lemma stack_tier_distance: "stack_tier v r (recency [] ks) k = serving_tier v r (reuse_distance ks k)"
proof -
  have "k \<in> set (take (v + r) st) \<longleftrightarrow> k \<in> set (take v st) \<or> k \<in> set (take r (drop v st))" for st
    by (simp add: take_add)
  then show ?thesis unfolding stack_tier_def serving_tier_def
    using recency_distance [of k v ks] recency_distance [of k "v + r" ks] by (auto split: option.splits)
qed

lemma uses_from_snoc:
  "uses_from (ks @ [k]) v r tier = uses_from ks v r tier + (if serving_tier v r (reuse_distance ks k) = tier then 1 else 0)"
proof -
  have "filter (\<lambda>i. serving_tier v r (reuse_distance (take i (ks @ [k])) ((ks @ [k]) ! i)) = tier) [0..<length ks]
      = filter (\<lambda>i. serving_tier v r (reuse_distance (take i ks) (ks ! i)) = tier) [0..<length ks]"
    by (rule filter_cong) (auto simp: nth_append)
  then show ?thesis by (simp add: uses_from_def)
qed

lemma distance_hits_snoc:
  "distance_hits (ks @ [k]) v r = count_use (serving_tier v r (reuse_distance ks k)) (distance_hits ks v r)"
  by (simp add: distance_hits_def count_use_def uses_from_snoc)

lemma replay_fold:
  "\<exists>vram ram. fold (replay_step \<circ> snd) us (lru_new v, lru_new r, \<lparr> th_vram = 0, th_ram = 0, th_drive = 0 \<rparr>)
     = (vram, ram, distance_hits (map snd us) v r) \<and> tiers_rep v r vram ram (recency [] (map snd us))"
proof (induction us rule: rev_induct)
  case Nil
  show ?case by (simp add: distance_hits_def uses_from_def tiers_rep_def lru_rep_new) (simp add: lru_new_def)
next
  case (snoc u us)
  obtain vram ram where before: "fold (replay_step \<circ> snd) us (lru_new v, lru_new r, \<lparr> th_vram = 0, th_ram = 0, th_drive = 0 \<rparr>)
      = (vram, ram, distance_hits (map snd us) v r)" "tiers_rep v r vram ram (recency [] (map snd us))" using snoc by blast
  obtain vram' ram' h' where step: "replay_step (snd u) (vram, ram, distance_hits (map snd us) v r) = (vram', ram', h')" by (metis prod_cases3)
  from replay_step_tiers [OF before(2) recency_distinct step]
  have "tiers_rep v r vram' ram' (recency [] (map snd (us @ [u])))" "h' = distance_hits (map snd (us @ [u])) v r"
    by (simp_all add: distance_hits_snoc stack_tier_distance)
  moreover have "fold (replay_step \<circ> snd) (us @ [u]) (lru_new v, lru_new r, \<lparr> th_vram = 0, th_ram = 0, th_drive = 0 \<rparr>) = (vram', ram', h')"
    using before(1) step by (simp only: fold_append fold.simps comp_def id_def)
  ultimately show ?case by blast
qed

lemma uses_from_total: "uses_from ks v r 0 + uses_from ks v r 1 + uses_from ks v r 2 = length ks"
proof (induction ks rule: rev_induct)
  case (snoc k ks)
  have "serving_tier v r (reuse_distance ks k) \<in> {0, 1, 2}" by (simp add: serving_tier_def split: option.splits)
  then show ?case using snoc by (auto simp: uses_from_snoc)
qed (simp add: uses_from_def)

section \<open>Counting\<close>

lemma bump_keys: "distinct (map fst m) \<Longrightarrow> distinct (map fst (bump k m)) \<and> fst ` set (bump k m) = insert k (fst ` set m)"
  by (induction k m rule: bump.induct) auto

lemma bump_count: "distinct (map fst m) \<Longrightarrow> map_of (bump k m) = (map_of m)(k \<mapsto> (case map_of m k of None \<Rightarrow> 1 | Some c \<Rightarrow> c + 1))"
  by (induction k m rule: bump.induct) (auto simp: fun_eq_iff split: option.splits)

lemma bump_sum: "sum_list (map snd (bump k m)) = sum_list (map snd m) + 1"
  by (induction k m rule: bump.induct) auto

lemma fold_bump:
  "distinct (map fst (fold bump ks [])) \<and> map_of (fold bump ks []) k = (if k \<in> set ks then Some (count_list ks k) else None)
   \<and> sum_list (map snd (fold bump ks [])) = length ks"
proof (induction ks arbitrary: k rule: rev_induct)
  case (snoc x ks)
  have d: "distinct (map fst (fold bump ks []))" using snoc by blast
  show ?case using snoc [of k] snoc [of x] bump_keys [OF d, of x] bump_count [OF d, of x] by (auto simp: bump_sum)
qed simp

lemmas counted = fold_bump [THEN conjunct1] fold_bump [THEN conjunct2, THEN conjunct1] fold_bump [THEN conjunct2, THEN conjunct2]

lemma counted_keys: "fst ` set (fold bump ks []) = set ks"
proof -
  have "k \<in> fst ` set (fold bump ks []) \<longleftrightarrow> map_of (fold bump ks []) k \<noteq> None" for k by (simp add: map_of_eq_None_iff)
  then show ?thesis unfolding set_eq_iff counted(2) by simp
qed

lemma fold_bump_uses: "fold (bump \<circ> snd) us [] = fold bump (map snd us) []"
  by (simp add: fold_map)

section \<open>Properties\<close>

text \<open>C21: The replay of the two exclusive LRU tiers serves every use by its reuse distance: from VRAM when fewer
  other experts than VRAM has slots were used since its last use, from RAM when fewer than both tiers
  have together, and from the drive otherwise, whatever the trace and the sizes, zero included; the
  three counts add up to the uses.\<close>

theorem replay_reuse_distance:
  "replay t v r = distance_hits (map snd (rt_uses t)) v r \<and> tier_total (replay t v r) = length (rt_uses t)"
proof -
  have "replay t v r = distance_hits (map snd (rt_uses t)) v r" using replay_fold [of "rt_uses t" v r] by (auto simp: replay_def)
  then show ?thesis using uses_from_total [of "map snd (rt_uses t)" v r] by (simp add: distance_hits_def tier_total_def)
qed

text \<open>The table of counts lists exactly the experts used with the number of their uses, the busiest first.\<close>

theorem counts_exact:
  "(l, e, c) \<in> set (counts t) \<longleftrightarrow> (l, e) \<in> set (map snd (rt_uses t)) \<and> c = count_list (map snd (rt_uses t)) (l, e)"
    and "sorted (map (\<lambda>(l, e, c). - int c) (counts t))" and "distinct (map (\<lambda>(l, e, c). (l, e)) (counts t))"
proof -
  let ?m = "fold bump (map snd (rt_uses t)) []"
  have "(l, e, c) \<in> set (counts t) \<longleftrightarrow> ((l, e), c) \<in> set ?m" by (force simp: counts_def Let_def fold_bump_uses)
  also have "\<dots> \<longleftrightarrow> map_of ?m (l, e) = Some c" by (rule map_of_eq_Some_iff [symmetric, OF counted(1)])
  finally show "(l, e, c) \<in> set (counts t) \<longleftrightarrow> (l, e) \<in> set (map snd (rt_uses t)) \<and> c = count_list (map snd (rt_uses t)) (l, e)"
    using counted(2) [of "map snd (rt_uses t)" "(l, e)"] by (auto split: if_splits)
  show "sorted (map (\<lambda>(l, e, c). - int c) (counts t))" unfolding counts_def Let_def by (rule sorted_sort_key)
  show "distinct (map (\<lambda>(l, e, c). (l, e)) (counts t))"
  proof -
    have "distinct ?m" and inj: "inj_on fst (set ?m)" using counted(1) [of "map snd (rt_uses t)"] by (auto simp: distinct_map)
    then have d: "distinct (counts t)" by (auto simp: counts_def Let_def fold_bump_uses distinct_map inj_on_def)
    have "inj_on (\<lambda>(l, e, c). (l, e)) (set (counts t))" using inj by (force simp: counts_def Let_def fold_bump_uses inj_on_def)
    then show ?thesis using d by (simp add: distinct_map)
  qed
qed

lemma summary_fold:
  fixes us :: "(nat \<times> route_key) list"
  defines "s \<equiv> fold summary_step us \<lparr> ss_counts = [], ss_last_seen = [], ss_repeats = 0, ss_eligible = 0 \<rparr>"
  shows "ss_counts s = fold bump (map snd us) [] \<and> ss_repeats s \<le> ss_eligible s \<and> ss_eligible s = length (filter (\<lambda>u. 0 < fst u) us)"
  unfolding s_def by (induction us rule: rev_induct) (auto simp: summary_step_def Let_def split_beta)

lemma busiest_share:
  fixes xs :: "nat list"
  assumes "sorted_wrt (\<ge>) xs" "length xs \<le> q * m"
  shows "sum_list xs \<le> q * sum_list (take m xs)"
proof (cases "m < length xs")
  case False
  then have "take m xs = xs" by simp
  moreover have "xs = [] \<or> 1 \<le> q" using assms(2) by (cases q) auto
  ultimately show ?thesis by auto
next
  case True
  then have q: "0 < q" "0 < m" using assms(2) by (auto intro!: Nat.gr0I)
  define x where "x = xs ! (m - 1)"
  have top: "x \<le> y" if y: "y \<in> set (take m xs)" for y
  proof -
    obtain i where i: "y = xs ! i" "i < m" using y by (auto simp: in_set_conv_nth)
    have "m - 1 < length xs" using True by linarith
    then show ?thesis using assms(1) i by (cases "i = m - 1") (simp_all add: x_def sorted_wrt_iff_nth_less)
  qed
  have rest: "y \<le> x" if "y \<in> set (drop m xs)" for y
    using that assms(1) True q(2) unfolding x_def by (auto simp: in_set_conv_nth sorted_wrt_iff_nth_less)
  have "sum_list (drop m xs) \<le> length (drop m xs) * x"
    using rest sum_list_mono [of "drop m xs" "\<lambda>y. y" "\<lambda>y. x"] by (simp add: sum_list_triv)
  also have "\<dots> \<le> (q - 1) * m * x" using assms(2) q by (intro mult_right_mono) (auto simp: diff_mult_distrib)
  also have "m * x \<le> sum_list (take m xs)"
    using top True sum_list_mono [of "take m xs" "\<lambda>y. x" "\<lambda>y. y"] by (simp add: sum_list_triv)
  then have "(q - 1) * m * x \<le> (q - 1) * sum_list (take m xs)" by (simp add: mult.assoc)
  finally have "sum_list (drop m xs) \<le> (q - 1) * sum_list (take m xs)" .
  moreover have "sum_list xs = sum_list (take m xs) + sum_list (drop m xs)" by (metis append_take_drop_id sum_list_append)
  moreover have "q * sum_list (take m xs) = sum_list (take m xs) + (q - 1) * sum_list (take m xs)" using q(1) by (cases q) auto
  ultimately show ?thesis by linarith
qed

text \<open>The shares of a summary are shares, and the busiest tenth of the experts has at least a tenth of the
  uses.\<close>

theorem summary_shares:
  "rs_distinct (summary t) = card (set (map snd (rt_uses t)))"
  "0 \<le> rs_repeat_share (summary t) \<and> rs_repeat_share (summary t) \<le> 1"
  "rt_uses t \<noteq> [] \<Longrightarrow> 1 / 10 \<le> rs_top_tenth_share (summary t) \<and> rs_top_tenth_share (summary t) \<le> 1"
proof -
  let ?s = "fold summary_step (rt_uses t) \<lparr> ss_counts = [], ss_last_seen = [], ss_repeats = 0, ss_eligible = 0 \<rparr>"
  let ?m = "fold bump (map snd (rt_uses t)) []"
  let ?xs = "rev (sort (map snd ?m))"
  note s = summary_fold [of "rt_uses t"]
  have "length ?m = card (fst ` set ?m)" using distinct_card [OF counted(1) [of "map snd (rt_uses t)"]] by simp
  then show "rs_distinct (summary t) = card (set (map snd (rt_uses t)))" 
    using s unfolding counted_keys by (simp add: summary_def Let_def)
  show "0 \<le> rs_repeat_share (summary t) \<and> rs_repeat_share (summary t) \<le> 1"
    using s by (simp add: summary_def Let_def ratio_def)
  have all: "sum_list ?xs = length (rt_uses t)" 
    using counted(3) [of "map snd (rt_uses t)"] by (simp add: sum_list_rev flip: sum_mset_sum_list)
  show "1 / 10 \<le> rs_top_tenth_share (summary t) \<and> rs_top_tenth_share (summary t) \<le> 1" if "rt_uses t \<noteq> []"
  proof -
    define top where "top = (length ?xs + 9) div 10"
    have share: "rs_top_tenth_share (summary t) = of_nat (sum_list (take top ?xs)) / of_nat (length (rt_uses t))"
      using s that by (simp add: summary_def Let_def ratio_def top_def)
    have "sorted_wrt (\<ge>) ?xs" using sorted_sort [of "map snd ?m"] by (simp only: sorted_wrt_rev)
    then have "sum_list ?xs \<le> 10 * sum_list (take top ?xs)" by (rule busiest_share) (simp add: top_def)
    then have low: "(of_nat (length (rt_uses t)) :: rat) \<le> of_nat (10 * sum_list (take top ?xs))" unfolding all of_nat_le_iff .
    have "sum_list (take top ?xs) \<le> sum_list ?xs" by (metis append_take_drop_id sum_list_append le_add1)
    then have high: "(of_nat (sum_list (take top ?xs)) :: rat) \<le> of_nat (length (rt_uses t))" unfolding all of_nat_le_iff .
    have "(0 :: rat) < of_nat (length (rt_uses t))" using that by simp
    then show ?thesis unfolding share using low high by (simp add: pos_le_divide_eq pos_divide_le_eq)
  qed
qed

end
