(* ===== verification/Validation.thy ===== *)
theory Validation
  imports Prompt Framing
begin

text \<open>
  Checks on what the broker stores, and what they give: the administrator's settings and image workflows
  (\<^verbatim>\<open>chatty-broker/src/systems/admin.rs\<close>), and accounts and characters (\<^verbatim>\<open>chatty-broker/src/utils.rs\<close>).  The JSON parser and the PNG reader are arguments.
\<close>

section \<open>Settings\<close>

text \<open>\<^verbatim>\<open>char::is_control\<close>: U+0000 to U+001F and U+007F to U+009F.\<close>

definition is_control :: "string \<Rightarrow> bool" where
  "is_control c \<longleftrightarrow> (case map of_char c of
      [b :: nat] \<Rightarrow> b < 32 \<or> b = 127
    | [b0, b1] \<Rightarrow> b0 = 0xC2 \<and> 0x80 \<le> b1 \<and> b1 \<le> 0x9F
    | _ \<Rightarrow> False)"

definition has_control :: "string \<Rightarrow> bool" where
  "has_control s \<longleftrightarrow> list_ex is_control (chars s)"

text \<open>\<^verbatim>\<open>is_finite\<close> and the range check together.\<close>

fun finite_in :: "rat \<Rightarrow> rat \<Rightarrow> f32 \<Rightarrow> bool" where
  "finite_in lo hi (Finite r) = (lo \<le> r \<and> r \<le> hi)"
| "finite_in lo hi (Infinite neg) = False"
| "finite_in lo hi NaN = False"

definition MIN_IMAGE_SIDE :: nat where "MIN_IMAGE_SIDE = 256"
definition MAX_IMAGE_SIDE :: nat where "MAX_IMAGE_SIDE = 2048"
definition MAX_IMAGE_STEPS :: nat where "MAX_IMAGE_STEPS = 150"
definition MAX_IMAGE_PROMPT_BYTES :: nat where "MAX_IMAGE_PROMPT_BYTES = 4096"
definition MAX_IMAGE_WORKFLOW_BYTES :: nat where "MAX_IMAGE_WORKFLOW_BYTES = 256 * 1024"

definition IMAGE_WORKFLOW_PLACEHOLDERS :: "string list" where
  "IMAGE_WORKFLOW_PLACEHOLDERS = map (\<lambda>n. ''{{'' @ n @ ''}}'')
     [''prompt'', ''negative_prompt'', ''model'', ''seed'', ''width'', ''height'', ''steps'', ''guidance'']"

text \<open>The parsed graph: not an object, or its nodes with whether each has a class and inputs.\<close>

datatype workflow_graph = NotAnObject | Nodes "(string \<times> bool) list"

function check_placeholders :: "string \<Rightarrow> string + unit" where
  "check_placeholders rest =
     (case find_str ''{{'' rest of
        None \<Rightarrow> Inr ()
      | Some start \<Rightarrow>
          (case find_str ''}}'' (drop start rest) of
             None \<Rightarrow> Inr ()
           | Some n \<Rightarrow>
               let placeholder = take (n + 2) (drop start rest) in
               if placeholder \<notin> set IMAGE_WORKFLOW_PLACEHOLDERS then Inl (''unknown image workflow placeholder '' @ placeholder)
               else check_placeholders (drop (start + n + 2) rest)))"
  by pat_completeness auto
termination
proof (relation "measure length")
  fix rest :: string and start n :: nat
  assume "find_str ''{{'' rest = Some start"
  then have "rest \<noteq> []" by (cases rest) auto
  then show "(drop (start + n + 2) rest, rest) \<in> measure length" by simp
qed simp

declare check_placeholders.simps [simp del]

definition validate_image_workflow :: "(string \<Rightarrow> workflow_graph option) \<Rightarrow> string \<Rightarrow> string + unit" where
  "validate_image_workflow json workflow =
     (if workflow = [] then Inr ()
      else if MAX_IMAGE_WORKFLOW_BYTES < length workflow then Inl ''image workflow must not exceed 256 KiB''
      else case json workflow of
             None \<Rightarrow> Inl ''image workflow is not valid JSON''
           | Some NotAnObject \<Rightarrow> Inl ''image workflow must be a JSON object of nodes''
           | Some (Nodes nodes) \<Rightarrow>
               if ''nodes'' \<in> fst ` set nodes \<and> ''links'' \<in> fst ` set nodes
               then Inl ''this is a UI workflow; in ComfyUI use Workflow > Export (API)''
               else if nodes = [] \<or> 500 < length nodes then Inl ''image workflow must contain 1 to 500 nodes''
               else (case find (\<lambda>(_, fine). \<not> fine) nodes of
                       Some (i, _) \<Rightarrow> Inl (''workflow node '' @ i @ '' needs a class_type and inputs'')
                     | None \<Rightarrow>
                         if \<not> contains ''{{prompt}}'' workflow then Inl ''image workflow must use {{prompt}} in a text input''
                         else check_placeholders workflow))"

definition validate_broker_config :: "(string \<Rightarrow> workflow_graph option) \<Rightarrow> broker_config \<Rightarrow> string + unit" where
  "validate_broker_config json c =
     (let g = cfg_image c in
      if 256 < length (cfg_model c) then Inl ''model name must not exceed 256 bytes''
      else if \<not> finite_in 0 2 (cfg_temperature c) then Inl ''temperature must be between 0 and 2''
      else if \<not> finite_in 0 1 (cfg_top_p c) then Inl ''top-p must be between 0 and 1''
      else if 10000 < cfg_top_k c then Inl ''top-k must be between 0 and 10000''
      else if cfg_num_ctx c < 128 \<or> 1048576 < cfg_num_ctx c then Inl ''context length must be between 128 and 1048576''
      else if sint (cfg_num_predict c) < - 1 \<or> 1048576 < sint (cfg_num_predict c) then Inl ''prediction limit must be -1 or between 0 and 1048576''
      else if \<not> finite_in 0 2 (cfg_repeat_penalty c) then Inl ''repeat penalty must be between 0 and 2''
      else if cfg_keep_alive c = [] \<or> 32 < length (cfg_keep_alive c) then Inl ''keep-alive must be an Ollama duration such as 5m, 1h, or 0''
      else if 4096 < length (cfg_emotion_model c) \<or> has_control (cfg_emotion_model c) then Inl ''emotion model path is invalid''
      else if 256 < length (cfg_memory_model c) \<or> has_control (cfg_memory_model c) then Inl ''memory model name is invalid''
      else if \<not> starts_with ''http://'' (img_url g) \<and> \<not> starts_with ''https://'' (img_url g) then Inl ''image service URL must use http or https''
      else if 256 < length (img_model g) \<or> has_control (img_model g) then Inl ''image model name is invalid''
      else if unat (img_width g) < MIN_IMAGE_SIDE \<or> MAX_IMAGE_SIDE < unat (img_width g)
           \<or> unat (img_height g) < MIN_IMAGE_SIDE \<or> MAX_IMAGE_SIDE < unat (img_height g)
           \<or> \<not> 8 dvd unat (img_width g) \<or> \<not> 8 dvd unat (img_height g)
      then Inl ''image size must be 256 to 2048 pixels per side, in multiples of 8''
      else if unat (img_steps g) < 1 \<or> MAX_IMAGE_STEPS < unat (img_steps g) then Inl ''image steps must be between 1 and 150''
      else if \<not> finite_in 0 30 (img_guidance g) then Inl ''image guidance must be between 0 and 30''
      else if MAX_IMAGE_PROMPT_BYTES < length (img_negative_prompt g) then Inl ''image negative prompt must not exceed 4096 bytes''
      else validate_image_workflow json (img_workflow g))"

text \<open>\<open>AdminSetBrokerConfig\<close>: what is stored.  \<open>is_file\<close> looks at the broker's file system and \<open>select\<close> is
  \<^verbatim>\<open>validate_selection\<close> of the adapter registry.\<close>

fun trim_slashes :: "string \<Rightarrow> string" where
  "trim_slashes s = rev (dropWhile (\<lambda>c. c = CHR ''/'') (rev s))"

definition normalize_config :: "broker_config \<Rightarrow> broker_config" where
  "normalize_config c =
     (let g = cfg_image c in
      c\<lparr> cfg_adapter_url := trim_slashes (trim (cfg_adapter_url c)), cfg_model := trim (cfg_model c),
         cfg_keep_alive := trim (cfg_keep_alive c),
         cfg_image := g\<lparr> img_url := trim_slashes (trim (img_url g)), img_model := trim (img_model g),
           img_negative_prompt := trim (img_negative_prompt g) \<rparr>,
         cfg_emotion_model := trim (cfg_emotion_model c), cfg_memory_model := trim (cfg_memory_model c) \<rparr>)"

definition set_broker_config ::
  "(string \<Rightarrow> workflow_graph option) \<Rightarrow> (string \<Rightarrow> bool) \<Rightarrow> (broker_config \<Rightarrow> string + unit) \<Rightarrow> broker_config \<Rightarrow> broker_config
   \<Rightarrow> (string + unit) \<times> broker_config" where
  "set_broker_config json is_file select config stored =
     (let c = normalize_config config in
      if adapter_plugin_id c = ''chatty-metal'' \<and> cfg_adapter_url c = []
      then (Inl ''chatty-metal adapter URL cannot be empty'', stored)
      else if adapter_plugin_id c \<noteq> ''chatty-metal'' \<and> \<not> starts_with ''http://'' (cfg_adapter_url c)
              \<and> \<not> starts_with ''https://'' (cfg_adapter_url c)
      then (Inl ''adapter URL must use http or https'', stored)
      else case validate_broker_config json c of
             Inl e \<Rightarrow> (Inl e, stored)
           | Inr _ \<Rightarrow>
               if cfg_emotion_model c \<noteq> [] \<and> \<not> is_file (cfg_emotion_model c)
               then (Inl ''emotion model must be a GGUF file path on the broker host'', stored)
               else case select c of Inl e \<Rightarrow> (Inl e, stored) | Inr _ \<Rightarrow> (Inr (), c))"

section \<open>Accounts and characters\<close>

definition validate_credentials :: "string \<Rightarrow> string \<Rightarrow> string + unit" where
  "validate_credentials u p =
     (if length u < 3 \<or> 64 < length u \<or> length p < 10 \<or> 1024 < length p then Inl ''username or password length invalid'' else Inr ())"

record character_image =
  ci_id :: string
  ci_label :: string
  ci_data :: string

record character_input =
  ch_id :: "string option"
  ch_name :: string
  ch_description :: string
  ch_personality :: string
  ch_scenario :: string
  ch_system_prompt :: string
  ch_example_dialogue :: string
  ch_appearance :: string
  ch_age :: string
  ch_gender :: string
  ch_race :: string
  ch_misc :: string
  ch_tags :: "string list"
  ch_avatar :: "string option"
  ch_images :: "character_image list"
  ch_default_image :: "string option"
  ch_is_public :: bool
  ch_owned_by_user :: bool

definition ch_fields :: "character_input \<Rightarrow> string list" where
  "ch_fields c = [ch_description c, ch_personality c, ch_scenario c, ch_system_prompt c, ch_example_dialogue c,
     ch_appearance c, ch_age c, ch_gender c, ch_race c, ch_misc c]"

text \<open>\<open>png\<close> reads the dimensions.  The running total saturates at the largest \<^verbatim>\<open>usize\<close>, which 32 images of at most
  2 MiB do not reach.\<close>

fun check_images :: "(string \<Rightarrow> (nat \<times> nat) option) \<Rightarrow> string list \<Rightarrow> nat \<Rightarrow> character_image list \<Rightarrow> string + nat" where
  "check_images png seen total_bytes [] = Inr total_bytes"
| "check_images png seen total_bytes (i # is) =
     (if ci_id i = [] \<or> 128 < length (ci_id i) \<or> ci_id i \<in> set seen \<or> trim (ci_label i) = [] \<or> 256 < length (ci_label i)
         \<or> 2 * 1024 * 1024 < length (ci_data i)
      then Inl ''character image invalid''
      else case png (ci_data i) of
             None \<Rightarrow> Inl ''character image must be a valid PNG''
           | Some (w, h) \<Rightarrow>
               if w < 128 \<or> h < 128 \<or> 512 < w \<or> 512 < h then Inl ''character image dimensions must be between 128x128 and 512x512''
               else check_images png (ci_id i # seen) (total_bytes + length (ci_data i)) is)"

definition validate_character :: "(string \<Rightarrow> (nat \<times> nat) option) \<Rightarrow> character_input \<Rightarrow> string + unit" where
  "validate_character png c =
     (if ch_name c = [] \<or> 256 < length (ch_name c) then Inl ''character name length invalid''
      else if list_ex (\<lambda>v. 65536 < length v) (ch_fields c) then Inl ''character field too large''
      else if 128 < length (ch_tags c) \<or> list_ex (\<lambda>t. 256 < length t) (ch_tags c) then Inl ''character tags too large''
      else if (case ch_avatar c of None \<Rightarrow> False | Some a \<Rightarrow> 2 * 1024 * 1024 < length a) then Inl ''character avatar too large''
      else if 32 < length (ch_images c) then Inl ''too many character images''
      else and_then (check_images png [] 0 (ch_images c)) (\<lambda>total_bytes.
        if 5 * 1024 * 1024 < total_bytes then Inl ''character images too large''
        else case ch_default_image c of
               None \<Rightarrow> Inr ()
             | Some d \<Rightarrow> if list_ex (\<lambda>i. ci_id i = d) (ch_images c) then Inr () else Inl ''default character image not found''))"

section \<open>Lemmas\<close>

lemma finite_inD: "finite_in lo hi x \<Longrightarrow> \<exists>r. x = Finite r \<and> lo \<le> r \<and> r \<le> hi"
  by (cases x) auto

definition image_bytes :: "character_image list \<Rightarrow> nat" where
  "image_bytes is = sum_list (map (length \<circ> ci_data) is)"

lemma check_images_ok:
  assumes "check_images png seen n is = Inr n'"
  shows "n' = n + image_bytes is" "distinct (map ci_id is)" "set (map ci_id is) \<inter> set seen = {}"
    "i \<in> set is \<Longrightarrow> length (ci_id i) \<le> 128 \<and> length (ci_label i) \<le> 256"
  using assms
  by (induction png seen n "is" rule: check_images.induct)
    (auto simp: image_bytes_def split: if_splits option.splits prod.splits)

text \<open>The variable-sized content of a character, and how many separate strings and lists it has; each is
  written with a length of at most nine bytes.\<close>

definition id_bytes :: "character_input \<Rightarrow> nat" where
  "id_bytes c = (case ch_id c of None \<Rightarrow> 0 | Some i \<Rightarrow> length i)"

definition content_bytes :: "character_input \<Rightarrow> nat" where
  "content_bytes c =
     id_bytes c + length (ch_name c) + sum_list (map length (ch_fields c)) + sum_list (map length (ch_tags c))
     + (case ch_avatar c of None \<Rightarrow> 0 | Some a \<Rightarrow> length a)
     + sum_list (map (\<lambda>i. length (ci_id i) + length (ci_label i) + length (ci_data i)) (ch_images c))
     + (case ch_default_image c of None \<Rightarrow> 0 | Some d \<Rightarrow> length d)"

definition content_parts :: "character_input \<Rightarrow> nat" where
  "content_parts c = 16 + length (ch_tags c) + 3 * length (ch_images c)"

lemma sum_list_bounded: "(\<And>x. x \<in> set xs \<Longrightarrow> f x \<le> (b :: nat)) \<Longrightarrow> length xs \<le> n \<Longrightarrow> sum_list (map f xs) \<le> n * b"
  using sum_list_mono [of xs f "\<lambda>_. b"] by (fastforce simp: sum_list_triv intro: order_trans mult_le_mono1)

lemma image_content:
  assumes "check_images png seen n is = Inr n'" "length is \<le> 32"
  shows "sum_list (map (\<lambda>i. length (ci_id i) + length (ci_label i) + length (ci_data i)) is) \<le> image_bytes is + 32 * 384"
proof -
  have "sum_list (map (\<lambda>i. length (ci_id i) + length (ci_label i)) is) \<le> 32 * 384"
    using check_images_ok(4) [OF assms(1)] assms(2) by (intro sum_list_bounded) fastforce+
  then show ?thesis by (simp add: image_bytes_def sum_list_addf comp_def)
qed

lemma validate_characterD:
  assumes "validate_character png c = Inr ()"
  shows "length (ch_name c) \<le> 256" "v \<in> set (ch_fields c) \<Longrightarrow> length v \<le> 65536"
    "length (ch_tags c) \<le> 128" "t \<in> set (ch_tags c) \<Longrightarrow> length t \<le> 256"
    "ch_avatar c = Some a \<Longrightarrow> length a \<le> 2 * 1024 * 1024" "length (ch_images c) \<le> 32"
    "\<exists>n. check_images png [] 0 (ch_images c) = Inr n \<and> n \<le> 5 * 1024 * 1024"
    "ch_default_image c = Some d \<Longrightarrow> d \<in> ci_id ` set (ch_images c)"
  using assms
  by (auto simp: validate_character_def and_then_eq_Inr list_ex_iff linorder_not_less split: if_splits option.splits)

text \<open>
  A character that passes \<open>validate_character\<close> leaves 320 KiB of a frame, less the length of its id, for its flags and the
  request around it, with its avatar present; its image ids are distinct and its default image is one of them.  The
  comment in \<^verbatim>\<open>utils.rs\<close> promises that the request fits a frame; the length of the id is not checked.
\<close>

theorem validated_character_fits_frame:
  assumes "validate_character png c = Inr ()"
  shows "content_bytes c + 9 * content_parts c + 320 * 1024 \<le> MAX_PAYLOAD + id_bytes c
    \<and> distinct (map ci_id (ch_images c))
    \<and> (\<forall>d. ch_default_image c = Some d \<longrightarrow> d \<in> ci_id ` set (ch_images c))"
proof -
  note v = validate_characterD [OF assms]
  obtain n where n: "check_images png [] 0 (ch_images c) = Inr n" "n \<le> 5 * 1024 * 1024" using v(7) by blast
  have fields: "sum_list (map length (ch_fields c)) \<le> 10 * 65536" using v(2) by (intro sum_list_bounded) (auto simp: ch_fields_def)
  have tags: "sum_list (map length (ch_tags c)) \<le> 128 * 256" using v(3,4) by (intro sum_list_bounded)
  have avatar: "(case ch_avatar c of None \<Rightarrow> 0 | Some a \<Rightarrow> length a) \<le> 2 * 1024 * 1024" using v(5) by (simp split: option.split)
  have images: "sum_list (map (\<lambda>i. length (ci_id i) + length (ci_label i) + length (ci_data i)) (ch_images c))
      \<le> 5 * 1024 * 1024 + 32 * 384"
    using image_content [OF n(1) v(6)] check_images_ok(1) [OF n(1)] n(2) by simp
  have default: "(case ch_default_image c of None \<Rightarrow> 0 | Some d \<Rightarrow> length d) \<le> 128"
    using v(8) check_images_ok(4) [OF n(1)] by (fastforce split: option.split)
  show ?thesis
    using v(1,3,6,8) fields tags avatar images default check_images_ok(2) [OF n(1)]
    by (simp add: content_bytes_def content_parts_def MAX_PAYLOAD_def)
qed

definition sample_character :: character_input where
  "sample_character = \<lparr> ch_id = None, ch_name = ''Ada'', ch_description = ''engineer'', ch_personality = [], ch_scenario = [],
     ch_system_prompt = [], ch_example_dialogue = [], ch_appearance = [], ch_age = [], ch_gender = [], ch_race = [],
     ch_misc = [], ch_tags = [''default''], ch_avatar = Some ''png'',
     ch_images = [\<lparr> ci_id = ''a'', ci_label = ''happy'', ci_data = ''x'' \<rparr>], ch_default_image = Some ''a'',
     ch_is_public = False, ch_owned_by_user = True \<rparr>"

theorem validated_character_fits_frame_witness:
  "validate_character (\<lambda>_. Some (256, 256)) sample_character = Inr ()
    \<and> content_bytes sample_character + 9 * content_parts sample_character + 320 * 1024 \<le> MAX_PAYLOAD + id_bytes sample_character"
proof -
  have v: "validate_character (\<lambda>_. Some (256, 256)) sample_character = Inr ()" by code_simp
  show ?thesis using v validated_character_fits_frame [OF v] by blast
qed

text \<open>Settings that are stored leave at least 64 tokens for the prompt, and sampling gets finite numbers.\<close>

theorem stored_settings_usable:
  assumes "set_broker_config json is_file select config stored = (Inr (), c)"
  shows "64 \<le> prompt_input_budget c \<and> prompt_input_budget c \<le> 1048576
    \<and> (\<exists>t p r. cfg_temperature c = Finite t \<and> cfg_top_p c = Finite p \<and> cfg_repeat_penalty c = Finite r
         \<and> 0 \<le> t \<and> t \<le> 2 \<and> 0 \<le> p \<and> p \<le> 1 \<and> 0 \<le> r \<and> r \<le> 2)
    \<and> (cfg_emotion_model c = [] \<or> is_file (cfg_emotion_model c))"
proof -
  have c: "c = normalize_config config" and v: "validate_broker_config json c = Inr ()"
    and e: "cfg_emotion_model c = [] \<or> is_file (cfg_emotion_model c)"
    using assms by (auto simp: set_broker_config_def Let_def split: if_splits sum.splits)
  have f: "finite_in 0 2 (cfg_temperature c)" "finite_in 0 1 (cfg_top_p c)" "finite_in 0 2 (cfg_repeat_penalty c)"
    and n: "\<not> cfg_num_ctx c < 128" "\<not> 1048576 < cfg_num_ctx c"
    using v by (simp_all add: validate_broker_config_def Let_def split: if_splits)
  have "128 \<le> unat (cfg_num_ctx c)" "unat (cfg_num_ctx c) \<le> 1048576"
    using n by (simp_all add: word_less_nat_alt)
  then have "64 \<le> prompt_input_budget c \<and> prompt_input_budget c \<le> 1048576"
    using prompt_input_budget_bounds [of c] by linarith
  then show ?thesis using e finite_inD [OF f(1)] finite_inD [OF f(2)] finite_inD [OF f(3)] by auto
qed

text \<open>A refused change of the settings stores nothing.\<close>

lemma refused_settings_kept:
  "set_broker_config json is_file select config stored = (Inl e, c) \<Longrightarrow> c = stored"
  by (auto simp: set_broker_config_def Let_def split: if_splits sum.splits)

end
