(* ===== verification/ChatStore.thy ===== *)
theory ChatStore
  imports Generate MemoryExtract MemoryCondense Validation "HOL-Library.Product_Lexorder"
begin

text \<open>
  The chats the broker keeps (the requests of \<^verbatim>\<open>dispatch\<close> in \<^verbatim>\<open>chatty-broker/src/main.rs\<close> that change them, and
  \<^verbatim>\<open>chatty-broker/src/systems/conversations.rs\<close>): conversations, messages, variants, characters, worlds and memories as
  tables, and the log of deltas from which clients catch up.  Every change and its log entry are one transaction, so
  an operation either returns an error and the tables it was given, or the deltas it published and the new tables.
  Primary and foreign keys are checked as the schema declares them.
  The columns for turns, for how often a memory was used and for how far extraction has read are not in these tables.  New identifiers and the clock are arguments;
  sealing of image bytes is not modelled, so images are stored as they are.
\<close>

section \<open>Tables\<close>

datatype entity_kind = CharacterEntity | ConversationEntity | MessageEntity | MemoryEntity

record conversation_row =
  co_id :: string
  co_owner :: string
  co_title :: string
  co_kind :: conversation_kind
  co_participants :: "string list"
  co_state :: string
  co_summary :: string
  co_revision :: nat

record stored_message =
  ms_id :: string
  ms_conversation :: string
  ms_author_type :: string
  ms_author :: "string option"
  ms_content :: string
  ms_parent :: "string option"
  ms_selected :: "string option"
  ms_image :: "string option"
  ms_created :: string
  ms_revision :: nat

record variant_entry =
  vr_id :: string
  vr_message :: string
  vr_content :: string
  vr_created :: string
  vr_revision :: nat

record character_row =
  ca_id :: string
  ca_owner :: string
  ca_card :: character_input
  ca_public :: bool
  ca_revision :: nat

record world_row =
  wr_id :: string
  wr_owner :: string
  wr_data :: World.world
  wr_revision :: nat

datatype delta_payload =
    CharacterPayload character_input
  | ConversationPayload string conversation_kind "string list" string string
  | ContextPayload string string
  | MessagePayload string string "string option" string "string option" "string option" "string option"
  | WorldPayload World.world
  | MemoryPayload memory_entry
  | VariantPayload string string "string option"
  | SelectionPayload "string option"
  | EmptyPayload

record delta =
  dl_owner :: string
  dl_revision :: nat
  dl_type :: string
  dl_id :: string
  dl_op :: delta_op
  dl_payload :: delta_payload

text \<open>Rows are in insertion order, which for messages is the order of \<open>seq\<close>.\<close>

record store =
  st_characters :: "character_row list"
  st_conversations :: "conversation_row list"
  st_messages :: "stored_message list"
  st_variants :: "variant_entry list"
  st_memories :: "memory_row list"
  st_worlds :: "world_row list"
  st_deltas :: "delta list"
  st_revision :: nat

type_synonym outcome = "(string + string \<times> nat) \<times> delta list \<times> store"

definition log_delta :: "string \<Rightarrow> string \<Rightarrow> string \<Rightarrow> delta_op \<Rightarrow> delta_payload \<Rightarrow> store \<Rightarrow> delta \<times> store" where
  "log_delta owner ty i op payload st =
     (let d = \<lparr> dl_owner = owner, dl_revision = st_revision st + 1, dl_type = ty, dl_id = i, dl_op = op, dl_payload = payload \<rparr>
      in (d, st\<lparr> st_revision := st_revision st + 1, st_deltas := st_deltas st @ [d] \<rparr>))"

definition refuse :: "string \<Rightarrow> store \<Rightarrow> outcome" where
  "refuse e st = (Inl e, [], st)"

definition find_conversation :: "string \<Rightarrow> string \<Rightarrow> store \<Rightarrow> conversation_row option" where
  "find_conversation owner c st = find (\<lambda>r. co_id r = c \<and> co_owner r = owner) (st_conversations st)"

definition own_conversation :: "string \<Rightarrow> string \<Rightarrow> store \<Rightarrow> bool" where
  "own_conversation owner c st \<longleftrightarrow> find_conversation owner c st \<noteq> None"

definition update_conversation_row :: "string \<Rightarrow> (conversation_row \<Rightarrow> conversation_row) \<Rightarrow> store \<Rightarrow> store" where
  "update_conversation_row c f st =
     st\<lparr> st_conversations := map (\<lambda>r. if co_id r = c then f r else r) (st_conversations st) \<rparr>"

definition update_message_row :: "string \<Rightarrow> (stored_message \<Rightarrow> stored_message) \<Rightarrow> store \<Rightarrow> store" where
  "update_message_row i f st = st\<lparr> st_messages := map (\<lambda>r. if ms_id r = i then f r else r) (st_messages st) \<rparr>"

definition visible_characters :: "string \<Rightarrow> string list \<Rightarrow> store \<Rightarrow> nat" where
  "visible_characters owner ids st =
     length (filter (\<lambda>r. (ca_owner r = owner \<or> ca_public r) \<and> ca_id r \<in> set ids) (st_characters st))"

section \<open>Conversations\<close>

definition default_character :: "string \<Rightarrow> character_input" where
  "default_character i = \<lparr> ch_id = Some i, ch_name = ''Assistant'', ch_description = [],
     ch_personality = ''Helpful, attentive, and conversational.'', ch_scenario = [],
     ch_system_prompt = ''Respond naturally and remain consistent with the conversation.'', ch_example_dialogue = [],
     ch_appearance = [], ch_age = [], ch_gender = [], ch_race = [], ch_misc = [], ch_tags = [''default''],
     ch_avatar = None, ch_images = [], ch_default_image = None, ch_is_public = False, ch_owned_by_user = True \<rparr>"

definition first_character :: "string \<Rightarrow> store \<Rightarrow> string option" where
  "first_character owner st =
     (case sort_key (\<lambda>r. (ca_revision r, ca_id r)) (filter (\<lambda>r. ca_owner r = owner) (st_characters st)) of
        [] \<Rightarrow> None | r # _ \<Rightarrow> Some (ca_id r))"

text \<open>A chat without participants gets the owner's first character, or a new one in a transaction of its own.\<close>

definition default_participant :: "string \<Rightarrow> string \<Rightarrow> store \<Rightarrow> (string + string) \<times> delta list \<times> store" where
  "default_participant owner new_id st =
     (case first_character owner st of
        Some i \<Rightarrow> (Inr i, [], st)
      | None \<Rightarrow>
          if list_ex (\<lambda>r. ca_id r = new_id) (st_characters st) then (Inl ''UNIQUE constraint failed'', [], st)
          else
            let (d, st) = log_delta owner ''character'' new_id Add (CharacterPayload (default_character new_id)) st in
            (Inr new_id, [d], st\<lparr> st_characters := st_characters st @ [\<lparr> ca_id = new_id, ca_owner = owner,
               ca_card = default_character new_id, ca_public = False, ca_revision = dl_revision d \<rparr>] \<rparr>))"

definition insert_conversation ::
  "string \<Rightarrow> string \<Rightarrow> string \<Rightarrow> conversation_kind \<Rightarrow> string list \<Rightarrow> delta list \<Rightarrow> store \<Rightarrow> outcome" where
  "insert_conversation owner i title kind participants sent st =
     (if 32 < length participants \<or> title = [] \<or> 512 < length title
      then (Inl ''conversation title or participant count invalid'', sent, st)
      else if visible_characters owner participants st \<noteq> length participants
      then (Inl ''one or more participants are missing or forbidden'', sent, st)
      else if list_ex (\<lambda>r. co_id r = i) (st_conversations st) then (Inl ''UNIQUE constraint failed'', sent, st)
      else
        let (d, st) = log_delta owner ''conversation'' i Add (ConversationPayload title kind participants [] []) st in
        (Inr (i, dl_revision d), sent @ [d],
         st\<lparr> st_conversations := st_conversations st @ [\<lparr> co_id = i, co_owner = owner, co_title = title, co_kind = kind,
           co_participants = participants, co_state = [], co_summary = [], co_revision = dl_revision d \<rparr>] \<rparr>))"

definition create_conversation ::
  "string \<Rightarrow> string \<Rightarrow> string \<Rightarrow> string \<Rightarrow> conversation_kind \<Rightarrow> string list \<Rightarrow> store \<Rightarrow> outcome" where
  "create_conversation owner i character_id title kind participants st =
     (if participants \<noteq> [] then insert_conversation owner i title kind participants [] st
      else if kind \<noteq> Direct then refuse ''group conversation requires participants'' st
      else case default_participant owner character_id st of
             (Inl e, sent, st) \<Rightarrow> (Inl e, sent, st)
           | (Inr p, sent, st) \<Rightarrow> insert_conversation owner i title kind [p] sent st)"

definition update_conversation ::
  "string \<Rightarrow> string \<Rightarrow> string \<Rightarrow> conversation_kind \<Rightarrow> string list \<Rightarrow> store \<Rightarrow> outcome" where
  "update_conversation owner c title kind participants st =
     (case find_conversation owner c st of
        None \<Rightarrow> refuse ''conversation not found'' st
      | Some row \<Rightarrow>
          if participants = [] \<or> 32 < length participants \<or> title = [] \<or> 512 < length title
          then refuse ''conversation title or participant count invalid'' st
          else if visible_characters owner participants st \<noteq> length participants
          then refuse ''one or more participants are missing or forbidden'' st
          else
            let (d, st') = log_delta owner ''conversation'' c Update
                  (ConversationPayload title kind participants (co_state row) (co_summary row)) st in
            (Inr (c, dl_revision d), [d], update_conversation_row c (\<lambda>r. r\<lparr> co_title := title, co_kind := kind,
               co_participants := participants, co_revision := dl_revision d \<rparr>) st'))"

definition update_conversation_state :: "string \<Rightarrow> string \<Rightarrow> string \<Rightarrow> string \<Rightarrow> store \<Rightarrow> outcome" where
  "update_conversation_state owner c state summary st =
     (if 262144 < length state \<or> 262144 < length summary then refuse ''conversation state or summary too large'' st
      else if \<not> own_conversation owner c st then refuse ''conversation not found'' st
      else
        let (d, st') = log_delta owner ''conversation'' c Update (ContextPayload state summary) st in
        (Inr (c, dl_revision d), [d],
         update_conversation_row c (\<lambda>r. r\<lparr> co_state := state, co_summary := summary, co_revision := dl_revision d \<rparr>) st'))"

section \<open>Messages\<close>

definition message_payload :: "stored_message \<Rightarrow> delta_payload" where
  "message_payload m = MessagePayload (ms_conversation m) (ms_author_type m) (ms_author m) (ms_content m) (ms_parent m)
     (ms_selected m) (ms_image m)"

text \<open>The delta and the row of a new message; the row is refused when its key is taken or its conversation is gone.\<close>

definition insert_message :: "string \<Rightarrow> stored_message \<Rightarrow> store \<Rightarrow> outcome" where
  "insert_message owner m st =
     (if list_ex (\<lambda>r. ms_id r = ms_id m) (st_messages st) then refuse ''UNIQUE constraint failed'' st
      else if \<not> list_ex (\<lambda>r. co_id r = ms_conversation m) (st_conversations st) then refuse ''FOREIGN KEY constraint failed'' st
      else
        let (d, st') = log_delta owner ''message'' (ms_id m) Add (message_payload m) st in
        (Inr (ms_id m, dl_revision d), [d], st'\<lparr> st_messages := st_messages st' @ [m\<lparr> ms_revision := dl_revision d \<rparr>] \<rparr>))"

definition new_message :: "string \<Rightarrow> string \<Rightarrow> string \<Rightarrow> string option \<Rightarrow> string \<Rightarrow> string option \<Rightarrow> string \<Rightarrow> stored_message" where
  "new_message i c author_type author content picture now =
     \<lparr> ms_id = i, ms_conversation = c, ms_author_type = author_type, ms_author = author, ms_content = content,
       ms_parent = None, ms_selected = None, ms_image = picture, ms_created = now, ms_revision = 0 \<rparr>"

definition send_message ::
  "string \<Rightarrow> string \<Rightarrow> string \<Rightarrow> string \<Rightarrow> string option \<Rightarrow> string \<Rightarrow> store \<Rightarrow> outcome" where
  "send_message owner c i content speaker now st =
     (if content = [] \<or> 65536 < length content then refuse ''message length invalid'' st
      else case find_conversation owner c st of
             None \<Rightarrow> refuse ''conversation not found'' st
           | Some row \<Rightarrow>
               if (case speaker of None \<Rightarrow> False | Some s \<Rightarrow> s \<notin> set (co_participants row))
               then refuse ''message speaker is not a conversation participant'' st
               else insert_message owner
                      (new_message i c (if speaker \<noteq> None then ''character'' else ''user'') speaker content None now) st)"

definition send_system_message :: "string \<Rightarrow> string \<Rightarrow> string \<Rightarrow> string \<Rightarrow> string \<Rightarrow> store \<Rightarrow> outcome" where
  "send_system_message owner c i content now st =
     (if content = [] \<or> 65536 < length content then refuse ''message length invalid'' st
      else if \<not> own_conversation owner c st then refuse ''conversation not found'' st
      else insert_message owner (new_message i c ''system'' None content None now) st)"

definition save_scene_image :: "string \<Rightarrow> string \<Rightarrow> string \<Rightarrow> string \<Rightarrow> string \<Rightarrow> store \<Rightarrow> outcome" where
  "save_scene_image owner c i depicted now st =
     (if \<not> own_conversation owner c st then refuse ''conversation not found'' st
      else insert_message owner (new_message i c ''image'' None depicted None now) st)"

definition find_message :: "string \<Rightarrow> string \<Rightarrow> store \<Rightarrow> stored_message option" where
  "find_message owner i st = find (\<lambda>m. ms_id m = i \<and> own_conversation owner (ms_conversation m) st) (st_messages st)"

definition update_message :: "string \<Rightarrow> string \<Rightarrow> string \<Rightarrow> store \<Rightarrow> outcome" where
  "update_message owner i content st =
     (if content = [] \<or> 65536 < length content then refuse ''message length invalid'' st
      else case find_message owner i st of
             None \<Rightarrow> refuse ''message not found or forbidden'' st
           | Some m \<Rightarrow>
               let (d, st') = log_delta owner ''message'' i Update (message_payload (m\<lparr> ms_content := content \<rparr>)) st in
               (Inr (i, dl_revision d), [d],
                update_message_row i (\<lambda>r. r\<lparr> ms_content := content, ms_revision := dl_revision d \<rparr>) st'))"

definition select_variant :: "string \<Rightarrow> string \<Rightarrow> string \<Rightarrow> store \<Rightarrow> outcome" where
  "select_variant owner i v st =
     (case find_message owner i st of
        None \<Rightarrow> refuse ''message or variant not found'' st
      | Some m \<Rightarrow>
          if v \<noteq> i \<and> \<not> list_ex (\<lambda>r. vr_message r = i \<and> vr_id r = v) (st_variants st)
          then refuse ''message or variant not found'' st
          else
            let selected = (if v \<noteq> i then Some v else None);
                (d, st') = log_delta owner ''message'' i Update (SelectionPayload selected) st in
            (Inr (i, dl_revision d), [d],
             update_message_row i (\<lambda>r. r\<lparr> ms_selected := selected, ms_revision := dl_revision d \<rparr>) st'))"

text \<open>\<^verbatim>\<open>persist_portrait\<close> of \<^verbatim>\<open>systems/emotion.rs\<close>: a classified portrait is stored when the reply is still the one shown.\<close>

record portrait_job =
  pj_owner :: string
  pj_message :: string
  pj_generation :: string
  pj_reply :: string
  pj_portraits :: "(string \<times> string) list"
  pj_current :: "string option"

definition persist_portrait :: "portrait_job \<Rightarrow> string \<Rightarrow> store \<Rightarrow> delta list \<times> store" where
  "persist_portrait job picture st =
     (case find_message (pj_owner job) (pj_message job) st of
        None \<Rightarrow> ([], st)
      | Some m \<Rightarrow>
          if pj_generation job \<noteq> pj_message job \<and> ms_selected m \<noteq> Some (pj_generation job) then ([], st)
          else if ms_image m \<noteq> pj_current job then ([], st)
          else
            let (d, st') = log_delta (pj_owner job) ''message'' (pj_message job) Update
                  (message_payload (m\<lparr> ms_image := Some picture \<rparr>)) st in
            ([d], update_message_row (pj_message job) (\<lambda>r. r\<lparr> ms_image := Some picture, ms_revision := dl_revision d \<rparr>) st'))"

text \<open>\<open>persist_generation\<close> on all tables, with the delta it logs: a new message, or a variant of \<open>parent\<close> which it selects.\<close>

definition save_generation ::
  "string \<Rightarrow> string \<Rightarrow> string \<Rightarrow> string \<Rightarrow> string \<Rightarrow> string option \<Rightarrow> string option \<Rightarrow> string \<Rightarrow> store \<Rightarrow> outcome" where
  "save_generation owner c speaker i content parent picture now st =
     (case parent of
        None \<Rightarrow> insert_message owner (new_message i c ''character'' (Some speaker) content picture now) st
      | Some p \<Rightarrow>
          if list_ex (\<lambda>r. vr_id r = i) (st_variants st) then refuse ''UNIQUE constraint failed'' st
          else if \<not> list_ex (\<lambda>r. ms_id r = p) (st_messages st) then refuse ''FOREIGN KEY constraint failed'' st
          else if \<not> list_ex (\<lambda>r. ms_id r = p \<and> ms_conversation r = c) (st_messages st)
          then refuse ''variant parent disappeared during generation'' st
          else
            let (d, st') = log_delta owner ''variant'' i Add (VariantPayload p content picture) st in
            (Inr (i, dl_revision d), [d],
             (update_message_row p (\<lambda>r. r\<lparr> ms_selected := Some i, ms_image := picture, ms_revision := dl_revision d \<rparr>) st')
               \<lparr> st_variants := st_variants st' @ [\<lparr> vr_id = i, vr_message = p, vr_content = content, vr_created = now,
                   vr_revision = dl_revision d \<rparr>] \<rparr>))"

section \<open>Chat titles\<close>

definition is_ascii_punctuation :: "string \<Rightarrow> bool" where
  "is_ascii_punctuation c \<longleftrightarrow> (case map of_char c of
      [b :: nat] \<Rightarrow> (33 \<le> b \<and> b \<le> 47) \<or> (58 \<le> b \<and> b \<le> 64) \<or> (91 \<le> b \<and> b \<le> 96) \<or> (123 \<le> b \<and> b \<le> 126)
    | _ \<Rightarrow> False)"

definition fallback_chat_title :: "string \<Rightarrow> string" where
  "fallback_chat_title message =
     (let title = join '' '' (take 7 (split_whitespace message));
          title = trim (trim_by is_ascii_punctuation title) in
      if title = [] then ''New chat'' else clip title 80)"

definition clean_chat_title :: "string \<Rightarrow> string \<Rightarrow> string" where
  "clean_chat_title candidate fallback =
     (let first = (case str_lines candidate of [] \<Rightarrow> [] | l # _ \<Rightarrow> l);
          title = trim (trim_by (\<lambda>c. c \<in> set [[CHR 0x22], [CHR 0x27], [CHR 0x60], ''#'', ''*'', ''.'']) (trim first)) in
      if title = [] \<or> eq_ignore_ascii_case title ''new chat'' then fallback_chat_title fallback else clip title 80)"

text \<open>\<open>maybe_name_new_chat\<close>: the first read, before the model is asked for a title, and the transaction after it.  \<open>reply\<close> is the
  completion's text, or none when any step of asking failed.  The row's state and summary are those of the first read.\<close>

definition naming_due :: "string \<Rightarrow> string \<Rightarrow> store \<Rightarrow> conversation_row option" where
  "naming_due owner c st =
     (case find_conversation owner c st of
        None \<Rightarrow> None
      | Some row \<Rightarrow>
          if co_title row \<noteq> ''New chat'' then None
          else if length (filter (\<lambda>m. ms_conversation m = c \<and> ms_author_type m = ''user'' \<and> ms_parent m = None) (st_messages st)) \<noteq> 1
          then None else Some row)"

definition name_chat :: "string \<Rightarrow> conversation_row \<Rightarrow> string \<Rightarrow> string option \<Rightarrow> store \<Rightarrow> delta list \<times> store" where
  "name_chat owner row first_message reply st =
     (let title = (case reply of Some t \<Rightarrow> clean_chat_title t first_message | None \<Rightarrow> fallback_chat_title first_message);
          c = co_id row;
          participants = (case find (\<lambda>r. co_id r = c) (st_conversations st) of None \<Rightarrow> [] | Some r \<Rightarrow> co_participants r) in
      if \<not> list_ex (\<lambda>r. co_id r = c \<and> co_owner r = owner \<and> co_title r = ''New chat'') (st_conversations st) then ([], st)
      else
        let (d, st') = log_delta owner ''conversation'' c Update
              (ConversationPayload title (co_kind row) participants (co_state row) (co_summary row)) st in
        ([d], st'\<lparr> st_conversations := map (\<lambda>r. if co_id r = c \<and> co_owner r = owner
           then r\<lparr> co_title := title, co_revision := dl_revision d \<rparr> else r) (st_conversations st') \<rparr>))"

section \<open>Deleting\<close>

definition list_memories :: "string \<Rightarrow> string option \<Rightarrow> string option \<Rightarrow> store \<Rightarrow> string + memory_entry list" where
  "list_memories owner conversation character st =
     (if (case conversation of None \<Rightarrow> False | Some c \<Rightarrow> \<not> own_conversation owner c st) then Inl ''conversation not found''
      else Inr (take 500 (rev (sort_key (\<lambda>e. (me_pinned e, me_updated e, me_revision e)) (map mw_entry (filter (\<lambda>r.
        mw_owner r = owner \<and> mw_status r = 0
        \<and> (conversation = None \<or> me_conversation (mw_entry r) = None \<or> me_conversation (mw_entry r) = conversation)
        \<and> (character = None \<or> me_character (mw_entry r) = character)) (st_memories st)))))))"

text \<open>The memories of a conversation that is deleted become memories of the account.\<close>

fun promote_memories :: "string \<Rightarrow> string \<Rightarrow> memory_entry list \<Rightarrow> delta list \<Rightarrow> store \<Rightarrow> delta list \<times> store" where
  "promote_memories owner now [] sent st = (sent, st)"
| "promote_memories owner now (e # es) sent st =
     (let (d, st) = log_delta owner ''memory'' (me_id e) Update (MemoryPayload (e\<lparr> me_conversation := None, me_updated := now \<rparr>)) st in
      promote_memories owner now es (sent @ [d])
        (st\<lparr> st_memories := map (\<lambda>r. if me_id (mw_entry r) = me_id e \<and> mw_owner r = owner
           then r\<lparr> mw_entry := (mw_entry r)\<lparr> me_conversation := None, me_updated := now, me_revision := dl_revision d \<rparr> \<rparr> else r)
           (st_memories st) \<rparr>))"

text \<open>The recursive query over \<open>parent_id\<close>, level by level; no level is deeper than there are messages.\<close>

fun branch :: "stored_message list \<Rightarrow> nat \<Rightarrow> string list \<Rightarrow> string list" where
  "branch ms 0 ids = ids"
| "branch ms (Suc n) ids =
     (if ids = [] then []
      else ids @ branch ms n (concat (map (\<lambda>i. map ms_id (filter (\<lambda>m. ms_parent m = Some i) ms)) ids)))"

definition remove_messages :: "(stored_message \<Rightarrow> bool) \<Rightarrow> store \<Rightarrow> store" where
  "remove_messages p st =
     st\<lparr> st_messages := filter (\<lambda>m. \<not> p m) (st_messages st),
         st_variants := filter (\<lambda>v. \<not> list_ex (\<lambda>m. p m \<and> ms_id m = vr_message v) (st_messages st)) (st_variants st) \<rparr>"

fun delete_owned_entity :: "string \<Rightarrow> entity_kind \<Rightarrow> string \<Rightarrow> store \<Rightarrow> string + (string \<times> string) list \<times> store" where
  "delete_owned_entity owner CharacterEntity i st =
     (if \<not> list_ex (\<lambda>r. ca_id r = i \<and> ca_owner r = owner) (st_characters st) then Inl ''entity not found or forbidden''
      else if list_ex (\<lambda>r. i \<in> set (co_participants r)) (st_conversations st)
      then Inl ''character is used by a conversation; delete that conversation first''
      else
        let gone = (\<lambda>r. me_character (mw_entry r) = Some i \<and> mw_owner r = owner);
            kept = filter (\<lambda>r. \<not> gone r) (st_memories st) in
        if list_ex (\<lambda>r. me_character (mw_entry r) = Some i) kept then Inl ''FOREIGN KEY constraint failed''
        else Inr (map (\<lambda>r. (''memory'', me_id (mw_entry r))) (filter gone (st_memories st)) @ [(''character'', i)],
               st\<lparr> st_memories := kept,
                   st_characters := filter (\<lambda>r. \<not> (ca_id r = i \<and> ca_owner r = owner)) (st_characters st) \<rparr>))"
| "delete_owned_entity owner ConversationEntity i st =
     (if \<not> own_conversation owner i st then Inl ''entity not found or forbidden''
      else if list_ex (\<lambda>r. me_conversation (mw_entry r) = Some i) (st_memories st) then Inl ''FOREIGN KEY constraint failed''
      else Inr (map (\<lambda>m. (''message'', ms_id m)) (filter (\<lambda>m. ms_conversation m = i) (st_messages st)) @ [(''conversation'', i)],
             (remove_messages (\<lambda>m. ms_conversation m = i) st)
               \<lparr> st_conversations := filter (\<lambda>r. \<not> (co_id r = i \<and> co_owner r = owner)) (st_conversations st) \<rparr>))"
| "delete_owned_entity owner MessageEntity i st =
     (if find_message owner i st = None then Inl ''entity not found or forbidden''
      else
        let ids = branch (st_messages st) (length (st_messages st)) [i] in
        Inr (map (Pair ''message'') ids, remove_messages (\<lambda>m. ms_id m \<in> set ids) st))"
| "delete_owned_entity owner MemoryEntity i st =
     (let gone = (\<lambda>r. me_id (mw_entry r) = i \<and> mw_owner r = owner) in
      if length (filter gone (st_memories st)) \<noteq> 1 then Inl ''entity not found or forbidden''
      else Inr ([(''memory'', i)], st\<lparr> st_memories := filter (\<lambda>r. \<not> gone r) (st_memories st) \<rparr>))"

fun log_deletions :: "string \<Rightarrow> (string \<times> string) list \<Rightarrow> delta list \<Rightarrow> store \<Rightarrow> delta list \<times> store" where
  "log_deletions owner [] sent st = (sent, st)"
| "log_deletions owner ((ty, i) # xs) sent st =
     (let (d, st) = log_delta owner ty i Delete EmptyPayload st in log_deletions owner xs (sent @ [d]) st)"

definition delete_entity :: "string \<Rightarrow> entity_kind \<Rightarrow> string \<Rightarrow> string \<Rightarrow> store \<Rightarrow> outcome" where
  "delete_entity owner kind i now st =
     (case (if kind = ConversationEntity then list_memories owner (Some i) None st else Inr []) of
        Inl e \<Rightarrow> refuse e st
      | Inr promoted \<Rightarrow>
          (case promote_memories owner now promoted [] st of
             (sent, st1) \<Rightarrow>
               (case delete_owned_entity owner kind i st1 of
                  Inl e \<Rightarrow> refuse e st
                | Inr (deleted, st2) \<Rightarrow>
                    (case log_deletions owner deleted sent st2 of
                       (sent, st3) \<Rightarrow> (Inr (i, if sent = [] then 0 else dl_revision (last sent)), sent, st3)))))"

section \<open>Worlds\<close>

text \<open>\<open>bytes\<close> is the encoded size of a world, as stored.\<close>

definition WORLD_LIBRARY_BYTES :: nat where "WORLD_LIBRARY_BYTES = 4 * 1024 * 1024"

definition save_world :: "(World.world \<Rightarrow> nat) \<Rightarrow> string \<Rightarrow> string \<Rightarrow> World.world \<Rightarrow> store \<Rightarrow> outcome" where
  "save_world bytes owner new_id w st =
     (case world_validate w of
        Inl e \<Rightarrow> refuse e st
      | Inr _ \<Rightarrow>
          let w = (if wo_id w = [] then w\<lparr> wo_id := new_id \<rparr> else w);
              existing = find (\<lambda>r. wr_id r = wo_id w) (st_worlds st) in
          if (case existing of None \<Rightarrow> False | Some r \<Rightarrow> wr_owner r \<noteq> owner) then refuse ''forbidden world owner'' st
          else if list_ex (\<lambda>c. visible_characters owner [c] st = 0) (wo_characters w) then refuse ''character unavailable'' st
          else if WORLD_LIBRARY_BYTES < sum_list (map (bytes \<circ> wr_data)
                    (filter (\<lambda>r. wr_owner r = owner \<and> wr_id r \<noteq> wo_id w) (st_worlds st))) + bytes w
          then refuse ''World library exceeds 4 MiB'' st
          else
            let (d, st') = log_delta owner ''world'' (wo_id w) (if existing \<noteq> None then Update else Add) (WorldPayload w) st in
            (Inr (wo_id w, dl_revision d), [d],
             st'\<lparr> st_worlds := (if existing \<noteq> None
               then map (\<lambda>r. if wr_id r = wo_id w then r\<lparr> wr_data := w, wr_revision := dl_revision d \<rparr> else r) (st_worlds st)
               else st_worlds st @ [\<lparr> wr_id = wo_id w, wr_owner = owner, wr_data = w, wr_revision = dl_revision d \<rparr>]) \<rparr>))"

definition delete_world :: "string \<Rightarrow> string \<Rightarrow> store \<Rightarrow> outcome" where
  "delete_world owner i st =
     (if \<not> list_ex (\<lambda>r. wr_id r = i \<and> wr_owner r = owner) (st_worlds st) then refuse ''world not found'' st
      else
        let (d, st') = log_delta owner ''world'' i Delete EmptyPayload st in
        (Inr (i, dl_revision d), [d], st'\<lparr> st_worlds := filter (\<lambda>r. \<not> (wr_id r = i \<and> wr_owner r = owner)) (st_worlds st) \<rparr>))"

section \<open>Characters\<close>

text \<open>Portraits a client sends back without their bytes keep the stored ones.\<close>

definition restore_images :: "character_image list \<Rightarrow> character_image list \<Rightarrow> character_image list" where
  "restore_images stored is =
     map (\<lambda>i. if ci_data i \<noteq> [] then i
              else case find (\<lambda>s. ci_id s = ci_id i) stored of None \<Rightarrow> i | Some s \<Rightarrow> i\<lparr> ci_data := ci_data s \<rparr>) is"

fun link_worlds ::
  "string \<Rightarrow> string \<Rightarrow> string list \<Rightarrow> world_row list \<Rightarrow> delta list \<Rightarrow> store \<Rightarrow> (string + delta list) \<times> store" where
  "link_worlds owner i wanted [] sent st = (Inr sent, st)"
| "link_worlds owner i wanted (r # rs) sent st =
     (let w = wr_data r; should_link = wo_id w \<in> set wanted; is_linked = i \<in> set (wo_characters w) in
      if should_link = is_linked then link_worlds owner i wanted rs sent st
      else
        let w = w\<lparr> wo_characters := filter (\<lambda>c. c \<noteq> i) (wo_characters w) @ (if should_link then [i] else []) \<rparr> in
        case world_validate w of
          Inl e \<Rightarrow> (Inl e, st)
        | Inr _ \<Rightarrow>
            let (d, st) = log_delta owner ''world'' (wo_id w) Update (WorldPayload w) st in
            link_worlds owner i wanted rs (sent @ [d])
              (st\<lparr> st_worlds := map (\<lambda>x. if wr_id x = wo_id w \<and> wr_owner x = owner
                 then x\<lparr> wr_data := w, wr_revision := dl_revision d \<rparr> else x) (st_worlds st) \<rparr>))"

definition store_character :: "string \<Rightarrow> string \<Rightarrow> character_input \<Rightarrow> nat \<Rightarrow> store \<Rightarrow> store" where
  "store_character owner i c revision st =
     (let card = c\<lparr> ch_avatar := (if ch_images c = [] then ch_avatar c else None) \<rparr> in
      st\<lparr> st_characters :=
        (if list_ex (\<lambda>r. ca_id r = i) (st_characters st)
         then map (\<lambda>r. if ca_id r = i \<and> ca_owner r = owner
                then r\<lparr> ca_card := card, ca_public := ch_is_public c, ca_revision := revision \<rparr> else r) (st_characters st)
         else st_characters st @ [\<lparr> ca_id = i, ca_owner = owner, ca_card = card, ca_public = ch_is_public c,
                ca_revision = revision \<rparr>]) \<rparr>)"

text \<open>The transaction.  The delta that is sent has the labels of the images; the one that is logged has no images at all.\<close>

definition save_character :: "string \<Rightarrow> string \<Rightarrow> delta_op \<Rightarrow> character_input \<Rightarrow> string list \<Rightarrow> store \<Rightarrow> outcome" where
  "save_character owner i op c world_ids st =
     (let visible = c\<lparr> ch_owned_by_user := True, ch_images := map (\<lambda>i. i\<lparr> ci_data := [] \<rparr>) (ch_images c) \<rparr>;
          logged = visible\<lparr> ch_avatar := None, ch_images := [], ch_default_image := None \<rparr>;
          (d, st1) = log_delta owner ''character'' i op (CharacterPayload logged) st;
          st2 = store_character owner i c (dl_revision d) st1;
          rows = sort_key wr_id (filter (\<lambda>r. wr_owner r = owner) (st_worlds st2)) in
      if list_ex (\<lambda>w. w \<notin> set (map wr_id rows)) world_ids then refuse ''linked world unavailable'' st
      else case link_worlds owner i world_ids rows [] st2 of
             (Inl e, _) \<Rightarrow> refuse e st
           | (Inr sent, st3) \<Rightarrow>
               (Inr (i, dl_revision (last (d # sent))), d\<lparr> dl_payload := CharacterPayload visible \<rparr> # sent, st3))"

text \<open>\<open>may_publish\<close>: the account is an administrator's or the settings allow public characters.\<close>

definition upsert_character ::
  "(string \<Rightarrow> (nat \<times> nat) option) \<Rightarrow> bool \<Rightarrow> string \<Rightarrow> string \<Rightarrow> character_input \<Rightarrow> string list \<Rightarrow> store \<Rightarrow> outcome" where
  "upsert_character png may_publish owner new_id c world_ids st =
     (let existing = (case ch_id c of None \<Rightarrow> None | Some i \<Rightarrow> find (\<lambda>r. ca_id r = i) (st_characters st)) in
      if (case existing of None \<Rightarrow> False | Some r \<Rightarrow> ca_owner r \<noteq> owner) then refuse ''forbidden character owner'' st
      else
        let c = (case existing of None \<Rightarrow> c | Some r \<Rightarrow> c\<lparr> ch_images := restore_images (ch_images (ca_card r)) (ch_images c) \<rparr>) in
        case validate_character png c of
          Inl e \<Rightarrow> refuse e st
        | Inr _ \<Rightarrow>
            if 128 < length world_ids then refuse ''too many linked worlds'' st
            else if ch_is_public c \<and> \<not> may_publish then refuse ''publishing characters is disabled'' st
            else save_character owner (case ch_id c of Some x \<Rightarrow> x | None \<Rightarrow> new_id)
                   (if existing \<noteq> None then Update else Add) c world_ids st)"

section \<open>Memories\<close>

definition store_access :: "store \<Rightarrow> access" where
  "store_access st =
     \<lparr> owns = (\<lambda>owner c. if own_conversation owner c st then Inr () else Inl ''conversation not found''),
       visible_character = (\<lambda>owner c. visible_characters owner [c] st \<noteq> 0),
       takes_part = (\<lambda>c i. list_ex (\<lambda>r. co_id r = c \<and> i \<in> set (co_participants r)) (st_conversations st)) \<rparr>"

text \<open>A memory of any source: one a user enters, one that is asked to be extracted, or one an automatic run finds.\<close>

definition save_memory ::
  "string \<Rightarrow> string \<Rightarrow> string \<Rightarrow> memory_input \<Rightarrow> memory_source \<Rightarrow> rat \<Rightarrow> string list \<Rightarrow> store \<Rightarrow> outcome" where
  "save_memory owner new_id now memory source confidence ids st =
     (case persist_memory (store_access st) new_id now owner memory source confidence ids
             \<lparr> db_memories = st_memories st, db_revision = st_revision st \<rparr> of
        (Inl e, _) \<Rightarrow> refuse e st
      | (Inr (entry, op), db) \<Rightarrow>
          let (d, st') = log_delta owner ''memory'' (me_id entry) op (MemoryPayload (entry\<lparr> me_revision := 0 \<rparr>)) st in
          (Inr (me_id entry, dl_revision d), [d], st'\<lparr> st_memories := db_memories db \<rparr>))"

definition upsert_memory :: "string \<Rightarrow> string \<Rightarrow> string \<Rightarrow> memory_input \<Rightarrow> store \<Rightarrow> outcome" where
  "upsert_memory owner new_id now memory st = save_memory owner new_id now memory Manual 1 [] st"

text \<open>Condensing on all tables: \<open>seen\<close> is what the query saw before the model was asked.  A condensed memory of a chat or
  character that is gone by then fails its foreign key.\<close>

definition memory_keys_ok :: "store \<Rightarrow> memory_row list \<Rightarrow> bool" where
  "memory_keys_ok st rows \<longleftrightarrow>
     list_all (\<lambda>r. (case me_conversation (mw_entry r) of None \<Rightarrow> True | Some c \<Rightarrow> list_ex (\<lambda>x. co_id x = c) (st_conversations st))
       \<and> (case me_character (mw_entry r) of None \<Rightarrow> True | Some c \<Rightarrow> list_ex (\<lambda>x. ca_id x = c) (st_characters st))) rows"

definition condense_delta :: "string \<Rightarrow> memory_row list \<Rightarrow> string \<times> delta_op \<times> nat \<Rightarrow> delta" where
  "condense_delta owner rows = (\<lambda>(i, op, revision).
     \<lparr> dl_owner = owner, dl_revision = revision, dl_type = ''memory'', dl_id = i, dl_op = op,
       dl_payload = (case find (\<lambda>r. op = Add \<and> me_id (mw_entry r) = i) rows of
         None \<Rightarrow> EmptyPayload | Some r \<Rightarrow> MemoryPayload ((mw_entry r)\<lparr> me_revision := 0 \<rparr>)) \<rparr>)"

definition condense_stored ::
  "condense_env \<Rightarrow> string \<Rightarrow> string option \<Rightarrow> string option \<Rightarrow> memory_kind option \<Rightarrow> memory_db \<Rightarrow> store
   \<Rightarrow> (string + condensed) \<times> delta list \<times> store" where
  "condense_stored en owner conversation character kind seen st =
     (case condense_memories en owner conversation character kind seen
             \<lparr> db_memories = st_memories st, db_revision = st_revision st \<rparr> of
        (Inl e, _) \<Rightarrow> (Inl e, [], st)
      | (Inr c, db) \<Rightarrow>
          let rows = db_memories db; ds = map (condense_delta owner rows) (cd_deltas c) in
          if \<not> distinct (map (me_id \<circ> mw_entry) rows) then (Inl ''UNIQUE constraint failed'', [], st)
          else if \<not> memory_keys_ok st rows then (Inl ''FOREIGN KEY constraint failed'', [], st)
          else (Inr c, ds, st\<lparr> st_memories := rows, st_deltas := st_deltas st @ ds, st_revision := db_revision db \<rparr>))"

section \<open>Administration\<close>

text \<open>The two administrator's requests that reach these tables; neither logs a delta.  \<open>known\<close>: the account exists.  The
  account's worlds go with it by cascade, and its log is removed.\<close>

definition of_characters :: "string list \<Rightarrow> memory_row \<Rightarrow> bool" where
  "of_characters ids r \<longleftrightarrow> (case me_character (mw_entry r) of None \<Rightarrow> False | Some c \<Rightarrow> c \<in> set ids)"

definition delete_user :: "bool \<Rightarrow> string \<Rightarrow> string \<Rightarrow> store \<Rightarrow> outcome" where
  "delete_user known admin user st =
     (if admin = user then refuse ''administrators cannot delete their own active account'' st
      else if \<not> known then refuse ''user not found'' st
      else
        let characters = map ca_id (filter (\<lambda>r. ca_owner r = user) (st_characters st));
            chats = map co_id (filter (\<lambda>r. co_owner r = user) (st_conversations st));
            kept = filter (\<lambda>r. \<not> (mw_owner r = user \<or> of_characters characters r)) (st_memories st) in
        if list_ex (\<lambda>r. case me_conversation (mw_entry r) of None \<Rightarrow> False | Some c \<Rightarrow> c \<in> set chats) kept
        then refuse ''FOREIGN KEY constraint failed'' st
        else (Inr (user, 0), [],
               (remove_messages (\<lambda>m. ms_conversation m \<in> set chats) st)
                 \<lparr> st_memories := kept,
                   st_conversations := map (\<lambda>r. r\<lparr> co_participants := filter (\<lambda>p. p \<notin> set characters) (co_participants r) \<rparr>)
                     (filter (\<lambda>r. co_owner r \<noteq> user) (st_conversations st)),
                   st_characters := filter (\<lambda>r. ca_owner r \<noteq> user) (st_characters st),
                   st_worlds := filter (\<lambda>r. wr_owner r \<noteq> user) (st_worlds st),
                   st_deltas := filter (\<lambda>d. dl_owner d \<noteq> user) (st_deltas st) \<rparr>))"

definition set_character_public :: "string \<Rightarrow> bool \<Rightarrow> store \<Rightarrow> outcome" where
  "set_character_public i public st =
     (if length (filter (\<lambda>r. ca_id r = i) (st_characters st)) \<noteq> 1 then refuse ''character not found'' st
      else (Inr (i, 0), [],
             st\<lparr> st_characters := map (\<lambda>r. if ca_id r = i then r\<lparr> ca_public := public \<rparr> else r) (st_characters st) \<rparr>))"

section \<open>Catching up\<close>

text \<open>\<open>Sync\<close> and \<open>Resume\<close>: the logged deltas after a revision, and the revision the client has then.\<close>

definition sync_deltas :: "string \<Rightarrow> nat \<Rightarrow> store \<Rightarrow> delta list" where
  "sync_deltas owner since st = filter (\<lambda>d. dl_owner d = owner \<and> since < dl_revision d) (st_deltas st)"

definition sync_revision :: "string \<Rightarrow> nat \<Rightarrow> store \<Rightarrow> nat" where
  "sync_revision owner since st = (case sync_deltas owner since st of [] \<Rightarrow> since | ds \<Rightarrow> dl_revision (last ds))"

end
