(* ===== verification/ChatClient.thy ===== *)
theory ChatClient
  imports ChatStore
begin

text \<open>
  The client's copy of the chats (\<^verbatim>\<open>apply_delta\<close> of \<^verbatim>\<open>chatty-gui/src/app/events.rs\<close>), the view it opens
  (\<^verbatim>\<open>load_conversation_from_row\<close> of \<^verbatim>\<open>chatty-broker/src/systems/conversations.rs\<close>) and the requests of all users as one
  sequence of steps on the broker's tables.
\<close>

section \<open>Opening a chat\<close>

record shown_variant =
  sv_id :: string
  sv_content :: string
  sv_created :: string
  sv_revision :: nat

record shown_message =
  sm_id :: string
  sm_author_type :: string
  sm_author :: "string option"
  sm_content :: string
  sm_parent :: "string option"
  sm_selected :: "string option"
  sm_image :: "string option"
  sm_created :: string
  sm_revision :: nat
  sm_variants :: "shown_variant list"

definition show_variant :: "variant_entry \<Rightarrow> shown_variant" where
  "show_variant v = \<lparr> sv_id = vr_id v, sv_content = vr_content v, sv_created = vr_created v, sv_revision = vr_revision v \<rparr>"

definition variants_of :: "string \<Rightarrow> store \<Rightarrow> shown_variant list" where
  "variants_of i st =
     map show_variant (sort_key (\<lambda>v. (vr_created v, vr_id v)) (filter (\<lambda>v. vr_message v = i) (st_variants st)))"

definition show_message :: "store \<Rightarrow> stored_message \<Rightarrow> shown_message" where
  "show_message st m =
     \<lparr> sm_id = ms_id m, sm_author_type = ms_author_type m, sm_author = ms_author m, sm_content = ms_content m,
       sm_parent = ms_parent m, sm_selected = ms_selected m, sm_image = ms_image m, sm_created = ms_created m,
       sm_revision = ms_revision m, sm_variants = variants_of (ms_id m) st \<rparr>"

definition timeline :: "string \<Rightarrow> store \<Rightarrow> stored_message list" where
  "timeline c st = filter (\<lambda>m. ms_conversation m = c \<and> ms_parent m = None) (st_messages st)"

definition VIEW_MESSAGES :: nat where "VIEW_MESSAGES = 2000"

definition load_owned_conversation :: "string \<Rightarrow> string \<Rightarrow> store \<Rightarrow> (conversation_row \<times> shown_message list) option" where
  "load_owned_conversation c owner st =
     map_option (\<lambda>row. (row, map (show_message st)
       (drop (length (timeline c st) - VIEW_MESSAGES) (timeline c st)))) (find_conversation owner c st)"

section \<open>Applying deltas\<close>

record gui =
  gu_selected :: "string option"
  gu_messages :: "shown_message list"
  gu_worlds :: "World.world list"
  gu_memories :: "memory_entry list"
  gu_context :: "string set"
  gu_state :: "string \<times> string \<Rightarrow> delta_payload option"
  gu_revision :: nat

definition open_view :: "conversation_row \<times> shown_message list \<Rightarrow> gui \<Rightarrow> gui" where
  "open_view v g = g\<lparr> gu_selected := Some (co_id (fst v)), gu_messages := snd v \<rparr>"

text \<open>The stable sort of the memories: pinned first, then the newest.\<close>

definition memory_not_after :: "memory_entry \<Rightarrow> memory_entry \<Rightarrow> bool" where
  "memory_not_after a b \<longleftrightarrow> (me_pinned b, me_updated b) \<le> (me_pinned a, me_updated a)"

fun insert_memory_by :: "memory_entry \<Rightarrow> memory_entry list \<Rightarrow> memory_entry list" where
  "insert_memory_by e [] = [e]"
| "insert_memory_by e (x # xs) = (if memory_not_after e x then e # x # xs else x # insert_memory_by e xs)"

definition sort_memories :: "memory_entry list \<Rightarrow> memory_entry list" where
  "sort_memories es = foldr insert_memory_by es []"

text \<open>\<^verbatim>\<open>iter_mut().find(..)\<close>: the first element that satisfies \<open>p\<close> is changed, or none does.\<close>

fun update_first :: "('a \<Rightarrow> bool) \<Rightarrow> ('a \<Rightarrow> 'a) \<Rightarrow> 'a list \<Rightarrow> 'a list" where
  "update_first p f [] = []"
| "update_first p f (x # xs) = (if p x then f x # xs else x # update_first p f xs)"

definition apply_message :: "delta \<Rightarrow> shown_message list \<Rightarrow> string option \<Rightarrow> shown_message list" where
  "apply_message d ms selected =
     (if dl_op d = Delete then filter (\<lambda>m. sm_id m \<noteq> dl_id d) ms
      else case dl_payload d of
             MessagePayload c author_type author content parent sel picture \<Rightarrow>
               if selected \<noteq> Some c then ms
               else if list_ex (\<lambda>m. sm_id m = dl_id d) ms
               then update_first (\<lambda>m. sm_id m = dl_id d)
                      (\<lambda>m. m\<lparr> sm_author_type := author_type, sm_author := author, sm_content := content, sm_parent := parent,
                        sm_selected := sel, sm_image := picture, sm_revision := dl_revision d \<rparr>) ms
               else if parent = None
               then ms @ [\<lparr> sm_id = dl_id d, sm_author_type = author_type, sm_author = author, sm_content = content,
                      sm_parent = None, sm_selected = sel, sm_image = picture, sm_created = [], sm_revision = dl_revision d,
                      sm_variants = [] \<rparr>]
               else ms
           | _ \<Rightarrow> ms)"

definition add_variant :: "delta \<Rightarrow> string \<Rightarrow> string option \<Rightarrow> shown_message \<Rightarrow> shown_message" where
  "add_variant d content picture m =
     m\<lparr> sm_variants :=
          (if list_ex (\<lambda>v. sv_id v = dl_id d) (sm_variants m)
           then update_first (\<lambda>v. sv_id v = dl_id d) (\<lambda>v. v\<lparr> sv_content := content, sv_revision := dl_revision d \<rparr>) (sm_variants m)
           else sm_variants m @ [\<lparr> sv_id = dl_id d, sv_content = content, sv_created = [], sv_revision = dl_revision d \<rparr>]),
        sm_selected := Some (dl_id d), sm_image := picture, sm_revision := dl_revision d \<rparr>"

definition apply_variant :: "delta \<Rightarrow> shown_message list \<Rightarrow> shown_message list" where
  "apply_variant d ms =
     (case (dl_op d, dl_payload d) of
        (Delete, _) \<Rightarrow> ms
      | (_, VariantPayload i content picture) \<Rightarrow> update_first (\<lambda>m. sm_id m = i) (add_variant d content picture) ms
      | _ \<Rightarrow> ms)"

definition apply_delta :: "delta \<Rightarrow> gui \<Rightarrow> gui" where
  "apply_delta d g =
     (let worlds = filter (\<lambda>w. wo_id w \<noteq> dl_id d) (gu_worlds g); memories = filter (\<lambda>m. me_id m \<noteq> dl_id d) (gu_memories g) in
      \<lparr> gu_selected = gu_selected g,
        gu_messages =
          (if dl_type d = ''message'' then apply_message d (gu_messages g) (gu_selected g)
           else if dl_type d = ''variant'' then apply_variant d (gu_messages g)
           else gu_messages g),
        gu_worlds =
          (if dl_type d \<noteq> ''world'' then gu_worlds g
           else case (dl_op d, dl_payload d) of (Delete, _) \<Rightarrow> worlds | (_, WorldPayload w) \<Rightarrow> worlds @ [w] | _ \<Rightarrow> worlds),
        gu_memories =
          (if dl_type d \<noteq> ''memory'' then gu_memories g
           else case (dl_op d, dl_payload d) of
                  (Delete, _) \<Rightarrow> memories
                | (_, MemoryPayload e) \<Rightarrow> sort_memories (memories @ [e\<lparr> me_revision := dl_revision d \<rparr>])
                | _ \<Rightarrow> memories),
        gu_context = (if dl_type d = ''conversation'' \<and> dl_op d = Delete then gu_context g - {dl_id d} else gu_context g),
        gu_state = (gu_state g)((dl_type d, dl_id d) := (if dl_op d = Delete then None else Some (dl_payload d))),
        gu_revision = max (gu_revision g) (dl_revision d) \<rparr>)"

section \<open>The requests as steps\<close>

text \<open>A reply is saved long after its request was checked; a conversation that is gone by then refuses it, and one that
  is still there has kept its owner, so the check stands in the step.  A memory an automatic run saves, what condensing
  replaces and a portrait the classifier chose are steps of their own, as each is its own transaction; of condensing, what
  the query saw before may be any table.  An administrator's request is a step only when its role check passed.\<close>

datatype chat_request =
    CreateConversation string string string conversation_kind "string list"
  | UpdateConversation string string conversation_kind "string list"
  | UpdateConversationState string string string
  | NameChat conversation_row string "string option"
  | SendMessage string string string "string option" string
  | SendSystemMessage string string string string
  | SaveSceneImage string string string string
  | UpdateMessage string string
  | SelectVariant string string
  | SaveGeneration string string string string "string option" "string option" string
  | DeleteEntity entity_kind string string
  | SaveWorld string World.world
  | DeleteWorld string
  | UpsertCharacter bool string character_input "string list"
  | UpsertMemory string string memory_input
  | SaveMemory string string memory_input memory_source rat "string list"
  | CondenseMemories condense_env "string option" "string option" "memory_kind option" memory_db
  | PersistPortrait portrait_job string
  | AdminDeleteUser bool string
  | AdminSetCharacterPublic string bool

fun chat_step :: "(World.world \<Rightarrow> nat) \<Rightarrow> (string \<Rightarrow> (nat \<times> nat) option) \<Rightarrow> string \<times> chat_request \<Rightarrow> store \<Rightarrow> store" where
  "chat_step bytes png (u, CreateConversation i ch title kind ps) st = snd (snd (create_conversation u i ch title kind ps st))"
| "chat_step bytes png (u, UpdateConversation c title kind ps) st = snd (snd (update_conversation u c title kind ps st))"
| "chat_step bytes png (u, UpdateConversationState c s m) st = snd (snd (update_conversation_state u c s m st))"
| "chat_step bytes png (u, NameChat row msg reply) st = snd (name_chat u row msg reply st)"
| "chat_step bytes png (u, SendMessage c i content speaker now) st = snd (snd (send_message u c i content speaker now st))"
| "chat_step bytes png (u, SendSystemMessage c i content now) st = snd (snd (send_system_message u c i content now st))"
| "chat_step bytes png (u, SaveSceneImage c i depicted now) st = snd (snd (save_scene_image u c i depicted now st))"
| "chat_step bytes png (u, UpdateMessage i content) st = snd (snd (update_message u i content st))"
| "chat_step bytes png (u, SelectVariant i v) st = snd (snd (select_variant u i v st))"
| "chat_step bytes png (u, SaveGeneration c s i content parent picture now) st =
     (if own_conversation u c st then snd (snd (save_generation u c s i content parent picture now st)) else st)"
| "chat_step bytes png (u, DeleteEntity kind i now) st = snd (snd (delete_entity u kind i now st))"
| "chat_step bytes png (u, SaveWorld i w) st = snd (snd (save_world bytes u i w st))"
| "chat_step bytes png (u, DeleteWorld i) st = snd (snd (delete_world u i st))"
| "chat_step bytes png (u, UpsertCharacter p i c ws) st = snd (snd (upsert_character png p u i c ws st))"
| "chat_step bytes png (u, UpsertMemory i now m) st = snd (snd (upsert_memory u i now m st))"
| "chat_step bytes png (u, SaveMemory i now m source confidence ids) st = snd (snd (save_memory u i now m source confidence ids st))"
| "chat_step bytes png (u, CondenseMemories en c ch kind seen) st = snd (snd (condense_stored en u c ch kind seen st))"
| "chat_step bytes png (u, PersistPortrait job picture) st = snd (persist_portrait job picture st)"
| "chat_step bytes png (u, AdminDeleteUser known user) st = snd (snd (delete_user known u user st))"
| "chat_step bytes png (u, AdminSetCharacterPublic i public) st = snd (snd (set_character_public i public st))"

definition chat_run ::
  "(World.world \<Rightarrow> nat) \<Rightarrow> (string \<Rightarrow> (nat \<times> nat) option) \<Rightarrow> (string \<times> chat_request) list \<Rightarrow> store \<Rightarrow> store" where
  "chat_run bytes png ops st = fold (chat_step bytes png) ops st"

end
