(* ===== verification/ChatMirror.thy ===== *)
theory ChatMirror
  imports ChatClient
begin

text \<open>
  A client that opened a chat and applied the logged deltas of its account since then shows what the tables hold, for
  every sequence of requests of all users in which no variant was selected and the account was not deleted; and what
  deleting announces.
\<close>

section \<open>What the log and the tables keep\<close>

definition chat_inv :: "store \<Rightarrow> bool" where
  "chat_inv st \<longleftrightarrow>
     distinct (map ms_id (st_messages st)) \<and> distinct (map vr_id (st_variants st))
     \<and> (\<forall>m \<in> set (st_messages st). ms_parent m = None)
     \<and> vr_message ` set (st_variants st) \<subseteq> ms_id ` set (st_messages st)
     \<and> (\<forall>d \<in> set (st_deltas st). dl_revision d \<le> st_revision st)"

definition owned_by :: "string \<Rightarrow> string \<Rightarrow> store \<Rightarrow> bool" where
  "owned_by c u st \<longleftrightarrow> (\<forall>r \<in> set (st_conversations st). co_id r = c \<longrightarrow> co_owner r = u)"

text \<open>The log of the second state is that of the first and \<open>ds\<close>, with newer revisions.\<close>

definition grows :: "store \<Rightarrow> delta list \<Rightarrow> store \<Rightarrow> bool" where
  "grows st ds st' \<longleftrightarrow>
     st_deltas st' = st_deltas st @ ds \<and> st_revision st \<le> st_revision st'
     \<and> (\<forall>d \<in> set ds. st_revision st < dl_revision d \<and> dl_revision d \<le> st_revision st')"

lemma grows_refl [simp]: "grows st [] st" by (simp add: grows_def)

lemma grows_trans: "grows a xs b \<Longrightarrow> grows b ys c \<Longrightarrow> grows a (xs @ ys) c"
  by (fastforce simp: grows_def)

text \<open>The same of one account's part of the log; other accounts' entries may be removed.\<close>

definition log_of :: "string \<Rightarrow> store \<Rightarrow> delta list" where
  "log_of u st = filter (\<lambda>d. dl_owner d = u) (st_deltas st)"

definition grows_for :: "string \<Rightarrow> store \<Rightarrow> delta list \<Rightarrow> store \<Rightarrow> bool" where
  "grows_for u st ds st' \<longleftrightarrow>
     log_of u st' = log_of u st @ ds \<and> st_revision st \<le> st_revision st'
     \<and> (\<forall>d \<in> set ds. st_revision st < dl_revision d \<and> dl_revision d \<le> st_revision st')"

lemma grows_for_own: "grows st ds st' \<Longrightarrow> grows_for u st (filter (\<lambda>d. dl_owner d = u) ds) st'"
  by (simp add: grows_def grows_for_def log_of_def)

lemma grows_for_trans: "grows_for u a xs b \<Longrightarrow> grows_for u b ys c \<Longrightarrow> grows_for u a (xs @ ys) c"
  by (fastforce simp: grows_for_def)

lemma grows_bound:
  assumes "chat_inv st" "grows st ds st'"
  shows "\<forall>d \<in> set (st_deltas st'). dl_revision d \<le> st_revision st'"
  using assms unfolding chat_inv_def grows_def by (metis Un_iff order_trans set_append)

lemma grows_log: "log_delta owner ty i op p st = (d, st') \<Longrightarrow> grows st [d] st'"
  by (auto simp: log_delta_def Let_def grows_def)

lemma grows_tables [simp]:
  "grows st ds (st'\<lparr> st_characters := a \<rparr>) = grows st ds st'" "grows st ds (st'\<lparr> st_conversations := b \<rparr>) = grows st ds st'"
  "grows st ds (st'\<lparr> st_messages := e \<rparr>) = grows st ds st'" "grows st ds (st'\<lparr> st_variants := f \<rparr>) = grows st ds st'"
  "grows st ds (st'\<lparr> st_memories := g \<rparr>) = grows st ds st'" "grows st ds (st'\<lparr> st_worlds := h \<rparr>) = grows st ds st'"
  by (simp_all add: grows_def)

lemma log_delta_simps:
  assumes "log_delta owner ty i op p st = (d, st')"
  shows "d = \<lparr> dl_owner = owner, dl_revision = st_revision st + 1, dl_type = ty, dl_id = i, dl_op = op, dl_payload = p \<rparr>"
    "st_messages st' = st_messages st" "st_variants st' = st_variants st" "st_conversations st' = st_conversations st"
    "st_characters st' = st_characters st" "st_memories st' = st_memories st" "st_worlds st' = st_worlds st"
  using assms by (auto simp: log_delta_def Let_def)

section \<open>The messages shown\<close>

definition shown_step :: "string option \<Rightarrow> delta \<Rightarrow> shown_message list \<Rightarrow> shown_message list" where
  "shown_step selected d ms =
     (if dl_type d = ''message'' then apply_message d ms selected
      else if dl_type d = ''variant'' then apply_variant d ms else ms)"

lemma apply_deltas_shown:
  "gu_selected (fold apply_delta ds g) = gu_selected g"
  "gu_messages (fold apply_delta ds g) = fold (shown_step (gu_selected g)) ds (gu_messages g)"
  by (induction ds arbitrary: g) (auto simp: apply_delta_def shown_step_def Let_def)

lemma shown_quiet:
  "(\<And>d. d \<in> set ds \<Longrightarrow> dl_type d \<noteq> ''message'' \<and> dl_type d \<noteq> ''variant'') \<Longrightarrow> fold (shown_step selected) ds ms = ms"
  by (induction ds) (auto simp: shown_step_def)

lemma update_first_map:
  "distinct (map key xs) \<Longrightarrow> update_first (\<lambda>x. key x = k) f xs = map (\<lambda>x. if key x = k then f x else x) xs"
proof (induction xs)
  case (Cons x xs)
  have "map (\<lambda>y. if key y = k then f y else y) xs = xs" if x: "key x = k"
  proof (rule map_idI)
    fix y assume "y \<in> set xs"
    then have "key y \<noteq> k" using Cons.prems x by (metis distinct.simps(2) image_eqI list.simps(9) list.set_map)
    then show "(if key y = k then f y else y) = y" by simp
  qed
  then show ?case using Cons by auto
qed simp

definition agrees :: "store \<Rightarrow> shown_message \<Rightarrow> stored_message \<Rightarrow> bool" where
  "agrees st s m \<longleftrightarrow>
     sm_id s = ms_id m \<and> sm_author_type s = ms_author_type m \<and> sm_author s = ms_author m \<and> sm_content s = ms_content m
     \<and> sm_parent s = ms_parent m \<and> sm_selected s = ms_selected m \<and> sm_image s = ms_image m \<and> sm_revision s = ms_revision m
     \<and> (\<lambda>v. (sv_id v, sv_content v, sv_revision v)) ` set (sm_variants s)
         = (\<lambda>v. (vr_id v, vr_content v, vr_revision v)) ` {v \<in> set (st_variants st). vr_message v = ms_id m}"

definition mirrors :: "string \<Rightarrow> store \<Rightarrow> shown_message list \<Rightarrow> bool" where
  "mirrors c st ms \<longleftrightarrow> list_all2 (agrees st) ms (timeline c st)"

lemma agrees_show: "agrees st (show_message st m) m"
  by (auto simp: agrees_def show_message_def variants_of_def show_variant_def image_iff)

lemma mirrors_ids: "mirrors c st ms \<Longrightarrow> map sm_id ms = map ms_id (timeline c st)"
  unfolding mirrors_def by (induction rule: list_all2_induct) (auto simp: agrees_def)

lemma mirrors_distinct: "mirrors c st ms \<Longrightarrow> chat_inv st \<Longrightarrow> distinct (map sm_id ms)"
  by (simp add: mirrors_ids chat_inv_def timeline_def distinct_map_filter)

lemma mirrors_quiet:
  assumes "mirrors c st ms" "st_messages st' = st_messages st" "st_variants st' = st_variants st"
    and "\<And>d. d \<in> set ds \<Longrightarrow> dl_type d \<noteq> ''message'' \<and> dl_type d \<noteq> ''variant''"
  shows "mirrors c st' (fold (shown_step sel) (filter p ds) ms)"
proof -
  have "fold (shown_step sel) (filter p ds) ms = ms" using assms(4) by (intro shown_quiet) auto
  moreover have "agrees st' = agrees st" using assms(3) by (intro ext) (simp add: agrees_def)
  ultimately show ?thesis using assms(1,2) by (simp add: mirrors_def timeline_def)
qed

text \<open>One step is mirrored: the tables keep their invariant, the log grows, and the account's new deltas bring a chat
  that was up to date to the new tables.\<close>

definition mirrored :: "string \<Rightarrow> string \<Rightarrow> store \<Rightarrow> store \<Rightarrow> bool" where
  "mirrored c u st st' \<longleftrightarrow>
     chat_inv st' \<and> owned_by c u st'
     \<and> (\<exists>ds. grows_for u st ds st' \<and> (\<forall>ms. mirrors c st ms \<longrightarrow> mirrors c st' (fold (shown_step (Some c)) ds ms)))"

lemma mirroredI:
  assumes "chat_inv st'" "owned_by c u st'" "grows st ds st'"
    and "\<And>ms. mirrors c st ms \<Longrightarrow> mirrors c st' (fold (shown_step (Some c)) (filter (\<lambda>d. dl_owner d = u) ds) ms)"
  shows "mirrored c u st st'"
  unfolding mirrored_def using assms(1,2,4) grows_for_own [OF assms(3)] by blast

lemma mirrored_refl: "chat_inv st \<Longrightarrow> owned_by c u st \<Longrightarrow> mirrored c u st st"
  by (rule mirroredI [OF _ _ grows_refl]) simp_all

lemma chat_inv_quiet:
  assumes "chat_inv st" "grows st ds st'" "st_messages st' = st_messages st" "st_variants st' = st_variants st"
  shows "chat_inv st'"
  using assms by (fastforce simp: chat_inv_def grows_def)

lemma mirrored_quiet:
  assumes "chat_inv st" "owned_by c u st'" "grows st ds st'"
    "st_messages st' = st_messages st" "st_variants st' = st_variants st"
    "\<And>d. d \<in> set ds \<Longrightarrow> dl_type d \<noteq> ''message'' \<and> dl_type d \<noteq> ''variant''"
  shows "mirrored c u st st'"
  by (rule mirroredI [OF chat_inv_quiet [OF assms(1,3-5)] assms(2,3) mirrors_quiet [OF _ assms(4-6)]])

lemma agrees_cong: "st_variants st' = st_variants st \<Longrightarrow> agrees st' = agrees st"
  by (intro ext) (simp add: agrees_def)

lemma owner_of: "own_conversation v c st \<Longrightarrow> owned_by c u st \<Longrightarrow> v = u"
  by (auto simp: own_conversation_def find_conversation_def owned_by_def find_Some_iff dest: nth_mem)

lemma mirrors_mem: "mirrors c st ms \<Longrightarrow> list_ex (\<lambda>s. sm_id s = i) ms \<longleftrightarrow> i \<in> ms_id ` set (timeline c st)"
proof -
  assume "mirrors c st ms"
  then have "sm_id ` set ms = ms_id ` set (timeline c st)" using arg_cong [OF mirrors_ids, of c st ms set] by simp
  then have "i \<in> sm_id ` set ms \<longleftrightarrow> i \<in> ms_id ` set (timeline c st)" by simp
  then show ?thesis unfolding list_ex_iff image_iff by metis
qed

lemma timeline_sub: "set (timeline c st) \<subseteq> set (st_messages st)"
  by (auto simp: timeline_def)

lemma refuse_store [simp]: "snd (snd (refuse e st)) = st"
  by (simp add: refuse_def)

lemma insert_message_mirrored:
  assumes inv: "chat_inv st" "owned_by c u st" and m: "ms_parent m = None" "own_conversation v (ms_conversation m) st"
  shows "mirrored c u st (snd (snd (insert_message v m st)))"
proof (cases "list_ex (\<lambda>r. ms_id r = ms_id m) (st_messages st) \<or> \<not> list_ex (\<lambda>r. co_id r = ms_conversation m) (st_conversations st)")
  case True
  then show ?thesis using inv by (auto simp: insert_message_def intro: mirrored_refl)
next
  case False
  obtain d st1 where l: "log_delta v ''message'' (ms_id m) Add (message_payload m) st = (d, st1)" by fastforce
  define m' where "m' = m\<lparr> ms_revision := dl_revision d \<rparr>"
  define st' where "st' = st1\<lparr> st_messages := st_messages st1 @ [m'] \<rparr>"
  note ls = log_delta_simps [OF l]
  have st': "snd (snd (insert_message v m st)) = st'" using False l by (auto simp: insert_message_def st'_def m'_def)
  have new: "ms_id m \<notin> ms_id ` set (st_messages st)" using False by (auto simp: list_ex_iff)
  have g: "grows st [d] st'" using grows_log [OF l] by (simp add: st'_def)
  have fields: "st_messages st' = st_messages st @ [m']" "st_variants st' = st_variants st"
    "st_conversations st' = st_conversations st" using ls by (simp_all add: st'_def)
  have inv': "chat_inv st'"
    using inv(1) new m(1) g unfolding chat_inv_def grows_def fields by (auto simp: m'_def)
  have tl: "timeline c st' = timeline c st @ (if ms_conversation m = c then [m'] else [])"
    using m(1) by (simp add: timeline_def fields m'_def)
  have "mirrors c st' (fold (shown_step (Some c)) (filter (\<lambda>d. dl_owner d = u) [d]) ms)" if ms: "mirrors c st ms" for ms
  proof (cases "ms_conversation m = c")
    case True
    then have v: "v = u" using owner_of [OF m(2)] inv(2) by simp
    have absent: "\<not> list_ex (\<lambda>s. sm_id s = ms_id m) ms" using mirrors_mem [OF ms, of "ms_id m"] new timeline_sub [of c st] by blast
    have "vr_message ` set (st_variants st) \<subseteq> ms_id ` set (st_messages st)" using inv(1) by (simp add: chat_inv_def)
    then have none: "vr_message x \<noteq> ms_id m" if "x \<in> set (st_variants st)" for x
      using new that by (metis image_eqI subsetD)
    then have "{x \<in> set (st_variants st). vr_message x = ms_id m} = {}" by simp
    then have "agrees st' \<lparr> sm_id = ms_id m, sm_author_type = ms_author_type m, sm_author = ms_author m, sm_content = ms_content m,
        sm_parent = None, sm_selected = ms_selected m, sm_image = ms_image m, sm_created = [], sm_revision = dl_revision d,
        sm_variants = [] \<rparr> m'"
      using m(1) by (simp add: agrees_def m'_def fields)
    then show ?thesis
      using ms True v absent m(1) ls(1) unfolding mirrors_def tl
      by (simp add: shown_step_def apply_message_def message_payload_def agrees_cong [OF fields(2)] list_all2_appendI)
  next
    case False
    then have "shown_step (Some c) d ms = ms" using ls(1) by (simp add: shown_step_def apply_message_def message_payload_def)
    then show ?thesis using ms False by (simp add: mirrors_def tl agrees_cong [OF fields(2)])
  qed
  moreover have "owned_by c u st'" using inv(2) by (simp add: owned_by_def fields(3))
  ultimately show ?thesis unfolding st' by (intro mirroredI [OF inv' _ g])
qed

text \<open>A change of one message row that the client makes to the message it shows.\<close>

lemma row_change_mirrored:
  assumes inv: "chat_inv st" "owned_by c u st"
    and m: "m \<in> set (st_messages st)" "own_conversation v (ms_conversation m) st"
    and st': "grows st [d] st'" "dl_owner d = v" "st_conversations st' = st_conversations st"
      "st_messages st' = map (\<lambda>r. if ms_id r = ms_id m then f r else r) (st_messages st)" "chat_inv st'"
    and f: "\<And>r. ms_id (f r) = ms_id r \<and> ms_conversation (f r) = ms_conversation r \<and> ms_parent (f r) = ms_parent r"
    and shown: "\<And>ms. mirrors c st ms \<Longrightarrow> shown_step (Some c) d ms = map (\<lambda>s. if sm_id s = ms_id m then g s else s) ms
        \<or> (ms_conversation m \<noteq> c \<and> shown_step (Some c) d ms = ms)"
    and same: "\<And>s. agrees st s m \<Longrightarrow> agrees st' (g s) (f m)"
      "\<And>s r. agrees st s r \<Longrightarrow> ms_id r \<noteq> ms_id m \<Longrightarrow> agrees st' s r"
  shows "mirrored c u st st'"
proof -
  have key: "r = m" if "r \<in> set (st_messages st)" "ms_id r = ms_id m" for r
    using inv(1) that m(1) unfolding chat_inv_def distinct_map by (metis inj_onD)
  have tl: "timeline c st' = map (\<lambda>r. if ms_id r = ms_id m then f r else r) (timeline c st)"
    unfolding timeline_def st'(4) filter_map
    by (intro arg_cong [where f = "map _"] filter_cong) (auto simp: f)
  have rel: "list_all2 (agrees st') (map (\<lambda>s. if sm_id s = ms_id m then g s else s) ms) (timeline c st')"
    if "mirrors c st ms" for ms
    using that unfolding mirrors_def tl list_all2_map1 list_all2_map2
  proof (rule list.rel_mono_strong)
    fix s r assume "s \<in> set ms" "r \<in> set (timeline c st)" "agrees st s r"
    moreover from this have "sm_id s = ms_id r" by (simp add: agrees_def)
    ultimately show "agrees st' (if sm_id s = ms_id m then g s else s) (if ms_id r = ms_id m then f r else r)"
      using key [of r] timeline_sub [of c st] same by auto
  qed
  have "mirrors c st' (fold (shown_step (Some c)) (filter (\<lambda>d. dl_owner d = u) [d]) ms)" if ms: "mirrors c st ms" for ms
  proof (cases "ms_conversation m = c")
    case True
    then have "v = u" using owner_of [OF m(2)] inv(2) by simp
    then show ?thesis using rel [OF ms] shown [OF ms] True st'(2) by (simp add: mirrors_def)
  next
    case False
    have "sm_id s \<noteq> ms_id m" if "s \<in> set ms" for s
    proof
      assume "sm_id s = ms_id m"
      then have "ms_id m \<in> ms_id ` set (timeline c st)"
        using that mirrors_ids [OF ms] by (metis image_eqI list.set_map)
      then show False using key timeline_sub [of c st] False by (auto simp: timeline_def)
    qed
    then have "map (\<lambda>s. if sm_id s = ms_id m then g s else s) ms = ms" by (intro map_idI) auto
    then show ?thesis using rel [OF ms] shown [OF ms] by (auto simp: mirrors_def)
  qed
  moreover have "owned_by c u st'" using inv(2) st'(3) by (simp add: owned_by_def)
  ultimately show ?thesis by (intro mirroredI [OF st'(5) _ st'(1)])
qed

lemma find_messageD:
  "find_message v i st = Some m \<Longrightarrow> m \<in> set (st_messages st) \<and> ms_id m = i \<and> own_conversation v (ms_conversation m) st"
  by (auto simp: find_message_def find_Some_iff dest: nth_mem)

lemma chat_inv_rows:
  assumes "chat_inv st" "grows st ds st'" "st_messages st' = map f (st_messages st)"
    and "\<And>r. ms_id (f r) = ms_id r" "\<And>r. ms_parent (f r) = ms_parent r"
    and "distinct (map vr_id (st_variants st'))" "vr_message ` set (st_variants st') \<subseteq> ms_id ` set (st_messages st)"
  shows "chat_inv st'"
proof -
  have "map ms_id (st_messages st') = map ms_id (st_messages st)" using assms(3,4) by simp
  moreover have "ms_id ` set (st_messages st') = ms_id ` set (st_messages st)" using assms(3,4) by (simp add: image_image)
  moreover have "\<forall>m \<in> set (st_messages st'). ms_parent m = None" using assms(1,3,5) by (simp add: chat_inv_def)
  moreover note grows_bound [OF assms(1,2)]
  ultimately show ?thesis using assms(1,6,7) by (simp add: chat_inv_def)
qed

text \<open>A change of a message row that is logged with the row's new payload.\<close>

lemma payload_change_mirrored:
  fixes h :: "stored_message \<Rightarrow> stored_message"
  assumes inv: "chat_inv st" "owned_by c u st" and fm: "find_message v i st = Some m"
    and l: "log_delta v ''message'' i Update (message_payload (h m)) st = (d, st1)"
    and h: "\<And>r. ms_id (h r) = ms_id r \<and> ms_conversation (h r) = ms_conversation r \<and> ms_parent (h r) = ms_parent r"
  shows "mirrored c u st (update_message_row i (\<lambda>r. (h r)\<lparr> ms_revision := dl_revision d \<rparr>) st1)"
proof -
  note m = find_messageD [OF fm]
  note ls = log_delta_simps [OF l]
  define f :: "stored_message \<Rightarrow> stored_message" where "f = (\<lambda>r. (h r)\<lparr> ms_revision := dl_revision d \<rparr>)"
  define st' where "st' = update_message_row i f st1"
  have fields: "st_messages st' = map (\<lambda>r. if ms_id r = ms_id m then f r else r) (st_messages st)"
    "st_variants st' = st_variants st" "st_conversations st' = st_conversations st" "grows st [d] st'"
    using ls m grows_log [OF l] by (simp_all add: st'_def update_message_row_def)
  define g :: "shown_message \<Rightarrow> shown_message" where "g = (\<lambda>s. s\<lparr> sm_author_type := ms_author_type (h m), sm_author := ms_author (h m),
    sm_content := ms_content (h m), sm_parent := ms_parent (h m), sm_selected := ms_selected (h m), sm_image := ms_image (h m),
    sm_revision := dl_revision d \<rparr>)"
  have inv': "chat_inv st'"
    using inv(1) h by (intro chat_inv_rows [OF inv(1) fields(4,1)]) (auto simp: f_def fields(2) chat_inv_def)
  have "shown_step (Some c) d ms = map (\<lambda>s. if sm_id s = ms_id m then g s else s) ms" if ms: "mirrors c st ms" and "ms_conversation m = c" for ms
  proof -
    have "m \<in> set (timeline c st)" using m inv(1) that(2) by (simp add: timeline_def chat_inv_def)
    then have "list_ex (\<lambda>s. sm_id s = i) ms" using mirrors_mem [OF ms] m by blast
    then show ?thesis
      using ls(1) that m h update_first_map [OF mirrors_distinct [OF ms inv(1)], of i]
      by (simp add: shown_step_def apply_message_def message_payload_def g_def)
  qed
  moreover have "shown_step (Some c) d ms = ms" if "ms_conversation m \<noteq> c" for ms
    using ls(1) that h by (simp add: shown_step_def apply_message_def message_payload_def)
  ultimately have "mirrored c u st st'"
    using m ls(1) h
    by (intro row_change_mirrored [OF inv, of m v d st' f g] fields inv')
      (auto simp: f_def g_def agrees_def fields)
  then show ?thesis by (simp add: st'_def f_def)
qed

lemma update_message_mirrored:
  assumes inv: "chat_inv st" "owned_by c u st"
  shows "mirrored c u st (snd (snd (update_message v i content st)))"
proof (cases "content = [] \<or> 65536 < length content \<or> find_message v i st = None")
  case True
  then show ?thesis using inv by (auto simp: update_message_def intro: mirrored_refl)
next
  case False
  then obtain m where fm: "find_message v i st = Some m" by auto
  obtain d st1 where l: "log_delta v ''message'' i Update (message_payload (m\<lparr> ms_content := content \<rparr>)) st = (d, st1)" by fastforce
  show ?thesis using payload_change_mirrored [OF inv fm, where h = "\<lambda>r. r\<lparr> ms_content := content \<rparr>", OF l] False fm l
    by (simp add: update_message_def)
qed

lemma persist_portrait_mirrored:
  assumes inv: "chat_inv st" "owned_by c u st"
  shows "mirrored c u st (snd (persist_portrait job picture st))"
proof (cases "find_message (pj_owner job) (pj_message job) st")
  case None
  then show ?thesis using mirrored_refl [OF inv] by (simp add: persist_portrait_def)
next
  case (Some m)
  obtain d st1 where l: "log_delta (pj_owner job) ''message'' (pj_message job) Update (message_payload (m\<lparr> ms_image := Some picture \<rparr>)) st = (d, st1)"
    by fastforce
  show ?thesis
    using payload_change_mirrored [OF inv Some, where h = "\<lambda>r. r\<lparr> ms_image := Some picture \<rparr>", OF l] mirrored_refl [OF inv] Some l
    by (simp add: persist_portrait_def)
qed

lemma variant_ids:
  assumes "agrees st s m" "i \<notin> vr_id ` set (st_variants st)"
  shows "\<not> list_ex (\<lambda>v. sv_id v = i) (sm_variants s)"
proof
  assume "list_ex (\<lambda>v. sv_id v = i) (sm_variants s)"
  then have "i \<in> fst ` (\<lambda>v. (sv_id v, sv_content v, sv_revision v)) ` set (sm_variants s)"
    by (force simp: list_ex_iff image_image)
  also have "\<dots> \<subseteq> vr_id ` set (st_variants st)" using assms(1) by (force simp: agrees_def)
  finally show False using assms(2) by simp
qed

lemma save_generation_mirrored:
  assumes inv: "chat_inv st" "owned_by c u st" and own: "own_conversation v c' st"
  shows "mirrored c u st (snd (snd (save_generation v c' speaker i content parent picture now st)))"
proof (cases parent)
  case None
  then show ?thesis using insert_message_mirrored [OF inv] own by (simp add: save_generation_def new_message_def)
next
  case (Some p)
  show ?thesis
  proof (cases "list_ex (\<lambda>r. vr_id r = i) (st_variants st) \<or> \<not> list_ex (\<lambda>r. ms_id r = p \<and> ms_conversation r = c') (st_messages st)")
    case True
    then show ?thesis using inv Some by (auto simp: save_generation_def intro: mirrored_refl)
  next
    case False
    then obtain m where m: "m \<in> set (st_messages st)" "ms_id m = p" "ms_conversation m = c'" by (auto simp: list_ex_iff)
    then have ex: "list_ex (\<lambda>r. ms_id r = p) (st_messages st)" by (auto simp: list_ex_iff)
    have new: "i \<notin> vr_id ` set (st_variants st)" using False by (auto simp: list_ex_iff)
    obtain d st1 where l: "log_delta v ''variant'' i Add (VariantPayload p content picture) st = (d, st1)" by fastforce
    note ls = log_delta_simps [OF l]
    define f :: "stored_message \<Rightarrow> stored_message" where "f = (\<lambda>r. r\<lparr> ms_selected := Some i, ms_image := picture, ms_revision := dl_revision d \<rparr>)"
    define x where "x = \<lparr> vr_id = i, vr_message = p, vr_content = content, vr_created = now, vr_revision = dl_revision d \<rparr>"
    define st' where "st' = (update_message_row p f st1)\<lparr> st_variants := st_variants st1 @ [x] \<rparr>"
    have st': "snd (snd (save_generation v c' speaker i content parent picture now st)) = st'"
      using False Some ex l by (simp add: save_generation_def st'_def f_def x_def)
    have fields: "st_messages st' = map (\<lambda>r. if ms_id r = ms_id m then f r else r) (st_messages st)"
      "st_variants st' = st_variants st @ [x]" "st_conversations st' = st_conversations st" "grows st [d] st'"
      using ls m grows_log [OF l] by (simp_all add: st'_def update_message_row_def)
    have inv': "chat_inv st'"
      using inv(1) new m by (intro chat_inv_rows [OF inv(1) fields(4,1)]) (auto simp: f_def fields(2) chat_inv_def x_def)
    have "shown_step (Some c) d ms = map (\<lambda>s. if sm_id s = ms_id m then add_variant d content picture s else s) ms"
      if ms: "mirrors c st ms" for ms
      using ls(1) m update_first_map [OF mirrors_distinct [OF ms inv(1)], of p]
      by (simp add: shown_step_def apply_variant_def)
    moreover have "agrees st' (add_variant d content picture s) (f m)" if s: "agrees st s m" for s
    proof -
      have "{y \<in> set (st_variants st'). vr_message y = ms_id m} = insert x {y \<in> set (st_variants st). vr_message y = ms_id m}"
        using m by (auto simp: fields(2) x_def)
      then show ?thesis using s variant_ids [OF s new] ls(1) by (simp add: agrees_def add_variant_def f_def x_def insert_commute)
    qed
    moreover have "agrees st' s r" if "agrees st s r" "ms_id r \<noteq> ms_id m" for s r
    proof -
      have "{y \<in> set (st_variants st'). vr_message y = ms_id r} = {y \<in> set (st_variants st). vr_message y = ms_id r}"
        using m that(2) by (auto simp: fields(2) x_def)
      then show ?thesis using that(1) by (simp add: agrees_def)
    qed
    ultimately show ?thesis
      unfolding st' using m own ls(1)
      by (intro row_change_mirrored [OF inv, of m v d st' f "add_variant d content picture"] fields inv') (auto simp: f_def)
  qed
qed

section \<open>Deleting\<close>

lemma log_deletions_grow:
  "log_deletions v xs sent st = (sent', st') \<Longrightarrow> \<exists>ds. sent' = sent @ ds \<and> grows st ds st'
     \<and> map (\<lambda>d. (dl_type d, dl_id d)) ds = xs \<and> (\<forall>d \<in> set ds. dl_owner d = v \<and> dl_op d = Delete)
     \<and> st_messages st' = st_messages st \<and> st_variants st' = st_variants st \<and> st_conversations st' = st_conversations st
     \<and> st_memories st' = st_memories st \<and> st_characters st' = st_characters st \<and> st_worlds st' = st_worlds st"
proof (induction v xs sent st rule: log_deletions.induct)
  case (2 v ty i xs sent st)
  obtain d st1 where l: "log_delta v ty i Delete EmptyPayload st = (d, st1)" by fastforce
  note ls = log_delta_simps [OF l]
  obtain ds where "sent' = (sent @ [d]) @ ds" "grows st1 ds st'" "map (\<lambda>d. (dl_type d, dl_id d)) ds = xs"
    "\<forall>d \<in> set ds. dl_owner d = v \<and> dl_op d = Delete" "st_messages st' = st_messages st1" "st_variants st' = st_variants st1"
    "st_conversations st' = st_conversations st1" "st_memories st' = st_memories st1" "st_characters st' = st_characters st1"
    "st_worlds st' = st_worlds st1"
    using 2 l by fastforce
  then show ?case using ls grows_trans [OF grows_log [OF l]] by (intro exI [of _ "d # ds"]) fastforce
qed simp

lemma promote_memories_grow:
  "promote_memories v now es sent st = (sent', st') \<Longrightarrow> \<exists>ds. sent' = sent @ ds \<and> grows st ds st'
     \<and> (\<forall>d \<in> set ds. dl_owner d = v \<and> dl_type d = ''memory'' \<and> dl_op d = Update)
     \<and> st_messages st' = st_messages st \<and> st_variants st' = st_variants st \<and> st_conversations st' = st_conversations st"
proof (induction es arbitrary: sent st)
  case (Cons e es)
  obtain d st1 where l: "log_delta v ''memory'' (me_id e) Update (MemoryPayload (e\<lparr> me_conversation := None, me_updated := now \<rparr>)) st = (d, st1)"
    by fastforce
  note ls = log_delta_simps [OF l]
  obtain ys where pr: "promote_memories v now es (sent @ [d]) (st1\<lparr> st_memories := ys \<rparr>) = (sent', st')"
    using Cons.prems l by simp
  obtain ds where ds: "sent' = (sent @ [d]) @ ds" "grows (st1\<lparr> st_memories := ys \<rparr>) ds st'"
    "\<forall>d \<in> set ds. dl_owner d = v \<and> dl_type d = ''memory'' \<and> dl_op d = Update" "st_messages st' = st_messages st1"
    "st_variants st' = st_variants st1" "st_conversations st' = st_conversations st1"
    using Cons.IH [OF pr] by auto
  have "grows st ([d] @ ds) st'" using grows_trans [OF _ ds(2), of st "[d]"] grows_log [OF l] by simp
  then show ?case using ds ls by (intro exI [of _ "d # ds"]) simp
qed simp

lemma shown_deletions:
  "\<forall>d \<in> set ds. dl_op d = Delete \<Longrightarrow>
     fold (shown_step sel) ds ms = filter (\<lambda>s. (''message'', sm_id s) \<notin> set (map (\<lambda>d. (dl_type d, dl_id d)) ds)) ms"
proof (induction ds arbitrary: ms)
  case (Cons d ds)
  have "shown_step sel d ms = filter (\<lambda>s. (''message'', sm_id s) \<noteq> (dl_type d, dl_id d)) ms"
    using Cons.prems by (auto simp: shown_step_def apply_message_def apply_variant_def intro!: filter_cong)
  then show ?case using Cons by (auto intro!: filter_cong)
qed simp

lemma list_all2_filter:
  "list_all2 R xs ys \<Longrightarrow> (\<And>x y. R x y \<Longrightarrow> y \<in> set ys \<Longrightarrow> P x = Q y) \<Longrightarrow> list_all2 R (filter P xs) (filter Q ys)"
  by (induction rule: list_all2_induct) auto

lemma branch_of_root: "\<forall>m \<in> set ms. ms_parent m = None \<Longrightarrow> branch ms n [i] = [i]"
proof (cases n)
  case (Suc k)
  assume "\<forall>m \<in> set ms. ms_parent m = None"
  then have "filter (\<lambda>m. ms_parent m = Some i) ms = []" by (auto simp: filter_empty_conv)
  then show ?thesis using Suc by (cases k) simp_all
qed simp

text \<open>What a deletion removes: exactly the messages it reports, all of the user's own conversations.\<close>

lemma delete_owned_removes:
  assumes "chat_inv st" "delete_owned_entity v kind i st = Inr (deleted, st')"
  obtains p where "st_messages st' = filter (\<lambda>m. \<not> p m) (st_messages st)"
    "st_variants st' = filter (\<lambda>x. \<not> list_ex (\<lambda>m. p m \<and> ms_id m = vr_message x) (st_messages st)) (st_variants st)"
    "\<forall>m \<in> set (st_messages st). p m \<longleftrightarrow> (''message'', ms_id m) \<in> set deleted"
    "\<forall>m \<in> set (st_messages st). p m \<longrightarrow> own_conversation v (ms_conversation m) st"
    "set (st_conversations st') \<subseteq> set (st_conversations st)" "st_deltas st' = st_deltas st" "st_revision st' = st_revision st"
proof (cases kind)
  case CharacterEntity
  then show ?thesis
    using assms(2) by (intro that [of "\<lambda>_. False"]) (auto simp: Let_def list_ex_iff split: if_splits)
next
  case ConversationEntity
  have uniq: "m = m'" if "m \<in> set (st_messages st)" "m' \<in> set (st_messages st)" "ms_id m = ms_id m'" for m m'
    using assms(1) that unfolding chat_inv_def distinct_map by (metis inj_onD)
  have d: "deleted = map (\<lambda>m. (''message'', ms_id m)) (filter (\<lambda>m. ms_conversation m = i) (st_messages st)) @ [(''conversation'', i)]"
    "own_conversation v i st" and st': "st' = (remove_messages (\<lambda>m. ms_conversation m = i) st)
       \<lparr> st_conversations := filter (\<lambda>r. \<not> (co_id r = i \<and> co_owner r = v)) (st_conversations st) \<rparr>"
    using assms(2) unfolding ConversationEntity delete_owned_entity.simps by (simp_all split: if_splits)
  have "ms_conversation m = i \<longleftrightarrow> (''message'', ms_id m) \<in> set deleted" if "m \<in> set (st_messages st)" for m
  proof
    assume "(''message'', ms_id m) \<in> set deleted"
    then obtain x where "x \<in> set (st_messages st)" "ms_conversation x = i" "ms_id x = ms_id m" by (auto simp: d(1))
    then show "ms_conversation m = i" using uniq that by blast
  qed (use that in \<open>auto simp: d(1)\<close>)
  then show ?thesis using d(2) by (intro that [of "\<lambda>m. ms_conversation m = i"]) (auto simp: remove_messages_def st')
next
  case MessageEntity
  have b: "branch (st_messages st) (length (st_messages st)) [i] = [i]"
    using assms(1) by (intro branch_of_root) (simp add: chat_inv_def)
  have uniq: "m = m'" if "m \<in> set (st_messages st)" "m' \<in> set (st_messages st)" "ms_id m = ms_id m'" for m m'
    using assms(1) that unfolding chat_inv_def distinct_map by (metis inj_onD)
  obtain m where "find_message v i st = Some m" "deleted = [(''message'', i)]" "st' = remove_messages (\<lambda>m. ms_id m = i) st"
    using assms(2) MessageEntity b by (auto simp: Let_def split: if_splits)
  then show ?thesis
    using find_messageD [of v i st m] uniq
    by (intro that [of "\<lambda>m. ms_id m = i"]) (auto simp: remove_messages_def)
next
  case MemoryEntity
  then show ?thesis
    using assms(2) by (intro that [of "\<lambda>_. False"]) (auto simp: Let_def list_ex_iff split: if_splits)
qed

lemma removal_mirrors:
  assumes inv: "chat_inv st" and ms: "mirrors c st ms"
    and st': "st_messages st' = filter (\<lambda>m. \<not> p m) (st_messages st)"
      "st_variants st' = filter (\<lambda>x. \<not> list_ex (\<lambda>m. p m \<and> ms_id m = vr_message x) (st_messages st)) (st_variants st)"
    and q: "\<And>m. m \<in> set (timeline c st) \<Longrightarrow> p m \<longleftrightarrow> q (ms_id m)"
  shows "mirrors c st' (filter (\<lambda>s. \<not> q (sm_id s)) ms)"
proof -
  have uniq: "m = m'" if "m \<in> set (st_messages st)" "m' \<in> set (st_messages st)" "ms_id m = ms_id m'" for m m'
    using inv that unfolding chat_inv_def distinct_map by (metis inj_onD)
  have "timeline c st' = filter (\<lambda>m. \<not> p m) (timeline c st)"
    unfolding timeline_def st'(1) filter_filter by (rule filter_cong) auto
  moreover have "list_all2 (agrees st) (filter (\<lambda>s. \<not> q (sm_id s)) ms) (filter (\<lambda>m. \<not> p m) (timeline c st))"
    using ms q unfolding mirrors_def by (intro list_all2_filter) (auto simp: agrees_def)
  moreover have "agrees st' s m" if "agrees st s m" "m \<in> set (timeline c st)" "\<not> p m" for s m
  proof -
    have "m \<in> set (st_messages st)" using that(2) timeline_sub by blast
    then have "\<not> list_ex (\<lambda>m'. p m' \<and> ms_id m' = ms_id m) (st_messages st)"
      using uniq that(3) unfolding list_ex_iff by metis
    then have "{x \<in> set (st_variants st'). vr_message x = ms_id m} = {x \<in> set (st_variants st). vr_message x = ms_id m}"
      by (auto simp: st'(2))
    then show ?thesis using that(1) by (simp add: agrees_def)
  qed
  ultimately show ?thesis unfolding mirrors_def by (auto elim: list.rel_mono_strong)
qed

lemma removal_inv:
  assumes "chat_inv st" "\<forall>d \<in> set (st_deltas st'). dl_revision d \<le> st_revision st'"
    "st_messages st' = filter (\<lambda>m. \<not> p m) (st_messages st)"
    "st_variants st' = filter (\<lambda>x. \<not> list_ex (\<lambda>m. p m \<and> ms_id m = vr_message x) (st_messages st)) (st_variants st)"
  shows "chat_inv st'"
proof -
  have "vr_message x \<in> ms_id ` set (st_messages st')" if x: "x \<in> set (st_variants st')" for x
  proof -
    obtain m where m: "m \<in> set (st_messages st)" "vr_message x = ms_id m"
      using assms(1,4) x unfolding chat_inv_def by (metis (no_types, lifting) filter_is_subset image_iff subsetD)
    then have "\<not> p m" using x by (auto simp: assms(4) list_ex_iff)
    then show ?thesis using m assms(3) by auto
  qed
  then show ?thesis using assms by (auto simp: chat_inv_def distinct_map_filter)
qed

lemma delete_entity_cases:
  assumes "delete_entity v kind i now st = (r, sent, st')"
  obtains "st' = st" "sent = []" "\<exists>e. r = Inl e"
  | promoted st1 deleted st2 ds1 ds2 where
    "promote_memories v now promoted [] st = (ds1, st1)" "delete_owned_entity v kind i st1 = Inr (deleted, st2)"
    "log_deletions v deleted ds1 st2 = (sent, st')" "sent = ds1 @ ds2" "\<exists>n. r = Inr (i, n)"
    "kind \<noteq> ConversationEntity \<Longrightarrow> promoted = []"
    "kind = ConversationEntity \<Longrightarrow> list_memories v (Some i) None st = Inr promoted"
proof (cases "if kind = ConversationEntity then list_memories v (Some i) None st else Inr []")
  case (Inl e)
  then show ?thesis using assms that(1) by (auto simp: delete_entity_def refuse_def)
next
  case (Inr promoted)
  obtain ds1 st1 where p: "promote_memories v now promoted [] st = (ds1, st1)" by fastforce
  show ?thesis
  proof (cases "delete_owned_entity v kind i st1")
    case (Inl e)
    then show ?thesis using assms that(1) Inr p by (auto simp: delete_entity_def refuse_def)
  next
    case (Inr x)
    obtain deleted st2 where x: "x = (deleted, st2)" by fastforce
    obtain sent' st3 where l: "log_deletions v deleted ds1 st2 = (sent', st3)" by fastforce
    have e: "sent' = sent" "st3 = st'" "\<exists>n. r = Inr (i, n)"
      using assms \<open>_ = Inr promoted\<close> p Inr x l by (auto simp: delete_entity_def)
    obtain ds2 where "sent' = ds1 @ ds2" using log_deletions_grow [OF l] by blast
    moreover have "kind \<noteq> ConversationEntity \<Longrightarrow> promoted = []"
      "kind = ConversationEntity \<Longrightarrow> list_memories v (Some i) None st = Inr promoted"
      using \<open>_ = Inr promoted\<close> by (simp_all split: if_splits)
    ultimately show ?thesis
      using that(2) [OF p Inr [unfolded x]] l e by blast
  qed
qed

lemma delete_entity_mirrored:
  assumes inv: "chat_inv st" "owned_by c u st"
  shows "mirrored c u st (snd (snd (delete_entity v kind i now st)))"
proof -
  obtain r sent st' where e: "delete_entity v kind i now st = (r, sent, st')" by (metis prod_cases3)
  from e show ?thesis
  proof (cases rule: delete_entity_cases)
    case 1
    then show ?thesis using e inv by (simp add: mirrored_refl)
  next
    case (2 promoted st1 deleted st2 ds1 ds2)
    have ds1: "grows st ds1 st1" "\<forall>d \<in> set ds1. dl_type d = ''memory''" "st_messages st1 = st_messages st"
      "st_variants st1 = st_variants st" "st_conversations st1 = st_conversations st"
      using promote_memories_grow [OF 2(1)] by auto
    have inv1: "chat_inv st1" using chat_inv_quiet [OF inv(1) ds1(1,3,4)] .
    obtain p where p: "st_messages st2 = filter (\<lambda>m. \<not> p m) (st_messages st1)"
      "st_variants st2 = filter (\<lambda>x. \<not> list_ex (\<lambda>m. p m \<and> ms_id m = vr_message x) (st_messages st1)) (st_variants st1)"
      "\<forall>m \<in> set (st_messages st1). p m \<longleftrightarrow> (''message'', ms_id m) \<in> set deleted"
      "\<forall>m \<in> set (st_messages st1). p m \<longrightarrow> own_conversation v (ms_conversation m) st1"
      "set (st_conversations st2) \<subseteq> set (st_conversations st1)" "st_deltas st2 = st_deltas st1" "st_revision st2 = st_revision st1"
      by (rule delete_owned_removes [OF inv1 2(2)])
    have ds2: "grows st2 ds2 st'" "map (\<lambda>d. (dl_type d, dl_id d)) ds2 = deleted" "\<forall>d \<in> set ds2. dl_owner d = v \<and> dl_op d = Delete"
      "st_messages st' = st_messages st2" "st_variants st' = st_variants st2" "st_conversations st' = st_conversations st2"
      using log_deletions_grow [OF 2(3)] 2(4) by auto
    have g: "grows st1 ds2 st'" using ds2(1) p(6,7) by (simp add: grows_def)
    have own': "owned_by c u st'" using inv(2) p(5) ds1(5) ds2(6) by (auto simp: owned_by_def)
    have owner: "p m \<Longrightarrow> v = u" if "m \<in> set (timeline c st1)" for m
      using that p(4) owner_of [of v c st1 u] inv(2) ds1(5) by (auto simp: timeline_def owned_by_def)
    have "mirrors c st' (fold (shown_step (Some c)) (filter (\<lambda>d. dl_owner d = u) (ds1 @ ds2)) ms)" if ms: "mirrors c st ms" for ms
    proof -
      define ms1 where "ms1 = fold (shown_step (Some c)) (filter (\<lambda>d. dl_owner d = u) ds1) ms"
      have ms1: "mirrors c st1 ms1" unfolding ms1_def using ds1(2) by (intro mirrors_quiet [OF ms ds1(3,4)]) auto
      show ?thesis
      proof (cases "v = u")
        case True
        have "fold (shown_step (Some c)) (filter (\<lambda>d. dl_owner d = u) ds2) ms1 = filter (\<lambda>s. \<not> (''message'', sm_id s) \<in> set deleted) ms1"
          using shown_deletions [of ds2 "Some c" ms1] ds2(2,3) True by simp
        moreover have "mirrors c st' (filter (\<lambda>s. \<not> (''message'', sm_id s) \<in> set deleted) ms1)"
          using p(1-3) ds2(4,5) timeline_sub [of c st1]
          by (intro removal_mirrors [OF inv1 ms1, of st' p "\<lambda>x. (''message'', x) \<in> set deleted"]) auto
        ultimately show ?thesis by (simp add: ms1_def)
      next
        case False
        then have "filter (\<lambda>d. dl_owner d = u) ds2 = []" using ds2(3) by (auto simp: filter_empty_conv)
        moreover have "mirrors c st' (filter (\<lambda>s. \<not> False) ms1)"
          using p(1,2) ds2(4,5) owner False by (intro removal_mirrors [OF inv1 ms1, of st' p "\<lambda>_. False"]) auto
        ultimately show ?thesis by (simp add: ms1_def)
      qed
    qed
    moreover have "grows st (ds1 @ ds2) st'" using grows_trans [OF ds1(1) g] .
    moreover have "chat_inv st'" using removal_inv [OF inv1 grows_bound [OF inv1 g], of p] p(1,2) ds2(4,5) by simp
    ultimately have "mirrored c u st st'" using own' by (intro mirroredI [of st' c u st "ds1 @ ds2"])
    then show ?thesis using e by simp
  qed
qed

section \<open>Requests that touch no message\<close>

definition owner_pairs :: "store \<Rightarrow> (string \<times> string) set" where
  "owner_pairs st = (\<lambda>r. (co_id r, co_owner r)) ` set (st_conversations st)"

definition quiet_change :: "(string \<times> string) set \<Rightarrow> store \<Rightarrow> store \<Rightarrow> bool" where
  "quiet_change N st st' \<longleftrightarrow>
     st_messages st' = st_messages st \<and> st_variants st' = st_variants st \<and> owner_pairs st' \<subseteq> owner_pairs st \<union> N
     \<and> (\<exists>ds. grows st ds st' \<and> (\<forall>d \<in> set ds. dl_type d \<noteq> ''message'' \<and> dl_type d \<noteq> ''variant''))"

lemma quiet_refl [simp]: "quiet_change N st st"
  unfolding quiet_change_def by (intro conjI exI [of _ "[]"]) auto

lemma quiet_trans:
  assumes "quiet_change M a b" "quiet_change N b c" shows "quiet_change (M \<union> N) a c"
proof -
  obtain xs ys where x: "grows a xs b" "\<forall>d \<in> set xs. dl_type d \<noteq> ''message'' \<and> dl_type d \<noteq> ''variant''"
    and y: "grows b ys c" "\<forall>d \<in> set ys. dl_type d \<noteq> ''message'' \<and> dl_type d \<noteq> ''variant''"
    using assms unfolding quiet_change_def by blast
  have "\<exists>ds. grows a ds c \<and> (\<forall>d \<in> set ds. dl_type d \<noteq> ''message'' \<and> dl_type d \<noteq> ''variant'')"
    using grows_trans [OF x(1) y(1)] x(2) y(2) by (intro exI [of _ "xs @ ys"]) auto
  then show ?thesis using assms unfolding quiet_change_def by auto
qed

lemma quiet_log:
  assumes "log_delta v ty i op p st = (d, st1)" "ty \<noteq> ''message''" "ty \<noteq> ''variant''"
    and "st_messages st' = st_messages st1" "st_variants st' = st_variants st1" "st_deltas st' = st_deltas st1"
      "st_revision st' = st_revision st1" "owner_pairs st' \<subseteq> owner_pairs st \<union> N"
  shows "quiet_change N st st'"
  unfolding quiet_change_def using assms log_delta_simps [OF assms(1)] grows_log [OF assms(1)]
  by (intro conjI exI [of _ "[d]"]) (auto simp: grows_def)

lemma mirrored_of_quiet:
  assumes "chat_inv st" "owned_by c u st" "quiet_change N st st'" "\<And>w. (c, w) \<in> N \<Longrightarrow> w = u"
  shows "mirrored c u st st'"
proof -
  have "owned_by c u st'" using assms(2-4) by (fastforce simp: owned_by_def quiet_change_def owner_pairs_def)
  then show ?thesis using assms(1,3) mirrored_quiet unfolding quiet_change_def by blast
qed

lemma owner_pairs_map:
  "(\<And>r. co_id (f r) = co_id r \<and> co_owner (f r) = co_owner r) \<Longrightarrow> owner_pairs (st\<lparr> st_conversations := map f (st_conversations st) \<rparr>) = owner_pairs st"
  by (force simp: owner_pairs_def image_image)

lemma owner_pairs_log [simp]: "log_delta v ty i op p st = (d, st1) \<Longrightarrow> owner_pairs st1 = owner_pairs st"
  by (simp add: owner_pairs_def log_delta_simps)

lemma default_participant_quiet:
  assumes "default_participant v i st = (r, sent, st')" shows "quiet_change {} st st'"
proof (cases "first_character v st = None \<and> \<not> list_ex (\<lambda>r. ca_id r = i) (st_characters st)")
  case True
  obtain d st1 where l: "log_delta v ''character'' i Add (CharacterPayload (default_character i)) st = (d, st1)" by fastforce
  then show ?thesis using assms True by (auto simp: default_participant_def owner_pairs_def log_delta_simps intro!: quiet_log [OF l])
next
  case False
  then have "st' = st" using assms by (auto simp: default_participant_def split: option.splits if_splits)
  then show ?thesis by simp
qed

lemma insert_conversation_quiet:
  "quiet_change {(i, v)} st (snd (snd (insert_conversation v i title kind ps sent st)))"
proof -
  obtain d st1 where l: "log_delta v ''conversation'' i Add (ConversationPayload title kind ps [] []) st = (d, st1)" by fastforce
  then show ?thesis
    by (auto simp: insert_conversation_def owner_pairs_def log_delta_simps(4) [OF l] intro!: quiet_log [OF l])
qed

lemma create_conversation_quiet:
  "quiet_change {(i, v)} st (snd (snd (create_conversation v i ch title kind ps st)))"
proof (cases "ps = [] \<and> kind = Direct")
  case True
  obtain r sent st1 where d: "default_participant v ch st = (r, sent, st1)" by (metis prod_cases3)
  have "quiet_change ({} \<union> {(i, v)}) st (snd (snd (insert_conversation v i title kind [p] sent st1)))" for p
    using quiet_trans [OF default_participant_quiet [OF d] insert_conversation_quiet] .
  moreover have "quiet_change ({} \<union> {(i, v)}) st st1" using quiet_trans [OF default_participant_quiet [OF d] quiet_refl] .
  ultimately show ?thesis using True d by (auto simp: create_conversation_def split: sum.splits)
next
  case False
  then show ?thesis using insert_conversation_quiet by (auto simp: create_conversation_def)
qed

lemma update_conversation_quiet: "quiet_change {} st (snd (snd (update_conversation v c title kind ps st)))"
proof (cases "find_conversation v c st")
  case (Some row)
  obtain d st1 where l: "log_delta v ''conversation'' c Update (ConversationPayload title kind ps (co_state row) (co_summary row)) st = (d, st1)"
    by fastforce
  then show ?thesis
    using Some by (auto simp: update_conversation_def update_conversation_row_def owner_pairs_map intro!: quiet_log [OF l])
qed (simp add: update_conversation_def)

lemma update_conversation_state_quiet: "quiet_change {} st (snd (snd (update_conversation_state v c state summary st)))"
proof -
  obtain d st1 where l: "log_delta v ''conversation'' c Update (ContextPayload state summary) st = (d, st1)" by fastforce
  then show ?thesis
    by (auto simp: update_conversation_state_def update_conversation_row_def owner_pairs_map intro!: quiet_log [OF l])
qed

lemma name_chat_quiet: "quiet_change {} st (snd (name_chat v row msg reply st))"
proof -
  define title where "title = (case reply of Some t \<Rightarrow> clean_chat_title t msg | None \<Rightarrow> fallback_chat_title msg)"
  define ps where "ps = (case find (\<lambda>r. co_id r = co_id row) (st_conversations st) of None \<Rightarrow> [] | Some r \<Rightarrow> co_participants r)"
  obtain d st1 where l: "log_delta v ''conversation'' (co_id row) Update
      (ConversationPayload title (co_kind row) ps (co_state row) (co_summary row)) st = (d, st1)"
    by fastforce
  then show ?thesis
    unfolding name_chat_def Let_def title_def [symmetric] ps_def [symmetric]
    by (auto simp: owner_pairs_map intro!: quiet_log [OF l])
qed

lemma quiet_log_worlds:
  "quiet_change {} st (snd (snd (case log_delta v ''world'' i op p st of (d, st1) \<Rightarrow> (r d, sent d, st1\<lparr> st_worlds := ws d \<rparr>))))"
proof -
  obtain d st1 where l: "log_delta v ''world'' i op p st = (d, st1)" by fastforce
  then show ?thesis by (auto simp: owner_pairs_def log_delta_simps(4) [OF l] intro!: quiet_log [OF l])
qed

lemma save_world_quiet: "quiet_change {} st (snd (snd (save_world bytes v i w st)))"
  by (simp add: save_world_def Let_def quiet_log_worlds split: sum.split)

lemma delete_world_quiet: "quiet_change {} st (snd (snd (delete_world v i st)))"
proof -
  obtain d st1 where l: "log_delta v ''world'' i Delete EmptyPayload st = (d, st1)" by fastforce
  then show ?thesis by (auto simp: delete_world_def owner_pairs_def log_delta_simps(4) [OF l] intro!: quiet_log [OF l])
qed

lemma link_worlds_quiet: "link_worlds v i wanted rs sent st = (r, st') \<Longrightarrow> quiet_change {} st st'"
proof (induction rs arbitrary: sent st)
  case (Cons x rs)
  define w where "w = (wr_data x)\<lparr> wo_characters := filter (\<lambda>c. c \<noteq> i) (wo_characters (wr_data x)) @
    (if wo_id (wr_data x) \<in> set wanted then [i] else []) \<rparr>"
  obtain d st1 where l: "log_delta v ''world'' (wo_id w) Update (WorldPayload w) st = (d, st1)" by fastforce
  have q: "quiet_change {} st (st1\<lparr> st_worlds := ys \<rparr>)" for ys
    using l by (auto simp: owner_pairs_def log_delta_simps(4) [OF l] intro!: quiet_log [OF l])
  consider "link_worlds v i wanted rs sent st = (r, st')" | "st' = st"
    | ys where "link_worlds v i wanted rs (sent @ [d]) (st1\<lparr> st_worlds := ys \<rparr>) = (r, st')"
    using Cons.prems l unfolding link_worlds.simps Let_def w_def [symmetric]
    by (auto split: if_splits sum.splits)
  then show ?case
  proof cases
    case (3 ys)
    then show ?thesis using quiet_trans [OF q Cons.IH] by simp
  qed (use Cons.IH in auto)
qed simp

lemma save_memory_quiet: "quiet_change {} st (snd (snd (save_memory v i now m source confidence ids st)))"
proof (cases "persist_memory (store_access st) i now v m source confidence ids \<lparr> db_memories = st_memories st, db_revision = st_revision st \<rparr>")
  case (Pair r db)
  show ?thesis
  proof (cases r)
    case (Inr x)
    obtain entry op where x: "x = (entry, op)" by fastforce
    obtain d st1 where l: "log_delta v ''memory'' (me_id entry) op (MemoryPayload (entry\<lparr> me_revision := 0 \<rparr>)) st = (d, st1)" by fastforce
    then show ?thesis
      using Pair Inr x by (auto simp: save_memory_def owner_pairs_def log_delta_simps(4) [OF l] intro!: quiet_log [OF l])
  qed (use Pair in \<open>simp add: save_memory_def\<close>)
qed

lemma condense_stored_quiet: "quiet_change {} st (snd (snd (condense_stored en v c ch kind seen st)))"
proof (cases "condense_memories en v c ch kind seen \<lparr> db_memories = st_memories st, db_revision = st_revision st \<rparr>")
  case (Pair r db)
  show ?thesis
  proof (cases r)
    case (Inr x)
    define ds where "ds = map (condense_delta v (db_memories db)) (cd_deltas x)"
    note n = condense_memories_numbered [OF Pair [unfolded Inr]]
    have "\<forall>d \<in> set ds. st_revision st < dl_revision d \<and> dl_revision d \<le> db_revision db \<and> dl_type d = ''memory''"
      using n by (auto simp: ds_def condense_delta_def)
    then have "quiet_change {} st (st\<lparr> st_memories := db_memories db, st_deltas := st_deltas st @ ds, st_revision := db_revision db \<rparr>)"
      unfolding quiet_change_def using n by (intro conjI exI [of _ ds]) (auto simp: grows_def owner_pairs_def)
    then show ?thesis using Pair Inr by (simp add: condense_stored_def Let_def ds_def)
  qed (use Pair in \<open>simp add: condense_stored_def\<close>)
qed

lemma set_character_public_quiet: "quiet_change {} st (snd (snd (set_character_public i public st)))"
  unfolding quiet_change_def
  by (intro conjI exI [of _ "[]"]) (auto simp: set_character_public_def owner_pairs_def)

lemma save_character_quiet: "quiet_change {} st (snd (snd (save_character v i op c ws st)))"
proof -
  define p where "p = CharacterPayload (c\<lparr> ch_owned_by_user := True, ch_avatar := None, ch_images := [], ch_default_image := None \<rparr>)"
  obtain d st1 where l: "log_delta v ''character'' i op p st = (d, st1)" by fastforce
  define st2 where "st2 = store_character v i c (dl_revision d) st1"
  have q: "quiet_change {} st st2"
    unfolding st2_def using l by (auto simp: store_character_def Let_def owner_pairs_def log_delta_simps(4) [OF l] intro!: quiet_log [OF l])
  obtain r st3 where w: "link_worlds v i ws (sort_key wr_id (filter (\<lambda>r. wr_owner r = v) (st_worlds st2))) [] st2 = (r, st3)" by fastforce
  have "quiet_change ({} \<union> {}) st st3" using quiet_trans [OF q link_worlds_quiet [OF w]] .
  then show ?thesis using l w by (simp add: save_character_def Let_def p_def [symmetric] st2_def [symmetric] split: sum.split)
qed

lemma upsert_character_quiet: "quiet_change {} st (snd (snd (upsert_character png b v i c ws st)))"
  by (simp add: upsert_character_def Let_def save_character_quiet split: sum.split)

section \<open>Deleting another account\<close>

lemma delete_user_mirrored:
  assumes inv: "chat_inv st" "owned_by c u st" and other: "user \<noteq> u"
  shows "mirrored c u st (snd (snd (delete_user known admin user st)))"
proof -
  define chats where "chats = map co_id (filter (\<lambda>r. co_owner r = user) (st_conversations st))"
  define p :: "stored_message \<Rightarrow> bool" where "p = (\<lambda>m. ms_conversation m \<in> set chats)"
  define st' where "st' = snd (snd (delete_user known admin user st))"
  have "mirrored c u st st'" if changed: "st' \<noteq> st"
  proof -
    have st': "st_messages st' = filter (\<lambda>m. \<not> p m) (st_messages st)"
      "st_variants st' = filter (\<lambda>x. \<not> list_ex (\<lambda>m. p m \<and> ms_id m = vr_message x) (st_messages st)) (st_variants st)"
      "st_deltas st' = filter (\<lambda>d. dl_owner d \<noteq> user) (st_deltas st)" "st_revision st' = st_revision st"
      "owner_pairs st' \<subseteq> owner_pairs st"
      using changed
      by (auto simp: st'_def delete_user_def Let_def p_def chats_def remove_messages_def owner_pairs_def image_image split: if_splits)
    have none: "\<not> p m" if "m \<in> set (timeline c st)" for m
      using that inv(2) other by (auto simp: p_def chats_def timeline_def owned_by_def)
    have "owned_by c u st'" using inv(2) st'(5) by (fastforce simp: owned_by_def owner_pairs_def)
    moreover have "chat_inv st'" using removal_inv [OF inv(1) _ st'(1,2)] inv(1) st'(3,4) by (auto simp: chat_inv_def)
    moreover have "grows_for u st [] st'" using other st'(3,4) by (auto simp: grows_for_def log_of_def intro: filter_cong)
    moreover have "mirrors c st' ms" if "mirrors c st ms" for ms
      using removal_mirrors [OF inv(1) that st'(1,2), of "\<lambda>_. False"] none by simp
    ultimately show ?thesis unfolding mirrored_def by (metis fold_simps(1))
  qed
  then show ?thesis using mirrored_refl [OF inv] unfolding st'_def [symmetric] by (cases "st' = st") auto
qed

section \<open>Every request is mirrored\<close>

text \<open>The requests the result is about: no selection of a variant, no new conversation that takes the chat's id, and no
  deletion of the account itself.\<close>

fun mirrored_request :: "string \<Rightarrow> string \<Rightarrow> chat_request \<Rightarrow> bool" where
  "mirrored_request c u (SelectVariant i v) = False"
| "mirrored_request c u (CreateConversation i ch title kind ps) = (i \<noteq> c)"
| "mirrored_request c u (AdminDeleteUser known user) = (user \<noteq> u)"
| "mirrored_request c u _ = True"

lemma chat_step_mirrored:
  assumes inv: "chat_inv st" "owned_by c u st" and ok: "mirrored_request c u op"
  shows "mirrored c u st (chat_step bytes png (v, op) st)"
proof -
  note quiet = mirrored_of_quiet [OF inv]
  have ins: "mirrored c u st (snd (snd (insert_message v (new_message i c' ty a content picture now) st)))"
    if "own_conversation v c' st" for i c' ty a content picture now
    using insert_message_mirrored [OF inv, of "new_message i c' ty a content picture now" v] that by (simp add: new_message_def)
  note refl = mirrored_refl [OF inv]
  show ?thesis
  proof (cases op)
    case (CreateConversation i ch title kind ps)
    then show ?thesis using ok quiet [OF create_conversation_quiet] by simp
  next
    case (UpdateConversation c' title kind ps)
    then show ?thesis using quiet [OF update_conversation_quiet] by simp
  next
    case (UpdateConversationState c' state summary)
    then show ?thesis using quiet [OF update_conversation_state_quiet] by simp
  next
    case (NameChat row msg reply)
    then show ?thesis using quiet [OF name_chat_quiet] by simp
  next
    case (SendMessage c' i content speaker now)
    then show ?thesis using ins refl by (auto simp: send_message_def own_conversation_def split: option.splits)
  next
    case (SendSystemMessage c' i content now)
    then show ?thesis using ins refl by (auto simp: send_system_message_def)
  next
    case (SaveSceneImage c' i depicted now)
    then show ?thesis using ins refl by (auto simp: save_scene_image_def)
  next
    case (SaveGeneration c' s i content parent picture now)
    then show ?thesis using save_generation_mirrored [OF inv] refl by simp
  next
    case (UpsertCharacter b i ch ws)
    then show ?thesis using quiet [OF upsert_character_quiet] by simp
  next
    case (SaveWorld i w)
    then show ?thesis using quiet [OF save_world_quiet] by simp
  next
    case (DeleteWorld i)
    then show ?thesis using quiet [OF delete_world_quiet] by simp
  next
    case (UpsertMemory i now m)
    then show ?thesis using quiet [OF save_memory_quiet] by (simp add: upsert_memory_def)
  next
    case (SaveMemory i now m source confidence ids)
    then show ?thesis using quiet [OF save_memory_quiet] by simp
  next
    case (CondenseMemories en c' ch kind seen)
    then show ?thesis using quiet [OF condense_stored_quiet] by simp
  next
    case (PersistPortrait job picture)
    then show ?thesis using persist_portrait_mirrored [OF inv] by simp
  next
    case (AdminDeleteUser known user)
    then show ?thesis using ok delete_user_mirrored [OF inv] by simp
  next
    case (AdminSetCharacterPublic i public)
    then show ?thesis using quiet [OF set_character_public_quiet] by simp
  qed (use ok update_message_mirrored [OF inv] delete_entity_mirrored [OF inv] in simp_all)
qed

lemma mirrored_trans:
  assumes "mirrored c u a b" "mirrored c u b z" shows "mirrored c u a z"
proof -
  obtain xs where x: "grows_for u a xs b" "\<And>ms. mirrors c a ms \<Longrightarrow> mirrors c b (fold (shown_step (Some c)) xs ms)"
    using assms(1) unfolding mirrored_def by blast
  obtain ys where y: "grows_for u b ys z" "\<And>ms. mirrors c b ms \<Longrightarrow> mirrors c z (fold (shown_step (Some c)) ys ms)"
    using assms(2) unfolding mirrored_def by blast
  have "mirrors c z (fold (shown_step (Some c)) (xs @ ys) ms)" if "mirrors c a ms" for ms
    using y(2) [OF x(2) [OF that]] by simp
  then show ?thesis using grows_for_trans [OF x(1) y(1)] assms(2) unfolding mirrored_def by blast
qed

lemma chat_run_mirrored:
  assumes "chat_inv st" "owned_by c u st" "\<forall>x \<in> set ops. mirrored_request c u (snd x)"
  shows "mirrored c u st (chat_run bytes png ops st)"
  using assms
proof (induction ops arbitrary: st)
  case Nil
  then show ?case by (simp add: chat_run_def mirrored_refl)
next
  case (Cons x ops)
  have step: "mirrored c u st (chat_step bytes png x st)"
    using chat_step_mirrored [OF Cons.prems(1,2), of "snd x" bytes png "fst x"] Cons.prems(3) by simp
  then have "mirrored c u (chat_step bytes png x st) (chat_run bytes png ops (chat_step bytes png x st))"
    using Cons by (intro Cons.IH) (auto simp: mirrored_def)
  then show ?case using mirrored_trans [OF step] by (simp add: chat_run_def)
qed

lemma sync_deltas_new:
  assumes "chat_inv st" "grows_for u st ds st'"
  shows "sync_deltas u (st_revision st) st' = ds"
proof -
  have "sync_deltas u (st_revision st) st' = filter (\<lambda>d. st_revision st < dl_revision d) (log_of u st')"
    by (simp add: sync_deltas_def log_of_def conj_commute)
  also have "\<dots> = filter (\<lambda>d. st_revision st < dl_revision d) (log_of u st) @ filter (\<lambda>d. st_revision st < dl_revision d) ds"
    using assms(2) by (simp add: grows_for_def)
  also have "filter (\<lambda>d. st_revision st < dl_revision d) (log_of u st) = []"
    using assms(1) by (auto simp: chat_inv_def log_of_def filter_empty_conv)
  also have "filter (\<lambda>d. st_revision st < dl_revision d) ds = ds"
    using assms(2) by (simp add: grows_for_def filter_id_conv)
  finally show ?thesis by simp
qed

lemma opened_mirrors:
  assumes "load_owned_conversation c u st = Some v" "length (timeline c st) \<le> VIEW_MESSAGES"
  shows "mirrors c st (snd v)" "co_id (fst v) = c"
  using assms
  by (auto simp: load_owned_conversation_def mirrors_def list_all2_conv_all_nth agrees_show find_conversation_def find_Some_iff)

text \<open>
  C17: A client that opened a chat and then applied the deltas \<open>Sync\<close> gives for the revision at which it opened it shows the
  chat's messages as the tables hold them: the same messages in the same order with the same text, author, selected
  variant, portrait, revision and set of variants.  The requests between may be of any users and any number, may fail,
  and may delete messages, the chat itself or other accounts; memories that are extracted or condensed and portraits
  that are chosen meanwhile count among them.  None of them selects a variant or deletes the client's own account, and
  the chat had at most the 2000 messages a view holds.
\<close>

theorem open_chat_mirrors:
  assumes "chat_inv st" "owned_by c u st" "load_owned_conversation c u st = Some v" "length (timeline c st) \<le> VIEW_MESSAGES"
    and "\<forall>x \<in> set ops. mirrored_request c u (snd x)" and "st' = chat_run bytes png ops st"
  shows "list_all2 (agrees st') (gu_messages (fold apply_delta (sync_deltas u (st_revision st) st') (open_view v g))) (timeline c st')"
proof -
  obtain ds where ds: "grows_for u st ds st'" "\<And>ms. mirrors c st ms \<Longrightarrow> mirrors c st' (fold (shown_step (Some c)) ds ms)"
    using chat_run_mirrored [OF assms(1,2,5)] assms(6) unfolding mirrored_def by blast
  show ?thesis
    using ds(2) [OF opened_mirrors(1) [OF assms(3,4)]] opened_mirrors(2) [OF assms(3,4)]
    by (simp add: sync_deltas_new [OF assms(1) ds(1)] apply_deltas_shown open_view_def mirrors_def)
qed

definition chat_start :: store where
  "chat_start = \<lparr> st_characters = [],
     st_conversations = [\<lparr> co_id = ''c'', co_owner = ''u'', co_title = ''New chat'', co_kind = Direct, co_participants = [''ada''],
       co_state = ''calm'', co_summary = [], co_revision = 1 \<rparr>],
     st_messages = [\<lparr> ms_id = ''m1'', ms_conversation = ''c'', ms_author_type = ''character'', ms_author = Some ''ada'',
       ms_content = ''Hello'', ms_parent = None, ms_selected = None, ms_image = None, ms_created = ''t1'', ms_revision = 2 \<rparr>],
     st_variants = [], st_memories = [], st_worlds = [], st_deltas = [], st_revision = 2 \<rparr>"

definition chat_opened :: gui where
  "chat_opened = open_view (the (load_owned_conversation ''c'' ''u'' chat_start))
     \<lparr> gu_selected = None, gu_messages = [], gu_worlds = [], gu_memories = [], gu_context = {}, gu_state = (\<lambda>_. None), gu_revision = 0 \<rparr>"

definition chat_requests :: "(string \<times> chat_request) list" where
  "chat_requests = [(''u'', SendMessage ''c'' ''m2'' ''Hi'' None ''t2''), (''w'', UpdateMessage ''m2'' ''taken''),
     (''u'', SaveGeneration ''c'' ''ada'' ''v1'' ''Good day'' (Some ''m1'') None ''t3''),
     (''u'', PersistPortrait \<lparr> pj_owner = ''u'', pj_message = ''m1'', pj_generation = ''v1'', pj_reply = ''Good day'',
       pj_portraits = [(''p1'', ''happy'')], pj_current = None \<rparr> ''p1''),
     (''z'', AdminDeleteUser True ''w''), (''u'', UpdateMessage ''m2'' ''Hi there''),
     (''u'', DeleteEntity MessageEntity ''m2'' ''t4''), (''u'', SendSystemMessage ''c'' ''m3'' ''Later'' ''t5'')]"

theorem open_chat_mirrors_witness:
  "list_all2 (agrees (chat_run (\<lambda>_. 0) (\<lambda>_. None) chat_requests chat_start))
     (gu_messages (fold apply_delta (sync_deltas ''u'' 2 (chat_run (\<lambda>_. 0) (\<lambda>_. None) chat_requests chat_start)) chat_opened))
     (timeline ''c'' (chat_run (\<lambda>_. 0) (\<lambda>_. None) chat_requests chat_start))
   \<and> map (\<lambda>m. (ms_content m, ms_image m)) (timeline ''c'' (chat_run (\<lambda>_. 0) (\<lambda>_. None) chat_requests chat_start))
       = [(''Hello'', Some ''p1''), (''Later'', None)]"
proof
  have "chat_inv chat_start" "owned_by ''c'' ''u'' chat_start" "length (timeline ''c'' chat_start) \<le> VIEW_MESSAGES"
    "list_all (\<lambda>x. mirrored_request ''c'' ''u'' (snd x)) chat_requests" "load_owned_conversation ''c'' ''u'' chat_start \<noteq> None"
    by code_simp+
  then show "list_all2 (agrees (chat_run (\<lambda>_. 0) (\<lambda>_. None) chat_requests chat_start))
     (gu_messages (fold apply_delta (sync_deltas ''u'' 2 (chat_run (\<lambda>_. 0) (\<lambda>_. None) chat_requests chat_start)) chat_opened))
     (timeline ''c'' (chat_run (\<lambda>_. 0) (\<lambda>_. None) chat_requests chat_start))"
    using open_chat_mirrors [of chat_start "''c''" "''u''" _ chat_requests _ "\<lambda>_. 0" "\<lambda>_. None"]
    by (auto simp: chat_opened_def list_all_iff chat_start_def [THEN arg_cong [where f = st_revision], simplified])
  show "map (\<lambda>m. (ms_content m, ms_image m)) (timeline ''c'' (chat_run (\<lambda>_. 0) (\<lambda>_. None) chat_requests chat_start))
       = [(''Hello'', Some ''p1''), (''Later'', None)]"
    by code_simp
qed

text \<open>
  The selection of a variant reaches no other client: the row is changed and the delta logged and sent, but a client
  that applies it shows every message as before.
\<close>

theorem selection_not_shown:
  assumes "select_variant u i v st = (Inr r, ds, st')"
  shows "gu_messages (fold apply_delta ds g) = gu_messages g
    \<and> (\<exists>m \<in> set (st_messages st'). ms_id m = i \<and> ms_selected m = (if v \<noteq> i then Some v else None))"
proof -
  obtain m where m: "find_message u i st = Some m" using assms by (auto simp: select_variant_def refuse_def split: option.splits)
  define selected where "selected = (if v \<noteq> i then Some v else None)"
  obtain d st1 where l: "log_delta u ''message'' i Update (SelectionPayload selected) st = (d, st1)" by fastforce
  have e: "ds = [d]" "st_messages st' = map (\<lambda>r. if ms_id r = i then r\<lparr> ms_selected := selected, ms_revision := dl_revision d \<rparr> else r) (st_messages st)"
    using assms m l log_delta_simps(2) [OF l] unfolding select_variant_def selected_def [symmetric]
    by (auto simp: refuse_def update_message_row_def split: if_splits)
  have "gu_messages (fold apply_delta ds g) = gu_messages g"
    using log_delta_simps(1) [OF l] unfolding apply_deltas_shown e(1) by (simp add: shown_step_def apply_message_def)
  moreover have "m\<lparr> ms_selected := selected, ms_revision := dl_revision d \<rparr> \<in> set (st_messages st')"
    using find_messageD [OF m] unfolding e(2) by force
  ultimately show ?thesis using find_messageD [OF m] unfolding selected_def [symmetric] by (intro conjI bexI) simp_all
qed

definition chat_varied :: store where
  "chat_varied = chat_run (\<lambda>_. 0) (\<lambda>_. None) [(''u'', SaveGeneration ''c'' ''ada'' ''v1'' ''Good day'' (Some ''m1'') None ''t3'')] chat_start"

theorem selection_not_shown_witness:
  "map sm_selected (gu_messages (fold apply_delta (fst (snd (select_variant ''u'' ''m1'' ''m1'' chat_varied)))
      (open_view (the (load_owned_conversation ''c'' ''u'' chat_varied)) chat_opened))) = [Some ''v1'']
   \<and> map ms_selected (timeline ''c'' (snd (snd (select_variant ''u'' ''m1'' ''m1'' chat_varied)))) = [None]"
proof -
  obtain r ds st' where s: "select_variant ''u'' ''m1'' ''m1'' chat_varied = (r, ds, st')" by (metis prod_cases3)
  have ok: "\<not> isl (fst (select_variant ''u'' ''m1'' ''m1'' chat_varied))" by code_simp
  then obtain x where "r = Inr x" using s by (cases r) auto
  then have "gu_messages (fold apply_delta ds (open_view (the (load_owned_conversation ''c'' ''u'' chat_varied)) chat_opened))
      = gu_messages (open_view (the (load_owned_conversation ''c'' ''u'' chat_varied)) chat_opened)"
    using selection_not_shown [of "''u''" "''m1''" "''m1''" chat_varied x ds st'] s by blast
  moreover have "map sm_selected (gu_messages (open_view (the (load_owned_conversation ''c'' ''u'' chat_varied)) chat_opened)) = [Some ''v1'']"
    by code_simp
  moreover have "map ms_selected (timeline ''c'' (snd (snd (select_variant ''u'' ''m1'' ''m1'' chat_varied)))) = [None]" by code_simp
  ultimately show ?thesis using s by simp
qed

section \<open>What deleting a conversation keeps\<close>

lemma promote_memories_rows:
  "promote_memories v now es sent st = (sent', st') \<Longrightarrow>
     map (me_id \<circ> mw_entry) (st_memories st') = map (me_id \<circ> mw_entry) (st_memories st)
     \<and> (\<forall>r \<in> set (st_memories st). me_id (mw_entry r) \<notin> me_id ` set es \<longrightarrow> r \<in> set (st_memories st'))"
proof (induction es arbitrary: sent st)
  case (Cons e es)
  obtain d st1 where l: "log_delta v ''memory'' (me_id e) Update (MemoryPayload (e\<lparr> me_conversation := None, me_updated := now \<rparr>)) st = (d, st1)"
    by fastforce
  define f where "f = (\<lambda>r :: memory_row. if me_id (mw_entry r) = me_id e \<and> mw_owner r = v
     then r\<lparr> mw_entry := (mw_entry r)\<lparr> me_conversation := None, me_updated := now, me_revision := dl_revision d \<rparr> \<rparr> else r)"
  have pr: "promote_memories v now es (sent @ [d]) (st1\<lparr> st_memories := map f (st_memories st1) \<rparr>) = (sent', st')"
    using Cons.prems l by (simp add: f_def)
  have id: "me_id (mw_entry (f r)) = me_id (mw_entry r)" for r by (simp add: f_def)
  have st1: "st_memories st1 = st_memories st" using log_delta_simps(6) [OF l] .
  have IH: "map (me_id \<circ> mw_entry) (st_memories st') = map (me_id \<circ> mw_entry) (map f (st_memories st))"
    "\<forall>r \<in> set (map f (st_memories st)). me_id (mw_entry r) \<notin> me_id ` set es \<longrightarrow> r \<in> set (st_memories st')"
    using Cons.IH [OF pr] by (simp_all add: st1 comp_def)
  have "r \<in> set (st_memories st')" if "r \<in> set (st_memories st)" "me_id (mw_entry r) \<notin> me_id ` set (e # es)" for r
  proof -
    have "f r = r" using that(2) by (simp add: f_def)
    then have "r \<in> set (map f (st_memories st))" using that(1) by force
    then show ?thesis using bspec [OF IH(2), of r] that(2) by simp
  qed
  then show ?case using IH(1) id by (simp add: comp_def)
qed simp

text \<open>
  A conversation one of whose memories is not among the 500 that are listed and promoted cannot be deleted: the
  memory still refers to it, the foreign key refuses the deletion, and everything is rolled back.
\<close>

theorem unlisted_memory_blocks_deletion:
  assumes "own_conversation u c st" "r \<in> set (st_memories st)" "me_conversation (mw_entry r) = Some c"
    and "list_memories u (Some c) None st = Inr listed" "me_id (mw_entry r) \<notin> me_id ` set listed"
  shows "delete_entity u ConversationEntity c now st = (Inl ''FOREIGN KEY constraint failed'', [], st)"
proof -
  obtain sent st1 where p: "promote_memories u now listed [] st = (sent, st1)" by fastforce
  have "r \<in> set (st_memories st1)" using promote_memories_rows [OF p] assms(2,5) by blast
  then have "list_ex (\<lambda>r. me_conversation (mw_entry r) = Some c) (st_memories st1)" using assms(3) by (auto simp: list_ex_iff)
  moreover have "own_conversation u c st1"
    using assms(1) promote_memories_grow [OF p] by (auto simp: own_conversation_def find_conversation_def)
  ultimately show ?thesis using assms(4) p by (simp add: delete_entity_def refuse_def)
qed

text \<open>An account with one memory of the chat, older than 500 others of the account.\<close>

definition old_memory :: "string option \<Rightarrow> nat \<Rightarrow> memory_row" where
  "old_memory c n = \<lparr> mw_owner = ''u'', mw_status = 0, mw_entry = \<lparr> me_id = replicate n CHR ''m'', me_conversation = c,
     me_character = None, me_kind = Fact, me_content = ''likes tea'', me_importance = 50, me_pinned = False, me_confidence = 1,
     me_source = Manual, me_source_ids = [], me_created = ''t'', me_updated = ''t'', me_revision = n \<rparr> \<rparr>"

definition full_account :: store where
  "full_account = chat_start\<lparr> st_memories := old_memory (Some ''c'') 0 # map (old_memory None) [1..<501] \<rparr>"

lemma full_account_listed:
  "list_memories ''u'' (Some ''c'') None full_account = Inr (rev (map (mw_entry \<circ> old_memory None) [1..<501]))"
proof -
  define es where "es = mw_entry (old_memory (Some ''c'') 0) # map (mw_entry \<circ> old_memory None) [1..<501]"
  have "sorted (map (\<lambda>e. (me_pinned e, me_updated e, me_revision e)) es)"
    by (simp add: es_def old_memory_def comp_def sorted_map sorted_wrt_upt less_eq_prod_def)
  then have "sort_key (\<lambda>e. (me_pinned e, me_updated e, me_revision e)) es = es" by (simp add: sorted_sort_id sort_key_id_if_sorted)
  moreover have "length es = 501" by (simp add: es_def)
  moreover have "own_conversation ''u'' ''c'' full_account" by (simp add: own_conversation_def find_conversation_def full_account_def chat_start_def)
  moreover have "filter (\<lambda>r. mw_owner r = ''u'' \<and> mw_status r = 0
      \<and> (Some ''c'' = None \<or> me_conversation (mw_entry r) = None \<or> me_conversation (mw_entry r) = Some ''c'')
      \<and> ((None :: string option) = None \<or> me_character (mw_entry r) = None)) (st_memories full_account) = st_memories full_account"
    by (rule filter_True) (auto simp: full_account_def old_memory_def)
  moreover have "map mw_entry (st_memories full_account) = es" by (simp add: es_def full_account_def)
  ultimately have "list_memories ''u'' (Some ''c'') None full_account = Inr (take 500 (rev es))"
    by (simp only: list_memories_def option.case not_not if_False simp_thms)
  then show ?thesis by (simp add: es_def)
qed

theorem unlisted_memory_blocks_deletion_witness:
  "delete_entity ''u'' ConversationEntity ''c'' ''t9'' full_account = (Inl ''FOREIGN KEY constraint failed'', [], full_account)"
proof (rule unlisted_memory_blocks_deletion [where r = "old_memory (Some ''c'') 0"])
  show "own_conversation ''u'' ''c'' full_account" by (simp add: own_conversation_def find_conversation_def full_account_def chat_start_def)
  show "old_memory (Some ''c'') 0 \<in> set (st_memories full_account)" by (simp add: full_account_def)
  show "me_conversation (mw_entry (old_memory (Some ''c'') 0)) = Some ''c''" by (simp add: old_memory_def)
  show "list_memories ''u'' (Some ''c'') None full_account = Inr (rev (map (mw_entry \<circ> old_memory None) [1..<501]))"
    by (rule full_account_listed)
  show "me_id (mw_entry (old_memory (Some ''c'') 0)) \<notin> me_id ` set (rev (map (mw_entry \<circ> old_memory None) [1..<501]))"
    by (auto simp: old_memory_def)
qed

text \<open>
  C18: A deletion that succeeds announces what it removed and nothing else: the deltas it sent are the ones it logged, the
  messages that are gone are exactly those with a \<open>Delete\<close> delta, and they were all in conversations of the user.  When it
  was a conversation, its memories are kept, none refers to it any more, and the conversation is gone.
\<close>

theorem deletion_announced:
  assumes "chat_inv st" "delete_entity u kind i now st = (Inr r, sent, st')"
  shows "st_deltas st' = st_deltas st @ sent
    \<and> (\<forall>m \<in> set (st_messages st).
         (m \<in> set (st_messages st') \<longleftrightarrow> (\<forall>d \<in> set sent. \<not> (dl_op d = Delete \<and> dl_type d = ''message'' \<and> dl_id d = ms_id m)))
         \<and> (m \<in> set (st_messages st') \<or> own_conversation u (ms_conversation m) st))
    \<and> set (st_messages st') \<subseteq> set (st_messages st)
    \<and> (kind = ConversationEntity \<longrightarrow>
         map (me_id \<circ> mw_entry) (st_memories st') = map (me_id \<circ> mw_entry) (st_memories st)
         \<and> (\<forall>x \<in> set (st_memories st'). me_conversation (mw_entry x) \<noteq> Some i) \<and> \<not> own_conversation u i st')"
  using assms(2)
proof (cases rule: delete_entity_cases)
  case (2 promoted st1 deleted st2 ds1 ds2)
  have ds1: "grows st ds1 st1" "\<forall>d \<in> set ds1. dl_op d = Update" "st_messages st1 = st_messages st"
    "st_variants st1 = st_variants st" "st_conversations st1 = st_conversations st"
    using promote_memories_grow [OF 2(1)] by auto
  have inv1: "chat_inv st1" using chat_inv_quiet [OF assms(1) ds1(1,3,4)] .
  obtain p where p: "st_messages st2 = filter (\<lambda>m. \<not> p m) (st_messages st1)"
    "\<forall>m \<in> set (st_messages st1). p m \<longleftrightarrow> (''message'', ms_id m) \<in> set deleted"
    "\<forall>m \<in> set (st_messages st1). p m \<longrightarrow> own_conversation u (ms_conversation m) st1"
    "st_deltas st2 = st_deltas st1" "st_revision st2 = st_revision st1"
    by (rule delete_owned_removes [OF inv1 2(2)])
  have ds2: "grows st2 ds2 st'" "map (\<lambda>d. (dl_type d, dl_id d)) ds2 = deleted" "\<forall>d \<in> set ds2. dl_op d = Delete"
    "st_messages st' = st_messages st2" "st_memories st' = st_memories st2" "st_conversations st' = st_conversations st2"
    using log_deletions_grow [OF 2(3)] 2(4) by auto
  have log: "st_deltas st' = st_deltas st @ sent" using ds1(1) ds2(1) p(4) 2(4) by (simp add: grows_def)
  have announced: "(''message'', x) \<in> set deleted \<longleftrightarrow> (\<exists>d \<in> set sent. dl_op d = Delete \<and> dl_type d = ''message'' \<and> dl_id d = x)" for x
  proof -
    have "(''message'', x) \<in> set deleted \<longleftrightarrow> (\<exists>d \<in> set ds2. dl_type d = ''message'' \<and> dl_id d = x)"
      unfolding ds2(2) [symmetric] by force
    moreover have "d \<in> set ds2" if "d \<in> set sent" "dl_op d = Delete" for d
      using that ds1(2) 2(4) by auto
    ultimately show ?thesis using ds2(3) 2(4) by auto
  qed
  have own: "own_conversation u c' st1 = own_conversation u c' st" for c'
    by (simp add: own_conversation_def find_conversation_def ds1(5))
  have messages: "m \<in> set (st_messages st') \<longleftrightarrow> m \<in> set (st_messages st) \<and> \<not> p m" for m
    using ds2(4) p(1) ds1(3) by simp
  have conv: "map (me_id \<circ> mw_entry) (st_memories st') = map (me_id \<circ> mw_entry) (st_memories st)
      \<and> (\<forall>x \<in> set (st_memories st'). me_conversation (mw_entry x) \<noteq> Some i) \<and> \<not> own_conversation u i st'"
    if k: "kind = ConversationEntity"
  proof -
    have "\<not> list_ex (\<lambda>r. me_conversation (mw_entry r) = Some i) (st_memories st1)" "st_memories st2 = st_memories st1"
      "st_conversations st2 = filter (\<lambda>r. \<not> (co_id r = i \<and> co_owner r = u)) (st_conversations st1)"
      using 2(2) unfolding k delete_owned_entity.simps by (auto simp: remove_messages_def split: if_splits)
    then show ?thesis
      using promote_memories_rows [OF 2(1)] ds2(5,6)
      by (auto simp: list_ex_iff own_conversation_def find_conversation_def find_None_iff)
  qed
  show ?thesis using log messages announced p(2,3) own ds1(3) conv by auto
qed auto

definition chat_remembered :: store where
  "chat_remembered = chat_start\<lparr> st_memories := [old_memory (Some ''c'') 1, old_memory None 2] \<rparr>"

theorem deletion_announced_witness:
  "map (\<lambda>d. (dl_type d, dl_id d)) (fst (snd (delete_entity ''u'' ConversationEntity ''c'' ''t9'' chat_remembered)))
     = [(''memory'', ''mm''), (''memory'', ''m''), (''message'', ''m1''), (''conversation'', ''c'')]
   \<and> st_deltas (snd (snd (delete_entity ''u'' ConversationEntity ''c'' ''t9'' chat_remembered)))
     = st_deltas chat_remembered @ fst (snd (delete_entity ''u'' ConversationEntity ''c'' ''t9'' chat_remembered))"
proof -
  obtain r sent st' where e: "delete_entity ''u'' ConversationEntity ''c'' ''t9'' chat_remembered = (r, sent, st')" by (metis prod_cases3)
  have "\<not> isl (fst (delete_entity ''u'' ConversationEntity ''c'' ''t9'' chat_remembered))" "chat_inv chat_remembered" by code_simp+
  then obtain x where x: "r = Inr x" "chat_inv chat_remembered" using e by (cases r) auto
  have "map (\<lambda>d. (dl_type d, dl_id d)) (fst (snd (delete_entity ''u'' ConversationEntity ''c'' ''t9'' chat_remembered)))
     = [(''memory'', ''mm''), (''memory'', ''m''), (''message'', ''m1''), (''conversation'', ''c'')]" by code_simp
  then show ?thesis using deletion_announced [OF x(2) e [unfolded x(1)]] e by simp
qed

section \<open>Further facts\<close>

text \<open>Deleting an account takes its characters out of other accounts' chats and removes other accounts' memories of them,
  but nothing is logged for those accounts.\<close>

theorem account_deletion_unannounced:
  assumes "delete_user known admin user st = (Inr r, ds, st')" "u \<noteq> user"
  shows "ds = [] \<and> log_of u st' = log_of u st
    \<and> (\<forall>row \<in> set (st_conversations st'). \<forall>x \<in> set (st_characters st). ca_owner x = user \<longrightarrow> ca_id x \<notin> set (co_participants row))"
  using assms by (auto simp: delete_user_def refuse_def Let_def log_of_def split: if_splits intro: filter_cong)

text \<open>The delta that names a chat carries the state and summary read before the model was asked for a title: a change made
  meanwhile is in the row, but a client that applies the log in order ends with the old one.\<close>

definition chat_named :: store where
  "chat_named = (case naming_due ''u'' ''c'' (chat_run (\<lambda>_. 0) (\<lambda>_. None) [(''u'', SendMessage ''c'' ''m2'' ''Hi'' None ''t2'')] chat_start) of
     None \<Rightarrow> chat_start
   | Some row \<Rightarrow> chat_run (\<lambda>_. 0) (\<lambda>_. None) [(''u'', SendMessage ''c'' ''m2'' ''Hi'' None ''t2''),
       (''u'', UpdateConversationState ''c'' ''stormy'' []), (''u'', NameChat row ''Hi'' (Some ''A greeting''))] chat_start)"

lemma naming_logs_stale_state:
  "map co_state (st_conversations chat_named) = [''stormy'']
   \<and> gu_state (fold apply_delta (sync_deltas ''u'' 2 chat_named) chat_opened) (''conversation'', ''c'')
     = Some (ConversationPayload ''A greeting'' Direct [''ada''] ''calm'' [])"
  by code_simp

lemma clip_nonempty: "s \<noteq> [] \<Longrightarrow> 0 < n \<Longrightarrow> clip s n \<noteq> []"
  by (cases s; cases n) (simp_all add: clip_def)

text \<open>A chat never gets an empty title.\<close>

lemma clean_chat_title_nonempty: "clean_chat_title candidate fallback \<noteq> []"
  by (simp add: clean_chat_title_def fallback_chat_title_def Let_def clip_nonempty)

text \<open>The tables as the generation loop sees them: saving a reply here is saving it there.\<close>

definition reply_tables :: "store \<Rightarrow> chat_db" where
  "reply_tables st =
     \<lparr> ch_messages = map (\<lambda>m. \<lparr> rw_id = ms_id m, rw_conversation = ms_conversation m, rw_author_id = ms_author m,
         rw_content = ms_content m, rw_selected = ms_selected m, rw_image = ms_image m, rw_revision = ms_revision m \<rparr>) (st_messages st),
       ch_variants = map (\<lambda>v. \<lparr> va_id = vr_id v, va_message = vr_message v, va_content = vr_content v, va_revision = vr_revision v \<rparr>) (st_variants st),
       ch_deltas = map (\<lambda>d. (dl_owner d, dl_revision d)) (st_deltas st), ch_revision = st_revision st \<rparr>"

lemma one_message:
  "distinct (map ms_id ms) \<Longrightarrow> list_ex (\<lambda>r. ms_id r = p \<and> ms_conversation r = c) ms \<Longrightarrow>
     length (filter (\<lambda>r. ms_id r = p \<and> ms_conversation r = c) ms) = 1"
proof (induction ms)
  case (Cons m ms)
  have "filter (\<lambda>r. ms_id r = p \<and> ms_conversation r = c) ms = []" if m: "ms_id m = p"
  proof -
    have "ms_id m \<notin> ms_id ` set ms" using Cons.prems(1) by simp
    then show ?thesis using m unfolding filter_empty_conv by blast
  qed
  then show ?case using Cons by (cases "ms_id m = p \<and> ms_conversation m = c") auto
qed simp

theorem save_generation_refines:
  assumes "chat_inv st" "save_generation owner c speaker i content parent picture now st = (Inr (j, n), sent, st')"
  shows "persist_generation owner c speaker i content parent picture (reply_tables st) = (Inr n, reply_tables st')"
proof (cases parent)
  case None
  then show ?thesis
    using assms(2)
    by (auto simp: save_generation_def insert_message_def new_message_def log_delta_def Let_def refuse_def persist_generation_def
        reply_tables_def list_ex_iff list.pred_map split: if_splits)
next
  case (Some p)
  have ok: "\<not> list_ex (\<lambda>r. vr_id r = i) (st_variants st)" "list_ex (\<lambda>r. ms_id r = p \<and> ms_conversation r = c) (st_messages st)"
    using assms(2) Some by (auto simp: save_generation_def refuse_def split: if_splits)
  have dist: "distinct (map ms_id (st_messages st))" using assms(1) by (simp add: chat_inv_def)
  obtain m where m: "m \<in> set (st_messages st)" "ms_id m = p" "ms_conversation m = c" using ok(2) by (auto simp: list_ex_iff)
  have conv: "ms_conversation x = c" if "x \<in> set (st_messages st)" "ms_id x = p" for x
    using dist that m unfolding distinct_map by (metis inj_onD)
  have ex: "list_ex (\<lambda>r. ms_id r = p) (st_messages st)" using m by (auto simp: list_ex_iff)
  have "\<not> list_ex (\<lambda>v. va_id v = i) (ch_variants (reply_tables st))" using ok(1) by (simp add: reply_tables_def list_ex_iff)
  moreover have "length (filter (\<lambda>r. rw_id r = p \<and> rw_conversation r = c) (ch_messages (reply_tables st))) = 1"
    using one_message [OF dist ok(2)] by (simp add: reply_tables_def filter_map comp_def)
  ultimately have "persist_generation owner c speaker i content parent picture (reply_tables st) = (Inr (st_revision st + 1),
      \<lparr> ch_messages = map (\<lambda>r. if rw_id r = p \<and> rw_conversation r = c
          then r\<lparr> rw_selected := Some i, rw_image := picture, rw_revision := st_revision st + 1 \<rparr> else r) (ch_messages (reply_tables st)),
        ch_variants = ch_variants (reply_tables st) @ [\<lparr> va_id = i, va_message = p, va_content = content, va_revision = st_revision st + 1 \<rparr>],
        ch_deltas = ch_deltas (reply_tables st) @ [(owner, st_revision st + 1)], ch_revision = st_revision st + 1 \<rparr>)"
    using Some by (simp add: persist_generation_def Let_def) (simp add: reply_tables_def)
  then show ?thesis
    using assms(2) Some ok ex conv
    by (auto simp: save_generation_def log_delta_def Let_def reply_tables_def update_message_row_def)
qed

end
