(* ===== verification/Spec2Isabelle.thy ===== *)
theory Spec2Isabelle
  imports Prelude Framing Wire MetalWire Workload RustStr Prompt Catalog Plan ExpertCacheProps ReaderPoolProps
    ResidencyProps EngramProps Utf8 TokenizerProps EngramHash MetalServerProps Sampler MetalSessionProps
    MetalListener Speaker MemoryCondense MemoryExtract MemoryRecall MemoryJobs
    World Generate Connection AdapterHost AdapterStream Routing Validation ChatMirror
begin

text \<open>
  \<^bold>\<open>Chatty\<close>: a character chat service.  Clients (\<^verbatim>\<open>chatty-gui\<close>) talk to a broker (\<^verbatim>\<open>chatty-broker\<close>)
  over a framed protocol (\<^verbatim>\<open>chatty-protocol\<close>); the broker keeps conversations and memories in a
  database, assembles prompts and calls an inference backend.  One backend is the repository's own
  appliance (\<^verbatim>\<open>chatty-metal\<close>), reached over a second framed protocol (\<^verbatim>\<open>chatty-metal-protocol\<close>): it
  tokenizes the prompt, runs a mixture-of-experts model whose weights are cached in VRAM and RAM in
  front of a drive, samples tokens and streams text back.  Paths below are relative to
  \<^verbatim>\<open>src/crates/\<close>.

  \<^bold>\<open>How the theories follow the code.\<close>  Each theory has the source's data as records and datatypes and
  one definition per function, branch for branch; panics and errors are values.  Threads are step
  functions on a shared state with a reachability predicate over all interleavings.  Third-party code
  and hardware (zstd, serde, the regex engine, Unicode tables, GPU kernels, floating point, SQLite's
  row order, clocks, sockets, the language model's answers) are arguments of the definitions that use
  them, with what is relied on as named hypotheses.

  \<^item> \<open>Prelude\<close>, \<open>RustStr\<close>, \<open>Utf8\<close>: results and \<^verbatim>\<open>?\<close>, saturating and wrapping arithmetic, big-endian bytes,
    Rust strings as UTF-8 byte lists, \<^verbatim>\<open>str::from_utf8\<close> and lossy decoding.
  \<^item> \<open>Framing\<close>, \<open>Wire\<close> (\<^verbatim>\<open>chatty-protocol/src/frame.rs\<close>), \<open>MetalWire\<close> (\<^verbatim>\<open>chatty-metal-protocol/src/lib.rs\<close>):
    message types, headers, compression and validation.  The locale \<open>message_codes\<close> is the
    contract of a type code, interpreted for both protocols.  Shown: frames read back as written unless
    they are too long to be received, a received payload is bounded even when compressed, and the buffered
    codec equals the plain reader for every chunking of what a peer sends.  Of zstd it is assumed that what a
    compressor produced decompresses to its input, by the streaming as by the bulk decoder.
  \<^item> \<open>Workload\<close> (\<^verbatim>\<open>chatty-broker/src/workload.rs\<close>): the gate between text and image models as a step
    relation over tasks.  Shown: mutual exclusion, exact counters, and no lost wake-up.
  \<^item> \<open>Prompt\<close> (token budgets of \<^verbatim>\<open>systems/inference.rs\<close> and the configuration of
    \<^verbatim>\<open>chatty-protocol/src/admin.rs\<close>): the assembled prompt fits the window and keeps the newest turns.
  \<^item> \<open>Speaker\<close> (\<^verbatim>\<open>systems/inference.rs\<close>): who speaks next in a group.  Shown: a participant, never the
    author of the newest message, and round robin is fair.
  \<^item> \<open>MemoryStore\<close>, \<open>MemoryCondense\<close>, \<open>MemoryExtract\<close>, \<open>MemoryRecall\<close>, \<open>MemoryJobs\<close> (\<^verbatim>\<open>systems/memory.rs\<close> and
    \<^verbatim>\<open>systems/inference.rs\<close>): long-term memories, as operations on a list of rows with a revision counter.
    Shown: a saved memory is found as returned, condensing touches only what it may, the extraction's
    checkpoint passes no unread message and moves forward, pinned memories are recalled first, and no
    reply is forgotten by the background jobs.
  \<^item> \<open>World\<close> (\<^verbatim>\<open>chatty-protocol/src/world.rs\<close>): limits of roleplay worlds and the choice of their facts for a
    prompt.  Shown: within the budget, only active facts of the speaker, common knowledge first.
  \<^item> \<open>Generate\<close> (\<^verbatim>\<open>generate\<close> and \<^verbatim>\<open>persist_generation\<close> of \<^verbatim>\<open>systems/inference.rs\<close>): one reply from the choice of
    model and speaker to the saved row, built on \<open>Speaker\<close>, \<open>World\<close>, \<open>MemoryRecall\<close>, \<open>Prompt\<close> and
    \<open>MemoryJobs\<close>.  Shown: the reply is saved exactly as it was streamed, and a failure stores no part of it.
  \<^item> \<open>Connection\<close> (\<^verbatim>\<open>chatty-broker/src/transport.rs\<close> and the parts of \<^verbatim>\<open>main.rs\<close> it relies on): the registry of
    cancellable work over all connections and tasks, and the forwarding of changes.  Shown: what a cancel
    reaches, the run in which it is lost, and that no connection misses a change silently.
  \<^item> \<open>Validation\<close> (\<^verbatim>\<open>systems/admin.rs\<close>, \<^verbatim>\<open>utils.rs\<close>): the checks on settings, image workflows, accounts and characters.
    Shown: stored settings leave room for a prompt, and a stored character but for its id fits a frame.
  \<^item> \<open>ChatStore\<close> (\<^verbatim>\<open>systems/conversations.rs\<close>, the requests of \<^verbatim>\<open>main.rs\<close> that change chats, administrators' among them, and the
    portraits of \<^verbatim>\<open>systems/emotion.rs\<close>), \<open>ChatClient\<close>
    (\<^verbatim>\<open>apply_delta\<close> of \<^verbatim>\<open>chatty-gui/src/app/events.rs\<close>), \<open>ChatMirror\<close>: the tables, the log of deltas each request adds to, and
    the client's copy.  Shown: a client that opened a chat and catches up shows it as the tables hold it, whatever
    requests came between but the selection of a variant and the deletion of its own account; a deletion announces exactly what it removed; and the
    states in which a selection is not shown, a conversation cannot be deleted, and the log has an old state.  Saving a
    reply here refines the same function in \<open>Generate\<close>.
  \<^item> \<open>AdapterHost\<close>, \<open>AdapterStream\<close> (\<^verbatim>\<open>chatty-broker/src/adapters/runtime/mod.rs\<close>): the host of untrusted API adapters and
    the streams it returns.  The locale \<open>adapter_stream\<close> is what the generation loop needs of a stream,
    interpreted for the HTTP stream, the appliance's and their union.  Shown: a guest cannot reach another
    origin, records arrive whole for every chunking, and a reply ends with its stream: each pass of the
    generation loop's \<^verbatim>\<open>select!\<close>, with its cancellation, timer and stream branches in their order, uses up a wake-up,
    a stream item or the one flush that can follow an item.
  \<^item> \<open>Catalog\<close> (\<^verbatim>\<open>chatty-metal/src/catalog.rs\<close>), \<open>Plan\<close> (\<^verbatim>\<open>plan.rs\<close>), \<open>ReadPlan\<close> and \<open>ReaderPool*\<close> (the reads of
    \<^verbatim>\<open>store.rs\<close>): the weight index, the memory plan, the split of extents into aligned reads and the
    worker pool that runs them.  Shown: every extent lies in its shard, plans do not overcommit, reads
    deliver exactly the requested bytes under every interleaving and end.
  \<^item> \<open>ExpertCache*\<close> (\<^verbatim>\<open>store.rs\<close>): the exclusive two-tier cache of experts.  The locale \<open>exclusive_tier\<close> holds the
    laws of one tier, interpreted for VRAM and RAM.  Shown: the bytes behind every returned view, no
    panic while cold experts get distinct slots, and the runs in which they do not.
  \<^item> \<open>Residency*\<close> (\<^verbatim>\<open>residency.rs\<close>): background promotion and fetching by two workers.  Shown: mapped slots hold
    their expert under every interleaving, claimed experts stay, waiting ends unless a fetch failed.
  \<^item> \<open>Routing\<close> (\<^verbatim>\<open>routing.rs\<close>): the trace of routed experts and its replay through two LRU tiers.  Shown: the
    replay serves every use by its reuse distance.
  \<^item> \<open>EngramCache\<close>, \<open>EngramProps\<close>, \<open>EngramHash\<close> (\<^verbatim>\<open>store.rs\<close>, \<^verbatim>\<open>engram.rs\<close>): the row cache, the hashing of
    n-grams to rows, and their composition as the model's forward step uses it.  The locale
    \<open>row_cache\<close> is what a lookup needs of a cache.  Shown: lookups refine reading the drive.
  \<^item> \<open>Tokenizer*\<close> (\<^verbatim>\<open>tokenizer.rs\<close>): byte-pair encoding.  Shown: nothing is lost, no text forges a role marker.
  \<^item> \<open>MetalServer*\<close>, \<open>Sampler\<close>, \<open>MetalSession*\<close>, \<open>MetalListener\<close> (\<^verbatim>\<open>server.rs\<close> and the broker's client
    \<^verbatim>\<open>chatty-broker/src/adapters/metal.rs\<close>): the generation job, the sampler, the connection from both ends, and
    the port.  The locale \<open>unstable_sorting\<close> is the contract of the standard library's unstable sorts.
    Shown: the event sequence, the context limit, the streamed text, and for a whole exchange that the
    broker gets the job's reply or an error, never a truncated reply.

  \<^bold>\<open>Bounds and fuel.\<close>  Machine integers keep their width where the code can wrap (lengths, sequence numbers,
    offsets of the read planner, the sampler's generator, hashes).  Loops are recursive functions with
    termination proofs; the decode loop ends because every round counts against the requested tokens.
    The splitting of an extent, which may not end, is a partial function, and its theorem says exactly
    when it ends.  The stream drained in \<open>MetalSessionProps\<close> takes one more poll than there are answers, the one
    in \<open>AdapterHost\<close> two more than there are chunks; both are shown to be enough.  The events of the generation
    loop are a finite list: it has no result exactly while none of them ends it.  \<open>AdapterStream\<close> derives them from
    what is ready at each pass and bounds the passes by twice the items left, the wake-ups and one.

  \<^bold>\<open>Not modelled.\<close>  The GUI but for its copy of the chats, the GPU kernels and tensor arithmetic, the device driver interface, boot and
  debug tools, the WASM interpreter and its guests, HTTP, TLS and SQL text: input and output, hardware, or calls
  into libraries the repository does not contain.  Of the broker's request handlers only the parts named
  above are modelled; the rest answer queries, manage accounts or call a backend.  Timeouts are failed reads.
\<close>

end
